(* ===== verification/CPrelude.thy ===== *)
theory CPrelude
  imports Main "HOL-Library.Monad_Syntax" "HOL-Library.Char_ord" "HOL-Library.List_Lexorder"
begin

text \<open>
  What the components share of C: character pointers, the string functions of the C
  library that the sources call, the outcome of \<open>malloc\<close> and the arithmetic of a signed
  counter.

  A value of type \<open>'a option\<close> in this development is the outcome of running a piece of C:
  \<open>Some\<close> is a defined result, \<open>None\<close> is undefined behaviour (a dereference of a null,
  indeterminate or dangling pointer, an access out of bounds, a signed overflow) or a loop
  that does not end. A theorem that an operation yields \<open>Some\<close> therefore shows that
  it returns and that nothing undefined happens on the way.
\<close>

named_theorems cmem \<open>rewrite rules for reading and writing the modelled memory\<close>

section \<open>Character pointers\<close>

text \<open>
  A \<open>char *\<close> is null, points to a NUL-terminated string (given by the characters before
  the NUL), or is wild: an indeterminate value, as an uninitialised stack slot holds.
\<close>

datatype cptr = Null | Str string | Wild

fun deref :: "cptr \<Rightarrow> string option" where
  "deref Null = None"
| "deref (Str s) = Some s"
| "deref Wild = None"

text \<open>The pointer that stands for an optional string.\<close>

fun ptr_of :: "string option \<Rightarrow> cptr" where
  "ptr_of None = Null"
| "ptr_of (Some s) = Str s"

lemma ptr_of_eq_Null [simp]: "ptr_of x = Null \<longleftrightarrow> x = None"
  by (cases x) auto

lemma ptr_of_eq_Str [simp]: "ptr_of x = Str s \<longleftrightarrow> x = Some s"
  by (cases x) auto

lemma ptr_of_inject [simp]: "ptr_of x = ptr_of y \<longleftrightarrow> x = y"
  by (cases x; cases y) auto

lemma deref_eq_Some [simp]: "deref p = Some s \<longleftrightarrow> p = Str s"
  by (cases p) auto

section \<open>String functions\<close>

text \<open>
  \<open>strcmp\<close> compares as \<open>unsigned char\<close>. Only the sign of its result is specified by the
  language and used by the sources; the model returns -1, 0 or 1.
\<close>

fun strcmp :: "string \<Rightarrow> string \<Rightarrow> int" where
  "strcmp [] [] = 0"
| "strcmp [] (_ # _) = -1"
| "strcmp (_ # _) [] = 1"
| "strcmp (a # as) (b # bs) =
     (if a = b then strcmp as bs else if (of_char a :: nat) < of_char b then -1 else 1)"

lemma strcmp_eq_0 [simp]: "strcmp s t = 0 \<longleftrightarrow> s = t"
  by (induction s t rule: strcmp.induct) auto

lemma strcmp_less_0 [simp]: "strcmp s t < 0 \<longleftrightarrow> s < t"
  by (induction s t rule: strcmp.induct) (auto simp: less_char_def)

lemma strcmp_greater_0 [simp]: "0 < strcmp s t \<longleftrightarrow> t < s"
  using strcmp_eq_0 [of s t] strcmp_less_0 [of s t] by (metis linorder_neqE not_less_iff_gr_or_eq)

section \<open>Allocation\<close>

text \<open>
  The outcomes of the allocations still to come: \<open>True\<close> for a success. When the list is
  used up every further allocation succeeds, so the lists range over all finite patterns of
  failures.
\<close>

type_synonym mallocs = "bool list"

fun kvstore_malloc :: "mallocs \<Rightarrow> bool \<times> mallocs" where
  "kvstore_malloc [] = (True, [])"
| "kvstore_malloc (b # bs) = (b, bs)"

section \<open>Signed counters\<close>

definition INT_MAX :: int where
  "INT_MAX = 2 ^ 31 - 1"

definition INT_MIN :: int where
  "INT_MIN = - (2 ^ 31)"

text \<open>\<open>n++\<close> and \<open>n--\<close> on an \<open>int\<close>: undefined on overflow.\<close>

definition c_inc :: "int \<Rightarrow> int option" where
  "c_inc n = (if n < INT_MAX then Some (n + 1) else None)"

definition c_dec :: "int \<Rightarrow> int option" where
  "c_dec n = (if INT_MIN < n then Some (n - 1) else None)"

lemma c_inc_Some [simp]: "n < INT_MAX \<Longrightarrow> c_inc n = Some (n + 1)"
  by (simp add: c_inc_def)

lemma c_dec_Some [simp]: "0 \<le> n \<Longrightarrow> c_dec n = Some (n - 1)"
  by (simp add: c_dec_def INT_MIN_def)

end
