(* ===== verification/Mp_V1.thy ===== *)
theory Mp_V1
  imports CPrelude
begin

text \<open>
  The fixed-size memory pool of \<open>kvstore_mpv1.c\<close>: one page cut into blocks, the free blocks
  linked through their first word.
\<close>

section \<open>Data\<close>

definition MEM_PAGE_SIZE :: nat where
  "MEM_PAGE_SIZE = 4096"

text \<open>
  Pointers into the page are offsets; NULL is \<open>None\<close>. The page is the map from offsets to the
  pointer stored there; a word that holds no pointer is absent. Reading or writing a word that
  does not lie inside the page is undefined.
\<close>

type_synonym mptr = "nat option"

record mempool_s =
  block_size :: nat
  free_count :: nat
  free_ptr :: mptr
  mem :: "(nat \<rightharpoonup> mptr) option"

definition word_in_page :: "nat \<Rightarrow> bool" where
  "word_in_page p \<longleftrightarrow> p + 8 \<le> MEM_PAGE_SIZE"

definition load :: "mempool_s \<Rightarrow> nat \<Rightarrow> mptr option" where
  "load m p = do { pg \<leftarrow> mem m; if word_in_page p then pg p else None }"

definition store :: "mempool_s \<Rightarrow> nat \<Rightarrow> mptr \<Rightarrow> mempool_s option" where
  "store m p q =
     do { pg \<leftarrow> mem m; if word_in_page p then Some (m\<lparr>mem := Some (pg(p \<mapsto> q))\<rparr>) else None }"

section \<open>Operations\<close>

text \<open>The loop of \<open>mp_init\<close> from \<open>ptr\<close> on for \<open>n\<close> more blocks, and the last store.\<close>

fun init_loop :: "mempool_s \<Rightarrow> nat \<Rightarrow> nat \<Rightarrow> nat \<Rightarrow> mempool_s option" where
  "init_loop m sz ptr 0 = store m ptr None"
| "init_loop m sz ptr (Suc n) =
     do { m \<leftarrow> store m ptr (Some (ptr + sz)); init_loop m sz (ptr + sz) n }"

definition mp_init :: "mempool_s \<Rightarrow> int \<Rightarrow> mallocs \<Rightarrow> (int option \<times> mempool_s) option" where
  "mp_init m sz ms =
     (let sz = nat (if sz < 16 then 16 else sz);
          m = m\<lparr>block_size := sz\<rparr>;
          (ok, _) = kvstore_malloc ms
      in if \<not> ok then Some (Some (-2), m\<lparr>mem := None\<rparr>)
         else do {
           let m = m\<lparr>mem := Some Map.empty\<rparr>;
           let m = m\<lparr>free_ptr := Some 0, free_count := MEM_PAGE_SIZE div sz\<rparr>;
           m \<leftarrow> init_loop m sz 0 (free_count m);
           Some (None, m) })"

definition mp_dest :: "mempool_s \<Rightarrow> mempool_s" where
  "mp_dest m = m\<lparr>mem := None\<rparr>"

definition mp_allock :: "mempool_s \<Rightarrow> (mptr \<times> mempool_s) option" where
  "mp_allock m =
     (if free_count m = 0 then Some (None, m)
      else do {
        p \<leftarrow> free_ptr m;
        next_free \<leftarrow> load m p;
        Some (Some p, m\<lparr>free_ptr := next_free, free_count := free_count m - 1\<rparr>) })"

definition mp_free :: "mempool_s \<Rightarrow> nat \<Rightarrow> mempool_s option" where
  "mp_free m p =
     do { m \<leftarrow> store m p (free_ptr m);
          Some (m\<lparr>free_ptr := Some p, free_count := free_count m + 1\<rparr>) }"

text \<open>What a client does to a block it owns: the first word may hold anything afterwards.\<close>

definition client_write :: "mempool_s \<Rightarrow> nat \<Rightarrow> mptr option \<Rightarrow> mempool_s" where
  "client_write m p x = m\<lparr>mem := map_option (\<lambda>pg. pg(p := x)) (mem m)\<rparr>"

section \<open>The free list\<close>

fun chain :: "(nat \<rightharpoonup> mptr) \<Rightarrow> mptr \<Rightarrow> nat list \<Rightarrow> bool" where
  "chain pg p [] \<longleftrightarrow> True"
| "chain pg p (b # bs) \<longleftrightarrow> p = Some b \<and> (\<exists>q. pg b = Some q \<and> chain pg q bs)"

lemma chain_upd: "b \<notin> set bs \<Longrightarrow> chain (pg(b := x)) p bs = chain pg p bs"
  by (induction bs arbitrary: p) auto

definition blocks :: "nat \<Rightarrow> nat set" where
  "blocks sz = (\<lambda>i. i * sz) ` {..<MEM_PAGE_SIZE div sz}"

text \<open>
  A pool whose blocks \<open>live\<close> are handed out: the free list holds the other blocks, each once.
\<close>

definition pool_ok :: "mempool_s \<Rightarrow> nat set \<Rightarrow> bool" where
  "pool_ok m live \<longleftrightarrow> 16 \<le> block_size m \<and> live \<subseteq> blocks (block_size m) \<and>
     (\<exists>pg bs. mem m = Some pg \<and> chain pg (free_ptr m) bs \<and> distinct bs \<and> length bs = free_count m \<and>
        set bs = blocks (block_size m) - live)"

text \<open>The states a pool can be in: after creation, allocations, releases and writes by clients.\<close>

inductive pool_reach :: "mempool_s \<Rightarrow> nat set \<Rightarrow> bool" where
  reach_init: "mp_init m0 sz ms = Some (None, m) \<Longrightarrow> pool_reach m {}"
| reach_alloc: "pool_reach m live \<Longrightarrow> mp_allock m = Some (Some p, m') \<Longrightarrow> pool_reach m' (insert p live)"
| reach_full: "pool_reach m live \<Longrightarrow> mp_allock m = Some (None, m') \<Longrightarrow> pool_reach m' live"
| reach_free: "pool_reach m live \<Longrightarrow> p \<in> live \<Longrightarrow> mp_free m p = Some m' \<Longrightarrow> pool_reach m' (live - {p})"
| reach_write: "pool_reach m live \<Longrightarrow> p \<in> live \<Longrightarrow> pool_reach (client_write m p x) live"

lemma blocks_in_page: "16 \<le> sz \<Longrightarrow> p \<in> blocks sz \<Longrightarrow> p + sz \<le> MEM_PAGE_SIZE \<and> word_in_page p"
proof -
  assume sz: "16 \<le> sz" and "p \<in> blocks sz"
  then obtain i where i: "p = i * sz" "i < MEM_PAGE_SIZE div sz" by (auto simp: blocks_def)
  then have "Suc i * sz \<le> MEM_PAGE_SIZE" by (meson Suc_leI less_eq_div_iff_mult_less_eq order_less_le_trans sz zero_less_numeral)
  then show ?thesis using i sz by (simp add: word_in_page_def)
qed

text \<open>The blocks are apart from each other.\<close>

lemma blocks_apart: "p \<in> blocks sz \<Longrightarrow> q \<in> blocks sz \<Longrightarrow> p < q \<Longrightarrow> p + sz \<le> q"
  unfolding blocks_def by auto (metis Suc_leI add.commute mult_Suc mult_le_mono1 mult_less_cancel2)

subsection \<open>Initialisation\<close>

lemma init_loop_other:
  "init_loop m sz ptr n = Some m' \<Longrightarrow>
     block_size m' = block_size m \<and> free_count m' = free_count m \<and> free_ptr m' = free_ptr m"
  by (induction m sz ptr n rule: init_loop.induct) (auto simp: store_def bind_eq_Some_conv split: if_splits)

lemma init_loop_chain:
  assumes "mem m = Some pg" and "0 < sz" and "ptr + n * sz + 8 \<le> MEM_PAGE_SIZE"
  shows "\<exists>pg'. init_loop m sz ptr n = Some (m\<lparr>mem := Some pg'\<rparr>) \<and> (\<forall>p < ptr. pg' p = pg p) \<and>
           chain pg' (Some ptr) (map (\<lambda>i. ptr + i * sz) [0..<n])"
  using assms
proof (induction n arbitrary: m pg ptr)
  case 0
  then show ?case by (auto simp: store_def word_in_page_def)
next
  case (Suc n)
  let ?m = "m\<lparr>mem := Some (pg(ptr \<mapsto> Some (ptr + sz)))\<rparr>"
  have st: "store m ptr (Some (ptr + sz)) = Some ?m" using Suc.prems by (simp add: store_def word_in_page_def)
  obtain pg' where pg': "init_loop ?m sz (ptr + sz) n = Some (?m\<lparr>mem := Some pg'\<rparr>)"
      "\<forall>p < ptr + sz. pg' p = (pg(ptr \<mapsto> Some (ptr + sz))) p"
      "chain pg' (Some (ptr + sz)) (map (\<lambda>i. ptr + sz + i * sz) [0..<n])"
    using Suc.IH [of ?m _ "ptr + sz"] Suc.prems by (auto simp: algebra_simps)
  have "map (\<lambda>i. ptr + i * sz) [0..<Suc n] = ptr # map (\<lambda>i. ptr + sz + i * sz) [0..<n]"
    by (simp add: map_upt_Suc algebra_simps del: upt_Suc)
  moreover have "pg' ptr = Some (Some (ptr + sz))" "\<forall>p < ptr. pg' p = pg p" using pg'(2) Suc.prems(2) by auto
  ultimately show ?case using st pg'(1,3) by (intro exI [of _ pg']) (simp del: upt_Suc)
qed

lemma init_loop_overflow:
  assumes "MEM_PAGE_SIZE < ptr + n * sz + 8"
  shows "init_loop m sz ptr n = None"
  using assms
proof (induction n arbitrary: m ptr)
  case 0
  then show ?case by (auto simp: store_def word_in_page_def split: Option.bind_split)
next
  case (Suc n)
  then have "init_loop m' sz (ptr + sz) n = None" for m' by (simp add: algebra_simps)
  then show ?case by (auto split: Option.bind_split)
qed

abbreviation clamp :: "int \<Rightarrow> nat" where
  "clamp sz \<equiv> nat (if sz < 16 then 16 else sz)"

lemma page_tail: "(MEM_PAGE_SIZE div sz) * sz + 8 \<le> MEM_PAGE_SIZE \<longleftrightarrow> 8 \<le> MEM_PAGE_SIZE mod sz"
  using div_mult_mod_eq [of MEM_PAGE_SIZE sz] by linarith

lemma mp_init_ok:
  assumes "8 \<le> MEM_PAGE_SIZE mod clamp sz"
  shows "\<exists>m. mp_init m0 sz [] = Some (None, m) \<and> pool_ok m {} \<and> block_size m = clamp sz"
proof -
  let ?n = "MEM_PAGE_SIZE div clamp sz"
  let ?m = "m0\<lparr>block_size := clamp sz, mem := Some Map.empty, free_ptr := Some 0, free_count := ?n\<rparr>"
  have pos: "0 < clamp sz" "16 \<le> clamp sz" by auto
  have fit: "0 + ?n * clamp sz + 8 \<le> MEM_PAGE_SIZE" using assms page_tail by simp
  have mm: "mem ?m = Some Map.empty" by simp
  from init_loop_chain [OF mm pos(1) fit] obtain pg where
    pg: "init_loop ?m (clamp sz) 0 ?n = Some (?m\<lparr>mem := Some pg\<rparr>)"
      "chain pg (Some 0) (map (\<lambda>i. i * clamp sz) [0..<?n])" by auto
  have "distinct (map (\<lambda>i. i * clamp sz) [0..<?n])" using pos by (simp add: distinct_map inj_on_def)
  moreover have "set (map (\<lambda>i. i * clamp sz) [0..<?n]) = blocks (clamp sz)" by (auto simp: blocks_def)
  ultimately have "pool_ok (?m\<lparr>mem := Some pg\<rparr>) {}"
    using pg(2) pos(2) unfolding pool_ok_def
    by (intro conjI exI [of _ pg] exI [of _ "map (\<lambda>i. i * clamp sz) [0..<?n]"]) simp_all
  then show ?thesis using pg(1) by (auto simp: mp_init_def Let_def)
qed

lemma mp_init_overflow:
  assumes "MEM_PAGE_SIZE mod clamp sz < 8"
  shows "mp_init m0 sz [] = None"
proof -
  have "MEM_PAGE_SIZE < 0 + (MEM_PAGE_SIZE div clamp sz) * clamp sz + 8"
    using assms page_tail [of "clamp sz"] by linarith
  from init_loop_overflow [OF this] show ?thesis by (simp add: mp_init_def Let_def)
qed

lemma mp_init_reach:
  assumes "mp_init m0 sz ms = Some (None, m)"
  shows "pool_ok m {}"
proof -
  have ok: "fst (kvstore_malloc ms)" using assms by (auto simp: mp_init_def Let_def split: prod.splits if_splits)
  then have same: "mp_init m0 sz ms = mp_init m0 sz []" by (cases ms) (auto simp: mp_init_def)
  then have "8 \<le> MEM_PAGE_SIZE mod clamp sz" using assms mp_init_overflow [of sz m0] by fastforce
  with mp_init_ok [of sz m0] assms same show ?thesis by auto
qed

section \<open>The operations on a pool in order\<close>

lemma alloc_ok:
  assumes ok: "pool_ok m live" and "free_count m \<noteq> 0"
  obtains p m' where "mp_allock m = Some (Some p, m')" and "p \<in> blocks (block_size m) - live"
    and "pool_ok m' (insert p live)" and "block_size m' = block_size m"
proof -
  obtain pg bs where m: "mem m = Some pg" "chain pg (free_ptr m) bs" "distinct bs" "length bs = free_count m"
      "set bs = blocks (block_size m) - live" "16 \<le> block_size m" "live \<subseteq> blocks (block_size m)"
    using ok by (auto simp: pool_ok_def)
  then obtain p bs' q where bs: "bs = p # bs'" "free_ptr m = Some p" "pg p = Some q" "chain pg q bs'"
    using assms(2) by (cases bs) auto
  have p: "p \<in> blocks (block_size m) - live" using m(5) bs(1) by auto
  then have "load m p = Some q" using m(1) bs(3) blocks_in_page [OF m(6)] by (simp add: load_def)
  then have al: "mp_allock m = Some (Some p, m\<lparr>free_ptr := q, free_count := free_count m - 1\<rparr>)"
    using assms(2) bs(2) by (simp add: mp_allock_def)
  have "set bs' = blocks (block_size m) - insert p live" using m(3,5) bs(1) by auto
  then have "pool_ok (m\<lparr>free_ptr := q, free_count := free_count m - 1\<rparr>) (insert p live)"
    using m p bs unfolding pool_ok_def by (intro conjI exI [of _ pg] exI [of _ bs']) auto
  then show thesis using that al p by simp
qed

lemma free_ok:
  assumes ok: "pool_ok m live" and p: "p \<in> live"
  shows "\<exists>m'. mp_free m p = Some m' \<and> pool_ok m' (live - {p}) \<and> free_count m' = free_count m + 1 \<and>
           mp_allock m' = Some (Some p, m'\<lparr>free_ptr := free_ptr m, free_count := free_count m\<rparr>)"
proof -
  obtain pg bs where m: "mem m = Some pg" "chain pg (free_ptr m) bs" "distinct bs" "length bs = free_count m"
      "set bs = blocks (block_size m) - live" "16 \<le> block_size m" "live \<subseteq> blocks (block_size m)"
    using ok by (auto simp: pool_ok_def)
  have w: "word_in_page p" using blocks_in_page [OF m(6)] m(7) p by blast
  let ?pg = "pg(p \<mapsto> free_ptr m)"
  let ?m = "m\<lparr>mem := Some ?pg, free_ptr := Some p, free_count := free_count m + 1\<rparr>"
  have f: "mp_free m p = Some ?m" using m(1) w by (simp add: mp_free_def store_def)
  have np: "p \<notin> set bs" using m(5) p by auto
  then have "chain ?pg (Some p) (p # bs)" using m(2) chain_upd [of p bs pg "Some (free_ptr m)"] by simp
  moreover have "set (p # bs) = blocks (block_size m) - (live - {p})" using m(5,7) p by auto
  ultimately have "pool_ok ?m (live - {p})"
    using m np unfolding pool_ok_def by (intro conjI exI [of _ ?pg] exI [of _ "p # bs"]) auto
  moreover have "mp_allock ?m = Some (Some p, ?m\<lparr>free_ptr := free_ptr m, free_count := free_count m\<rparr>)"
    using w by (simp add: mp_allock_def load_def)
  ultimately show ?thesis using f by (intro exI [of _ ?m]) simp
qed

lemma write_ok:
  assumes "pool_ok m live" and "p \<in> live"
  shows "pool_ok (client_write m p x) live"
proof -
  obtain pg bs where m: "mem m = Some pg" "chain pg (free_ptr m) bs" "distinct bs" "length bs = free_count m"
      "set bs = blocks (block_size m) - live" "16 \<le> block_size m" "live \<subseteq> blocks (block_size m)"
    using assms(1) by (auto simp: pool_ok_def)
  then have "chain (pg(p := x)) (free_ptr m) bs" using chain_upd [of p bs] assms(2) by auto
  then show ?thesis using m unfolding pool_ok_def client_write_def
    by (intro conjI exI [of _ "pg(p := x)"] exI [of _ bs]) auto
qed

lemma pool_reach_ok: "pool_reach m live \<Longrightarrow> pool_ok m live"
proof (induction rule: pool_reach.induct)
  case (reach_alloc m live p m')
  then have "free_count m \<noteq> 0" by (auto simp: mp_allock_def split: if_splits)
  from alloc_ok [OF reach_alloc.IH this] reach_alloc.hyps(2) show ?case by fastforce
next
  case (reach_full m live m')
  then show ?case by (auto simp: mp_allock_def bind_eq_Some_conv split: if_splits)
next
  case (reach_free m live p m')
  then show ?case using free_ok by fastforce
qed (use mp_init_reach write_ok in auto)

lemma pool_ok_full:
  assumes "pool_ok m live"
  shows "free_count m = 0 \<longleftrightarrow> live = blocks (block_size m)"
  using assms unfolding pool_ok_def by (metis Diff_eq_empty_iff length_0_conv set_empty subset_antisym order_refl)

section \<open>Properties\<close>

text \<open>
  C26. In every state that a pool reaches by initialisation, allocations, releases of blocks that
  are handed out and arbitrary writes of the clients into their blocks, an allocation is defined;
  it returns NULL exactly when all blocks are handed out, and otherwise a block that lies inside
  the page and does not overlap any block that is handed out.
\<close>

theorem pool_alloc_fresh:
  assumes "pool_reach m live"
  shows "(mp_allock m = Some (None, m) \<and> live = blocks (block_size m)) \<or>
         (\<exists>p m'. mp_allock m = Some (Some p, m') \<and> pool_reach m' (insert p live) \<and>
            p + block_size m \<le> MEM_PAGE_SIZE \<and>
            (\<forall>q \<in> live. p + block_size m \<le> q \<or> q + block_size m \<le> p))"
proof (cases "free_count m = 0")
  case True
  then show ?thesis using pool_ok_full [OF pool_reach_ok [OF assms]] by (simp add: mp_allock_def)
next
  case False
  note ok = pool_reach_ok [OF assms]
  obtain p m' where p: "mp_allock m = Some (Some p, m')" "p \<in> blocks (block_size m) - live"
    by (rule alloc_ok [OF ok False])
  have "16 \<le> block_size m" and live: "live \<subseteq> blocks (block_size m)" using ok by (simp_all add: pool_ok_def)
  then have "p + block_size m \<le> MEM_PAGE_SIZE" using blocks_in_page p(2) by blast
  moreover have "p + block_size m \<le> q \<or> q + block_size m \<le> p" if "q \<in> live" for q
    using that p(2) live blocks_apart [of p "block_size m" q] blocks_apart [of q "block_size m" p]
    by (metis DiffD1 DiffD2 linorder_neqE_nat subsetD)
  ultimately show ?thesis using p(1) reach_alloc [OF assms p(1)] by blast
qed

definition zero_pool :: mempool_s where
  "zero_pool = \<lparr>block_size = 0, free_count = 0, free_ptr = None, mem = None\<rparr>"

theorem pool_alloc_fresh_witness:
  "\<exists>m live. pool_reach m live \<and> block_size m = 24 \<and> (\<exists>p m'. mp_allock m = Some (Some p, m') \<and> p + 24 \<le> 4096)"
proof -
  obtain m where m: "mp_init zero_pool 24 [] = Some (None, m)" "block_size m = 24"
    using mp_init_ok [of 24 zero_pool] by (auto simp: MEM_PAGE_SIZE_def)
  have r: "pool_reach m {}" by (rule reach_init [OF m(1)])
  have "{} \<noteq> blocks 24" by (simp add: blocks_def MEM_PAGE_SIZE_def lessThan_empty_iff)
  then show ?thesis using pool_alloc_fresh [OF r] r m(2) by (auto simp: MEM_PAGE_SIZE_def)
qed

text \<open>
  Releasing a block and allocating again hands out the same block (the free list is a
  stack), and the release makes exactly one more block available.
\<close>

theorem pool_free_then_alloc:
  assumes "pool_reach m live" and "p \<in> live"
  shows "\<exists>m' m''. mp_free m p = Some m' \<and> free_count m' = free_count m + 1 \<and>
           mp_allock m' = Some (Some p, m'') \<and> free_ptr m'' = free_ptr m \<and> free_count m'' = free_count m"
  using free_ok [OF pool_reach_ok [OF assms(1)] assms(2)] by fastforce

theorem pool_free_then_alloc_witness:
  "\<exists>m m' m'' p. pool_reach m {p} \<and> mp_free m p = Some m' \<and> mp_allock m' = Some (Some p, m'')"
proof -
  obtain m0 where m0: "mp_init zero_pool 24 [] = Some (None, m0)" "pool_ok m0 {}" "block_size m0 = 24"
    using mp_init_ok [of 24 zero_pool] by (auto simp: MEM_PAGE_SIZE_def)
  have "{} \<noteq> blocks 24" by (simp add: blocks_def MEM_PAGE_SIZE_def lessThan_empty_iff)
  then have "free_count m0 \<noteq> 0" using pool_ok_full [OF m0(2)] m0(3) by simp
  then obtain p m where "mp_allock m0 = Some (Some p, m)" by (rule alloc_ok [OF m0(2)])
  then have "pool_reach m {p}" using reach_alloc [OF reach_init [OF m0(1)]] by simp
  then show ?thesis using pool_free_then_alloc [of m "{p}" p] by blast
qed

text \<open>
  \<open>mp_init\<close> stores the NULL that ends the free list behind the last block: it is defined
  exactly when at least eight bytes of the page are left over there. For every block size that
  divides the page, the size 4096 that \<open>init_pool\<close> passes included, it writes beyond the page.
\<close>

theorem pool_init_overflow:
  "((\<exists>m. mp_init m0 sz [] = Some (None, m)) = (8 \<le> MEM_PAGE_SIZE mod nat (if sz < 16 then 16 else sz))) \<and>
   mp_init m0 4096 [] = None"
proof
  show "(\<exists>m. mp_init m0 sz [] = Some (None, m)) = (8 \<le> MEM_PAGE_SIZE mod clamp sz)"
    using mp_init_ok [of sz m0] mp_init_overflow [of sz m0]
    by (cases "8 \<le> MEM_PAGE_SIZE mod clamp sz") (auto simp del: nat_less_iff)
  show "mp_init m0 4096 [] = None" by (rule mp_init_overflow) (simp add: MEM_PAGE_SIZE_def)
qed

end
