(* ===== verification/Mp_V2.thy ===== *)
theory Mp_V2
  imports CPrelude
begin

text \<open>
  The growing memory pool of \<open>kvstore_mpv2.c\<close>: a list of chunks, each with a header and a
  pointer that moves up with every allocation.
\<close>

section \<open>Data\<close>

text \<open>
  A chunk is known by a number; \<open>free_ptr\<close> and \<open>end\<close> of its header point into the chunk itself
  and are given as offsets from its start. The header takes the first 24 bytes.
\<close>

definition NODE_SIZE :: int where
  "NODE_SIZE = 24"

record mp_node_s =
  nd_free :: int
  nd_end :: int
  nd_next :: "nat option"

record mp_pool_s =
  first :: "nat option"
  current :: "nat option"
  max_size :: int
  chunks :: "nat \<rightharpoonup> mp_node_s"
  fresh :: nat

section \<open>Operations\<close>

text \<open>A successful \<open>malloc\<close> of \<open>sz\<close> bytes whose header is then written; undefined when it does not fit.\<close>

definition new_chunk :: "mp_pool_s \<Rightarrow> int \<Rightarrow> mp_node_s \<Rightarrow> mallocs \<Rightarrow> (nat \<times> mp_pool_s \<times> mallocs) option" where
  "new_chunk m sz nd ms =
     (let (ok, ms) = kvstore_malloc ms
      in if ok \<and> NODE_SIZE \<le> sz
         then Some (fresh m, m\<lparr>chunks := (chunks m)(fresh m \<mapsto> nd), fresh := Suc (fresh m)\<rparr>, ms)
         else None)"

definition mp_init :: "mp_pool_s \<Rightarrow> int \<Rightarrow> mallocs \<Rightarrow> (int \<times> mp_pool_s \<times> mallocs) option" where
  "mp_init m sz ms =
     do { (c, m, ms) \<leftarrow> new_chunk m sz \<lparr>nd_free = NODE_SIZE, nd_end = sz, nd_next = None\<rparr> ms;
          Some (0, m\<lparr>first := Some c, current := Some c, max_size := sz\<rparr>, ms) }"

text \<open>The loop frees chunk by chunk along the list that starts at \<open>first\<close>.\<close>

partial_function (option) mp_des :: "mp_pool_s \<Rightarrow> mp_pool_s option" where
  "mp_des m =
     (case first m of
        None \<Rightarrow> Some m
      | Some c \<Rightarrow> do {
          nd \<leftarrow> chunks m c;
          mp_des (m\<lparr>first := nd_next nd, chunks := (chunks m)(c := None)\<rparr>) })"

text \<open>The search for a chunk with enough room, from a chunk on.\<close>

partial_function (option) find_chunk :: "mp_pool_s \<Rightarrow> int \<Rightarrow> nat \<Rightarrow> nat option option" where
  "find_chunk m sz c =
     do { nd \<leftarrow> chunks m c;
          if sz \<le> nd_end nd - nd_free nd then Some (Some c)
          else (case nd_next nd of None \<Rightarrow> Some None | Some c' \<Rightarrow> find_chunk m sz c') }"

definition bump :: "mp_pool_s \<Rightarrow> nat \<Rightarrow> int \<Rightarrow> (int \<times> mp_pool_s) option" where
  "bump m c sz =
     do { nd \<leftarrow> chunks m c;
          Some (nd_free nd, m\<lparr>chunks := (chunks m)(c \<mapsto> nd\<lparr>nd_free := nd_free nd + sz\<rparr>)\<rparr>) }"

definition mp_allock :: "mp_pool_s \<Rightarrow> int \<Rightarrow> mallocs \<Rightarrow> ((nat \<times> int) \<times> mp_pool_s \<times> mallocs) option" where
  "mp_allock m sz ms =
     do { cur \<leftarrow> current m;
          found \<leftarrow> find_chunk m sz cur;
          case found of
            Some c \<Rightarrow> do { (p, m) \<leftarrow> bump m c sz; Some ((c, p), m, ms) }
          | None \<Rightarrow> do {
              (c, m, ms) \<leftarrow> new_chunk m (max_size m)
                \<lparr>nd_free = NODE_SIZE, nd_end = max_size m, nd_next = current m\<rparr> ms;
              let m = m\<lparr>current := Some c\<rparr>;
              (p, m) \<leftarrow> bump m c sz;
              Some ((c, p), m, ms) }}"

section \<open>The list of chunks\<close>

fun path :: "(nat \<rightharpoonup> mp_node_s) \<Rightarrow> nat option \<Rightarrow> nat list \<Rightarrow> bool" where
  "path h p [] \<longleftrightarrow> p = None"
| "path h p (c # cs) \<longleftrightarrow> p = Some c \<and> (\<exists>nd. h c = Some nd \<and> path h (nd_next nd) cs)"

lemma path_upd:
  "path h p cs \<Longrightarrow> h c = Some nd \<Longrightarrow> path (h(c \<mapsto> nd\<lparr>nd_free := x\<rparr>)) p cs"
  by (induction cs arbitrary: p) auto

lemma path_new: "path h p cs \<Longrightarrow> c \<notin> set cs \<Longrightarrow> path (h(c \<mapsto> nd)) p cs"
  by (induction cs arbitrary: p) auto

text \<open>
  The pool has handed out the pieces \<open>live\<close> (chunk, offset, length): the pieces of a chunk lie
  between its header and its \<open>free_ptr\<close>, apart from each other.
\<close>

type_synonym piece = "nat \<times> int \<times> int"

fun apart :: "piece \<Rightarrow> piece \<Rightarrow> bool" where
  "apart (c, p, n) (c', p', n') \<longleftrightarrow> c \<noteq> c' \<or> p + n \<le> p' \<or> p' + n' \<le> p"

definition pool_ok :: "mp_pool_s \<Rightarrow> piece list \<Rightarrow> bool" where
  "pool_ok m live \<longleftrightarrow> NODE_SIZE \<le> max_size m \<and>
     (\<exists>cs. path (chunks m) (current m) cs \<and> cs \<noteq> [] \<and> first m = Some (last cs) \<and> dom (chunks m) = set cs \<and> distinct cs) \<and>
     (\<forall>c nd. chunks m c = Some nd \<longrightarrow> c < fresh m \<and> NODE_SIZE \<le> nd_free nd \<and> nd_free nd \<le> nd_end nd \<and> nd_end nd = max_size m) \<and>
     (\<forall>(c, p, n) \<in> set live. \<exists>nd. chunks m c = Some nd \<and> NODE_SIZE \<le> p \<and> p + n \<le> nd_free nd) \<and>
     sorted_wrt apart live"

lemma find_chunk_path:
  assumes "path (chunks m) (Some c) cs"
  shows "(\<exists>c' nd. find_chunk m sz c = Some (Some c') \<and> chunks m c' = Some nd \<and> sz \<le> nd_end nd - nd_free nd) \<or>
         find_chunk m sz c = Some None \<and> (\<forall>c' \<in> set cs. \<exists>nd. chunks m c' = Some nd \<and> nd_end nd - nd_free nd < sz)"
  using assms
proof (induction cs arbitrary: c)
  case (Cons d cs)
  then obtain nd where nd: "d = c" "chunks m c = Some nd" "path (chunks m) (nd_next nd) cs" by auto
  show ?case
  proof (cases "sz \<le> nd_end nd - nd_free nd")
    case True
    then show ?thesis using nd by (subst (1) find_chunk.simps) auto
  next
    case False
    then show ?thesis
    proof (cases "nd_next nd")
      case None
      then have "cs = []" using nd(3) by (cases cs) auto
      then show ?thesis using nd False None by (subst (2) find_chunk.simps) auto
    next
      case (Some c')
      have "find_chunk m sz c = find_chunk m sz c'" using nd(2) False Some by (subst find_chunk.simps) simp
      then show ?thesis using Cons.IH [of c'] nd Some False by auto
    qed
  qed
qed simp

section \<open>The operations on a pool in order\<close>

lemma pool_ok_path:
  assumes "pool_ok m live"
  obtains cur cs where "current m = Some cur" and "path (chunks m) (Some cur) cs" and "cs \<noteq> []"
    and "first m = Some (last cs)" and "dom (chunks m) = set cs" and "distinct cs"
  using assms unfolding pool_ok_def by (metis path.elims(2))

lemma pool_ok_node:
  "pool_ok m live \<Longrightarrow> chunks m c = Some nd \<Longrightarrow>
     c < fresh m \<and> NODE_SIZE \<le> nd_free nd \<and> nd_free nd \<le> nd_end nd \<and> nd_end nd = max_size m"
  unfolding pool_ok_def by blast

lemma pool_okI:
  "NODE_SIZE \<le> max_size m \<Longrightarrow> path (chunks m) (current m) cs \<Longrightarrow> cs \<noteq> [] \<Longrightarrow> first m = Some (last cs) \<Longrightarrow>
     dom (chunks m) = set cs \<Longrightarrow> distinct cs \<Longrightarrow>
     (\<And>c nd. chunks m c = Some nd \<Longrightarrow>
        c < fresh m \<and> NODE_SIZE \<le> nd_free nd \<and> nd_free nd \<le> nd_end nd \<and> nd_end nd = max_size m) \<Longrightarrow>
     (\<And>c p n. (c, p, n) \<in> set live \<Longrightarrow> \<exists>nd. chunks m c = Some nd \<and> NODE_SIZE \<le> p \<and> p + n \<le> nd_free nd) \<Longrightarrow>
     sorted_wrt apart live \<Longrightarrow> pool_ok m live"
  unfolding pool_ok_def by blast

lemma pool_ok_live:
  "pool_ok m live \<Longrightarrow> (c, p, n) \<in> set live \<Longrightarrow> \<exists>nd. chunks m c = Some nd \<and> NODE_SIZE \<le> p \<and> p + n \<le> nd_free nd"
  "pool_ok m live \<Longrightarrow> sorted_wrt apart live" "pool_ok m live \<Longrightarrow> NODE_SIZE \<le> max_size m"
  unfolding pool_ok_def by blast+

lemma bump_ok:
  assumes ok: "pool_ok m live" and c: "chunks m c = Some nd" and "0 \<le> sz" and "sz \<le> nd_end nd - nd_free nd"
  shows "\<exists>m'. bump m c sz = Some (nd_free nd, m') \<and> pool_ok m' ((c, nd_free nd, sz) # live) \<and>
           max_size m' = max_size m \<and> NODE_SIZE \<le> nd_free nd \<and> nd_free nd + sz \<le> max_size m"
proof -
  let ?nd = "nd\<lparr>nd_free := nd_free nd + sz\<rparr>"
  let ?m = "m\<lparr>chunks := (chunks m)(c \<mapsto> ?nd)\<rparr>"
  obtain cs where cs: "path (chunks m) (current m) cs" "cs \<noteq> []" "first m = Some (last cs)"
      "dom (chunks m) = set cs" "distinct cs" using ok by (auto simp: pool_ok_def)
  have nd: "c < fresh m" "NODE_SIZE \<le> nd_free nd" "nd_free nd \<le> nd_end nd" "nd_end nd = max_size m"
    using pool_ok_node [OF ok c] by simp_all
  have "apart (c, nd_free nd, sz) (c', p, n)" if "(c', p, n) \<in> set live" for c' p n
    using pool_ok_live(1) [OF ok that] c by auto
  then have sorted: "sorted_wrt apart ((c, nd_free nd, sz) # live)" using pool_ok_live(2) [OF ok] by auto
  have "pool_ok ?m ((c, nd_free nd, sz) # live)"
  proof (rule pool_okI [OF _ _ cs(2) _ _ cs(5) _ _ sorted])
    show "path (chunks ?m) (current ?m) cs" using path_upd [OF cs(1) c] by simp
    show "dom (chunks ?m) = set cs" using cs(4) c by auto
    show "c' < fresh ?m \<and> NODE_SIZE \<le> nd_free d \<and> nd_free d \<le> nd_end d \<and> nd_end d = max_size ?m"
      if "chunks ?m c' = Some d" for c' d
      using that pool_ok_node [OF ok, of c' d] nd assms(3,4) by (auto split: if_splits)
    show "\<exists>nd. chunks ?m c' = Some nd \<and> NODE_SIZE \<le> p \<and> p + n \<le> nd_free nd"
      if "(c', p, n) \<in> set ((c, nd_free nd, sz) # live)" for c' p n
      using that pool_ok_live(1) [OF ok, of c' p n] nd c assms(3) by (cases "c' = c") auto
  qed (use ok cs(3) in \<open>simp_all add: pool_ok_live(3)\<close>)
  then show ?thesis using c nd assms(4) by (auto simp: bump_def)
qed

lemma new_chunk_ok:
  assumes ok: "pool_ok m live"
  defines "nd \<equiv> \<lparr>nd_free = NODE_SIZE, nd_end = max_size m, nd_next = current m\<rparr>"
  shows "\<exists>c m'. new_chunk m (max_size m) nd [] = Some (c, m', []) \<and> pool_ok (m'\<lparr>current := Some c\<rparr>) live \<and>
           chunks m' c = Some nd \<and> max_size m' = max_size m"
proof -
  let ?m = "m\<lparr>chunks := (chunks m)(fresh m \<mapsto> nd), fresh := Suc (fresh m)\<rparr>"
  obtain cs where cs: "path (chunks m) (current m) cs" "cs \<noteq> []" "first m = Some (last cs)"
      "dom (chunks m) = set cs" "distinct cs" using ok by (auto simp: pool_ok_def)
  have new: "fresh m \<notin> set cs" using ok cs(4) unfolding pool_ok_def by (metis domD less_irrefl)
  have big: "NODE_SIZE \<le> max_size m" by (rule pool_ok_live(3) [OF ok])
  have "pool_ok (?m\<lparr>current := Some (fresh m)\<rparr>) live"
  proof (rule pool_okI [of _ "fresh m # cs"])
    show "path (chunks (?m\<lparr>current := Some (fresh m)\<rparr>)) (current (?m\<lparr>current := Some (fresh m)\<rparr>)) (fresh m # cs)"
      using path_new [OF cs(1) new] by (simp add: nd_def)
    show "dom (chunks (?m\<lparr>current := Some (fresh m)\<rparr>)) = set (fresh m # cs)" using cs(4) by auto
    show "c < fresh (?m\<lparr>current := Some (fresh m)\<rparr>) \<and> NODE_SIZE \<le> nd_free d \<and> nd_free d \<le> nd_end d \<and>
        nd_end d = max_size (?m\<lparr>current := Some (fresh m)\<rparr>)"
      if "chunks (?m\<lparr>current := Some (fresh m)\<rparr>) c = Some d" for c d
      using that pool_ok_node [OF ok, of c d] big by (cases "c = fresh m") (auto simp: nd_def less_Suc_eq)
    show "\<exists>nd. chunks (?m\<lparr>current := Some (fresh m)\<rparr>) c' = Some nd \<and> NODE_SIZE \<le> p \<and> p + n \<le> nd_free nd"
      if "(c', p, n) \<in> set live" for c' p n
      using pool_ok_live(1) [OF ok that] new cs(4) by (cases "c' = fresh m") (auto dest: domI)
  qed (use ok cs new big pool_ok_live(2) [OF ok] in simp_all)
  then show ?thesis using big by (simp add: new_chunk_def nd_def)
qed

lemma grow_alloc_ok:
  assumes ok: "pool_ok m live" and sz: "0 \<le> sz" "sz \<le> max_size m - NODE_SIZE"
  shows "\<exists>c p m'. mp_allock m sz [] = Some ((c, p), m', []) \<and> pool_ok m' ((c, p, sz) # live) \<and>
           max_size m' = max_size m \<and> NODE_SIZE \<le> p \<and> p + sz \<le> max_size m"
proof -
  obtain cur cs where cs: "current m = Some cur" "path (chunks m) (Some cur) cs" by (rule pool_ok_path [OF ok])
  from find_chunk_path [OF cs(2), of sz] show ?thesis
  proof (elim disjE exE conjE)
    fix c nd
    assume c: "find_chunk m sz cur = Some (Some c)" "chunks m c = Some nd" "sz \<le> nd_end nd - nd_free nd"
    from bump_ok [OF ok c(2) sz(1) c(3)] c(1) cs(1) show ?thesis by (auto simp: mp_allock_def)
  next
    assume none: "find_chunk m sz cur = Some None"
    let ?nd = "\<lparr>nd_free = NODE_SIZE, nd_end = max_size m, nd_next = current m\<rparr>"
    obtain c m1 where m1: "new_chunk m (max_size m) ?nd [] = Some (c, m1, [])" "pool_ok (m1\<lparr>current := Some c\<rparr>) live"
        "chunks m1 c = Some ?nd" "max_size m1 = max_size m"
      using new_chunk_ok [OF ok] by blast
    have "chunks (m1\<lparr>current := Some c\<rparr>) c = Some ?nd" using m1(3) by simp
    from bump_ok [OF m1(2) this sz(1)] sz(2) m1(1,4) none cs(1) show ?thesis by (auto simp: mp_allock_def)
  qed
qed

fun alloc_all :: "mp_pool_s \<Rightarrow> int list \<Rightarrow> (piece list \<times> mp_pool_s) option" where
  "alloc_all m [] = Some ([], m)"
| "alloc_all m (sz # szs) =
     do { ((c, p), m, _) \<leftarrow> mp_allock m sz [];
          (ps, m) \<leftarrow> alloc_all m szs;
          Some ((c, p, sz) # ps, m) }"

lemma apart_sym: "apart x y = apart y x"
  by (cases x; cases y) auto

lemma alloc_all_ok:
  assumes "pool_ok m live" and "\<forall>sz \<in> set szs. 0 \<le> sz \<and> sz \<le> max_size m - NODE_SIZE"
  shows "\<exists>ps m'. alloc_all m szs = Some (ps, m') \<and> map (snd \<circ> snd) ps = szs \<and> pool_ok m' (rev ps @ live) \<and>
           (\<forall>(c, p, n) \<in> set ps. NODE_SIZE \<le> p \<and> p + n \<le> max_size m)"
  using assms
proof (induction szs arbitrary: m live)
  case (Cons sz szs)
  obtain c p m1 where 1: "mp_allock m sz [] = Some ((c, p), m1, [])" "pool_ok m1 ((c, p, sz) # live)"
      "max_size m1 = max_size m" "NODE_SIZE \<le> p" "p + sz \<le> max_size m"
    using grow_alloc_ok [OF Cons.prems(1), of sz] Cons.prems(2) by auto
  from Cons.IH [OF 1(2)] Cons.prems(2) 1(3) obtain ps m' where
    "alloc_all m1 szs = Some (ps, m')" "map (snd \<circ> snd) ps = szs" "pool_ok m' (rev ps @ (c, p, sz) # live)"
    "\<forall>(c, p, n) \<in> set ps. NODE_SIZE \<le> p \<and> p + n \<le> max_size m" by auto
  with 1 show ?case by (intro exI [of _ "(c, p, sz) # ps"] exI [of _ m']) (simp add: comp_def)
qed simp

text \<open>The pool structure before its initialisation, with nothing allocated.\<close>

definition no_pool :: mp_pool_s where
  "no_pool = \<lparr>first = None, current = None, max_size = 0, chunks = Map.empty, fresh = 0\<rparr>"

lemma grow_init_ok:
  assumes "NODE_SIZE \<le> sz"
  shows "\<exists>m. mp_init no_pool sz [] = Some (0, m, []) \<and>
           pool_ok m [] \<and> max_size m = sz"
  using assms unfolding mp_init_def new_chunk_def pool_ok_def no_pool_def
  by (auto intro: exI [of _ "[0]"] split: if_splits)

lemma pool_ok_first:
  assumes "pool_ok m live"
  obtains c nd where "first m = Some c" and "chunks m c = Some nd" and "nd_next nd = None"
proof -
  obtain cur cs where cs: "path (chunks m) (Some cur) cs" "cs \<noteq> []" "first m = Some (last cs)"
    by (rule pool_ok_path [OF assms])
  have "path h p cs \<Longrightarrow> cs \<noteq> [] \<Longrightarrow> \<exists>nd. h (last cs) = Some nd \<and> nd_next nd = None" for h p
    by (induction cs arbitrary: p) auto
  from this [OF cs(1,2)] cs(3) that show thesis by blast
qed

section \<open>Properties\<close>

text \<open>
  C27. After \<open>mp_init\<close> with chunks that hold their header, any sequence of requests that each fit
  into a chunk is served: every piece lies inside its chunk, behind the header, and no two
  pieces overlap.
\<close>

theorem growing_pool_pieces_apart:
  assumes "NODE_SIZE \<le> sz" and "\<forall>n \<in> set ns. 0 \<le> n \<and> n \<le> sz - NODE_SIZE"
  shows "\<exists>m ps m'. mp_init no_pool sz [] = Some (0, m, []) \<and> alloc_all m ns = Some (ps, m') \<and>
           map (snd \<circ> snd) ps = ns \<and> (\<forall>(c, p, n) \<in> set ps. NODE_SIZE \<le> p \<and> p + n \<le> sz) \<and>
           sorted_wrt apart ps"
proof -
  obtain m where m: "mp_init no_pool sz [] = Some (0, m, [])" "pool_ok m []" "max_size m = sz"
    using grow_init_ok [OF assms(1)] by blast
  obtain ps m' where ps: "alloc_all m ns = Some (ps, m')" "map (snd \<circ> snd) ps = ns" "pool_ok m' (rev ps)"
      "\<forall>(c, p, n) \<in> set ps. NODE_SIZE \<le> p \<and> p + n \<le> sz"
    using alloc_all_ok [OF m(2), of ns] assms(2) m(3) by auto
  have "sorted_wrt apart ps" using pool_ok_live(2) [OF ps(3)] by (simp add: sorted_wrt_rev apart_sym)
  with m(1) ps show ?thesis by blast
qed

theorem growing_pool_pieces_apart_witness:
  "\<exists>m ps m'. mp_init no_pool 64 [] = Some (0, m, []) \<and> alloc_all m [16, 32, 40] = Some (ps, m') \<and>
     map (snd \<circ> snd) ps = [16, 32, 40] \<and> sorted_wrt apart ps"
  using growing_pool_pieces_apart [of 64 "[16, 32, 40]"] unfolding NODE_SIZE_def by (auto simp: comp_def)

text \<open>
  A request larger than a chunk is not refused: the pool allocates a chunk of the usual size
  and returns a piece that reaches beyond its end.
\<close>

theorem growing_pool_oversize:
  assumes ok: "pool_ok m live" and big: "max_size m - NODE_SIZE < sz"
  shows "\<exists>c p m'. mp_allock m sz [] = Some ((c, p), m', []) \<and> max_size m < p + sz"
proof -
  obtain cur cs where cs: "current m = Some cur" "path (chunks m) (Some cur) cs" by (rule pool_ok_path [OF ok])
  have "\<not> sz \<le> nd_end nd - nd_free nd" if "chunks m c = Some nd" for c nd
    using pool_ok_node [OF ok that] big by auto
  then have none: "find_chunk m sz cur = Some None" using find_chunk_path [OF cs(2), of sz] by blast
  let ?nd = "\<lparr>nd_free = NODE_SIZE, nd_end = max_size m, nd_next = current m\<rparr>"
  obtain c m1 where "new_chunk m (max_size m) ?nd [] = Some (c, m1, [])" "chunks m1 c = Some ?nd"
    using new_chunk_ok [OF ok] by blast
  then show ?thesis using none cs(1) big by (auto simp: mp_allock_def bump_def)
qed

theorem growing_pool_oversize_witness:
  "\<exists>m c p m'. mp_init no_pool 64 [] = Some (0, m, []) \<and> mp_allock m 100 [] = Some ((c, p), m', []) \<and> 64 < p + 100"
proof -
  obtain m where m: "mp_init no_pool 64 [] = Some (0, m, [])" "pool_ok m []" "max_size m = 64"
    using grow_init_ok [of 64] by (auto simp: NODE_SIZE_def)
  with growing_pool_oversize [OF m(2), of 100] show ?thesis by (auto simp: NODE_SIZE_def)
qed

text \<open>
  \<open>mp_des\<close> ends and frees the chunk that \<open>mp_init\<close> made and no other: new chunks are linked
  in front of it, so that they are not reachable from \<open>first\<close>.
\<close>

theorem growing_pool_destroy_leaks:
  assumes "pool_ok m live"
  shows "\<exists>m' c. mp_des m = Some m' \<and> first m = Some c \<and> first m' = None \<and>
           dom (chunks m') = dom (chunks m) - {c}"
proof -
  obtain c nd where c: "first m = Some c" "chunks m c = Some nd" "nd_next nd = None"
    by (rule pool_ok_first [OF assms])
  let ?m = "m\<lparr>first := None, chunks := (chunks m)(c := None)\<rparr>"
  have "mp_des ?m = Some ?m" by (subst mp_des.simps) simp
  then have "mp_des m = Some ?m" using c by (subst mp_des.simps) simp
  then show ?thesis using c(1) by (intro exI [of _ ?m] exI [of _ c]) simp
qed

theorem growing_pool_destroy_leaks_witness:
  "\<exists>m ps m' m'' c. mp_init no_pool 64 [] = Some (0, m, []) \<and> alloc_all m [40, 40] = Some (ps, m') \<and>
     mp_des m' = Some m'' \<and> first m' = Some c \<and> dom (chunks m'') = dom (chunks m') - {c}"
proof -
  obtain m where m: "mp_init no_pool 64 [] = Some (0, m, [])" "pool_ok m []" "max_size m = 64"
    using grow_init_ok [of 64] by (auto simp: NODE_SIZE_def)
  have "\<forall>sz \<in> set [40, 40]. 0 \<le> sz \<and> sz \<le> max_size m - NODE_SIZE" using m(3) by (simp add: NODE_SIZE_def)
  from alloc_all_ok [OF m(2) this] obtain ps m' where ps: "alloc_all m [40, 40] = Some (ps, m')" "pool_ok m' (rev ps @ [])"
    by blast
  from growing_pool_destroy_leaks [OF ps(2)] obtain m'' c where "mp_des m' = Some m''" "first m' = Some c"
      "dom (chunks m'') = dom (chunks m') - {c}" by blast
  with m(1) ps(1) show ?thesis by blast
qed

end
