(* ===== verification/KvSpec.thy ===== *)
theory KvSpec
  imports CPrelude
begin

text \<open>
  What the three storage engines promise to \<open>kvstore.c\<close>, as locales over the engine's
  operations, and an abstract machine on a map that a sequence of calls is compared with.

  The engines differ in one point of their contract, the value a SET of a present key leaves
  behind: the hash engine stores the new one, the array and the red-black tree keep the old
  one. It is the parameter \<open>keep\<close> of the locale \<open>kv_store\<close> and of the abstract machine.
\<close>

section \<open>The abstract machine\<close>

datatype kv_op = OpSet string string | OpGet string | OpDel string | OpMod string string

datatype kv_reply = Accepted | Refused | Value cptr

definition overwrite :: "string option \<Rightarrow> string \<Rightarrow> string" where
  "overwrite old v = v"

definition keep_first :: "string option \<Rightarrow> string \<Rightarrow> string" where
  "keep_first old v = (case old of None \<Rightarrow> v | Some w \<Rightarrow> w)"

type_synonym kvmap = "string \<rightharpoonup> string"

fun spec_step :: "(string option \<Rightarrow> string \<Rightarrow> string) \<Rightarrow> kvmap \<Rightarrow> kv_op \<Rightarrow> kv_reply \<times> kvmap" where
  "spec_step keep m (OpSet k v) = (Accepted, m(k \<mapsto> keep (m k) v))"
| "spec_step keep m (OpGet k) = (Value (ptr_of (m k)), m)"
| "spec_step keep m (OpDel k) = (if k \<in> dom m then (Accepted, m(k := None)) else (Refused, m))"
| "spec_step keep m (OpMod k v) = (if k \<in> dom m then (Accepted, m(k \<mapsto> v)) else (Refused, m))"

fun spec_run :: "(string option \<Rightarrow> string \<Rightarrow> string) \<Rightarrow> kvmap \<Rightarrow> kv_op list \<Rightarrow> kv_reply list \<times> kvmap" where
  "spec_run keep m [] = ([], m)"
| "spec_run keep m (x # xs) =
     (let (r, m) = spec_step keep m x; (rs, m) = spec_run keep m xs in (r # rs, m))"

text \<open>
  The same calls on an engine. The engines report success as 0; every other value is a
  refusal. \<open>None\<close> is undefined behaviour.
\<close>

type_synonym 's get_fn = "'s \<Rightarrow> cptr \<Rightarrow> cptr option"
type_synonym 's del_fn = "'s \<Rightarrow> cptr \<Rightarrow> (int \<times> 's) option"
type_synonym 's upd_fn = "'s \<Rightarrow> cptr \<Rightarrow> cptr \<Rightarrow> mallocs \<Rightarrow> (int \<times> 's \<times> mallocs) option"

definition reply_of :: "int \<Rightarrow> kv_reply" where
  "reply_of r = (if r = 0 then Accepted else Refused)"

fun engine_step ::
  "'s get_fn \<Rightarrow> 's upd_fn \<Rightarrow> 's del_fn \<Rightarrow> 's upd_fn \<Rightarrow> 's \<Rightarrow> kv_op \<Rightarrow> (kv_reply \<times> 's) option" where
  "engine_step get put del md s (OpSet k v) =
     map_option (\<lambda>(r, s, _). (reply_of r, s)) (put s (Str k) (Str v) [])"
| "engine_step get put del md s (OpGet k) = map_option (\<lambda>p. (Value p, s)) (get s (Str k))"
| "engine_step get put del md s (OpDel k) = map_option (\<lambda>(r, s). (reply_of r, s)) (del s (Str k))"
| "engine_step get put del md s (OpMod k v) =
     map_option (\<lambda>(r, s, _). (reply_of r, s)) (md s (Str k) (Str v) [])"

fun engine_run ::
  "'s get_fn \<Rightarrow> 's upd_fn \<Rightarrow> 's del_fn \<Rightarrow> 's upd_fn \<Rightarrow> 's \<Rightarrow> kv_op list \<Rightarrow> (kv_reply list \<times> 's) option" where
  "engine_run get put del md s [] = Some ([], s)"
| "engine_run get put del md s (x # xs) =
     do { (r, s) \<leftarrow> engine_step get put del md s x;
          (rs, s) \<leftarrow> engine_run get put del md s xs;
          Some (r # rs, s) }"

text \<open>Loading a list of bindings by SETs, as a replay of the log does.\<close>

fun put_all :: "'s upd_fn \<Rightarrow> 's \<Rightarrow> (string \<times> string) list \<Rightarrow> 's option" where
  "put_all put s [] = Some s"
| "put_all put s ((k, v) # xs) =
     do { (_, s, _) \<leftarrow> put s (Str k) (Str v) []; put_all put s xs }"

section \<open>Interfaces\<close>

text \<open>
  \<open>kv_store\<close>: lookup and SET. \<open>invar\<close> is the engine's invariant, \<open>view\<close> the map it stores and
  \<open>space\<close> a number of SETs it can still take.
\<close>

locale kv_store =
  fixes invar :: "'s \<Rightarrow> bool"
    and view :: "'s \<Rightarrow> kvmap"
    and space :: "'s \<Rightarrow> nat"
    and keep :: "string option \<Rightarrow> string \<Rightarrow> string"
    and get :: "'s get_fn"
    and put :: "'s upd_fn"
  assumes get_view: "invar s \<Longrightarrow> get s (Str k) = Some (ptr_of (view s k))"
    and put_view: "invar s \<Longrightarrow> 0 < space s \<Longrightarrow>
      \<exists>s'. put s (Str k) (Str v) [] = Some (0, s', []) \<and> invar s' \<and> space s \<le> Suc (space s') \<and>
           view s' = (view s)(k \<mapsto> keep (view s k) v)"
begin

text \<open>A value read back after a SET, and a SET seen from another key.\<close>

lemma get_put:
  assumes "invar s" and "0 < space s"
  shows "\<exists>s'. put s (Str k) (Str v) [] = Some (0, s', []) \<and> invar s' \<and>
           get s' (Str k) = Some (Str (keep (view s k) v)) \<and>
           (\<forall>k'. k' \<noteq> k \<longrightarrow> get s' (Str k') = get s (Str k'))"
  using put_view [OF assms] get_view assms(1) by fastforce

text \<open>A list of bindings stored by SETs gives the map folded over it.\<close>

lemma put_all_view:
  assumes "invar s" and "length xs \<le> space s"
  shows "\<exists>s'. put_all put s xs = Some s' \<and> invar s' \<and>
           view s' = fold (\<lambda>(k, v) m. m(k \<mapsto> keep (m k) v)) xs (view s)"
  using assms
proof (induction xs arbitrary: s)
  case Nil
  then show ?case by simp
next
  case (Cons x xs)
  obtain k v where x: "x = (k, v)" by (cases x)
  from Cons.prems(2) have sp: "0 < space s" by simp
  obtain s1 where s1: "put s (Str k) (Str v) [] = Some (0, s1, [])" "invar s1"
      "space s \<le> Suc (space s1)" "view s1 = (view s)(k \<mapsto> keep (view s k) v)"
    using put_view [OF Cons.prems(1) sp] by blast
  have "length xs \<le> space s1" using Cons.prems(2) s1(3) by simp
  from Cons.IH [OF s1(2) this] show ?case by (simp add: x s1)
qed

end

text \<open>\<open>kv_engine\<close>: the full interface, with deletion and modification.\<close>

locale kv_engine = kv_store +
  fixes del :: "'a del_fn"
    and md :: "'a upd_fn"
  assumes del_hit: "invar s \<Longrightarrow> view s k = Some v \<Longrightarrow>
      \<exists>s'. del s (Str k) = Some (0, s') \<and> invar s' \<and> space s \<le> space s' \<and>
           view s' = (view s)(k := None)"
    and del_miss: "invar s \<Longrightarrow> view s k = None \<Longrightarrow> \<exists>r. del s (Str k) = Some (r, s) \<and> r \<noteq> 0"
    and mod_hit: "invar s \<Longrightarrow> view s k = Some v \<Longrightarrow>
      \<exists>s'. md s (Str k) (Str w) [] = Some (0, s', []) \<and> invar s' \<and> space s \<le> space s' \<and>
           view s' = (view s)(k \<mapsto> w)"
    and mod_miss: "invar s \<Longrightarrow> view s k = None \<Longrightarrow>
      \<exists>r. md s (Str k) (Str w) [] = Some (r, s, []) \<and> r \<noteq> 0"
begin

text \<open>One call refines one step of the abstract machine.\<close>

lemma step_refines:
  assumes "invar s" and "0 < space s"
  shows "\<exists>s'. engine_step get put del md s x = Some (fst (spec_step keep (view s) x), s') \<and>
           invar s' \<and> space s \<le> Suc (space s') \<and> view s' = snd (spec_step keep (view s) x)"
proof (cases x)
  case (OpSet k v)
  then show ?thesis using put_view [OF assms, of k v] by (auto simp: reply_of_def)
next
  case (OpGet k)
  then show ?thesis using get_view [OF assms(1)] assms(1) by simp
next
  case (OpDel k)
  then show ?thesis
    using del_hit [OF assms(1), of k] del_miss [OF assms(1), of k] assms(1)
    by (cases "view s k") (fastforce simp: reply_of_def dom_def)+
next
  case (OpMod k v)
  then show ?thesis
    using mod_hit [OF assms(1), of k _ v] mod_miss [OF assms(1), of k v] assms(1)
    by (cases "view s k") (fastforce simp: reply_of_def dom_def)+
qed

text \<open>Any sequence of calls refines the abstract machine, replies included.\<close>

lemma run_refines:
  assumes "invar s" and "length xs \<le> space s"
  shows "\<exists>s'. engine_run get put del md s xs = Some (fst (spec_run keep (view s) xs), s') \<and>
           invar s' \<and> view s' = snd (spec_run keep (view s) xs)"
  using assms
proof (induction xs arbitrary: s)
  case Nil
  then show ?case by simp
next
  case (Cons x xs)
  from Cons.prems(2) have sp: "0 < space s" by simp
  obtain s1 where s1:
      "engine_step get put del md s x = Some (fst (spec_step keep (view s) x), s1)"
      "invar s1" "space s \<le> Suc (space s1)" "view s1 = snd (spec_step keep (view s) x)"
    using step_refines [OF Cons.prems(1) sp] by blast
  have "length xs \<le> space s1" using Cons.prems(2) s1(3) by simp
  from Cons.IH [OF s1(2) this] show ?case
    by (auto simp: s1 split_beta Let_def)
qed

end

end
