(* ===== verification/Kvs_Array.thy ===== *)
theory Kvs_Array
  imports KvSpec
begin

text \<open>
  The array engine, \<open>kvstore_array.c\<close>: a table of \<open>KVS_ARRAY_SIZE\<close> key/value slots,
  searched from the front, with \<open>array_idx\<close> used both as the number of entries and as the
  end of every search.

  First the operations, then the invariant \<open>arr_inv\<close> that all of them keep (which needs no
  assumption on the order of operations), then the functional behaviour on tables without
  holes (\<open>arr_dense\<close>) and what a hole left by a deletion does to the later operations.
\<close>

section \<open>Data\<close>

definition KVS_ARRAY_SIZE :: nat where
  "KVS_ARRAY_SIZE = 1024"

record kvs_array_item_s =
  ai_key :: cptr
  ai_value :: cptr

text \<open>
  The table is null or freed (\<open>None\<close>) or an allocation of \<open>KVS_ARRAY_SIZE\<close> slots; a slot without a value in
  the map is indeterminate (allocated and not yet written).
\<close>

record array_s =
  array_table :: "(nat \<rightharpoonup> kvs_array_item_s) option"
  array_idx :: nat

definition slot_read :: "array_s \<Rightarrow> nat \<Rightarrow> kvs_array_item_s option" where
  "slot_read arr i =
     do { tab \<leftarrow> array_table arr; if i < KVS_ARRAY_SIZE then tab i else None }"

definition slot_write :: "array_s \<Rightarrow> nat \<Rightarrow> kvs_array_item_s \<Rightarrow> array_s option" where
  "slot_write arr i it =
     do { tab \<leftarrow> array_table arr;
          if i < KVS_ARRAY_SIZE then Some (arr\<lparr>array_table := Some (tab(i \<mapsto> it))\<rparr>) else None }"

section \<open>Operations\<close>

text \<open>
  The engine object is always \<open>&Array\<close>, so the test of \<open>arr\<close> against NULL is not
  represented. \<open>kvstore_array_create\<close> runs off its end on success: the value is then
  indeterminate (\<open>None\<close>), which is harmless as no caller reads it.
\<close>

definition kvstore_array_create :: "array_s \<Rightarrow> mallocs \<Rightarrow> int option \<times> array_s \<times> mallocs" where
  "kvstore_array_create arr ms =
     (let (ok, ms) = kvstore_malloc ms;
          arr = arr\<lparr>array_table := if ok then Some Map.empty else None\<rparr>
      in if \<not> ok then (Some (-2), arr, ms) else (None, arr\<lparr>array_idx := 0\<rparr>, ms))"

text \<open>
  \<open>kvstore_array_destory\<close> frees the table and keeps the pointer: what is left is a table
  that must not be accessed. The strings of the entries are not freed.
\<close>

definition kvstore_array_destory :: "array_s \<Rightarrow> array_s" where
  "kvstore_array_destory arr = arr\<lparr>array_table := None\<rparr>"

text \<open>The search of \<open>kvs_array_set\<close> for a slot whose key is NULL.\<close>

fun set_scan :: "array_s \<Rightarrow> nat \<Rightarrow> nat \<Rightarrow> nat option option" where
  "set_scan arr i 0 = Some None"
| "set_scan arr i (Suc n) =
     do { it \<leftarrow> slot_read arr i;
          if ai_key it = Null then Some (Some i) else set_scan arr (Suc i) n }"

text \<open>The rest of \<open>kvs_array_set\<close> once both copies are made: fill the hole, or append.\<close>

definition set_place :: "array_s \<Rightarrow> kvs_array_item_s \<Rightarrow> array_s option" where
  "set_place arr it =
     do { r \<leftarrow> set_scan arr 0 (array_idx arr);
          case r of
            Some i \<Rightarrow> do {
              arr \<leftarrow> slot_write arr i it;
              Some (arr\<lparr>array_idx := array_idx arr + 1\<rparr>) }
          | None \<Rightarrow>
              if array_idx arr < KVS_ARRAY_SIZE
              then do {
                arr \<leftarrow> slot_write arr (array_idx arr) it;
                Some (arr\<lparr>array_idx := array_idx arr + 1\<rparr>) }
              else Some arr }"

definition kvs_array_set :: "array_s \<Rightarrow> cptr \<Rightarrow> cptr \<Rightarrow> mallocs \<Rightarrow> (int \<times> array_s \<times> mallocs) option" where
  "kvs_array_set arr key value ms =
     (if key = Null \<or> value = Null \<or> array_idx arr = KVS_ARRAY_SIZE then Some (-1, arr, ms)
      else do {
        k \<leftarrow> deref key;
        let (kok, ms) = kvstore_malloc ms;
        if \<not> kok then Some (-1, arr, ms)
        else do {
          v \<leftarrow> deref value;
          let (vok, ms) = kvstore_malloc ms;
          if \<not> vok then Some (-1, arr, ms)
          else do {
            arr \<leftarrow> set_place arr \<lparr>ai_key = Str k, ai_value = Str v\<rparr>;
            Some (0, arr, ms) }}})"

fun get_scan :: "array_s \<Rightarrow> cptr \<Rightarrow> nat \<Rightarrow> nat \<Rightarrow> cptr option" where
  "get_scan arr key i 0 = Some Null"
| "get_scan arr key i (Suc n) =
     do { it \<leftarrow> slot_read arr i;
          if ai_key it = Null then Some Null
          else do {
            k' \<leftarrow> deref (ai_key it);
            k \<leftarrow> deref key;
            if strcmp k' k = 0 then Some (ai_value it) else get_scan arr key (Suc i) n }}"

definition kvs_array_get :: "array_s \<Rightarrow> cptr \<Rightarrow> cptr option" where
  "kvs_array_get arr key = get_scan arr key 0 (array_idx arr)"

text \<open>The search of \<open>kvs_array_del\<close> and \<open>kvs_array_mod\<close>, which does not test for NULL.\<close>

fun key_scan :: "array_s \<Rightarrow> cptr \<Rightarrow> nat \<Rightarrow> nat \<Rightarrow> nat option option" where
  "key_scan arr key i 0 = Some None"
| "key_scan arr key i (Suc n) =
     do { it \<leftarrow> slot_read arr i;
          k' \<leftarrow> deref (ai_key it);
          k \<leftarrow> deref key;
          if strcmp k' k = 0 then Some (Some i) else key_scan arr key (Suc i) n }"

definition kvs_array_del :: "array_s \<Rightarrow> cptr \<Rightarrow> (int \<times> array_s) option" where
  "kvs_array_del arr key =
     (if key = Null then Some (-1, arr)
      else do {
        r \<leftarrow> key_scan arr key 0 (array_idx arr);
        case r of
          Some i \<Rightarrow> do {
            arr \<leftarrow> slot_write arr i \<lparr>ai_key = Null, ai_value = Null\<rparr>;
            Some (0, arr\<lparr>array_idx := array_idx arr - 1\<rparr>) }
        | None \<Rightarrow> Some (int (array_idx arr), arr) })"

definition kvs_array_mod :: "array_s \<Rightarrow> cptr \<Rightarrow> cptr \<Rightarrow> mallocs \<Rightarrow> (int \<times> array_s \<times> mallocs) option" where
  "kvs_array_mod arr key value ms =
     (if key = Null \<or> value = Null then Some (-1, arr, ms)
      else do {
        r \<leftarrow> key_scan arr key 0 (array_idx arr);
        case r of
          Some i \<Rightarrow> do {
            it \<leftarrow> slot_read arr i;
            v \<leftarrow> deref value;
            let (ok, ms) = kvstore_malloc ms;
            if \<not> ok then None
            else do {
              arr \<leftarrow> slot_write arr i (it\<lparr>ai_value := Str v\<rparr>);
              Some (0, arr, ms) }}
        | None \<Rightarrow> Some (int (array_idx arr), arr, ms) })"

definition kvs_array_count :: "array_s \<Rightarrow> int" where
  "kvs_array_count arr = int (array_idx arr)"

section \<open>The invariant\<close>

abbreviation hole :: kvs_array_item_s where
  "hole \<equiv> \<lparr>ai_key = Null, ai_value = Null\<rparr>"

definition live :: "array_s \<Rightarrow> nat \<Rightarrow> bool" where
  "live arr i \<longleftrightarrow> (\<exists>k v. slot_read arr i = Some \<lparr>ai_key = Str k, ai_value = Str v\<rparr>)"

text \<open>
  Up to a high-water mark every slot is an entry or a hole, past it every slot is
  indeterminate, and \<open>array_idx\<close> is the number of
  entries, wherever they are.
\<close>

definition arr_marked :: "array_s \<Rightarrow> nat \<Rightarrow> bool" where
  "arr_marked arr w \<longleftrightarrow> array_table arr \<noteq> None \<and> w \<le> KVS_ARRAY_SIZE \<and>
     (\<forall>i < w. live arr i \<or> slot_read arr i = Some hole) \<and>
     (\<forall>i \<ge> w. slot_read arr i = None) \<and> card {i. live arr i} = array_idx arr"

definition arr_inv :: "array_s \<Rightarrow> bool" where
  "arr_inv arr \<longleftrightarrow> (\<exists>w. arr_marked arr w)"

lemma slot_read_write [cmem]:
  "slot_write arr i it = Some arr' \<Longrightarrow>
     slot_read arr' j = (if j = i then Some it else slot_read arr j)"
  by (auto simp: slot_write_def slot_read_def bind_eq_Some_conv split: if_splits)

lemma slot_read_idx [simp]: "slot_read (arr\<lparr>array_idx := n\<rparr>) i = slot_read arr i"
  by (simp add: slot_read_def)

lemma live_idx [simp]: "live (arr\<lparr>array_idx := n\<rparr>) = live arr"
  by (simp add: live_def fun_eq_iff)

lemma slot_write_frame:
  assumes "slot_write arr i it = Some arr'"
  shows "array_idx arr' = array_idx arr" and "array_table arr' \<noteq> None"
  using assms by (auto simp: slot_write_def bind_eq_Some_conv split: if_splits)

lemma slot_write_ok:
  "array_table arr \<noteq> None \<Longrightarrow> i < KVS_ARRAY_SIZE \<Longrightarrow> \<exists>arr'. slot_write arr i it = Some arr'"
  by (auto simp: slot_write_def)

lemma slot_read_bounds:
  assumes "slot_read arr i = Some it"
  shows "array_table arr \<noteq> None" and "i < KVS_ARRAY_SIZE"
  using assms by (auto simp: slot_read_def bind_eq_Some_conv split: if_splits)

lemma live_write:
  "slot_write arr i \<lparr>ai_key = Str k, ai_value = Str v\<rparr> = Some arr' \<Longrightarrow>
     live arr' j \<longleftrightarrow> j = i \<or> live arr j"
  by (auto simp: live_def cmem)

lemma live_write_hole:
  "slot_write arr i hole = Some arr' \<Longrightarrow> live arr' j \<longleftrightarrow> j \<noteq> i \<and> live arr j"
  by (auto simp: live_def cmem)

lemma live_not_hole [dest]: "slot_read arr i = Some hole \<Longrightarrow> \<not> live arr i"
  by (simp add: live_def)

lemma arr_marked_empty: "arr_marked \<lparr>array_table = Some Map.empty, array_idx = 0\<rparr> 0"
  by (simp add: arr_marked_def live_def slot_read_def)

lemma arr_marked_live: "arr_marked arr w \<Longrightarrow> live arr i \<Longrightarrow> i < w"
  by (metis arr_marked_def live_def linorder_not_less option.distinct(1))

lemma arr_marked_finite: "arr_marked arr w \<Longrightarrow> finite {i. live arr i}"
  by (rule finite_subset [of _ "{..<w}"]) (auto dest: arr_marked_live)

lemma arr_marked_idx: "arr_marked arr w \<Longrightarrow> array_idx arr \<le> w"
  using card_mono [of "{..<w}" "{i. live arr i}"] arr_marked_live [of arr w]
  by (auto simp: arr_marked_def)

text \<open>With no hole below \<open>array_idx\<close> all entries are below it.\<close>

lemma arr_marked_dense:
  assumes "arr_marked arr w" and "\<forall>i < array_idx arr. live arr i"
  shows "live arr i \<longleftrightarrow> i < array_idx arr"
proof -
  have "{..<array_idx arr} \<subseteq> {i. live arr i}" using assms(2) by auto
  moreover have "card {i. live arr i} = card {..<array_idx arr}"
    using assms(1) by (simp add: arr_marked_def)
  ultimately have "{..<array_idx arr} = {i. live arr i}"
    by (intro card_subset_eq) (auto intro: arr_marked_finite [OF assms(1)])
  then show ?thesis by auto
qed

subsection \<open>The searches\<close>

lemma set_scan_Some:
  assumes "set_scan arr j n = Some (Some i)"
  shows "j \<le> i \<and> i < j + n \<and> (\<exists>it. slot_read arr i = Some it \<and> ai_key it = Null)"
  using assms by (induction n arbitrary: j) (fastforce simp: bind_eq_Some_conv split: if_splits)+

lemma set_scan_None:
  assumes "set_scan arr j n = Some None" and "j \<le> i" and "i < j + n"
  shows "\<exists>it. slot_read arr i = Some it \<and> ai_key it \<noteq> Null"
  using assms
proof (induction n arbitrary: j)
  case (Suc n)
  then show ?case
    by (cases "i = j") (auto simp: bind_eq_Some_conv split: if_splits)
qed simp

lemma set_scan_total:
  assumes "\<And>i. j \<le> i \<Longrightarrow> i < j + n \<Longrightarrow> slot_read arr i \<noteq> None"
  shows "\<exists>r. set_scan arr j n = Some r"
  using assms
proof (induction n arbitrary: j)
  case (Suc n)
  obtain it where "slot_read arr j = Some it" using Suc.prems [of j] by auto
  moreover have "\<exists>r. set_scan arr (Suc j) n = Some r"
    by (rule Suc.IH) (use Suc.prems in auto)
  ultimately show ?case by simp
qed simp


subsection \<open>Preservation\<close>

text \<open>What storing one entry does: a slot that holds no entry is overwritten, nothing else.\<close>

definition stored_at :: "array_s \<Rightarrow> nat \<Rightarrow> string \<Rightarrow> string \<Rightarrow> array_s \<Rightarrow> bool" where
  "stored_at arr j k v arr' \<longleftrightarrow> \<not> live arr j \<and> array_idx arr' = array_idx arr + 1 \<and>
     (\<forall>i. slot_read arr' i =
        (if i = j then Some \<lparr>ai_key = Str k, ai_value = Str v\<rparr> else slot_read arr i))"

lemma stored_at_live: "stored_at arr j k v arr' \<Longrightarrow> live arr' i \<longleftrightarrow> i = j \<or> live arr i"
  by (auto simp: stored_at_def live_def)

lemma stored_at_marked:
  assumes "arr_marked arr w" and st: "stored_at arr j k v arr'" and "j \<le> w"
    and "j < KVS_ARRAY_SIZE" and "array_table arr' \<noteq> None"
  shows "arr_marked arr' (if j = w then Suc w else w)"
proof -
  let ?w = "if j = w then Suc w else w"
  have "{i. live arr' i} = insert j {i. live arr i}"
    by (auto simp: stored_at_live [OF st])
  then have "card {i. live arr' i} = Suc (array_idx arr)"
    using assms(1) st by (simp add: arr_marked_def stored_at_def arr_marked_finite [OF assms(1)])
  moreover have "\<forall>i < ?w. live arr' i \<or> slot_read arr' i = Some hole"
    using assms(1,3) st by (auto simp: stored_at_live [OF st] arr_marked_def stored_at_def less_Suc_eq)
  ultimately show ?thesis
    using assms st by (auto simp: arr_marked_def stored_at_def)
qed

lemma slot_write_stored:
  assumes "slot_write arr j \<lparr>ai_key = Str k, ai_value = Str v\<rparr> = Some arr'" and "\<not> live arr j"
  shows "stored_at arr j k v (arr'\<lparr>array_idx := array_idx arr' + 1\<rparr>)"
  using assms slot_write_frame [OF assms(1)] by (simp add: stored_at_def cmem)

text \<open>The slot chosen by \<open>set_place\<close> is free and allocated.\<close>

lemma set_scan_slot:
  assumes w: "arr_marked arr w" and room: "array_idx arr < KVS_ARRAY_SIZE"
  obtains r j where "set_scan arr 0 (array_idx arr) = Some r"
    and "j = (case r of Some i \<Rightarrow> i | None \<Rightarrow> array_idx arr)" and "\<not> live arr j" and "j \<le> w"
    and "j < KVS_ARRAY_SIZE" and "(\<forall>i < array_idx arr. live arr i) \<Longrightarrow> r = None"
proof -
  have idx: "array_idx arr \<le> w" by (rule arr_marked_idx [OF w])
  have init: "slot_read arr i = Some hole \<or> live arr i" if "i < array_idx arr" for i
    using w idx that unfolding arr_marked_def by (meson less_le_trans)
  then have "slot_read arr i \<noteq> None" if "i < array_idx arr" for i
    using that by (fastforce simp: live_def)
  then obtain r where r: "set_scan arr 0 (array_idx arr) = Some r"
    using set_scan_total [of 0 "array_idx arr" arr] by auto
  show thesis
  proof (cases r)
    case (Some i)
    with r have i: "i < array_idx arr" "\<not> live arr i"
      using set_scan_Some [of arr 0 _ i] by (auto simp: live_def)
    with that [OF r, of i] Some idx room show thesis by auto
  next
    case None
    have "live arr i" if "i < array_idx arr" for i
      using set_scan_None [of arr 0 "array_idx arr" i] r None init [OF that] that by force
    then have "\<not> live arr (array_idx arr)" using arr_marked_dense [OF w] by simp
    with that [OF r, of "array_idx arr"] None idx room show thesis by simp
  qed
qed

lemma set_place_ok:
  assumes inv: "arr_inv arr" and room: "array_idx arr < KVS_ARRAY_SIZE"
  shows "\<exists>arr' j. set_place arr \<lparr>ai_key = Str k, ai_value = Str v\<rparr> = Some arr' \<and> arr_inv arr' \<and>
           stored_at arr j k v arr' \<and> ((\<forall>i < array_idx arr. live arr i) \<longrightarrow> j = array_idx arr)"
proof -
  let ?it = "\<lparr>ai_key = Str k, ai_value = Str v\<rparr>"
  obtain w where w: "arr_marked arr w" using inv by (auto simp: arr_inv_def)
  obtain r j where r: "set_scan arr 0 (array_idx arr) = Some r"
    and j: "j = (case r of Some i \<Rightarrow> i | None \<Rightarrow> array_idx arr)" "\<not> live arr j" "j \<le> w"
      "j < KVS_ARRAY_SIZE" "(\<forall>i < array_idx arr. live arr i) \<Longrightarrow> r = None"
    using set_scan_slot [OF w room] by blast
  obtain arr1 where arr1: "slot_write arr j ?it = Some arr1"
    using slot_write_ok [OF _ j(4), of arr ?it] w unfolding arr_marked_def by blast
  let ?arr = "arr1\<lparr>array_idx := array_idx arr1 + 1\<rparr>"
  have st: "stored_at arr j k v ?arr" by (rule slot_write_stored [OF arr1 j(2)])
  then have "arr_inv ?arr"
    using stored_at_marked [OF w st j(3,4)] slot_write_frame [OF arr1] unfolding arr_inv_def by auto
  moreover have "set_place arr ?it = Some ?arr"
    using arr1 room by (cases r) (simp_all add: set_place_def r j(1))
  ultimately show ?thesis using st j by (cases r) auto
qed

text \<open>
  \<open>kvs_array_set\<close> on any arguments: it refuses and changes nothing, or stores the pair in a
  free slot. It is undefined only for a wild pointer.
\<close>

lemma array_idx_le: "arr_inv arr \<Longrightarrow> array_idx arr \<le> KVS_ARRAY_SIZE"
  by (meson arr_inv_def arr_marked_def arr_marked_idx le_trans)

lemma kvs_array_set_cases:
  assumes inv: "arr_inv arr" and "kvs_array_set arr key value ms = Some (r, arr', ms')"
  shows "arr_inv arr' \<and> (r = -1 \<and> arr' = arr \<or>
           r = 0 \<and> (\<exists>j k v. key = Str k \<and> value = Str v \<and> stored_at arr j k v arr'))"
proof (cases "key = Null \<or> value = Null \<or> array_idx arr = KVS_ARRAY_SIZE")
  case True
  with assms show ?thesis by (simp add: kvs_array_set_def)
next
  case False
  then have room: "array_idx arr < KVS_ARRAY_SIZE" using array_idx_le [OF inv] by auto
  from False assms(2) have "r = -1 \<and> arr' = arr \<or> r = 0 \<and> (\<exists>k v. key = Str k \<and> value = Str v \<and>
      set_place arr \<lparr>ai_key = Str k, ai_value = Str v\<rparr> = Some arr')"
    by (auto simp: kvs_array_set_def bind_eq_Some_conv Let_def split_beta split: if_splits)
  then show ?thesis
  proof (elim disjE conjE exE)
    fix k v
    assume "r = 0" "key = Str k" "value = Str v"
      "set_place arr \<lparr>ai_key = Str k, ai_value = Str v\<rparr> = Some arr'"
    then show ?thesis using set_place_ok [OF inv room, of k v] by auto
  qed (use inv in simp)
qed

lemma kvs_array_set_defined:
  assumes inv: "arr_inv arr" and "key \<noteq> Wild" and "value \<noteq> Wild"
  shows "\<exists>r arr' ms'. kvs_array_set arr key value ms = Some (r, arr', ms')"
proof (cases "key = Null \<or> value = Null \<or> array_idx arr = KVS_ARRAY_SIZE")
  case True
  then show ?thesis by (simp add: kvs_array_set_def)
next
  case False
  then have room: "array_idx arr < KVS_ARRAY_SIZE" using array_idx_le [OF inv] by auto
  obtain k v where kv: "key = Str k" "value = Str v" using False assms by (cases key; cases "value") auto
  with False show ?thesis
    using set_place_ok [OF inv room, of k v]
    by (auto simp: kvs_array_set_def Let_def split: prod.splits)
qed

lemma kvs_array_set_room:
  assumes "arr_inv arr" and "array_idx arr < KVS_ARRAY_SIZE"
  shows "\<exists>arr' j. kvs_array_set arr (Str k) (Str v) [] = Some (0, arr', []) \<and> arr_inv arr' \<and>
           stored_at arr j k v arr' \<and> ((\<forall>i < array_idx arr. live arr i) \<longrightarrow> j = array_idx arr)"
  using set_place_ok [OF assms, of k v] assms(2) by (auto simp: kvs_array_set_def)

lemma key_scan_Some:
  assumes "key_scan arr key j n = Some (Some i)"
  shows "j \<le> i \<and> i < j + n \<and>
           (\<exists>k it. key = Str k \<and> slot_read arr i = Some it \<and> ai_key it = Str k)"
  using assms
  by (induction n arbitrary: j) (fastforce simp: bind_eq_Some_conv split: if_splits)+

lemma arr_marked_key:
  assumes "arr_marked arr w" and "slot_read arr i = Some it" and "ai_key it \<noteq> Null"
  shows "live arr i" and "i < w"
proof -
  show "i < w" using assms unfolding arr_marked_def by (metis linorder_not_less option.distinct(1))
  then show "live arr i" using assms unfolding arr_marked_def
    by (metis kvs_array_item_s.select_convs(1) option.inject)
qed

lemma kvs_array_del_inv:
  assumes inv: "arr_inv arr" and ret: "kvs_array_del arr key = Some (r, arr')"
  shows "arr_inv arr'"
proof (cases "key_scan arr key 0 (array_idx arr)")
  case (Some s)
  show ?thesis
  proof (cases "key = Null \<or> s = None")
    case True
    with inv ret Some show ?thesis by (auto simp: kvs_array_del_def split: if_splits)
  next
    case False
    obtain w where w: "arr_marked arr w" using inv by (auto simp: arr_inv_def)
    from False obtain i where s: "s = Some i" by auto
    with False Some ret obtain arr1 where arr1: "slot_write arr i hole = Some arr1"
      and arr': "arr' = arr1\<lparr>array_idx := array_idx arr1 - 1\<rparr>"
      by (auto simp: kvs_array_del_def bind_eq_Some_conv)
    have lv: "live arr i" "i < w"
      using key_scan_Some [of arr key 0 "array_idx arr" i] Some s arr_marked_key [OF w, of i] by auto
    have L: "{j. live arr' j} = {j. live arr j} - {i}"
      using live_write_hole [OF arr1] by (auto simp: arr')
    have "card {j. live arr' j} = array_idx arr'" unfolding L
      using w lv slot_write_frame [OF arr1]
      by (simp add: arr' arr_marked_def card_Diff_singleton arr_marked_finite [OF w])
    then have "arr_marked arr' w"
      using w lv slot_write_frame [OF arr1] live_write_hole [OF arr1]
      by (auto simp: arr_marked_def arr' cmem [OF arr1])
    then show ?thesis by (auto simp: arr_inv_def)
  qed
qed (use assms in \<open>auto simp: kvs_array_del_def split: if_splits\<close>)

lemma kvs_array_mod_inv:
  assumes inv: "arr_inv arr" and ret: "kvs_array_mod arr key value ms = Some (r, arr', ms')"
  shows "arr_inv arr'"
proof (cases "key_scan arr key 0 (array_idx arr)")
  case (Some s)
  show ?thesis
  proof (cases "key = Null \<or> value = Null \<or> s = None")
    case True
    with inv ret Some show ?thesis by (auto simp: kvs_array_mod_def split: if_splits)
  next
    case False
    obtain w where w: "arr_marked arr w" using inv by (auto simp: arr_inv_def)
    from False obtain i where s: "s = Some i" by auto
    with False Some ret obtain it v where it: "slot_read arr i = Some it"
      and wr: "slot_write arr i (it\<lparr>ai_value := Str v\<rparr>) = Some arr'"
      by (auto simp: kvs_array_mod_def bind_eq_Some_conv Let_def split_beta split: if_splits)
    obtain k where k: "ai_key it = Str k"
      using key_scan_Some [of arr key 0 "array_idx arr" i] Some s it by auto
    have lv: "live arr i" "i < w" using arr_marked_key [OF w it] k by auto
    have eq: "it\<lparr>ai_value := Str v\<rparr> = \<lparr>ai_key = Str k, ai_value = Str v\<rparr>" using k by (cases it) simp
    have L: "live arr' = live arr" using live_write [OF wr [unfolded eq]] lv by auto
    then have "arr_marked arr' w"
      using w lv slot_write_frame [OF wr] by (auto simp: arr_marked_def L cmem [OF wr])
    then show ?thesis by (auto simp: arr_inv_def)
  qed
qed (use assms in \<open>auto simp: kvs_array_mod_def split: if_splits\<close>)

text \<open>The states the engine can reach, with every outcome of the allocations.\<close>

inductive array_reach :: "array_s \<Rightarrow> bool" where
  create: "kvstore_array_create \<lparr>array_table = None, array_idx = 0\<rparr> ms = (None, arr', ms') \<Longrightarrow>
     array_reach arr'"
| set: "array_reach arr \<Longrightarrow> kvs_array_set arr key value ms = Some (r, arr', ms') \<Longrightarrow> array_reach arr'"
| del: "array_reach arr \<Longrightarrow> kvs_array_del arr key = Some (r, arr') \<Longrightarrow> array_reach arr'"
| mod: "array_reach arr \<Longrightarrow> kvs_array_mod arr key value ms = Some (r, arr', ms') \<Longrightarrow> array_reach arr'"

lemma array_reach_inv: "array_reach arr \<Longrightarrow> arr_inv arr"
proof (induction rule: array_reach.induct)
  case (create ms arr' ms')
  then have "arr' = \<lparr>array_table = Some Map.empty, array_idx = 0\<rparr>"
    by (auto simp: kvstore_array_create_def Let_def split: prod.splits if_splits)
  then show ?case using arr_marked_empty by (auto simp: arr_inv_def)
qed (blast dest: kvs_array_set_cases kvs_array_del_inv kvs_array_mod_inv)+

section \<open>Tables without holes\<close>

definition arr_dense :: "array_s \<Rightarrow> bool" where
  "arr_dense arr \<longleftrightarrow> arr_inv arr \<and> (\<forall>i < array_idx arr. live arr i)"

definition entry :: "array_s \<Rightarrow> nat \<Rightarrow> string \<times> string" where
  "entry arr i = (case slot_read arr i of
     Some it \<Rightarrow> (case (ai_key it, ai_value it) of (Str k, Str v) \<Rightarrow> (k, v) | _ \<Rightarrow> ([], []))
   | None \<Rightarrow> ([], []))"

definition entries :: "array_s \<Rightarrow> (string \<times> string) list" where
  "entries arr = map (entry arr) [0..<array_idx arr]"

definition arr_view :: "array_s \<Rightarrow> kvmap" where
  "arr_view arr = map_of (entries arr)"

definition arr_space :: "array_s \<Rightarrow> nat" where
  "arr_space arr = KVS_ARRAY_SIZE - array_idx arr"

text \<open>The position of the first binding of a key.\<close>

fun first_at :: "string \<Rightarrow> (string \<times> string) list \<Rightarrow> nat \<Rightarrow> nat option" where
  "first_at k [] j = None"
| "first_at k ((k', v) # xs) j = (if k' = k then Some j else first_at k xs (Suc j))"

lemma first_at_None: "first_at k xs j = None \<longleftrightarrow> k \<notin> fst ` List.set xs"
  by (induction k xs j rule: first_at.induct) auto

lemma first_at_Some:
  assumes "first_at k xs j = Some i"
  shows "j \<le> i \<and> i < j + length xs \<and> fst (xs ! (i - j)) = k \<and>
           k \<notin> fst ` List.set (take (i - j) xs)"
  using assms
proof (induction k xs j rule: first_at.induct)
  case (2 k k' v xs j)
  show ?case
  proof (cases "k' = k")
    case False
    with 2 have IH: "Suc j \<le> i \<and> i < Suc j + length xs \<and> fst (xs ! (i - Suc j)) = k \<and>
        k \<notin> fst ` List.set (take (i - Suc j) xs)" by simp
    then have "i - j = Suc (i - Suc j)" by (auto simp: Suc_diff_Suc)
    with IH False show ?thesis by auto
  qed (use 2 in simp)
qed simp

lemma live_slot: "live arr i \<Longrightarrow> slot_read arr i =
    Some \<lparr>ai_key = Str (fst (entry arr i)), ai_value = Str (snd (entry arr i))\<rparr>"
  by (auto simp: live_def entry_def)

lemma get_scan_live:
  assumes "\<And>i. j \<le> i \<Longrightarrow> i < j + n \<Longrightarrow> live arr i"
  shows "get_scan arr (Str k) j n = Some (ptr_of (map_of (map (entry arr) [j..<j + n]) k))"
  using assms
proof (induction n arbitrary: j)
  case (Suc n)
  have "get_scan arr (Str k) (Suc j) n =
      Some (ptr_of (map_of (map (entry arr) [Suc j..<Suc j + n]) k))"
    by (rule Suc.IH) (use Suc.prems in auto)
  moreover have "[j..<j + Suc n] = j # [Suc j..<Suc j + n]" by (simp add: upt_conv_Cons)
  moreover have "live arr j" using Suc.prems by simp
  ultimately show ?case
    by (cases "entry arr j") (simp add: live_slot)
qed simp

lemma key_scan_live:
  assumes "\<And>i. j \<le> i \<Longrightarrow> i < j + n \<Longrightarrow> live arr i"
  shows "key_scan arr (Str k) j n = Some (first_at k (map (entry arr) [j..<j + n]) j)"
  using assms
proof (induction n arbitrary: j)
  case (Suc n)
  have "key_scan arr (Str k) (Suc j) n = Some (first_at k (map (entry arr) [Suc j..<Suc j + n]) (Suc j))"
    by (rule Suc.IH) (use Suc.prems in auto)
  moreover have "[j..<j + Suc n] = j # [Suc j..<Suc j + n]" by (simp add: upt_conv_Cons)
  moreover have "live arr j" using Suc.prems by simp
  ultimately show ?case
    by (cases "entry arr j") (simp add: live_slot)
qed simp

lemma arr_dense_get:
  "arr_dense arr \<Longrightarrow> kvs_array_get arr (Str k) = Some (ptr_of (arr_view arr k))"
  using get_scan_live [of 0 "array_idx arr" arr k]
  by (simp add: kvs_array_get_def arr_dense_def arr_view_def entries_def)

lemma arr_dense_scan:
  "arr_dense arr \<Longrightarrow> key_scan arr (Str k) 0 (array_idx arr) = Some (first_at k (entries arr) 0)"
  using key_scan_live [of 0 "array_idx arr" arr k] by (simp add: arr_dense_def entries_def)

lemma stored_at_entries:
  assumes "stored_at arr (array_idx arr) k v arr'"
  shows "entries arr' = entries arr @ [(k, v)]"
  using assms by (auto simp: entries_def stored_at_def entry_def)

lemma arr_dense_set:
  assumes d: "arr_dense arr" and room: "array_idx arr < KVS_ARRAY_SIZE"
  shows "\<exists>arr'. kvs_array_set arr (Str k) (Str v) [] = Some (0, arr', []) \<and> arr_dense arr' \<and>
           array_idx arr' = Suc (array_idx arr) \<and> entries arr' = entries arr @ [(k, v)]"
proof -
  have inv: "arr_inv arr" and lv: "\<forall>i < array_idx arr. live arr i"
    using d by (auto simp: arr_dense_def)
  obtain arr' where arr': "kvs_array_set arr (Str k) (Str v) [] = Some (0, arr', [])" "arr_inv arr'"
      "stored_at arr (array_idx arr) k v arr'"
    using kvs_array_set_room [OF inv room, of k v] lv by blast
  moreover have "arr_dense arr'"
    using arr' lv stored_at_live [OF arr'(3)]
    by (auto simp: arr_dense_def stored_at_def less_Suc_eq)
  ultimately show ?thesis using stored_at_entries [OF arr'(3)] by (simp add: stored_at_def)
qed

interpretation kvs_array: kv_store arr_dense arr_view arr_space keep_first kvs_array_get kvs_array_set
proof unfold_locales
  fix s k
  assume "arr_dense s"
  then show "kvs_array_get s (Str k) = Some (ptr_of (arr_view s k))" by (rule arr_dense_get)
next
  fix s k v
  assume d: "arr_dense s" and sp: "0 < arr_space s"
  then have room: "array_idx s < KVS_ARRAY_SIZE" by (simp add: arr_space_def)
  obtain s' where s': "kvs_array_set s (Str k) (Str v) [] = Some (0, s', [])" "arr_dense s'"
      "array_idx s' = Suc (array_idx s)" "entries s' = entries s @ [(k, v)]"
    using arr_dense_set [OF d room] by blast
  moreover have "arr_view s' = (arr_view s)(k \<mapsto> keep_first (arr_view s k) v)"
    by (auto simp: arr_view_def s'(4) keep_first_def map_add_def split: option.splits)
  ultimately show "\<exists>s'. kvs_array_set s (Str k) (Str v) [] = Some (0, s', []) \<and> arr_dense s' \<and>
      arr_space s \<le> Suc (arr_space s') \<and> arr_view s' = (arr_view s)(k \<mapsto> keep_first (arr_view s k) v)"
    by (auto simp: arr_space_def)
qed

subsection \<open>Modification and deletion\<close>

lemma entries_write:
  assumes "slot_write arr i \<lparr>ai_key = Str k, ai_value = Str v\<rparr> = Some arr'"
  shows "entries arr' = (entries arr)[i := (k, v)]"
proof (rule nth_equalityI)
  show "length (entries arr') = length ((entries arr)[i := (k, v)])"
    using slot_write_frame [OF assms] by (simp add: entries_def)
  show "entries arr' ! j = (entries arr)[i := (k, v)] ! j" if "j < length (entries arr')" for j
    using that slot_write_frame [OF assms]
    by (auto simp: entries_def entry_def cmem [OF assms] nth_list_update)
qed

lemma nth_entries: "i < array_idx arr \<Longrightarrow> entries arr ! i = entry arr i"
  by (simp add: entries_def)

lemma length_entries [simp]: "length (entries arr) = array_idx arr"
  by (simp add: entries_def)

lemma arr_dense_mod_hit:
  assumes d: "arr_dense arr" and i: "first_at k (entries arr) 0 = Some i"
  shows "\<exists>arr'. kvs_array_mod arr (Str k) (Str v) [] = Some (0, arr', []) \<and> arr_dense arr' \<and>
           array_idx arr' = array_idx arr \<and> entries arr' = (entries arr)[i := (k, v)]"
proof -
  have lt: "i < array_idx arr" and key: "fst (entry arr i) = k"
    using first_at_Some [OF i] by (auto simp: nth_entries)
  then have lv: "live arr i" using d by (simp add: arr_dense_def)
  then obtain arr' where wr: "slot_write arr i \<lparr>ai_key = Str k, ai_value = Str v\<rparr> = Some arr'"
    using slot_write_ok slot_read_bounds [OF live_slot [OF lv]] by blast
  then have ret: "kvs_array_mod arr (Str k) (Str v) [] = Some (0, arr', [])"
    using arr_dense_scan [OF d, of k] i live_slot [OF lv] key by (simp add: kvs_array_mod_def)
  have "arr_dense arr'"
    using d kvs_array_mod_inv [OF _ ret] slot_write_frame [OF wr] live_write [OF wr]
    by (auto simp: arr_dense_def)
  then show ?thesis using ret entries_write [OF wr] slot_write_frame [OF wr] by blast
qed

lemma arr_dense_mod_miss:
  assumes "arr_dense arr" and "first_at k (entries arr) 0 = None"
  shows "kvs_array_mod arr (Str k) (Str v) ms = Some (int (array_idx arr), arr, ms)"
  using assms by (simp add: kvs_array_mod_def arr_dense_scan)

lemma arr_dense_del_miss:
  assumes "arr_dense arr" and "first_at k (entries arr) 0 = None"
  shows "kvs_array_del arr (Str k) = Some (int (array_idx arr), arr)"
  using assms by (simp add: kvs_array_del_def arr_dense_scan)

lemma arr_dense_del_hit:
  assumes d: "arr_dense arr" and i: "first_at k (entries arr) 0 = Some i"
  shows "\<exists>arr'. kvs_array_del arr (Str k) = Some (0, arr') \<and> arr_inv arr' \<and>
           Suc (array_idx arr') = array_idx arr \<and> slot_read arr' i = Some hole \<and>
           (\<forall>j. j \<noteq> i \<longrightarrow> slot_read arr' j = slot_read arr j)"
proof -
  have lt: "i < array_idx arr" using first_at_Some [OF i] by auto
  then have lv: "live arr i" using d by (simp add: arr_dense_def)
  then obtain arr1 where wr: "slot_write arr i hole = Some arr1"
    using slot_write_ok slot_read_bounds [OF live_slot [OF lv]] by blast
  then have ret: "kvs_array_del arr (Str k) = Some (0, arr1\<lparr>array_idx := array_idx arr1 - 1\<rparr>)"
    using arr_dense_scan [OF d, of k] i by (simp add: kvs_array_del_def)
  moreover have "arr_inv (arr1\<lparr>array_idx := array_idx arr1 - 1\<rparr>)"
    using kvs_array_del_inv [OF _ ret] d by (simp add: arr_dense_def)
  ultimately show ?thesis using slot_write_frame [OF wr] lt by (simp add: cmem [OF wr])
qed

text \<open>Deleting the last entry leaves no hole.\<close>

lemma arr_dense_del_last:
  assumes d: "arr_dense arr" and i: "first_at k (entries arr) 0 = Some (array_idx arr - 1)"
  shows "\<exists>arr'. kvs_array_del arr (Str k) = Some (0, arr') \<and> arr_dense arr' \<and>
           entries arr' = butlast (entries arr)"
proof -
  have lt: "array_idx arr - 1 < array_idx arr" using first_at_Some [OF i] by auto
  obtain arr' where a: "kvs_array_del arr (Str k) = Some (0, arr')" "arr_inv arr'"
      "Suc (array_idx arr') = array_idx arr"
      "\<forall>j. j \<noteq> array_idx arr - 1 \<longrightarrow> slot_read arr' j = slot_read arr j"
    using arr_dense_del_hit [OF d i] by blast
  have "arr_dense arr'" using d a by (auto simp: arr_dense_def live_def)
  moreover have "entries arr' = butlast (entries arr)"
    using a by (auto simp: entries_def entry_def simp flip: a(3))
  ultimately show ?thesis using a(1) by blast
qed

text \<open>A hole hides every entry after it and makes a deletion or modification read through NULL.\<close>

lemma key_scan_hole:
  assumes "slot_read arr i = Some hole" and "\<And>m. j \<le> m \<Longrightarrow> m < i \<Longrightarrow> live arr m \<and> fst (entry arr m) \<noteq> k"
    and "j \<le> i" and "i < j + n"
  shows "key_scan arr (Str k) j n = None" and "get_scan arr (Str k) j n = Some Null"
  using assms
proof (induction n arbitrary: j)
  case (Suc n)
  {
    case 1
    show ?case
    proof (cases "j = i")
      case False
      then have "key_scan arr (Str k) (Suc j) n = None" using 1 by (intro Suc.IH(1)) auto
      moreover have "live arr j" "fst (entry arr j) \<noteq> k" using 1 False by auto
      ultimately show ?thesis by (simp add: live_slot)
    qed (use 1 in simp)
  next
    case 2
    show ?case
    proof (cases "j = i")
      case False
      then have "get_scan arr (Str k) (Suc j) n = Some Null" using 2 by (intro Suc.IH(2)) auto
      moreover have "live arr j" "fst (entry arr j) \<noteq> k" using 2 False by auto
      ultimately show ?thesis by (simp add: live_slot)
    qed (use 2 in simp)
  }
qed simp_all

section \<open>The engine from its creation\<close>

definition empty_array :: array_s where
  "empty_array = \<lparr>array_table = Some Map.empty, array_idx = 0\<rparr>"

lemma array_reach_empty: "array_reach empty_array"
  by (rule array_reach.create [of "[]" _ "[]"]) (simp add: kvstore_array_create_def empty_array_def)

lemma empty_array_dense: "arr_dense empty_array" and empty_array_entries: "entries empty_array = []"
  using arr_marked_empty by (auto simp: arr_dense_def arr_inv_def empty_array_def entries_def)

lemma put_all_dense:
  assumes "arr_dense arr" and "array_idx arr + length xs \<le> KVS_ARRAY_SIZE"
  shows "\<exists>arr'. put_all kvs_array_set arr xs = Some arr' \<and> arr_dense arr' \<and>
           array_idx arr' = array_idx arr + length xs \<and> entries arr' = entries arr @ xs"
  using assms
proof (induction xs arbitrary: arr)
  case (Cons x xs)
  obtain k v where x: "x = (k, v)" by (cases x)
  obtain arr1 where arr1: "kvs_array_set arr (Str k) (Str v) [] = Some (0, arr1, [])" "arr_dense arr1"
      "array_idx arr1 = Suc (array_idx arr)" "entries arr1 = entries arr @ [(k, v)]"
    using arr_dense_set [OF Cons.prems(1), of k v] Cons.prems(2) by auto
  then show ?case using Cons.IH [OF arr1(2)] Cons.prems(2) by (auto simp: x)
qed simp

lemma put_all_empty:
  assumes "length xs \<le> KVS_ARRAY_SIZE"
  shows "\<exists>arr. put_all kvs_array_set empty_array xs = Some arr \<and> arr_dense arr \<and>
           array_idx arr = length xs \<and> entries arr = xs"
proof -
  have "array_idx empty_array = 0" by (simp add: empty_array_def)
  then show ?thesis
    using put_all_dense [OF empty_array_dense, of xs] assms by (simp add: empty_array_entries)
qed

section \<open>Properties\<close>

text \<open>
  C29. In every state the array engine can reach, whatever the calls, their arguments and the
  outcomes of the allocations, \<open>array_idx\<close> is the number of entries stored in the table,
  the table is never over-full and no initialised slot lies past the entries and holes.
\<close>

theorem array_reach_count:
  assumes "array_reach arr"
  shows "finite {i. live arr i} \<and> kvs_array_count arr = int (card {i. live arr i}) \<and>
         array_idx arr \<le> KVS_ARRAY_SIZE \<and> (\<forall>i. live arr i \<longrightarrow> i < KVS_ARRAY_SIZE)"
proof -
  obtain w where w: "arr_marked arr w" using array_reach_inv [OF assms] by (auto simp: arr_inv_def)
  then show ?thesis
    using arr_marked_finite [OF w] arr_marked_live [OF w] array_idx_le [OF array_reach_inv [OF assms]]
    by (fastforce simp: kvs_array_count_def arr_marked_def)
qed

theorem array_reach_count_witness:
  "array_reach empty_array \<and> kvs_array_count empty_array = int (card {i. live empty_array i})"
  using array_reach_count [OF array_reach_empty] array_reach_empty by simp

text \<open>
  A SET on a reachable table, with any null or valid arguments and any outcomes of the
  allocations, has a defined result: it returns -1 and changes nothing, or returns 0 and
  writes the pair into one slot that held no entry, leaving every other slot as it was. So
  no stored entry is ever overwritten or lost by a SET.
\<close>

theorem array_set_keeps_entries:
  assumes "array_reach arr" and "key \<noteq> Wild" and "value \<noteq> Wild"
  shows "\<exists>r arr' ms'. kvs_array_set arr key value ms = Some (r, arr', ms') \<and>
           (r = -1 \<and> arr' = arr \<or>
            r = 0 \<and> (\<exists>j k v. key = Str k \<and> value = Str v \<and> stored_at arr j k v arr'))"
  using kvs_array_set_defined [OF array_reach_inv [OF assms(1)] assms(2,3), of ms]
    kvs_array_set_cases [OF array_reach_inv [OF assms(1)]] by metis

theorem array_set_keeps_entries_witness:
  "\<exists>arr' ms'. array_reach empty_array \<and>
     kvs_array_set empty_array (Str ''k'') (Str ''v'') [] = Some (0, arr', ms')"
  using array_set_keeps_entries [OF array_reach_empty, of "Str ''k''" "Str ''v''" "[]"] array_reach_empty
  by (auto simp: kvs_array_set_def empty_array_def set_place_def slot_write_def KVS_ARRAY_SIZE_def)

text \<open>
  Up to \<open>KVS_ARRAY_SIZE\<close> SETs into a fresh array engine all succeed, and a GET then
  returns the value of the first SET of its key: a later SET of the same key does not
  replace it.
\<close>

theorem array_get_first_set:
  assumes "length xs \<le> KVS_ARRAY_SIZE"
  shows "\<exists>arr. put_all kvs_array_set empty_array xs = Some arr \<and>
           kvs_array_count arr = int (length xs) \<and>
           (\<forall>k. kvs_array_get arr (Str k) = Some (ptr_of (map_of xs k)))"
proof -
  obtain arr where "put_all kvs_array_set empty_array xs = Some arr" "arr_dense arr"
      "array_idx arr = length xs" "entries arr = xs"
    using put_all_empty [OF assms] by blast
  then show ?thesis using kvs_array.get_view [of arr] by (simp add: arr_view_def kvs_array_count_def)
qed

theorem array_get_first_set_witness:
  "\<exists>arr. put_all kvs_array_set empty_array [(''a'', ''1''), (''a'', ''2'')] = Some arr \<and>
     kvs_array_get arr (Str ''a'') = Some (Str ''1'')"
  using array_get_first_set [of "[(''a'', ''1''), (''a'', ''2'')]"] by (auto simp: KVS_ARRAY_SIZE_def)

text \<open>
  Deleting an entry that is not the last one leaves a hole in the middle of the table.
  From then on a GET of any key not stored before the hole reports that it does not exist,
  although its entry is still in the table, and a DEL or MOD of such a key compares through
  a NULL pointer: it has no defined result.
\<close>

theorem array_delete_leaves_hole:
  assumes d: "arr_dense arr" and i: "first_at k (entries arr) 0 = Some i"
    and "Suc i < array_idx arr" and k': "k' \<notin> fst ` List.set (take i (entries arr))"
  shows "\<exists>arr'. kvs_array_del arr (Str k) = Some (0, arr') \<and>
           kvs_array_get arr' (Str k') = Some Null \<and> kvs_array_del arr' (Str k') = None \<and>
           kvs_array_mod arr' (Str k') (Str v) ms = None"
proof -
  obtain arr' where a: "kvs_array_del arr (Str k) = Some (0, arr')" "arr_inv arr'"
      "Suc (array_idx arr') = array_idx arr" "slot_read arr' i = Some hole"
      "\<forall>j. j \<noteq> i \<longrightarrow> slot_read arr' j = slot_read arr j"
    using arr_dense_del_hit [OF d i] by blast
  have lv: "live arr' m \<and> fst (entry arr' m) \<noteq> k'" if "m < i" for m
  proof -
    have "entry arr m \<in> List.set (take i (entries arr))"
      using that assms(3) nth_mem [of m "take i (entries arr)"] by (simp add: nth_entries)
    then have "fst (entry arr m) \<noteq> k'" using k' by force
    moreover have "live arr m" using d that assms(3) by (simp add: arr_dense_def)
    ultimately show ?thesis using a(5) that by (auto simp: live_def entry_def)
  qed
  have lt: "i < 0 + array_idx arr'" using a(3) assms(3) by simp
  show ?thesis
    using key_scan_hole [OF a(4) lv _ lt] a(1)
    by (auto simp: kvs_array_get_def kvs_array_del_def kvs_array_mod_def)
qed

theorem array_delete_leaves_hole_witness:
  "\<exists>arr arr'. put_all kvs_array_set empty_array [(''a'', ''1''), (''b'', ''2'')] = Some arr \<and>
     kvs_array_del arr (Str ''a'') = Some (0, arr') \<and> kvs_array_get arr' (Str ''b'') = Some Null \<and>
     kvs_array_del arr' (Str ''b'') = None"
proof -
  obtain arr where arr: "put_all kvs_array_set empty_array [(''a'', ''1''), (''b'', ''2'')] = Some arr"
      "arr_dense arr" "array_idx arr = length [(''a'', ''1''), (''b'', ''2'')]"
      "entries arr = [(''a'', ''1''), (''b'', ''2'')]"
    using put_all_empty [of "[(''a'', ''1''), (''b'', ''2'')]"] unfolding KVS_ARRAY_SIZE_def by fastforce
  then show ?thesis
    using array_delete_leaves_hole [OF arr(2), of "''a''" 0 "''b''"] by auto
qed

text \<open>
  On a table without holes MOD replaces the value of the first entry of its key and
  nothing else; a DEL of the last entry removes it and leaves no hole; both report a missing
  key by the number of entries, so on an empty table they report 0, success.
\<close>

theorem array_mod_del_dense:
  assumes d: "arr_dense arr"
  shows "(case first_at k (entries arr) 0 of
            Some i \<Rightarrow> (\<exists>arr'. kvs_array_mod arr (Str k) (Str v) [] = Some (0, arr', []) \<and>
                          arr_dense arr' \<and> entries arr' = (entries arr)[i := (k, v)]) \<and>
                      (Suc i = array_idx arr \<longrightarrow>
                        (\<exists>arr'. kvs_array_del arr (Str k) = Some (0, arr') \<and> arr_dense arr' \<and>
                          entries arr' = butlast (entries arr)))
          | None \<Rightarrow> kvs_array_mod arr (Str k) (Str v) [] = Some (int (length (entries arr)), arr, []) \<and>
                    kvs_array_del arr (Str k) = Some (int (length (entries arr)), arr))"
proof (cases "first_at k (entries arr) 0")
  case None
  then show ?thesis using arr_dense_mod_miss [OF d None] arr_dense_del_miss [OF d None] by simp
next
  case (Some i)
  then show ?thesis
    using arr_dense_mod_hit [OF d Some, of v] arr_dense_del_last [OF d, of k] by fastforce
qed

theorem array_mod_del_dense_witness:
  "arr_dense empty_array \<and> kvs_array_del empty_array (Str ''k'') = Some (0, empty_array)"
  using array_mod_del_dense [OF empty_array_dense, of "''k''" "''v''"] empty_array_dense
  by (simp add: empty_array_entries)

end
