(* ===== verification/Kvs_Hash.thy ===== *)
theory Kvs_Hash
  imports KvSpec "HOL-Library.Word"
begin

text \<open>
  The hash engine, \<open>kvstore_hash.c\<close>: a table of \<open>MAX_TABLE_SIZE\<close> chains, a key hashed by
  the multiply-by-33 function \<open>_hash\<close> on an \<open>unsigned long\<close>.

  First the operations, then the invariant \<open>hash_inv\<close>, the map \<open>hash_view\<close> the table stores,
  and the laws of the interface \<open>kv_engine\<close>, which the engine satisfies with SET as an
  overwriting update.
\<close>

section \<open>Data\<close>

definition MAX_TABLE_SIZE :: nat where
  "MAX_TABLE_SIZE = 102400"

text \<open>
  A node owns the copies of its key and value. Nodes are reached only through their chain, so
  a chain is the list of its nodes, \<open>next\<close> being the rest of the list.
\<close>

record hashnode_s =
  hn_key :: string
  hn_value :: cptr

type_synonym chain = "hashnode_s list"

text \<open>The array \<open>nodes\<close> is null or freed (\<open>None\<close>), or has one chain per allocated index.\<close>

record hashtable_s =
  nodes :: "(nat \<rightharpoonup> chain) option"
  max_slots :: nat
  hcount :: int

definition chain_read :: "hashtable_s \<Rightarrow> nat \<Rightarrow> chain option" where
  "chain_read h i = do { ns \<leftarrow> nodes h; ns i }"

definition chain_write :: "hashtable_s \<Rightarrow> nat \<Rightarrow> chain \<Rightarrow> hashtable_s option" where
  "chain_write h i c =
     do { ns \<leftarrow> nodes h; _ \<leftarrow> ns i; Some (h\<lparr>nodes := Some (ns(i \<mapsto> c))\<rparr>) }"

section \<open>Operations\<close>

text \<open>
  \<open>c = *key++\<close> reads a (signed) \<open>char\<close> into an \<open>int\<close>, so a byte above 127 is negative and
  is sign-extended when it is added to the \<open>unsigned long\<close>.
\<close>

definition schar :: "char \<Rightarrow> int" where
  "schar c = (if (of_char c :: int) < 128 then of_char c else of_char c - 256)"

fun hash_loop :: "string \<Rightarrow> 64 word \<Rightarrow> 64 word" where
  "hash_loop [] hash = hash"
| "hash_loop (c # cs) hash = hash_loop cs ((push_bit 5 hash + hash) + of_int (schar c))"

definition hash_idx :: "string \<Rightarrow> nat \<Rightarrow> nat" where
  "hash_idx key sz = unat (hash_loop key 5381 mod of_nat sz)"

definition create_node :: "string \<Rightarrow> cptr \<Rightarrow> mallocs \<Rightarrow> (hashnode_s option \<times> mallocs) option" where
  "create_node key value ms =
     (let (ok, ms) = kvstore_malloc ms in
      if \<not> ok then Some (None, ms)
      else let (ok, ms) = kvstore_malloc ms in
      if \<not> ok then Some (None, ms)
      else do {
        v \<leftarrow> deref value;
        let (ok, ms) = kvstore_malloc ms;
        if \<not> ok then Some (None, ms)
        else Some (Some \<lparr>hn_key = key, hn_value = Str v\<rparr>, ms) })"

definition init_hashtable :: "hashtable_s \<Rightarrow> mallocs \<Rightarrow> int \<times> hashtable_s \<times> mallocs" where
  "init_hashtable h ms =
     (let (ok, ms) = kvstore_malloc ms in
      if \<not> ok then (-1, h\<lparr>nodes := None\<rparr>, ms)
      else (0, \<lparr>nodes = Some (\<lambda>i. if i < MAX_TABLE_SIZE then Some [] else None),
                max_slots = MAX_TABLE_SIZE, hcount = 0\<rparr>, ms))"

text \<open>
  The two loops of \<open>dest_hashtable\<close>: each chain is unlinked node by node, \<open>nodes[i]\<close>
  following the front, and every node is freed without its key and value; those strings
  are collected as what the program loses. Then the array itself is freed.
\<close>

fun dest_chain :: "chain \<Rightarrow> chain \<times> hashnode_s list" where
  "dest_chain [] = ([], [])"
| "dest_chain (tmp # node) = (let (c, lost) = dest_chain node in (c, tmp # lost))"

fun dest_loop :: "hashtable_s \<Rightarrow> nat \<Rightarrow> nat \<Rightarrow> (hashtable_s \<times> hashnode_s list) option" where
  "dest_loop h i 0 = Some (h, [])"
| "dest_loop h i (Suc n) =
     do { node \<leftarrow> chain_read h i;
          let (c, lost) = dest_chain node;
          h \<leftarrow> chain_write h i c;
          (h, lost') \<leftarrow> dest_loop h (Suc i) n;
          Some (h, lost @ lost') }"

definition dest_hashtable :: "hashtable_s \<Rightarrow> (hashtable_s \<times> hashnode_s list) option" where
  "dest_hashtable h =
     do { (h, lost) \<leftarrow> dest_loop h 0 (max_slots h); Some (h\<lparr>nodes := None\<rparr>, lost) }"

text \<open>
  The search of \<open>put_kv_hashtable\<close> and \<open>kvs_hash_modify\<close>: the first node of the key gets
  a fresh copy of the value. The old value is freed first, and a failed allocation leads to
  \<open>strcpy\<close> into NULL, or to a failed assertion in \<open>kvs_hash_modify\<close>: no result. The inner
  \<open>None\<close> is a chain without the key.
\<close>

fun update_node :: "chain \<Rightarrow> string \<Rightarrow> cptr \<Rightarrow> mallocs \<Rightarrow> (chain \<times> mallocs) option option" where
  "update_node [] key value ms = Some None"
| "update_node (node # next) key value ms =
     (if strcmp (hn_key node) key = 0
      then do {
        v \<leftarrow> deref value;
        let (ok, ms) = kvstore_malloc ms;
        if \<not> ok then None else Some (Some (node\<lparr>hn_value := Str v\<rparr> # next, ms)) }
      else do {
        r \<leftarrow> update_node next key value ms;
        Some (map_option (\<lambda>(c, ms). (node # c, ms)) r) })"

definition put_kv_hashtable :: "hashtable_s \<Rightarrow> cptr \<Rightarrow> cptr \<Rightarrow> mallocs \<Rightarrow> (int \<times> hashtable_s \<times> mallocs) option" where
  "put_kv_hashtable h key value ms =
     (if key = Null \<or> value = Null then Some (-1, h, ms)
      else do {
        k \<leftarrow> deref key;
        let idx = hash_idx k MAX_TABLE_SIZE;
        node \<leftarrow> chain_read h idx;
        r \<leftarrow> update_node node k value ms;
        case r of
          Some (c, ms) \<Rightarrow> do { h \<leftarrow> chain_write h idx c; Some (0, h, ms) }
        | None \<Rightarrow> do {
            (new_node, ms) \<leftarrow> create_node k value ms;
            new_node \<leftarrow> new_node;
            head \<leftarrow> chain_read h idx;
            h \<leftarrow> chain_write h idx (new_node # head);
            n \<leftarrow> c_inc (hcount h);
            Some (0, h\<lparr>hcount := n\<rparr>, ms) }})"

fun find_node :: "chain \<Rightarrow> string \<Rightarrow> hashnode_s option" where
  "find_node [] key = None"
| "find_node (node # next) key = (if strcmp (hn_key node) key = 0 then Some node else find_node next key)"

definition get_kv_hashtable :: "hashtable_s \<Rightarrow> cptr \<Rightarrow> cptr option" where
  "get_kv_hashtable h key =
     (if key = Null then Some Null
      else do {
        k \<leftarrow> deref key;
        node \<leftarrow> chain_read h (hash_idx k MAX_TABLE_SIZE);
        Some (case find_node node k of Some n \<Rightarrow> hn_value n | None \<Rightarrow> Null) })"

definition count_kv_hashtable :: "hashtable_s \<Rightarrow> int" where
  "count_kv_hashtable h = hcount h"

text \<open>
  The loop of \<open>delete_kv_hashtable\<close> after the head: it looks at \<open>cur->next\<close> and unlinks it.
  \<open>None\<close> is the exit with \<open>cur->next == NULL\<close>.
\<close>

fun unlink_next :: "chain \<Rightarrow> string \<Rightarrow> chain option" where
  "unlink_next [] key = None"
| "unlink_next [cur] key = None"
| "unlink_next (cur # tmp # rest) key =
     (if strcmp (hn_key tmp) key = 0 then Some (cur # rest)
      else map_option ((#) cur) (unlink_next (tmp # rest) key))"

definition delete_kv_hashtable :: "hashtable_s \<Rightarrow> cptr \<Rightarrow> (int \<times> hashtable_s) option" where
  "delete_kv_hashtable h key =
     (if key = Null then Some (-2, h)
      else do {
        k \<leftarrow> deref key;
        let idx = hash_idx k MAX_TABLE_SIZE;
        c \<leftarrow> chain_read h idx;
        case c of
          [] \<Rightarrow> Some (-1, h)
        | head # tmp \<Rightarrow>
            if strcmp (hn_key head) k = 0
            then do {
              h \<leftarrow> chain_write h idx tmp;
              n \<leftarrow> c_dec (hcount h);
              Some (0, h\<lparr>hcount := n\<rparr>) }
            else (case unlink_next c k of
                None \<Rightarrow> Some (-1, h)
              | Some c \<Rightarrow> do {
                  h \<leftarrow> chain_write h idx c;
                  n \<leftarrow> c_dec (hcount h);
                  Some (0, h\<lparr>hcount := n\<rparr>) })})"

definition exist_kv_hashtable :: "hashtable_s \<Rightarrow> cptr \<Rightarrow> int option" where
  "exist_kv_hashtable h key =
     do { v \<leftarrow> get_kv_hashtable h key; Some (if v \<noteq> Null then 1 else 0) }"

definition kvstore_hash_create :: "hashtable_s \<Rightarrow> mallocs \<Rightarrow> int \<times> hashtable_s \<times> mallocs" where
  "kvstore_hash_create h ms = init_hashtable h ms"

definition kvstore_hash_destory :: "hashtable_s \<Rightarrow> (hashtable_s \<times> hashnode_s list) option" where
  "kvstore_hash_destory h = dest_hashtable h"

definition kvs_hash_set :: "hashtable_s \<Rightarrow> cptr \<Rightarrow> cptr \<Rightarrow> mallocs \<Rightarrow> (int \<times> hashtable_s \<times> mallocs) option" where
  "kvs_hash_set h key value ms = put_kv_hashtable h key value ms"

definition kvs_hash_get :: "hashtable_s \<Rightarrow> cptr \<Rightarrow> cptr option" where
  "kvs_hash_get h key = get_kv_hashtable h key"

definition kvs_hash_delete :: "hashtable_s \<Rightarrow> cptr \<Rightarrow> (int \<times> hashtable_s) option" where
  "kvs_hash_delete h key = delete_kv_hashtable h key"

definition kvs_hash_modify :: "hashtable_s \<Rightarrow> cptr \<Rightarrow> cptr \<Rightarrow> mallocs \<Rightarrow> (int \<times> hashtable_s \<times> mallocs) option" where
  "kvs_hash_modify h key value ms =
     (if key = Null \<or> value = Null then Some (-1, h, ms)
      else do {
        k \<leftarrow> deref key;
        let idx = hash_idx k MAX_TABLE_SIZE;
        node \<leftarrow> chain_read h idx;
        r \<leftarrow> update_node node k value ms;
        case r of
          Some (c, ms) \<Rightarrow> do { h \<leftarrow> chain_write h idx c; Some (0, h, ms) }
        | None \<Rightarrow> Some (-1, h, ms) })"

definition kvs_hash_count :: "hashtable_s \<Rightarrow> int" where
  "kvs_hash_count h = hcount h"

section \<open>The invariant and the stored map\<close>

lemma hash_idx_bound: "0 < sz \<Longrightarrow> sz < 2 ^ 64 \<Longrightarrow> hash_idx key sz < sz"
  by (simp add: hash_idx_def unat_mod unat_of_nat)

lemma hash_idx_slot [simp]: "hash_idx key MAX_TABLE_SIZE < MAX_TABLE_SIZE"
  by (rule hash_idx_bound) (simp_all add: MAX_TABLE_SIZE_def)

definition chain_view :: "chain \<Rightarrow> kvmap" where
  "chain_view c k = (case find_node c k of None \<Rightarrow> None | Some n \<Rightarrow> deref (hn_value n))"

definition chain_ok :: "chain \<Rightarrow> nat \<Rightarrow> bool" where
  "chain_ok c i \<longleftrightarrow> distinct (map hn_key c) \<and>
     (\<forall>n \<in> set c. hash_idx (hn_key n) MAX_TABLE_SIZE = i \<and> (\<exists>v. hn_value n = Str v))"

definition hash_view :: "hashtable_s \<Rightarrow> kvmap" where
  "hash_view h k = (case chain_read h (hash_idx k MAX_TABLE_SIZE) of
     None \<Rightarrow> None | Some c \<Rightarrow> chain_view c k)"

definition hash_inv :: "hashtable_s \<Rightarrow> bool" where
  "hash_inv h \<longleftrightarrow> max_slots h = MAX_TABLE_SIZE \<and>
     (\<forall>i. i < MAX_TABLE_SIZE \<longrightarrow> (\<exists>c. chain_read h i = Some c \<and> chain_ok c i)) \<and>
     finite (dom (hash_view h)) \<and> hcount h = int (card (dom (hash_view h)))"

definition hash_space :: "hashtable_s \<Rightarrow> nat" where
  "hash_space h = nat (INT_MAX - hcount h)"

subsection \<open>Chains\<close>

lemma chain_view_Nil [simp]: "chain_view [] = Map.empty"
  by (simp add: chain_view_def fun_eq_iff)

lemma chain_view_Cons [simp]:
  "chain_view (n # c) k = (if hn_key n = k then deref (hn_value n) else chain_view c k)"
  by (simp add: chain_view_def)

lemma find_node_view:
  "chain_ok c i \<Longrightarrow> (case find_node c k of Some n \<Rightarrow> hn_value n | None \<Rightarrow> Null) = ptr_of (chain_view c k)"
  by (induction c) (auto simp: chain_ok_def chain_view_def)

lemma chain_view_dom: "chain_ok c i \<Longrightarrow> chain_view c k = None \<longleftrightarrow> k \<notin> hn_key ` set c"
  by (induction c) (auto simp: chain_ok_def)

lemma update_node_miss: "k \<notin> hn_key ` set c \<Longrightarrow> update_node c k value ms = Some None"
  by (induction c) auto

lemma update_node_hit:
  assumes "chain_ok c i" and "k \<in> hn_key ` set c"
  shows "\<exists>c'. update_node c k (Str v) [] = Some (Some (c', [])) \<and> map hn_key c' = map hn_key c \<and>
           chain_ok c' i \<and> chain_view c' = (chain_view c)(k \<mapsto> v)"
  using assms
proof (induction c)
  case (Cons n c)
  show ?case
  proof (cases "hn_key n = k")
    case True
    then show ?thesis using Cons.prems by (auto simp: chain_ok_def fun_eq_iff)
  next
    case False
    then have "chain_ok c i" "k \<in> hn_key ` set c" using Cons.prems by (auto simp: chain_ok_def)
    from Cons.IH [OF this] obtain c' where "update_node c k (Str v) [] = Some (Some (c', []))"
        "map hn_key c' = map hn_key c" "chain_ok c' i" "chain_view c' = (chain_view c)(k \<mapsto> v)"
      by blast
    moreover from this have "hn_key ` set c' = hn_key ` set c" by (metis set_map)
    ultimately show ?thesis using False Cons.prems by (auto simp: chain_ok_def fun_eq_iff)
  qed
qed simp

lemma unlink_next_hit:
  assumes "chain_ok (n # c) i" and "k \<in> hn_key ` set c"
  shows "\<exists>c'. unlink_next (n # c) k = Some (n # c') \<and> chain_ok (n # c') i \<and>
           set c' \<subseteq> set c \<and> chain_view (n # c') = (chain_view (n # c))(k := None)"
  using assms
proof (induction c arbitrary: n)
  case (Cons m c)
  show ?case
  proof (cases "hn_key m = k")
    case True
    with Cons.prems have "k \<notin> hn_key ` set c" "chain_ok c i" "hn_key n \<noteq> k"
      by (auto simp: chain_ok_def)
    then show ?thesis using True Cons.prems chain_view_dom [of c i k]
      by (auto simp: chain_ok_def fun_eq_iff)
  next
    case False
    have "chain_ok (m # c) i" "k \<in> hn_key ` set c" using Cons.prems False by (auto simp: chain_ok_def)
    from Cons.IH [OF this] obtain c' where c': "unlink_next (m # c) k = Some (m # c')" "chain_ok (m # c') i"
        "set c' \<subseteq> set c" "chain_view (m # c') = (chain_view (m # c))(k := None)"
      by blast
    have "hn_key n \<noteq> k" using Cons.prems by (auto simp: chain_ok_def)
    then show ?thesis using c' False Cons.prems(1)
      by (auto simp: chain_ok_def fun_eq_iff split: if_splits)
  qed
qed simp

lemma unlink_next_miss: "k \<notin> hn_key ` set c \<Longrightarrow> unlink_next (n # c) k = None"
  by (induction c arbitrary: n) auto

subsection \<open>The table\<close>

lemma chain_write_ok: "chain_read h i = Some c \<Longrightarrow> \<exists>h'. chain_write h i c' = Some h'"
  by (auto simp: chain_read_def chain_write_def bind_eq_Some_conv)

lemma chain_read_write [cmem]:
  "chain_write h i c = Some h' \<Longrightarrow> chain_read h' j = (if j = i then Some c else chain_read h j)"
  by (auto simp: chain_read_def chain_write_def bind_eq_Some_conv)

lemma chain_write_frame:
  "chain_write h i c = Some h' \<Longrightarrow> max_slots h' = max_slots h \<and> hcount h' = hcount h"
  by (auto simp: chain_write_def bind_eq_Some_conv)

lemma chain_read_count [simp]: "chain_read (h\<lparr>hcount := n\<rparr>) = chain_read h"
  by (simp add: chain_read_def fun_eq_iff)

lemma hash_view_count [simp]: "hash_view (h\<lparr>hcount := n\<rparr>) = hash_view h"
  by (simp add: hash_view_def fun_eq_iff)

lemma hash_inv_chain:
  assumes "hash_inv h"
  obtains c where "chain_read h (hash_idx k MAX_TABLE_SIZE) = Some c"
    and "chain_ok c (hash_idx k MAX_TABLE_SIZE)" and "hash_view h k = chain_view c k"
    and "hash_view h k = None \<longleftrightarrow> k \<notin> hn_key ` set c"
proof -
  obtain c where "chain_read h (hash_idx k MAX_TABLE_SIZE) = Some c"
      "chain_ok c (hash_idx k MAX_TABLE_SIZE)"
    using assms hash_idx_slot [of k] unfolding hash_inv_def by blast
  then show thesis using that chain_view_dom by (simp add: hash_view_def)
qed

text \<open>Replacing the chain of \<open>k\<close> by one that differs at \<open>k\<close> only changes the map at \<open>k\<close> only.\<close>

lemma hash_view_write:
  assumes "chain_read h (hash_idx k MAX_TABLE_SIZE) = Some c"
    and "chain_view c' = (chain_view c)(k := x)"
    and "chain_write h (hash_idx k MAX_TABLE_SIZE) c' = Some h'"
  shows "hash_view h' = (hash_view h)(k := x)"
  using assms(1,2) by (auto simp: hash_view_def cmem [OF assms(3)] fun_eq_iff)

lemma hash_inv_write:
  assumes inv: "hash_inv h" and r: "chain_read h (hash_idx k MAX_TABLE_SIZE) = Some c"
    and v: "chain_view c' = (chain_view c)(k := x)"
    and w: "chain_write h (hash_idx k MAX_TABLE_SIZE) c' = Some h'"
    and ok: "chain_ok c' (hash_idx k MAX_TABLE_SIZE)"
    and n: "n = int (card (dom ((hash_view h)(k := x))))"
  shows "hash_inv (h'\<lparr>hcount := n\<rparr>) \<and> hash_view (h'\<lparr>hcount := n\<rparr>) = (hash_view h)(k := x)"
proof -
  have hv: "hash_view h' = (hash_view h)(k := x)" by (rule hash_view_write [OF r v w])
  then show ?thesis
    using inv ok chain_write_frame [OF w] by (auto simp: hash_inv_def n cmem [OF w])
qed

section \<open>The operations on the stored map\<close>

lemma hash_get_view: "hash_inv h \<Longrightarrow> kvs_hash_get h (Str k) = Some (ptr_of (hash_view h k))"
  by (auto simp: kvs_hash_get_def get_kv_hashtable_def find_node_view elim!: hash_inv_chain [of h k])

lemma hash_update_present:
  assumes inv: "hash_inv h" and "hash_view h k = Some w"
  shows "\<exists>h'. kvs_hash_set h (Str k) (Str v) [] = Some (0, h', []) \<and>
              kvs_hash_modify h (Str k) (Str v) [] = Some (0, h', []) \<and> hash_inv h' \<and>
              hcount h' = hcount h \<and> hash_view h' = (hash_view h)(k \<mapsto> v)"
proof -
  obtain c where c: "chain_read h (hash_idx k MAX_TABLE_SIZE) = Some c"
      "chain_ok c (hash_idx k MAX_TABLE_SIZE)" "hash_view h k = chain_view c k"
      "hash_view h k = None \<longleftrightarrow> k \<notin> hn_key ` set c"
    by (rule hash_inv_chain [OF inv])
  have "k \<in> hn_key ` set c" using c(4) assms(2) by simp
  then obtain c' where c': "update_node c k (Str v) [] = Some (Some (c', []))"
      "chain_ok c' (hash_idx k MAX_TABLE_SIZE)" "chain_view c' = (chain_view c)(k \<mapsto> v)"
    using update_node_hit [OF c(2)] by blast
  obtain h' where h': "chain_write h (hash_idx k MAX_TABLE_SIZE) c' = Some h'"
    using chain_write_ok [OF c(1)] by blast
  have "k \<in> dom (hash_view h)" using assms(2) by blast
  then have "hcount h = int (card (dom ((hash_view h)(k \<mapsto> v))))"
    using inv by (simp add: hash_inv_def insert_absorb)
  from hash_inv_write [OF inv c(1) c'(3) h' c'(2) this]
  have "hash_inv h' \<and> hash_view h' = (hash_view h)(k \<mapsto> v)"
    using chain_write_frame [OF h'] by (metis hashtable_s.surjective hashtable_s.update_convs(3))
  then show ?thesis using c(1) c'(1) h' chain_write_frame [OF h']
    by (simp add: kvs_hash_set_def put_kv_hashtable_def kvs_hash_modify_def)
qed

lemma hash_set_absent:
  assumes inv: "hash_inv h" and "hash_view h k = None" and room: "hcount h < INT_MAX"
  shows "\<exists>h'. kvs_hash_set h (Str k) (Str v) [] = Some (0, h', []) \<and> hash_inv h' \<and>
              hcount h' = hcount h + 1 \<and> hash_view h' = (hash_view h)(k \<mapsto> v)"
proof -
  let ?i = "hash_idx k MAX_TABLE_SIZE" and ?n = "\<lparr>hn_key = k, hn_value = Str v\<rparr>"
  obtain c where c: "chain_read h ?i = Some c" "chain_ok c ?i" "hash_view h k = chain_view c k"
      "hash_view h k = None \<longleftrightarrow> k \<notin> hn_key ` set c"
    by (rule hash_inv_chain [OF inv])
  have new: "k \<notin> hn_key ` set c" using c(4) assms(2) by simp
  have ok: "chain_ok (?n # c) ?i" using new c(2) by (auto simp: chain_ok_def)
  have vw: "chain_view (?n # c) = (chain_view c)(k \<mapsto> v)" by (simp add: fun_eq_iff)
  obtain h' where h': "chain_write h ?i (?n # c) = Some h'"
    using chain_write_ok [OF c(1)] by blast
  have "hcount h + 1 = int (card (dom ((hash_view h)(k \<mapsto> v))))"
    using inv assms(2) by (simp add: hash_inv_def domIff)
  from hash_inv_write [OF inv c(1) vw h' ok this] show ?thesis
    using c(1) h' room chain_write_frame [OF h'] update_node_miss [OF new]
    by (simp add: kvs_hash_set_def put_kv_hashtable_def create_node_def)
qed

lemma hash_modify_absent:
  assumes inv: "hash_inv h" and "hash_view h k = None"
  shows "kvs_hash_modify h (Str k) (Str v) ms = Some (-1, h, ms)"
proof -
  obtain c where c: "chain_read h (hash_idx k MAX_TABLE_SIZE) = Some c"
      "chain_ok c (hash_idx k MAX_TABLE_SIZE)" "hash_view h k = chain_view c k"
      "hash_view h k = None \<longleftrightarrow> k \<notin> hn_key ` set c"
    by (rule hash_inv_chain [OF inv])
  have "k \<notin> hn_key ` set c" using c(4) assms(2) by simp
  then show ?thesis using c(1) update_node_miss by (simp add: kvs_hash_modify_def)
qed

text \<open>What \<open>delete_kv_hashtable\<close> leaves of a chain that has the key, head node or not.\<close>

lemma delete_chain:
  assumes "chain_ok c i" and "k \<in> hn_key ` set c"
  obtains n tmp c' where "c = n # tmp" and "chain_ok c' i" and "chain_view c' = (chain_view c)(k := None)"
    and "if hn_key n = k then c' = tmp else unlink_next c k = Some c'"
proof -
  obtain n tmp where c: "c = n # tmp" using assms(2) by (cases c) auto
  show thesis
  proof (cases "hn_key n = k")
    case True
    have "chain_view tmp k = None" using assms True c chain_view_dom [of tmp i k]
      by (auto simp: chain_ok_def)
    then show thesis using True assms(1) by (intro that [OF c, of tmp]) (auto simp: c chain_ok_def fun_eq_iff)
  next
    case False
    then show thesis using unlink_next_hit [of n tmp i k] assms that [OF c] by (auto simp: c)
  qed
qed

lemma hash_delete_present:
  assumes inv: "hash_inv h" and "hash_view h k = Some w"
  shows "\<exists>h'. kvs_hash_delete h (Str k) = Some (0, h') \<and> hash_inv h' \<and>
              hcount h' = hcount h - 1 \<and> hash_view h' = (hash_view h)(k := None)"
proof -
  let ?i = "hash_idx k MAX_TABLE_SIZE"
  obtain c where c: "chain_read h ?i = Some c" "chain_ok c ?i" "hash_view h k = chain_view c k"
      "hash_view h k = None \<longleftrightarrow> k \<notin> hn_key ` set c"
    by (rule hash_inv_chain [OF inv])
  have "k \<in> hn_key ` set c" using c(4) assms(2) by simp
  then obtain n tmp c' where c': "c = n # tmp" "chain_ok c' ?i"
      "chain_view c' = (chain_view c)(k := None)"
      "if hn_key n = k then c' = tmp else unlink_next c k = Some c'"
    by (rule delete_chain [OF c(2)])
  obtain h' where h': "chain_write h ?i c' = Some h'" using chain_write_ok [OF c(1)] by blast
  have k: "k \<in> dom (hash_view h)" using assms(2) by blast
  then have "card (dom (hash_view h)) \<noteq> 0" using inv by (auto simp: hash_inv_def)
  then have n: "hcount h - 1 = int (card (dom ((hash_view h)(k := None))))"
    using inv k by (simp add: hash_inv_def of_nat_diff)
  then have "0 \<le> hcount h" by simp
  with hash_inv_write [OF inv c(1) c'(3) h' c'(2) n] show ?thesis
    using c(1) c' h' chain_write_frame [OF h']
    by (auto simp: kvs_hash_delete_def delete_kv_hashtable_def split: if_splits)
qed

lemma hash_delete_absent:
  assumes inv: "hash_inv h" and "hash_view h k = None"
  shows "kvs_hash_delete h (Str k) = Some (-1, h)"
proof -
  obtain c where c: "chain_read h (hash_idx k MAX_TABLE_SIZE) = Some c"
      "chain_ok c (hash_idx k MAX_TABLE_SIZE)" "hash_view h k = chain_view c k"
      "hash_view h k = None \<longleftrightarrow> k \<notin> hn_key ` set c"
    by (rule hash_inv_chain [OF inv])
  have "k \<notin> hn_key ` set c" using c(4) assms(2) by simp
  then show ?thesis using c(1) unlink_next_miss [of k]
    by (cases c) (auto simp: kvs_hash_delete_def delete_kv_hashtable_def)
qed

interpretation kvs_hash: kv_engine hash_inv hash_view hash_space overwrite kvs_hash_get kvs_hash_set
  kvs_hash_delete kvs_hash_modify
proof unfold_locales
  fix h k v
  assume inv: "hash_inv h" and "0 < hash_space h"
  then have "hcount h < INT_MAX" by (simp add: hash_space_def)
  then show "\<exists>h'. kvs_hash_set h (Str k) (Str v) [] = Some (0, h', []) \<and> hash_inv h' \<and>
      hash_space h \<le> Suc (hash_space h') \<and> hash_view h' = (hash_view h)(k \<mapsto> overwrite (hash_view h k) v)"
    using hash_set_absent [OF inv, of k v] hash_update_present [OF inv, of k _ v]
    by (cases "hash_view h k") (fastforce simp: hash_space_def overwrite_def)+
next
  fix h k v
  assume "hash_inv h" and "hash_view h k = Some v"
  then show "\<exists>h'. kvs_hash_delete h (Str k) = Some (0, h') \<and> hash_inv h' \<and>
      hash_space h \<le> hash_space h' \<and> hash_view h' = (hash_view h)(k := None)"
    using hash_delete_present [of h k v] by (fastforce simp: hash_space_def)
next
  fix h k v w
  assume "hash_inv h" and "hash_view h k = Some v"
  then show "\<exists>h'. kvs_hash_modify h (Str k) (Str w) [] = Some (0, h', []) \<and> hash_inv h' \<and>
      hash_space h \<le> hash_space h' \<and> hash_view h' = (hash_view h)(k \<mapsto> w)"
    using hash_update_present [of h k v w] by (fastforce simp: hash_space_def)
qed (use hash_get_view hash_delete_absent hash_modify_absent in auto)

section \<open>Destruction\<close>

lemma dest_chain_eq: "dest_chain c = ([], c)"
  by (induction c) auto

lemma dest_loop_ok:
  assumes "\<And>j. i \<le> j \<Longrightarrow> j < i + n \<Longrightarrow> chain_read h j \<noteq> None"
  shows "\<exists>h'. dest_loop h i n = Some (h', concat (map (\<lambda>j. the (chain_read h j)) [i..<i + n])) \<and>
           max_slots h' = max_slots h \<and> hcount h' = hcount h"
  using assms
proof (induction n arbitrary: h i)
  case (Suc n)
  obtain c where c: "chain_read h i = Some c" using Suc.prems [of i] by auto
  obtain h1 where h1: "chain_write h i [] = Some h1" using chain_write_ok [OF c] by blast
  have M: "map (\<lambda>j. the (chain_read h1 j)) [Suc i..<Suc i + n] =
      map (\<lambda>j. the (chain_read h j)) [Suc i..<Suc i + n]" by (auto simp: cmem [OF h1])
  have "\<exists>h'. dest_loop h1 (Suc i) n =
      Some (h', concat (map (\<lambda>j. the (chain_read h1 j)) [Suc i..<Suc i + n])) \<and>
      max_slots h' = max_slots h1 \<and> hcount h' = hcount h1"
    by (rule Suc.IH) (use Suc.prems in \<open>auto simp: cmem [OF h1]\<close>)
  then obtain h' where "dest_loop h1 (Suc i) n =
      Some (h', concat (map (\<lambda>j. the (chain_read h j)) [Suc i..<Suc i + n]))"
      "max_slots h' = max_slots h1" "hcount h' = hcount h1" unfolding M by blast
  moreover have "[i..<i + Suc n] = i # [Suc i..<Suc i + n]" by (simp add: upt_conv_Cons)
  ultimately show ?case using c h1 chain_write_frame [OF h1]
    by (simp add: dest_chain_eq del: upt_Suc)
qed simp

text \<open>All nodes of a table, chain by chain: its bindings.\<close>

definition all_nodes :: "hashtable_s \<Rightarrow> hashnode_s list" where
  "all_nodes h = concat (map (\<lambda>j. the (chain_read h j)) [0..<0 + MAX_TABLE_SIZE])"

lemma chain_view_member:
  assumes "chain_ok c i"
  shows "(\<exists>n \<in> set c. hn_key n = k \<and> hn_value n = p) \<longleftrightarrow> (\<exists>v. p = Str v \<and> chain_view c k = Some v)"
  using assms
proof (induction c)
  case (Cons m c)
  have "hn_key n \<noteq> hn_key m" if "n \<in> set c" for n
    using Cons.prems that unfolding chain_ok_def by (metis distinct.simps(2) image_eqI list.map(2) set_map)
  moreover have "chain_ok c i" "\<exists>v. hn_value m = Str v" using Cons.prems by (auto simp: chain_ok_def)
  ultimately show ?case using Cons.IH by (cases "hn_key m = k") auto
qed simp

lemma all_nodes_chain:
  assumes "hash_inv h"
  shows "n \<in> set (all_nodes h) \<longleftrightarrow>
     (\<exists>c. chain_read h (hash_idx (hn_key n) MAX_TABLE_SIZE) = Some c \<and> n \<in> set c)"
proof -
  have ex: "\<exists>c. chain_read h i = Some c \<and> chain_ok c i" if "i < MAX_TABLE_SIZE" for i
    using assms that by (simp add: hash_inv_def)
  have "n \<in> set (all_nodes h) \<longleftrightarrow> (\<exists>i < MAX_TABLE_SIZE. n \<in> set (the (chain_read h i)))"
    by (auto simp: all_nodes_def)
  then show ?thesis using ex hash_idx_slot unfolding chain_ok_def by (metis option.sel)
qed

lemma all_nodes_view:
  assumes inv: "hash_inv h"
  shows "(\<lambda>n. (hn_key n, hn_value n)) ` set (all_nodes h) =
     {(k, p). \<exists>v. p = Str v \<and> hash_view h k = Some v}"
proof (intro set_eqI iffI; clarify)
  fix n
  assume n: "n \<in> set (all_nodes h)"
  obtain c where c: "chain_read h (hash_idx (hn_key n) MAX_TABLE_SIZE) = Some c"
      "chain_ok c (hash_idx (hn_key n) MAX_TABLE_SIZE)" "hash_view h (hn_key n) = chain_view c (hn_key n)"
    by (rule hash_inv_chain [OF inv])
  then show "\<exists>v. hn_value n = Str v \<and> hash_view h (hn_key n) = Some v"
    using n chain_view_member [OF c(2), of "hn_key n" "hn_value n"] by (auto simp: all_nodes_chain [OF inv])
next
  fix k v
  assume v: "hash_view h k = Some v"
  obtain c where c: "chain_read h (hash_idx k MAX_TABLE_SIZE) = Some c"
      "chain_ok c (hash_idx k MAX_TABLE_SIZE)" "hash_view h k = chain_view c k"
    by (rule hash_inv_chain [OF inv])
  then obtain n where n: "n \<in> set c" "hn_key n = k" "hn_value n = Str v"
    using v chain_view_member [OF c(2), of k "Str v"] by auto
  then have "n \<in> set (all_nodes h)" using c(1) by (simp add: all_nodes_chain [OF inv])
  with n show "(k, Str v) \<in> (\<lambda>n. (hn_key n, hn_value n)) ` set (all_nodes h)" by force
qed

section \<open>The engine from its creation\<close>

definition empty_table :: hashtable_s where
  "empty_table = \<lparr>nodes = Some (\<lambda>i. if i < MAX_TABLE_SIZE then Some [] else None),
     max_slots = MAX_TABLE_SIZE, hcount = 0\<rparr>"

lemma hash_create: "kvstore_hash_create h [] = (0, empty_table, [])"
  by (simp add: kvstore_hash_create_def init_hashtable_def empty_table_def)

lemma empty_table_view: "hash_view empty_table = Map.empty"
  by (simp add: empty_table_def hash_view_def chain_read_def fun_eq_iff)

lemma empty_table_inv: "hash_inv empty_table"
proof -
  have "chain_read empty_table i = Some []" if "i < MAX_TABLE_SIZE" for i
    using that by (simp add: empty_table_def chain_read_def)
  then show ?thesis
    unfolding hash_inv_def empty_table_view by (simp add: empty_table_def chain_ok_def)
qed

section \<open>Properties\<close>

text \<open>
  C4. Any sequence of SET, GET, DEL and MOD calls (at most \<open>INT_MAX\<close> of them) on a freshly
  created hash engine returns, without undefined behaviour, exactly the replies of a map on
  which SET stores the new value, DEL removes and MOD replaces the value of a present key; the
  count is the number of keys and a final GET of any key reads the map.
\<close>

theorem hash_refines_map:
  assumes "length ops \<le> nat INT_MAX"
  shows "\<exists>h. engine_run kvs_hash_get kvs_hash_set kvs_hash_delete kvs_hash_modify
               (fst (snd (kvstore_hash_create h0 []))) ops =
             Some (fst (spec_run overwrite Map.empty ops), h) \<and>
           kvs_hash_count h = int (card (dom (snd (spec_run overwrite Map.empty ops)))) \<and>
           (\<forall>k. kvs_hash_get h (Str k) = Some (ptr_of (snd (spec_run overwrite Map.empty ops) k)))"
proof -
  have "length ops \<le> hash_space empty_table" using assms by (simp add: hash_space_def empty_table_def)
  from kvs_hash.run_refines [OF empty_table_inv this] obtain h where
    h: "engine_run kvs_hash_get kvs_hash_set kvs_hash_delete kvs_hash_modify empty_table ops =
        Some (fst (spec_run overwrite Map.empty ops), h)"
      "hash_inv h" "hash_view h = snd (spec_run overwrite Map.empty ops)"
    unfolding empty_table_view by blast
  then show ?thesis
    using kvs_hash.get_view [OF h(2)] by (simp add: hash_create kvs_hash_count_def hash_inv_def)
qed

theorem hash_refines_map_witness:
  "\<exists>h. engine_run kvs_hash_get kvs_hash_set kvs_hash_delete kvs_hash_modify
         (fst (snd (kvstore_hash_create empty_table [])))
         [OpSet ''a'' ''1'', OpMod ''a'' ''2'', OpGet ''a'', OpDel ''a'', OpDel ''a'', OpGet ''a''] =
       Some ([Accepted, Accepted, Value (Str ''2''), Accepted, Refused, Value Null], h)"
  using hash_refines_map [of "[OpSet ''a'' ''1'', OpMod ''a'' ''2'', OpGet ''a'', OpDel ''a'',
      OpDel ''a'', OpGet ''a'']" empty_table]
  by (auto simp: INT_MAX_def overwrite_def)

text \<open>
  The slot computed for a key is always inside the table, for any bytes in the key:
  \<open>_hash\<close> with a table size that is a positive \<open>int\<close> never indexes out of bounds, although
  bytes above 127 enter the 64-bit sum as negative numbers and the sum wraps around.
\<close>

theorem hash_slot_in_bounds:
  assumes "0 < sz" and "int sz \<le> INT_MAX"
  shows "hash_idx key sz < sz"
  by (rule hash_idx_bound) (use assms in \<open>auto simp: INT_MAX_def\<close>)

theorem hash_slot_in_bounds_witness:
  "int MAX_TABLE_SIZE \<le> INT_MAX \<and> hash_idx [CHR 0xFF, CHR ''a''] MAX_TABLE_SIZE < MAX_TABLE_SIZE"
  using hash_slot_in_bounds [of MAX_TABLE_SIZE "[CHR 0xFF, CHR ''a'']"]
  by (simp add: MAX_TABLE_SIZE_def INT_MAX_def)

text \<open>
  Destroying a hash table visits and unlinks every node, but frees only the node
  structures: the keys and values of exactly the stored bindings are never freed.
\<close>

theorem hash_destroy_leaks_bindings:
  assumes inv: "hash_inv h"
  shows "\<exists>h' lost. kvstore_hash_destory h = Some (h', lost) \<and> nodes h' = None \<and>
           (\<lambda>n. (hn_key n, hn_value n)) ` set lost = {(k, p). \<exists>v. p = Str v \<and> hash_view h k = Some v}"
proof -
  have ms: "max_slots h = MAX_TABLE_SIZE" using inv by (simp add: hash_inv_def)
  have "chain_read h j \<noteq> None" if "j < 0 + MAX_TABLE_SIZE" for j
    using inv that by (fastforce simp: hash_inv_def)
  then obtain h' where "dest_loop h 0 MAX_TABLE_SIZE = Some (h', all_nodes h)"
    using dest_loop_ok [of 0 MAX_TABLE_SIZE h] unfolding all_nodes_def by auto
  then show ?thesis using all_nodes_view [OF inv]
    by (auto simp: kvstore_hash_destory_def dest_hashtable_def ms)
qed

theorem hash_destroy_leaks_bindings_witness:
  "\<exists>h' lost. kvstore_hash_destory empty_table = Some (h', lost) \<and> lost = []"
  using hash_destroy_leaks_bindings [OF empty_table_inv] by (auto simp: empty_table_view)

end
