(* ===== verification/Rb_Shape.thy ===== *)
theory Rb_Shape
  imports Main
begin

text \<open>
  What the two red-black trees of the sources share, the one of \<open>kvstore_rbtree.c\<close> and the
  macros of \<open>nty_tree.h\<close>: coloured trees, positions in them as a subtree with the list of frames
  up to the root, and the red-black invariants of both.
\<close>

section \<open>Trees, frames and their colours\<close>

text \<open>
  The two values that a colour takes: \<open>RED\<close> 1 and \<open>BLACK\<close> 2 in \<open>kvstore_rbtree.c\<close>, \<open>RB_RED\<close> 1
  and \<open>RB_BLACK\<close> 0 in \<open>nty_tree.h\<close>.
\<close>

datatype color = RED | BLACK

datatype 'a rtree = Lf | Nd color "'a rtree" 'a "'a rtree"

text \<open>A frame is a node seen from one of its children: \<open>LF\<close> from the left, \<open>RF\<close> from the right.\<close>

datatype 'a rframe = LF color 'a "'a rtree" | RF color "'a rtree" 'a

fun plug1 :: "'a rframe \<Rightarrow> 'a rtree \<Rightarrow> 'a rtree" where
  "plug1 (LF c a r) t = Nd c t a r"
| "plug1 (RF c l a) t = Nd c l a t"

fun plug :: "'a rframe list \<Rightarrow> 'a rtree \<Rightarrow> 'a rtree" where
  "plug [] t = t"
| "plug (f # cs) t = plug cs (plug1 f t)"

fun infos :: "'a rtree \<Rightarrow> 'a list" where
  "infos Lf = []"
| "infos (Nd c l a r) = infos l @ a # infos r"

fun lpart :: "'a rframe list \<Rightarrow> 'a list" where
  "lpart [] = []"
| "lpart (LF c a r # cs) = lpart cs"
| "lpart (RF c l a # cs) = lpart cs @ infos l @ [a]"

fun rpart :: "'a rframe list \<Rightarrow> 'a list" where
  "rpart [] = []"
| "rpart (LF c a r # cs) = a # infos r @ rpart cs"
| "rpart (RF c l a # cs) = rpart cs"

lemma infos_plug: "infos (plug cs t) = lpart cs @ infos t @ rpart cs"
proof (induction cs arbitrary: t)
  case (Cons f cs)
  then show ?case by (cases f) simp_all
qed simp

fun col :: "'a rtree \<Rightarrow> color" where
  "col Lf = BLACK"
| "col (Nd c l a r) = c"

fun fcol :: "'a rframe list \<Rightarrow> color" where
  "fcol [] = BLACK"
| "fcol (LF c a r # cs) = c"
| "fcol (RF c l a # cs) = c"

lemma plug_append [simp]: "plug (cs @ cs') t = plug cs' (plug cs t)"
  by (induction cs arbitrary: t) auto

lemma part_append [simp]: "lpart (cs @ cs') = lpart cs' @ lpart cs" "rpart (cs @ cs') = rpart cs @ rpart cs'"
  by (induction cs rule: lpart.induct) auto

section \<open>The red-black invariants\<close>

fun bh :: "'a rtree \<Rightarrow> nat" where
  "bh Lf = 0"
| "bh (Nd c l a r) = bh l + (if c = BLACK then 1 else 0)"

fun invh :: "'a rtree \<Rightarrow> bool" where
  "invh Lf = True"
| "invh (Nd c l a r) \<longleftrightarrow> bh l = bh r \<and> invh l \<and> invh r"

fun invc :: "'a rtree \<Rightarrow> bool" where
  "invc Lf = True"
| "invc (Nd c l a r) \<longleftrightarrow> (c = RED \<longrightarrow> col l = BLACK \<and> col r = BLACK) \<and> invc l \<and> invc r"

text \<open>
  The same for the frames around a subtree that contributes black height \<open>b\<close>. A red frame
  has a black frame above it; in particular the topmost frame, the root, is black.
\<close>

fun cinv :: "nat \<Rightarrow> 'a rframe list \<Rightarrow> bool" where
  "cinv b [] = True"
| "cinv b (LF c a r # cs) \<longleftrightarrow> invc r \<and> invh r \<and> bh r = b \<and>
     (c = RED \<longrightarrow> col r = BLACK \<and> cs \<noteq> [] \<and> fcol cs = BLACK) \<and>
     cinv (b + (if c = BLACK then 1 else 0)) cs"
| "cinv b (RF c l a # cs) \<longleftrightarrow> invc l \<and> invh l \<and> bh l = b \<and>
     (c = RED \<longrightarrow> col l = BLACK \<and> cs \<noteq> [] \<and> fcol cs = BLACK) \<and>
     cinv (b + (if c = BLACK then 1 else 0)) cs"

definition rb_ok :: "'a rtree \<Rightarrow> bool" where
  "rb_ok t \<longleftrightarrow> invc t \<and> invh t \<and> col t = BLACK"

lemma color_neq [simp]: "c \<noteq> BLACK \<longleftrightarrow> c = RED" "c \<noteq> RED \<longleftrightarrow> c = BLACK"
  by (cases c; simp)+

lemma plug_inv:
  assumes "invc t" and "invh t" and "cinv (bh t) cs" and "col t = RED \<Longrightarrow> fcol cs = BLACK"
  shows "invc (plug cs t) \<and> invh (plug cs t) \<and> (cs \<noteq> [] \<or> col t = BLACK \<longrightarrow> col (plug cs t) = BLACK)"
  using assms
proof (induction cs arbitrary: t)
  case (Cons f cs)
  have "invc (plug1 f t)" "invh (plug1 f t)" "cinv (bh (plug1 f t)) cs"
      "col (plug1 f t) = RED \<Longrightarrow> fcol cs = BLACK" "cs \<noteq> [] \<or> col (plug1 f t) = BLACK"
    using Cons.prems by (cases f; cases "col t"; simp split: if_splits)+
  with Cons.IH [of "plug1 f t"] show ?case by simp
qed auto

text \<open>Conversely, a valid tree gives a valid context at every position.\<close>

lemma plug_inv_rev:
  assumes "invc (plug cs t)" and "invh (plug cs t)" and "col (plug cs t) = BLACK"
  shows "invc t \<and> invh t \<and> cinv (bh t) cs \<and> (col t = RED \<longrightarrow> cs \<noteq> [] \<and> fcol cs = BLACK)"
  using assms
proof (induction cs arbitrary: t)
  case (Cons f cs)
  have "invc (plug1 f t) \<and> invh (plug1 f t) \<and> cinv (bh (plug1 f t)) cs \<and>
      (col (plug1 f t) = RED \<longrightarrow> cs \<noteq> [] \<and> fcol cs = BLACK)"
    by (rule Cons.IH) (use Cons.prems in simp_all)
  then show ?case by (cases f) (auto split: if_splits)
qed auto

lemma red_frames:
  assumes "cinv b cs" and "fcol cs \<noteq> BLACK"
  shows "\<exists>f g cs'. cs = f # g # cs' \<and> fcol (f # cs') = RED \<and> fcol (g # cs') = BLACK"
proof (cases cs)
  case (Cons f cs1)
  with assms obtain g cs' where "cs1 = g # cs'" by (cases f; cases cs1) auto
  with Cons assms show ?thesis by (cases f; cases g) auto
qed (use assms in simp)

text \<open>The children of a node are valid; its own colour may clash with theirs.\<close>

fun invc2 :: "'a rtree \<Rightarrow> bool" where
  "invc2 Lf = True"
| "invc2 (Nd c l a r) \<longleftrightarrow> invc l \<and> invc r"

lemma invc2_black: "invc2 t \<Longrightarrow> col t = BLACK \<Longrightarrow> invc t"
  by (cases t) auto

end
