(* ===== verification/Rb_Heap.thy ===== *)
theory Rb_Heap
  imports KvSpec Rb_Shape
begin

text \<open>
  The red-black tree of \<open>kvstore_rbtree.c\<close>, on an explicit heap: nodes with colour, child and
  parent pointers, and a sentinel \<open>nil\<close> that stands for every leaf. This theory holds the
  data and the operations; the proofs are in \<open>Rb_Zip\<close> (the shape of the heap),
  \<open>Rb_Insert\<close>, \<open>Rb_Delete\<close> and \<open>Kvs_Rbtree\<close>.
\<close>

section \<open>Data\<close>

text \<open>
  A node as \<open>malloc\<close> and the operations leave it: a field that has not been written is
  indeterminate (\<open>None\<close>), and reading it is undefined. A node owns its key and its value.
\<close>

record rbtree_node =
  nd_color :: "color option"
  nd_right :: "nat option"
  nd_left :: "nat option"
  nd_parent :: "nat option"
  nd_key :: string
  nd_value :: cptr

text \<open>
  The tree and the heap its nodes live in. Addresses below \<open>rt_brk\<close> have been handed out;
  0 is NULL. Nodes are never given back: the test \<open>if (!cur)\<close> before the calls of
  \<open>kvstore_free\<close> is never true.
\<close>

record rbtree =
  rt_root :: nat
  rt_nil :: nat
  rt_count :: int
  rt_heap :: "nat \<rightharpoonup> rbtree_node"
  rt_brk :: nat

subsection \<open>Reading and writing fields\<close>

definition get_color :: "rbtree \<Rightarrow> nat \<Rightarrow> color option" where
  "get_color T p = do { n \<leftarrow> rt_heap T p; nd_color n }"

definition get_right :: "rbtree \<Rightarrow> nat \<Rightarrow> nat option" where
  "get_right T p = do { n \<leftarrow> rt_heap T p; nd_right n }"

definition get_left :: "rbtree \<Rightarrow> nat \<Rightarrow> nat option" where
  "get_left T p = do { n \<leftarrow> rt_heap T p; nd_left n }"

definition get_parent :: "rbtree \<Rightarrow> nat \<Rightarrow> nat option" where
  "get_parent T p = do { n \<leftarrow> rt_heap T p; nd_parent n }"

definition get_key :: "rbtree \<Rightarrow> nat \<Rightarrow> string option" where
  "get_key T p = do { n \<leftarrow> rt_heap T p; Some (nd_key n) }"

definition get_value :: "rbtree \<Rightarrow> nat \<Rightarrow> cptr option" where
  "get_value T p = do { n \<leftarrow> rt_heap T p; Some (nd_value n) }"

definition upd_node :: "rbtree \<Rightarrow> nat \<Rightarrow> (rbtree_node \<Rightarrow> rbtree_node) \<Rightarrow> rbtree option" where
  "upd_node T p f = do { n \<leftarrow> rt_heap T p; Some (T\<lparr>rt_heap := (rt_heap T)(p \<mapsto> f n)\<rparr>) }"

abbreviation set_color :: "rbtree \<Rightarrow> nat \<Rightarrow> color \<Rightarrow> rbtree option" where
  "set_color T p c \<equiv> upd_node T p (nd_color_update (\<lambda>_. Some c))"

abbreviation set_right :: "rbtree \<Rightarrow> nat \<Rightarrow> nat \<Rightarrow> rbtree option" where
  "set_right T p q \<equiv> upd_node T p (nd_right_update (\<lambda>_. Some q))"

abbreviation set_left :: "rbtree \<Rightarrow> nat \<Rightarrow> nat \<Rightarrow> rbtree option" where
  "set_left T p q \<equiv> upd_node T p (nd_left_update (\<lambda>_. Some q))"

abbreviation set_parent :: "rbtree \<Rightarrow> nat \<Rightarrow> nat \<Rightarrow> rbtree option" where
  "set_parent T p q \<equiv> upd_node T p (nd_parent_update (\<lambda>_. Some q))"

abbreviation set_key :: "rbtree \<Rightarrow> nat \<Rightarrow> string \<Rightarrow> rbtree option" where
  "set_key T p k \<equiv> upd_node T p (nd_key_update (\<lambda>_. k))"

abbreviation set_value :: "rbtree \<Rightarrow> nat \<Rightarrow> cptr \<Rightarrow> rbtree option" where
  "set_value T p v \<equiv> upd_node T p (nd_value_update (\<lambda>_. v))"

section \<open>Walking the tree\<close>

partial_function (option) rbtree_mini :: "rbtree \<Rightarrow> nat \<Rightarrow> nat option" where
  "rbtree_mini T x =
     do { l \<leftarrow> get_left T x; if l \<noteq> rt_nil T then rbtree_mini T l else Some x }"

partial_function (option) rbtree_maxi :: "rbtree \<Rightarrow> nat \<Rightarrow> nat option" where
  "rbtree_maxi T x =
     do { r \<leftarrow> get_right T x; if r \<noteq> rt_nil T then rbtree_maxi T r else Some x }"

partial_function (option) successor_up :: "rbtree \<Rightarrow> nat \<Rightarrow> nat \<Rightarrow> nat option" where
  "successor_up T x y =
     (if y \<noteq> rt_nil T
      then do {
        r \<leftarrow> get_right T y;
        if x = r then do { p \<leftarrow> get_parent T y; successor_up T y p } else Some y }
      else Some y)"

definition rbtree_successor :: "rbtree \<Rightarrow> nat \<Rightarrow> nat option" where
  "rbtree_successor T x =
     do { y \<leftarrow> get_parent T x;
          r \<leftarrow> get_right T x;
          if r \<noteq> rt_nil T then rbtree_mini T r else successor_up T x y }"

partial_function (option) search_loop :: "rbtree \<Rightarrow> string \<Rightarrow> nat \<Rightarrow> nat option" where
  "search_loop T key node =
     (if node \<noteq> rt_nil T
      then do {
        k \<leftarrow> get_key T node;
        if strcmp key k < 0 then do { l \<leftarrow> get_left T node; search_loop T key l }
        else if strcmp key k > 0 then do { r \<leftarrow> get_right T node; search_loop T key r }
        else Some node }
      else Some (rt_nil T))"

text \<open>The key is dereferenced only when it is compared.\<close>

definition rbtree_search :: "rbtree \<Rightarrow> cptr \<Rightarrow> nat option" where
  "rbtree_search T key =
     (if rt_root T \<noteq> rt_nil T then do { k \<leftarrow> deref key; search_loop T k (rt_root T) }
      else Some (rt_nil T))"

text \<open>\<open>rbtree_traversal\<close> prints the key and colour of every node; the model returns the lines.\<close>

partial_function (option) rbtree_traversal :: "rbtree \<Rightarrow> nat \<Rightarrow> (string \<times> color) list option" where
  "rbtree_traversal T node =
     (if node \<noteq> rt_nil T
      then do {
        l \<leftarrow> get_left T node;
        out1 \<leftarrow> rbtree_traversal T l;
        k \<leftarrow> get_key T node;
        c \<leftarrow> get_color T node;
        r \<leftarrow> get_right T node;
        out2 \<leftarrow> rbtree_traversal T r;
        Some (out1 @ (k, c) # out2) }
      else Some [])"

section \<open>Rotations\<close>

definition rbtree_left_rotate :: "rbtree \<Rightarrow> nat \<Rightarrow> rbtree option" where
  "rbtree_left_rotate T x =
     do { y \<leftarrow> get_right T x;
          yl \<leftarrow> get_left T y;
          T \<leftarrow> set_right T x yl;
          yl \<leftarrow> get_left T y;
          T \<leftarrow> (if yl \<noteq> rt_nil T then set_parent T yl x else Some T);
          xp \<leftarrow> get_parent T x;
          T \<leftarrow> set_parent T y xp;
          xp \<leftarrow> get_parent T x;
          T \<leftarrow> (if xp = rt_nil T then Some (T\<lparr>rt_root := y\<rparr>)
               else do { l \<leftarrow> get_left T xp; if x = l then set_left T xp y else set_right T xp y });
          T \<leftarrow> set_left T y x;
          set_parent T x y }"

definition rbtree_right_rotate :: "rbtree \<Rightarrow> nat \<Rightarrow> rbtree option" where
  "rbtree_right_rotate T y =
     do { x \<leftarrow> get_left T y;
          xr \<leftarrow> get_right T x;
          T \<leftarrow> set_left T y xr;
          xr \<leftarrow> get_right T x;
          T \<leftarrow> (if xr \<noteq> rt_nil T then set_parent T xr y else Some T);
          yp \<leftarrow> get_parent T y;
          T \<leftarrow> set_parent T x yp;
          yp \<leftarrow> get_parent T y;
          T \<leftarrow> (if yp = rt_nil T then Some (T\<lparr>rt_root := x\<rparr>)
               else do { r \<leftarrow> get_right T yp; if y = r then set_right T yp x else set_left T yp x });
          T \<leftarrow> set_right T x y;
          set_parent T y x }"

section \<open>Insertion\<close>

partial_function (option) insert_fixup_loop :: "rbtree \<Rightarrow> nat \<Rightarrow> rbtree option" where
  "insert_fixup_loop T z =
     do { zp \<leftarrow> get_parent T z;
          c \<leftarrow> get_color T zp;
          if c = RED
          then do {
            zpp \<leftarrow> get_parent T zp;
            l \<leftarrow> get_left T zpp;
            if zp = l
            then do {
              y \<leftarrow> get_right T zpp;
              yc \<leftarrow> get_color T y;
              if yc = RED
              then do {
                T \<leftarrow> set_color T zp BLACK;
                T \<leftarrow> set_color T y BLACK;
                T \<leftarrow> set_color T zpp RED;
                insert_fixup_loop T zpp }
              else do {
                r \<leftarrow> get_right T zp;
                (T, z) \<leftarrow> (if z = r then do { T \<leftarrow> rbtree_left_rotate T zp; Some (T, zp) }
                           else Some (T, z));
                zp \<leftarrow> get_parent T z;
                T \<leftarrow> set_color T zp BLACK;
                zpp \<leftarrow> get_parent T zp;
                T \<leftarrow> set_color T zpp RED;
                T \<leftarrow> rbtree_right_rotate T zpp;
                insert_fixup_loop T z }}
            else do {
              y \<leftarrow> get_left T zpp;
              yc \<leftarrow> get_color T y;
              if yc = RED
              then do {
                T \<leftarrow> set_color T zp BLACK;
                T \<leftarrow> set_color T y BLACK;
                T \<leftarrow> set_color T zpp RED;
                insert_fixup_loop T zpp }
              else do {
                l \<leftarrow> get_left T zp;
                (T, z) \<leftarrow> (if z = l then do { T \<leftarrow> rbtree_right_rotate T zp; Some (T, zp) }
                           else Some (T, z));
                zp \<leftarrow> get_parent T z;
                T \<leftarrow> set_color T zp BLACK;
                zpp \<leftarrow> get_parent T zp;
                T \<leftarrow> set_color T zpp RED;
                T \<leftarrow> rbtree_left_rotate T zpp;
                insert_fixup_loop T z }}}
          else Some T }"

definition rbtree_insert_fixup :: "rbtree \<Rightarrow> nat \<Rightarrow> rbtree option" where
  "rbtree_insert_fixup T z =
     do { T \<leftarrow> insert_fixup_loop T z; set_color T (rt_root T) BLACK }"

text \<open>The descent of \<open>rbtree_insert\<close>: \<open>None\<close> inside is the return on an equal key.\<close>

partial_function (option) insert_walk :: "rbtree \<Rightarrow> nat \<Rightarrow> nat \<Rightarrow> nat \<Rightarrow> nat option option" where
  "insert_walk T z x y =
     (if x \<noteq> rt_nil T
      then do {
        zk \<leftarrow> get_key T z;
        xk \<leftarrow> get_key T x;
        if strcmp zk xk < 0 then do { l \<leftarrow> get_left T x; insert_walk T z l x }
        else if strcmp zk xk > 0 then do { r \<leftarrow> get_right T x; insert_walk T z r x }
        else Some None }
      else Some (Some y))"

definition rbtree_insert :: "rbtree \<Rightarrow> nat \<Rightarrow> rbtree option" where
  "rbtree_insert T z =
     do { w \<leftarrow> insert_walk T z (rt_root T) (rt_nil T);
          case w of
            None \<Rightarrow> Some T
          | Some y \<Rightarrow> do {
              T \<leftarrow> set_parent T z y;
              T \<leftarrow> (if y = rt_nil T then Some (T\<lparr>rt_root := z\<rparr>)
                   else do {
                     zk \<leftarrow> get_key T z;
                     yk \<leftarrow> get_key T y;
                     if strcmp zk yk < 0 then set_left T y z else set_right T y z });
              T \<leftarrow> set_left T z (rt_nil T);
              T \<leftarrow> set_right T z (rt_nil T);
              T \<leftarrow> set_color T z RED;
              rbtree_insert_fixup T z }}"

section \<open>Deletion\<close>

partial_function (option) delete_fixup_loop :: "rbtree \<Rightarrow> nat \<Rightarrow> (rbtree \<times> nat) option" where
  "delete_fixup_loop T x =
     (if x = rt_root T then Some (T, x)
      else do {
        c \<leftarrow> get_color T x;
        if c = RED then Some (T, x)
        else do {
          xp \<leftarrow> get_parent T x;
          l \<leftarrow> get_left T xp;
          if x = l
          then do {
            w \<leftarrow> get_right T xp;
            wc \<leftarrow> get_color T w;
            (T, w) \<leftarrow> (if wc = RED
              then do {
                T \<leftarrow> set_color T w BLACK;
                xp \<leftarrow> get_parent T x;
                T \<leftarrow> set_color T xp RED;
                xp \<leftarrow> get_parent T x;
                T \<leftarrow> rbtree_left_rotate T xp;
                xp \<leftarrow> get_parent T x;
                w \<leftarrow> get_right T xp;
                Some (T, w) }
              else Some (T, w));
            wl \<leftarrow> get_left T w;
            wlc \<leftarrow> get_color T wl;
            wr \<leftarrow> get_right T w;
            wrc \<leftarrow> get_color T wr;
            if wlc = BLACK \<and> wrc = BLACK
            then do {
              T \<leftarrow> set_color T w RED;
              xp \<leftarrow> get_parent T x;
              delete_fixup_loop T xp }
            else do {
              (T, w) \<leftarrow> (if wrc = BLACK
                then do {
                  T \<leftarrow> set_color T wl BLACK;
                  T \<leftarrow> set_color T w RED;
                  T \<leftarrow> rbtree_right_rotate T w;
                  xp \<leftarrow> get_parent T x;
                  w \<leftarrow> get_right T xp;
                  Some (T, w) }
                else Some (T, w));
              xp \<leftarrow> get_parent T x;
              xpc \<leftarrow> get_color T xp;
              T \<leftarrow> set_color T w xpc;
              T \<leftarrow> set_color T xp BLACK;
              wr \<leftarrow> get_right T w;
              T \<leftarrow> set_color T wr BLACK;
              T \<leftarrow> rbtree_left_rotate T xp;
              delete_fixup_loop T (rt_root T) }}
          else do {
            w \<leftarrow> get_left T xp;
            wc \<leftarrow> get_color T w;
            (T, w) \<leftarrow> (if wc = RED
              then do {
                T \<leftarrow> set_color T w BLACK;
                xp \<leftarrow> get_parent T x;
                T \<leftarrow> set_color T xp RED;
                xp \<leftarrow> get_parent T x;
                T \<leftarrow> rbtree_right_rotate T xp;
                xp \<leftarrow> get_parent T x;
                w \<leftarrow> get_left T xp;
                Some (T, w) }
              else Some (T, w));
            wl \<leftarrow> get_left T w;
            wlc \<leftarrow> get_color T wl;
            wr \<leftarrow> get_right T w;
            wrc \<leftarrow> get_color T wr;
            if wlc = BLACK \<and> wrc = BLACK
            then do {
              T \<leftarrow> set_color T w RED;
              xp \<leftarrow> get_parent T x;
              delete_fixup_loop T xp }
            else do {
              (T, w) \<leftarrow> (if wlc = BLACK
                then do {
                  T \<leftarrow> set_color T wr BLACK;
                  T \<leftarrow> set_color T w RED;
                  T \<leftarrow> rbtree_left_rotate T w;
                  xp \<leftarrow> get_parent T x;
                  w \<leftarrow> get_left T xp;
                  Some (T, w) }
                else Some (T, w));
              xp \<leftarrow> get_parent T x;
              xpc \<leftarrow> get_color T xp;
              T \<leftarrow> set_color T w xpc;
              T \<leftarrow> set_color T xp BLACK;
              wl \<leftarrow> get_left T w;
              T \<leftarrow> set_color T wl BLACK;
              T \<leftarrow> rbtree_right_rotate T xp;
              delete_fixup_loop T (rt_root T) }}}})"

definition rbtree_delete_fixup :: "rbtree \<Rightarrow> nat \<Rightarrow> rbtree option" where
  "rbtree_delete_fixup T x =
     do { (T, x) \<leftarrow> delete_fixup_loop T x; set_color T x BLACK }"

definition rbtree_delete :: "rbtree \<Rightarrow> nat \<Rightarrow> (nat \<times> rbtree) option" where
  "rbtree_delete T z =
     do { zl \<leftarrow> get_left T z;
          zr \<leftarrow> get_right T z;
          y \<leftarrow> (if zl = rt_nil T \<or> zr = rt_nil T then Some z else rbtree_successor T z);
          yl \<leftarrow> get_left T y;
          yr \<leftarrow> get_right T y;
          let x = (if yl \<noteq> rt_nil T then yl else if yr \<noteq> rt_nil T then yr else rt_nil T);
          yp \<leftarrow> get_parent T y;
          T \<leftarrow> set_parent T x yp;
          yp \<leftarrow> get_parent T y;
          T \<leftarrow> (if yp = rt_nil T then Some (T\<lparr>rt_root := x\<rparr>)
               else do { l \<leftarrow> get_left T yp; if y = l then set_left T yp x else set_right T yp x });
          T \<leftarrow> (if y \<noteq> z
               then do {
                 zk \<leftarrow> get_key T z; yk \<leftarrow> get_key T y;
                 T \<leftarrow> set_key T z yk; T \<leftarrow> set_key T y zk;
                 zv \<leftarrow> get_value T z; yv \<leftarrow> get_value T y;
                 T \<leftarrow> set_value T z yv; set_value T y zv }
               else Some T);
          yc \<leftarrow> get_color T y;
          T \<leftarrow> (if yc = BLACK then rbtree_delete_fixup T x else Some T);
          Some (y, T) }"

section \<open>The engine\<close>

text \<open>A node fresh from \<open>malloc\<close> whose key and value have been filled in.\<close>

definition fresh_node :: "string \<Rightarrow> cptr \<Rightarrow> rbtree_node" where
  "fresh_node k v = \<lparr>nd_color = None, nd_right = None, nd_left = None, nd_parent = None,
     nd_key = k, nd_value = v\<rparr>"

definition alloc_node :: "rbtree \<Rightarrow> rbtree_node \<Rightarrow> nat \<times> rbtree" where
  "alloc_node T n =
     (rt_brk T, T\<lparr>rt_heap := (rt_heap T)(rt_brk T \<mapsto> n), rt_brk := Suc (rt_brk T)\<rparr>)"

text \<open>
  \<open>kvstore_rbtree_create\<close> does not test its allocations: a failed one is dereferenced.
\<close>

definition kvstore_rbtree_create :: "rbtree \<Rightarrow> mallocs \<Rightarrow> (int \<times> rbtree \<times> mallocs) option" where
  "kvstore_rbtree_create T ms =
     (let T = T\<lparr>rt_root := 0, rt_nil := 0, rt_count := 0\<rparr>;
          (ok, ms) = kvstore_malloc ms
      in if \<not> ok then None
         else let (kok, ms) = kvstore_malloc ms in
         if \<not> kok then None
         else do {
           let (p, T) = alloc_node T (fresh_node [] Wild);
           let T = T\<lparr>rt_nil := p\<rparr>;
           T \<leftarrow> set_color T (rt_nil T) BLACK;
           Some (0, T\<lparr>rt_root := rt_nil T\<rparr>, ms) })"

definition kvs_rbtree_set :: "rbtree \<Rightarrow> cptr \<Rightarrow> cptr \<Rightarrow> mallocs \<Rightarrow> (int \<times> rbtree \<times> mallocs) option" where
  "kvs_rbtree_set T key value ms =
     (let (ok, ms) = kvstore_malloc ms in
      if \<not> ok then Some (-1, T, ms)
      else do {
        k \<leftarrow> deref key;
        let (kok, ms) = kvstore_malloc ms;
        if \<not> kok then Some (-1, T, ms)
        else do {
          v \<leftarrow> deref value;
          let (vok, ms) = kvstore_malloc ms;
          if \<not> vok then Some (-1, T, ms)
          else do {
            let (node, T) = alloc_node T (fresh_node k (Str v));
            T \<leftarrow> rbtree_insert T node;
            n \<leftarrow> c_inc (rt_count T);
            Some (0, T\<lparr>rt_count := n\<rparr>, ms) }}})"

definition kvs_rbtree_get :: "rbtree \<Rightarrow> cptr \<Rightarrow> cptr option" where
  "kvs_rbtree_get T key =
     do { node \<leftarrow> rbtree_search T key;
          if node = rt_nil T then Some Null else get_value T node }"

definition kvs_rbtree_delete :: "rbtree \<Rightarrow> cptr \<Rightarrow> (int \<times> rbtree) option" where
  "kvs_rbtree_delete T key =
     do { node \<leftarrow> rbtree_search T key;
          if node = rt_nil T then Some (-1, T)
          else do {
            (cur, T) \<leftarrow> rbtree_delete T node;
            n \<leftarrow> c_dec (rt_count T);
            Some (0, T\<lparr>rt_count := n\<rparr>) }}"

definition kvs_rbtree_modify :: "rbtree \<Rightarrow> cptr \<Rightarrow> cptr \<Rightarrow> mallocs \<Rightarrow> (int \<times> rbtree \<times> mallocs) option" where
  "kvs_rbtree_modify T key value ms =
     do { node \<leftarrow> rbtree_search T key;
          if node = rt_nil T then Some (-1, T, ms)
          else do {
            v \<leftarrow> deref value;
            let (ok, ms) = kvstore_malloc ms;
            if \<not> ok then do { T \<leftarrow> set_value T node Null; Some (-1, T, ms) }
            else do { T \<leftarrow> set_value T node (Str v); Some (0, T, ms) }}}"

definition kvs_rbtree_count :: "rbtree \<Rightarrow> int" where
  "kvs_rbtree_count T = rt_count T"

text \<open>
  \<open>kvstore_rbtree_destory\<close> deletes the smallest node until the node it got is \<open>nil\<close>. The
  value returned by \<open>rbtree_delete\<close> is a node, so it never frees one.
\<close>

partial_function (option) destory_loop :: "rbtree \<Rightarrow> nat \<Rightarrow> rbtree option" where
  "destory_loop T node =
     (if node \<noteq> rt_nil T
      then do {
        node \<leftarrow> rbtree_mini T (rt_root T);
        if node = rt_nil T then Some T
        else do { (node, T) \<leftarrow> rbtree_delete T node; destory_loop T node }}
      else Some T)"

definition kvstore_rbtree_destory :: "rbtree \<Rightarrow> rbtree option" where
  "kvstore_rbtree_destory T = destory_loop T (rt_root T)"

end
