(* ===== verification/Rb_Zip.thy ===== *)
theory Rb_Zip
  imports Rb_Heap
begin

text \<open>
  The shape of the red-black heap. A tree of the heap is described by a functional tree
  whose nodes carry their address, key and value; a position inside it by a zipper: the
  subtree below the position and the list of frames up to the root. \<open>tree_at T cs t\<close> says that
  the heap of \<open>T\<close> is exactly the tree \<open>plug cs t\<close>, parent pointers, sentinel and root pointer
  included. The loops of the program move the position; the rotations change the subtree.
\<close>

section \<open>Nodes of the tree\<close>

text \<open>What a node keeps when it is moved and recoloured: address, key and value.\<close>

type_synonym info = "nat \<times> string \<times> cptr"

abbreviation adr :: "info \<Rightarrow> nat" where "adr a \<equiv> fst a"
abbreviation key_of :: "info \<Rightarrow> string" where "key_of a \<equiv> fst (snd a)"
abbreviation val_of :: "info \<Rightarrow> cptr" where "val_of a \<equiv> snd (snd a)"

type_synonym ptree = "info rtree"
type_synonym frame = "info rframe"

section \<open>The heap of a tree\<close>

definition node :: "color \<Rightarrow> info \<Rightarrow> nat \<Rightarrow> nat \<Rightarrow> nat \<Rightarrow> rbtree_node" where
  "node c a l r q = \<lparr>nd_color = Some c, nd_right = Some r, nd_left = Some l, nd_parent = Some q,
     nd_key = key_of a, nd_value = val_of a\<rparr>"

lemma node_sel [simp]:
  "nd_color (node c a l r q) = Some c" "nd_right (node c a l r q) = Some r"
  "nd_left (node c a l r q) = Some l" "nd_parent (node c a l r q) = Some q"
  "nd_key (node c a l r q) = key_of a" "nd_value (node c a l r q) = val_of a"
  by (simp_all add: node_def)

lemma node_upd [simp]:
  "nd_color_update (\<lambda>_. Some c') (node c a l r q) = node c' a l r q"
  "nd_right_update (\<lambda>_. Some r') (node c a l r q) = node c a l r' q"
  "nd_left_update (\<lambda>_. Some l') (node c a l r q) = node c a l' r q"
  "nd_parent_update (\<lambda>_. Some q') (node c a l r q) = node c a l r q'"
  by (simp_all add: node_def)

lemma node_eq_iff [simp]:
  "node c a l r q = node c' a' l' r' q' \<longleftrightarrow>
     c = c' \<and> snd a = snd a' \<and> l = l' \<and> r = r' \<and> q = q'"
  by (auto simp: node_def prod_eq_iff)

fun rp :: "nat \<Rightarrow> ptree \<Rightarrow> nat" where
  "rp n Lf = n"
| "rp n (Nd c l a r) = adr a"

fun ctop :: "nat \<Rightarrow> frame list \<Rightarrow> nat" where
  "ctop n [] = n"
| "ctop n (LF c a r # cs) = adr a"
| "ctop n (RF c l a # cs) = adr a"

text \<open>\<open>repr h n q t\<close>: the nodes of \<open>t\<close> are in \<open>h\<close>, its root with parent \<open>q\<close>; leaves are \<open>n\<close>.\<close>

fun repr :: "(nat \<rightharpoonup> rbtree_node) \<Rightarrow> nat \<Rightarrow> nat \<Rightarrow> ptree \<Rightarrow> bool" where
  "repr h n q Lf = True"
| "repr h n q (Nd c l a r) \<longleftrightarrow> h (adr a) = Some (node c a (rp n l) (rp n r) q) \<and>
     repr h n (adr a) l \<and> repr h n (adr a) r"

text \<open>\<open>crepr h n rt cs p\<close>: the frames are in \<open>h\<close> around a subtree with root \<open>p\<close>; \<open>rt\<close> is the root.\<close>

fun crepr :: "(nat \<rightharpoonup> rbtree_node) \<Rightarrow> nat \<Rightarrow> nat \<Rightarrow> frame list \<Rightarrow> nat \<Rightarrow> bool" where
  "crepr h n rt [] p \<longleftrightarrow> rt = p"
| "crepr h n rt (LF c a r # cs) p \<longleftrightarrow> h (adr a) = Some (node c a p (rp n r) (ctop n cs)) \<and>
     repr h n (adr a) r \<and> crepr h n rt cs (adr a)"
| "crepr h n rt (RF c l a # cs) p \<longleftrightarrow> h (adr a) = Some (node c a (rp n l) p (ctop n cs)) \<and>
     repr h n (adr a) l \<and> crepr h n rt cs (adr a)"

fun ptrs :: "ptree \<Rightarrow> nat set" where
  "ptrs Lf = {}"
| "ptrs (Nd c l a r) = insert (adr a) (ptrs l \<union> ptrs r)"

fun cptrs :: "frame list \<Rightarrow> nat set" where
  "cptrs [] = {}"
| "cptrs (LF c a r # cs) = insert (adr a) (ptrs r \<union> cptrs cs)"
| "cptrs (RF c l a # cs) = insert (adr a) (ptrs l \<union> cptrs cs)"

text \<open>All addresses different, and different from the sentinel.\<close>

fun sep :: "nat \<Rightarrow> ptree \<Rightarrow> bool" where
  "sep n Lf = True"
| "sep n (Nd c l a r) \<longleftrightarrow> adr a \<noteq> n \<and> adr a \<notin> ptrs l \<and> adr a \<notin> ptrs r \<and> ptrs l \<inter> ptrs r = {} \<and>
     sep n l \<and> sep n r"

fun csep :: "nat \<Rightarrow> frame list \<Rightarrow> bool" where
  "csep n [] = True"
| "csep n (LF c a r # cs) \<longleftrightarrow> adr a \<noteq> n \<and> adr a \<notin> ptrs r \<and> adr a \<notin> cptrs cs \<and>
     ptrs r \<inter> cptrs cs = {} \<and> sep n r \<and> csep n cs"
| "csep n (RF c l a # cs) \<longleftrightarrow> adr a \<noteq> n \<and> adr a \<notin> ptrs l \<and> adr a \<notin> cptrs cs \<and>
     ptrs l \<inter> cptrs cs = {} \<and> sep n l \<and> csep n cs"

definition tree_at :: "rbtree \<Rightarrow> frame list \<Rightarrow> ptree \<Rightarrow> bool" where
  "tree_at T cs t \<longleftrightarrow> repr (rt_heap T) (rt_nil T) (ctop (rt_nil T) cs) t \<and>
     crepr (rt_heap T) (rt_nil T) (rt_root T) cs (rp (rt_nil T) t) \<and>
     sep (rt_nil T) t \<and> csep (rt_nil T) cs \<and> ptrs t \<inter> cptrs cs = {} \<and>
     (\<exists>nn. rt_heap T (rt_nil T) = Some nn \<and> nd_color nn = Some BLACK)"

text \<open>Moving the position by one frame does not change what is said of the heap.\<close>

lemma tree_at_move: "tree_at T (f # cs) t \<longleftrightarrow> tree_at T cs (plug1 f t)"
  by (cases f) (auto simp: tree_at_def)

lemma tree_at_plug: "tree_at T cs t \<longleftrightarrow> tree_at T [] (plug cs t)"
  by (induction cs arbitrary: t) (simp_all add: tree_at_move)

subsection \<open>Frame rules\<close>

lemma repr_cong: "(\<And>p. p \<in> ptrs t \<Longrightarrow> h' p = h p) \<Longrightarrow> repr h' n q t = repr h n q t"
  by (induction t arbitrary: q) auto

lemma crepr_cong: "(\<And>p. p \<in> cptrs cs \<Longrightarrow> h' p = h p) \<Longrightarrow> crepr h' n rt cs q = crepr h n rt cs q"
proof (induction cs arbitrary: q)
  case (Cons f cs)
  then show ?case using repr_cong [of _ h' h] by (cases f) auto
qed simp

lemma repr_upd [simp]: "p \<notin> ptrs t \<Longrightarrow> repr (h(p \<mapsto> nd)) n q t = repr h n q t"
  by (rule repr_cong) auto

lemma crepr_upd [simp]: "p \<notin> cptrs cs \<Longrightarrow> crepr (h(p \<mapsto> nd)) n rt cs q = crepr h n rt cs q"
  by (rule crepr_cong) auto

lemma sep_nil [simp]: "sep n t \<Longrightarrow> n \<notin> ptrs t"
  by (induction t) auto

lemma csep_nil [simp]: "csep n cs \<Longrightarrow> n \<notin> cptrs cs"
proof (induction cs)
  case (Cons f cs)
  then show ?case by (cases f) auto
qed simp

lemma rp_neq [simp]: "p \<notin> ptrs t \<Longrightarrow> p \<noteq> n \<Longrightarrow> p \<noteq> rp n t"
  "p \<notin> ptrs t \<Longrightarrow> p \<noteq> n \<Longrightarrow> rp n t \<noteq> p"
  by (cases t; auto)+

text \<open>The record of what an operation on the shape leaves alone.\<close>

definition same_rest :: "rbtree \<Rightarrow> rbtree \<Rightarrow> bool" where
  "same_rest T T' \<longleftrightarrow> rt_nil T' = rt_nil T \<and> rt_count T' = rt_count T \<and> rt_brk T' = rt_brk T \<and>
     rt_heap T' (rt_nil T) = rt_heap T (rt_nil T)"

lemma same_rest_refl [simp]: "same_rest T T"
  by (simp add: same_rest_def)

lemma same_rest_trans: "same_rest T T' \<Longrightarrow> same_rest T' T'' \<Longrightarrow> same_rest T T''"
  by (simp add: same_rest_def)

lemmas heap_defs = get_color_def get_left_def get_right_def get_parent_def get_key_def get_value_def
  upd_node_def

section \<open>Rotations\<close>

lemmas disj_simps = Int_Un_distrib Int_Un_distrib2

lemma left_rotate_at:
  assumes "tree_at T cs (Nd cx A x (Nd cy B y C))"
  shows "\<exists>T'. rbtree_left_rotate T (adr x) = Some T' \<and> same_rest T T' \<and>
           tree_at T' cs (Nd cy (Nd cx A x B) y C)"
proof (cases cs)
  case Nil
  show ?thesis using assms unfolding tree_at_def Nil
   by (cases B) (simp_all add: rbtree_left_rotate_def heap_defs same_rest_def disj_simps)
next
  case (Cons f cs')
  show ?thesis using assms unfolding tree_at_def Cons
   by ((cases B; cases f), simp_all add: rbtree_left_rotate_def heap_defs same_rest_def disj_simps)
     (elim conjE exE, simp)+
qed

lemma right_rotate_at:
  assumes "tree_at T cs (Nd cy (Nd cx A x B) y C)"
  shows "\<exists>T'. rbtree_right_rotate T (adr y) = Some T' \<and> same_rest T T' \<and>
           tree_at T' cs (Nd cx A x (Nd cy B y C))"
proof (cases cs)
  case Nil
  show ?thesis using assms unfolding tree_at_def Nil
   by (cases B) (simp_all add: rbtree_right_rotate_def heap_defs same_rest_def disj_simps)
next
  case (Cons f cs')
  show ?thesis using assms unfolding tree_at_def Cons
   by ((cases B; cases f), simp_all add: rbtree_right_rotate_def heap_defs same_rest_def disj_simps)
     (elim conjE exE, simp)+
qed

section \<open>Reading and recolouring at a position\<close>

lemma at_node:
  assumes "tree_at T cs (Nd c l a r)"
  shows "get_color T (adr a) = Some c" and "get_left T (adr a) = Some (rp (rt_nil T) l)"
    and "get_right T (adr a) = Some (rp (rt_nil T) r)"
    and "get_parent T (adr a) = Some (ctop (rt_nil T) cs)"
    and "get_key T (adr a) = Some (key_of a)" and "get_value T (adr a) = Some (val_of a)"
    and "adr a \<noteq> rt_nil T"
  using assms by (auto simp: tree_at_def heap_defs)

lemma at_color: "tree_at T cs t \<Longrightarrow> get_color T (rp (rt_nil T) t) = Some (col t)"
  by (cases t) (auto simp: tree_at_def heap_defs)

lemma at_parent_color: "tree_at T cs t \<Longrightarrow> get_color T (ctop (rt_nil T) cs) = Some (fcol cs)"
proof (cases cs)
  case (Cons f cs')
  then show "tree_at T cs t \<Longrightarrow> ?thesis"
    by (cases f) (auto simp: tree_at_def heap_defs)
qed (auto simp: tree_at_def heap_defs)

lemma at_root: "tree_at T [] t \<Longrightarrow> rt_root T = rp (rt_nil T) t"
  by (simp add: tree_at_def)

lemma set_color_at:
  assumes "tree_at T cs (Nd c l a r)"
  shows "\<exists>T'. set_color T (adr a) c' = Some T' \<and> same_rest T T' \<and> tree_at T' cs (Nd c' l a r)"
  using assms by (auto simp: tree_at_def heap_defs same_rest_def)

end
