(* ===== verification/Rb_Insert.thy ===== *)
theory Rb_Insert
  imports Rb_Zip
begin

text \<open>
  Insertion into the red-black heap: the repair loop ends, never touches the sentinel or an
  indeterminate field, keeps the order of the nodes and restores the red-black invariants.
\<close>

section \<open>The repair loop\<close>

text \<open>The outcome of a repair that started from the tree \<open>t0\<close>.\<close>

definition fixed_from :: "rbtree \<Rightarrow> ptree \<Rightarrow> rbtree \<Rightarrow> bool" where
  "fixed_from T t0 T' \<longleftrightarrow> same_rest T T' \<and>
     (\<exists>t'. tree_at T' [] t' \<and> infos t' = infos t0 \<and> invc t' \<and> invh t')"

lemma fixed_fromI:
  "same_rest T T' \<Longrightarrow> tree_at T' cs t \<Longrightarrow> infos (plug cs t) = infos t0 \<Longrightarrow>
     invc (plug cs t) \<Longrightarrow> invh (plug cs t) \<Longrightarrow> fixed_from T t0 T'"
  unfolding fixed_from_def using tree_at_plug by blast

lemma insert_fixup_stop:
  assumes "tree_at T cs (Nd c l z r)" and "fcol cs = BLACK"
  shows "insert_fixup_loop T (adr z) = Some T"
  using at_node [OF assms(1)] at_parent_color [OF assms(1)] assms(2)
  by (subst insert_fixup_loop.simps) simp

text \<open>The same position seen from the node above and from its children.\<close>

lemma at_down:
  assumes "tree_at T cs (Nd c l a r)"
  shows "tree_at T (LF c a r # cs) l" and "tree_at T (RF c l a # cs) r"
  using assms by (simp_all add: tree_at_move)

lemma at_child_parent:
  assumes "tree_at T cs (Nd c A p B)" and "(\<exists>c l r. A = Nd c l z r) \<or> (\<exists>c l r. B = Nd c l z r)"
  shows "get_parent T (adr z) = Some (adr p)"
  using assms(2) at_node(4) [of T _ _ _ z] at_down [OF assms(1)] by fastforce

text \<open>The uncle is red: recolour and go on at the grandparent.\<close>

lemma recolor_at:
  assumes "tree_at T cs (Nd c (Nd c1 A p B) g (Nd c2 C u D))"
  obtains T1 T2 T3 where "set_color T (adr p) d1 = Some T1" and "set_color T1 (adr u) d2 = Some T2"
    and "set_color T2 (adr g) d = Some T3" and "same_rest T T3"
    and "tree_at T3 cs (Nd d (Nd d1 A p B) g (Nd d2 C u D))"
proof -
  obtain T1 where T1: "set_color T (adr p) d1 = Some T1" "same_rest T T1"
      "tree_at T1 cs (Nd c (Nd d1 A p B) g (Nd c2 C u D))"
    using set_color_at [OF at_down(1) [OF assms], of d1] by (auto simp: tree_at_move)
  obtain T2 where T2: "set_color T1 (adr u) d2 = Some T2" "same_rest T1 T2"
      "tree_at T2 cs (Nd c (Nd d1 A p B) g (Nd d2 C u D))"
    using set_color_at [OF at_down(2) [OF T1(3)], of d2] by (auto simp: tree_at_move)
  obtain T3 where T3: "set_color T2 (adr g) d = Some T3" "same_rest T2 T3"
      "tree_at T3 cs (Nd d (Nd d1 A p B) g (Nd d2 C u D))"
    using set_color_at [OF T2(3), of d] by blast
  show thesis
    by (rule that [OF T1(1) T2(1) T3(1) _ T3(3)]) (metis same_rest_trans T1(2) T2(2) T3(2))
qed

lemma insert_step_recolor_L:
  assumes at: "tree_at T cs (Nd BLACK (Nd RED A p B) g (Nd RED C u D))"
    and z: "(\<exists>c l r. A = Nd c l z r) \<or> (\<exists>c l r. B = Nd c l z r)"
  shows "\<exists>T'. insert_fixup_loop T (adr z) = insert_fixup_loop T' (adr g) \<and> same_rest T T' \<and>
           tree_at T' cs (Nd RED (Nd BLACK A p B) g (Nd BLACK C u D))"
proof -
  obtain T1 T2 T3 where T: "set_color T (adr p) BLACK = Some T1" "set_color T1 (adr u) BLACK = Some T2"
      "set_color T2 (adr g) RED = Some T3" "same_rest T T3"
      "tree_at T3 cs (Nd RED (Nd BLACK A p B) g (Nd BLACK C u D))"
    by (rule recolor_at [OF at])
  have "insert_fixup_loop T (adr z) = insert_fixup_loop T3 (adr g)"
    using at_child_parent [OF at_down(1) [OF at] z] at_node [OF at] at_node [OF at_down(1) [OF at]]
      at_node [OF at_down(2) [OF at]] T(1,2,3)
    by (subst insert_fixup_loop.simps) simp
  with T show ?thesis by blast
qed

lemma at_siblings:
  assumes "tree_at T cs (Nd c l a r)" and "l \<noteq> Lf \<or> r \<noteq> Lf"
  shows "rp (rt_nil T) l \<noteq> rp (rt_nil T) r"
  using assms by (cases l; cases r) (auto simp: tree_at_def)

lemma insert_step_recolor_R:
  assumes at: "tree_at T cs (Nd BLACK (Nd RED C u D) g (Nd RED A p B))"
    and z: "(\<exists>c l r. A = Nd c l z r) \<or> (\<exists>c l r. B = Nd c l z r)"
  shows "\<exists>T'. insert_fixup_loop T (adr z) = insert_fixup_loop T' (adr g) \<and> same_rest T T' \<and>
           tree_at T' cs (Nd RED (Nd BLACK C u D) g (Nd BLACK A p B))"
proof -
  obtain T1 where T1: "set_color T (adr p) BLACK = Some T1" "same_rest T T1"
      "tree_at T1 cs (Nd BLACK (Nd RED C u D) g (Nd BLACK A p B))"
    using set_color_at [OF at_down(2) [OF at], of BLACK] by (auto simp: tree_at_move)
  obtain T2 where T2: "set_color T1 (adr u) BLACK = Some T2" "same_rest T1 T2"
      "tree_at T2 cs (Nd BLACK (Nd BLACK C u D) g (Nd BLACK A p B))"
    using set_color_at [OF at_down(1) [OF T1(3)], of BLACK] by (auto simp: tree_at_move)
  obtain T3 where T3: "set_color T2 (adr g) RED = Some T3" "same_rest T2 T3"
      "tree_at T3 cs (Nd RED (Nd BLACK C u D) g (Nd BLACK A p B))"
    using set_color_at [OF T2(3), of RED] by blast
  have "insert_fixup_loop T (adr z) = insert_fixup_loop T3 (adr g)"
    using at_child_parent [OF at_down(2) [OF at] z] at_node [OF at] at_node [OF at_down(1) [OF at]]
      at_node [OF at_down(2) [OF at]] T1(1) T2(1) T3(1) at_siblings [OF at]
    by (subst insert_fixup_loop.simps) simp
  then show ?thesis using T1(2) T2(2) T3(2,3) same_rest_trans by metis
qed

text \<open>
  The uncle is black: the last steps of an iteration, with \<open>z\<close> an outer grandchild (on the
  left, then on the right), after which the loop stops.
\<close>

lemma insert_final_L:
  assumes at: "tree_at T cs (Nd BLACK (Nd RED (Nd RED l z r) p B) g U)"
  obtains T1 T2 T3 where "set_color T (adr p) BLACK = Some T1" and "get_parent T1 (adr p) = Some (adr g)"
    and "set_color T1 (adr g) RED = Some T2" and "rbtree_right_rotate T2 (adr g) = Some T3"
    and "insert_fixup_loop T3 (adr z) = Some T3" and "same_rest T T3"
    and "tree_at T3 cs (Nd BLACK (Nd RED l z r) p (Nd RED B g U))"
proof -
  obtain T1 where T1: "set_color T (adr p) BLACK = Some T1" "same_rest T T1"
      "tree_at T1 cs (Nd BLACK (Nd BLACK (Nd RED l z r) p B) g U)"
    using set_color_at [OF at_down(1) [OF at], of BLACK] by (auto simp: tree_at_move)
  obtain T2 where T2: "set_color T1 (adr g) RED = Some T2" "same_rest T1 T2"
      "tree_at T2 cs (Nd RED (Nd BLACK (Nd RED l z r) p B) g U)"
    using set_color_at [OF T1(3), of RED] by blast
  obtain T3 where T3: "rbtree_right_rotate T2 (adr g) = Some T3" "same_rest T2 T3"
      "tree_at T3 cs (Nd BLACK (Nd RED l z r) p (Nd RED B g U))"
    using right_rotate_at [OF T2(3)] by blast
  have "insert_fixup_loop T3 (adr z) = Some T3"
    by (rule insert_fixup_stop [OF at_down(1) [OF T3(3)]]) simp
  moreover have "get_parent T1 (adr p) = Some (adr g)" using at_node(4) [OF at_down(1) [OF T1(3)]] by simp
  ultimately show thesis
    using that [OF T1(1) _ T2(1) T3(1) _ _ T3(3)] same_rest_trans T1(2) T2(2) T3(2) by metis
qed

lemma insert_final_R:
  assumes at: "tree_at T cs (Nd BLACK U g (Nd RED B p (Nd RED l z r)))"
  obtains T1 T2 T3 where "set_color T (adr p) BLACK = Some T1" and "get_parent T1 (adr p) = Some (adr g)"
    and "set_color T1 (adr g) RED = Some T2" and "rbtree_left_rotate T2 (adr g) = Some T3"
    and "insert_fixup_loop T3 (adr z) = Some T3" and "same_rest T T3"
    and "tree_at T3 cs (Nd BLACK (Nd RED U g B) p (Nd RED l z r))"
proof -
  obtain T1 where T1: "set_color T (adr p) BLACK = Some T1" "same_rest T T1"
      "tree_at T1 cs (Nd BLACK U g (Nd BLACK B p (Nd RED l z r)))"
    using set_color_at [OF at_down(2) [OF at], of BLACK] by (auto simp: tree_at_move)
  obtain T2 where T2: "set_color T1 (adr g) RED = Some T2" "same_rest T1 T2"
      "tree_at T2 cs (Nd RED U g (Nd BLACK B p (Nd RED l z r)))"
    using set_color_at [OF T1(3), of RED] by blast
  obtain T3 where T3: "rbtree_left_rotate T2 (adr g) = Some T3" "same_rest T2 T3"
      "tree_at T3 cs (Nd BLACK (Nd RED U g B) p (Nd RED l z r))"
    using left_rotate_at [OF T2(3)] by blast
  have "insert_fixup_loop T3 (adr z) = Some T3"
    by (rule insert_fixup_stop [OF at_down(2) [OF T3(3)]]) simp
  moreover have "get_parent T1 (adr p) = Some (adr g)" using at_node(4) [OF at_down(2) [OF T1(3)]] by simp
  ultimately show thesis
    using that [OF T1(1) _ T2(1) T3(1) _ _ T3(3)] same_rest_trans T1(2) T2(2) T3(2) by metis
qed

text \<open>One iteration with a black uncle, in its four shapes.\<close>

lemma insert_step_LL:
  assumes at: "tree_at T cs (Nd BLACK (Nd RED (Nd RED l z r) p B) g U)" and "col U = BLACK"
  shows "\<exists>T'. insert_fixup_loop T (adr z) = Some T' \<and> same_rest T T' \<and>
           tree_at T' cs (Nd BLACK (Nd RED l z r) p (Nd RED B g U))"
proof -
  note atp = at_down(1) [OF at]
  obtain T1 T2 T3 where T: "set_color T (adr p) BLACK = Some T1" "get_parent T1 (adr p) = Some (adr g)"
      "set_color T1 (adr g) RED = Some T2" "rbtree_right_rotate T2 (adr g) = Some T3"
      "insert_fixup_loop T3 (adr z) = Some T3" "same_rest T T3"
      "tree_at T3 cs (Nd BLACK (Nd RED l z r) p (Nd RED B g U))"
    by (rule insert_final_L [OF at])
  have "insert_fixup_loop T (adr z) = Some T3"
    using at_node [OF at] at_node [OF atp] at_node(4) [OF at_down(1) [OF atp]]
      at_color [OF at_down(2) [OF at]] assms(2) at_siblings [OF atp] T(1-5)
    by (subst insert_fixup_loop.simps) simp
  with T show ?thesis by blast
qed

lemma insert_step_LR:
  assumes at: "tree_at T cs (Nd BLACK (Nd RED A p (Nd RED l z r)) g U)" and "col U = BLACK"
  shows "\<exists>T'. insert_fixup_loop T (adr z) = Some T' \<and> same_rest T T' \<and>
           tree_at T' cs (Nd BLACK (Nd RED A p l) z (Nd RED r g U))"
proof -
  note atp = at_down(1) [OF at]
  obtain T0 where T0: "rbtree_left_rotate T (adr p) = Some T0" "same_rest T T0"
      "tree_at T0 cs (Nd BLACK (Nd RED (Nd RED A p l) z r) g U)"
    using left_rotate_at [OF atp] by (auto simp: tree_at_move)
  obtain T1 T2 T3 where T: "set_color T0 (adr z) BLACK = Some T1" "get_parent T1 (adr z) = Some (adr g)"
      "set_color T1 (adr g) RED = Some T2" "rbtree_right_rotate T2 (adr g) = Some T3"
      "insert_fixup_loop T3 (adr p) = Some T3" "same_rest T0 T3"
      "tree_at T3 cs (Nd BLACK (Nd RED A p l) z (Nd RED r g U))"
    by (rule insert_final_L [OF T0(3)])
  have "insert_fixup_loop T (adr z) = Some T3"
    using at_node [OF at] at_node [OF atp] at_node(4) [OF at_down(2) [OF atp]]
      at_node(4) [OF at_down(1) [OF at_down(1) [OF T0(3)]]]
      at_color [OF at_down(2) [OF at]] assms(2) T0(1) T(1-5)
    by (subst insert_fixup_loop.simps) simp
  with T T0(2) show ?thesis using same_rest_trans by blast
qed

lemma insert_step_RR:
  assumes at: "tree_at T cs (Nd BLACK U g (Nd RED B p (Nd RED l z r)))" and "col U = BLACK"
  shows "\<exists>T'. insert_fixup_loop T (adr z) = Some T' \<and> same_rest T T' \<and>
           tree_at T' cs (Nd BLACK (Nd RED U g B) p (Nd RED l z r))"
proof -
  note atp = at_down(2) [OF at]
  obtain T1 T2 T3 where T: "set_color T (adr p) BLACK = Some T1" "get_parent T1 (adr p) = Some (adr g)"
      "set_color T1 (adr g) RED = Some T2" "rbtree_left_rotate T2 (adr g) = Some T3"
      "insert_fixup_loop T3 (adr z) = Some T3" "same_rest T T3"
      "tree_at T3 cs (Nd BLACK (Nd RED U g B) p (Nd RED l z r))"
    by (rule insert_final_R [OF at])
  have "insert_fixup_loop T (adr z) = Some T3"
    using at_node [OF at] at_node [OF atp] at_node(4) [OF at_down(2) [OF atp]] at_siblings [OF at]
      at_color [OF at_down(1) [OF at]] assms(2) at_siblings [OF atp] T(1-5)
    by (subst insert_fixup_loop.simps) simp
  with T show ?thesis by blast
qed

lemma insert_step_RL:
  assumes at: "tree_at T cs (Nd BLACK U g (Nd RED (Nd RED l z r) p A))" and "col U = BLACK"
  shows "\<exists>T'. insert_fixup_loop T (adr z) = Some T' \<and> same_rest T T' \<and>
           tree_at T' cs (Nd BLACK (Nd RED U g l) z (Nd RED r p A))"
proof -
  note atp = at_down(2) [OF at]
  obtain T0 where T0: "rbtree_right_rotate T (adr p) = Some T0" "same_rest T T0"
      "tree_at T0 cs (Nd BLACK U g (Nd RED l z (Nd RED r p A)))"
    using right_rotate_at [OF atp] by (auto simp: tree_at_move)
  obtain T1 T2 T3 where T: "set_color T0 (adr z) BLACK = Some T1" "get_parent T1 (adr z) = Some (adr g)"
      "set_color T1 (adr g) RED = Some T2" "rbtree_left_rotate T2 (adr g) = Some T3"
      "insert_fixup_loop T3 (adr p) = Some T3" "same_rest T0 T3"
      "tree_at T3 cs (Nd BLACK (Nd RED U g l) z (Nd RED r p A))"
    by (rule insert_final_R [OF T0(3)])
  have "insert_fixup_loop T (adr z) = Some T3"
    using at_node [OF at] at_node [OF atp] at_node(4) [OF at_down(1) [OF atp]] at_siblings [OF at]
      at_node(4) [OF at_down(2) [OF at_down(2) [OF T0(3)]]]
      at_color [OF at_down(1) [OF at]] assms(2) T0(1) T(1-5)
    by (subst insert_fixup_loop.simps) simp
  with T T0(2) show ?thesis using same_rest_trans by blast
qed

text \<open>
  What one iteration at \<open>z\<close> does when its parent is red: it ends the loop with a valid subtree
  in place of \<open>t\<close>, or goes on at the red root of such a subtree.
\<close>

definition insert_ends :: "rbtree \<Rightarrow> info \<Rightarrow> frame list \<Rightarrow> ptree \<Rightarrow> bool" where
  "insert_ends T z cs t \<longleftrightarrow> (\<exists>T' t'. insert_fixup_loop T (adr z) = Some T' \<and> same_rest T T' \<and>
     tree_at T' cs t' \<and> infos t' = infos t \<and> invc t' \<and> invh t' \<and> cinv (bh t') cs \<and> col t' = BLACK)"

definition insert_climbs :: "rbtree \<Rightarrow> info \<Rightarrow> frame list \<Rightarrow> ptree \<Rightarrow> bool" where
  "insert_climbs T z cs t \<longleftrightarrow> (\<exists>T' L y R. insert_fixup_loop T (adr z) = insert_fixup_loop T' (adr y) \<and>
     same_rest T T' \<and> tree_at T' cs (Nd RED L y R) \<and> infos (Nd RED L y R) = infos t \<and>
     invc (Nd RED L y R) \<and> invh (Nd RED L y R) \<and> cinv (bh L) cs)"

lemma insert_endsI:
  "\<exists>T'. insert_fixup_loop T (adr z) = Some T' \<and> same_rest T T' \<and> tree_at T' cs t' \<Longrightarrow>
     infos t' = infos t \<Longrightarrow> invc t' \<Longrightarrow> invh t' \<Longrightarrow> cinv (bh t') cs \<Longrightarrow> col t' = BLACK \<Longrightarrow>
     insert_ends T z cs t"
  unfolding insert_ends_def by blast

lemma insert_climbsI:
  "\<exists>T'. insert_fixup_loop T (adr z) = insert_fixup_loop T' (adr y) \<and> same_rest T T' \<and>
       tree_at T' cs (Nd RED L y R) \<Longrightarrow>
     infos (Nd RED L y R) = infos t \<Longrightarrow> invc (Nd RED L y R) \<Longrightarrow> invh (Nd RED L y R) \<Longrightarrow>
     cinv (bh L) cs \<Longrightarrow> insert_climbs T z cs t"
  unfolding insert_climbs_def by blast

text \<open>The shape of the two frames above \<open>z\<close>, and the uncle's colour, decide which.\<close>

lemma insert_iter_recolor_L:
  assumes at: "tree_at T cs (Nd BLACK (Nd RED A p B) g (Nd RED C u D))"
    and z: "(\<exists>c l r. A = Nd c l z r) \<or> (\<exists>c l r. B = Nd c l z r)"
    and inv: "invc A" "invc B" "invc C" "invc D" "col C = BLACK" "col D = BLACK"
      "invh (Nd RED A p B)" "invh (Nd RED C u D)" "bh A = bh C" "cinv (Suc (bh A)) cs"
  shows "insert_climbs T z cs (Nd BLACK (Nd RED A p B) g (Nd RED C u D))"
  by (rule insert_climbsI [OF insert_step_recolor_L [OF at z]]) (use inv in simp_all)

lemma insert_iter_recolor_R:
  assumes at: "tree_at T cs (Nd BLACK (Nd RED C u D) g (Nd RED A p B))"
    and z: "(\<exists>c l r. A = Nd c l z r) \<or> (\<exists>c l r. B = Nd c l z r)"
    and inv: "invc A" "invc B" "invc C" "invc D" "col C = BLACK" "col D = BLACK"
      "invh (Nd RED A p B)" "invh (Nd RED C u D)" "bh A = bh C" "cinv (Suc (bh A)) cs"
  shows "insert_climbs T z cs (Nd BLACK (Nd RED C u D) g (Nd RED A p B))"
  by (rule insert_climbsI [OF insert_step_recolor_R [OF at z]]) (use inv in simp_all)

lemma insert_iter_L:
  assumes at: "tree_at T (f # LF BLACK g U # cs) (Nd RED l z r)" and red: "fcol (f # cs) = RED"
    and inv: "invc (Nd RED l z r)" "invh (Nd RED l z r)" "cinv (bh l) (f # LF BLACK g U # cs)"
  shows "insert_ends T z cs (plug [f, LF BLACK g U] (Nd RED l z r)) \<or>
         insert_climbs T z cs (plug [f, LF BLACK g U] (Nd RED l z r))"
proof (cases "col U")
  case RED
  then obtain C u D where U: "U = Nd RED C u D" by (cases U) auto
  show ?thesis
    by (cases f; rule disjI2)
      (use at red inv in \<open>simp_all add: tree_at_move U insert_iter_recolor_L\<close>)
next
  case U: BLACK
  show ?thesis
  proof (cases f)
    case (LF c p B)
    then have at': "tree_at T cs (Nd BLACK (Nd RED (Nd RED l z r) p B) g U)"
      using at red by (simp add: tree_at_move)
    show ?thesis
      by (rule disjI1, rule insert_endsI [OF insert_step_LL [OF at' U]])
        (use inv red U LF in simp_all)
  next
    case (RF c A p)
    then have at': "tree_at T cs (Nd BLACK (Nd RED A p (Nd RED l z r)) g U)"
      using at red by (simp add: tree_at_move)
    show ?thesis
      by (rule disjI1, rule insert_endsI [OF insert_step_LR [OF at' U]])
        (use inv red U RF in simp_all)
  qed
qed

lemma insert_iter_R:
  assumes at: "tree_at T (f # RF BLACK U g # cs) (Nd RED l z r)" and red: "fcol (f # cs) = RED"
    and inv: "invc (Nd RED l z r)" "invh (Nd RED l z r)" "cinv (bh l) (f # RF BLACK U g # cs)"
  shows "insert_ends T z cs (plug [f, RF BLACK U g] (Nd RED l z r)) \<or>
         insert_climbs T z cs (plug [f, RF BLACK U g] (Nd RED l z r))"
proof (cases "col U")
  case RED
  then obtain C u D where U: "U = Nd RED C u D" by (cases U) auto
  show ?thesis
    by (cases f; rule disjI2)
      (use at red inv in \<open>simp_all add: tree_at_move U insert_iter_recolor_R\<close>)
next
  case U: BLACK
  show ?thesis
  proof (cases f)
    case (RF c B p)
    then have at': "tree_at T cs (Nd BLACK U g (Nd RED B p (Nd RED l z r)))"
      using at red by (simp add: tree_at_move)
    show ?thesis
      by (rule disjI1, rule insert_endsI [OF insert_step_RR [OF at' U]])
        (use inv red U RF in simp_all)
  next
    case (LF c p A)
    then have at': "tree_at T cs (Nd BLACK U g (Nd RED (Nd RED l z r) p A))"
      using at red by (simp add: tree_at_move)
    show ?thesis
      by (rule disjI1, rule insert_endsI [OF insert_step_RL [OF at' U]])
        (use inv red U LF in simp_all)
  qed
qed

text \<open>The whole loop, by induction on the distance to the root.\<close>

lemma fixed_from_step:
  "same_rest T T1 \<Longrightarrow> fixed_from T1 t0 T' \<Longrightarrow> fixed_from T t0 T'"
  unfolding fixed_from_def using same_rest_trans by blast

lemma insert_ends_fixed:
  assumes "insert_ends T z cs t"
  shows "\<exists>T'. insert_fixup_loop T (adr z) = Some T' \<and> fixed_from T (plug cs t) T'"
proof -
  from assms obtain T' t' where "insert_fixup_loop T (adr z) = Some T'" "same_rest T T'"
      "tree_at T' cs t'" "infos t' = infos t" "invc t'" "invh t'" "cinv (bh t') cs" "col t' = BLACK"
    unfolding insert_ends_def by blast
  then show ?thesis using fixed_fromI [of T T' cs t' "plug cs t"] plug_inv [of t' cs]
    by (simp add: infos_plug)
qed

lemma insert_fixup_loop_at:
  assumes "tree_at T cs (Nd RED l z r)" and "invc (Nd RED l z r)" and "invh (Nd RED l z r)"
    and "cinv (bh l) cs"
  shows "\<exists>T'. insert_fixup_loop T (adr z) = Some T' \<and> fixed_from T (plug cs (Nd RED l z r)) T'"
  using assms
proof (induction "length cs" arbitrary: cs T l z r rule: less_induct)
  case less
  note at = less.prems(1)
  show ?case
  proof (cases "fcol cs = BLACK")
    case True
    then have "insert_fixup_loop T (adr z) = Some T" by (rule insert_fixup_stop [OF at])
    moreover have "fixed_from T (plug cs (Nd RED l z r)) T"
      using plug_inv [of "Nd RED l z r" cs] less.prems True by (intro fixed_fromI [OF _ at]) auto
    ultimately show ?thesis by blast
  next
    case red: False
    then obtain f g cs' where cs: "cs = f # g # cs'"
        and fg: "fcol (f # cs') = RED" "fcol (g # cs') = BLACK"
      using red_frames [OF less.prems(4)] by blast
    have "insert_ends T z cs' (plug [f, g] (Nd RED l z r)) \<or>
          insert_climbs T z cs' (plug [f, g] (Nd RED l z r))"
    proof (cases g)
      case (LF c a t) then show ?thesis
        using insert_iter_L [of T f a t cs' l z r] less.prems fg cs by simp
    next
      case (RF c t a) then show ?thesis
        using insert_iter_R [of T f t a cs' l z r] less.prems fg cs by simp
    qed
    then show ?thesis
    proof
      assume "insert_ends T z cs' (plug [f, g] (Nd RED l z r))"
      from insert_ends_fixed [OF this] show ?thesis by (simp add: cs)
    next
      assume "insert_climbs T z cs' (plug [f, g] (Nd RED l z r))"
      then obtain T1 L y R where 1: "insert_fixup_loop T (adr z) = insert_fixup_loop T1 (adr y)"
          "same_rest T T1" "tree_at T1 cs' (Nd RED L y R)" "infos (Nd RED L y R) = infos (plug [f, g] (Nd RED l z r))"
          "invc (Nd RED L y R)" "invh (Nd RED L y R)" "cinv (bh L) cs'"
        unfolding insert_climbs_def by blast
      have "infos (plug cs' (Nd RED L y R)) = infos (plug cs (Nd RED l z r))"
        using 1(4) by (simp only: cs plug.simps infos_plug)
      then have eq: "fixed_from T (plug cs' (Nd RED L y R)) = fixed_from T (plug cs (Nd RED l z r))"
        by (simp only: fixed_from_def fun_eq_iff simp_thms)
      from less.hyps [OF _ 1(3,5,6,7)] obtain T' where
          "insert_fixup_loop T1 (adr y) = Some T'" "fixed_from T1 (plug cs' (Nd RED L y R)) T'"
        by (auto simp: cs)
      then have "insert_fixup_loop T (adr z) = Some T' \<and> fixed_from T (plug cs (Nd RED l z r)) T'"
        using 1(1) fixed_from_step [OF 1(2)] unfolding eq [symmetric] by simp
      then show ?thesis ..
    qed
  qed
qed

section \<open>Linking a new node\<close>

definition bst :: "ptree \<Rightarrow> bool" where
  "bst t \<longleftrightarrow> sorted_wrt (<) (map key_of (infos t))"

lemma bst_Lf [simp]: "bst Lf"
  by (simp add: bst_def)

lemma bst_Nd [simp]:
  "bst (Nd c l a r) \<longleftrightarrow> bst l \<and> bst r \<and> (\<forall>b \<in> set (infos l). key_of b < key_of a) \<and>
     (\<forall>b \<in> set (infos r). key_of a < key_of b)"
  by (auto simp: bst_def sorted_wrt_append) (metis fst_conv less_trans snd_conv)

lemma ptrs_infos: "ptrs t = adr ` set (infos t)"
  by (induction t) auto

lemma cptrs_parts: "cptrs cs = adr ` (set (lpart cs) \<union> set (rpart cs))"
  by (induction cs rule: cptrs.induct) (auto simp: ptrs_infos)

lemma ptrs_plug: "ptrs (plug cs t) = cptrs cs \<union> ptrs t"
  by (auto simp: ptrs_infos cptrs_parts infos_plug)

text \<open>The descent finds the key, or the leaf where it belongs.\<close>

lemma insert_walk_found:
  assumes "tree_at T cs t" and "get_key T z = Some k" and "bst t" and "k \<in> key_of ` set (infos t)"
  shows "insert_walk T z (rp (rt_nil T) t) y = Some None"
  using assms
proof (induction t arbitrary: cs y)
  case (Nd c l a r)
  note at = Nd.prems(1)
  consider "k < key_of a" | "key_of a < k" | "k = key_of a" by force
  then show ?case
  proof cases
    case 1
    then have "k \<in> key_of ` set (infos l)" using Nd.prems by force
    then show ?thesis using at_node [OF at] Nd.prems Nd.IH(1) [OF at_down(1) [OF at]] 1
      by (subst insert_walk.simps) simp
  next
    case 2
    then have "k \<in> key_of ` set (infos r)" using Nd.prems by force
    then show ?thesis using at_node [OF at] Nd.prems Nd.IH(2) [OF at_down(2) [OF at]] 2
        order.asym [OF 2] by (subst insert_walk.simps) auto
  next
    case 3
    then show ?thesis using at_node [OF at] Nd.prems(2) by (subst insert_walk.simps) simp
  qed
qed simp

lemma insert_walk_leaf:
  assumes "tree_at T cs t" and "get_key T z = Some k" and "bst t" and "k \<notin> key_of ` set (infos t)"
  shows "\<exists>cs'. insert_walk T z (rp (rt_nil T) t) (ctop (rt_nil T) cs) =
             Some (Some (ctop (rt_nil T) (cs' @ cs))) \<and> plug cs' Lf = t \<and>
           (\<forall>b \<in> set (lpart cs'). key_of b < k) \<and> (\<forall>b \<in> set (rpart cs'). k < key_of b)"
  using assms
proof (induction t arbitrary: cs)
  case Lf
  then show ?case by (intro exI [of _ "[]"]) (simp add: insert_walk.simps)
next
  case (Nd c l a r)
  note at = Nd.prems(1)
  consider "k < key_of a" | "key_of a < k" using Nd.prems(4) by force
  then show ?case
  proof cases
    case 1
    obtain cs' where cs': "insert_walk T z (rp (rt_nil T) l) (adr a) =
          Some (Some (ctop (rt_nil T) (cs' @ LF c a r # cs)))" "plug cs' Lf = l"
        "\<forall>b \<in> set (lpart cs'). key_of b < k" "\<forall>b \<in> set (rpart cs'). k < key_of b"
      using Nd.IH(1) [OF at_down(1) [OF at]] Nd.prems by auto
    moreover have "\<forall>b \<in> set (infos r). k < key_of b" using Nd.prems(3) 1 by (auto intro: less_trans)
    ultimately show ?thesis
      using at_node [OF at] Nd.prems 1
      by (intro exI [of _ "cs' @ [LF c a r]"], subst insert_walk.simps) auto
  next
    case 2
    obtain cs' where cs': "insert_walk T z (rp (rt_nil T) r) (adr a) =
          Some (Some (ctop (rt_nil T) (cs' @ RF c l a # cs)))" "plug cs' Lf = r"
        "\<forall>b \<in> set (lpart cs'). key_of b < k" "\<forall>b \<in> set (rpart cs'). k < key_of b"
      using Nd.IH(2) [OF at_down(2) [OF at]] Nd.prems by auto
    moreover have "\<forall>b \<in> set (infos l). key_of b < k" using Nd.prems(3) 2 by (auto intro: less_trans)
    ultimately show ?thesis
      using at_node [OF at] Nd.prems 2
      by (intro exI [of _ "cs' @ [RF c l a]"], subst insert_walk.simps) auto
  qed
qed

text \<open>Linking a fresh node at that leaf, before the repair.\<close>

definition link_node :: "rbtree \<Rightarrow> nat \<Rightarrow> nat \<Rightarrow> rbtree option" where
  "link_node T z y =
     do { T \<leftarrow> set_parent T z y;
          T \<leftarrow> (if y = rt_nil T then Some (T\<lparr>rt_root := z\<rparr>)
               else do {
                 zk \<leftarrow> get_key T z;
                 yk \<leftarrow> get_key T y;
                 if strcmp zk yk < 0 then set_left T y z else set_right T y z });
          T \<leftarrow> set_left T z (rt_nil T);
          T \<leftarrow> set_right T z (rt_nil T);
          set_color T z RED }"

lemma rbtree_insert_link:
  "insert_walk T z (rt_root T) (rt_nil T) = Some (Some y) \<Longrightarrow>
     rbtree_insert T z = do { T \<leftarrow> link_node T z y; rbtree_insert_fixup T z }"
  by (simp add: rbtree_insert_def link_node_def)

lemma fresh_node_upd [simp]:
  "fresh_node k v\<lparr>nd_parent := Some q, nd_left := Some l, nd_right := Some r, nd_color := Some c\<rparr> =
     node c (z, k, v) l r q"
  by (simp add: fresh_node_def node_def)

lemma link_node_at:
  assumes at: "tree_at T cs Lf" and z: "rt_heap T z = Some (fresh_node k v)" "z \<notin> cptrs cs" "z \<noteq> rt_nil T"
    and lt: "\<forall>b \<in> set (lpart cs). key_of b < k" "\<forall>b \<in> set (rpart cs). k < key_of b"
  shows "\<exists>T'. link_node T z (ctop (rt_nil T) cs) = Some T' \<and> same_rest T T' \<and>
           tree_at T' cs (Nd RED Lf (z, k, v) Lf)"
proof (cases cs)
  case Nil
  show ?thesis using at z unfolding tree_at_def Nil
    by (auto simp: link_node_def heap_defs same_rest_def)
next
  case (Cons f cs')
  show ?thesis
  proof (cases f)
    case (LF c a r)
    then show ?thesis using at z lt unfolding tree_at_def Cons
      by (auto simp: link_node_def heap_defs same_rest_def fresh_node_def node_def)
  next
    case (RF c l a)
    then show ?thesis using at z lt unfolding tree_at_def Cons
      by (auto simp: link_node_def heap_defs same_rest_def fresh_node_def node_def)
  qed
qed


section \<open>Insertion\<close>

lemma insert_fixup_at:
  assumes "tree_at T cs (Nd RED Lf z Lf)" and "cinv 0 cs"
  shows "\<exists>T' t'. rbtree_insert_fixup T (adr z) = Some T' \<and> same_rest T T' \<and> tree_at T' [] t' \<and>
           infos t' = infos (plug cs (Nd RED Lf z Lf)) \<and> rb_ok t'"
proof -
  obtain T1 t1 where T1: "insert_fixup_loop T (adr z) = Some T1" "same_rest T T1" "tree_at T1 [] t1"
      "infos t1 = infos (plug cs (Nd RED Lf z Lf))" "invc t1" "invh t1"
    using insert_fixup_loop_at [OF assms(1)] assms(2) by (auto simp: fixed_from_def)
  then obtain c l a r where t1: "t1 = Nd c l a r" by (cases t1) (auto simp: infos_plug)
  obtain T2 where "set_color T1 (adr a) BLACK = Some T2" "same_rest T1 T2" "tree_at T2 [] (Nd BLACK l a r)"
    using set_color_at [OF T1(3) [unfolded t1]] by blast
  then show ?thesis
    using T1 same_rest_trans [OF T1(2)] at_root [OF T1(3)]
    by (intro exI [of _ T2] exI [of _ "Nd BLACK l a r"])
      (auto simp: rbtree_insert_fixup_def t1 rb_ok_def)
qed

text \<open>
  A new key: the node is put between the smaller and the larger ones; a present key: nothing
  changes in the tree.
\<close>

lemma rbtree_insert_new:
  assumes at: "tree_at T [] t" and ok: "rb_ok t" "bst t" and k: "k \<notin> key_of ` set (infos t)"
    and z: "rt_heap T z = Some (fresh_node k v)" "z \<notin> ptrs t" "z \<noteq> rt_nil T"
  shows "\<exists>T' t' xs ys. rbtree_insert T z = Some T' \<and> same_rest T T' \<and> tree_at T' [] t' \<and> rb_ok t' \<and>
           infos t = xs @ ys \<and> infos t' = xs @ (z, k, v) # ys \<and>
           (\<forall>b \<in> set xs. key_of b < k) \<and> (\<forall>b \<in> set ys. k < key_of b)"
proof -
  have zk: "get_key T z = Some k" using z by (simp add: get_key_def fresh_node_def)
  obtain cs where w: "insert_walk T z (rt_root T) (rt_nil T) = Some (Some (ctop (rt_nil T) cs))"
      and cs: "plug cs Lf = t" "\<forall>b \<in> set (lpart cs). key_of b < k" "\<forall>b \<in> set (rpart cs). k < key_of b"
    using insert_walk_leaf [OF at zk ok(2) k] at_root [OF at] by auto
  have at': "tree_at T cs Lf" using at cs(1) tree_at_plug by metis
  have "z \<notin> cptrs cs" using z(2) cs(1) ptrs_plug by auto
  then obtain T1 where T1: "link_node T z (ctop (rt_nil T) cs) = Some T1" "same_rest T T1"
      "tree_at T1 cs (Nd RED Lf (z, k, v) Lf)"
    using link_node_at [OF at' z(1) _ z(3) cs(2,3)] by blast
  have "cinv 0 cs" using plug_inv_rev [of cs Lf] ok(1) cs(1) by (simp add: rb_ok_def)
  from insert_fixup_at [OF T1(3) this] obtain T' t' where "rbtree_insert_fixup T1 z = Some T'"
      "same_rest T1 T'" "tree_at T' [] t'" "infos t' = lpart cs @ (z, k, v) # rpart cs" "rb_ok t'"
    by (auto simp: infos_plug)
  moreover have "infos t = lpart cs @ rpart cs" using cs(1) infos_plug [of cs Lf] by simp
  ultimately show ?thesis
    using rbtree_insert_link [OF w] T1(1) same_rest_trans [OF T1(2)] cs(2,3) by auto
qed

lemma rbtree_insert_present:
  assumes "tree_at T [] t" and "bst t" and "k \<in> key_of ` set (infos t)" and "get_key T z = Some k"
  shows "rbtree_insert T z = Some T"
  using insert_walk_found [OF assms(1,4,2,3)] at_root [OF assms(1)] by (simp add: rbtree_insert_def)

end
