(* ===== verification/Rb_Delete.thy ===== *)
theory Rb_Delete
  imports Rb_Insert
begin

text \<open>
  Deletion from the red-black heap: the node that is spliced out, the exchange of keys and
  values, and the repair loop, which ends and restores the red-black invariants.
\<close>

section \<open>The repair loop, step by step\<close>

text \<open>
  The loop stands at \<open>x\<close>, the root of a subtree that is one black node short. A leaf is
  represented by the sentinel, whose parent field then is the parent of the leaf.
\<close>

definition focus :: "rbtree \<Rightarrow> frame list \<Rightarrow> ptree \<Rightarrow> nat \<Rightarrow> bool" where
  "focus T cs t x \<longleftrightarrow> tree_at T cs t \<and> x = rp (rt_nil T) t \<and> get_parent T x = Some (ctop (rt_nil T) cs)"

lemma crepr_root: "crepr h n rt cs p \<Longrightarrow> cs \<noteq> [] \<Longrightarrow> rt \<in> cptrs cs"
proof (induction cs arbitrary: p)
  case (Cons f cs)
  then show ?case by (cases f; cases "cs = []") auto
qed simp

lemma at_not_root: "tree_at T (f # cs) t \<Longrightarrow> rp (rt_nil T) t \<noteq> rt_root T"
proof
  assume at: "tree_at T (f # cs) t" and eq: "rp (rt_nil T) t = rt_root T"
  then have "rt_root T \<in> cptrs (f # cs)" unfolding tree_at_def using crepr_root [of "rt_heap T" "rt_nil T" "rt_root T" "f # cs"] by auto
  moreover have "rt_root T \<in> insert (rt_nil T) (ptrs t)" using eq by (cases t) auto
  moreover have "insert (rt_nil T) (ptrs t) \<inter> cptrs (f # cs) = {}"
    using at csep_nil [of "rt_nil T" "f # cs"] unfolding tree_at_def by simp
  ultimately show False by blast
qed

lemma focus_move:
  assumes "same_rest T T'" and "tree_at T' cs' t" and "focus T cs t x"
    and "ctop (rt_nil T) cs' = ctop (rt_nil T) cs"
  shows "focus T' cs' t x"
proof (cases t)
  case Lf
  then show ?thesis using assms by (auto simp: focus_def same_rest_def get_parent_def)
next
  case (Nd c l a r)
  then show ?thesis using assms at_node(4) [of T' cs' c l a r] by (auto simp: focus_def same_rest_def)
qed

lemma focus_L:
  assumes "focus T (LF cp p W # cs) t x"
  shows "tree_at T cs (Nd cp t p W)" and "x \<noteq> rt_root T" and "get_color T x = Some (col t)"
    and "get_parent T x = Some (adr p)" and "get_left T (adr p) = Some x"
    and "get_right T (adr p) = Some (rp (rt_nil T) W)" and "get_color T (adr p) = Some cp"
proof -
  have at: "tree_at T (LF cp p W # cs) t" and x: "x = rp (rt_nil T) t"
    and par: "get_parent T x = Some (adr p)" using assms by (auto simp: focus_def)
  show *: "tree_at T cs (Nd cp t p W)" using at by (simp add: tree_at_move)
  show "x \<noteq> rt_root T" "get_color T x = Some (col t)" using at_not_root [OF at] at_color [OF at] x by simp_all
  show "get_parent T x = Some (adr p)" by (rule par)
  show "get_left T (adr p) = Some x" "get_right T (adr p) = Some (rp (rt_nil T) W)"
    "get_color T (adr p) = Some cp" using at_node [OF *] x by simp_all
qed

lemma focus_R:
  assumes "focus T (RF cp W p # cs) t x"
  shows "tree_at T cs (Nd cp W p t)" and "x \<noteq> rt_root T" and "get_color T x = Some (col t)"
    and "get_parent T x = Some (adr p)" and "get_left T (adr p) = Some (rp (rt_nil T) W)"
    and "get_right T (adr p) = Some x" and "get_color T (adr p) = Some cp"
    and "W \<noteq> Lf \<Longrightarrow> x \<noteq> rp (rt_nil T) W"
proof -
  have at: "tree_at T (RF cp W p # cs) t" and x: "x = rp (rt_nil T) t"
    and par: "get_parent T x = Some (adr p)" using assms by (auto simp: focus_def)
  show *: "tree_at T cs (Nd cp W p t)" using at by (simp add: tree_at_move)
  show "x \<noteq> rt_root T" "get_color T x = Some (col t)" using at_not_root [OF at] at_color [OF at] x by simp_all
  show "get_parent T x = Some (adr p)" by (rule par)
  show "get_left T (adr p) = Some (rp (rt_nil T) W)" "get_right T (adr p) = Some x"
    "get_color T (adr p) = Some cp" using at_node [OF *] x by simp_all
  show "W \<noteq> Lf \<Longrightarrow> x \<noteq> rp (rt_nil T) W" using at_siblings [OF *] x by metis
qed

text \<open>The sibling is red: a rotation gives \<open>x\<close> a black sibling, and the iteration goes on.\<close>

lemma delete_step1_L:
  assumes x: "focus T (LF BLACK p (Nd RED (Nd BLACK A u B) w WR) # cs) t x" and "col t = BLACK"
  shows "\<exists>T'. delete_fixup_loop T x = delete_fixup_loop T' x \<and> same_rest T T' \<and>
           focus T' (LF RED p (Nd BLACK A u B) # LF BLACK w WR # cs) t x"
proof -
  note f = focus_L [OF x]
  obtain T1 where T1: "set_color T (adr w) BLACK = Some T1" "same_rest T T1"
      "tree_at T1 cs (Nd BLACK t p (Nd BLACK (Nd BLACK A u B) w WR))"
    using set_color_at [OF at_down(2) [OF f(1)], of BLACK] by (auto simp: tree_at_move)
  obtain T2 where T2: "set_color T1 (adr p) RED = Some T2" "same_rest T1 T2"
      "tree_at T2 cs (Nd RED t p (Nd BLACK (Nd BLACK A u B) w WR))"
    using set_color_at [OF T1(3), of RED] by blast
  obtain T3 where T3: "rbtree_left_rotate T2 (adr p) = Some T3" "same_rest T2 T3"
      "tree_at T3 cs (Nd BLACK (Nd RED t p (Nd BLACK A u B)) w WR)"
    using left_rotate_at [OF T2(3)] by blast
  have "focus T1 (LF BLACK p (Nd BLACK (Nd BLACK A u B) w WR) # cs) t x"
    by (rule focus_move [OF T1(2) _ x]) (use T1(3) in \<open>simp_all add: tree_at_move\<close>)
  note f1 = focus_L [OF this]
  have "focus T2 (LF RED p (Nd BLACK (Nd BLACK A u B) w WR) # cs) t x"
    by (rule focus_move [OF same_rest_trans [OF T1(2) T2(2)] _ x]) (use T2(3) in \<open>simp_all add: tree_at_move\<close>)
  note f2 = focus_L [OF this]
  have sr: "same_rest T T3" using T1(2) T2(2) T3(2) same_rest_trans by blast
  have x3: "focus T3 (LF RED p (Nd BLACK A u B) # LF BLACK w WR # cs) t x"
    by (rule focus_move [OF sr _ x]) (use T3(3) in \<open>simp_all add: tree_at_move\<close>)
  note f3 = focus_L [OF x3]
  have "delete_fixup_loop T x = delete_fixup_loop T3 x"
    using f(2-7) f1(4) f2(4) f3(2-7) T1(1) T2(1) T3(1) assms(2)
      at_color [OF at_down(2) [OF f(1)]] at_node [OF at_down(2) [OF f3(1)]]
    by (subst (1 2) delete_fixup_loop.simps) simp
  with sr x3 show ?thesis by blast
qed

text \<open>The sibling and its children are black: it becomes red and the loop goes on at the parent.\<close>

lemma delete_step2_L:
  assumes x: "focus T (LF cp p (Nd BLACK WL w WR) # cs) t x" and "col t = BLACK"
    and "col WL = BLACK" "col WR = BLACK"
  shows "\<exists>T'. delete_fixup_loop T x = delete_fixup_loop T' (adr p) \<and> same_rest T T' \<and>
           focus T' cs (Nd cp t p (Nd RED WL w WR)) (adr p)"
proof -
  note f = focus_L [OF x]
  obtain T1 where T1: "set_color T (adr w) RED = Some T1" "same_rest T T1"
      "tree_at T1 cs (Nd cp t p (Nd RED WL w WR))"
    using set_color_at [OF at_down(2) [OF f(1)], of RED] by (auto simp: tree_at_move)
  have "focus T1 (LF cp p (Nd RED WL w WR) # cs) t x"
    by (rule focus_move [OF T1(2) _ x]) (use T1(3) in \<open>simp_all add: tree_at_move\<close>)
  note f1 = focus_L [OF this]
  note w = at_down(2) [OF f(1)]
  have "delete_fixup_loop T x = delete_fixup_loop T1 (adr p)"
    using f(2-7) f1(4) T1(1) assms(2-4) at_node [OF w] at_color [OF at_down(1) [OF w]]
      at_color [OF at_down(2) [OF w]]
    by (subst delete_fixup_loop.simps) simp
  moreover have "focus T1 cs (Nd cp t p (Nd RED WL w WR)) (adr p)"
    using T1(3) at_node(4) [OF T1(3)] by (simp add: focus_def)
  ultimately show ?thesis using T1(2) by blast
qed

text \<open>The sibling's inner child is red and the outer one black: a rotation makes the outer one red.\<close>

lemma delete_step3_L:
  assumes x: "focus T (LF cp p (Nd BLACK (Nd RED A u B) w WR) # cs) t x" and "col t = BLACK"
    and "col WR = BLACK"
  shows "\<exists>T'. delete_fixup_loop T x = delete_fixup_loop T' x \<and> same_rest T T' \<and>
           focus T' (LF cp p (Nd BLACK A u (Nd RED B w WR)) # cs) t x"
proof -
  note f = focus_L [OF x]
  note w = at_down(2) [OF f(1)]
  obtain T1 where T1: "set_color T (adr u) BLACK = Some T1" "same_rest T T1"
      "tree_at T1 cs (Nd cp t p (Nd BLACK (Nd BLACK A u B) w WR))"
    using set_color_at [OF at_down(1) [OF w], of BLACK] by (auto simp: tree_at_move)
  obtain T2 where T2: "set_color T1 (adr w) RED = Some T2" "same_rest T1 T2"
      "tree_at T2 cs (Nd cp t p (Nd RED (Nd BLACK A u B) w WR))"
    using set_color_at [OF at_down(2) [OF T1(3)], of RED] by (auto simp: tree_at_move)
  obtain T3 where T3: "rbtree_right_rotate T2 (adr w) = Some T3" "same_rest T2 T3"
      "tree_at T3 cs (Nd cp t p (Nd BLACK A u (Nd RED B w WR)))"
    using right_rotate_at [OF at_down(2) [OF T2(3)]] by (auto simp: tree_at_move)
  have sr: "same_rest T T3" using T1(2) T2(2) T3(2) same_rest_trans by blast
  have x3: "focus T3 (LF cp p (Nd BLACK A u (Nd RED B w WR)) # cs) t x"
    by (rule focus_move [OF sr _ x]) (use T3(3) in \<open>simp_all add: tree_at_move\<close>)
  note f3 = focus_L [OF x3]
  note u = at_down(2) [OF f3(1)]
  have "delete_fixup_loop T x = delete_fixup_loop T3 x"
    using f(2-7) f3(2-7) T1(1) T2(1) T3(1) assms(2,3) at_node [OF w] at_color [OF at_down(1) [OF w]]
      at_color [OF at_down(2) [OF w]] at_node [OF u] at_color [OF at_down(1) [OF u]]
      at_color [OF at_down(2) [OF u]]
    by (subst (1 2) delete_fixup_loop.simps) simp
  with sr x3 show ?thesis by blast
qed

text \<open>The sibling's outer child is red: a last rotation, and the loop ends at the root.\<close>

lemma delete_step4_L:
  assumes x: "focus T (LF cp p (Nd BLACK WL w (Nd RED C v D)) # cs) t x" and "col t = BLACK"
  shows "\<exists>T'. delete_fixup_loop T x = Some (T', rt_root T') \<and> same_rest T T' \<and>
           tree_at T' cs (Nd cp (Nd BLACK t p WL) w (Nd BLACK C v D))"
proof -
  note f = focus_L [OF x]
  note w = at_down(2) [OF f(1)]
  obtain T1 where T1: "set_color T (adr w) cp = Some T1" "same_rest T T1"
      "tree_at T1 cs (Nd cp t p (Nd cp WL w (Nd RED C v D)))"
    using set_color_at [OF w, of cp] by (auto simp: tree_at_move)
  obtain T2 where T2: "set_color T1 (adr p) BLACK = Some T2" "same_rest T1 T2"
      "tree_at T2 cs (Nd BLACK t p (Nd cp WL w (Nd RED C v D)))"
    using set_color_at [OF T1(3), of BLACK] by blast
  obtain T3 where T3: "set_color T2 (adr v) BLACK = Some T3" "same_rest T2 T3"
      "tree_at T3 cs (Nd BLACK t p (Nd cp WL w (Nd BLACK C v D)))"
    using set_color_at [OF at_down(2) [OF at_down(2) [OF T2(3)]], of BLACK] by (auto simp: tree_at_move)
  obtain T4 where T4: "rbtree_left_rotate T3 (adr p) = Some T4" "same_rest T3 T4"
      "tree_at T4 cs (Nd cp (Nd BLACK t p WL) w (Nd BLACK C v D))"
    using left_rotate_at [OF T3(3)] by blast
  have "get_right T2 (adr w) = Some (adr v)" using at_node(3) [OF at_down(2) [OF T2(3)]] by simp
  then have "delete_fixup_loop T x = delete_fixup_loop T4 (rt_root T4)"
    using f(2-7) T1(1) T2(1) T3(1) T4(1) assms(2) at_node [OF w] at_color [OF at_down(1) [OF w]]
      at_color [OF at_down(2) [OF w]]
    by (subst delete_fixup_loop.simps) simp
  then have "delete_fixup_loop T x = Some (T4, rt_root T4)" by (simp add: delete_fixup_loop.simps)
  moreover have "same_rest T T4" using T1(2) T2(2) T3(2) T4(2) same_rest_trans by blast
  ultimately show ?thesis using T4(3) by blast
qed

text \<open>The mirrored steps, with \<open>x\<close> the right child.\<close>

lemma delete_step1_R:
  assumes x: "focus T (RF BLACK (Nd RED WL w (Nd BLACK B u A)) p # cs) t x" and "col t = BLACK"
  shows "\<exists>T'. delete_fixup_loop T x = delete_fixup_loop T' x \<and> same_rest T T' \<and>
           focus T' (RF RED (Nd BLACK B u A) p # RF BLACK WL w # cs) t x"
proof -
  note f = focus_R [OF x]
  obtain T1 where T1: "set_color T (adr w) BLACK = Some T1" "same_rest T T1"
      "tree_at T1 cs (Nd BLACK (Nd BLACK WL w (Nd BLACK B u A)) p t)"
    using set_color_at [OF at_down(1) [OF f(1)], of BLACK] by (auto simp: tree_at_move)
  obtain T2 where T2: "set_color T1 (adr p) RED = Some T2" "same_rest T1 T2"
      "tree_at T2 cs (Nd RED (Nd BLACK WL w (Nd BLACK B u A)) p t)"
    using set_color_at [OF T1(3), of RED] by blast
  obtain T3 where T3: "rbtree_right_rotate T2 (adr p) = Some T3" "same_rest T2 T3"
      "tree_at T3 cs (Nd BLACK WL w (Nd RED (Nd BLACK B u A) p t))"
    using right_rotate_at [OF T2(3)] by blast
  have "focus T1 (RF BLACK (Nd BLACK WL w (Nd BLACK B u A)) p # cs) t x"
    by (rule focus_move [OF T1(2) _ x]) (use T1(3) in \<open>simp_all add: tree_at_move\<close>)
  note f1 = focus_R [OF this]
  have "focus T2 (RF RED (Nd BLACK WL w (Nd BLACK B u A)) p # cs) t x"
    by (rule focus_move [OF same_rest_trans [OF T1(2) T2(2)] _ x]) (use T2(3) in \<open>simp_all add: tree_at_move\<close>)
  note f2 = focus_R [OF this]
  have sr: "same_rest T T3" using T1(2) T2(2) T3(2) same_rest_trans by blast
  have x3: "focus T3 (RF RED (Nd BLACK B u A) p # RF BLACK WL w # cs) t x"
    by (rule focus_move [OF sr _ x]) (use T3(3) in \<open>simp_all add: tree_at_move\<close>)
  note f3 = focus_R [OF x3]
  have "delete_fixup_loop T x = delete_fixup_loop T3 x"
    using f(2-8) f1(4) f2(4) f3(2-8) T1(1) T2(1) T3(1) assms(2)
      at_color [OF at_down(1) [OF f(1)]] at_node [OF at_down(1) [OF f3(1)]]
    by (subst (1 2) delete_fixup_loop.simps) simp
  with sr x3 show ?thesis by blast
qed

lemma delete_step2_R:
  assumes x: "focus T (RF cp (Nd BLACK WL w WR) p # cs) t x" and "col t = BLACK"
    and "col WR = BLACK" "col WL = BLACK"
  shows "\<exists>T'. delete_fixup_loop T x = delete_fixup_loop T' (adr p) \<and> same_rest T T' \<and>
           focus T' cs (Nd cp (Nd RED WL w WR) p t) (adr p)"
proof -
  note f = focus_R [OF x]
  obtain T1 where T1: "set_color T (adr w) RED = Some T1" "same_rest T T1"
      "tree_at T1 cs (Nd cp (Nd RED WL w WR) p t)"
    using set_color_at [OF at_down(1) [OF f(1)], of RED] by (auto simp: tree_at_move)
  have "focus T1 (RF cp (Nd RED WL w WR) p # cs) t x"
    by (rule focus_move [OF T1(2) _ x]) (use T1(3) in \<open>simp_all add: tree_at_move\<close>)
  note f1 = focus_R [OF this]
  note w = at_down(1) [OF f(1)]
  have "delete_fixup_loop T x = delete_fixup_loop T1 (adr p)"
    using f(2-8) f1(4) T1(1) assms(2-4) at_node [OF w] at_color [OF at_down(2) [OF w]]
      at_color [OF at_down(1) [OF w]]
    by (subst delete_fixup_loop.simps) simp
  moreover have "focus T1 cs (Nd cp (Nd RED WL w WR) p t) (adr p)"
    using T1(3) at_node(4) [OF T1(3)] by (simp add: focus_def)
  ultimately show ?thesis using T1(2) by blast
qed

lemma delete_step3_R:
  assumes x: "focus T (RF cp (Nd BLACK WL w (Nd RED B u A)) p # cs) t x" and "col t = BLACK"
    and "col WL = BLACK"
  shows "\<exists>T'. delete_fixup_loop T x = delete_fixup_loop T' x \<and> same_rest T T' \<and>
           focus T' (RF cp (Nd BLACK (Nd RED WL w B) u A) p # cs) t x"
proof -
  note f = focus_R [OF x]
  note w = at_down(1) [OF f(1)]
  obtain T1 where T1: "set_color T (adr u) BLACK = Some T1" "same_rest T T1"
      "tree_at T1 cs (Nd cp (Nd BLACK WL w (Nd BLACK B u A)) p t)"
    using set_color_at [OF at_down(2) [OF w], of BLACK] by (auto simp: tree_at_move)
  obtain T2 where T2: "set_color T1 (adr w) RED = Some T2" "same_rest T1 T2"
      "tree_at T2 cs (Nd cp (Nd RED WL w (Nd BLACK B u A)) p t)"
    using set_color_at [OF at_down(1) [OF T1(3)], of RED] by (auto simp: tree_at_move)
  obtain T3 where T3: "rbtree_left_rotate T2 (adr w) = Some T3" "same_rest T2 T3"
      "tree_at T3 cs (Nd cp (Nd BLACK (Nd RED WL w B) u A) p t)"
    using left_rotate_at [OF at_down(1) [OF T2(3)]] by (auto simp: tree_at_move)
  have sr: "same_rest T T3" using T1(2) T2(2) T3(2) same_rest_trans by blast
  have x3: "focus T3 (RF cp (Nd BLACK (Nd RED WL w B) u A) p # cs) t x"
    by (rule focus_move [OF sr _ x]) (use T3(3) in \<open>simp_all add: tree_at_move\<close>)
  note f3 = focus_R [OF x3]
  note u = at_down(1) [OF f3(1)]
  have "delete_fixup_loop T x = delete_fixup_loop T3 x"
    using f(2-8) f3(2-8) T1(1) T2(1) T3(1) assms(2,3) at_node [OF w] at_color [OF at_down(2) [OF w]]
      at_color [OF at_down(1) [OF w]] at_node [OF u] at_color [OF at_down(2) [OF u]]
      at_color [OF at_down(1) [OF u]]
    by (subst (1 2) delete_fixup_loop.simps) simp
  with sr x3 show ?thesis by blast
qed

lemma delete_step4_R:
  assumes x: "focus T (RF cp (Nd BLACK (Nd RED D v C) w WR) p # cs) t x" and "col t = BLACK"
  shows "\<exists>T'. delete_fixup_loop T x = Some (T', rt_root T') \<and> same_rest T T' \<and>
           tree_at T' cs (Nd cp (Nd BLACK D v C) w (Nd BLACK WR p t))"
proof -
  note f = focus_R [OF x]
  note w = at_down(1) [OF f(1)]
  obtain T1 where T1: "set_color T (adr w) cp = Some T1" "same_rest T T1"
      "tree_at T1 cs (Nd cp (Nd cp (Nd RED D v C) w WR) p t)"
    using set_color_at [OF w, of cp] by (auto simp: tree_at_move)
  obtain T2 where T2: "set_color T1 (adr p) BLACK = Some T2" "same_rest T1 T2"
      "tree_at T2 cs (Nd BLACK (Nd cp (Nd RED D v C) w WR) p t)"
    using set_color_at [OF T1(3), of BLACK] by blast
  obtain T3 where T3: "set_color T2 (adr v) BLACK = Some T3" "same_rest T2 T3"
      "tree_at T3 cs (Nd BLACK (Nd cp (Nd BLACK D v C) w WR) p t)"
    using set_color_at [OF at_down(1) [OF at_down(1) [OF T2(3)]], of BLACK] by (auto simp: tree_at_move)
  obtain T4 where T4: "rbtree_right_rotate T3 (adr p) = Some T4" "same_rest T3 T4"
      "tree_at T4 cs (Nd cp (Nd BLACK D v C) w (Nd BLACK WR p t))"
    using right_rotate_at [OF T3(3)] by blast
  have "get_left T2 (adr w) = Some (adr v)" using at_node(2) [OF at_down(1) [OF T2(3)]] by simp
  then have "delete_fixup_loop T x = delete_fixup_loop T4 (rt_root T4)"
    using f(2-8) T1(1) T2(1) T3(1) T4(1) assms(2) at_node [OF w] at_color [OF at_down(2) [OF w]]
      at_color [OF at_down(1) [OF w]]
    by (subst delete_fixup_loop.simps) simp
  then have "delete_fixup_loop T x = Some (T4, rt_root T4)" by (simp add: delete_fixup_loop.simps)
  moreover have "same_rest T T4" using T1(2) T2(2) T3(2) T4(2) same_rest_trans by blast
  ultimately show ?thesis using T4(3) by blast
qed

section \<open>The repair loop as a whole\<close>

text \<open>
  Where the loop leaves: at the root, or at a red node; colouring that node black makes the
  tree valid. \<open>t0\<close> is the tree it started from.
\<close>

definition delete_ends :: "rbtree \<Rightarrow> nat \<Rightarrow> ptree \<Rightarrow> bool" where
  "delete_ends T x t0 \<longleftrightarrow> (\<exists>T' cs' t' x'. delete_fixup_loop T x = Some (T', x') \<and> same_rest T T' \<and>
     tree_at T' cs' t' \<and> x' = rp (rt_nil T') t' \<and> infos (plug cs' t') = infos t0 \<and>
     invc2 t' \<and> invh t' \<and> (cs' = [] \<or> col t' = RED \<and> cinv (Suc (bh t')) cs'))"

definition delete_climbs :: "rbtree \<Rightarrow> nat \<Rightarrow> color \<Rightarrow> frame list \<Rightarrow> ptree \<Rightarrow> bool" where
  "delete_climbs T x c cs t0 \<longleftrightarrow> (\<exists>T' t' x'. delete_fixup_loop T x = delete_fixup_loop T' x' \<and>
     same_rest T T' \<and> focus T' cs t' x' \<and> infos t' = infos t0 \<and> col t' = c \<and>
     invc2 t' \<and> invh t' \<and> cinv (Suc (bh t')) cs)"

lemma delete_climbsI:
  "\<exists>T'. delete_fixup_loop T x = delete_fixup_loop T' x' \<and> same_rest T T' \<and> focus T' cs t' x' \<Longrightarrow>
     infos t' = infos t0 \<Longrightarrow> col t' = c \<Longrightarrow> invc2 t' \<Longrightarrow> invh t' \<Longrightarrow> cinv (Suc (bh t')) cs \<Longrightarrow>
     delete_climbs T x c cs t0"
  unfolding delete_climbs_def by blast

lemma delete_endsI4:
  assumes "\<exists>T'. delete_fixup_loop T x = Some (T', rt_root T') \<and> same_rest T T' \<and> tree_at T' cs t'"
    and "infos t' = infos t" and "invc t'" and "invh t'" and "cinv (bh t') cs" and "col t' = RED \<longrightarrow> fcol cs = BLACK"
  shows "delete_ends T x (plug cs t)"
proof -
  obtain T' where T': "delete_fixup_loop T x = Some (T', rt_root T')" "same_rest T T'" "tree_at T' cs t'"
    using assms(1) by blast
  then have "tree_at T' [] (plug cs t')" using tree_at_plug by blast
  moreover have "invc2 (plug cs t')" "invh (plug cs t')"
    using plug_inv [OF assms(3,4,5)] assms(6) by (cases "plug cs t'"; simp)+
  moreover have "infos (plug cs t') = infos (plug cs t)" using assms(2) by (simp add: infos_plug)
  ultimately show ?thesis unfolding delete_ends_def
    using T'(1,2) at_root by (metis plug.simps(1))
qed

lemma delete_ends_step:
  "delete_fixup_loop T x = delete_fixup_loop T1 x1 \<Longrightarrow> same_rest T T1 \<Longrightarrow> infos t1 = infos t0 \<Longrightarrow>
     delete_ends T1 x1 t1 \<Longrightarrow> delete_ends T x t0"
  unfolding delete_ends_def using same_rest_trans by (metis (no_types, lifting))

lemma delete_stop:
  assumes x: "focus T cs t x" and "invc2 t" and "invh t" and "cs = [] \<or> col t = RED \<and> cinv (Suc (bh t)) cs"
  shows "delete_ends T x (plug cs t)"
proof -
  have at: "tree_at T cs t" "x = rp (rt_nil T) t" using x by (simp_all add: focus_def)
  have "delete_fixup_loop T x = Some (T, x)"
  proof (cases "x = rt_root T")
    case False
    with at have "cs \<noteq> []" using at_root by auto
    with assms(4) at_color [OF at(1)] at(2) show ?thesis
      by (subst delete_fixup_loop.simps) simp
  qed (simp add: delete_fixup_loop.simps)
  then show ?thesis unfolding delete_ends_def using at assms(2-4) same_rest_refl by blast
qed

text \<open>One iteration with a black sibling: it ends the loop or moves it to the parent.\<close>

lemma delete_outer_L:
  assumes x: "focus T (LF cp p (Nd BLACK WL w (Nd RED C v D)) # cs) t x" and t: "col t = BLACK" "invc2 t" "invh t"
    and inv: "cinv (Suc (bh t)) (LF cp p (Nd BLACK WL w (Nd RED C v D)) # cs)"
  shows "delete_ends T x (plug cs (Nd cp t p (Nd BLACK WL w (Nd RED C v D))))"
  by (rule delete_endsI4 [OF delete_step4_L [OF x t(1)]])
    (use t inv invc2_black [OF t(2,1)] in \<open>auto split: if_splits\<close>)

lemma delete_iter_L:
  assumes x: "focus T (LF cp p W # cs) t x" and t: "col t = BLACK" "invc2 t" "invh t"
    and inv: "cinv (Suc (bh t)) (LF cp p W # cs)" and "col W = BLACK"
  shows "delete_ends T x (plug (LF cp p W # cs) t) \<or> delete_climbs T x cp cs (Nd cp t p W)"
proof -
  have ct: "invc t" by (rule invc2_black [OF t(2,1)])
  obtain WL w WR where W: "W = Nd BLACK WL w WR" using inv assms(6) by (cases W) auto
  note x' = x [unfolded W] and inv' = inv [unfolded W]
  show ?thesis
  proof (cases "col WR")
    case RED
    then obtain C v D where WR: "WR = Nd RED C v D" by (cases WR) auto
    show ?thesis using delete_outer_L [OF x' [unfolded WR] t inv' [unfolded WR]] by (simp add: W WR)
  next
    case bR: BLACK
    show ?thesis
    proof (cases "col WL")
      case BLACK
      have "delete_climbs T x cp cs (Nd cp t p W)"
        by (rule delete_climbsI [OF delete_step2_L [OF x' t(1) BLACK bR]]) (use inv' BLACK bR t ct W in auto)
      then show ?thesis ..
    next
      case RED
      then obtain A u B where WL: "WL = Nd RED A u B" by (cases WL) auto
      obtain T1 where T1: "delete_fixup_loop T x = delete_fixup_loop T1 x" "same_rest T T1"
          "focus T1 (LF cp p (Nd BLACK A u (Nd RED B w WR)) # cs) t x"
        using delete_step3_L [OF x' [unfolded WL] t(1) bR] by blast
      have "delete_ends T1 x (plug cs (Nd cp t p (Nd BLACK A u (Nd RED B w WR))))"
        by (rule delete_outer_L [OF T1(3) t]) (use inv' bR WL in auto)
      from delete_ends_step [OF T1(1,2) _ this] show ?thesis by (simp add: infos_plug W WL)
    qed
  qed
qed

lemma delete_outer_R:
  assumes x: "focus T (RF cp (Nd BLACK (Nd RED D v C) w WR) p # cs) t x" and t: "col t = BLACK" "invc2 t" "invh t"
    and inv: "cinv (Suc (bh t)) (RF cp (Nd BLACK (Nd RED D v C) w WR) p # cs)"
  shows "delete_ends T x (plug cs (Nd cp (Nd BLACK (Nd RED D v C) w WR) p t))"
  by (rule delete_endsI4 [OF delete_step4_R [OF x t(1)]])
    (use t inv invc2_black [OF t(2,1)] in \<open>auto split: if_splits\<close>)

lemma delete_iter_R:
  assumes x: "focus T (RF cp W p # cs) t x" and t: "col t = BLACK" "invc2 t" "invh t"
    and inv: "cinv (Suc (bh t)) (RF cp W p # cs)" and "col W = BLACK"
  shows "delete_ends T x (plug (RF cp W p # cs) t) \<or> delete_climbs T x cp cs (Nd cp W p t)"
proof -
  have ct: "invc t" by (rule invc2_black [OF t(2,1)])
  obtain WR w WL where W: "W = Nd BLACK WL w WR" using inv assms(6) by (cases W) auto
  note x' = x [unfolded W] and inv' = inv [unfolded W]
  show ?thesis
  proof (cases "col WL")
    case RED
    then obtain C v D where WL: "WL = Nd RED D v C" by (cases WL) auto
    show ?thesis using delete_outer_R [OF x' [unfolded WL] t inv' [unfolded WL]] by (simp add: W WL)
  next
    case bL: BLACK
    show ?thesis
    proof (cases "col WR")
      case BLACK
      have "delete_climbs T x cp cs (Nd cp W p t)"
        by (rule delete_climbsI [OF delete_step2_R [OF x' t(1) BLACK bL]]) (use inv' BLACK bL t ct W in auto)
      then show ?thesis ..
    next
      case RED
      then obtain A u B where WR: "WR = Nd RED B u A" by (cases WR) auto
      obtain T1 where T1: "delete_fixup_loop T x = delete_fixup_loop T1 x" "same_rest T T1"
          "focus T1 (RF cp (Nd BLACK (Nd RED WL w B) u A) p # cs) t x"
        using delete_step3_R [OF x' [unfolded WR] t(1) bL] by blast
      have "delete_ends T1 x (plug cs (Nd cp (Nd BLACK (Nd RED WL w B) u A) p t))"
        by (rule delete_outer_R [OF T1(3) t]) (use inv' bL WR in auto)
      from delete_ends_step [OF T1(1,2) _ this] show ?thesis by (simp add: infos_plug W WR)
    qed
  qed
qed

text \<open>
  The whole loop, by induction on the distance to the root. After the rotation that removes a
  red sibling the parent is red, so that the loop ends when it moves there.
\<close>

lemma delete_climbs_step:
  assumes "delete_climbs T x c cs t0"
    and "\<And>T' t' x'. same_rest T T' \<Longrightarrow> focus T' cs t' x' \<Longrightarrow> col t' = c \<Longrightarrow> invc2 t' \<Longrightarrow> invh t' \<Longrightarrow>
           cinv (Suc (bh t')) cs \<Longrightarrow> delete_ends T' x' (plug cs t')"
  shows "delete_ends T x (plug cs t0)"
proof -
  obtain T' t' x' where "delete_fixup_loop T x = delete_fixup_loop T' x'" "same_rest T T'" "focus T' cs t' x'"
      "infos t' = infos t0" "col t' = c" "invc2 t'" "invh t'" "cinv (Suc (bh t')) cs"
    using assms(1) unfolding delete_climbs_def by blast
  then show ?thesis using assms(2) by (intro delete_ends_step [of T x T' x' "plug cs t'"]) (simp_all add: infos_plug)
qed

lemma delete_red_L:
  assumes x: "focus T (LF cp p W # cs) t x" and t: "col t = BLACK" "invc2 t" "invh t"
    and inv: "cinv (Suc (bh t)) (LF cp p W # cs)" and "col W = RED"
  shows "delete_ends T x (plug (LF cp p W # cs) t)"
proof -
  obtain A u B w WR where W: "W = Nd RED (Nd BLACK A u B) w WR" and cp: "cp = BLACK"
    using inv assms(6) by (cases W; cases "case W of Nd c l a r \<Rightarrow> l") auto
  let ?cs = "LF BLACK w WR # cs"
  obtain T1 where T1: "delete_fixup_loop T x = delete_fixup_loop T1 x" "same_rest T T1"
      "focus T1 (LF RED p (Nd BLACK A u B) # ?cs) t x"
    using delete_step1_L [OF x [unfolded W cp] t(1)] by blast
  have "cinv (Suc (bh t)) (LF RED p (Nd BLACK A u B) # ?cs)" using inv W cp by auto
  from delete_iter_L [OF T1(3) t this]
  have "delete_ends T1 x (plug (LF RED p (Nd BLACK A u B) # ?cs) t)"
    using delete_climbs_step [of T1 x RED ?cs "Nd RED t p (Nd BLACK A u B)"] delete_stop
    by (metis col.simps(2) plug.simps(2) plug1.simps(1))
  from delete_ends_step [OF T1(1,2) _ this] show ?thesis by (simp add: infos_plug W)
qed

lemma delete_red_R:
  assumes x: "focus T (RF cp W p # cs) t x" and t: "col t = BLACK" "invc2 t" "invh t"
    and inv: "cinv (Suc (bh t)) (RF cp W p # cs)" and "col W = RED"
  shows "delete_ends T x (plug (RF cp W p # cs) t)"
proof -
  obtain A u B w WL where W: "W = Nd RED WL w (Nd BLACK B u A)" and cp: "cp = BLACK"
    using inv assms(6) by (cases W; cases "case W of Nd c l a r \<Rightarrow> r") auto
  let ?cs = "RF BLACK WL w # cs"
  obtain T1 where T1: "delete_fixup_loop T x = delete_fixup_loop T1 x" "same_rest T T1"
      "focus T1 (RF RED (Nd BLACK B u A) p # ?cs) t x"
    using delete_step1_R [OF x [unfolded W cp] t(1)] by blast
  have "cinv (Suc (bh t)) (RF RED (Nd BLACK B u A) p # ?cs)" using inv W cp by auto
  from delete_iter_R [OF T1(3) t this]
  have "delete_ends T1 x (plug (RF RED (Nd BLACK B u A) p # ?cs) t)"
    using delete_climbs_step [of T1 x RED ?cs "Nd RED (Nd BLACK B u A) p t"] delete_stop
    by (metis col.simps(2) plug.simps(2) plug1.simps(2))
  from delete_ends_step [OF T1(1,2) _ this] show ?thesis by (simp add: infos_plug W)
qed

lemma delete_fixup_loop_at:
  assumes "focus T cs t x" and "invc2 t" and "invh t" and "cinv (Suc (bh t)) cs"
  shows "delete_ends T x (plug cs t)"
  using assms
proof (induction cs arbitrary: T t x)
  case Nil
  then show ?case using delete_stop by blast
next
  case (Cons f cs)
  show ?case
  proof (cases "col t")
    case RED
    then show ?thesis using delete_stop [OF Cons.prems(1-3)] Cons.prems(4) by blast
  next
    case t: BLACK
    have climb: "delete_ends T x (plug cs t0)" if "delete_climbs T x c cs t0" for c t0
      by (rule delete_climbs_step [OF that]) (rule Cons.IH)
    show ?thesis
    proof (cases f)
      case (LF cp p W)
      note x = Cons.prems(1) [unfolded LF] and inv = Cons.prems(4) [unfolded LF]
      show ?thesis
        using delete_red_L [OF x t Cons.prems(2,3) inv] delete_iter_L [OF x t Cons.prems(2,3) inv] climb
        by (cases "col W") (auto simp: LF)
    next
      case (RF cp W p)
      note x = Cons.prems(1) [unfolded RF] and inv = Cons.prems(4) [unfolded RF]
      show ?thesis
        using delete_red_R [OF x t Cons.prems(2,3) inv] delete_iter_R [OF x t Cons.prems(2,3) inv] climb
        by (cases "col W") (auto simp: RF)
    qed
  qed
qed

lemma set_color_nil:
  "tree_at T cs t \<Longrightarrow> set_color T (rt_nil T) BLACK = Some T"
  by (auto simp: tree_at_def upd_node_def intro!: rbtree.equality rbtree_node.equality ext)

lemma delete_fixup_at:
  assumes "focus T cs t x" and "invc t" and "invh t" and "cinv (Suc (bh t)) cs"
  shows "\<exists>T' t'. rbtree_delete_fixup T x = Some T' \<and> same_rest T T' \<and> tree_at T' [] t' \<and>
           infos t' = infos (plug cs t) \<and> rb_ok t'"
proof -
  have "invc2 t" using assms(2) by (cases t) auto
  from delete_fixup_loop_at [OF assms(1) this assms(3,4)] obtain T1 cs1 t1 where
    T1: "delete_fixup_loop T x = Some (T1, rp (rt_nil T1) t1)" "same_rest T T1" "tree_at T1 cs1 t1"
      "infos (plug cs1 t1) = infos (plug cs t)" "invc2 t1" "invh t1"
      "cs1 = [] \<or> col t1 = RED \<and> cinv (Suc (bh t1)) cs1"
    unfolding delete_ends_def by blast
  show ?thesis
  proof (cases t1)
    case Lf
    then show ?thesis using T1 set_color_nil [OF T1(3)]
      by (intro exI [of _ T1] exI [of _ Lf]) (auto simp: rbtree_delete_fixup_def rb_ok_def)
  next
    case (Nd c l a r)
    let ?t = "Nd BLACK l a r"
    obtain T2 where T2: "set_color T1 (adr a) BLACK = Some T2" "same_rest T1 T2" "tree_at T2 cs1 ?t"
      using set_color_at [OF T1(3) [unfolded Nd]] by blast
    have "rb_ok (plug cs1 ?t)" using plug_inv [of ?t cs1] T1(5-7) Nd by (auto simp: rb_ok_def)
    moreover have "tree_at T2 [] (plug cs1 ?t)" using T2(3) tree_at_plug by blast
    moreover have "infos (plug cs1 ?t) = infos (plug cs t)" using T1(4) Nd by (simp add: infos_plug)
    ultimately show ?thesis
      using T1(1) T2(1) Nd same_rest_trans [OF T1(2) T2(2)] by (auto simp: rbtree_delete_fixup_def)
  qed
qed

section \<open>Splicing a node out\<close>

text \<open>What deletion leaves alone; the parent field of the sentinel changes.\<close>

definition same_meta :: "rbtree \<Rightarrow> rbtree \<Rightarrow> bool" where
  "same_meta T T' \<longleftrightarrow> rt_nil T' = rt_nil T \<and> rt_count T' = rt_count T \<and> rt_brk T' = rt_brk T \<and>
     get_left T' (rt_nil T) = get_left T (rt_nil T)"

lemma same_meta_trans: "same_meta T T' \<Longrightarrow> same_meta T' T'' \<Longrightarrow> same_meta T T''"
  by (simp add: same_meta_def)

lemma same_rest_meta: "same_rest T T' \<Longrightarrow> same_meta T T'"
  by (simp add: same_rest_def same_meta_def get_left_def)

definition splice_out :: "rbtree \<Rightarrow> nat \<Rightarrow> nat \<Rightarrow> rbtree option" where
  "splice_out T y x =
     do { yp \<leftarrow> get_parent T y;
          T \<leftarrow> set_parent T x yp;
          yp \<leftarrow> get_parent T y;
          if yp = rt_nil T then Some (T\<lparr>rt_root := x\<rparr>)
          else do { l \<leftarrow> get_left T yp; if y = l then set_left T yp x else set_right T yp x }}"

text \<open>The subtree that takes the place of a node with at most one child.\<close>

abbreviation only_child :: "ptree \<Rightarrow> ptree \<Rightarrow> ptree" where
  "only_child l r \<equiv> if l = Lf then r else l"

lemma splice_out_at:
  assumes at: "tree_at T cs (Nd c l y r)" and one: "l = Lf \<or> r = Lf"
  shows "\<exists>T'. splice_out T (adr y) (rp (rt_nil T) (only_child l r)) = Some T' \<and> same_meta T T' \<and>
           focus T' cs (only_child l r) (rp (rt_nil T) (only_child l r)) \<and>
           rt_heap T' (adr y) = rt_heap T (adr y)"
proof -
  obtain t where t: "only_child l r = t" "t = l \<or> t = r" by (cases "l = Lf") auto
  have "\<exists>T'. splice_out T (adr y) (rp (rt_nil T) t) = Some T' \<and> same_meta T T' \<and>
      focus T' cs t (rp (rt_nil T) t) \<and> rt_heap T' (adr y) = rt_heap T (adr y)"
  proof (cases cs)
    case Nil
    show ?thesis using at t(2) unfolding tree_at_def Nil
      by (cases t) (auto simp: splice_out_def heap_defs same_meta_def focus_def tree_at_def disj_simps)
  next
    case (Cons f cs')
    show ?thesis using at t(2) unfolding tree_at_def Cons
      by (cases t; cases f) (auto simp: splice_out_def heap_defs same_meta_def focus_def tree_at_def disj_simps)
  qed
  with t(1) show ?thesis by simp
qed

section \<open>The exchange with the successor\<close>

definition exchange :: "rbtree \<Rightarrow> nat \<Rightarrow> nat \<Rightarrow> rbtree option" where
  "exchange T z y =
     do { zk \<leftarrow> get_key T z; yk \<leftarrow> get_key T y;
          T \<leftarrow> set_key T z yk; T \<leftarrow> set_key T y zk;
          zv \<leftarrow> get_value T z; yv \<leftarrow> get_value T y;
          T \<leftarrow> set_value T z yv; set_value T y zv }"

lemma rbtree_delete_alt:
  "rbtree_delete T z =
     do { zl \<leftarrow> get_left T z;
          zr \<leftarrow> get_right T z;
          y \<leftarrow> (if zl = rt_nil T \<or> zr = rt_nil T then Some z else rbtree_successor T z);
          yl \<leftarrow> get_left T y;
          yr \<leftarrow> get_right T y;
          let x = (if yl \<noteq> rt_nil T then yl else if yr \<noteq> rt_nil T then yr else rt_nil T);
          T \<leftarrow> splice_out T y x;
          T \<leftarrow> (if y \<noteq> z then exchange T z y else Some T);
          yc \<leftarrow> get_color T y;
          T \<leftarrow> (if yc = BLACK then rbtree_delete_fixup T x else Some T);
          Some (y, T) }"
  unfolding rbtree_delete_def splice_out_def exchange_def by (simp add: Let_def)

text \<open>A frame whose node got another key and value.\<close>

lemma cinv_info: "cinv b (cs1 @ RF c l a # cs) = cinv b (cs1 @ RF c l a' # cs)"
proof (induction cs1 arbitrary: b)
  case (Cons f cs1)
  have "fcol (cs1 @ RF c l a # cs) = fcol (cs1 @ RF c l a' # cs)" by (cases cs1 rule: fcol.cases) auto
  with Cons show ?case by (cases f) auto
qed simp

lemma ctop_info: "adr a' = adr a \<Longrightarrow> ctop n (cs1 @ RF c l a # cs) = ctop n (cs1 @ RF c l a' # cs)"
  by (cases cs1 rule: fcol.cases) auto

lemma exchange_at:
  assumes x: "focus T (cs1 @ RF c l z # cs) t x"
    and y: "rt_heap T (adr y) = Some (node cy y yl yr yp)" "adr y \<notin> ptrs (plug (cs1 @ RF c l z # cs) t)" "adr y \<noteq> rt_nil T"
  shows "\<exists>T'. exchange T (adr z) (adr y) = Some T' \<and> same_rest T T' \<and> get_color T' (adr y) = Some cy \<and>
           focus T' (cs1 @ RF c l (adr z, snd y) # cs) t x"
proof -
  let ?r = "plug cs1 t"
  have at: "tree_at T cs (Nd c l z ?r)"
    using x tree_at_plug [of T "cs1 @ RF c l z # cs"] tree_at_plug [of T cs] by (simp add: focus_def)
  have ny: "adr y \<notin> cptrs cs" "adr y \<notin> ptrs l" "adr y \<notin> ptrs ?r" "adr y \<noteq> adr z"
    using y(2) by (auto simp: ptrs_plug)
  obtain T' where T': "exchange T (adr z) (adr y) = Some T'" "same_rest T T'" "get_color T' (adr y) = Some cy"
      "tree_at T' cs (Nd c l (adr z, snd y) ?r)"
    using at y ny by (auto simp: tree_at_def exchange_def heap_defs same_rest_def node_def)
  have "tree_at T' (cs1 @ RF c l (adr z, snd y) # cs) t"
    using T'(4) tree_at_plug [of T' "cs1 @ RF c l (adr z, snd y) # cs"] tree_at_plug [of T' cs] by simp
  from focus_move [OF T'(2) this x] T'(1-3) show ?thesis
    using ctop_info [of "(adr z, snd y)" z "rt_nil T" cs1 c l cs] by auto
qed

lemma rbtree_mini_at:
  assumes "tree_at T cs (Nd c l a r)"
  shows "\<exists>cs1 c' y r'. rbtree_mini T (adr a) = Some (adr y) \<and> plug cs1 (Nd c' Lf y r') = Nd c l a r \<and>
           lpart cs1 = []"
  using assms
proof (induction l arbitrary: cs c a r)
  case Lf
  then show ?case using at_node [OF Lf]
    by (intro exI [of _ "[]"] exI [of _ c] exI [of _ a] exI [of _ r]) (simp add: rbtree_mini.simps)
next
  case (Nd c1 l1 a1 r1)
  obtain cs1 c' y r' where *: "rbtree_mini T (adr a1) = Some (adr y)" "plug cs1 (Nd c' Lf y r') = Nd c1 l1 a1 r1"
      "lpart cs1 = []"
    using Nd.IH(1) [OF at_down(1) [OF Nd.prems]] by blast
  have "rbtree_mini T (adr a) = Some (adr y)"
    using * at_node [OF Nd.prems] at_node [OF at_down(1) [OF Nd.prems]] by (subst rbtree_mini.simps) simp
  with * show ?case
    by (intro exI [of _ "cs1 @ [LF c a r]"] exI [of _ c'] exI [of _ y] exI [of _ r']) auto
qed

section \<open>Deletion\<close>

text \<open>The end of \<open>rbtree_delete\<close>: repair when the node that left was black.\<close>

lemma delete_tail_at:
  assumes x: "focus T cs (only_child l r) x" and one: "l = Lf \<or> r = Lf"
    and inv: "invc (Nd c l y r)" "invh (Nd c l y r)" "cinv (bh (Nd c l y r)) cs"
  shows "\<exists>T' t'. (if c = BLACK then rbtree_delete_fixup T x else Some T) = Some T' \<and> same_meta T T' \<and>
           tree_at T' [] t' \<and> infos t' = infos (plug cs (only_child l r)) \<and> rb_ok t'"
proof (cases c)
  case BLACK
  have "invc (only_child l r)" "invh (only_child l r)" "cinv (Suc (bh (only_child l r))) cs"
    using inv one BLACK by auto
  from delete_fixup_at [OF x this] show ?thesis using BLACK same_rest_meta by auto
next
  case RED
  then have "l = Lf" "r = Lf" using inv one by (cases l; cases r; auto)+
  with inv RED plug_inv [of Lf cs] have "rb_ok (plug cs Lf)" by (simp add: rb_ok_def)
  moreover have "tree_at T [] (plug cs Lf)"
    using x tree_at_plug \<open>l = Lf\<close> \<open>r = Lf\<close> by (auto simp: focus_def)
  ultimately show ?thesis using RED \<open>l = Lf\<close> \<open>r = Lf\<close> by (auto simp: same_meta_def)
qed

lemma focus_x:
  "tree_at T cs (Nd c l y r) \<Longrightarrow> l = Lf \<or> r = Lf \<Longrightarrow>
     (if rp (rt_nil T) l \<noteq> rt_nil T then rp (rt_nil T) l
      else if rp (rt_nil T) r \<noteq> rt_nil T then rp (rt_nil T) r else rt_nil T) =
     rp (rt_nil T) (only_child l r)"
  by (cases l; cases r) (auto simp: tree_at_def)

lemma at_leaf: "tree_at T cs t \<Longrightarrow> rp (rt_nil T) t = rt_nil T \<longleftrightarrow> t = Lf"
  by (cases t) (auto simp: tree_at_def)

lemma rbtree_delete_self:
  assumes at: "tree_at T cs (Nd c l z r)" and one: "l = Lf \<or> r = Lf" and ok: "rb_ok (plug cs (Nd c l z r))"
  shows "\<exists>T' t'. rbtree_delete T (adr z) = Some (adr z, T') \<and> same_meta T T' \<and> tree_at T' [] t' \<and> rb_ok t' \<and>
           infos t' = lpart cs @ infos l @ infos r @ rpart cs"
proof -
  let ?x = "rp (rt_nil T) (only_child l r)"
  obtain T1 where T1: "splice_out T (adr z) ?x = Some T1" "same_meta T T1"
      "focus T1 cs (only_child l r) ?x" "rt_heap T1 (adr z) = rt_heap T (adr z)"
    using splice_out_at [OF at one] by blast
  have c: "get_color T1 (adr z) = Some c" using at_node(1) [OF at] T1(4) by (simp add: get_color_def)
  have inv: "invc (Nd c l z r)" "invh (Nd c l z r)" "cinv (bh (Nd c l z r)) cs"
    using plug_inv_rev [of cs "Nd c l z r"] ok unfolding rb_ok_def by blast+
  obtain T' t' where T': "(if c = BLACK then rbtree_delete_fixup T1 ?x else Some T1) = Some T'"
      "same_meta T1 T'" "tree_at T' [] t'" "infos t' = infos (plug cs (only_child l r))" "rb_ok t'"
    using delete_tail_at [OF T1(3) one inv] by blast
  have "rbtree_delete T (adr z) = Some (adr z, T')"
    unfolding rbtree_delete_alt
    using at_node [OF at] one T1(1) c T'(1) focus_x [OF at one] by (auto simp: Let_def)
  moreover have "infos t' = lpart cs @ infos l @ infos r @ rpart cs" using T'(4) one by (auto simp: infos_plug)
  ultimately show ?thesis using T' same_meta_trans [OF T1(2)] by blast
qed

lemma rbtree_delete_succ:
  assumes at: "tree_at T cs (Nd c l z r)" and two: "l \<noteq> Lf" "r \<noteq> Lf" and ok: "rb_ok (plug cs (Nd c l z r))"
  shows "\<exists>y T' t' rest. rbtree_delete T (adr z) = Some (adr y, T') \<and> adr y \<noteq> rt_nil T \<and> same_meta T T' \<and>
           tree_at T' [] t' \<and> rb_ok t' \<and> infos r = y # rest \<and>
           infos t' = lpart cs @ infos l @ (adr z, snd y) # rest @ rpart cs"
proof -
  obtain cr rl b rr where r: "r = Nd cr rl b rr" using two(2) by (cases r) auto
  obtain cs1 cy y yr where y: "rbtree_mini T (adr b) = Some (adr y)" "plug cs1 (Nd cy Lf y yr) = r" "lpart cs1 = []"
    using rbtree_mini_at [OF at_down(2) [OF at [unfolded r]]] r by auto
  let ?cs = "cs1 @ RF c l z # cs" and ?cs' = "cs1 @ RF c l (adr z, snd y) # cs"
  have whole: "plug ?cs (Nd cy Lf y yr) = plug cs (Nd c l z r)" using y(2) by simp
  have aty: "tree_at T ?cs (Nd cy Lf y yr)"
    using at whole tree_at_plug [of T cs] tree_at_plug [of T ?cs] by metis
  let ?x = "rp (rt_nil T) yr"
  obtain T1 where T1: "splice_out T (adr y) ?x = Some T1" "same_meta T T1" "focus T1 ?cs yr ?x"
      "rt_heap T1 (adr y) = rt_heap T (adr y)"
    using splice_out_at [OF aty] by auto
  have "adr y \<notin> cptrs ?cs" "adr y \<notin> ptrs yr" "adr z \<in> cptrs ?cs"
    using aty by (auto simp: tree_at_def cptrs_parts)
  then have hy: "rt_heap T1 (adr y) = Some (node cy y (rt_nil T) ?x (ctop (rt_nil T) ?cs))"
      "adr y \<noteq> rt_nil T" "adr y \<notin> ptrs (plug ?cs yr)" "adr y \<noteq> adr z"
    using aty T1(4) unfolding ptrs_plug by (auto simp: tree_at_def)
  obtain T2 where T2: "exchange T1 (adr z) (adr y) = Some T2" "same_rest T1 T2" "get_color T2 (adr y) = Some cy"
      "focus T2 ?cs' yr ?x"
    using exchange_at [OF T1(3) hy(1,3)] hy(2) T1(2) by (auto simp: same_meta_def)
  have inv: "invc (Nd cy Lf y yr)" "invh (Nd cy Lf y yr)" "cinv (bh (Nd cy Lf y yr)) ?cs'"
    using plug_inv_rev [of ?cs "Nd cy Lf y yr"] ok
    unfolding whole rb_ok_def cinv_info [of _ cs1 c l z cs "(adr z, snd y)"] by blast+
  obtain T' t' where T': "(if cy = BLACK then rbtree_delete_fixup T2 ?x else Some T2) = Some T'"
      "same_meta T2 T'" "tree_at T' [] t'" "infos t' = infos (plug ?cs' yr)" "rb_ok t'"
    using delete_tail_at [of T2 ?cs' Lf yr ?x, OF _ _ inv] T2(4) unfolding if_P [OF refl] by blast
  have "rbtree_delete T (adr z) = Some (adr y, T')"
    unfolding rbtree_delete_alt
    using at_node [OF at] two at_leaf [OF at_down(1) [OF at]] at_leaf [OF at_down(2) [OF at]]
      at_node [OF aty] T1(1) T2(1,3) T'(1) focus_x [OF aty] y(1) hy(4)
    by (auto simp: Let_def rbtree_successor_def r)
  moreover have "infos r = y # infos yr @ rpart cs1" using y(2,3) infos_plug [of cs1 "Nd cy Lf y yr"] by simp
  moreover have "infos t' = lpart cs @ infos l @ (adr z, snd y) # (infos yr @ rpart cs1) @ rpart cs"
    using T'(4) y(3) by (simp add: infos_plug)
  ultimately show ?thesis
    using T'(3,5) hy(2) same_meta_trans [OF T1(2) same_meta_trans [OF same_rest_meta [OF T2(2)] T'(2)]] by blast
qed

text \<open>
  Both cases: the binding of \<open>z\<close> is gone, every other one is kept in place, and no new address
  is used. In the second case it is another node that left the tree.
\<close>

lemma rbtree_delete_at:
  assumes at: "tree_at T cs (Nd c l z r)" and ok: "rb_ok (plug cs (Nd c l z r))"
  shows "\<exists>y T' t'. rbtree_delete T (adr z) = Some (y, T') \<and> y \<noteq> rt_nil T \<and> same_meta T T' \<and>
           tree_at T' [] t' \<and> rb_ok t' \<and>
           map snd (infos t') = map snd (lpart cs @ infos l @ infos r @ rpart cs) \<and>
           ptrs t' \<subseteq> ptrs (plug cs (Nd c l z r))"
proof (cases "l = Lf \<or> r = Lf")
  case True
  from rbtree_delete_self [OF at True ok] obtain T' t' where
    "rbtree_delete T (adr z) = Some (adr z, T')" "same_meta T T'" "tree_at T' [] t'" "rb_ok t'"
    "infos t' = lpart cs @ infos l @ infos r @ rpart cs" by blast
  then show ?thesis using at_node(7) [OF at]
    by (intro exI [of _ "adr z"] exI [of _ T'] exI [of _ t']) (auto simp: ptrs_infos infos_plug)
next
  case False
  from rbtree_delete_succ [OF at _ _ ok] False obtain y T' t' rest where
    "rbtree_delete T (adr z) = Some (adr y, T')" "adr y \<noteq> rt_nil T" "same_meta T T'" "tree_at T' [] t'"
    "rb_ok t'" "infos r = y # rest" "infos t' = lpart cs @ infos l @ (adr z, snd y) # rest @ rpart cs" by blast
  then show ?thesis
    by (intro exI [of _ "adr y"] exI [of _ T'] exI [of _ t']) (auto simp: ptrs_infos infos_plug)
qed

end
