(* ===== verification/Kvs_Rbtree.thy ===== *)
theory Kvs_Rbtree
  imports Rb_Delete
begin

text \<open>
  The red-black engine of \<open>kvstore_rbtree.c\<close> as a store: its invariant, the map it holds, the
  interpretation of the engine interface, and what the operations do beyond that interface
  (the order of the traversal, the height of the tree, the counter, failed allocations,
  destruction).
\<close>

section \<open>Search and traversal\<close>

lemma search_found:
  assumes "tree_at T cs t" and "bst t" and "k \<in> key_of ` set (infos t)"
  shows "\<exists>cs' c l a r. search_loop T k (rp (rt_nil T) t) = Some (adr a) \<and> key_of a = k \<and>
           plug cs' (Nd c l a r) = t"
  using assms
proof (induction t arbitrary: cs)
  case (Nd c l a r)
  note at = Nd.prems(1)
  consider "k < key_of a" | "key_of a < k" | "k = key_of a" by force
  then show ?case
  proof cases
    case 1
    then have "k \<in> key_of ` set (infos l)" using Nd.prems by force
    then obtain cs' c' l' a' r' where "search_loop T k (rp (rt_nil T) l) = Some (adr a')" "key_of a' = k"
        "plug cs' (Nd c' l' a' r') = l"
      using Nd.IH(1) [OF at_down(1) [OF at]] Nd.prems by auto
    then show ?thesis using at_node [OF at] 1
      by (intro exI [of _ "cs' @ [LF c a r]"] exI [of _ c'] exI [of _ l'] exI [of _ a'] exI [of _ r'])
        (auto simp: search_loop.simps [of _ _ "adr a"])
  next
    case 2
    then have "k \<in> key_of ` set (infos r)" using Nd.prems by force
    then obtain cs' c' l' a' r' where "search_loop T k (rp (rt_nil T) r) = Some (adr a')" "key_of a' = k"
        "plug cs' (Nd c' l' a' r') = r"
      using Nd.IH(2) [OF at_down(2) [OF at]] Nd.prems by auto
    then show ?thesis using at_node [OF at] 2 order.asym [OF 2]
      by (intro exI [of _ "cs' @ [RF c l a]"] exI [of _ c'] exI [of _ l'] exI [of _ a'] exI [of _ r'])
        (auto simp: search_loop.simps [of _ _ "adr a"])
  next
    case 3
    then show ?thesis using at_node [OF at]
      by (intro exI [of _ "[]"] exI [of _ c] exI [of _ l] exI [of _ a] exI [of _ r])
        (auto simp: search_loop.simps [of _ _ "adr a"])
  qed
qed simp

lemma search_missing:
  assumes "tree_at T cs t" and "k \<notin> key_of ` set (infos t)"
  shows "search_loop T k (rp (rt_nil T) t) = Some (rt_nil T)"
  using assms
proof (induction t arbitrary: cs)
  case (Nd c l a r)
  note at = Nd.prems(1)
  have "k \<noteq> key_of a" using Nd.prems(2) by auto
  then show ?case
    using at_node [OF at] Nd.prems(2) Nd.IH(1) [OF at_down(1) [OF at]] Nd.IH(2) [OF at_down(2) [OF at]]
    by (subst search_loop.simps) (auto simp: not_less_iff_gr_or_eq)
qed (simp add: search_loop.simps)

lemma rbtree_search_root:
  "tree_at T [] t \<Longrightarrow> rbtree_search T (Str k) = search_loop T k (rp (rt_nil T) t)"
  using at_root [of T t] by (simp add: rbtree_search_def search_loop.simps)

fun lines :: "ptree \<Rightarrow> (string \<times> color) list" where
  "lines Lf = []"
| "lines (Nd c l a r) = lines l @ (key_of a, c) # lines r"

lemma lines_keys: "map fst (lines t) = map key_of (infos t)"
  by (induction t) auto

lemma traversal_at: "tree_at T cs t \<Longrightarrow> rbtree_traversal T (rp (rt_nil T) t) = Some (lines t)"
proof (induction t arbitrary: cs)
  case (Nd c l a r)
  then show ?case
    using at_node [OF Nd.prems] Nd.IH(1) [OF at_down(1) [OF Nd.prems]] Nd.IH(2) [OF at_down(2) [OF Nd.prems]]
    by (subst rbtree_traversal.simps) simp
qed (simp add: rbtree_traversal.simps)

section \<open>The invariant and the map\<close>

text \<open>The bindings of the tree in the order of a traversal.\<close>

partial_function (option) bindings :: "rbtree \<Rightarrow> nat \<Rightarrow> (string \<times> cptr) list option" where
  "bindings T p =
     (if p \<noteq> rt_nil T
      then do {
        l \<leftarrow> get_left T p; xs \<leftarrow> bindings T l;
        k \<leftarrow> get_key T p; v \<leftarrow> get_value T p;
        r \<leftarrow> get_right T p; ys \<leftarrow> bindings T r;
        Some (xs @ (k, v) # ys) }
      else Some [])"

lemma bindings_at: "tree_at T cs t \<Longrightarrow> bindings T (rp (rt_nil T) t) = Some (map snd (infos t))"
proof (induction t arbitrary: cs)
  case (Nd c l a r)
  then show ?case
    using at_node [OF Nd.prems] Nd.IH(1) [OF at_down(1) [OF Nd.prems]] Nd.IH(2) [OF at_down(2) [OF Nd.prems]]
    by (subst bindings.simps) simp
qed (simp add: bindings.simps)

fun str_val :: "cptr \<Rightarrow> string option" where
  "str_val (Str v) = Some v"
| "str_val _ = None"

definition map_bs :: "(string \<times> cptr) list \<Rightarrow> kvmap" where
  "map_bs xs k = Option.bind (map_of xs k) str_val"

definition rb_view :: "rbtree \<Rightarrow> kvmap" where
  "rb_view T = (case bindings T (rt_root T) of None \<Rightarrow> Map.empty | Some xs \<Rightarrow> map_bs xs)"

definition rb_tree :: "rbtree \<Rightarrow> ptree \<Rightarrow> bool" where
  "rb_tree T t \<longleftrightarrow> tree_at T [] t \<and> rb_ok t \<and> bst t \<and> (\<forall>a \<in> set (infos t). \<exists>v. val_of a = Str v) \<and>
     (\<forall>p \<in> ptrs t. p < rt_brk T) \<and> rt_nil T < rt_brk T \<and> get_left T (rt_nil T) = None \<and>
     int (length (infos t)) \<le> rt_count T"

definition rb_inv :: "rbtree \<Rightarrow> bool" where
  "rb_inv T \<longleftrightarrow> (\<exists>t. rb_tree T t)"

definition rb_space :: "rbtree \<Rightarrow> nat" where
  "rb_space T = nat (INT_MAX - rt_count T)"

lemma rb_view_tree: "tree_at T [] t \<Longrightarrow> rb_view T = map_bs (map snd (infos t))"
  using bindings_at [of T "[]" t] at_root [of T t] by (simp add: rb_view_def)

lemma map_bs_simps [simp]:
  "map_bs [] = Map.empty" "map_bs ((k, p) # xs) = (map_bs xs)(k := str_val p)"
  by (auto simp: map_bs_def fun_eq_iff)

lemma map_bs_insert:
  "k \<notin> fst ` set (xs @ ys) \<Longrightarrow> map_bs (xs @ (k, Str v) # ys) = (map_bs (xs @ ys))(k \<mapsto> v)"
  by (induction xs) (auto simp: fun_upd_twist)

lemma map_bs_absent: "k \<notin> fst ` set xs \<Longrightarrow> map_bs xs k = None"
  by (induction xs) auto

lemma map_bs_remove:
  "k \<notin> fst ` set (xs @ ys) \<Longrightarrow> map_bs (xs @ ys) = (map_bs (xs @ (k, p) # ys))(k := None)"
  by (induction xs) (auto simp: fun_upd_twist map_bs_absent fun_upd_idem)

lemma map_bs_None:
  assumes "\<forall>b \<in> set xs. \<exists>v. snd b = Str v"
  shows "map_bs xs k = None \<longleftrightarrow> k \<notin> fst ` set xs"
  using assms by (induction xs) (auto split: if_splits)

lemma bst_split:
  assumes "bst t" and "infos t = xs @ a # ys"
  shows "key_of a \<notin> fst ` set (map snd xs @ map snd ys)" and "sorted_wrt (<) (map key_of (xs @ ys))"
  using assms by (auto simp: bst_def sorted_wrt_append)

lemma rb_view_None:
  assumes "rb_tree T t"
  shows "rb_view T k = None \<longleftrightarrow> k \<notin> key_of ` set (infos t)"
proof -
  have "\<forall>b \<in> set (map snd (infos t)). \<exists>v. snd b = Str v" using assms by (auto simp: rb_tree_def)
  from map_bs_None [OF this, of k] show ?thesis
    using rb_view_tree [of T t] assms by (auto simp: rb_tree_def image_image)
qed

section \<open>The operations on a valid tree\<close>

text \<open>A present key: the search stops at its node, around which the tree is split.\<close>

lemma rb_hit:
  assumes "rb_tree T t" and "rb_view T k = Some v"
  obtains cs c l a r where "rbtree_search T (Str k) = Some (adr a)" and "a = (adr a, k, Str v)"
    and "plug cs (Nd c l a r) = t" and "tree_at T cs (Nd c l a r)"
proof -
  have at: "tree_at T [] t" and bst: "bst t" using assms(1) by (simp_all add: rb_tree_def)
  have "k \<in> key_of ` set (infos t)" using rb_view_None [OF assms(1), of k] assms(2) by simp
  then obtain cs c l a r where a: "search_loop T k (rp (rt_nil T) t) = Some (adr a)" "key_of a = k"
      "plug cs (Nd c l a r) = t" using search_found [OF at bst] by blast
  have i: "infos t = (lpart cs @ infos l) @ a # (infos r @ rpart cs)"
    using a(3) infos_plug [of cs "Nd c l a r"] by simp
  have "\<exists>w. val_of a = Str w" using assms(1) i by (auto simp: rb_tree_def)
  then obtain w where w: "a = (adr a, k, Str w)" using a(2) by (metis prod.collapse)
  have "k \<notin> fst ` set (map snd (lpart cs @ infos l) @ map snd (infos r @ rpart cs))"
    using bst_split(1) [OF bst i] a(2) by simp
  from map_bs_insert [OF this, of w] have "rb_view T k = Some w"
    using rb_view_tree [OF at] i arg_cong [OF w, of snd] by simp
  then have "a = (adr a, k, Str v)" using w assms(2) by simp
  moreover have "tree_at T cs (Nd c l a r)" using at a(3) tree_at_plug by metis
  ultimately show thesis using that a(1,3) rbtree_search_root [OF at] by metis
qed

lemma rb_miss:
  assumes "rb_tree T t" and "rb_view T k = None"
  shows "rbtree_search T (Str k) = Some (rt_nil T)"
  using search_missing [of T "[]" t k] rbtree_search_root [of T t k] rb_view_None [OF assms(1), of k] assms
  by (simp add: rb_tree_def)

lemma rb_get:
  assumes "rb_inv T"
  shows "kvs_rbtree_get T (Str k) = Some (ptr_of (rb_view T k))"
proof -
  obtain t where t: "rb_tree T t" using assms by (auto simp: rb_inv_def)
  show ?thesis
  proof (cases "rb_view T k")
    case None
    then show ?thesis using rb_miss [OF t] by (simp add: kvs_rbtree_get_def)
  next
    case (Some v)
    then obtain cs c l a r where "rbtree_search T (Str k) = Some (adr a)" "a = (adr a, k, Str v)"
        "tree_at T cs (Nd c l a r)" by (rule rb_hit [OF t])
    then show ?thesis using at_node(6,7) [of T cs c l a r] Some
      by (simp add: kvs_rbtree_get_def) (metis snd_conv)
  qed
qed

lemma alloc_at:
  assumes "tree_at T [] t" and "\<forall>p \<in> ptrs t. p < rt_brk T" and "rt_nil T < rt_brk T"
    and "alloc_node T n = (z, T')"
  shows "tree_at T' [] t" and "z = rt_brk T" and "rt_heap T' z = Some n" and "z \<notin> ptrs t"
    and "rt_nil T' = rt_nil T" and "rt_count T' = rt_count T" and "rt_brk T' = Suc (rt_brk T)"
    and "get_left T' (rt_nil T) = get_left T (rt_nil T)"
  using assms by (auto simp: alloc_node_def tree_at_def get_left_def)

lemma rb_set_new:
  assumes t: "rb_tree T t" and k: "rb_view T k = None" and room: "rt_count T < INT_MAX"
  shows "\<exists>T'. kvs_rbtree_set T (Str k) (Str v) [] = Some (0, T', []) \<and> rb_inv T' \<and>
           rt_count T' = rt_count T + 1 \<and> rb_view T' = (rb_view T)(k \<mapsto> v)"
proof -
  obtain z T1 where al: "alloc_node T (fresh_node k (Str v)) = (z, T1)" by fastforce
  have T: "tree_at T [] t" "rb_ok t" "bst t" "\<forall>p \<in> ptrs t. p < rt_brk T" "rt_nil T < rt_brk T"
      "get_left T (rt_nil T) = None" using t by (simp_all add: rb_tree_def)
  note a = alloc_at [OF T(1,4,5) al]
  have "k \<notin> key_of ` set (infos t)" using rb_view_None [OF t] k by blast
  then obtain T2 t2 xs ys where T2: "rbtree_insert T1 z = Some T2" "same_rest T1 T2" "tree_at T2 [] t2" "rb_ok t2"
      "infos t = xs @ ys" "infos t2 = xs @ (z, k, Str v) # ys"
      "\<forall>b \<in> set xs. key_of b < k" "\<forall>b \<in> set ys. k < key_of b"
    using rbtree_insert_new [OF a(1) T(2,3) _ a(3,4)] a(2,5) T(5) by auto
  let ?T = "T2\<lparr>rt_count := rt_count T + 1\<rparr>"
  have at: "tree_at ?T [] t2" using T2(3) by (simp add: tree_at_def)
  have "bst t2" using T(3) T2(5-8) by (auto simp: bst_def sorted_wrt_append)
  moreover have "get_left ?T (rt_nil T) = None"
    using a(8) T(6) T2(2) a(5) by (simp add: get_left_def same_rest_def)
  moreover have "\<forall>p \<in> ptrs t2. p < rt_brk ?T"
    using T(4) T2(2,5,6) a(2,7) by (fastforce simp: ptrs_infos same_rest_def less_Suc_eq)
  ultimately have "rb_tree ?T t2"
    using at T2(2,4,5,6) t a(5,7) by (simp add: rb_tree_def same_rest_def)
  moreover have "rb_view ?T = (rb_view T)(k \<mapsto> v)"
    unfolding rb_view_tree [OF at] rb_view_tree [OF T(1)]
    using map_bs_insert [of k "map snd xs" "map snd ys" v] T2(5-8) by force
  moreover have "kvs_rbtree_set T (Str k) (Str v) [] = Some (0, ?T, [])"
    using al T2(1,2) a(6) room by (simp add: kvs_rbtree_set_def same_rest_def)
  ultimately show ?thesis by (auto simp: rb_inv_def)
qed

text \<open>A SET of a present key changes the counter and nothing else that can be read.\<close>

lemma rb_set_present:
  assumes t: "rb_tree T t" and k: "rb_view T k = Some w" and room: "rt_count T < INT_MAX"
  shows "\<exists>T'. kvs_rbtree_set T (Str k) (Str v) [] = Some (0, T', []) \<and> rb_tree T' t \<and>
           rt_count T' = rt_count T + 1 \<and> rb_view T' = rb_view T"
proof -
  obtain z T1 where al: "alloc_node T (fresh_node k (Str v)) = (z, T1)" by fastforce
  have T: "tree_at T [] t" "rb_ok t" "bst t" "\<forall>p \<in> ptrs t. p < rt_brk T" "rt_nil T < rt_brk T"
      "get_left T (rt_nil T) = None" using t by (simp_all add: rb_tree_def)
  note a = alloc_at [OF T(1,4,5) al]
  have "k \<in> key_of ` set (infos t)" using rb_view_None [OF t, of k] k by auto
  then have "rbtree_insert T1 z = Some T1"
    by (rule rbtree_insert_present [OF a(1) T(3)]) (simp add: a(3) get_key_def fresh_node_def)
  moreover let ?T = "T1\<lparr>rt_count := rt_count T + 1\<rparr>"
  have at: "tree_at ?T [] t" using a(1) by (simp add: tree_at_def)
  have "rb_tree ?T t"
    using at t a(5,7,8) T(4) by (auto simp: rb_tree_def get_left_def less_Suc_eq)
  moreover have "rb_view ?T = rb_view T" using rb_view_tree [OF at] rb_view_tree [OF T(1)] by simp
  ultimately show ?thesis using al a(6) room by (simp add: kvs_rbtree_set_def)
qed

lemma rb_delete_present:
  assumes t: "rb_tree T t" and k: "rb_view T k = Some v"
  shows "\<exists>T'. kvs_rbtree_delete T (Str k) = Some (0, T') \<and> rb_inv T' \<and>
           rt_count T' = rt_count T - 1 \<and> rb_view T' = (rb_view T)(k := None)"
proof -
  obtain cs c l a r where a: "rbtree_search T (Str k) = Some (adr a)" "a = (adr a, k, Str v)"
      "plug cs (Nd c l a r) = t" "tree_at T cs (Nd c l a r)" by (rule rb_hit [OF t k])
  have T: "tree_at T [] t" "rb_ok t" "bst t" using t by (simp_all add: rb_tree_def)
  let ?xs = "lpart cs @ infos l" and ?ys = "infos r @ rpart cs"
  have i: "infos t = ?xs @ a # ?ys" using a(3) infos_plug [of cs "Nd c l a r"] by simp
  obtain y T1 t1 where T1: "rbtree_delete T (adr a) = Some (y, T1)" "same_meta T T1" "tree_at T1 [] t1" "rb_ok t1"
      "map snd (infos t1) = map snd (?xs @ ?ys)" "ptrs t1 \<subseteq> ptrs t"
    using rbtree_delete_at [OF a(4)] a(3) T(2) by auto
  let ?T = "T1\<lparr>rt_count := rt_count T - 1\<rparr>"
  have at: "tree_at ?T [] t1" using T1(3) by (simp add: tree_at_def)
  have keys: "map key_of (infos t1) = map key_of (?xs @ ?ys)" "map val_of (infos t1) = map val_of (?xs @ ?ys)"
    using arg_cong [OF T1(5), of "map fst"] arg_cong [OF T1(5), of "map snd"] by (simp_all add: comp_def)
  have "bst t1" using bst_split(2) [OF T(3) i] keys(1) by (simp add: bst_def)
  moreover have "\<forall>p \<in> set (map val_of (infos t1)). \<exists>v. p = Str v"
    using t i unfolding keys(2) by (auto simp: rb_tree_def)
  moreover have "length (infos t1) + 1 = length (infos t)" using arg_cong [OF T1(5), of length] i by simp
  ultimately have "rb_tree ?T t1"
    using at T1(2,4,6) t by (auto simp: rb_tree_def same_meta_def get_left_def)
  moreover have "k = key_of a" by (subst a(2)) simp
  then have "rb_view ?T = (rb_view T)(k := None)"
    unfolding rb_view_tree [OF at] rb_view_tree [OF T(1)] T1(5) i
    using map_bs_remove [OF bst_split(1) [OF T(3) i], of "val_of a"] by simp
  moreover have "0 \<le> rt_count T" using t by (simp add: rb_tree_def)
  ultimately show ?thesis using a(1) T1(1,2) at_node(7) [OF a(4)]
    by (auto simp: kvs_rbtree_delete_def rb_inv_def same_meta_def)
qed

lemma set_value_at:
  assumes "tree_at T cs (Nd c l a r)"
  shows "\<exists>T'. set_value T (adr a) p = Some T' \<and> same_rest T T' \<and> tree_at T' cs (Nd c l (adr a, key_of a, p) r)"
  using assms by (auto simp: tree_at_def heap_defs same_rest_def node_def)

lemma rb_modify_present:
  assumes t: "rb_tree T t" and k: "rb_view T k = Some v"
  shows "\<exists>T'. kvs_rbtree_modify T (Str k) (Str w) [] = Some (0, T', []) \<and> rb_inv T' \<and>
           rt_count T' = rt_count T \<and> rb_view T' = (rb_view T)(k \<mapsto> w)"
proof -
  obtain cs c l a r where a: "rbtree_search T (Str k) = Some (adr a)" "a = (adr a, k, Str v)"
      "plug cs (Nd c l a r) = t" "tree_at T cs (Nd c l a r)" by (rule rb_hit [OF t k])
  have T: "tree_at T [] t" "rb_ok t" "bst t" using t by (simp_all add: rb_tree_def)
  have ka: "key_of a = k" "snd a = (k, val_of a)" by (subst a(2), simp)+
  let ?b = "(adr a, k, Str w)" and ?xs = "lpart cs @ infos l" and ?ys = "infos r @ rpart cs"
  let ?t = "plug cs (Nd c l ?b r)"
  obtain T1 where T1: "set_value T (adr a) (Str w) = Some T1" "same_rest T T1" "tree_at T1 cs (Nd c l ?b r)"
    using set_value_at [OF a(4)] ka by auto
  have i: "infos t = ?xs @ a # ?ys" "infos ?t = ?xs @ ?b # ?ys"
    using a(3) infos_plug [of cs "Nd c l a r"] infos_plug [of cs "Nd c l ?b r"] by simp_all
  have at: "tree_at T1 [] ?t" using T1(3) tree_at_plug by blast
  have "rb_ok ?t"
    using T(2) plug_inv_rev [of cs "Nd c l a r"] plug_inv [of "Nd c l ?b r" cs] a(3) by (auto simp: rb_ok_def)
  moreover have "bst ?t" using T(3) i ka by (simp add: bst_def)
  ultimately have "rb_tree T1 ?t"
    using at T1(2) t i by (auto simp: rb_tree_def same_rest_def get_left_def ptrs_infos)
  moreover have "rb_view T1 = (rb_view T)(k \<mapsto> w)"
    unfolding rb_view_tree [OF at] rb_view_tree [OF T(1)] i
    using map_bs_insert [OF bst_split(1) [OF T(3) i(1)]] map_bs_remove [OF bst_split(1) [OF T(3) i(1)], of "val_of a"] ka
    by simp
  ultimately show ?thesis using a(1) T1(1,2) at_node(7) [OF a(4)]
    by (auto simp: kvs_rbtree_modify_def rb_inv_def same_rest_def)
qed

interpretation kvs_rbtree: kv_engine rb_inv rb_view rb_space keep_first kvs_rbtree_get kvs_rbtree_set
  kvs_rbtree_delete kvs_rbtree_modify
proof unfold_locales
  fix T k v
  assume "rb_inv T" and "0 < rb_space T"
  then obtain t where t: "rb_tree T t" and "rt_count T < INT_MAX" by (auto simp: rb_inv_def rb_space_def)
  then show "\<exists>T'. kvs_rbtree_set T (Str k) (Str v) [] = Some (0, T', []) \<and> rb_inv T' \<and>
      rb_space T \<le> Suc (rb_space T') \<and> rb_view T' = (rb_view T)(k \<mapsto> keep_first (rb_view T k) v)"
    using rb_set_new [OF t, of k v] rb_set_present [OF t, of k _ v]
    by (cases "rb_view T k") (fastforce simp: rb_space_def keep_first_def rb_inv_def)+
next
  fix T k v
  assume "rb_inv T" and "rb_view T k = Some v"
  then show "\<exists>T'. kvs_rbtree_delete T (Str k) = Some (0, T') \<and> rb_inv T' \<and>
      rb_space T \<le> rb_space T' \<and> rb_view T' = (rb_view T)(k := None)"
    using rb_delete_present [of T _ k v] by (fastforce simp: rb_space_def rb_inv_def)
next
  fix T k v w
  assume "rb_inv T" and "rb_view T k = Some v"
  then show "\<exists>T'. kvs_rbtree_modify T (Str k) (Str w) [] = Some (0, T', []) \<and> rb_inv T' \<and>
      rb_space T \<le> rb_space T' \<and> rb_view T' = (rb_view T)(k \<mapsto> w)"
    using rb_modify_present [of T _ k v w] by (fastforce simp: rb_space_def rb_inv_def)
next
  fix T k w
  assume "rb_inv T" and "rb_view T k = None"
  then have "rbtree_search T (Str k) = Some (rt_nil T)" using rb_miss by (auto simp: rb_inv_def)
  then show "\<exists>r. kvs_rbtree_delete T (Str k) = Some (r, T) \<and> r \<noteq> 0"
    and "\<exists>r. kvs_rbtree_modify T (Str k) (Str w) [] = Some (r, T, []) \<and> r \<noteq> 0"
    by (simp_all add: kvs_rbtree_delete_def kvs_rbtree_modify_def)
qed (rule rb_get)

section \<open>Creation, height and destruction\<close>

lemma rb_create:
  obtains T where "kvstore_rbtree_create T0 [] = Some (0, T, [])" and "rb_tree T Lf"
    and "rb_view T = Map.empty" and "rt_count T = 0"
proof -
  obtain T where T: "kvstore_rbtree_create T0 [] = Some (0, T, [])" "rb_tree T Lf" "rt_count T = 0"
    by (auto simp: kvstore_rbtree_create_def alloc_node_def heap_defs fresh_node_def rb_tree_def tree_at_def rb_ok_def)
  moreover have "rb_view T = Map.empty" using rb_view_tree [of T Lf] T(2) by (simp add: rb_tree_def)
  ultimately show thesis using that by blast
qed

fun height :: "ptree \<Rightarrow> nat" where
  "height Lf = 0"
| "height (Nd c l a r) = Suc (max (height l) (height r))"

lemma height_bh: "invc t \<Longrightarrow> invh t \<Longrightarrow> height t \<le> 2 * bh t + (if col t = RED then 1 else 0)"
  by (induction t) (auto split: if_splits)

lemma bh_size: "invh t \<Longrightarrow> 2 ^ bh t \<le> length (infos t) + 1"
  by (induction t) (auto split: if_splits)

lemma rb_ok_height:
  assumes "rb_ok t"
  shows "2 ^ height t \<le> (length (infos t) + 1) ^ 2"
proof -
  have "height t \<le> 2 * bh t" using assms height_bh [of t] by (simp add: rb_ok_def)
  then have "(2::nat) ^ height t \<le> (2 ^ bh t) ^ 2" by (simp add: power_increasing flip: power_mult)
  also have "\<dots> \<le> (length (infos t) + 1) ^ 2"
    using assms bh_size [of t] by (intro power_mono) (simp_all add: rb_ok_def)
  finally show ?thesis .
qed

text \<open>The smallest node is deleted until the tree is empty; then the sentinel's child is read.\<close>

lemma destory_loop_undefined:
  assumes "tree_at T [] t" and "rb_ok t" and "get_left T (rt_nil T) = None" and "p \<noteq> rt_nil T"
  shows "destory_loop T p = None"
  using assms
proof (induction "length (infos t)" arbitrary: T t p)
  case 0
  then have t: "t = Lf" by (cases t) auto
  have "rbtree_mini T (rt_root T) = None"
    using at_root [OF 0(2)] 0(4) t by (subst rbtree_mini.simps) simp
  then show ?case using 0(5) by (subst destory_loop.simps) simp
next
  case (Suc n)
  then obtain c l a r where t: "t = Nd c l a r" by (cases t) auto
  obtain cs c' y r' where y: "rbtree_mini T (adr a) = Some (adr y)" "plug cs (Nd c' Lf y r') = t"
    using rbtree_mini_at [OF Suc.prems(1) [unfolded t]] t by blast
  have aty: "tree_at T cs (Nd c' Lf y r')" using Suc.prems(1) y(2) tree_at_plug by metis
  obtain y' T' t' where d: "rbtree_delete T (adr y) = Some (y', T')" "y' \<noteq> rt_nil T" "same_meta T T'"
      "tree_at T' [] t'" "rb_ok t'" "map snd (infos t') = map snd (lpart cs @ infos Lf @ infos r' @ rpart cs)"
    using rbtree_delete_at [OF aty] y(2) Suc.prems(2) by blast
  have "length (infos t') = n"
    using arg_cong [OF d(6), of length] arg_cong [OF y(2), of "length \<circ> infos"] Suc.hyps(2) by (simp add: infos_plug)
  then have "destory_loop T' y' = None"
    using Suc.hyps(1) [OF _ d(4,5)] d(2,3) Suc.prems(3) by (simp add: same_meta_def)
  then show ?case using y(1) d(1) at_root [OF Suc.prems(1)] at_node(7) [OF aty] Suc.prems(4) t
    by (subst destory_loop.simps) simp
qed

section \<open>Sequences of calls\<close>

text \<open>The global \<open>Tree\<close> before its creation: zero, on a heap with nothing allocated.\<close>

definition Tree :: rbtree where
  "Tree = \<lparr>rt_root = 0, rt_nil = 0, rt_count = 0, rt_heap = Map.empty, rt_brk = 1\<rparr>"

abbreviation rb_run :: "rbtree \<Rightarrow> kv_op list \<Rightarrow> (kv_reply list \<times> rbtree) option" where
  "rb_run \<equiv> engine_run kvs_rbtree_get kvs_rbtree_set kvs_rbtree_delete kvs_rbtree_modify"

lemma rb_run_from_create:
  assumes "length ops \<le> nat INT_MAX"
  obtains T T' t where "kvstore_rbtree_create T0 [] = Some (0, T, [])"
    and "rb_run T ops = Some (fst (spec_run keep_first Map.empty ops), T')"
    and "rb_tree T' t" and "rb_view T' = snd (spec_run keep_first Map.empty ops)"
proof -
  obtain T where T: "kvstore_rbtree_create T0 [] = Some (0, T, [])" "rb_tree T Lf" "rb_view T = Map.empty"
      "rt_count T = 0" by (rule rb_create)
  then have "rb_inv T" "length ops \<le> rb_space T" using assms by (auto simp: rb_inv_def rb_space_def)
  from kvs_rbtree.run_refines [OF this] T(1) show thesis using that unfolding T(3) rb_inv_def by blast
qed

lemma rb_view_dom: "rb_tree T t \<Longrightarrow> dom (rb_view T) = key_of ` set (infos t)"
  using rb_view_None [of T t] by (auto simp: dom_def)

section \<open>Properties\<close>

text \<open>
  C2. Any sequence of at most \<open>INT_MAX\<close> calls on a freshly created red-black engine returns,
  without undefined behaviour and with every loop ending, exactly the replies of a map on which
  SET of a present key keeps the old value, and a final GET of any key reads that map.
\<close>

theorem rbtree_refines_map:
  assumes "length ops \<le> nat INT_MAX"
  shows "\<exists>T T'. kvstore_rbtree_create T0 [] = Some (0, T, []) \<and>
           engine_run kvs_rbtree_get kvs_rbtree_set kvs_rbtree_delete kvs_rbtree_modify T ops =
             Some (fst (spec_run keep_first Map.empty ops), T') \<and>
           (\<forall>k. kvs_rbtree_get T' (Str k) = Some (ptr_of (snd (spec_run keep_first Map.empty ops) k)))"
proof -
  obtain T T' t where T: "kvstore_rbtree_create T0 [] = Some (0, T, [])"
      "rb_run T ops = Some (fst (spec_run keep_first Map.empty ops), T')" "rb_tree T' t"
      "rb_view T' = snd (spec_run keep_first Map.empty ops)"
    by (rule rb_run_from_create [OF assms])
  then have "rb_inv T'" by (auto simp: rb_inv_def)
  from T kvs_rbtree.get_view [OF this] show ?thesis by metis
qed

theorem rbtree_refines_map_witness:
  "\<exists>T T'. kvstore_rbtree_create Tree [] = Some (0, T, []) \<and>
     engine_run kvs_rbtree_get kvs_rbtree_set kvs_rbtree_delete kvs_rbtree_modify T
       [OpSet ''b'' ''1'', OpSet ''a'' ''2'', OpSet ''b'' ''3'', OpGet ''b'', OpDel ''b'', OpGet ''b''] =
     Some ([Accepted, Accepted, Accepted, Value (Str ''1''), Accepted, Value Null], T')"
  using rbtree_refines_map [of "[OpSet ''b'' ''1'', OpSet ''a'' ''2'', OpSet ''b'' ''3'', OpGet ''b'',
      OpDel ''b'', OpGet ''b'']" Tree]
  by (auto simp: INT_MAX_def keep_first_def)

text \<open>
  C3. After any such sequence the heap is a well-linked red-black search tree: parent and child
  pointers agree, every leaf is the sentinel, no red node has a red child, all paths have the
  same number of black nodes, the root is black, the keys ascend; and the height is at most
  twice the binary logarithm of the number of keys plus one.
\<close>

theorem rbtree_stays_balanced:
  assumes "length ops \<le> nat INT_MAX"
  shows "\<exists>T rs T' t. kvstore_rbtree_create T0 [] = Some (0, T, []) \<and>
           engine_run kvs_rbtree_get kvs_rbtree_set kvs_rbtree_delete kvs_rbtree_modify T ops = Some (rs, T') \<and>
           tree_at T' [] t \<and> invc t \<and> invh t \<and> col t = BLACK \<and> bst t \<and>
           2 ^ height t \<le> (card (dom (snd (spec_run keep_first Map.empty ops))) + 1) ^ 2"
proof -
  obtain T T' t where T: "kvstore_rbtree_create T0 [] = Some (0, T, [])"
      "rb_run T ops = Some (fst (spec_run keep_first Map.empty ops), T')" "rb_tree T' t"
      "rb_view T' = snd (spec_run keep_first Map.empty ops)"
    by (rule rb_run_from_create [OF assms])
  then have t: "tree_at T' [] t" "rb_ok t" "bst t" by (simp_all add: rb_tree_def)
  have "card (dom (snd (spec_run keep_first Map.empty ops))) = length (infos t)"
    using rb_view_dom [OF T(3)] T(4) t(3)
    by (metis bst_def distinct_card length_map set_map strict_sorted_iff)
  then show ?thesis using T(1,2) t rb_ok_height [OF t(2)] unfolding rb_ok_def by metis
qed

theorem rbtree_stays_balanced_witness:
  "\<exists>T rs T' t. kvstore_rbtree_create Tree [] = Some (0, T, []) \<and>
     engine_run kvs_rbtree_get kvs_rbtree_set kvs_rbtree_delete kvs_rbtree_modify T
       [OpSet ''a'' ''1'', OpSet ''b'' ''2'', OpSet ''c'' ''3''] = Some (rs, T') \<and>
     tree_at T' [] t \<and> bst t \<and> invh t \<and> 2 ^ height t \<le> (16 :: nat)"
proof -
  let ?ops = "[OpSet ''a'' ''1'', OpSet ''b'' ''2'', OpSet ''c'' ''3'']"
  have "card (dom (snd (spec_run keep_first Map.empty ?ops))) + 1 = 4" by simp
  from rbtree_stays_balanced [of ?ops Tree, unfolded this] show ?thesis
    by (simp add: INT_MAX_def) blast
qed

text \<open>
  After any such sequence \<open>rbtree_traversal\<close> from the root ends and prints exactly the
  stored keys, each once, in ascending order of \<open>strcmp\<close>.
\<close>

theorem rbtree_traversal_sorted:
  assumes "length ops \<le> nat INT_MAX"
  shows "\<exists>T rs T' out. kvstore_rbtree_create T0 [] = Some (0, T, []) \<and>
           engine_run kvs_rbtree_get kvs_rbtree_set kvs_rbtree_delete kvs_rbtree_modify T ops = Some (rs, T') \<and>
           rbtree_traversal T' (rt_root T') = Some out \<and>
           sorted_wrt (\<lambda>a b. strcmp a b < 0) (map fst out) \<and>
           set (map fst out) = dom (snd (spec_run keep_first Map.empty ops))"
proof -
  obtain T T' t where T: "kvstore_rbtree_create T0 [] = Some (0, T, [])"
      "rb_run T ops = Some (fst (spec_run keep_first Map.empty ops), T')" "rb_tree T' t"
      "rb_view T' = snd (spec_run keep_first Map.empty ops)"
    by (rule rb_run_from_create [OF assms])
  then have t: "tree_at T' [] t" "bst t" by (simp_all add: rb_tree_def)
  have "rbtree_traversal T' (rt_root T') = Some (lines t)" using traversal_at [OF t(1)] at_root [OF t(1)] by simp
  moreover have "sorted_wrt (\<lambda>a b. strcmp a b < 0) (map fst (lines t))"
    using t(2) unfolding lines_keys bst_def by simp
  moreover have "set (map fst (lines t)) = dom (snd (spec_run keep_first Map.empty ops))"
    using rb_view_dom [OF T(3)] T(4) unfolding lines_keys by simp
  ultimately show ?thesis using T(1,2) by metis
qed

theorem rbtree_traversal_sorted_witness:
  "\<exists>T rs T' out. kvstore_rbtree_create Tree [] = Some (0, T, []) \<and>
     engine_run kvs_rbtree_get kvs_rbtree_set kvs_rbtree_delete kvs_rbtree_modify T
       [OpSet ''b'' ''1'', OpSet ''a'' ''2''] = Some (rs, T') \<and>
     rbtree_traversal T' (rt_root T') = Some out \<and> set (map fst out) = {''a'', ''b''}"
  using rbtree_traversal_sorted [of "[OpSet ''b'' ''1'', OpSet ''a'' ''2'']" Tree]
  by (auto simp: INT_MAX_def)

text \<open>
  A SET of a key that is present reports success, keeps the old value, and still increments
  the counter: from then on \<open>kvs_rbtree_count\<close> exceeds the number of keys.
\<close>

theorem rbtree_set_duplicate:
  assumes "rb_inv T" and "rb_view T k = Some w" and "rt_count T < INT_MAX"
  shows "\<exists>T'. kvs_rbtree_set T (Str k) (Str v) [] = Some (0, T', []) \<and>
           kvs_rbtree_get T' (Str k) = Some (Str w) \<and> rb_view T' = rb_view T \<and>
           kvs_rbtree_count T' = kvs_rbtree_count T + 1 \<and>
           int (card (dom (rb_view T'))) < kvs_rbtree_count T'"
proof -
  obtain t where t: "rb_tree T t" using assms(1) by (auto simp: rb_inv_def)
  obtain T' where T': "kvs_rbtree_set T (Str k) (Str v) [] = Some (0, T', [])" "rb_tree T' t"
      "rt_count T' = rt_count T + 1" "rb_view T' = rb_view T"
    using rb_set_present [OF t assms(2,3)] by blast
  have "rb_inv T'" using T'(2) by (auto simp: rb_inv_def)
  then have "kvs_rbtree_get T' (Str k) = Some (Str w)" using rb_get T'(4) assms(2) by simp
  moreover have "card (dom (rb_view T)) \<le> length (infos t)"
    unfolding rb_view_dom [OF t] by (metis card_length length_map set_map)
  moreover have "int (length (infos t)) \<le> rt_count T" using t by (simp add: rb_tree_def)
  ultimately show ?thesis using T' by (simp add: kvs_rbtree_count_def)
qed

theorem rbtree_set_duplicate_witness:
  "\<exists>T T'. rb_inv T \<and> rb_view T ''a'' = Some ''1'' \<and>
     kvs_rbtree_set T (Str ''a'') (Str ''2'') [] = Some (0, T', []) \<and>
     kvs_rbtree_get T' (Str ''a'') = Some (Str ''1'') \<and> kvs_rbtree_count T' = 2"
proof -
  obtain T0 where T0: "rb_tree T0 Lf" "rb_view T0 = Map.empty" "rt_count T0 = 0" by (rule rb_create [of Tree])
  obtain T where T: "rb_inv T" "rt_count T = 1" "rb_view T = [''a'' \<mapsto> ''1'']"
    using rb_set_new [OF T0(1), of "''a''" "''1''"] T0(2,3) by (auto simp: INT_MAX_def)
  then show ?thesis using rbtree_set_duplicate [of T "''a''" "''1''" "''2''"]
    by (auto simp: INT_MAX_def kvs_rbtree_count_def intro: exI [of _ T])
qed

text \<open>
  Destruction: on an empty tree it returns; on every other tree it ends in undefined
  behaviour, a read of the never written \<open>left\<close> field of the sentinel, after the last node has
  been deleted.
\<close>

theorem rbtree_destroy_undefined:
  assumes "rb_inv T"
  shows "kvstore_rbtree_destory T = (if rb_view T = Map.empty then Some T else None)"
proof -
  obtain t where t: "rb_tree T t" using assms by (auto simp: rb_inv_def)
  then have at: "tree_at T [] t" "rb_ok t" "get_left T (rt_nil T) = None" by (simp_all add: rb_tree_def)
  have "rb_view T = Map.empty \<longleftrightarrow> t = Lf" using rb_view_dom [OF t] by (cases t) auto
  moreover have "rt_root T = rt_nil T \<longleftrightarrow> t = Lf" using at_root [OF at(1)] at_leaf [OF at(1)] by simp
  ultimately show ?thesis using destory_loop_undefined [OF at, of "rt_root T"]
    by (auto simp: kvstore_rbtree_destory_def destory_loop.simps)
qed

theorem rbtree_destroy_undefined_witness:
  "\<exists>T. rb_inv T \<and> rb_view T = [''a'' \<mapsto> ''1''] \<and> kvstore_rbtree_destory T = None"
proof -
  obtain T0 where T0: "rb_tree T0 Lf" "rb_view T0 = Map.empty" "rt_count T0 = 0" by (rule rb_create [of Tree])
  obtain T where T: "rb_inv T" "rb_view T = [''a'' \<mapsto> ''1'']"
    using rb_set_new [OF T0(1), of "''a''" "''1''"] T0(2,3) by (auto simp: INT_MAX_def)
  then show ?thesis using rbtree_destroy_undefined [OF T(1)] by auto
qed

text \<open>
  A SET in which one of the three allocations fails reports -1 and leaves the tree and the
  counter exactly as they were.
\<close>

theorem rbtree_set_alloc_failure:
  assumes "False \<in> set (take 3 ms)"
  shows "\<exists>ms'. kvs_rbtree_set T (Str k) (Str v) ms = Some (-1, T, ms')"
proof -
  obtain a ms1 where "ms = a # ms1" using assms by (cases ms) auto
  moreover have "\<exists>b ms2. ms1 = b # ms2" if a using assms that calculation by (cases ms1) auto
  moreover have "\<exists>c ms3. ms2 = c # ms3" if a b "ms1 = b # ms2" for b ms2
    using assms that calculation(1) by (cases ms2) auto
  ultimately show ?thesis using assms
    by (cases a) (fastforce simp: kvs_rbtree_set_def numeral_3_eq_3)+
qed

theorem rbtree_set_alloc_failure_witness:
  "\<exists>ms'. kvs_rbtree_set Tree (Str ''a'') (Str ''1'') [True, True, False] = Some (-1, Tree, ms')"
  by (rule rbtree_set_alloc_failure) simp

end
