(* ===== verification/CText.thy ===== *)
theory CText
  imports CPrelude
begin

text \<open>
  Formatted text of the C library as the sources use it: \<open>"%d"\<close> of a non-negative number,
  the bound of \<open>snprintf\<close>, and the conversions of \<open>fscanf\<close>.
\<close>

section \<open>Strings in buffers\<close>

abbreviation NUL :: char where "NUL \<equiv> CHR 0x00"

text \<open>The string that starts at an offset; undefined when no NUL follows inside the buffer.\<close>

definition cstr :: "string \<Rightarrow> nat \<Rightarrow> string option" where
  "cstr buf i = (if NUL \<in> set (drop i buf) then Some (takeWhile (\<lambda>c. c \<noteq> NUL) (drop i buf)) else None)"

lemma cstr_Some: "cstr buf i = Some w \<longleftrightarrow> NUL \<notin> set w \<and> (\<exists>t. drop i buf = w @ NUL # t)"
proof
  assume "cstr buf i = Some w"
  then have w: "w = takeWhile (\<lambda>c. c \<noteq> NUL) (drop i buf)" and "NUL \<in> set (drop i buf)"
    by (auto simp: cstr_def split: if_splits)
  then have "dropWhile (\<lambda>c. c \<noteq> NUL) (drop i buf) \<noteq> []" by (auto simp: dropWhile_eq_Nil_conv)
  then obtain d t where d: "dropWhile (\<lambda>c. c \<noteq> NUL) (drop i buf) = d # t" by (cases "dropWhile (\<lambda>c. c \<noteq> NUL) (drop i buf)") auto
  with hd_dropWhile [of "\<lambda>c. c \<noteq> NUL" "drop i buf"] have "d = NUL" by auto
  with d w show "NUL \<notin> set w \<and> (\<exists>t. drop i buf = w @ NUL # t)"
    by (metis (mono_tags, lifting) set_takeWhileD takeWhile_dropWhile_id)
next
  assume "NUL \<notin> set w \<and> (\<exists>t. drop i buf = w @ NUL # t)"
  then obtain t where w: "NUL \<notin> set w" "drop i buf = w @ NUL # t" by blast
  have "takeWhile (\<lambda>c. c \<noteq> NUL) (w @ NUL # t) = w" using w(1) by (subst takeWhile_append2) auto
  with w show "cstr buf i = Some w" by (simp add: cstr_def)
qed

section \<open>Decimal numbers\<close>

fun dec :: "nat \<Rightarrow> string" where
  "dec n = (if n < 10 then [char_of (48 + n)] else dec (n div 10) @ [char_of (48 + n mod 10)])"

declare dec.simps [simp del]

fun undec :: "string \<Rightarrow> nat \<Rightarrow> nat" where
  "undec [] a = a"
| "undec (c # s) a = undec s (10 * a + (of_char c - 48))"

lemma undec_append: "undec (s @ t) a = undec t (undec s a)"
  by (induction s arbitrary: a) auto

lemma undec_dec: "undec (dec n) 0 = n"
proof (induction n rule: dec.induct)
  case (1 n)
  show ?case
  proof (cases "n < 10")
    case True
    then show ?thesis by (subst dec.simps) simp
  next
    case False
    have "48 + n mod 10 < 256" by simp
    with 1 False show ?thesis by (subst dec.simps) (simp add: undec_append)
  qed
qed

lemma dec_inj [simp]: "dec m = dec n \<longleftrightarrow> m = n"
  by (metis undec_dec)

lemma dec_digits: "c \<in> set (dec n) \<Longrightarrow> 48 \<le> (of_char c :: nat) \<and> (of_char c :: nat) < 58"
proof (induction n rule: dec.induct)
  case (1 n)
  then show ?case by (subst (asm) dec.simps) (auto split: if_splits)
qed

lemma dec_length: "n < 10 ^ Suc k \<Longrightarrow> length (dec n) \<le> Suc k"
proof (induction k arbitrary: n)
  case (Suc k)
  show ?case
  proof (cases "n < 10")
    case False
    then have "n div 10 < 10 ^ Suc k" using Suc.prems by (simp add: less_mult_imp_div_less)
    with False Suc.IH show ?thesis by (subst dec.simps) simp
  qed (simp add: dec.simps)
qed (simp add: dec.simps)

text \<open>\<open>snprintf (buf, n, "%s", s)\<close>: at most \<open>n - 1\<close> characters and the NUL.\<close>

definition snprintf :: "nat \<Rightarrow> string \<Rightarrow> string" where
  "snprintf n s = take (n - 1) s"

section \<open>Conversions of fscanf\<close>

definition isspace :: "char \<Rightarrow> bool" where
  "isspace c \<longleftrightarrow> c \<in> {CHR '' '', CHR 0x09, CHR 0x0A, CHR 0x0B, CHR 0x0C, CHR 0x0D}"

text \<open>\<open>"%<n>s"\<close>: skip white space, then up to \<open>n\<close> characters that are not; none is an input failure.\<close>

fun scan_run :: "(char \<Rightarrow> bool) \<Rightarrow> nat \<Rightarrow> string \<Rightarrow> string \<times> string" where
  "scan_run p 0 s = ([], s)"
| "scan_run p (Suc n) [] = ([], [])"
| "scan_run p (Suc n) (c # s) =
     (if p c then let (w, r) = scan_run p n s in (c # w, r) else ([], c # s))"

definition scan_word :: "nat \<Rightarrow> string \<Rightarrow> string \<times> string" where
  "scan_word n s = scan_run (\<lambda>c. \<not> isspace c) n (dropWhile isspace s)"

text \<open>\<open>" %<n>[^\\n]"\<close>: skip white space, then up to \<open>n\<close> characters other than a newline.\<close>

definition scan_line :: "nat \<Rightarrow> string \<Rightarrow> string \<times> string" where
  "scan_line n s = scan_run (\<lambda>c. c \<noteq> CHR 0x0A) n (dropWhile isspace s)"

lemma scan_run_append: "scan_run p n s = (w, r) \<Longrightarrow> s = w @ r"
  by (induction p n s arbitrary: w r rule: scan_run.induct) (auto split: if_splits prod.splits)

lemma scan_run_take:
  "\<forall>c \<in> set w. p c \<Longrightarrow> length w \<le> n \<Longrightarrow> r = [] \<or> \<not> p (hd r) \<Longrightarrow> scan_run p n (w @ r) = (w, r)"
proof (induction w arbitrary: n)
  case Nil
  then show ?case by (cases n; cases r) auto
next
  case (Cons c w)
  then show ?case by (cases n) auto
qed

lemma scan_run_length: "scan_run p n s = (w, r) \<Longrightarrow> length w + length r = length s \<and> length w \<le> n"
  by (induction p n s arbitrary: w r rule: scan_run.induct) (auto split: if_splits prod.splits)

lemma scan_length:
  "scan_word n s = (w, r) \<Longrightarrow> length w + length r \<le> length s"
  "scan_line n s = (w, r) \<Longrightarrow> length w + length r \<le> length s"
  using length_dropWhile_le [of isspace s]
  by (auto simp: scan_word_def scan_line_def dest!: scan_run_length)

lemma dropWhile_word: "s \<noteq> [] \<Longrightarrow> \<not> isspace (hd s) \<Longrightarrow> dropWhile isspace (s @ r) = s @ r"
  by (cases s) auto

end
