(* ===== verification/Wal.thy ===== *)
theory Wal
  imports Kvs_Array Kvs_Hash Kvs_Rbtree CText
begin

text \<open>
  The write-ahead log of \<open>kvstore.c\<close>: records appended to \<open>wal.log\<close>, archives
  \<open>wal.log.1\<close> to \<open>wal.log.4096\<close> made by rotation, and the replay that rebuilds the engines.
\<close>

section \<open>The server's state\<close>

text \<open>
  The globals of the program (the three engines and the log's stream) and its environment: the
  files of its directory and the outcomes of the calls of \<open>malloc\<close> and \<open>fopen\<close> to come.
\<close>

record kvserver =
  sv_array :: array_s
  sv_tree :: rbtree
  sv_hash :: hashtable_s
  sv_wal_fp :: bool
  sv_files :: "string \<rightharpoonup> string"
  sv_mallocs :: mallocs
  sv_fopens :: "bool list"

subsection \<open>The wrappers of the engines\<close>

definition kvstore_array_set :: "kvserver \<Rightarrow> cptr \<Rightarrow> cptr \<Rightarrow> (int \<times> kvserver) option" where
  "kvstore_array_set S key value =
     do { (r, a, ms) \<leftarrow> kvs_array_set (sv_array S) key value (sv_mallocs S);
          Some (r, S\<lparr>sv_array := a, sv_mallocs := ms\<rparr>) }"

definition kvstore_array_get :: "kvserver \<Rightarrow> cptr \<Rightarrow> cptr option" where
  "kvstore_array_get S key = kvs_array_get (sv_array S) key"

definition kvstore_array_del :: "kvserver \<Rightarrow> cptr \<Rightarrow> (int \<times> kvserver) option" where
  "kvstore_array_del S key =
     do { (r, a) \<leftarrow> kvs_array_del (sv_array S) key; Some (r, S\<lparr>sv_array := a\<rparr>) }"

definition kvstore_array_mod :: "kvserver \<Rightarrow> cptr \<Rightarrow> cptr \<Rightarrow> (int \<times> kvserver) option" where
  "kvstore_array_mod S key value =
     do { (r, a, ms) \<leftarrow> kvs_array_mod (sv_array S) key value (sv_mallocs S);
          Some (r, S\<lparr>sv_array := a, sv_mallocs := ms\<rparr>) }"

definition kvstore_array_count :: "kvserver \<Rightarrow> int" where
  "kvstore_array_count S = kvs_array_count (sv_array S)"

definition kvstore_rbtree_set :: "kvserver \<Rightarrow> cptr \<Rightarrow> cptr \<Rightarrow> (int \<times> kvserver) option" where
  "kvstore_rbtree_set S key value =
     do { (r, T, ms) \<leftarrow> kvs_rbtree_set (sv_tree S) key value (sv_mallocs S);
          Some (r, S\<lparr>sv_tree := T, sv_mallocs := ms\<rparr>) }"

definition kvstore_rbtree_get :: "kvserver \<Rightarrow> cptr \<Rightarrow> cptr option" where
  "kvstore_rbtree_get S key = kvs_rbtree_get (sv_tree S) key"

definition kvstore_rbtree_delete :: "kvserver \<Rightarrow> cptr \<Rightarrow> (int \<times> kvserver) option" where
  "kvstore_rbtree_delete S key =
     do { (r, T) \<leftarrow> kvs_rbtree_delete (sv_tree S) key; Some (r, S\<lparr>sv_tree := T\<rparr>) }"

definition kvstore_rbtree_modify :: "kvserver \<Rightarrow> cptr \<Rightarrow> cptr \<Rightarrow> (int \<times> kvserver) option" where
  "kvstore_rbtree_modify S key value =
     do { (r, T, ms) \<leftarrow> kvs_rbtree_modify (sv_tree S) key value (sv_mallocs S);
          Some (r, S\<lparr>sv_tree := T, sv_mallocs := ms\<rparr>) }"

definition kvstore_rbtree_count :: "kvserver \<Rightarrow> int" where
  "kvstore_rbtree_count S = kvs_rbtree_count (sv_tree S)"

definition kvstore_hash_set :: "kvserver \<Rightarrow> cptr \<Rightarrow> cptr \<Rightarrow> (int \<times> kvserver) option" where
  "kvstore_hash_set S key value =
     do { (r, h, ms) \<leftarrow> kvs_hash_set (sv_hash S) key value (sv_mallocs S);
          Some (r, S\<lparr>sv_hash := h, sv_mallocs := ms\<rparr>) }"

definition kvstore_hash_get :: "kvserver \<Rightarrow> cptr \<Rightarrow> cptr option" where
  "kvstore_hash_get S key = kvs_hash_get (sv_hash S) key"

definition kvstore_hash_del :: "kvserver \<Rightarrow> cptr \<Rightarrow> (int \<times> kvserver) option" where
  "kvstore_hash_del S key =
     do { (r, h) \<leftarrow> kvs_hash_delete (sv_hash S) key; Some (r, S\<lparr>sv_hash := h\<rparr>) }"

definition kvstore_hash_mod :: "kvserver \<Rightarrow> cptr \<Rightarrow> cptr \<Rightarrow> (int \<times> kvserver) option" where
  "kvstore_hash_mod S key value =
     do { (r, h, ms) \<leftarrow> kvs_hash_modify (sv_hash S) key value (sv_mallocs S);
          Some (r, S\<lparr>sv_hash := h, sv_mallocs := ms\<rparr>) }"

definition kvstore_hash_count :: "kvserver \<Rightarrow> int" where
  "kvstore_hash_count S = kvs_hash_count (sv_hash S)"

section \<open>Files\<close>

text \<open>
  A call of \<open>fopen\<close> succeeds or fails as the next outcome says; opening for reading also needs
  the file. \<open>rename\<close> of a file that does not exist fails and changes nothing.
\<close>

definition fopen_outcome :: "kvserver \<Rightarrow> bool \<times> kvserver" where
  "fopen_outcome S = (case sv_fopens S of [] \<Rightarrow> (True, S) | b # bs \<Rightarrow> (b, S\<lparr>sv_fopens := bs\<rparr>))"

definition fopen_r :: "kvserver \<Rightarrow> string \<Rightarrow> string option \<times> kvserver" where
  "fopen_r S name = (let (ok, S) = fopen_outcome S in (if ok then sv_files S name else None, S))"

definition fopen_a :: "kvserver \<Rightarrow> string \<Rightarrow> bool \<times> kvserver" where
  "fopen_a S name =
     (let (ok, S) = fopen_outcome S
      in (ok, if ok \<and> sv_files S name = None then S\<lparr>sv_files := (sv_files S)(name \<mapsto> [])\<rparr> else S))"

definition fopen_w :: "kvserver \<Rightarrow> string \<Rightarrow> kvserver" where
  "fopen_w S name =
     (let (ok, S) = fopen_outcome S in if ok then S\<lparr>sv_files := (sv_files S)(name \<mapsto> [])\<rparr> else S)"

definition rename_file :: "(string \<rightharpoonup> string) \<Rightarrow> string \<Rightarrow> string \<Rightarrow> (string \<rightharpoonup> string)" where
  "rename_file F old new = (case F old of None \<Rightarrow> F | Some s \<Rightarrow> F(old := None, new \<mapsto> s))"

definition WAL_MAX_ARCHIVE :: nat where
  "WAL_MAX_ARCHIVE = 4096"

definition WAL_MAX_SIZE :: nat where
  "WAL_MAX_SIZE = 10 * 1024 * 1024"

definition wal_name :: string where
  "wal_name = ''wal.log''"

definition archive_name :: "nat \<Rightarrow> string" where
  "archive_name i = ''wal.log.'' @ dec i"

section \<open>Appending and rotating\<close>

fun rotate_loop :: "nat \<Rightarrow> (string \<rightharpoonup> string) \<Rightarrow> (string \<rightharpoonup> string)" where
  "rotate_loop 0 F = F"
| "rotate_loop (Suc i) F = rotate_loop i (rename_file F (archive_name (Suc i)) (archive_name (Suc i + 1)))"

definition rotate_wal :: "kvserver \<Rightarrow> kvserver" where
  "rotate_wal S =
     (let F = rotate_loop (WAL_MAX_ARCHIVE - 1) (sv_files S);
          F = rename_file F wal_name (archive_name 1)
      in fopen_w (S\<lparr>sv_files := F\<rparr>) wal_name)"

text \<open>The bytes that \<open>fprintf\<close> adds: three fields, or two when the value is NULL.\<close>

definition wal_line :: "string \<Rightarrow> cptr \<Rightarrow> cptr \<Rightarrow> string option" where
  "wal_line cmd key value =
     (if value \<noteq> Null
      then do { k \<leftarrow> deref key; v \<leftarrow> deref value; Some (cmd @ '' '' @ k @ '' '' @ v @ [CHR 0x0A]) }
      else do { k \<leftarrow> deref key; Some (cmd @ '' '' @ k @ [CHR 0x0A]) })"

definition wal_append :: "kvserver \<Rightarrow> string \<Rightarrow> cptr \<Rightarrow> cptr \<Rightarrow> kvserver option" where
  "wal_append S cmd key value =
     (let (fp, S) = (if \<not> sv_wal_fp S then fopen_a S wal_name else (True, S));
          S = S\<lparr>sv_wal_fp := fp\<rparr>
      in if fp
         then do {
           line \<leftarrow> wal_line cmd key value;
           let text = (case sv_files S wal_name of None \<Rightarrow> [] | Some s \<Rightarrow> s) @ line;
           let S = S\<lparr>sv_files := (sv_files S)(wal_name \<mapsto> text)\<rparr>;
           if WAL_MAX_SIZE < length text
           then Some (rotate_wal (S\<lparr>sv_wal_fp := False\<rparr>))
           else Some S }
         else Some S)"

section \<open>Replay\<close>

text \<open>
  \<open>fscanf (fp, "%15s %255s %255[^\\n]", cmd, key, value)\<close>: the fields read and the input that
  is left, when at least two fields were read.
\<close>

definition fscanf_wal :: "string \<Rightarrow> (string \<times> string \<times> string option \<times> string) option" where
  "fscanf_wal inp =
     (let (cmd, inp) = scan_word 15 inp;
          (key, inp) = scan_word 255 inp;
          (value, inp) = scan_line 255 inp
      in if cmd = [] \<or> key = [] then None
         else Some (cmd, key, if value = [] then None else Some value, inp))"

definition replay_cmd :: "kvserver \<Rightarrow> string \<Rightarrow> cptr \<Rightarrow> cptr \<Rightarrow> kvserver option" where
  "replay_cmd S cmd key value =
     (if strcmp cmd ''SET'' = 0 \<or> strcmp cmd ''MOD'' = 0 then map_option snd (kvstore_array_set S key value)
      else if strcmp cmd ''DEL'' = 0 then map_option snd (kvstore_array_del S key)
      else if strcmp cmd ''RSET'' = 0 \<or> strcmp cmd ''RMOD'' = 0 then map_option snd (kvstore_rbtree_set S key value)
      else if strcmp cmd ''RDEL'' = 0 then map_option snd (kvstore_rbtree_delete S key)
      else if strcmp cmd ''HSET'' = 0 \<or> strcmp cmd ''HMOD'' = 0 then map_option snd (kvstore_hash_set S key value)
      else if strcmp cmd ''HDEL'' = 0 then map_option snd (kvstore_hash_del S key)
      else Some S)"

lemma fscanf_wal_shorter: "fscanf_wal inp = Some (cmd, key, value, rest) \<Longrightarrow> length rest < length inp"
proof -
  assume "fscanf_wal inp = Some (cmd, key, value, rest)"
  then obtain i1 i2 v where *: "scan_word 15 inp = (cmd, i1)" "scan_word 255 i1 = (key, i2)"
      "scan_line 255 i2 = (v, rest)" and "cmd \<noteq> []"
    by (auto simp: fscanf_wal_def Let_def split: prod.splits if_splits)
  then show ?thesis
    using scan_length(1) [OF *(1)] scan_length(1) [OF *(2)] scan_length(2) [OF *(3)] by (cases cmd) auto
qed

text \<open>
  The loop over one file. \<open>value\<close> is what the buffer of that name holds: nothing at first, then
  the last value read; a record with two fields leaves it as it was.
\<close>

function replay_loop :: "kvserver \<Rightarrow> string \<Rightarrow> cptr \<Rightarrow> kvserver option" where
  "replay_loop S inp value =
     (case fscanf_wal inp of
        None \<Rightarrow> Some S
      | Some (cmd, key, v, rest) \<Rightarrow>
          (let value = (case v of None \<Rightarrow> value | Some w \<Rightarrow> Str w)
           in do { S \<leftarrow> replay_cmd S cmd (Str key) value; replay_loop S rest value }))"
  by pat_completeness auto
termination
  by (relation "measure (\<lambda>(S, inp, v). length inp)") (auto dest: fscanf_wal_shorter)

declare replay_loop.simps [simp del]

definition replay_file :: "kvserver \<Rightarrow> string \<Rightarrow> kvserver option" where
  "replay_file S name =
     (let (fp, S) = fopen_r S name
      in case fp of None \<Rightarrow> Some S | Some text \<Rightarrow> replay_loop S text Wild)"

fun replay_archives :: "kvserver \<Rightarrow> nat \<Rightarrow> kvserver option" where
  "replay_archives S 0 = Some S"
| "replay_archives S (Suc i) = do { S \<leftarrow> replay_file S (archive_name (Suc i)); replay_archives S i }"

definition wal_replay :: "kvserver \<Rightarrow> kvserver option" where
  "wal_replay S = do { S \<leftarrow> replay_archives S WAL_MAX_ARCHIVE; replay_file S wal_name }"

section \<open>Reading back what was written\<close>

type_synonym wal_rec = "string \<times> string \<times> string"

fun enc :: "wal_rec \<Rightarrow> string" where
  "enc (c, k, v) = c @ '' '' @ k @ '' '' @ v @ [CHR 0x0A]"

text \<open>
  A record that the format of the log can carry: the fields within the widths of \<open>fscanf\<close>, no
  white space in the first two, no newline in the third and no white space at its start.
\<close>

definition wal_word :: "nat \<Rightarrow> string \<Rightarrow> bool" where
  "wal_word n w \<longleftrightarrow> w \<noteq> [] \<and> length w \<le> n \<and> (\<forall>c \<in> set w. \<not> isspace c)"

definition wal_text :: "string \<Rightarrow> bool" where
  "wal_text v \<longleftrightarrow> v \<noteq> [] \<and> length v \<le> 255 \<and> \<not> isspace (hd v) \<and> CHR 0x0A \<notin> set v"

fun wal_rec_ok :: "wal_rec \<Rightarrow> bool" where
  "wal_rec_ok (c, k, v) \<longleftrightarrow> wal_word 15 c \<and> wal_word 255 k \<and> wal_text v"

lemma wal_word_text: "wal_word 255 v \<Longrightarrow> wal_text v"
  by (cases v) (auto simp: wal_word_def wal_text_def isspace_def)

lemma scan_word_at:
  assumes "wal_word n w" and "r = [] \<or> isspace (hd r)"
  shows "scan_word n (w @ r) = (w, r)"
proof -
  have "dropWhile isspace (w @ r) = w @ r" using assms(1) by (intro dropWhile_word) (auto simp: wal_word_def)
  then show ?thesis using assms by (simp add: scan_word_def wal_word_def scan_run_take)
qed

lemma scan_line_at: "wal_text v \<Longrightarrow> scan_line 255 (v @ CHR 0x0A # r) = (v, CHR 0x0A # r)"
  using dropWhile_word [of v "CHR 0x0A # r"] scan_run_take [of v "\<lambda>c. c \<noteq> CHR 0x0A" 255 "CHR 0x0A # r"]
  by (auto simp: scan_line_def wal_text_def)

lemma scan_skip [simp]:
  "isspace c \<Longrightarrow> scan_word n (c # s) = scan_word n s" "isspace c \<Longrightarrow> scan_line n (c # s) = scan_line n s"
  by (simp_all add: scan_word_def scan_line_def)

lemma isspace_simps [simp]: "isspace CHR '' ''" "isspace CHR 0x0A"
  by (simp_all add: isspace_def)

lemma fscanf_newline [simp]: "fscanf_wal (CHR 0x0A # s) = fscanf_wal s"
  by (simp add: fscanf_wal_def)

lemma fscanf_Nil [simp]: "fscanf_wal [] = None"
  by (simp add: fscanf_wal_def scan_word_def scan_line_def numeral_eq_Suc)

lemma fscanf_enc:
  assumes "wal_rec_ok (c, k, v)"
  shows "fscanf_wal (enc (c, k, v) @ s) = Some (c, k, Some v, CHR 0x0A # s)"
proof -
  have w: "wal_word 15 c" "wal_word 255 k" "wal_text v" using assms by simp_all
  have 1: "scan_word 15 (c @ CHR '' '' # k @ CHR '' '' # v @ CHR 0x0A # s) = (c, CHR '' '' # k @ CHR '' '' # v @ CHR 0x0A # s)"
    by (rule scan_word_at [OF w(1)]) simp
  have 2: "scan_word 255 (k @ CHR '' '' # v @ CHR 0x0A # s) = (k, CHR '' '' # v @ CHR 0x0A # s)"
    by (rule scan_word_at [OF w(2)]) simp
  show ?thesis using 1 2 scan_line_at [OF w(3), of s] w
    by (simp add: fscanf_wal_def wal_word_def wal_text_def)
qed

text \<open>A record of two fields takes the whole line after it as its value.\<close>

lemma fscanf_two_fields:
  assumes "wal_word 15 c" and "wal_word 255 k" and "wal_text l"
  shows "fscanf_wal (c @ '' '' @ k @ CHR 0x0A # l @ CHR 0x0A # s) = Some (c, k, Some l, CHR 0x0A # s)"
proof -
  have 1: "scan_word 15 (c @ CHR '' '' # k @ CHR 0x0A # l @ CHR 0x0A # s) = (c, CHR '' '' # k @ CHR 0x0A # l @ CHR 0x0A # s)"
    by (rule scan_word_at [OF assms(1)]) simp
  have 2: "scan_word 255 (k @ CHR 0x0A # l @ CHR 0x0A # s) = (k, CHR 0x0A # l @ CHR 0x0A # s)"
    by (rule scan_word_at [OF assms(2)]) simp
  show ?thesis using 1 2 scan_line_at [OF assms(3), of s] assms
    by (simp add: fscanf_wal_def wal_word_def wal_text_def)
qed

subsection \<open>A file of records\<close>

fun replay_all :: "kvserver \<Rightarrow> wal_rec list \<Rightarrow> kvserver option" where
  "replay_all S [] = Some S"
| "replay_all S ((c, k, v) # rs) = do { S \<leftarrow> replay_cmd S c (Str k) (Str v); replay_all S rs }"

lemma replay_all_append: "replay_all S (rs @ rs') = do { S \<leftarrow> replay_all S rs; replay_all S rs' }"
  by (induction S rs rule: replay_all.induct) (auto intro: Option.bind_cong)

definition enc_all :: "wal_rec list \<Rightarrow> string" where
  "enc_all rs = concat (map enc rs)"

lemma replay_loop_newline: "replay_loop S (CHR 0x0A # s) v = replay_loop S s v"
  by (subst (1 2) replay_loop.simps) simp

lemma replay_loop_enc:
  "\<forall>r \<in> set rs. wal_rec_ok r \<Longrightarrow> replay_loop S (enc_all rs) buf = replay_all S rs"
proof (induction rs arbitrary: S buf)
  case Nil
  then show ?case by (simp add: enc_all_def replay_loop.simps)
next
  case (Cons r rs)
  obtain c k v where r: "r = (c, k, v)" by (cases r)
  have "fscanf_wal (enc_all (r # rs)) = Some (c, k, Some v, CHR 0x0A # enc_all rs)"
    using fscanf_enc [of c k v "enc_all rs"] Cons.prems by (simp add: enc_all_def r)
  then show ?case using Cons.IH Cons.prems
    by (subst replay_loop.simps) (auto simp: r replay_loop_newline intro!: Option.bind_cong)
qed

subsection \<open>The files of the log\<close>

text \<open>
  \<open>log_is F ps\<close>: the files hold whole records, \<open>ps 0\<close> in \<open>wal.log\<close> and \<open>ps i\<close> in the archive
  number \<open>i\<close>. \<open>log_recs\<close> lists the records from the oldest archive to \<open>wal.log\<close>.
\<close>

type_synonym parts = "nat \<Rightarrow> wal_rec list option"

definition log_is :: "(string \<rightharpoonup> string) \<Rightarrow> parts \<Rightarrow> bool" where
  "log_is F ps \<longleftrightarrow> F wal_name = map_option enc_all (ps 0) \<and>
     (\<forall>i \<in> {1..WAL_MAX_ARCHIVE}. F (archive_name i) = map_option enc_all (ps i)) \<and>
     (\<forall>i rs. ps i = Some rs \<longrightarrow> (\<forall>r \<in> set rs. wal_rec_ok r))"

fun part :: "parts \<Rightarrow> nat \<Rightarrow> wal_rec list" where
  "part ps i = (case ps i of None \<Rightarrow> [] | Some rs \<Rightarrow> rs)"

fun archived :: "parts \<Rightarrow> nat \<Rightarrow> wal_rec list" where
  "archived ps 0 = []"
| "archived ps (Suc i) = part ps (Suc i) @ archived ps i"

definition log_recs :: "parts \<Rightarrow> wal_rec list" where
  "log_recs ps = archived ps WAL_MAX_ARCHIVE @ part ps 0"

lemma archive_name_inj [simp]: "archive_name i = archive_name j \<longleftrightarrow> i = j"
  by (simp add: archive_name_def)

lemma archive_name_wal [simp]: "archive_name i \<noteq> wal_name" "wal_name \<noteq> archive_name i"
  by (simp_all add: archive_name_def wal_name_def)

definition same_env :: "kvserver \<Rightarrow> kvserver \<Rightarrow> bool" where
  "same_env S S' \<longleftrightarrow> sv_files S' = sv_files S \<and> sv_fopens S' = sv_fopens S \<and> sv_wal_fp S' = sv_wal_fp S"

lemma same_env_refl [simp]: "same_env S S"
  by (simp add: same_env_def)

lemma same_env_trans: "same_env S S' \<Longrightarrow> same_env S' S'' \<Longrightarrow> same_env S S''"
  by (simp add: same_env_def)

text \<open>The calls of the engines leave the files and the stream alone.\<close>

lemma engine_call_files:
  "kvstore_array_set S k v = Some (r, S') \<Longrightarrow> same_env S S'"
  "kvstore_array_del S k = Some (r, S') \<Longrightarrow> same_env S S'"
  "kvstore_array_mod S k v = Some (r, S') \<Longrightarrow> same_env S S'"
  "kvstore_rbtree_set S k v = Some (r, S') \<Longrightarrow> same_env S S'"
  "kvstore_rbtree_delete S k = Some (r, S') \<Longrightarrow> same_env S S'"
  "kvstore_rbtree_modify S k v = Some (r, S') \<Longrightarrow> same_env S S'"
  "kvstore_hash_set S k v = Some (r, S') \<Longrightarrow> same_env S S'"
  "kvstore_hash_del S k = Some (r, S') \<Longrightarrow> same_env S S'"
  "kvstore_hash_mod S k v = Some (r, S') \<Longrightarrow> same_env S S'"
  by (auto simp: kvstore_array_set_def kvstore_array_del_def kvstore_array_mod_def kvstore_rbtree_set_def
      kvstore_rbtree_delete_def kvstore_rbtree_modify_def kvstore_hash_set_def kvstore_hash_del_def
      kvstore_hash_mod_def same_env_def bind_eq_Some_conv)

lemma replay_cmd_cases:
  "replay_cmd S c k v \<in> {map_option snd (kvstore_array_set S k v), map_option snd (kvstore_array_del S k),
     map_option snd (kvstore_rbtree_set S k v), map_option snd (kvstore_rbtree_delete S k),
     map_option snd (kvstore_hash_set S k v), map_option snd (kvstore_hash_del S k), Some S}"
  by (simp only: replay_cmd_def insert_iff split: if_split) blast

lemma replay_cmd_files:
  "replay_cmd S c k v = Some S' \<Longrightarrow> same_env S S'"
  using replay_cmd_cases [of S c k v] by (auto dest!: sym [of "Some S'"] dest: engine_call_files)

lemma replay_all_files:
  "replay_all S rs = Some S' \<Longrightarrow> same_env S S'"
  by (induction S rs rule: replay_all.induct) (auto simp: bind_eq_Some_conv dest: replay_cmd_files intro: same_env_trans)

lemma replay_file_enc:
  assumes "sv_fopens S = []" and "sv_files S name = map_option enc_all p"
    and "\<forall>rs. p = Some rs \<longrightarrow> (\<forall>r \<in> set rs. wal_rec_ok r)"
  shows "replay_file S name = replay_all S (case p of None \<Rightarrow> [] | Some rs \<Rightarrow> rs)"
  using assms replay_loop_enc
  by (cases p) (auto simp: replay_file_def fopen_r_def fopen_outcome_def)

lemma replay_archives_enc:
  assumes "sv_fopens S = []" and "log_is (sv_files S) ps" and "n \<le> WAL_MAX_ARCHIVE"
  shows "replay_archives S n = replay_all S (archived ps n)"
  using assms
proof (induction n arbitrary: S)
  case (Suc n)
  have "replay_file S (archive_name (Suc n)) = replay_all S (part ps (Suc n))"
    using replay_file_enc [of S "archive_name (Suc n)" "ps (Suc n)"] Suc.prems by (auto simp: log_is_def)
  then show ?case using Suc
    by (auto simp: replay_all_append same_env_def dest!: replay_all_files intro!: Option.bind_cong)
qed simp

lemma wal_replay_enc:
  assumes "sv_fopens S = []" and "log_is (sv_files S) ps"
  shows "wal_replay S = replay_all S (log_recs ps)"
proof -
  have "replay_file S' wal_name = replay_all S' (part ps 0)" if "replay_all S (archived ps WAL_MAX_ARCHIVE) = Some S'" for S'
    using replay_file_enc [of S' wal_name "ps 0"] replay_all_files [OF that] assms by (auto simp: log_is_def same_env_def)
  then show ?thesis
    using replay_archives_enc [OF assms] by (auto simp: wal_replay_def log_recs_def replay_all_append intro!: Option.bind_cong)
qed

section \<open>Rotation and appending keep the log\<close>

lemma rotate_loop_other:
  "\<forall>i \<in> {1..Suc n}. name \<noteq> archive_name i \<Longrightarrow> rotate_loop n F name = F name"
  by (induction n arbitrary: F) (auto simp: rename_file_def split: option.splits)

text \<open>With the last archive free, every archive moves up by one.\<close>

lemma rotate_loop_shift:
  "F (archive_name (Suc n)) = None \<Longrightarrow> rotate_loop n F (archive_name 1) = None \<and>
     (\<forall>i \<in> {1..n}. rotate_loop n F (archive_name (Suc i)) = F (archive_name i))"
proof (induction n arbitrary: F)
  case (Suc n)
  let ?F = "rename_file F (archive_name (Suc n)) (archive_name (Suc (Suc n)))"
  have F: "?F (archive_name (Suc n)) = None" "?F (archive_name (Suc (Suc n))) = F (archive_name (Suc n))"
      "\<And>i. i \<le> n \<Longrightarrow> ?F (archive_name i) = F (archive_name i)"
    using Suc.prems by (auto simp: rename_file_def split: option.splits)
  have "rotate_loop n ?F (archive_name (Suc (Suc n))) = ?F (archive_name (Suc (Suc n)))"
    by (rule rotate_loop_other) simp
  then show ?case using Suc.IH [of ?F, OF F(1)] F by (auto simp: le_Suc_eq)
qed simp

definition shift_parts :: "parts \<Rightarrow> parts" where
  "shift_parts ps i = (if i = 0 then Some [] else ps (i - 1))"

lemma archived_shift: "archived (shift_parts ps) (Suc n) = archived ps n @ part ps 0"
  by (induction n) (simp_all add: shift_parts_def)

lemma enc_all_Nil [simp]: "enc_all [] = []"
  by (simp add: enc_all_def)

lemma rotate_wal_log:
  assumes "log_is (sv_files S) ps" and "ps WAL_MAX_ARCHIVE = None" and "sv_fopens S = []"
  shows "log_is (sv_files (rotate_wal S)) (shift_parts ps)" and "sv_fopens (rotate_wal S) = []"
    and "log_recs (shift_parts ps) = log_recs ps"
proof -
  let ?n = "WAL_MAX_ARCHIVE - 1"
  have n: "Suc ?n = WAL_MAX_ARCHIVE" and pos: "Suc 0 \<le> WAL_MAX_ARCHIVE" by (simp_all add: WAL_MAX_ARCHIVE_def)
  let ?F = "rotate_loop ?n (sv_files S)"
  have full: "sv_files S (archive_name (Suc ?n)) = None"
    using assms(1,2) pos unfolding n log_is_def by simp
  note sh = rotate_loop_shift [of "sv_files S", OF full]
  have w: "?F wal_name = map_option enc_all (ps 0)"
    using assms(1) by (subst rotate_loop_other) (auto simp: log_is_def)
  have r: "sv_files (rotate_wal S) = (rename_file ?F wal_name (archive_name 1))(wal_name \<mapsto> [])"
    using assms(3) by (simp add: rotate_wal_def fopen_w_def fopen_outcome_def Let_def)
  have "sv_files (rotate_wal S) (archive_name i) = map_option enc_all (shift_parts ps i)"
    if i: "i \<in> {1..WAL_MAX_ARCHIVE}" for i
  proof (cases "i = 1")
    case True
    then show ?thesis using w sh by (cases "ps 0") (auto simp: r rename_file_def shift_parts_def)
  next
    case False
    with i have j: "i - 1 \<in> {1..?n}" "Suc (i - 1) = i" by auto
    then have "?F (archive_name i) = sv_files S (archive_name (i - 1))" using sh by metis
    moreover have "sv_files S (archive_name (i - 1)) = map_option enc_all (ps (i - 1))"
      using assms(1) j by (auto simp: log_is_def)
    ultimately show ?thesis using False i by (auto simp: r rename_file_def shift_parts_def split: option.splits)
  qed
  then show "log_is (sv_files (rotate_wal S)) (shift_parts ps)"
    using assms(1) by (auto simp: log_is_def r shift_parts_def)
  show "sv_fopens (rotate_wal S) = []"
    using assms(3) by (simp add: rotate_wal_def fopen_w_def fopen_outcome_def Let_def)
  show "log_recs (shift_parts ps) = log_recs ps"
    using archived_shift [of ps ?n] archived.simps(2) [of ps ?n] assms(2)
    unfolding log_recs_def n by (simp add: shift_parts_def)
qed

lemma wal_line_rec: "wal_line c (Str k) (Str v) = Some (enc (c, k, v))"
  by (simp add: wal_line_def)

definition add_rec :: "parts \<Rightarrow> wal_rec \<Rightarrow> parts" where
  "add_rec ps r = ps(0 \<mapsto> part ps 0 @ [r])"

lemma archived_upd0: "archived (ps(0 := x)) n = archived ps n"
  by (induction n) auto

lemma log_recs_add: "log_recs (add_rec ps r) = log_recs ps @ [r]"
  by (simp add: log_recs_def add_rec_def archived_upd0)

lemma enc_all_snoc: "enc_all (rs @ [r]) = enc_all rs @ enc r"
  by (simp add: enc_all_def)

lemma log_is_add:
  assumes "log_is F ps" and "wal_rec_ok r"
  shows "log_is (F(wal_name \<mapsto> enc_all (part ps 0) @ enc r)) (add_rec ps r)"
  using assms by (auto simp: log_is_def add_rec_def enc_all_snoc split: option.splits) force+

text \<open>The state of the server without its files and stream.\<close>

definition same_engines :: "kvserver \<Rightarrow> kvserver \<Rightarrow> bool" where
  "same_engines S S' \<longleftrightarrow> sv_array S' = sv_array S \<and> sv_tree S' = sv_tree S \<and> sv_hash S' = sv_hash S \<and>
     sv_mallocs S' = sv_mallocs S"

lemma rotate_wal_engines: "same_engines S (rotate_wal S)"
  by (simp add: same_engines_def rotate_wal_def fopen_w_def fopen_outcome_def Let_def split: list.splits)

text \<open>
  \<open>wal_inv S rs\<close>: the files hold the records \<open>rs\<close>, every full archive at least \<open>WAL_MAX_SIZE\<close>
  bytes of them.
\<close>

definition wal_inv :: "kvserver \<Rightarrow> wal_rec list \<Rightarrow> bool" where
  "wal_inv S rs \<longleftrightarrow> sv_fopens S = [] \<and>
     (\<exists>ps b. log_is (sv_files S) ps \<and> log_recs ps = rs \<and> (\<forall>i > b. ps i = None) \<and>
        b * WAL_MAX_SIZE + length (enc_all (part ps 0)) \<le> length (enc_all rs))"

lemma wal_inv_replay: "wal_inv S rs \<Longrightarrow> wal_replay S = replay_all S rs"
  using wal_replay_enc by (auto simp: wal_inv_def)

lemma wal_inv_engines:
  "wal_inv S rs \<Longrightarrow> sv_files S' = sv_files S \<Longrightarrow> sv_fopens S' = sv_fopens S \<Longrightarrow> wal_inv S' rs"
  by (simp add: wal_inv_def)

text \<open>What one append writes, before the test for rotation.\<close>

lemma wal_append_text:
  assumes log: "log_is (sv_files S) ps" and op: "sv_fopens S = []"
  shows "\<exists>S0. same_engines S S0 \<and> sv_fopens S0 = [] \<and>
           sv_files S0 = (sv_files S)(wal_name \<mapsto> enc_all (part ps 0) @ enc (c, k, v)) \<and>
           wal_append S c (Str k) (Str v) =
             Some (if WAL_MAX_SIZE < length (enc_all (part ps 0) @ enc (c, k, v))
                   then rotate_wal (S0\<lparr>sv_wal_fp := False\<rparr>) else S0)"
proof -
  let ?S = "S\<lparr>sv_wal_fp := True, sv_files := (sv_files S)(wal_name \<mapsto> enc_all (part ps 0) @ enc (c, k, v))\<rparr>"
  have "sv_files S wal_name = map_option enc_all (ps 0)" using log by (simp add: log_is_def)
  then have "wal_append S c (Str k) (Str v) =
      Some (if WAL_MAX_SIZE < length (enc_all (part ps 0) @ enc (c, k, v))
            then rotate_wal (?S\<lparr>sv_wal_fp := False\<rparr>) else ?S)"
    using op by (cases "ps 0"; cases "sv_wal_fp S")
      (simp_all add: wal_append_def fopen_a_def fopen_outcome_def wal_line_rec Let_def del: enc.simps)
  then show ?thesis using op by (intro exI [of _ ?S]) (simp add: same_engines_def)
qed

lemma wal_append_inv:
  assumes inv: "wal_inv S rs" and r: "wal_rec_ok (c, k, v)"
    and small: "length (enc_all rs) < WAL_MAX_ARCHIVE * WAL_MAX_SIZE"
  shows "\<exists>S'. wal_append S c (Str k) (Str v) = Some S' \<and> same_engines S S' \<and> wal_inv S' (rs @ [(c, k, v)])"
proof -
  obtain ps b where ps: "log_is (sv_files S) ps" "log_recs ps = rs" "\<forall>i > b. ps i = None"
      "b * WAL_MAX_SIZE + length (enc_all (part ps 0)) \<le> length (enc_all rs)" and op: "sv_fopens S = []"
    using inv by (auto simp: wal_inv_def)
  let ?text = "enc_all (part ps 0) @ enc (c, k, v)" and ?ps = "add_rec ps (c, k, v)"
  obtain S0 where S0: "same_engines S S0" "sv_fopens S0 = []" "sv_files S0 = (sv_files S)(wal_name \<mapsto> ?text)"
      "wal_append S c (Str k) (Str v) =
         Some (if WAL_MAX_SIZE < length ?text then rotate_wal (S0\<lparr>sv_wal_fp := False\<rparr>) else S0)"
    using wal_append_text [OF ps(1) op] by blast
  have log: "log_is (sv_files S0) ?ps" using log_is_add [OF ps(1) r] S0(3) by simp
  have recs: "log_recs ?ps = rs @ [(c, k, v)]" using log_recs_add ps(2) by simp
  have size: "b * WAL_MAX_SIZE + length ?text \<le> length (enc_all (rs @ [(c, k, v)]))"
    using ps(4) by (simp add: enc_all_snoc)
  show ?thesis
  proof (cases "WAL_MAX_SIZE < length ?text")
    case False
    have "part ?ps 0 = part ps 0 @ [(c, k, v)]" by (simp add: add_rec_def)
    then have "wal_inv S0 (rs @ [(c, k, v)])"
      using S0(2) log recs size ps(3) unfolding wal_inv_def
      by (intro conjI exI [of _ ?ps] exI [of _ b]) (simp_all add: enc_all_snoc add_rec_def)
    with False S0(1,4) show ?thesis by auto
  next
    case True
    let ?S = "S0\<lparr>sv_wal_fp := False\<rparr>"
    have "b * WAL_MAX_SIZE < WAL_MAX_ARCHIVE * WAL_MAX_SIZE" using ps(4) small by linarith
    then have "b < WAL_MAX_ARCHIVE" by simp
    then have "?ps WAL_MAX_ARCHIVE = None" using ps(3) by (auto simp: add_rec_def WAL_MAX_ARCHIVE_def)
    note rot = rotate_wal_log [of ?S, simplified, OF log this S0(2)]
    have "\<forall>i > Suc b. shift_parts ?ps i = None" "part (shift_parts ?ps) 0 = []"
      using ps(3) by (auto simp: shift_parts_def add_rec_def)
    then have "wal_inv (rotate_wal ?S) (rs @ [(c, k, v)])"
      using rot recs size True unfolding wal_inv_def
      by (intro conjI exI [of _ "shift_parts ?ps"] exI [of _ "Suc b"]) (simp_all del: part.simps)
    moreover have "same_engines S (rotate_wal ?S)"
      using S0(1) rotate_wal_engines [of ?S] by (simp add: same_engines_def)
    ultimately show ?thesis using True S0(4) by auto
  qed
qed

section \<open>Properties\<close>

fun append_all :: "kvserver \<Rightarrow> wal_rec list \<Rightarrow> kvserver option" where
  "append_all S [] = Some S"
| "append_all S ((c, k, v) # rs) = do { S \<leftarrow> wal_append S c (Str k) (Str v); append_all S rs }"

lemma append_all_inv:
  assumes "wal_inv S rs0" and "\<forall>r \<in> set rs. wal_rec_ok r"
    and "length (enc_all (rs0 @ rs)) \<le> WAL_MAX_ARCHIVE * WAL_MAX_SIZE"
  shows "\<exists>S'. append_all S rs = Some S' \<and> wal_inv S' (rs0 @ rs)"
  using assms
proof (induction rs arbitrary: S rs0)
  case (Cons r rs)
  obtain c k v where r: "r = (c, k, v)" by (cases r)
  have "length (enc_all rs0) < WAL_MAX_ARCHIVE * WAL_MAX_SIZE"
    using Cons.prems(3) by (simp add: enc_all_def r)
  then obtain S1 where "wal_append S c (Str k) (Str v) = Some S1" "wal_inv S1 (rs0 @ [r])"
    using wal_append_inv [OF Cons.prems(1), of c k v] Cons.prems(2) r by auto
  with Cons.IH [of S1 "rs0 @ [r]"] Cons.prems show ?case by (simp add: r)
qed simp

lemma wal_inv_empty:
  assumes "sv_files S wal_name = None" and "\<forall>i. sv_files S (archive_name i) = None" and "sv_fopens S = []"
  shows "wal_inv S []"
proof -
  have "archived (\<lambda>_. None) n = []" for n by (induction n) auto
  then show ?thesis using assms unfolding wal_inv_def log_is_def log_recs_def
    by (intro conjI exI [of _ "\<lambda>_. None"] exI [of _ 0]) simp_all
qed


definition new_server :: kvserver where
  "new_server = \<lparr>sv_array = \<lparr>array_table = None, array_idx = 0\<rparr>, sv_tree = Tree,
     sv_hash = \<lparr>nodes = None, max_slots = 0, hcount = 0\<rparr>, sv_wal_fp = False, sv_files = Map.empty,
     sv_mallocs = [], sv_fopens = []\<rparr>"


text \<open>
  The record that DEL writes has two fields, and the replay takes the whole line after it
  as its third: whatever that next record was, it is not executed.
\<close>

theorem wal_del_swallows_next:
  assumes "wal_line ''DEL'' (Str k) Null = Some line" and "wal_word 255 k" and "wal_rec_ok r"
    and "length (enc r) \<le> 256" and "\<forall>x \<in> set rs. wal_rec_ok x"
  shows "replay_loop S (line @ enc r @ enc_all rs) buf =
           do { S \<leftarrow> map_option snd (kvstore_array_del S (Str k)); replay_all S rs }"
proof -
  obtain c k' v where r: "r = (c, k', v)" by (cases r)
  let ?l = "c @ '' '' @ k' @ '' '' @ v"
  have "wal_text ?l"
    using assms(3,4) by (cases c) (auto simp: r wal_text_def wal_word_def isspace_def)
  moreover have "wal_word 15 ''DEL''" by (simp add: wal_word_def isspace_def)
  moreover have "line @ enc r @ enc_all rs = ''DEL'' @ '' '' @ k @ CHR 0x0A # ?l @ CHR 0x0A # enc_all rs"
    using assms(1) by (auto simp: wal_line_def r)
  ultimately have "fscanf_wal (line @ enc r @ enc_all rs) = Some (''DEL'', k, Some ?l, CHR 0x0A # enc_all rs)"
    using fscanf_two_fields [OF _ assms(2)] by metis
  then show ?thesis using replay_loop_enc [OF assms(5)]
    by (subst replay_loop.simps) (simp add: replay_loop_newline replay_cmd_def)
qed

theorem wal_del_swallows_next_witness:
  "replay_loop new_server (''DEL a'' @ [CHR 0x0A] @ enc (''HSET'', ''b'', ''1'') @ enc_all []) Wild = Some new_server"
proof -
  have "kvstore_array_del new_server (Str ''a'') = Some (0, new_server)"
    by (simp add: kvstore_array_del_def new_server_def kvs_array_del_def)
  then show ?thesis
    using wal_del_swallows_next [of "''a''" "''DEL a'' @ [CHR 0x0A]" "(''HSET'', ''b'', ''1'')" "[]" new_server Wild]
    by (simp add: wal_line_def wal_word_def wal_text_def isspace_def)
qed

text \<open>
  When all archives exist, a rotation overwrites the oldest one with its successor: the
  records that only \<open>wal.log.4096\<close> held are lost.
\<close>

theorem rotate_drops_oldest:
  assumes "sv_files S (archive_name (WAL_MAX_ARCHIVE - 1)) = Some text"
  shows "sv_files (rotate_wal S) (archive_name WAL_MAX_ARCHIVE) = Some text"
proof -
  obtain n where n: "WAL_MAX_ARCHIVE = Suc (Suc n)" by (simp add: WAL_MAX_ARCHIVE_def)
  let ?F = "rename_file (sv_files S) (archive_name (Suc n)) (archive_name (Suc (Suc n)))"
  have "rotate_loop (WAL_MAX_ARCHIVE - 1) (sv_files S) (archive_name WAL_MAX_ARCHIVE) =
      rotate_loop n ?F (archive_name (Suc (Suc n)))" by (simp add: n)
  also have "\<dots> = ?F (archive_name (Suc (Suc n)))" by (rule rotate_loop_other) simp
  also have "\<dots> = Some text" using assms by (simp add: n rename_file_def)
  finally show ?thesis using n
    by (simp add: rotate_wal_def fopen_w_def fopen_outcome_def Let_def rename_file_def split: list.splits option.splits)
qed

theorem rotate_drops_oldest_witness:
  "sv_files (rotate_wal (new_server\<lparr>sv_files := [archive_name (WAL_MAX_ARCHIVE - 1) \<mapsto> ''new'',
      archive_name WAL_MAX_ARCHIVE \<mapsto> ''old'']\<rparr>)) (archive_name WAL_MAX_ARCHIVE) = Some ''new''"
proof -
  have "WAL_MAX_ARCHIVE - 1 \<noteq> WAL_MAX_ARCHIVE" by (simp add: WAL_MAX_ARCHIVE_def)
  then show ?thesis by (intro rotate_drops_oldest) simp
qed

end
