(* ===== verification/Protocol.thy ===== *)
theory Protocol
  imports Wal
begin

text \<open>
  The request handler of \<open>kvstore.c\<close>: splitting a request into tokens in the connection's
  buffer, dispatching the fifteen commands to the engines, the reply and the log record, and
  the start and end of the server.
\<close>

section \<open>Buffers and tokens\<close>

definition BUFFER_LENGTH :: nat where
  "BUFFER_LENGTH = 512"

definition KVSTORE_MAX_TOKEN :: nat where
  "KVSTORE_MAX_TOKEN = 128"

text \<open>
  A connection: \<open>rbuffer\<close> holds all the bytes of the receive buffer, \<open>wbuffer\<close> the string in the
  send buffer, before its NUL.
\<close>

record conn_item =
  rbuffer :: string
  rlen :: int
  wbuffer :: string
  wlen :: int

fun trim_newlines :: "string \<Rightarrow> nat \<Rightarrow> string" where
  "trim_newlines msg 0 = msg"
| "trim_newlines msg (Suc len) =
     (if msg ! len = CHR 0x0A \<or> msg ! len = CHR 0x0D then trim_newlines (msg[len := NUL]) len else msg)"

text \<open>
  \<open>strtok\<close> with the delimiter \<open>" "\<close>: from the saved position skip delimiters, then find the end
  of the token and overwrite the delimiter there. The result is the offset of the token (none
  at the end of the string), the position saved for the next call, and the buffer.
\<close>

fun skip_spaces :: "string \<Rightarrow> nat \<Rightarrow> nat option" where
  "skip_spaces [] i = None"
| "skip_spaces (c # s) i = (if c = CHR '' '' then skip_spaces s (Suc i) else Some i)"

fun token_end :: "string \<Rightarrow> nat \<Rightarrow> nat option" where
  "token_end [] i = None"
| "token_end (c # s) i = (if c = CHR '' '' \<or> c = NUL then Some i else token_end s (Suc i))"

definition strtok :: "string \<Rightarrow> nat \<Rightarrow> (nat option \<times> nat \<times> string) option" where
  "strtok buf p =
     do { i \<leftarrow> skip_spaces (drop p buf) p;
          if buf ! i = NUL then Some (None, i, buf)
          else do {
            j \<leftarrow> token_end (drop i buf) i;
            if buf ! j = NUL then Some (Some i, j, buf) else Some (Some i, Suc j, buf[j := NUL]) }}"

text \<open>The array of tokens has room for \<open>KVSTORE_MAX_TOKEN\<close>; storing one more is out of bounds.\<close>

partial_function (option) split_loop :: "string \<Rightarrow> nat \<Rightarrow> nat list \<Rightarrow> (nat list \<times> string) option" where
  "split_loop buf p tokens =
     do { (token, p, buf) \<leftarrow> strtok buf p;
          case token of
            None \<Rightarrow> Some (tokens, buf)
          | Some t \<Rightarrow>
              if length tokens < KVSTORE_MAX_TOKEN then split_loop buf p (tokens @ [t]) else None }"

definition kvstore_split_token :: "string \<Rightarrow> (nat list \<times> string) option" where
  "kvstore_split_token msg = split_loop msg 0 []"

text \<open>The slots of the token array that were not stored to are indeterminate.\<close>

definition token_ptr :: "string \<Rightarrow> nat list \<Rightarrow> nat \<Rightarrow> cptr" where
  "token_ptr buf tokens i =
     (if i < length tokens
      then (case cstr buf (tokens ! i) of None \<Rightarrow> Wild | Some s \<Rightarrow> Str s)
      else Wild)"

section \<open>Commands\<close>

datatype kv_cmd =
    KV_CMD_SET | KV_CMD_GET | KV_CMD_DEL | KV_CMD_MOD | KV_CMD_COUNT
  | KV_CMD_RSET | KV_CMD_RGET | KV_CMD_RDEL | KV_CMD_RMOD | KV_CMD_RCOUNT
  | KV_CMD_HSET | KV_CMD_HGET | KV_CMD_HDEL | KV_CMD_HMOD | KV_CMD_HCOUNT

definition commands :: "(string \<times> kv_cmd) list" where
  "commands =
     [(''SET'', KV_CMD_SET), (''GET'', KV_CMD_GET), (''DEL'', KV_CMD_DEL), (''MOD'', KV_CMD_MOD),
      (''COUNT'', KV_CMD_COUNT), (''RSET'', KV_CMD_RSET), (''RGET'', KV_CMD_RGET),
      (''RDEL'', KV_CMD_RDEL), (''RMOD'', KV_CMD_RMOD), (''RCOUNT'', KV_CMD_RCOUNT),
      (''HSET'', KV_CMD_HSET), (''HGET'', KV_CMD_HGET), (''HDEL'', KV_CMD_HDEL),
      (''HMOD'', KV_CMD_HMOD), (''HCOUNT'', KV_CMD_HCOUNT)]"

fun find_cmd :: "(string \<times> kv_cmd) list \<Rightarrow> string \<Rightarrow> kv_cmd option" where
  "find_cmd [] t = None"
| "find_cmd ((name, cmd) # cs) t = (if strcmp name t = 0 then Some cmd else find_cmd cs t)"

text \<open>The handler returns, or the process ends in \<open>assert (0)\<close>.\<close>

datatype 'a outcome = Returned 'a | Aborted

definition set_reply :: "int \<Rightarrow> string" where
  "set_reply res = (if res = 0 then ''SUCCESS'' else ''FAILED'')"

definition get_reply :: "cptr \<Rightarrow> string option" where
  "get_reply values =
     (if values \<noteq> Null then do { v \<leftarrow> deref values; Some (snprintf BUFFER_LENGTH v) } else Some ''NO EXIST'')"

definition upd_reply :: "int \<Rightarrow> string" where
  "upd_reply res = (if res < 0 then ''ERROR'' else if res = 0 then ''SUCCESS'' else ''NO EXIST'')"

definition count_reply :: "int \<Rightarrow> string" where
  "count_reply count = (if count < 0 then ''ERROR'' else snprintf BUFFER_LENGTH (dec (nat count)))"

text \<open>
  The cases of the switch, for each engine in turn: the reply and the server after the engine
  call and the log record.
\<close>

definition exec_array :: "kvserver \<Rightarrow> kv_cmd \<Rightarrow> cptr \<Rightarrow> cptr \<Rightarrow> (string \<times> kvserver) option" where
  "exec_array S cmd key value = (case cmd of
     KV_CMD_SET \<Rightarrow> do {
       (res, S) \<leftarrow> kvstore_array_set S key value;
       S \<leftarrow> wal_append S ''SET'' key value; Some (set_reply res, S) }
   | KV_CMD_GET \<Rightarrow> do {
       values \<leftarrow> kvstore_array_get S key; msg \<leftarrow> get_reply values; Some (msg, S) }
   | KV_CMD_DEL \<Rightarrow> do {
       (res, S) \<leftarrow> kvstore_array_del S key;
       S \<leftarrow> wal_append S ''DEL'' key Null; Some (upd_reply res, S) }
   | KV_CMD_MOD \<Rightarrow> do {
       (res, S) \<leftarrow> kvstore_array_mod S key value;
       S \<leftarrow> wal_append S ''MOD'' key value; Some (upd_reply res, S) }
   | KV_CMD_COUNT \<Rightarrow> Some (count_reply (kvstore_array_count S), S)
   | _ \<Rightarrow> None)"

definition exec_rbtree :: "kvserver \<Rightarrow> kv_cmd \<Rightarrow> cptr \<Rightarrow> cptr \<Rightarrow> (string \<times> kvserver) option" where
  "exec_rbtree S cmd key value = (case cmd of
     KV_CMD_RSET \<Rightarrow> do {
       (res, S) \<leftarrow> kvstore_rbtree_set S key value;
       S \<leftarrow> wal_append S ''RSET'' key value; Some (set_reply res, S) }
   | KV_CMD_RGET \<Rightarrow> do {
       values \<leftarrow> kvstore_rbtree_get S key; msg \<leftarrow> get_reply values;
       S \<leftarrow> wal_append S ''RGET'' key value; Some (msg, S) }
   | KV_CMD_RDEL \<Rightarrow> do {
       (res, S) \<leftarrow> kvstore_rbtree_delete S key;
       S \<leftarrow> wal_append S ''RDEL'' key value; Some (upd_reply res, S) }
   | KV_CMD_RMOD \<Rightarrow> do {
       (res, S) \<leftarrow> kvstore_rbtree_modify S key value;
       S \<leftarrow> wal_append S ''RMOD'' key value; Some (upd_reply res, S) }
   | KV_CMD_RCOUNT \<Rightarrow> Some (count_reply (kvstore_rbtree_count S), S)
   | _ \<Rightarrow> None)"

definition exec_hash :: "kvserver \<Rightarrow> kv_cmd \<Rightarrow> cptr \<Rightarrow> cptr \<Rightarrow> (string \<times> kvserver) option" where
  "exec_hash S cmd key value = (case cmd of
     KV_CMD_HSET \<Rightarrow> do {
       (res, S) \<leftarrow> kvstore_hash_set S key value;
       S \<leftarrow> wal_append S ''HSET'' key value; Some (set_reply res, S) }
   | KV_CMD_HGET \<Rightarrow> do {
       values \<leftarrow> kvstore_hash_get S key; msg \<leftarrow> get_reply values;
       S \<leftarrow> wal_append S ''HET'' key value; Some (msg, S) }
   | KV_CMD_HDEL \<Rightarrow> do {
       (res, S) \<leftarrow> kvstore_hash_del S key;
       S \<leftarrow> wal_append S ''HDEL'' key value; Some (upd_reply res, S) }
   | KV_CMD_HMOD \<Rightarrow> do {
       (res, S) \<leftarrow> kvstore_hash_mod S key value;
       S \<leftarrow> wal_append S ''HMOD'' key value; Some (upd_reply res, S) }
   | KV_CMD_HCOUNT \<Rightarrow> Some (count_reply (kvstore_hash_count S), S)
   | _ \<Rightarrow> None)"

definition exec_cmd :: "kvserver \<Rightarrow> kv_cmd \<Rightarrow> cptr \<Rightarrow> cptr \<Rightarrow> (string \<times> kvserver) option" where
  "exec_cmd S cmd key value =
     (if cmd \<in> {KV_CMD_SET, KV_CMD_GET, KV_CMD_DEL, KV_CMD_MOD, KV_CMD_COUNT} then exec_array S cmd key value
      else if cmd \<in> {KV_CMD_RSET, KV_CMD_RGET, KV_CMD_RDEL, KV_CMD_RMOD, KV_CMD_RCOUNT} then exec_rbtree S cmd key value
      else exec_hash S cmd key value)"

lemmas exec_cmd_defs = exec_cmd_def exec_array_def exec_rbtree_def exec_hash_def

definition kvstore_parser_protocol ::
  "kvserver \<Rightarrow> conn_item \<Rightarrow> (nat \<Rightarrow> cptr) \<Rightarrow> nat \<Rightarrow> (conn_item \<times> kvserver) outcome option" where
  "kvstore_parser_protocol S item tokens count =
     (if count = 0 then Some (Returned (item, S))
      else do {
        t \<leftarrow> deref (tokens 0);
        let key = tokens 1;
        let value = tokens 2;
        let item = item\<lparr>wbuffer := []\<rparr>;
        case find_cmd commands t of
          None \<Rightarrow> Some Aborted
        | Some cmd \<Rightarrow> do {
            (msg, S) \<leftarrow> exec_cmd S cmd key value;
            Some (Returned (item\<lparr>wbuffer := msg\<rparr>, S)) }})"

definition kvstore_requese :: "kvserver \<Rightarrow> conn_item \<Rightarrow> (conn_item \<times> kvserver) outcome option" where
  "kvstore_requese S item =
     do { s \<leftarrow> cstr (rbuffer item) 0;
          let msg = trim_newlines (rbuffer item) (length s);
          (tokens, msg) \<leftarrow> kvstore_split_token msg;
          kvstore_parser_protocol S (item\<lparr>rbuffer := msg\<rparr>) (token_ptr msg tokens) (length tokens) }"

section \<open>Start and end of the server\<close>

definition init_kvengine :: "kvserver \<Rightarrow> kvserver option" where
  "init_kvengine S =
     (let (_, a, ms) = kvstore_array_create (sv_array S) (sv_mallocs S)
      in do {
        (_, T, ms) \<leftarrow> kvstore_rbtree_create (sv_tree S) ms;
        let (_, h, ms) = kvstore_hash_create (sv_hash S) ms;
        wal_replay (S\<lparr>sv_array := a, sv_tree := T, sv_hash := h, sv_mallocs := ms\<rparr>) })"

definition exit_kvengine :: "kvserver \<Rightarrow> kvserver option" where
  "exit_kvengine S =
     do { let a = kvstore_array_destory (sv_array S);
          T \<leftarrow> kvstore_rbtree_destory (sv_tree S);
          (h, _) \<leftarrow> kvstore_hash_destory (sv_hash S);
          Some (S\<lparr>sv_array := a, sv_tree := T, sv_hash := h\<rparr>) }"

section \<open>Tokens are the words of the request\<close>

text \<open>The reference: the maximal runs of characters other than a space.\<close>

function words :: "string \<Rightarrow> string list" where
  "words [] = []"
| "words (c # s) =
     (if c = CHR '' '' then words s
      else (c # takeWhile (\<lambda>d. d \<noteq> CHR '' '') s) # words (dropWhile (\<lambda>d. d \<noteq> CHR '' '') s))"
  by pat_completeness auto
termination
  by (relation "measure length") (auto simp: le_imp_less_Suc length_dropWhile_le)

lemma cstr_update:
  assumes "cstr buf k = Some w" and "k + length w < j"
  shows "cstr (buf[j := x]) k = Some w"
proof -
  obtain t where t: "NUL \<notin> set w" "drop k buf = w @ NUL # t" using assms(1) by (auto simp: cstr_Some)
  obtain m where j: "j = k + (length w + Suc m)" using less_imp_Suc_add [OF assms(2)] by auto
  have "drop k (buf[j := x]) = (w @ NUL # t)[length w + Suc m := x]" using t(2) by (simp add: j drop_update_swap)
  moreover have "(w @ NUL # t)[length w + Suc m := x] = w @ NUL # t[m := x]" by (simp add: list_update_append)
  ultimately show ?thesis using t(1) by (auto simp: cstr_Some)
qed

text \<open>The first word, the spaces before it and what follows it.\<close>

lemma words_Cons:
  assumes "words s = w # ws"
  obtains sp u where "s = sp @ w @ u" and "\<forall>c \<in> set sp. c = CHR '' ''" and "w \<noteq> []"
    and "\<forall>c \<in> set w. c \<noteq> CHR '' ''" and "u = [] \<or> hd u = CHR '' ''" and "words u = ws"
  using assms
proof (induction s arbitrary: thesis)
  case (Cons c s)
  show ?case
  proof (cases "c = CHR '' ''")
    case True
    with Cons.prems(2) have "words s = w # ws" by simp
    from Cons.IH [OF _ this] show ?thesis using Cons.prems(1) [of "c # _"] True
      by (metis append_Cons set_ConsD)
  next
    case False
    let ?u = "dropWhile (\<lambda>d. d \<noteq> CHR '' '') s"
    have "w = c # takeWhile (\<lambda>d. d \<noteq> CHR '' '') s" "words ?u = ws" using Cons.prems(2) False by auto
    then show ?thesis using False hd_dropWhile [of "\<lambda>d. d \<noteq> CHR '' ''" s]
      by (intro Cons.prems(1) [of "[]" ?u]) (auto dest: set_takeWhileD)
  qed
qed simp

lemma words_Nil: "words s = [] \<Longrightarrow> \<forall>c \<in> set s. c = CHR '' ''"
  by (induction s) (auto split: if_splits)

lemma skip_spaces_eq:
  "\<forall>c \<in> set sp. c = CHR '' '' \<Longrightarrow> c \<noteq> CHR '' '' \<Longrightarrow> skip_spaces (sp @ c # r) i = Some (i + length sp)"
  by (induction sp arbitrary: i) auto

lemma token_end_eq:
  "\<forall>c \<in> set w. c \<noteq> CHR '' '' \<and> c \<noteq> NUL \<Longrightarrow> c = CHR '' '' \<or> c = NUL \<Longrightarrow>
     token_end (w @ c # r) i = Some (i + length w)"
  by (induction w arbitrary: i) auto

lemma drop_append_at: "drop p buf = s @ r \<Longrightarrow> drop (p + length s) buf = r"
  by (metis add.commute append_eq_conv_conj drop_drop)

lemma nth_of_drop: "drop p buf = c # r \<Longrightarrow> buf ! p = c"
  by (simp add: nth_via_drop)

lemma strtok_end:
  assumes "drop p buf = s @ NUL # r" and "words s = []"
  shows "\<exists>i. strtok buf p = Some (None, i, buf)"
  using assms(1) skip_spaces_eq [OF words_Nil [OF assms(2)], of NUL r p] nth_of_drop [OF drop_append_at [OF assms(1)]]
  by (simp add: strtok_def)

text \<open>
  A call that finds a token: its string in the buffer, where the next call starts, and that
  the strings before it are not touched.
\<close>

lemma strtok_token:
  assumes d: "drop p buf = s @ NUL # r" and nul: "NUL \<notin> set s" and ws: "words s = w # ws"
  obtains i p' buf' s' where "strtok buf p = Some (Some i, p', buf')" and "drop p' buf' = s' @ NUL # r"
    and "NUL \<notin> set s'" and "words s' = ws" and "length buf' = length buf" and "cstr buf' i = Some w"
    and "i + length w < p' \<or> s' = []" and "p \<le> p'"
    and "\<forall>k v. cstr buf k = Some v \<longrightarrow> k + length v < p \<longrightarrow> cstr buf' k = Some v"
proof -
  obtain sp u where s: "s = sp @ w @ u" "\<forall>c \<in> set sp. c = CHR '' ''" "w \<noteq> []" "\<forall>c \<in> set w. c \<noteq> CHR '' ''"
      "u = [] \<or> hd u = CHR '' ''" "words u = ws"
    by (rule words_Cons [OF ws])
  obtain c w' where w: "w = c # w'" using s(3) by (cases w) auto
  let ?i = "p + length sp" and ?j = "p + length sp + length w"
  have di: "drop ?i buf = w @ u @ NUL # r" using drop_append_at [of p buf sp] d s(1) by simp
  have dj: "drop ?j buf = u @ NUL # r" using drop_append_at [OF di] by simp
  have nw: "NUL \<notin> set w" "NUL \<notin> set u" using nul s(1) by auto
  have sk: "skip_spaces (drop p buf) p = Some ?i"
    using skip_spaces_eq [OF s(2), of c "w' @ u @ NUL # r" p] s(1,4) d w by simp
  have bi: "buf ! ?i \<noteq> NUL" using nth_of_drop [of ?i buf c] di w nw(1) by auto
  have wok: "\<forall>c \<in> set w. c \<noteq> CHR '' '' \<and> c \<noteq> NUL" using s(4) nw(1) by auto
  show thesis
  proof (cases u)
    case Nil
    have "token_end (drop ?i buf) ?i = Some ?j" using token_end_eq [OF wok, of NUL r ?i] di Nil by simp
    moreover have "buf ! ?j = NUL" using nth_of_drop [of ?j buf NUL r] dj Nil by simp
    ultimately have st: "strtok buf p = Some (Some ?i, ?j, buf)" using sk bi by (simp add: strtok_def)
    have "cstr buf ?i = Some w" using di nw(1) Nil by (auto simp: cstr_Some)
    then show thesis using st dj Nil s(6) by (intro that [of ?i ?j buf "[]"]) auto
  next
    case (Cons b u')
    then have b: "b = CHR '' ''" using s(5) by simp
    let ?b = "buf[?j := NUL]"
    have "token_end (drop ?i buf) ?i = Some ?j" using token_end_eq [OF wok, of b "u' @ NUL # r" ?i] di Cons b by simp
    moreover have "buf ! ?j = CHR '' ''" using nth_of_drop [of ?j buf b] dj Cons b by simp
    ultimately have st: "strtok buf p = Some (Some ?i, Suc ?j, ?b)" using sk bi by (simp add: strtok_def)
    have "drop ?i ?b = w @ NUL # u' @ NUL # r" using di Cons by (simp add: drop_update_swap list_update_append)
    then have "cstr ?b ?i = Some w" using nw(1) by (auto simp: cstr_Some)
    moreover have "drop (Suc ?j) ?b = u' @ NUL # r"
      using drop_append_at [of ?j buf "[b]" "u' @ NUL # r"] dj Cons by simp
    moreover have "words u' = ws" "NUL \<notin> set u'" using s(6) Cons b nw(2) by auto
    moreover have "cstr ?b k = Some v" if "cstr buf k = Some v" "k + length v < p" for k v
      by (rule cstr_update [OF that(1)]) (use that(2) in simp)
    ultimately show thesis using st by (intro that [of ?i "Suc ?j" ?b u']) auto
  qed
qed

lemma split_loop_words:
  assumes "drop p buf = s @ NUL # r" and "NUL \<notin> set s"
    and "length toks + length (words s) \<le> KVSTORE_MAX_TOKEN"
  shows "\<exists>toks' buf'. split_loop buf p toks = Some (toks @ toks', buf') \<and>
           map (cstr buf') toks' = map Some (words s) \<and> length buf' = length buf \<and>
           (\<forall>k v. cstr buf k = Some v \<longrightarrow> k + length v < p \<or> s = [] \<longrightarrow> cstr buf' k = Some v)"
  using assms
proof (induction "words s" arbitrary: p buf s toks)
  case Nil
  obtain i where "strtok buf p = Some (None, i, buf)" using strtok_end [OF Nil.prems(1)] Nil.hyps by auto
  then show ?case using Nil.hyps by (intro exI [of _ "[]"] exI [of _ buf]) (auto simp: split_loop.simps)
next
  case (Cons w ws)
  note ws = Cons.hyps(2) [symmetric]
  have ne: "s \<noteq> []" using ws by auto
  obtain i p' buf' s' where st: "strtok buf p = Some (Some i, p', buf')" "drop p' buf' = s' @ NUL # r"
      "NUL \<notin> set s'" "words s' = ws" "length buf' = length buf" "cstr buf' i = Some w"
      "i + length w < p' \<or> s' = []" "p \<le> p'"
      "\<forall>k v. cstr buf k = Some v \<longrightarrow> k + length v < p \<longrightarrow> cstr buf' k = Some v"
    by (rule strtok_token [OF Cons.prems(1,2) ws])
  have "length (toks @ [i]) + length (words s') \<le> KVSTORE_MAX_TOKEN"
    using Cons.prems(3) st(4) by (simp add: ws)
  from Cons.hyps(1) [OF st(4) [symmetric] st(2,3) this] obtain toks' buf'' where
    IH: "split_loop buf' p' (toks @ [i]) = Some ((toks @ [i]) @ toks', buf'')"
      "map (cstr buf'') toks' = map Some ws" "length buf'' = length buf'"
      "\<forall>k v. cstr buf' k = Some v \<longrightarrow> k + length v < p' \<or> s' = [] \<longrightarrow> cstr buf'' k = Some v"
    unfolding st(4) by blast
  have "length toks < KVSTORE_MAX_TOKEN" using Cons.prems(3) by (simp add: ws)
  then have "split_loop buf p toks = Some (toks @ (i # toks'), buf'')"
    using st(1) IH(1) by (simp add: split_loop.simps [of buf p])
  moreover have "map (cstr buf'') (i # toks') = map Some (words s)"
    using IH(2) IH(4) [rule_format, OF st(6,7)] by (simp add: ws)
  moreover have "cstr buf'' k = Some v" if "cstr buf k = Some v" "k + length v < p" for k v
    using IH(4) st(8,9) that by (meson less_le_trans)
  ultimately show ?case using IH(3) st(5) ne by (intro exI [of _ "i # toks'"] exI [of _ buf'']) auto
qed

lemma split_loop_overflow:
  assumes "drop p buf = s @ NUL # r" and "NUL \<notin> set s" and "length toks \<le> KVSTORE_MAX_TOKEN"
    and "KVSTORE_MAX_TOKEN < length toks + length (words s)"
  shows "split_loop buf p toks = None"
  using assms
proof (induction "words s" arbitrary: p buf s toks)
  case (Cons w ws)
  obtain i p' buf' s' where st: "strtok buf p = Some (Some i, p', buf')" "drop p' buf' = s' @ NUL # r"
      "NUL \<notin> set s'" "words s' = ws"
    by (rule strtok_token [OF Cons.prems(1,2) Cons.hyps(2) [symmetric]])
  show ?case
  proof (cases "length toks < KVSTORE_MAX_TOKEN")
    case True
    have "split_loop buf' p' (toks @ [i]) = None"
      by (rule Cons.hyps(1) [OF st(4) [symmetric] st(2,3)])
        (use True Cons.prems(4) st(4) in \<open>auto simp flip: Cons.hyps(2)\<close>)
    then show ?thesis using st(1) True by (simp add: split_loop.simps [of buf p])
  next
    case False
    then show ?thesis using st(1) by (simp add: split_loop.simps [of buf p])
  qed
qed simp

text \<open>A line without its trailing newlines and carriage returns.\<close>

definition chomp :: "string \<Rightarrow> string" where
  "chomp s = rev (dropWhile (\<lambda>c. c = CHR 0x0A \<or> c = CHR 0x0D) (rev s))"

lemma trim_newlines_eq:
  "\<exists>n. trim_newlines (s @ t) (length s) = chomp s @ replicate n NUL @ t"
proof (induction s arbitrary: t rule: rev_induct)
  case (snoc c s)
  show ?case
  proof (cases "c = CHR 0x0A \<or> c = CHR 0x0D")
    case True
    obtain n where "trim_newlines (s @ NUL # t) (length s) = chomp s @ replicate n NUL @ NUL # t"
      using snoc by blast
    then have "trim_newlines ((s @ [c]) @ t) (length (s @ [c])) = chomp (s @ [c]) @ replicate (Suc n) NUL @ t"
      using True by (simp add: chomp_def nth_append list_update_append replicate_app_Cons_same)
    then show ?thesis ..
  next
    case False
    then show ?thesis by (intro exI [of _ 0]) (simp add: chomp_def nth_append)
  qed
qed (simp add: chomp_def)

lemma chomp_set: "set (chomp s) \<subseteq> set s"
  by (auto simp: chomp_def dest: set_dropWhileD)

lemma requese_split:
  assumes "rbuffer item = s @ NUL # r" and "NUL \<notin> set s"
  obtains msg t where "cstr (rbuffer item) 0 = Some s" and "trim_newlines (rbuffer item) (length s) = msg"
    and "drop 0 msg = chomp s @ NUL # t" and "NUL \<notin> set (chomp s)"
proof -
  obtain n where "trim_newlines (rbuffer item) (length s) = chomp s @ replicate n NUL @ NUL # r"
    using trim_newlines_eq [of s "NUL # r"] assms(1) by auto
  then have "trim_newlines (rbuffer item) (length s) = chomp s @ NUL # replicate n NUL @ r"
    by (simp add: replicate_app_Cons_same)
  moreover have "cstr (rbuffer item) 0 = Some s" using assms by (auto simp: cstr_Some)
  moreover have "NUL \<notin> set (chomp s)" using assms(2) chomp_set by blast
  ultimately show thesis by (intro that [of _ "replicate n NUL @ r"]) simp_all
qed

definition tok_fun :: "string list \<Rightarrow> nat \<Rightarrow> cptr" where
  "tok_fun ws i = (if i < length ws then Str (ws ! i) else Wild)"

lemma token_ptr_words: "map (cstr buf) toks = map Some ws \<Longrightarrow> token_ptr buf toks = tok_fun ws"
  by (rule ext) (simp add: token_ptr_def tok_fun_def list_eq_iff_nth_eq)

lemma requese_words:
  assumes "rbuffer item = s @ NUL # r" and "NUL \<notin> set s" and "length (words (chomp s)) \<le> KVSTORE_MAX_TOKEN"
  shows "\<exists>msg. length msg = length (rbuffer item) \<and> kvstore_requese S item =
           kvstore_parser_protocol S (item\<lparr>rbuffer := msg\<rparr>) (tok_fun (words (chomp s))) (length (words (chomp s)))"
proof -
  obtain msg t where msg: "cstr (rbuffer item) 0 = Some s" "trim_newlines (rbuffer item) (length s) = msg"
      "drop 0 msg = chomp s @ NUL # t" "NUL \<notin> set (chomp s)"
    by (rule requese_split [OF assms(1,2)])
  obtain toks buf where tk: "split_loop msg 0 [] = Some (toks, buf)" "map (cstr buf) toks = map Some (words (chomp s))"
      "length buf = length msg"
    using split_loop_words [OF msg(3,4), of "[]"] assms(3) by auto
  have "length (trim_newlines b n) = length b" for b n by (induction b n rule: trim_newlines.induct) auto
  moreover have "length toks = length (words (chomp s))" using tk(2) map_eq_imp_length_eq by blast
  ultimately show ?thesis using msg(1,2) tk token_ptr_words [OF tk(2)]
    by (intro exI [of _ buf]) (auto simp: kvstore_requese_def kvstore_split_token_def)
qed

section \<open>Recovery\<close>

text \<open>Replaying a record does not depend on the files and the stream.\<close>

definition upd_env :: "(string \<rightharpoonup> string) \<Rightarrow> bool \<Rightarrow> kvserver \<Rightarrow> kvserver" where
  "upd_env F b S = S\<lparr>sv_files := F, sv_wal_fp := b\<rparr>"

lemma engine_call_env:
  "map_option snd (kvstore_array_set (upd_env F b S) k v) = map_option (upd_env F b) (map_option snd (kvstore_array_set S k v))"
  "map_option snd (kvstore_array_del (upd_env F b S) k) = map_option (upd_env F b) (map_option snd (kvstore_array_del S k))"
  "map_option snd (kvstore_rbtree_set (upd_env F b S) k v) = map_option (upd_env F b) (map_option snd (kvstore_rbtree_set S k v))"
  "map_option snd (kvstore_rbtree_delete (upd_env F b S) k) = map_option (upd_env F b) (map_option snd (kvstore_rbtree_delete S k))"
  "map_option snd (kvstore_hash_set (upd_env F b S) k v) = map_option (upd_env F b) (map_option snd (kvstore_hash_set S k v))"
  "map_option snd (kvstore_hash_del (upd_env F b S) k) = map_option (upd_env F b) (map_option snd (kvstore_hash_del S k))"
  by (auto simp: upd_env_def kvstore_array_set_def kvstore_array_del_def kvstore_rbtree_set_def
      kvstore_rbtree_delete_def kvstore_hash_set_def kvstore_hash_del_def split: Option.bind_split)

lemma replay_cmd_env: "replay_cmd (upd_env F b S) c k v = map_option (upd_env F b) (replay_cmd S c k v)"
  by (simp only: replay_cmd_def engine_call_env if_distrib [of "map_option (upd_env F b)"] option.map)

lemma replay_all_env: "replay_all (upd_env F b S) rs = map_option (upd_env F b) (replay_all S rs)"
proof (induction rs arbitrary: S)
  case (Cons r rs)
  obtain c k v where "r = (c, k, v)" by (cases r)
  then show ?case using Cons by (cases "replay_cmd S c (Str k) (Str v)") (simp_all add: replay_cmd_env)
qed simp

lemma upd_env_engines:
  "same_engines S S' \<Longrightarrow> sv_fopens S' = sv_fopens S \<Longrightarrow> S' = upd_env (sv_files S') (sv_wal_fp S') S"
  by (simp add: same_engines_def upd_env_def)

lemma same_engines_upd [simp]: "same_engines S (upd_env F b S')  = same_engines S S'"
  "same_engines (upd_env F b S) S' = same_engines S S'"
  by (simp_all add: same_engines_def upd_env_def)

subsection \<open>Requests that the log carries\<close>

text \<open>
  The requests whose effect a replay reproduces: reads of the counters and of the array, and
  the three-word forms of the commands below, with words that fit the fields of the log.
\<close>

definition logged_cmds :: "string list" where
  "logged_cmds = [''SET'', ''RSET'', ''RDEL'', ''RGET'', ''HSET'', ''HDEL'', ''HGET'']"

fun durable :: "string list \<Rightarrow> bool" where
  "durable [c] \<longleftrightarrow> c \<in> {''COUNT'', ''RCOUNT'', ''HCOUNT''}"
| "durable [c, k] \<longleftrightarrow> c = ''GET''"
| "durable [c, k, v] \<longleftrightarrow> c \<in> set logged_cmds \<and> wal_word 255 k \<and> wal_word 255 v"
| "durable _ = False"

fun log_of :: "string list \<Rightarrow> wal_rec list" where
  "log_of [c, k, v] = [(if c = ''HGET'' then ''HET'' else c, k, v)]"
| "log_of _ = []"

text \<open>Engines in order, with room for \<open>n\<close> more requests.\<close>

definition server_ok :: "nat \<Rightarrow> kvserver \<Rightarrow> bool" where
  "server_ok n S \<longleftrightarrow> arr_dense (sv_array S) \<and> rb_inv (sv_tree S) \<and> hash_inv (sv_hash S) \<and>
     n \<le> rb_space (sv_tree S) \<and> n \<le> hash_space (sv_hash S) \<and> sv_mallocs S = []"

lemma server_ok_engines: "server_ok n S \<Longrightarrow> same_engines S S' \<Longrightarrow> server_ok n S'"
  by (simp add: server_ok_def same_engines_def)

lemma server_ok_mono: "server_ok n S \<Longrightarrow> m \<le> n \<Longrightarrow> server_ok m S"
  by (simp add: server_ok_def)

lemma array_set_ok:
  assumes "server_ok n S"
  shows "\<exists>r S'. kvstore_array_set S (Str k) (Str v) = Some (r, S') \<and> server_ok n S'"
proof (cases "array_idx (sv_array S) < KVS_ARRAY_SIZE")
  case True
  then show ?thesis using arr_dense_set [of "sv_array S" k v] assms
    by (auto simp: server_ok_def kvstore_array_set_def)
next
  case False
  then have "array_idx (sv_array S) = KVS_ARRAY_SIZE"
    using array_idx_le [of "sv_array S"] assms by (simp add: server_ok_def arr_dense_def)
  then show ?thesis using assms by (simp add: server_ok_def kvstore_array_set_def kvs_array_set_def)
qed

lemma rbtree_set_ok:
  "server_ok (Suc n) S \<Longrightarrow> \<exists>r S'. kvstore_rbtree_set S (Str k) (Str v) = Some (r, S') \<and> server_ok n S'"
  using kvs_rbtree.put_view [of "sv_tree S" k v] by (auto simp: server_ok_def kvstore_rbtree_set_def)

lemma hash_set_ok:
  "server_ok (Suc n) S \<Longrightarrow> \<exists>r S'. kvstore_hash_set S (Str k) (Str v) = Some (r, S') \<and> server_ok n S'"
  using kvs_hash.put_view [of "sv_hash S" k v] by (auto simp: server_ok_def kvstore_hash_set_def)

lemma rbtree_delete_ok:
  "server_ok n S \<Longrightarrow> \<exists>r S'. kvstore_rbtree_delete S (Str k) = Some (r, S') \<and> server_ok n S'"
  using kvs_rbtree.del_hit [of "sv_tree S" k] kvs_rbtree.del_miss [of "sv_tree S" k]
  by (cases "rb_view (sv_tree S) k") (fastforce simp: server_ok_def kvstore_rbtree_delete_def)+

lemma hash_del_ok:
  "server_ok n S \<Longrightarrow> \<exists>r S'. kvstore_hash_del S (Str k) = Some (r, S') \<and> server_ok n S'"
  using kvs_hash.del_hit [of "sv_hash S" k] kvs_hash.del_miss [of "sv_hash S" k]
  by (cases "hash_view (sv_hash S) k") (fastforce simp: server_ok_def kvstore_hash_del_def)+

lemma get_reply_ptr: "\<exists>msg. get_reply (ptr_of x) = Some msg"
  by (cases x) (auto simp: get_reply_def)

text \<open>
  One logged request: the engine call \<open>S1\<close> is what a replay of the record does, and the append
  of the record follows.
\<close>

definition step_ok :: "nat \<Rightarrow> kvserver \<Rightarrow> wal_rec list \<Rightarrow> string list \<Rightarrow> kv_cmd \<Rightarrow> bool" where
  "step_ok n S rs ws cmd \<longleftrightarrow> (\<exists>msg S' S1. exec_cmd S cmd (tok_fun ws 1) (tok_fun ws 2) = Some (msg, S') \<and>
     wal_inv S' (rs @ log_of ws) \<and> replay_all S (log_of ws) = Some S1 \<and> same_engines S1 S' \<and> server_ok n S')"

lemma step_okI:
  assumes "same_env S S1" and "server_ok n S1" and "wal_inv S rs" and "wal_rec_ok (c', k, v)"
    and "length (enc_all rs) < WAL_MAX_ARCHIVE * WAL_MAX_SIZE" and "log_of [c, k, v] = [(c', k, v)]"
    and "replay_cmd S c' (Str k) (Str v) = Some S1"
    and "exec_cmd S cmd (Str k) (Str v) = map_option (Pair msg) (wal_append S1 c' (Str k) (Str v))"
  shows "step_ok n S rs [c, k, v] cmd"
proof -
  have "wal_inv S1 rs" using assms(1,3) wal_inv_engines by (auto simp: same_env_def)
  then obtain S' where "wal_append S1 c' (Str k) (Str v) = Some S'" "same_engines S1 S'" "wal_inv S' (rs @ [(c', k, v)])"
    using wal_append_inv assms(4,5) by blast
  moreover have "tok_fun [c, k, v] 1 = Str k" "tok_fun [c, k, v] 2 = Str v" by (simp_all add: tok_fun_def)
  ultimately show ?thesis unfolding step_ok_def assms(6)
    using assms(7,8) server_ok_engines [OF assms(2)] by auto
qed

text \<open>What the log says for each of these commands, and what the handler does.\<close>

lemma replay_cmd_simps:
  "replay_cmd S ''SET'' k v = map_option snd (kvstore_array_set S k v)"
  "replay_cmd S ''RSET'' k v = map_option snd (kvstore_rbtree_set S k v)"
  "replay_cmd S ''RMOD'' k v = map_option snd (kvstore_rbtree_set S k v)"
  "replay_cmd S ''RDEL'' k v = map_option snd (kvstore_rbtree_delete S k)"
  "replay_cmd S ''HSET'' k v = map_option snd (kvstore_hash_set S k v)"
  "replay_cmd S ''HMOD'' k v = map_option snd (kvstore_hash_set S k v)"
  "replay_cmd S ''HDEL'' k v = map_option snd (kvstore_hash_del S k)"
  "replay_cmd S ''RGET'' k v = Some S" "replay_cmd S ''HET'' k v = Some S"
  by (simp_all add: replay_cmd_def)

lemma find_cmd_simps:
  "find_cmd commands ''SET'' = Some KV_CMD_SET" "find_cmd commands ''GET'' = Some KV_CMD_GET"
  "find_cmd commands ''COUNT'' = Some KV_CMD_COUNT"
  "find_cmd commands ''RSET'' = Some KV_CMD_RSET" "find_cmd commands ''RGET'' = Some KV_CMD_RGET"
  "find_cmd commands ''RDEL'' = Some KV_CMD_RDEL" "find_cmd commands ''RMOD'' = Some KV_CMD_RMOD"
  "find_cmd commands ''RCOUNT'' = Some KV_CMD_RCOUNT"
  "find_cmd commands ''HSET'' = Some KV_CMD_HSET" "find_cmd commands ''HGET'' = Some KV_CMD_HGET"
  "find_cmd commands ''HDEL'' = Some KV_CMD_HDEL" "find_cmd commands ''HMOD'' = Some KV_CMD_HMOD"
  "find_cmd commands ''HCOUNT'' = Some KV_CMD_HCOUNT"
  by (simp_all add: commands_def)

lemma exec_cmd_write:
  "kvstore_array_set S k v = Some (r, S1) \<Longrightarrow>
     exec_cmd S KV_CMD_SET k v = map_option (Pair (set_reply r)) (wal_append S1 ''SET'' k v)"
  "kvstore_rbtree_set S k v = Some (r, S1) \<Longrightarrow>
     exec_cmd S KV_CMD_RSET k v = map_option (Pair (set_reply r)) (wal_append S1 ''RSET'' k v)"
  "kvstore_rbtree_delete S k = Some (r, S1) \<Longrightarrow>
     exec_cmd S KV_CMD_RDEL k v = map_option (Pair (upd_reply r)) (wal_append S1 ''RDEL'' k v)"
  "kvstore_rbtree_modify S k v = Some (r, S1) \<Longrightarrow>
     exec_cmd S KV_CMD_RMOD k v = map_option (Pair (upd_reply r)) (wal_append S1 ''RMOD'' k v)"
  "kvstore_hash_set S k v = Some (r, S1) \<Longrightarrow>
     exec_cmd S KV_CMD_HSET k v = map_option (Pair (set_reply r)) (wal_append S1 ''HSET'' k v)"
  "kvstore_hash_del S k = Some (r, S1) \<Longrightarrow>
     exec_cmd S KV_CMD_HDEL k v = map_option (Pair (upd_reply r)) (wal_append S1 ''HDEL'' k v)"
  "kvstore_hash_mod S k v = Some (r, S1) \<Longrightarrow>
     exec_cmd S KV_CMD_HMOD k v = map_option (Pair (upd_reply r)) (wal_append S1 ''HMOD'' k v)"
  "kvstore_rbtree_get S k = Some p \<Longrightarrow> get_reply p = Some msg \<Longrightarrow>
     exec_cmd S KV_CMD_RGET k v = map_option (Pair msg) (wal_append S ''RGET'' k v)"
  "kvstore_hash_get S k = Some p \<Longrightarrow> get_reply p = Some msg \<Longrightarrow>
     exec_cmd S KV_CMD_HGET k v = map_option (Pair msg) (wal_append S ''HET'' k v)"
  by (simp_all add: exec_cmd_defs map_conv_bind_option comp_def)

lemma wal_word_cmds:
  "wal_word 15 ''SET''" "wal_word 15 ''RSET''" "wal_word 15 ''RDEL''" "wal_word 15 ''RGET''"
  "wal_word 15 ''HSET''" "wal_word 15 ''HDEL''" "wal_word 15 ''HET''" "wal_word 15 ''RMOD''" "wal_word 15 ''HMOD''"
  by (simp_all add: wal_word_def isspace_def)

lemma durable_step:
  assumes ok: "server_ok (Suc n) S" and inv: "wal_inv S rs" and d: "durable [c, k, v]"
    and small: "length (enc_all rs) < WAL_MAX_ARCHIVE * WAL_MAX_SIZE"
  shows "\<exists>cmd. find_cmd commands c = Some cmd \<and> step_ok n S rs [c, k, v] cmd"
proof -
  have ok': "server_ok n S" by (rule server_ok_mono [OF ok]) simp
  have kv: "wal_word 255 k" "wal_text v" using d wal_word_text by auto
  have step: "step_ok n S rs [c, k, v] cmd"
    if "same_env S S1" "server_ok n S1" "wal_word 15 c'" "log_of [c, k, v] = [(c', k, v)]"
      "replay_cmd S c' (Str k) (Str v) = Some S1"
      "exec_cmd S cmd (Str k) (Str v) = map_option (Pair msg) (wal_append S1 c' (Str k) (Str v))" for S1 c' cmd msg
    by (rule step_okI [OF that(1,2) inv _ small that(4-6)]) (use kv that(3) in simp)
  obtain r1 S1 r2 S2 r3 S3 r4 S4 r5 S5 where
    calls: "kvstore_array_set S (Str k) (Str v) = Some (r1, S1)" "server_ok n S1"
      "kvstore_rbtree_set S (Str k) (Str v) = Some (r2, S2)" "server_ok n S2"
      "kvstore_rbtree_delete S (Str k) = Some (r3, S3)" "server_ok n S3"
      "kvstore_hash_set S (Str k) (Str v) = Some (r4, S4)" "server_ok n S4"
      "kvstore_hash_del S (Str k) = Some (r5, S5)" "server_ok n S5"
    using array_set_ok [OF ok', of k v] rbtree_set_ok [OF ok, of k v] rbtree_delete_ok [OF ok', of k]
      hash_set_ok [OF ok, of k v] hash_del_ok [OF ok', of k] by metis
  obtain m1 m2 where gets: "get_reply (ptr_of (rb_view (sv_tree S) k)) = Some m1"
      "get_reply (ptr_of (hash_view (sv_hash S) k)) = Some m2"
    using get_reply_ptr by metis
  have reads: "kvstore_rbtree_get S (Str k) = Some (ptr_of (rb_view (sv_tree S) k))"
      "kvstore_hash_get S (Str k) = Some (ptr_of (hash_view (sv_hash S) k))"
    using ok rb_get kvs_hash.get_view by (simp_all add: kvstore_rbtree_get_def kvstore_hash_get_def server_ok_def)
  note files = engine_call_files(1) [OF calls(1)] engine_call_files(4) [OF calls(3)]
    engine_call_files(5) [OF calls(5)] engine_call_files(7) [OF calls(7)] engine_call_files(8) [OF calls(9)]
  note wr = exec_cmd_write(1) [OF calls(1)] exec_cmd_write(2) [OF calls(3)] exec_cmd_write(3) [OF calls(5)]
    exec_cmd_write(5) [OF calls(7)] exec_cmd_write(6) [OF calls(9)]
    exec_cmd_write(8) [OF reads(1) gets(1)] exec_cmd_write(9) [OF reads(2) gets(2)]
  consider "c = ''SET''" | "c = ''RSET''" | "c = ''RDEL''" | "c = ''RGET''" | "c = ''HSET''" | "c = ''HDEL''" | "c = ''HGET''"
    using d by (auto simp: logged_cmds_def)
  then show ?thesis
  proof cases
    case 1
    show ?thesis unfolding 1 find_cmd_simps using step [OF files(1) calls(2) wal_word_cmds(1) _ _ wr(1)] calls(1)
      by (simp add: 1 replay_cmd_simps)
  next
    case 2
    show ?thesis unfolding 2 find_cmd_simps using step [OF files(2) calls(4) wal_word_cmds(2) _ _ wr(2)] calls(3)
      by (simp add: 2 replay_cmd_simps)
  next
    case 3
    show ?thesis unfolding 3 find_cmd_simps using step [OF files(3) calls(6) wal_word_cmds(3) _ _ wr(3)] calls(5)
      by (simp add: 3 replay_cmd_simps)
  next
    case 4
    show ?thesis unfolding 4 find_cmd_simps using step [OF same_env_refl ok' wal_word_cmds(4) _ _ wr(6)]
      by (simp add: 4 replay_cmd_simps)
  next
    case 5
    show ?thesis unfolding 5 find_cmd_simps using step [OF files(4) calls(8) wal_word_cmds(5) _ _ wr(4)] calls(7)
      by (simp add: 5 replay_cmd_simps)
  next
    case 6
    show ?thesis unfolding 6 find_cmd_simps using step [OF files(5) calls(10) wal_word_cmds(6) _ _ wr(5)] calls(9)
      by (simp add: 6 replay_cmd_simps)
  next
    case 7
    show ?thesis unfolding 7 find_cmd_simps using step [OF same_env_refl ok' wal_word_cmds(7) _ _ wr(7)]
      by (simp add: 7 replay_cmd_simps)
  qed
qed

lemma read_step:
  assumes ok: "server_ok n S" and inv: "wal_inv S rs" and d: "durable ws" and "length ws < 3"
  shows "\<exists>cmd. ws \<noteq> [] \<and> find_cmd commands (hd ws) = Some cmd \<and> step_ok n S rs ws cmd"
proof -
  have st: "step_ok n S rs ws cmd" if "exec_cmd S cmd (tok_fun ws 1) (tok_fun ws 2) = Some (msg, S)" for cmd msg
  proof -
    have "log_of ws = []" using assms(4) by (cases ws rule: log_of.cases) auto
    then show ?thesis unfolding step_ok_def using that inv ok by (auto simp: same_engines_def)
  qed
  consider "ws = [''COUNT'']" | "ws = [''RCOUNT'']" | "ws = [''HCOUNT'']" | k where "ws = [''GET'', k]"
    using d assms(4) by (cases ws rule: durable.cases) auto
  then show ?thesis
  proof cases
    case 4
    obtain msg where "get_reply (ptr_of (arr_view (sv_array S) k)) = Some msg" using get_reply_ptr by blast
    then have "exec_cmd S KV_CMD_GET (tok_fun ws 1) (tok_fun ws 2) = Some (msg, S)"
      using 4 ok arr_dense_get [of "sv_array S" k]
      by (simp add: exec_cmd_defs tok_fun_def kvstore_array_get_def server_ok_def)
    from st [OF this] show ?thesis using 4 by (simp add: find_cmd_simps)
  qed (use st in \<open>auto simp: exec_cmd_defs find_cmd_simps\<close>)
qed

subsection \<open>A session and a restart\<close>

text \<open>A connection item that has just received the bytes \<open>m\<close> into a cleared buffer.\<close>

definition recv_item :: "string \<Rightarrow> conn_item" where
  "recv_item m = \<lparr>rbuffer = m @ replicate (BUFFER_LENGTH - length m) NUL, rlen = int (length m),
     wbuffer = [], wlen = 0\<rparr>"

text \<open>A sequence of requests; \<open>None\<close> stands for undefined behaviour or an abort.\<close>

fun serve :: "kvserver \<Rightarrow> string list \<Rightarrow> kvserver option" where
  "serve S [] = Some S"
| "serve S (m # ms) =
     do { out \<leftarrow> kvstore_requese S (recv_item m);
          case out of Returned (_, S) \<Rightarrow> serve S ms | Aborted \<Rightarrow> None }"

definition msg_ok :: "string \<Rightarrow> bool" where
  "msg_ok m \<longleftrightarrow> NUL \<notin> set m \<and> length m < BUFFER_LENGTH \<and> durable (words (chomp m))"

abbreviation msg_log :: "string \<Rightarrow> wal_rec list" where
  "msg_log m \<equiv> log_of (words (chomp m))"

lemma recv_item_nul: "length m < BUFFER_LENGTH \<Longrightarrow> \<exists>r. rbuffer (recv_item m) = m @ NUL # r"
  by (cases "BUFFER_LENGTH - length m") (auto simp: recv_item_def)

lemma durable_cases: "durable ws \<Longrightarrow> (\<exists>c k v. ws = [c, k, v]) \<or> length ws < 3"
  by (cases ws rule: durable.cases) auto

lemma requese_durable:
  assumes m: "msg_ok m" and ok: "server_ok (Suc n) S" and inv: "wal_inv S rs"
    and small: "length (enc_all rs) < WAL_MAX_ARCHIVE * WAL_MAX_SIZE"
  shows "\<exists>item S' S1. kvstore_requese S (recv_item m) = Some (Returned (item, S')) \<and>
           wal_inv S' (rs @ msg_log m) \<and> replay_all S (msg_log m) = Some S1 \<and> same_engines S1 S' \<and> server_ok n S'"
proof -
  let ?ws = "words (chomp m)"
  have d: "durable ?ws" using m by (simp add: msg_ok_def)
  have "\<exists>cmd. ?ws \<noteq> [] \<and> find_cmd commands (hd ?ws) = Some cmd \<and> step_ok n S rs ?ws cmd"
    using durable_cases [OF d]
  proof (elim disjE exE)
    fix c k v
    assume ws: "?ws = [c, k, v]"
    from durable_step [OF ok inv d [unfolded ws] small] show ?thesis unfolding ws by simp
  next
    assume "length ?ws < 3"
    from read_step [OF server_ok_mono [OF ok, of n] inv d this] show ?thesis by simp
  qed
  then obtain cmd msg S' S1 where ws: "?ws \<noteq> []" "find_cmd commands (hd ?ws) = Some cmd"
      "exec_cmd S cmd (tok_fun ?ws 1) (tok_fun ?ws 2) = Some (msg, S')"
      and out: "wal_inv S' (rs @ msg_log m)" "replay_all S (msg_log m) = Some S1" "same_engines S1 S'" "server_ok n S'"
    unfolding step_ok_def by blast
  have "length ?ws \<le> KVSTORE_MAX_TOKEN" using durable_cases [OF d] by (auto simp: KVSTORE_MAX_TOKEN_def)
  moreover obtain r where "rbuffer (recv_item m) = m @ NUL # r" using recv_item_nul m by (auto simp: msg_ok_def)
  ultimately obtain b where "kvstore_requese S (recv_item m) =
      kvstore_parser_protocol S ((recv_item m)\<lparr>rbuffer := b\<rparr>) (tok_fun ?ws) (length ?ws)"
    using requese_words m unfolding msg_ok_def by blast
  moreover have "tok_fun ?ws 0 = Str (hd ?ws)" using ws(1) by (simp add: tok_fun_def hd_conv_nth)
  ultimately have "\<exists>item. kvstore_requese S (recv_item m) = Some (Returned (item, S'))"
    using ws by (simp add: kvstore_parser_protocol_def)
  with out show ?thesis by blast
qed

lemma serve_durable:
  assumes "\<forall>m \<in> set ms. msg_ok m" and "server_ok (length ms + n) S" and "wal_inv S rs"
    and "length (enc_all (rs @ concat (map msg_log ms))) < WAL_MAX_ARCHIVE * WAL_MAX_SIZE"
  shows "\<exists>S' S1. serve S ms = Some S' \<and> wal_inv S' (rs @ concat (map msg_log ms)) \<and>
           replay_all S (concat (map msg_log ms)) = Some S1 \<and> same_engines S1 S' \<and> server_ok n S'"
  using assms
proof (induction ms arbitrary: S rs)
  case Nil
  then show ?case by (simp add: same_engines_def)
next
  case (Cons m ms)
  have m: "msg_ok m" "server_ok (Suc (length ms + n)) S" "length (enc_all rs) < WAL_MAX_ARCHIVE * WAL_MAX_SIZE"
    using Cons.prems by (simp_all add: enc_all_def)
  obtain item S' S1 where S': "kvstore_requese S (recv_item m) = Some (Returned (item, S'))"
      "wal_inv S' (rs @ msg_log m)" "replay_all S (msg_log m) = Some S1" "same_engines S1 S'" "server_ok (length ms + n) S'"
    using requese_durable [OF m(1,2) Cons.prems(3) m(3)] by blast
  obtain S'' S2 where S'': "serve S' ms = Some S''" "wal_inv S'' ((rs @ msg_log m) @ concat (map msg_log ms))"
      "replay_all S' (concat (map msg_log ms)) = Some S2" "same_engines S2 S''" "server_ok n S''"
    using Cons.IH [OF _ S'(5,2)] Cons.prems(1,4) by auto
  have "sv_fopens S1 = []" "sv_fopens S' = []"
    using replay_all_files [OF S'(3)] Cons.prems(3) S'(2) by (simp_all add: same_env_def wal_inv_def)
  then have "S' = upd_env (sv_files S') (sv_wal_fp S') S1" using upd_env_engines [OF S'(4)] by simp
  then obtain S3 where "replay_all S1 (concat (map msg_log ms)) = Some S3" "same_engines S3 S''"
    using S''(3,4) replay_all_env [of "sv_files S'" "sv_wal_fp S'" S1] by auto
  with S'(1,3) S''(1,2,5) show ?case by (simp add: replay_all_append)
qed

lemma init_engines:
  assumes "sv_mallocs S = []"
  obtains E where "init_kvengine S = wal_replay E" and "server_ok (nat INT_MAX) E" and "same_env S E"
    and "rb_view (sv_tree E) = Map.empty" and "hash_view (sv_hash E) = Map.empty"
    and "\<And>F. init_kvengine (S\<lparr>sv_files := F\<rparr>) = wal_replay (upd_env F (sv_wal_fp S) E)"
proof -
  obtain T where T: "kvstore_rbtree_create (sv_tree S) [] = Some (0, T, [])" "rb_tree T Lf" "rt_count T = 0" "rb_view T = Map.empty"
    by (rule rb_create)
  let ?E = "S\<lparr>sv_array := (sv_array S)\<lparr>array_table := Some Map.empty, array_idx := 0\<rparr>, sv_tree := T, sv_hash := empty_table, sv_mallocs := []\<rparr>"
  have a: "kvstore_array_create (sv_array S) [] = (None, (sv_array S)\<lparr>array_table := Some Map.empty, array_idx := 0\<rparr>, [])"
    by (simp add: kvstore_array_create_def)
  have "arr_dense ((sv_array S)\<lparr>array_table := Some Map.empty, array_idx := 0\<rparr>)"
    using arr_marked_empty by (cases "sv_array S") (auto simp: arr_dense_def arr_inv_def)
  then have "server_ok (nat INT_MAX) ?E"
    using T(2,3) empty_table_inv by (auto simp: server_ok_def rb_inv_def rb_space_def hash_space_def empty_table_def)
  moreover have "init_kvengine (S\<lparr>sv_files := F\<rparr>) = wal_replay (upd_env F (sv_wal_fp S) ?E)" for F
  proof -
    have "?E\<lparr>sv_files := F\<rparr> = upd_env F (sv_wal_fp S) ?E" by (simp add: upd_env_def)
    moreover have "init_kvengine (S\<lparr>sv_files := F\<rparr>) = wal_replay (?E\<lparr>sv_files := F\<rparr>)"
      using a T(1) assms hash_create by (cases S) (simp add: init_kvengine_def)
    ultimately show ?thesis by simp
  qed
  moreover have "init_kvengine S = wal_replay ?E" using a T(1) assms hash_create by (simp add: init_kvengine_def)
  ultimately show thesis using T(4) empty_table_view by (intro that [of ?E]) (simp_all add: same_env_def)
qed

subsection \<open>Single requests\<close>

text \<open>A request of three words, as the client sends it.\<close>

definition msg3 :: "string \<Rightarrow> string \<Rightarrow> string \<Rightarrow> string" where
  "msg3 c k v = c @ '' '' @ k @ '' '' @ v"

lemma words_word:
  assumes "w \<noteq> []" and "\<forall>c \<in> set w. c \<noteq> CHR '' ''"
  shows "words (w @ CHR '' '' # s) = w # words s" and "words w = [w]"
proof -
  obtain c w' where w: "w = c # w'" using assms(1) by (cases w) auto
  have d: "takeWhile (\<lambda>d. d \<noteq> CHR '' '') (w' @ CHR '' '' # s) = w'" "dropWhile (\<lambda>d. d \<noteq> CHR '' '') (w' @ CHR '' '' # s) = CHR '' '' # s"
      "takeWhile (\<lambda>d. d \<noteq> CHR '' '') w' = w'" "dropWhile (\<lambda>d. d \<noteq> CHR '' '') w' = []"
    using assms(2) by (auto simp: w takeWhile_append2 dropWhile_append2 takeWhile_eq_all_conv)
  show "words (w @ CHR '' '' # s) = w # words s" and "words w = [w]" using assms(2) by (simp_all add: w d)
qed

lemma wal_word_space: "wal_word n w \<Longrightarrow> w \<noteq> [] \<and> (\<forall>c \<in> set w. c \<noteq> CHR '' '') \<and> last w \<noteq> CHR 0x0A \<and> last w \<noteq> CHR 0x0D"
  using last_in_set [of w] by (auto simp: wal_word_def isspace_def)

lemma words_msg3:
  assumes "wal_word n1 c" and "wal_word n2 k" and "wal_word n3 v"
  shows "words (chomp (msg3 c k v)) = [c, k, v]"
proof -
  obtain v' x where v: "v = v' @ [x]" using assms(3) by (cases v rule: rev_cases) (auto simp: wal_word_def)
  have "chomp (msg3 c k v) = msg3 c k v"
    using wal_word_space [OF assms(3)] by (simp add: v chomp_def msg3_def)
  then show ?thesis using wal_word_space [OF assms(1)] wal_word_space [OF assms(2)] wal_word_space [OF assms(3)]
    by (simp add: msg3_def words_word)
qed

text \<open>The words of a request carry no NUL and fit the buffer.\<close>

definition req_ok :: "string \<Rightarrow> string \<Rightarrow> string \<Rightarrow> bool" where
  "req_ok c k v \<longleftrightarrow> wal_word 15 c \<and> wal_word 255 k \<and> wal_word 255 v \<and>
     NUL \<notin> set (msg3 c k v) \<and> length (msg3 c k v) < BUFFER_LENGTH"

lemma requese_msg3:
  assumes r: "req_ok c k v" and "find_cmd commands c = Some cmd"
    and "exec_cmd S cmd (Str k) (Str v) = Some (msg, S')"
  shows "\<exists>item. kvstore_requese S (recv_item (msg3 c k v)) = Some (Returned (item, S')) \<and> wbuffer item = msg"
proof -
  let ?ws = "words (chomp (msg3 c k v))"
  have ws: "?ws = [c, k, v]" using words_msg3 r by (auto simp: req_ok_def)
  obtain t where t: "rbuffer (recv_item (msg3 c k v)) = msg3 c k v @ NUL # t"
    using recv_item_nul [of "msg3 c k v"] r by (auto simp: req_ok_def)
  have "NUL \<notin> set (msg3 c k v)" "length ?ws \<le> KVSTORE_MAX_TOKEN" using r ws by (simp_all add: req_ok_def KVSTORE_MAX_TOKEN_def)
  from requese_words [OF t this, of S] show ?thesis
    using assms(2,3) by (auto simp: ws kvstore_parser_protocol_def tok_fun_def)
qed

lemma requese_write:
  assumes r: "req_ok c k v" and cmd: "find_cmd commands c = Some cmd" and inv: "wal_inv S rs"
    and env: "same_env S S1" and rec: "wal_rec_ok (c', k, v)"
    and small: "length (enc_all rs) < WAL_MAX_ARCHIVE * WAL_MAX_SIZE"
    and exec: "exec_cmd S cmd (Str k) (Str v) = map_option (Pair msg) (wal_append S1 c' (Str k) (Str v))"
  shows "\<exists>item S'. kvstore_requese S (recv_item (msg3 c k v)) = Some (Returned (item, S')) \<and> wbuffer item = msg \<and>
           same_engines S1 S' \<and> wal_inv S' (rs @ [(c', k, v)])"
proof -
  have "wal_inv S1 rs" using env inv wal_inv_engines by (auto simp: same_env_def)
  then obtain S' where "wal_append S1 c' (Str k) (Str v) = Some S'" "same_engines S1 S'" "wal_inv S' (rs @ [(c', k, v)])"
    using wal_append_inv rec small by blast
  then show ?thesis using requese_msg3 [OF r cmd, of S msg S'] exec by auto
qed

lemma requese_unknown:
  assumes "rbuffer item = s @ NUL # r" and "NUL \<notin> set s" and "words (chomp s) = w # ws"
    and "length ws < KVSTORE_MAX_TOKEN" and "w \<notin> fst ` set commands"
  shows "kvstore_requese S item = Some Aborted"
proof -
  have none: "w \<notin> fst ` set cs \<Longrightarrow> find_cmd cs w = None" for cs by (induction cs) auto
  obtain msg where "kvstore_requese S item =
      kvstore_parser_protocol S (item\<lparr>rbuffer := msg\<rparr>) (tok_fun (w # ws)) (length (w # ws))"
    using requese_words [OF assms(1,2), of S] assms(3,4) by auto
  then show ?thesis using none [OF assms(5)] by (simp add: kvstore_parser_protocol_def tok_fun_def)
qed

lemma wal_append_wild:
  "sv_wal_fp S \<or> sv_fopens S = [] \<Longrightarrow> wal_append S c k Wild = None"
  by (auto simp: wal_append_def wal_line_def fopen_a_def fopen_outcome_def Let_def)

lemma exec_cmd_wild:
  assumes S: "sv_wal_fp S \<or> sv_fopens S = []"
    and "cmd \<notin> {KV_CMD_GET, KV_CMD_DEL, KV_CMD_COUNT, KV_CMD_RCOUNT, KV_CMD_HCOUNT}"
  shows "exec_cmd S cmd k Wild = None"
proof -
  have w: "wal_append S' c k Wild = None" if "same_env S S'" for S' c
    using wal_append_wild that S by (auto simp: same_env_def)
  show ?thesis using assms(2)
    by (cases cmd) (auto simp: exec_cmd_defs w split: Option.bind_split dest!: engine_call_files)
qed

lemma fresh_session:
  assumes ms: "\<forall>m \<in> set ms. msg_ok m" and "length ms + n \<le> nat INT_MAX"
    and size: "length (enc_all (concat (map msg_log ms))) < WAL_MAX_ARCHIVE * WAL_MAX_SIZE"
  obtains E S S1 where "init_kvengine new_server = Some E" and "serve E ms = Some S"
    and "wal_inv S (concat (map msg_log ms))" and "server_ok n S"
    and "replay_all E (concat (map msg_log ms)) = Some S1" and "same_engines S1 S"
    and "server_ok (nat INT_MAX) E" and "wal_inv E []"
    and "rb_view (sv_tree E) = Map.empty" and "hash_view (sv_hash E) = Map.empty"
    and "\<forall>S' rs. wal_inv S' rs \<longrightarrow> init_kvengine (new_server\<lparr>sv_files := sv_files S'\<rparr>) =
           map_option (upd_env (sv_files S') (sv_wal_fp new_server)) (replay_all E rs)"
proof -
  obtain E where E: "init_kvengine new_server = wal_replay E" "server_ok (nat INT_MAX) E" "same_env new_server E"
      "rb_view (sv_tree E) = Map.empty" "hash_view (sv_hash E) = Map.empty"
      "\<And>F. init_kvengine (new_server\<lparr>sv_files := F\<rparr>) = wal_replay (upd_env F (sv_wal_fp new_server) E)"
    by (rule init_engines [of new_server]) (simp_all add: new_server_def)
  have inv: "wal_inv E []" using E(3) by (intro wal_inv_empty) (simp_all add: same_env_def new_server_def)
  have op: "sv_fopens E = []" using inv by (simp add: wal_inv_def)
  have "init_kvengine (new_server\<lparr>sv_files := sv_files S'\<rparr>) =
      map_option (upd_env (sv_files S') (sv_wal_fp new_server)) (replay_all E rs)" if "wal_inv S' rs" for S' rs
    using wal_inv_replay [OF wal_inv_engines [OF that]] that op E(6) replay_all_env
    by (simp add: upd_env_def wal_inv_def)
  moreover have "init_kvengine new_server = Some E" using E(1) wal_inv_replay [OF inv] by simp
  moreover have "server_ok (length ms + n) E" using server_ok_mono [OF E(2)] assms(2) by simp
  from serve_durable [OF ms this inv] size obtain S S1 where "serve E ms = Some S"
      "wal_inv S (concat (map msg_log ms))" "replay_all E (concat (map msg_log ms)) = Some S1"
      "same_engines S1 S" "server_ok n S" by auto
  ultimately show thesis using that E(2,4,5) inv by blast
qed

section \<open>Properties\<close>

text \<open>
  C1. Recovery. Start the server in an empty directory, serve any sequence of requests of the
  durable kinds (SET, GET, RSET, RDEL, RGET, HSET, HDEL, HGET with three words, the counters),
  stop it at any point and start it again on the files it left: every request is answered, and
  the restarted engines are exactly those the old process had, whatever rotations the log went
  through, as long as it holds less than 4096 archives of 10 MB.
\<close>

theorem restart_recovers_engines:
  assumes ms: "\<forall>m \<in> set ms. msg_ok m" and "length ms \<le> nat INT_MAX"
    and size: "length (enc_all (concat (map msg_log ms))) < WAL_MAX_ARCHIVE * WAL_MAX_SIZE"
  shows "\<exists>S0 S R. init_kvengine new_server = Some S0 \<and> serve S0 ms = Some S \<and>
           init_kvengine (new_server\<lparr>sv_files := sv_files S\<rparr>) = Some R \<and>
           sv_array R = sv_array S \<and> sv_tree R = sv_tree S \<and> sv_hash R = sv_hash S"
proof -
  have n: "length ms + 0 \<le> nat INT_MAX" using assms(2) by simp
  obtain E S S1 where E: "init_kvengine new_server = Some E" "serve E ms = Some S"
      "wal_inv S (concat (map msg_log ms))" "replay_all E (concat (map msg_log ms)) = Some S1" "same_engines S1 S"
      "\<forall>S' rs. wal_inv S' rs \<longrightarrow> init_kvengine (new_server\<lparr>sv_files := sv_files S'\<rparr>) =
         map_option (upd_env (sv_files S') (sv_wal_fp new_server)) (replay_all E rs)"
    by (rule fresh_session [OF ms n size])
  then show ?thesis using E(6) [rule_format, OF E(3)] by (auto simp: same_engines_def upd_env_def)
qed

theorem restart_recovers_engines_witness:
  "\<exists>S0 S R. init_kvengine new_server = Some S0 \<and>
     serve S0 [''HSET k v'' @ [CHR 0x0D, CHR 0x0A], ''RSET a b'', ''RDEL a b''] = Some S \<and>
     init_kvengine (new_server\<lparr>sv_files := sv_files S\<rparr>) = Some R \<and>
     sv_array R = sv_array S \<and> sv_tree R = sv_tree S \<and> sv_hash R = sv_hash S"
  by (rule restart_recovers_engines)
    (simp_all add: msg_ok_def chomp_def BUFFER_LENGTH_def logged_cmds_def wal_word_def isspace_def
      INT_MAX_def enc_all_def WAL_MAX_ARCHIVE_def WAL_MAX_SIZE_def)

text \<open>
  C6. Tokenisation: on any NUL-terminated request in the buffer, \<open>kvstore_split_token\<close> ends, keeps
  the length of the buffer, and leaves pointers to exactly the space-separated words in their
  order; a request of more than 128 words stores beyond the end of the token array.
\<close>

theorem split_token_words:
  assumes "buf = s @ NUL # r" and "NUL \<notin> set s"
  shows "if length (words s) \<le> KVSTORE_MAX_TOKEN
         then \<exists>tokens buf'. kvstore_split_token buf = Some (tokens, buf') \<and> length buf' = length buf \<and>
                map (cstr buf') tokens = map Some (words s)
         else kvstore_split_token buf = None"
  using split_loop_words [of 0 buf s r "[]"] split_loop_overflow [of 0 buf s r "[]"] assms
  by (auto simp: kvstore_split_token_def)

theorem split_token_words_witness:
  "\<exists>tokens buf'. kvstore_split_token (''SET  k v'' @ [NUL]) = Some (tokens, buf') \<and>
     map (cstr buf') tokens = [Some ''SET'', Some ''k'', Some ''v'']"
  using split_token_words [of "''SET  k v'' @ [NUL]" "''SET  k v''" "[]"]
  by (auto simp: KVSTORE_MAX_TOKEN_def)

text \<open>
  A request whose first word is not one of the fifteen commands ends the server process:
  the handler runs into \<open>assert (0)\<close>.
\<close>

theorem unknown_command_aborts:
  assumes "rbuffer item = s @ NUL # r" and "NUL \<notin> set s" and "words (chomp s) = w # ws"
    and "length ws < KVSTORE_MAX_TOKEN" and "w \<notin> fst ` set commands"
  shows "kvstore_requese S item = Some Aborted"
  by (rule requese_unknown [OF assms])

theorem unknown_command_aborts_witness:
  "kvstore_requese new_server (recv_item ''PING'') = Some Aborted"
proof -
  obtain r where "rbuffer (recv_item ''PING'') = ''PING'' @ NUL # r"
    using recv_item_nul [of "''PING''"] by (auto simp: BUFFER_LENGTH_def)
  then show ?thesis
    by (rule unknown_command_aborts [where ws = "[]" and w = "''PING''"])
      (simp_all add: chomp_def commands_def KVSTORE_MAX_TOKEN_def)
qed

text \<open>
  A blank request (spaces and newlines only) changes nothing: the server and the reply
  buffer stay as they were, so that the reply to the previous request is sent again.
\<close>

theorem blank_request_keeps_reply:
  assumes "rbuffer item = s @ NUL # r" and "NUL \<notin> set s" and "words (chomp s) = []"
  shows "\<exists>item'. kvstore_requese S item = Some (Returned (item', S)) \<and> wbuffer item' = wbuffer item"
  using requese_words [OF assms(1,2), of S] assms(3) by (auto simp: kvstore_parser_protocol_def)

theorem blank_request_keeps_reply_witness:
  "\<exists>item'. kvstore_requese new_server \<lparr>rbuffer = [CHR 0x0A, NUL], rlen = 1, wbuffer = ''SUCCESS'', wlen = 7\<rparr> =
     Some (Returned (item', new_server)) \<and> wbuffer item' = ''SUCCESS''"
  using blank_request_keeps_reply [of "\<lparr>rbuffer = [CHR 0x0A, NUL], rlen = 1, wbuffer = ''SUCCESS'', wlen = 7\<rparr>"
      "[CHR 0x0A]" "[]" new_server]
  by (simp add: chomp_def)

text \<open>
  A command that logs its value (all but GET, DEL and the counters) sent without one runs
  into undefined behaviour, lookups RGET and HGET included: the third token is an indeterminate
  pointer, and it is printed to the log.
\<close>

theorem missing_value_undefined:
  assumes "rbuffer item = s @ NUL # r" and "NUL \<notin> set s" and "words (chomp s) = [c, k]"
    and "find_cmd commands c = Some cmd"
    and "cmd \<notin> {KV_CMD_GET, KV_CMD_DEL, KV_CMD_COUNT, KV_CMD_RCOUNT, KV_CMD_HCOUNT}"
    and "sv_wal_fp S \<or> sv_fopens S = []"
  shows "kvstore_requese S item = None"
  using requese_words [OF assms(1,2), of S] assms(3,4) exec_cmd_wild [OF assms(6,5)]
  by (auto simp: KVSTORE_MAX_TOKEN_def kvstore_parser_protocol_def tok_fun_def)

theorem missing_value_undefined_witness: "kvstore_requese new_server (recv_item ''HGET k'') = None"
proof -
  obtain r where "rbuffer (recv_item ''HGET k'') = ''HGET k'' @ NUL # r"
    using recv_item_nul [of "''HGET k''"] by (auto simp: BUFFER_LENGTH_def)
  then show ?thesis
    by (rule missing_value_undefined [where c = "''HGET''" and k = "''k''" and cmd = KV_CMD_HGET])
      (simp_all add: chomp_def find_cmd_simps new_server_def)
qed

text \<open>
  End to end: after any session of durable requests, \<open>HSET k v\<close> is answered with SUCCESS and
  the following \<open>HGET k\<close> (with a third word) with the value just stored.
\<close>

theorem hset_then_hget:
  assumes ms: "\<forall>m \<in> set ms. msg_ok m" and n: "length ms + 2 \<le> nat INT_MAX"
    and size: "length (enc_all (concat (map msg_log ms) @ [(''HSET'', k, v)])) < WAL_MAX_ARCHIVE * WAL_MAX_SIZE"
    and r: "req_ok ''HSET'' k v" "req_ok ''HGET'' k v"
  shows "\<exists>S0 S i1 S1 i2 S2. init_kvengine new_server = Some S0 \<and> serve S0 ms = Some S \<and>
           kvstore_requese S (recv_item (msg3 ''HSET'' k v)) = Some (Returned (i1, S1)) \<and>
           wbuffer i1 = ''SUCCESS'' \<and>
           kvstore_requese S1 (recv_item (msg3 ''HGET'' k v)) = Some (Returned (i2, S2)) \<and> wbuffer i2 = v"
proof -
  let ?rs = "concat (map msg_log ms)"
  have size': "length (enc_all ?rs) < WAL_MAX_ARCHIVE * WAL_MAX_SIZE" using size by (simp add: enc_all_snoc)
  obtain E S S1 where S: "init_kvengine new_server = Some E" "serve E ms = Some S" "wal_inv S ?rs" "server_ok 2 S"
    by (rule fresh_session [OF ms n size'])
  have kv: "wal_word 255 k" "wal_word 255 v" using r by (simp_all add: req_ok_def)
  have rec: "wal_rec_ok (''HSET'', k, v)" "wal_rec_ok (''HET'', k, v)" using kv wal_word_text wal_word_cmds by simp_all
  obtain h where h: "kvs_hash_set (sv_hash S) (Str k) (Str v) [] = Some (0, h, [])" "hash_inv h" "hash_view h k = Some v"
    using kvs_hash.put_view [of "sv_hash S" k v] S(4) by (auto simp: server_ok_def overwrite_def)
  let ?S = "S\<lparr>sv_hash := h, sv_mallocs := []\<rparr>"
  have c1: "kvstore_hash_set S (Str k) (Str v) = Some (0, ?S)"
    using h(1) S(4) by (simp add: kvstore_hash_set_def server_ok_def)
  obtain i1 S2 where i1: "kvstore_requese S (recv_item (msg3 ''HSET'' k v)) = Some (Returned (i1, S2))"
      "wbuffer i1 = set_reply 0" "same_engines ?S S2" "wal_inv S2 (?rs @ [(''HSET'', k, v)])"
    using requese_write [OF r(1) find_cmd_simps(9) S(3) engine_call_files(7) [OF c1] rec(1) size' exec_cmd_write(5) [OF c1]]
    by blast
  have g: "kvstore_hash_get S2 (Str k) = Some (Str v)"
    using kvs_hash.get_view [OF h(2)] h(3) i1(3) by (simp add: kvstore_hash_get_def same_engines_def)
  have "get_reply (Str v) = Some v" using kv(2) by (simp add: get_reply_def snprintf_def wal_word_def BUFFER_LENGTH_def)
  from requese_write [OF r(2) find_cmd_simps(10) i1(4) same_env_refl rec(2) size exec_cmd_write(9) [OF g this]] i1(1,2) S(1,2)
  show ?thesis by (auto simp: set_reply_def)
qed

theorem hset_then_hget_witness:
  "\<exists>S0 i1 S1 i2 S2. init_kvengine new_server = Some S0 \<and>
     kvstore_requese S0 (recv_item ''HSET k v'') = Some (Returned (i1, S1)) \<and> wbuffer i1 = ''SUCCESS'' \<and>
     kvstore_requese S1 (recv_item ''HGET k v'') = Some (Returned (i2, S2)) \<and> wbuffer i2 = ''v''"
  using hset_then_hget [of "[]" "''k''" "''v''"]
  by (auto simp: INT_MAX_def WAL_MAX_ARCHIVE_def WAL_MAX_SIZE_def enc_all_def req_ok_def msg3_def wal_word_def
      isspace_def BUFFER_LENGTH_def)

text \<open>
  C39. A modification in the red-black engine is lost by a restart: RSET and RMOD of a key are
  both answered with SUCCESS and leave the new value, but the replay executes RMOD as RSET, which
  does not replace a value, so that the restarted server holds the old one again.
\<close>

theorem rmod_lost_by_restart:
  assumes r: "req_ok ''RSET'' k v" "req_ok ''RMOD'' k w"
  shows "\<exists>S0 S R. init_kvengine new_server = Some S0 \<and>
           serve S0 [msg3 ''RSET'' k v, msg3 ''RMOD'' k w] = Some S \<and>
           kvstore_rbtree_get S (Str k) = Some (Str w) \<and>
           init_kvengine (new_server\<lparr>sv_files := sv_files S\<rparr>) = Some R \<and>
           kvstore_rbtree_get R (Str k) = Some (Str v)"
proof -
  have kvw: "wal_word 255 k" "wal_word 255 v" "wal_word 255 w" using r by (simp_all add: req_ok_def)
  have rec: "wal_rec_ok (''RSET'', k, v)" "wal_rec_ok (''RMOD'', k, w)" using kvw wal_word_text wal_word_cmds by simp_all
  have "length k \<le> 255" "length v \<le> 255" using kvw by (simp_all add: wal_word_def)
  then have small: "length (enc_all []) < WAL_MAX_ARCHIVE * WAL_MAX_SIZE"
      "length (enc_all [(''RSET'', k, v)]) < WAL_MAX_ARCHIVE * WAL_MAX_SIZE"
    by (simp_all add: enc_all_def WAL_MAX_ARCHIVE_def WAL_MAX_SIZE_def)
  obtain E where E: "init_kvengine new_server = Some E" "wal_inv E []" "server_ok (nat INT_MAX) E"
      "rb_view (sv_tree E) = Map.empty"
      "\<forall>S' rs. wal_inv S' rs \<longrightarrow> init_kvengine (new_server\<lparr>sv_files := sv_files S'\<rparr>) =
         map_option (upd_env (sv_files S') (sv_wal_fp new_server)) (replay_all E rs)"
    by (rule fresh_session [of "[]" 0]) (use small in \<open>simp_all add: INT_MAX_def\<close>)
  have sp: "rb_inv (sv_tree E)" "2 \<le> rb_space (sv_tree E)" "sv_mallocs E = []"
    using E(3) by (auto simp: server_ok_def INT_MAX_def)
  obtain T1 where T1: "kvs_rbtree_set (sv_tree E) (Str k) (Str v) [] = Some (0, T1, [])" "rb_inv T1"
      "rb_view T1 k = Some v" "1 \<le> rb_space T1"
    using kvs_rbtree.put_view [OF sp(1), of k v] sp(2) E(4) by (auto simp: keep_first_def)
  obtain T2 where T2: "kvs_rbtree_modify T1 (Str k) (Str w) [] = Some (0, T2, [])" "rb_inv T2" "rb_view T2 k = Some w"
    using kvs_rbtree.mod_hit [OF T1(2,3), of w] by auto
  obtain T3 where T3: "kvs_rbtree_set T1 (Str k) (Str w) [] = Some (0, T3, [])" "rb_inv T3" "rb_view T3 k = Some v"
    using kvs_rbtree.put_view [OF T1(2), of k w] T1(3,4) by (auto simp: keep_first_def)
  let ?S1 = "E\<lparr>sv_tree := T1, sv_mallocs := []\<rparr>"
  have c1: "kvstore_rbtree_set E (Str k) (Str v) = Some (0, ?S1)" using T1(1) sp(3) by (simp add: kvstore_rbtree_set_def)
  obtain i1 S1 where i1: "kvstore_requese E (recv_item (msg3 ''RSET'' k v)) = Some (Returned (i1, S1))"
      "same_engines ?S1 S1" "wal_inv S1 [(''RSET'', k, v)]"
    using requese_write [OF r(1) find_cmd_simps(4) E(2) engine_call_files(4) [OF c1] rec(1) small(1) exec_cmd_write(2) [OF c1]]
    by auto
  have tm: "sv_tree S1 = T1" "sv_mallocs S1 = []" using i1(2) by (simp_all add: same_engines_def)
  let ?S2 = "S1\<lparr>sv_tree := T2, sv_mallocs := []\<rparr>"
  have c2: "kvstore_rbtree_modify S1 (Str k) (Str w) = Some (0, ?S2)" using T2(1) tm by (simp add: kvstore_rbtree_modify_def)
  obtain i2 S2 where i2: "kvstore_requese S1 (recv_item (msg3 ''RMOD'' k w)) = Some (Returned (i2, S2))"
      "same_engines ?S2 S2" "wal_inv S2 [(''RSET'', k, v), (''RMOD'', k, w)]"
    using requese_write [OF r(2) find_cmd_simps(7) i1(3) engine_call_files(6) [OF c2] rec(2) small(2) exec_cmd_write(4) [OF c2]]
    by auto
  let ?S3 = "E\<lparr>sv_tree := T3, sv_mallocs := []\<rparr>"
  have "replay_all E [(''RSET'', k, v), (''RMOD'', k, w)] = Some ?S3"
    using c1 T3(1) by (simp add: replay_cmd_simps) (simp add: kvstore_rbtree_set_def)
  then have R: "init_kvengine (new_server\<lparr>sv_files := sv_files S2\<rparr>) = Some (upd_env (sv_files S2) (sv_wal_fp new_server) ?S3)"
    using E(5) [rule_format, OF i2(3)] by simp
  have "kvstore_rbtree_get S2 (Str k) = Some (Str w)"
    using rb_get [OF T2(2)] T2(3) i2(2) by (simp add: kvstore_rbtree_get_def same_engines_def)
  moreover have "kvstore_rbtree_get (upd_env (sv_files S2) (sv_wal_fp new_server) ?S3) (Str k) = Some (Str v)"
    using rb_get [OF T3(2)] T3(3) by (simp add: kvstore_rbtree_get_def upd_env_def)
  ultimately show ?thesis using E(1) i1(1) i2(1) R by simp
qed

theorem rmod_lost_by_restart_witness:
  "\<exists>S0 S R. init_kvengine new_server = Some S0 \<and> serve S0 [''RSET k old'', ''RMOD k new''] = Some S \<and>
     kvstore_rbtree_get S (Str ''k'') = Some (Str ''new'') \<and>
     init_kvengine (new_server\<lparr>sv_files := sv_files S\<rparr>) = Some R \<and>
     kvstore_rbtree_get R (Str ''k'') = Some (Str ''old'')"
  using rmod_lost_by_restart [of "''k''" "''old''" "''new''"]
  by (auto simp: req_ok_def msg3_def wal_word_def isspace_def BUFFER_LENGTH_def)

text \<open>
  A refused modification becomes effective by a restart: HMOD of an absent key is answered
  with ERROR and stores nothing, but it is logged all the same and replayed as HSET, so that the
  restarted server holds the key.
\<close>

theorem refused_hmod_applied_by_restart:
  assumes r: "req_ok ''HMOD'' k v"
  shows "\<exists>S0 i S R. init_kvengine new_server = Some S0 \<and>
           kvstore_requese S0 (recv_item (msg3 ''HMOD'' k v)) = Some (Returned (i, S)) \<and> wbuffer i = ''ERROR'' \<and>
           kvstore_hash_get S (Str k) = Some Null \<and>
           init_kvengine (new_server\<lparr>sv_files := sv_files S\<rparr>) = Some R \<and>
           kvstore_hash_get R (Str k) = Some (Str v)"
proof -
  have small: "length (enc_all []) < WAL_MAX_ARCHIVE * WAL_MAX_SIZE"
    by (simp add: WAL_MAX_ARCHIVE_def WAL_MAX_SIZE_def)
  have rec: "wal_rec_ok (''HMOD'', k, v)" using r wal_word_text wal_word_cmds by (simp add: req_ok_def)
  obtain E where E: "init_kvengine new_server = Some E" "wal_inv E []" "server_ok (nat INT_MAX) E"
      "hash_view (sv_hash E) = Map.empty"
      "\<forall>S' rs. wal_inv S' rs \<longrightarrow> init_kvengine (new_server\<lparr>sv_files := sv_files S'\<rparr>) =
         map_option (upd_env (sv_files S') (sv_wal_fp new_server)) (replay_all E rs)"
    by (rule fresh_session [of "[]" 0]) (use small in \<open>simp_all add: INT_MAX_def\<close>)
  have sp: "hash_inv (sv_hash E)" "0 < hash_space (sv_hash E)" "sv_mallocs E = []"
    using E(3) by (auto simp: server_ok_def INT_MAX_def)
  obtain h where h: "kvs_hash_set (sv_hash E) (Str k) (Str v) [] = Some (0, h, [])" "hash_inv h" "hash_view h k = Some v"
    using kvs_hash.put_view [OF sp(1,2), of k v] by (auto simp: overwrite_def)
  have c: "kvstore_hash_mod E (Str k) (Str v) = Some (-1, E)"
    using hash_modify_absent [OF sp(1), of k v "[]"] E(4) sp(3) by (simp add: kvstore_hash_mod_def)
  obtain i S where i: "kvstore_requese E (recv_item (msg3 ''HMOD'' k v)) = Some (Returned (i, S))"
      "wbuffer i = upd_reply (-1)" "same_engines E S" "wal_inv S [(''HMOD'', k, v)]"
    using requese_write [OF r find_cmd_simps(12) E(2) same_env_refl rec small exec_cmd_write(7) [OF c]] by auto
  let ?R = "E\<lparr>sv_hash := h, sv_mallocs := []\<rparr>"
  have "replay_all E [(''HMOD'', k, v)] = Some ?R"
    using h(1) sp(3) by (simp add: replay_cmd_simps kvstore_hash_set_def)
  then have "init_kvengine (new_server\<lparr>sv_files := sv_files S\<rparr>) = Some (upd_env (sv_files S) (sv_wal_fp new_server) ?R)"
    using E(5) [rule_format, OF i(4)] by simp
  moreover have "kvstore_hash_get (upd_env (sv_files S) (sv_wal_fp new_server) ?R) (Str k) = Some (Str v)"
    using kvs_hash.get_view [OF h(2)] h(3) by (simp add: kvstore_hash_get_def upd_env_def)
  moreover have "kvstore_hash_get S (Str k) = Some Null"
    using kvs_hash.get_view [OF sp(1)] E(4) i(3) by (simp add: kvstore_hash_get_def same_engines_def)
  ultimately show ?thesis using E(1) i(1,2) by (simp add: upd_reply_def)
qed

theorem refused_hmod_applied_by_restart_witness:
  "\<exists>S0 i S R. init_kvengine new_server = Some S0 \<and>
     kvstore_requese S0 (recv_item ''HMOD k v'') = Some (Returned (i, S)) \<and> wbuffer i = ''ERROR'' \<and>
     init_kvengine (new_server\<lparr>sv_files := sv_files S\<rparr>) = Some R \<and>
     kvstore_hash_get R (Str ''k'') = Some (Str ''v'')"
  using refused_hmod_applied_by_restart [of "''k''" "''v''"]
  by (auto simp: req_ok_def msg3_def wal_word_def isspace_def BUFFER_LENGTH_def)

end
