(* ===== verification/Net.thy ===== *)
theory Net
  imports Protocol
begin

text \<open>
  The three network front ends written in C: the epoll reactor of \<open>epoll_entry.c\<close>, the io_uring
  loop of \<open>io_uring_entry.c\<close> and the coroutine reader of \<open>nty_entry.c\<close>. What the kernel returns
  (accepted descriptors, received bytes, results of sends) is an argument of the steps; \<open>recv\<close>
  with the length 512 gives between 1 and 512 bytes, 0 or a negative number. Timing output of
  \<open>accept_cb\<close> and \<open>server\<close> is left out.
\<close>

section \<open>Receiving into a buffer\<close>

text \<open>The bytes received replace the front of the buffer; the rest of it stays.\<close>

definition recv_into :: "string \<Rightarrow> string \<Rightarrow> string" where
  "recv_into buf d = d @ drop (length d) buf"

datatype recv_result = Received string | Disconnected | RecvError

definition zero_item :: conn_item where
  "zero_item = \<lparr>rbuffer = replicate BUFFER_LENGTH NUL, rlen = 0, wbuffer = [], wlen = 0\<rparr>"

lemma recv_into_zero: "recv_into (rbuffer zero_item) m = rbuffer (recv_item m)"
  by (simp add: recv_into_def zero_item_def recv_item_def)

section \<open>The epoll reactor\<close>

datatype interest = EPOLLIN | EPOLLOUT

datatype callback = Accept_cb | Recv_cb

definition CONN_MAX :: nat where
  "CONN_MAX = 1048576"

record reactor =
  connlist :: "nat \<Rightarrow> conn_item"
  recv_t :: "nat \<rightharpoonup> callback"
  epfd :: "nat \<rightharpoonup> interest"
  rx_server :: kvserver
  rx_sent :: "(nat \<times> string) list"

text \<open>\<open>EPOLL_CTL_ADD\<close> of a descriptor that is watched and \<open>EPOLL_CTL_MOD\<close> of one that is not fail.\<close>

definition set_event :: "reactor \<Rightarrow> nat \<Rightarrow> interest \<Rightarrow> bool \<Rightarrow> reactor" where
  "set_event R fd event flag =
     (if flag = (epfd R fd = None) then R\<lparr>epfd := (epfd R)(fd \<mapsto> event)\<rparr> else R)"

definition accept_cb :: "reactor \<Rightarrow> int \<Rightarrow> (int \<times> reactor) option" where
  "accept_cb R clientfd =
     (if clientfd < 0 then Some (-1, R)
      else let c = nat clientfd; R = set_event R c EPOLLIN True
           in if CONN_MAX \<le> c then None
              else Some (clientfd, R\<lparr>connlist := (connlist R)(c := zero_item), recv_t := (recv_t R)(c \<mapsto> Recv_cb)\<rparr>))"

definition recv_cb :: "reactor \<Rightarrow> nat \<Rightarrow> recv_result \<Rightarrow> (int \<times> reactor) outcome option" where
  "recv_cb R fd res =
     (let item = connlist R fd;
          handle = (\<lambda>item count. do {
            out \<leftarrow> kvstore_requese (rx_server R) item;
            case out of
              Aborted \<Rightarrow> Some Aborted
            | Returned (item, S) \<Rightarrow>
                (let item = item\<lparr>wlen := int (length (wbuffer item))\<rparr>;
                     R = R\<lparr>connlist := (connlist R)(fd := item), rx_server := S\<rparr>
                 in Some (Returned (count, set_event R fd EPOLLOUT False))) })
      in case res of
           Disconnected \<Rightarrow> Some (Returned (-1, R\<lparr>epfd := (epfd R)(fd := None)\<rparr>))
         | RecvError \<Rightarrow> handle (item\<lparr>rlen := -1\<rparr>) (-1)
         | Received d \<Rightarrow>
             handle (item\<lparr>rbuffer := recv_into (rbuffer item) d, rlen := int (length d)\<rparr>) (int (length d)))"

text \<open>
  \<open>count\<close> is what \<open>send\<close> returns: the kernel takes as many bytes, none when it is negative. The callback
  does not look at it, and what was not taken is never sent.
\<close>

definition send_cb :: "reactor \<Rightarrow> nat \<Rightarrow> int \<Rightarrow> int \<times> reactor" where
  "send_cb R fd count =
     (let item = connlist R fd;
          R = R\<lparr>rx_sent := rx_sent R @ [(fd, take (nat count) (take (nat (wlen item)) (wbuffer item)))]\<rparr>
      in (count, set_event R fd EPOLLIN False))"

text \<open>
  One event of the main loop, with what the system call of its callback will return. The callback
  of a descriptor is the one stored in its union: \<open>accept_cb\<close> for listening sockets, \<open>recv_cb\<close>
  (and with it \<open>send_cb\<close>) for accepted ones. A call through a callback that is not set, or a kernel
  answer of the other kind, has no result.
\<close>

datatype kevent = Accepts nat int | Readable nat recv_result | Writable nat int

definition dispatch :: "reactor \<Rightarrow> kevent \<Rightarrow> reactor outcome option" where
  "dispatch R ev = (case ev of
     Accepts fd clientfd \<Rightarrow>
       (if recv_t R fd = Some Accept_cb then do { (_, R) \<leftarrow> accept_cb R clientfd; Some (Returned R) } else None)
   | Readable fd res \<Rightarrow>
       (if recv_t R fd = Some Recv_cb
        then do { out \<leftarrow> recv_cb R fd res;
                  case out of Aborted \<Rightarrow> Some Aborted | Returned (_, R) \<Rightarrow> Some (Returned R) }
        else None)
   | Writable fd count \<Rightarrow>
       (if recv_t R fd = Some Recv_cb then Some (Returned (snd (send_cb R fd count))) else None))"

text \<open>The listening sockets that \<open>epoll_entry\<close> sets up before its loop.\<close>

definition epoll_setup :: "reactor \<Rightarrow> nat list \<Rightarrow> reactor" where
  "epoll_setup R fds =
     fold (\<lambda>fd R. set_event (R\<lparr>recv_t := (recv_t R)(fd \<mapsto> Accept_cb)\<rparr>) fd EPOLLIN True) fds R"

fun epoll_loop :: "reactor \<Rightarrow> kevent list \<Rightarrow> reactor outcome option" where
  "epoll_loop R [] = Some (Returned R)"
| "epoll_loop R (ev # evs) =
     do { out \<leftarrow> dispatch R ev; case out of Aborted \<Rightarrow> Some Aborted | Returned R \<Rightarrow> epoll_loop R evs }"

section \<open>The io_uring loop\<close>

datatype uring_event = EVENT_ACCEPT | EVENT_READ | EVENT_WRITE

text \<open>
  \<open>ur_pending\<close> are the operations submitted and not completed, each with its event type and its
  connection object; \<open>ur_items\<close> the connection objects that are allocated, \<open>ur_len\<close> the length of the
  last write submitted for each, \<open>ur_sent\<close> what the kernel has taken, and \<open>ur_mallocs\<close> the outcomes of
  allocations to come. No result of \<open>malloc\<close> is looked at: a failure ends in a null pointer.
\<close>

record uring =
  ur_pending :: "(uring_event \<times> nat option) list"
  ur_items :: "nat \<rightharpoonup> conn_item"
  ur_fresh :: nat
  ur_len :: "nat \<Rightarrow> nat"
  ur_server :: kvserver
  ur_sent :: "(nat \<times> string) list"
  ur_mallocs :: mallocs

definition uring_malloc :: "uring \<Rightarrow> uring option" where
  "uring_malloc U = (let (ok, ms) = kvstore_malloc (ur_mallocs U) in if ok then Some (U\<lparr>ur_mallocs := ms\<rparr>) else None)"

definition set_event_accept :: "uring \<Rightarrow> uring option" where
  "set_event_accept U = do { U \<leftarrow> uring_malloc U; Some (U\<lparr>ur_pending := ur_pending U @ [(EVENT_ACCEPT, None)]\<rparr>) }"

definition set_event_recv :: "uring \<Rightarrow> nat \<Rightarrow> uring option" where
  "set_event_recv U i =
     do { U \<leftarrow> uring_malloc U; item \<leftarrow> ur_items U i; Some (U\<lparr>ur_pending := ur_pending U @ [(EVENT_READ, Some i)]\<rparr>) }"

definition set_event_send :: "uring \<Rightarrow> nat \<Rightarrow> nat \<Rightarrow> uring option" where
  "set_event_send U i len =
     do { U \<leftarrow> uring_malloc U; item \<leftarrow> ur_items U i;
          Some (U\<lparr>ur_pending := ur_pending U @ [(EVENT_WRITE, Some i)], ur_len := (ur_len U)(i := len)\<rparr>) }"

text \<open>
  What a completion carries: the descriptor of an accept, the bytes of a read, the number of bytes of
  a write that the kernel has taken, or an error.
\<close>

datatype completion = Fd int | Bytes string | Sent nat | Failed

definition uring_accept :: "uring \<Rightarrow> int \<Rightarrow> uring option" where
  "uring_accept U connfd =
     do { U \<leftarrow> set_event_accept U;
          if 0 \<le> connfd
          then do {
            U \<leftarrow> uring_malloc U;
            let i = ur_fresh U;
            set_event_recv (U\<lparr>ur_items := (ur_items U)(i \<mapsto> zero_item), ur_fresh := Suc i\<rparr>) i }
          else Some U }"

definition uring_read :: "uring \<Rightarrow> nat \<Rightarrow> completion \<Rightarrow> uring outcome option" where
  "uring_read U i res =
     do { item \<leftarrow> ur_items U i;
          case res of
            Bytes d \<Rightarrow>
              if d = [] then Some (Returned (U\<lparr>ur_items := (ur_items U)(i := None)\<rparr>))
              else if BUFFER_LENGTH \<le> length d then None
              else do {
                let item = item\<lparr>rbuffer := (recv_into (rbuffer item) d)[length d := NUL]\<rparr>;
                out \<leftarrow> kvstore_requese (ur_server U) item;
                case out of
                  Aborted \<Rightarrow> Some Aborted
                | Returned (item, S) \<Rightarrow> do {
                    U \<leftarrow> set_event_send (U\<lparr>ur_items := (ur_items U)(i \<mapsto> item), ur_server := S\<rparr>) i (length (wbuffer item));
                    Some (Returned U) }}
          | _ \<Rightarrow> Some (Returned (U\<lparr>ur_items := (ur_items U)(i := None)\<rparr>)) }"

text \<open>A write has completed, with whatever result: the next read is submitted.\<close>

definition uring_write :: "uring \<Rightarrow> nat \<Rightarrow> completion \<Rightarrow> uring option" where
  "uring_write U i res =
     do { item \<leftarrow> ur_items U i;
          let U = (case res of
                     Sent n \<Rightarrow> U\<lparr>ur_sent := ur_sent U @ [(i, take n (take (ur_len U i) (wbuffer item)))]\<rparr>
                   | _ \<Rightarrow> U);
          set_event_recv U i }"

text \<open>One turn of the loop for the completion of the pending operation number \<open>n\<close>.\<close>

definition uring_turn :: "uring \<Rightarrow> nat \<Rightarrow> completion \<Rightarrow> uring outcome option" where
  "uring_turn U n res =
     (if n < length (ur_pending U)
      then let (event, obj) = ur_pending U ! n;
               U = U\<lparr>ur_pending := take n (ur_pending U) @ drop (Suc n) (ur_pending U)\<rparr>
           in case event of
                EVENT_ACCEPT \<Rightarrow> do { U \<leftarrow> uring_accept U (case res of Fd c \<Rightarrow> c | _ \<Rightarrow> -1); Some (Returned U) }
              | EVENT_READ \<Rightarrow> do { i \<leftarrow> obj; uring_read U i res }
              | EVENT_WRITE \<Rightarrow> do { i \<leftarrow> obj; U \<leftarrow> uring_write U i res; Some (Returned U) }
      else None)"

definition uring_start :: "mallocs \<Rightarrow> kvserver \<Rightarrow> uring option" where
  "uring_start ms S = set_event_accept
     \<lparr>ur_pending = [], ur_items = Map.empty, ur_fresh = 0, ur_len = \<lambda>_. 0, ur_server = S, ur_sent = [], ur_mallocs = ms\<rparr>"

fun uring_loop :: "uring \<Rightarrow> (nat \<times> completion) list \<Rightarrow> uring outcome option" where
  "uring_loop U [] = Some (Returned U)"
| "uring_loop U ((n, res) # es) =
     do { out \<leftarrow> uring_turn U n res; case out of Aborted \<Rightarrow> Some Aborted | Returned U \<Rightarrow> uring_loop U es }"

definition io_uring_entry :: "mallocs \<Rightarrow> kvserver \<Rightarrow> (nat \<times> completion) list \<Rightarrow> uring outcome option" where
  "io_uring_entry ms S es = do { U \<leftarrow> uring_start ms S; uring_loop U es }"

section \<open>The coroutine reader\<close>

text \<open>
  \<open>server_reader\<close> as a loop over the results of \<open>recv\<close>: a cleared item for every request, the
  reply sent at once (\<open>ok\<close> is whether \<open>send\<close> succeeded), and the end of the loop on a closed
  connection or a failed send. A failing \<open>recv\<close> is tried again.
\<close>

fun server_reader :: "kvserver \<Rightarrow> (recv_result \<times> bool) list \<Rightarrow> (string list \<times> kvserver \<times> bool) outcome option" where
  "server_reader S [] = Some (Returned ([], S, True))"
| "server_reader S ((res, ok) # rs) = (case res of
     Received d \<Rightarrow>
       do { out \<leftarrow> kvstore_requese S (zero_item\<lparr>rbuffer := recv_into (rbuffer zero_item) d\<rparr>);
            case out of
              Aborted \<Rightarrow> Some Aborted
            | Returned (item, S) \<Rightarrow>
                if \<not> ok then Some (Returned ([], S, False))
                else do {
                  out \<leftarrow> server_reader S rs;
                  case out of
                    Aborted \<Rightarrow> Some Aborted
                  | Returned (replies, S, up) \<Rightarrow> Some (Returned (wbuffer item # replies, S, up)) }}
   | Disconnected \<Rightarrow> Some (Returned ([], S, False))
   | RecvError \<Rightarrow> server_reader S rs)"

section \<open>What a request does to the receive buffer\<close>

text \<open>The handler writes nothing but NULs to the receive buffer.\<close>

definition clears :: "string \<Rightarrow> string \<Rightarrow> bool" where
  "clears b b' \<longleftrightarrow> list_all2 (\<lambda>c c'. c' = c \<or> c' = NUL) b b'"

lemma clears_refl: "clears b b"
  by (simp add: clears_def list_all2_refl)

lemma clears_trans: "clears a b \<Longrightarrow> clears b c \<Longrightarrow> clears a c"
  by (simp add: clears_def list_all2_conv_all_nth) metis

lemma clears_update: "clears b (b[i := NUL])"
  by (cases "i < length b") (auto simp: clears_def list_all2_conv_all_nth nth_list_update)

lemma clears_trim: "clears b (trim_newlines b n)"
  by (induction b n rule: trim_newlines.induct) (auto simp: clears_refl intro: clears_trans clears_update)

lemma clears_strtok: "strtok b p = Some (t, p', b') \<Longrightarrow> clears b b'"
  by (auto simp: strtok_def clears_refl clears_update split: Option.bind_split_asm if_splits)

lemma clears_split: "split_loop b p toks = Some y \<Longrightarrow> clears b (snd y)"
  using split_loop.raw_induct [of "\<lambda>b p toks y. clears b (snd y)" b p toks y]
  by (force dest!: clears_strtok split: Option.bind_split_asm option.splits if_splits intro: clears_trans)

lemma parser_keeps_rbuffer:
  "kvstore_parser_protocol S item tokens n = Some (Returned (i, S')) \<Longrightarrow> rbuffer i = rbuffer item"
  by (auto simp: kvstore_parser_protocol_def Let_def split: if_splits option.splits Option.bind_split_asm)

lemma requese_clears:
  "kvstore_requese S item = Some (Returned (i, S')) \<Longrightarrow> clears (rbuffer item) (rbuffer i)"
  by (auto simp: kvstore_requese_def kvstore_split_token_def Let_def
      dest!: parser_keeps_rbuffer clears_split split: Option.bind_split_asm intro: clears_trans clears_trim)

lemma clears_tail:
  assumes "clears b b'" and "drop n b = replicate k NUL"
  shows "drop n b' = replicate k NUL"
proof -
  have "list_all2 (\<lambda>c c'. c' = c \<or> c' = NUL) (drop n b) (drop n b')" using assms(1) unfolding clears_def by (rule list_all2_dropI)
  then show ?thesis unfolding assms(2) by (auto simp: list_all2_conv_all_nth list_eq_iff_nth_eq)
qed

lemma clears_length: "clears b b' \<Longrightarrow> length b' = length b"
  by (simp add: clears_def list_all2_lengthD)

lemma parser_same:
  "kvstore_parser_protocol S i1 tokens n = Some (Returned (j, S')) \<Longrightarrow> n \<noteq> 0 \<Longrightarrow>
     kvstore_parser_protocol S i2 tokens n = Some (Returned (i2\<lparr>wbuffer := wbuffer j\<rparr>, S'))"
  by (auto simp: kvstore_parser_protocol_def Let_def split: option.splits Option.bind_splits)

text \<open>The reply to a request that is not blank depends on the bytes before the first NUL only.\<close>

lemma requese_same:
  assumes "rbuffer i1 = s @ NUL # r1" and "rbuffer i2 = s @ NUL # r2" and "NUL \<notin> set s" and "words (chomp s) \<noteq> []"
    and "kvstore_requese S i1 = Some (Returned (j, S'))"
  shows "\<exists>j'. kvstore_requese S i2 = Some (Returned (j', S')) \<and> wbuffer j' = wbuffer j"
proof -
  have "length (words (chomp s)) \<le> KVSTORE_MAX_TOKEN"
  proof (rule ccontr)
    assume long: "\<not> ?thesis"
    obtain msg t where "cstr (rbuffer i1) 0 = Some s" "trim_newlines (rbuffer i1) (length s) = msg"
        "drop 0 msg = chomp s @ NUL # t" "NUL \<notin> set (chomp s)"
      by (rule requese_split [OF assms(1,3)])
    then have "kvstore_requese S i1 = None" using long split_loop_overflow [of 0 msg "chomp s" t "[]"]
      by (simp add: kvstore_requese_def kvstore_split_token_def)
    with assms(5) show False by simp
  qed
  from requese_words [OF assms(1,3) this, of S] requese_words [OF assms(2,3) this, of S]
  obtain b1 b2 where "kvstore_requese S i1 =
      kvstore_parser_protocol S (i1\<lparr>rbuffer := b1\<rparr>) (tok_fun (words (chomp s))) (length (words (chomp s)))"
    and "kvstore_requese S i2 =
      kvstore_parser_protocol S (i2\<lparr>rbuffer := b2\<rparr>) (tok_fun (words (chomp s))) (length (words (chomp s)))"
    by blast
  with assms(4,5) parser_same show ?thesis by fastforce
qed

text \<open>Requests as a client sends them, one per \<open>recv\<close>.\<close>

definition plain_request :: "string \<Rightarrow> bool" where
  "plain_request m \<longleftrightarrow> length m < BUFFER_LENGTH \<and> NUL \<notin> set m \<and> words (chomp m) \<noteq> []"

lemma plain_request_ne: "plain_request m \<Longrightarrow> m \<noteq> []"
  by (auto simp: plain_request_def chomp_def)

lemma plain_request_same:
  assumes "plain_request m" and "rbuffer i = m @ NUL # r"
    and "kvstore_requese S (zero_item\<lparr>rbuffer := recv_into (rbuffer zero_item) m\<rparr>) = Some (Returned (j, S'))"
  shows "\<exists>j'. kvstore_requese S i = Some (Returned (j', S')) \<and> wbuffer j' = wbuffer j"
proof -
  obtain r' where "rbuffer (zero_item\<lparr>rbuffer := recv_into (rbuffer zero_item) m\<rparr>) = m @ NUL # r'"
    using recv_item_nul [of m] assms(1) by (auto simp: plain_request_def recv_into_zero)
  from requese_same [OF this assms(2) _ _ assms(3)] assms(1) show ?thesis by (simp add: plain_request_def)
qed

lemma server_reader_Cons:
  assumes "server_reader S ((Received m, True) # rs) = Some (Returned (replies, S', up))"
  obtains j S1 rep where "kvstore_requese S (zero_item\<lparr>rbuffer := recv_into (rbuffer zero_item) m\<rparr>) = Some (Returned (j, S1))"
    and "replies = wbuffer j # rep" and "server_reader S1 rs = Some (Returned (rep, S', up))"
  using assms by (auto split: Option.bind_split_asm outcome.splits)

section \<open>Sessions\<close>

lemma take_min_length [simp]: "take (min n (length xs)) xs = take n xs"
  by (simp add: min_def)

abbreviation reads :: "string list \<Rightarrow> (recv_result \<times> bool) list" where
  "reads ms \<equiv> map (\<lambda>m. (Received m, True)) ms"

definition reactor_start :: "kvserver \<Rightarrow> reactor" where
  "reactor_start S = \<lparr>connlist = \<lambda>_. zero_item, recv_t = Map.empty, epfd = Map.empty, rx_server = S, rx_sent = []\<rparr>"

lemma epoll_request:
  assumes m: "plain_request m" and R: "recv_t R c = Some Recv_cb" "epfd R c \<noteq> None"
    and b: "length (rbuffer (connlist R c)) = BUFFER_LENGTH" "n \<le> length m"
      "drop n (rbuffer (connlist R c)) = replicate (BUFFER_LENGTH - n) NUL"
    and z: "kvstore_requese (rx_server R) (zero_item\<lparr>rbuffer := recv_into (rbuffer zero_item) m\<rparr>) = Some (Returned (j, S1))"
  obtains R' where "\<forall>evs. epoll_loop R (Readable c (Received m) # Writable c k # evs) = epoll_loop R' evs"
    and "rx_server R' = S1" and "rx_sent R' = rx_sent R @ [(c, take (nat k) (wbuffer j))]" and "recv_t R' = recv_t R"
    and "epfd R' = (epfd R)(c \<mapsto> EPOLLIN)" and "length (rbuffer (connlist R' c)) = BUFFER_LENGTH"
    and "drop (length m) (rbuffer (connlist R' c)) = replicate (BUFFER_LENGTH - length m) NUL"
proof -
  let ?b = "recv_into (rbuffer (connlist R c)) m"
  let ?i = "connlist R c\<lparr>rbuffer := ?b, rlen := int (length m)\<rparr>"
  have "drop (length m) (rbuffer (connlist R c)) = drop (length m - n) (drop n (rbuffer (connlist R c)))" using b(2) by simp
  then have tail: "drop (length m) (rbuffer (connlist R c)) = replicate (BUFFER_LENGTH - length m) NUL"
    using b(2,3) by (simp only: drop_replicate) simp
  have len: "length m < BUFFER_LENGTH" using m by (simp add: plain_request_def)
  then have "?b = m @ NUL # replicate (BUFFER_LENGTH - Suc (length m)) NUL"
    by (simp add: recv_into_def tail flip: replicate_Suc Suc_diff_Suc)
  then have rb: "rbuffer ?i = m @ NUL # replicate (BUFFER_LENGTH - Suc (length m)) NUL" by simp
  obtain i where i: "kvstore_requese (rx_server R) ?i = Some (Returned (i, S1))" "wbuffer i = wbuffer j"
    using plain_request_same [OF m rb z] by blast
  have cl: "clears ?b (rbuffer i)" using requese_clears [OF i(1)] by simp
  have "length ?b = BUFFER_LENGTH" using len b(1) by (simp add: recv_into_def)
  then have "length (rbuffer i) = BUFFER_LENGTH" using clears_length [OF cl] by simp
  moreover have "drop (length m) (rbuffer i) = replicate (BUFFER_LENGTH - length m) NUL"
    by (rule clears_tail [OF cl]) (simp add: recv_into_def tail)
  ultimately show thesis using R i
    by (intro that [of "R\<lparr>connlist := (connlist R)(c := i\<lparr>wlen := int (length (wbuffer j))\<rparr>),
                rx_server := S1, rx_sent := rx_sent R @ [(c, take (nat k) (wbuffer j))], epfd := (epfd R)(c \<mapsto> EPOLLIN)\<rparr>"])
      (auto simp: dispatch_def recv_cb_def send_cb_def set_event_def Let_def)
qed

lemma server_reader_length:
  "server_reader S (reads ms) = Some (Returned (replies, S', True)) \<Longrightarrow> length replies = length ms"
proof (induction ms arbitrary: S replies)
  case (Cons m ms)
  obtain j :: conn_item and S1 rep where "replies = wbuffer j # rep" "server_reader S1 (reads ms) = Some (Returned (rep, S', True))"
    by (rule server_reader_Cons [OF Cons.prems [unfolded list.map]]) blast
  then show ?case using Cons.IH by simp
qed simp

text \<open>
  What the front ends share: a run over events, the events one request takes (\<open>evs\<close>), where a request
  \<open>m\<close> has the text \<open>body m\<close> and of a reply to it the kernel takes the part \<open>taken m\<close>, the server and the
  replies sent in a state, whether a state can take a request (\<open>ready\<close>), and which request may follow
  another (\<open>next_ok\<close>). A request in a ready state must be answered as one in a cleared buffer is. The
  session lemma is proved from this once.
\<close>

locale front_end =
  fixes run :: "'s \<Rightarrow> 'e list \<Rightarrow> 's outcome option"
    and body :: "'m \<Rightarrow> string"
    and taken :: "'m \<Rightarrow> string \<Rightarrow> string"
    and evs :: "'m \<Rightarrow> 'e list"
    and srv :: "'s \<Rightarrow> kvserver"
    and sent :: "'s \<Rightarrow> (nat \<times> string) list"
    and conn :: nat
    and ready :: "'s \<Rightarrow> string \<Rightarrow> bool"
    and next_ok :: "string \<Rightarrow> string \<Rightarrow> bool"
  assumes run_Nil: "run s [] = Some (Returned s)"
    and request: "plain_request (body m) \<Longrightarrow> ready s (body m) \<Longrightarrow>
      kvstore_requese (srv s) (zero_item\<lparr>rbuffer := recv_into (rbuffer zero_item) (body m)\<rparr>) = Some (Returned (j, S1)) \<Longrightarrow>
      \<exists>s'. (\<forall>es. run s (evs m @ es) = run s' es) \<and> srv s' = S1 \<and> sent s' = sent s @ [(conn, taken m (wbuffer j))] \<and>
        (\<forall>m'. next_ok (body m) m' \<longrightarrow> ready s' m')"
begin

lemma session:
  assumes "\<forall>m \<in> set ms. plain_request (body m)" and "sorted_wrt next_ok (map body ms)" and "ms \<noteq> [] \<longrightarrow> ready s (body (hd ms))"
    and "server_reader (srv s) (reads (map body ms)) = Some (Returned (replies, S', True))"
  shows "\<exists>s'. run s (concat (map evs ms)) = Some (Returned s') \<and> srv s' = S' \<and>
           sent s' = sent s @ map (Pair conn) (map2 taken ms replies) \<and> (\<forall>m. ms \<noteq> [] \<and> next_ok (body (last ms)) m \<longrightarrow> ready s' m)"
  using assms
proof (induction ms arbitrary: s replies)
  case Nil
  then show ?case by (simp add: run_Nil)
next
  case (Cons m ms)
  obtain j S1 rep where z: "kvstore_requese (srv s) (zero_item\<lparr>rbuffer := recv_into (rbuffer zero_item) (body m)\<rparr>) = Some (Returned (j, S1))"
      and rep: "replies = wbuffer j # rep" "server_reader S1 (reads (map body ms)) = Some (Returned (rep, S', True))"
    by (rule server_reader_Cons [OF Cons.prems(4) [unfolded list.map]])
  have m: "plain_request (body m)" "ready s (body m)" using Cons.prems(1,3) by auto
  obtain s1 where s1: "\<forall>es. run s (evs m @ es) = run s1 es" "srv s1 = S1" "sent s1 = sent s @ [(conn, taken m (wbuffer j))]"
      "\<forall>m'. next_ok (body m) m' \<longrightarrow> ready s1 m'"
    using request [OF m z] by blast
  have "ms \<noteq> [] \<longrightarrow> ready s1 (body (hd ms))" using Cons.prems(2) s1(4) by (cases ms) auto
  then obtain s' where s': "run s1 (concat (map evs ms)) = Some (Returned s')" "srv s' = S'"
      "sent s' = sent s1 @ map (Pair conn) (map2 taken ms rep)" "\<forall>m. ms \<noteq> [] \<and> next_ok (body (last ms)) m \<longrightarrow> ready s' m"
    using Cons.IH [of s1 rep] Cons.prems(1,2) s1(2) rep(2) by auto
  moreover have "s' = s1" if "ms = []" using s'(1) run_Nil that by simp
  ultimately show ?case using s1(1,3,4) rep(1) by (auto intro!: exI [of _ s'])
qed

end

text \<open>A request of the reactor with the number of bytes that \<open>send\<close> takes of its reply.\<close>

abbreviation epoll_evs :: "nat \<Rightarrow> string \<times> int \<Rightarrow> kevent list" where
  "epoll_evs c m \<equiv> [Readable c (Received (fst m)), Writable c (snd m)]"

text \<open>A connection of the reactor can take a request that covers what earlier ones left in its buffer.\<close>

definition epoll_ready :: "nat \<Rightarrow> reactor \<Rightarrow> string \<Rightarrow> bool" where
  "epoll_ready c R m \<longleftrightarrow> recv_t R c = Some Recv_cb \<and> epfd R c \<noteq> None \<and>
     length (rbuffer (connlist R c)) = BUFFER_LENGTH \<and>
     (\<exists>n \<le> length m. drop n (rbuffer (connlist R c)) = replicate (BUFFER_LENGTH - n) NUL)"

interpretation epoll: front_end epoll_loop fst "\<lambda>m. take (nat (snd m))" "epoll_evs c" rx_server rx_sent c "epoll_ready c"
  "\<lambda>m m'. length m \<le> length m'" for c
proof unfold_locales
  fix m :: "string \<times> int" and R j S1
  assume m: "plain_request (fst m)" and "epoll_ready c R (fst m)"
    and z: "kvstore_requese (rx_server R) (zero_item\<lparr>rbuffer := recv_into (rbuffer zero_item) (fst m)\<rparr>) = Some (Returned (j, S1))"
  then obtain n where R: "recv_t R c = Some Recv_cb" "epfd R c \<noteq> None" "length (rbuffer (connlist R c)) = BUFFER_LENGTH"
      "n \<le> length (fst m)" "drop n (rbuffer (connlist R c)) = replicate (BUFFER_LENGTH - n) NUL"
    by (auto simp: epoll_ready_def)
  obtain R' where "\<forall>evs. epoll_loop R (Readable c (Received (fst m)) # Writable c (snd m) # evs) = epoll_loop R' evs"
      "rx_server R' = S1" "rx_sent R' = rx_sent R @ [(c, take (nat (snd m)) (wbuffer j))]" "recv_t R' = recv_t R"
      "epfd R' = (epfd R)(c \<mapsto> EPOLLIN)" "length (rbuffer (connlist R' c)) = BUFFER_LENGTH"
      "drop (length (fst m)) (rbuffer (connlist R' c)) = replicate (BUFFER_LENGTH - length (fst m)) NUL"
    by (rule epoll_request [OF m R z])
  then show "\<exists>R'. (\<forall>es. epoll_loop R (epoll_evs c m @ es) = epoll_loop R' es) \<and> rx_server R' = S1 \<and>
      rx_sent R' = rx_sent R @ [(c, take (nat (snd m)) (wbuffer j))] \<and> (\<forall>m'. length (fst m) \<le> length m' \<longrightarrow> epoll_ready c R' m')"
    using R(1) by (intro exI [of _ R']) (auto simp: epoll_ready_def)
qed simp

lemma epoll_accept:
  assumes "c < CONN_MAX" and "c \<noteq> lfd"
  obtains R where "epoll_loop (epoll_setup (reactor_start S) [lfd]) (Accepts lfd (int c) # evs) = epoll_loop R evs"
    and "recv_t R c = Some Recv_cb" and "epfd R c \<noteq> None" and "connlist R c = zero_item" and "rx_server R = S" and "rx_sent R = []"
  using assms by (intro that) (auto simp: epoll_setup_def reactor_start_def dispatch_def accept_cb_def set_event_def)


section \<open>The io_uring session\<close>

lemma uring_malloc_Nil: "ur_mallocs U = [] \<Longrightarrow> uring_malloc U = Some U"
  by (cases U) (simp add: uring_malloc_def)

lemmas uring_submits = set_event_accept_def set_event_recv_def set_event_send_def uring_malloc_Nil

lemma uring_request:
  assumes m: "plain_request m" and U: "ur_pending U = [a, (EVENT_READ, Some i)]" "ur_items U i = Some item" "ur_mallocs U = []"
    and b: "length (rbuffer item) = BUFFER_LENGTH"
    and z: "kvstore_requese (ur_server U) (zero_item\<lparr>rbuffer := recv_into (rbuffer zero_item) m\<rparr>) = Some (Returned (j, S1))"
  obtains U' item' where "\<forall>es. uring_loop U ((1, Bytes m) # (1, Sent n) # es) = uring_loop U' es"
    and "ur_server U' = S1" and "ur_sent U' = ur_sent U @ [(i, take n (wbuffer j))]"
    and "ur_pending U' = [a, (EVENT_READ, Some i)]" and "ur_items U' i = Some item'" and "ur_mallocs U' = []"
    and "length (rbuffer item') = BUFFER_LENGTH"
proof -
  have len: "length m < BUFFER_LENGTH" and ne: "m \<noteq> []" using m plain_request_ne by (auto simp: plain_request_def)
  let ?b = "(recv_into (rbuffer item) m)[length m := NUL]"
  obtain x r where "drop (length m) (rbuffer item) = x # r" using len b by (metis Cons_nth_drop_Suc)
  then have rb: "rbuffer (item\<lparr>rbuffer := ?b\<rparr>) = m @ NUL # r" by (simp add: recv_into_def list_update_append)
  obtain k where k: "kvstore_requese (ur_server U) (item\<lparr>rbuffer := ?b\<rparr>) = Some (Returned (k, S1))" "wbuffer k = wbuffer j"
    using plain_request_same [OF m rb z] by blast
  have "length (rbuffer k) = BUFFER_LENGTH"
    using clears_length [OF requese_clears [OF k(1)]] len b by (simp add: recv_into_def)
  then show thesis using U k len ne
    by (intro that [of "U\<lparr>ur_items := (ur_items U)(i \<mapsto> k), ur_server := S1, ur_len := (ur_len U)(i := length (wbuffer j)),
              ur_sent := ur_sent U @ [(i, take n (wbuffer j))], ur_pending := [a, (EVENT_READ, Some i)]\<rparr>" k])
      (auto simp: uring_turn_def uring_read_def uring_write_def uring_submits)
qed

text \<open>A request of the ring with the number of bytes that the kernel takes of its reply.\<close>

abbreviation uring_evs :: "string \<times> nat \<Rightarrow> (nat \<times> completion) list" where
  "uring_evs m \<equiv> [(1, Bytes (fst m)), (1, Sent (snd m))]"

definition uring_ready :: "nat \<Rightarrow> uring \<Rightarrow> string \<Rightarrow> bool" where
  "uring_ready i U m \<longleftrightarrow> (\<exists>item. ur_pending U = [(EVENT_ACCEPT, None), (EVENT_READ, Some i)] \<and>
     ur_items U i = Some item \<and> ur_mallocs U = [] \<and> length (rbuffer item) = BUFFER_LENGTH)"

interpretation uring: front_end uring_loop fst "\<lambda>m. take (snd m)" uring_evs ur_server ur_sent i "uring_ready i" "\<lambda>_ _. True" for i
proof unfold_locales
  fix m :: "string \<times> nat" and U j S1
  assume m: "plain_request (fst m)" and "uring_ready i U (fst m)"
    and z: "kvstore_requese (ur_server U) (zero_item\<lparr>rbuffer := recv_into (rbuffer zero_item) (fst m)\<rparr>) = Some (Returned (j, S1))"
  then obtain item where U: "ur_pending U = [(EVENT_ACCEPT, None), (EVENT_READ, Some i)]" "ur_items U i = Some item" "ur_mallocs U = []"
      "length (rbuffer item) = BUFFER_LENGTH"
    by (auto simp: uring_ready_def)
  obtain U' item' where "\<forall>es. uring_loop U ((1, Bytes (fst m)) # (1, Sent (snd m)) # es) = uring_loop U' es"
      "ur_server U' = S1" "ur_sent U' = ur_sent U @ [(i, take (snd m) (wbuffer j))]" "ur_pending U' = [(EVENT_ACCEPT, None), (EVENT_READ, Some i)]"
      "ur_items U' i = Some item'" "ur_mallocs U' = []" "length (rbuffer item') = BUFFER_LENGTH"
    by (rule uring_request [OF m U z])
  then show "\<exists>U'. (\<forall>es. uring_loop U (uring_evs m @ es) = uring_loop U' es) \<and> ur_server U' = S1 \<and>
      ur_sent U' = ur_sent U @ [(i, take (snd m) (wbuffer j))] \<and> (\<forall>m'. True \<longrightarrow> uring_ready i U' m')"
    by (intro exI [of _ U']) (simp add: uring_ready_def)
qed simp


section \<open>One outstanding operation per connection\<close>

text \<open>
  What keeps the io_uring loop memory safe: one accept is pending, and every connection object
  that is allocated has exactly one operation pending, a freed one none.
\<close>

definition pending_for :: "nat option \<Rightarrow> uring \<Rightarrow> nat" where
  "pending_for obj U = length (filter (\<lambda>op. snd op = obj) (ur_pending U))"

definition ring_inv :: "uring \<Rightarrow> bool" where
  "ring_inv U \<longleftrightarrow> (\<forall>(e, obj) \<in> set (ur_pending U). e = EVENT_ACCEPT \<longleftrightarrow> obj = None) \<and>
     pending_for None U = 1 \<and>
     (\<forall>i. pending_for (Some i) U = (if ur_items U i = None then 0 else 1)) \<and>
     (\<forall>i \<ge> ur_fresh U. ur_items U i = None)"

lemma uring_malloc_eq: "uring_malloc U = Some U' \<Longrightarrow> \<exists>ms. U' = U\<lparr>ur_mallocs := ms\<rparr>"
  by (auto simp: uring_malloc_def split: prod.splits if_splits)

lemma submit_eq:
  "set_event_accept U = Some U' \<Longrightarrow> \<exists>ms. U' = U\<lparr>ur_mallocs := ms, ur_pending := ur_pending U @ [(EVENT_ACCEPT, None)]\<rparr>"
  "set_event_recv U i = Some U' \<Longrightarrow> \<exists>ms. U' = U\<lparr>ur_mallocs := ms, ur_pending := ur_pending U @ [(EVENT_READ, Some i)]\<rparr>"
  "set_event_send U i n = Some U' \<Longrightarrow>
     \<exists>ms. U' = U\<lparr>ur_mallocs := ms, ur_pending := ur_pending U @ [(EVENT_WRITE, Some i)], ur_len := (ur_len U)(i := n)\<rparr>"
  by (force simp: set_event_accept_def set_event_recv_def set_event_send_def bind_eq_Some_conv dest!: uring_malloc_eq)+

lemma ring_inv_start: "uring_start ms S = Some U \<Longrightarrow> ring_inv U"
  unfolding uring_start_def by (drule submit_eq(1)) (auto simp: ring_inv_def pending_for_def)

text \<open>The ring without the operation that has completed.\<close>

definition ring_taken :: "nat option \<Rightarrow> uring \<Rightarrow> bool" where
  "ring_taken obj U \<longleftrightarrow> (\<forall>(e, obj) \<in> set (ur_pending U). e = EVENT_ACCEPT \<longleftrightarrow> obj = None) \<and>
     pending_for None U = (if obj = None then 0 else 1) \<and>
     (\<forall>i. pending_for (Some i) U = (if ur_items U i = None \<or> obj = Some i then 0 else 1)) \<and>
     (\<forall>i \<ge> ur_fresh U. ur_items U i = None) \<and> (\<forall>i. obj = Some i \<longrightarrow> ur_items U i \<noteq> None)"

lemma ring_inv_take:
  assumes "ring_inv U" and "ur_pending U = xs @ (e, obj) # ys"
  shows "ring_taken obj (U\<lparr>ur_pending := xs @ ys\<rparr>) \<and> (e = EVENT_ACCEPT \<longleftrightarrow> obj = None)"
proof -
  have none: "pending_for None U = 1"
    and some: "pending_for (Some i) U = (if ur_items U i = None then 0 else 1)" for i
    using assms(1) by (simp_all add: ring_inv_def)
  show ?thesis
  proof (cases obj)
    case None
    then show ?thesis using assms none some by (simp add: ring_inv_def ring_taken_def pending_for_def)
  next
    case (Some i)
    have "ur_items U i \<noteq> None" using some [of i] assms(2) Some by (simp add: pending_for_def split: if_splits)
    moreover have "pending_for (Some j) (U\<lparr>ur_pending := xs @ ys\<rparr>) = (if ur_items U j = None \<or> j = i then 0 else 1)" for j
      using some [of j] assms(2) Some by (auto simp: pending_for_def split: if_splits)
    ultimately show ?thesis using assms none Some by (auto simp: ring_inv_def ring_taken_def pending_for_def)
  qed
qed

lemma ring_taken_accept:
  assumes "ring_taken None U" and "uring_accept U connfd = Some U'"
  shows "ring_inv U'"
proof -
  obtain U1 where U1: "set_event_accept U = Some U1" using assms(2) by (auto simp: uring_accept_def bind_eq_Some_conv)
  show ?thesis
  proof (cases "0 \<le> connfd")
    case True
    then obtain U2 where U2: "uring_malloc U1 = Some U2"
        "set_event_recv (U2\<lparr>ur_items := (ur_items U2)(ur_fresh U2 \<mapsto> zero_item), ur_fresh := Suc (ur_fresh U2)\<rparr>) (ur_fresh U2) = Some U'"
      using assms(2) U1 by (auto simp: uring_accept_def bind_eq_Some_conv Let_def)
    from assms(1) submit_eq(1) [OF U1] uring_malloc_eq [OF U2(1)] submit_eq(2) [OF U2(2)] show ?thesis
      by (auto simp: ring_taken_def ring_inv_def pending_for_def; metis length_0_conv)
  next
    case False
    then show ?thesis using assms submit_eq(1) [OF U1] U1
      by (auto simp: uring_accept_def ring_taken_def ring_inv_def pending_for_def; metis length_0_conv)
  qed
qed

lemma ring_taken_recv: "ring_taken (Some i) U \<Longrightarrow> set_event_recv U i = Some U' \<Longrightarrow> ring_inv U'"
  by (drule submit_eq(2)) (auto simp: ring_taken_def ring_inv_def pending_for_def; metis length_0_conv)

lemma ring_taken_write:
  assumes "ring_taken (Some i) U" and "uring_write U i res = Some U'"
  shows "ring_inv U'"
proof -
  have "ring_taken (Some i) (U\<lparr>ur_sent := x\<rparr>)" for x using assms(1) by (simp add: ring_taken_def pending_for_def)
  then show ?thesis using assms ring_taken_recv by (cases res) (auto simp: uring_write_def bind_eq_Some_conv Let_def)
qed

lemma ring_taken_free: "ring_taken (Some i) U \<Longrightarrow> ring_inv (U\<lparr>ur_items := (ur_items U)(i := None)\<rparr>)"
  by (auto simp: ring_taken_def ring_inv_def pending_for_def)

lemma ring_taken_send:
  "ring_taken (Some i) U \<Longrightarrow> set_event_send (U\<lparr>ur_items := (ur_items U)(i \<mapsto> item), ur_server := S\<rparr>) i n = Some U' \<Longrightarrow> ring_inv U'"
  by (drule submit_eq(3)) (auto simp: ring_taken_def ring_inv_def pending_for_def; metis length_0_conv)

lemma ring_taken_read: "ring_taken (Some i) U \<Longrightarrow> uring_read U i res = Some (Returned U') \<Longrightarrow> ring_inv U'"
  unfolding uring_read_def
  by (auto split: Option.bind_split_asm completion.splits if_splits outcome.splits
      intro: ring_taken_free ring_taken_send simp del: fun_upd_apply)

lemma ring_inv_turn:
  assumes inv: "ring_inv U" and turn: "uring_turn U n res = Some (Returned U')"
  shows "ring_inv U'"
proof -
  have n: "n < length (ur_pending U)" using turn by (auto simp: uring_turn_def split: if_splits)
  obtain event obj where e: "ur_pending U ! n = (event, obj)" by (cases "ur_pending U ! n")
  let ?U = "U\<lparr>ur_pending := take n (ur_pending U) @ drop (Suc n) (ur_pending U)\<rparr>"
  have t: "ring_taken obj ?U" "event = EVENT_ACCEPT \<longleftrightarrow> obj = None"
    using ring_inv_take [OF inv] id_take_nth_drop [OF n] e by auto
  show ?thesis
  proof (cases event)
    case EVENT_ACCEPT
    then show ?thesis using turn n e t ring_taken_accept by (auto simp: uring_turn_def bind_eq_Some_conv)
  next
    case EVENT_READ
    then obtain i where i: "obj = Some i" using t(2) by auto
    then have "uring_read ?U i res = Some (Returned U')" using turn n e EVENT_READ by (simp add: uring_turn_def)
    then show ?thesis using t(1) unfolding i by (rule ring_taken_read [rotated])
  next
    case EVENT_WRITE
    then show ?thesis using turn n e t ring_taken_write by (auto simp: uring_turn_def bind_eq_Some_conv)
  qed
qed

lemma ring_inv_loop: "ring_inv U \<Longrightarrow> uring_loop U es = Some (Returned U') \<Longrightarrow> ring_inv U'"
  by (induction U es rule: uring_loop.induct) (auto split: Option.bind_split_asm outcome.splits dest: ring_inv_turn)

section \<open>Properties of the front ends\<close>

text \<open>
  C15. In the io_uring loop, whatever completes and in whatever order, one accept is pending and
  every connection object has exactly one pending operation as long as it is allocated and none
  once it is freed: no completion names a freed object and no two operations share its buffers.
\<close>

theorem uring_one_pending:
  assumes "io_uring_entry ms S es = Some (Returned U)"
  shows "pending_for None U = 1 \<and> (\<forall>i. pending_for (Some i) U = (if ur_items U i = None then 0 else 1))"
proof -
  obtain U0 where U0: "uring_start ms S = Some U0" "uring_loop U0 es = Some (Returned U)"
    using assms by (auto simp: io_uring_entry_def bind_eq_Some_conv)
  show ?thesis using ring_inv_loop [OF ring_inv_start [OF U0(1)] U0(2)] by (simp add: ring_inv_def)
qed

theorem uring_one_pending_witness:
  "\<exists>U. io_uring_entry [] new_server [(0, Fd 5), (0, Fd 6), (0, Bytes [])] = Some (Returned U) \<and>
     ur_items U 0 = None \<and> pending_for (Some 0) U = 0 \<and> ur_items U 1 \<noteq> None \<and> pending_for (Some 1) U = 1"
proof -
  obtain U where U: "io_uring_entry [] new_server [(0, Fd 5), (0, Fd 6), (0, Bytes [])] = Some (Returned U)"
      "ur_items U 0 = None" "ur_items U 1 \<noteq> None"
    by (simp add: io_uring_entry_def uring_start_def uring_turn_def uring_accept_def uring_read_def uring_submits)
  then show ?thesis using uring_one_pending [OF U(1)] by simp
qed

text \<open>
  A client that fills the receive buffer with 512 bytes other than NUL brings every front
  end to undefined behaviour: the epoll and the coroutine server look for the end of the string
  beyond the buffer, the io_uring loop stores its NUL there.
\<close>

theorem full_buffer_undefined:
  assumes "length d = BUFFER_LENGTH" and "NUL \<notin> set d"
    and "recv_t R fd = Some Recv_cb" and "length (rbuffer (connlist R fd)) = BUFFER_LENGTH"
  shows "dispatch R (Readable fd (Received d)) = None \<and> server_reader S ((Received d, ok) # rs) = None \<and>
         uring_read U i (Bytes d) = None"
proof -
  have "d \<noteq> []" using assms(1) by (auto simp: BUFFER_LENGTH_def)
  then have "uring_read U i (Bytes d) = None" using assms(1) by (cases "ur_items U i") (simp_all add: uring_read_def)
  moreover have "kvstore_requese T (item\<lparr>rbuffer := recv_into b d\<rparr>) = None" if "length b = BUFFER_LENGTH" for T item b
    using that assms(1,2) by (simp add: kvstore_requese_def cstr_def recv_into_def)
  ultimately show ?thesis using assms(1,2,3,4)
    by (simp add: dispatch_def recv_cb_def kvstore_requese_def cstr_def recv_into_def zero_item_def)
qed

theorem full_buffer_undefined_witness:
  "server_reader new_server [(Received (replicate 512 CHR ''x''), True)] = None"
proof -
  let ?R = "\<lparr>connlist = \<lambda>_. zero_item, recv_t = [7 \<mapsto> Recv_cb], epfd = Map.empty, rx_server = new_server, rx_sent = []\<rparr>"
  have "dispatch ?R (Readable 7 (Received (replicate 512 CHR ''x''))) = None \<and>
      server_reader new_server ((Received (replicate 512 CHR ''x''), True) # []) = None \<and>
      uring_read undefined 0 (Bytes (replicate 512 CHR ''x'')) = None"
    by (rule full_buffer_undefined) (simp_all add: BUFFER_LENGTH_def zero_item_def)
  then show ?thesis by blast
qed

subsection \<open>A session with a shorter request\<close>

lemma reader_step:
  assumes "plain_request m" and "kvstore_requese S (recv_item m) = Some (Returned (i, S1))"
    and "server_reader S1 rs = Some (Returned (rep, S', up))"
  shows "server_reader S ((Received m, True) # rs) = Some (Returned (wbuffer i # rep, S', up))"
proof -
  obtain r where r: "rbuffer (recv_item m) = m @ NUL # r" using recv_item_nul assms(1) by (auto simp: plain_request_def)
  then have "rbuffer (zero_item\<lparr>rbuffer := recv_into (rbuffer zero_item) m\<rparr>) = m @ NUL # r" by (simp add: recv_into_zero)
  from requese_same [OF r this _ _ assms(2)] assms(1,3) show ?thesis by (auto simp: plain_request_def)
qed

lemma plain_msg3: "req_ok c k v \<Longrightarrow> plain_request (msg3 c k v)"
  by (auto simp: req_ok_def plain_request_def words_msg3)

lemma hset_hcount:
  assumes r: "req_ok ''HSET'' k v"
  obtains S0 S where "init_kvengine new_server = Some S0"
    and "server_reader S0 (reads [msg3 ''HSET'' k v]) = Some (Returned ([''SUCCESS''], S, True))"
    and "server_reader S0 (reads [msg3 ''HSET'' k v, ''HCOUNT'']) = Some (Returned ([''SUCCESS'', ''1''], S, True))"
proof -
  have small: "length (enc_all []) < WAL_MAX_ARCHIVE * WAL_MAX_SIZE" by (simp add: WAL_MAX_ARCHIVE_def WAL_MAX_SIZE_def)
  obtain E where E: "init_kvengine new_server = Some E" "wal_inv E []" "server_ok (nat INT_MAX) E" "hash_view (sv_hash E) = Map.empty"
    by (rule fresh_session [of "[]" 0]) (use small in \<open>simp_all add: INT_MAX_def\<close>)
  have rec: "wal_rec_ok (''HSET'', k, v)" using r wal_word_text wal_word_cmds by (simp add: req_ok_def)
  have sp: "hash_inv (sv_hash E)" "0 < hash_space (sv_hash E)" "sv_mallocs E = []"
    using E(3) by (auto simp: server_ok_def INT_MAX_def)
  obtain h where h: "kvs_hash_set (sv_hash E) (Str k) (Str v) [] = Some (0, h, [])" "hash_inv h" "hash_view h = [k \<mapsto> v]"
    using kvs_hash.put_view [OF sp(1,2), of k v] E(4) by (auto simp: overwrite_def)
  let ?S = "E\<lparr>sv_hash := h, sv_mallocs := []\<rparr>"
  have c: "kvstore_hash_set E (Str k) (Str v) = Some (0, ?S)" using h(1) sp(3) by (simp add: kvstore_hash_set_def)
  obtain i S where i: "kvstore_requese E (recv_item (msg3 ''HSET'' k v)) = Some (Returned (i, S))"
      "wbuffer i = set_reply 0" "same_engines ?S S"
    using requese_write [OF r find_cmd_simps(9) E(2) engine_call_files(7) [OF c] rec small exec_cmd_write(5) [OF c]] by blast
  obtain t where t: "rbuffer (recv_item ''HCOUNT'') = ''HCOUNT'' @ NUL # t"
    using recv_item_nul [of "''HCOUNT''"] by (auto simp: BUFFER_LENGTH_def)
  have "kvstore_hash_count S = 1" using h(2,3) i(3) by (simp add: kvstore_hash_count_def kvs_hash_count_def same_engines_def hash_inv_def)
  moreover have "dec 1 = ''1''" by code_simp
  ultimately obtain i' where i': "kvstore_requese S (recv_item ''HCOUNT'') = Some (Returned (i', S))" "wbuffer i' = ''1''"
    using requese_words [OF t, of S]
    by (auto simp: chomp_def KVSTORE_MAX_TOKEN_def kvstore_parser_protocol_def tok_fun_def find_cmd_simps exec_cmd_defs
        count_reply_def snprintf_def BUFFER_LENGTH_def)
  have p: "plain_request ''HCOUNT''" by (simp add: plain_request_def BUFFER_LENGTH_def chomp_def)
  have "server_reader S (reads [''HCOUNT'']) = Some (Returned ([''1''], S, True))"
    using reader_step [OF p i'(1), of "[]"] i'(2) by simp
  from reader_step [OF plain_msg3 [OF r] i(1) this] reader_step [OF plain_msg3 [OF r] i(1), of "[]"] E(1) i(2)
  show thesis by (intro that [of E S]) (simp_all add: set_reply_def)
qed



text \<open>Where \<open>strtok\<close> leaves the buffer when the words are separated by one space each.\<close>

lemma strtok_word:
  assumes "drop p buf = w @ c # t" and "w \<noteq> []" and "\<forall>x \<in> set w. x \<noteq> CHR '' '' \<and> x \<noteq> NUL" and "c = CHR '' '' \<or> c = NUL"
  shows "strtok buf p = Some (Some p, if c = NUL then p + length w else Suc (p + length w), buf[p + length w := NUL])"
proof -
  obtain x w' where w: "w = x # w'" using assms(2) by (cases w) auto
  have "skip_spaces (drop p buf) p = Some p" using assms(1,3) w by simp
  moreover have "buf ! p \<noteq> NUL" using nth_of_drop [of p buf x] assms(1,3) w by auto
  moreover have "token_end (drop p buf) p = Some (p + length w)" using token_end_eq [OF assms(3,4)] assms(1) by simp
  moreover have "buf ! (p + length w) = c" using nth_of_drop [OF drop_append_at [OF assms(1)]] .
  ultimately show ?thesis using assms(4) list_update_id [of buf "p + length w"] by (auto simp: strtok_def)
qed

lemma requese_msg3_buffer:
  assumes r: "req_ok c k v" and b: "rbuffer item = msg3 c k v @ NUL # t"
    and out: "kvstore_requese S item = Some (Returned (i, S'))"
  shows "rbuffer i = c @ NUL # k @ NUL # v @ NUL # t"
proof -
  let ?b1 = "c @ NUL # k @ CHR '' '' # v @ NUL # t" and ?b2 = "c @ NUL # k @ NUL # v @ NUL # t"
  have nul: "NUL \<notin> set (msg3 c k v)" using r by (simp add: req_ok_def)
  have w: "x \<noteq> [] \<and> (\<forall>y \<in> set x. y \<noteq> CHR '' '' \<and> y \<noteq> NUL)" if "x \<in> {c, k, v}" for x
    using that r wal_word_space by (auto simp: req_ok_def msg3_def)
  have trim: "trim_newlines (rbuffer item) (length (msg3 c k v)) = rbuffer item"
  proof -
    obtain v' x where v: "v = v' @ [x]" using w [of v] by (cases v rule: rev_cases) auto
    have "x \<noteq> CHR 0x0A \<and> x \<noteq> CHR 0x0D" using r wal_word_space [of 255 v] v by (auto simp: req_ok_def)
    then show ?thesis unfolding b by (simp add: msg3_def v nth_append)
  qed
  have "strtok (rbuffer item) 0 = Some (Some 0, Suc (length c), ?b1)"
    using strtok_word [of 0 "rbuffer item" c "CHR '' ''"] w [of c] by (simp add: b msg3_def list_update_append)
  moreover have "strtok ?b1 (Suc (length c)) = Some (Some (Suc (length c)), length c + length k + 2, ?b2)"
    using strtok_word [of "Suc (length c)" ?b1 k "CHR '' ''"] w [of k] by (simp add: list_update_append)
  moreover have "strtok ?b2 (length c + length k + 2) = Some (Some (length c + length k + 2), length c + length k + 2 + length v, ?b2)"
    using strtok_word [of "length c + length k + 2" ?b2 v NUL t] w [of v] by (simp add: list_update_append)
  moreover have "strtok ?b2 (length c + length k + 2 + length v) = Some (None, length c + length k + 2 + length v, ?b2)"
    by (simp add: strtok_def nth_append)
  ultimately have "kvstore_split_token (rbuffer item) = Some ([0, Suc (length c), length c + length k + 2], ?b2)"
    by (simp add: kvstore_split_token_def split_loop.simps KVSTORE_MAX_TOKEN_def)
  moreover have "cstr (rbuffer item) 0 = Some (msg3 c k v)" using b nul by (auto simp: cstr_Some)
  ultimately show ?thesis using out parser_keeps_rbuffer trim by (fastforce simp: kvstore_requese_def)
qed

text \<open>The rest of a key behind a short request is read as part of its command.\<close>

lemma stale_command:
  assumes "wal_word 255 k" and "NUL \<notin> set k" and "2 \<le> length k"
    and "rbuffer item = recv_into (''HSET'' @ NUL # k @ NUL # t) ''HCOUNT''"
  shows "kvstore_requese S item = Some Aborted"
proof -
  obtain k1 k' where kk: "k = k1 # k'" "k' \<noteq> []" using assms(3) by (cases k; cases "tl k") auto
  let ?w = "''HCOUNT'' @ k'"
  have rb: "rbuffer item = ?w @ NUL # t" using assms(4) by (simp add: recv_into_def kk)
  have w: "\<forall>x \<in> set ?w. x \<noteq> CHR '' ''" "last k' \<noteq> CHR 0x0A" "last k' \<noteq> CHR 0x0D"
    using wal_word_space [OF assms(1)] kk by auto
  then have "chomp ?w = ?w" using kk(2) by (cases k' rule: rev_cases) (auto simp: chomp_def)
  then have "words (chomp ?w) = [?w]" using words_word(2) [of ?w] w(1) by simp
  moreover have "?w \<notin> fst ` set commands" using kk(2) by (auto simp: commands_def)
  moreover have "NUL \<notin> set ?w" using assms(2) kk(1) by simp
  ultimately show ?thesis using requese_unknown [OF rb, of ?w "[]"] by (simp add: KVSTORE_MAX_TOKEN_def)
qed

text \<open>The first request of a connection, and where it leaves the buffer.\<close>

lemma epoll_first_request:
  assumes r: "req_ok c k v" and R: "recv_t R fd = Some Recv_cb" "epfd R fd \<noteq> None" "connlist R fd = zero_item"
    and z: "kvstore_requese (rx_server R) (zero_item\<lparr>rbuffer := recv_into (rbuffer zero_item) (msg3 c k v)\<rparr>) = Some (Returned (j, S1))"
  obtains R' t where "epoll_loop R (Readable fd (Received (msg3 c k v)) # Writable fd n # evs) = epoll_loop R' evs"
    and "recv_t R' fd = Some Recv_cb" and "rbuffer (connlist R' fd) = c @ NUL # k @ NUL # v @ NUL # t"
proof -
  let ?m = "msg3 c k v"
  let ?i = "zero_item\<lparr>rbuffer := recv_into (rbuffer zero_item) ?m, rlen := int (length ?m)\<rparr>"
  obtain t where t: "recv_into (rbuffer zero_item) ?m = ?m @ NUL # t"
    using recv_item_nul [of ?m] r by (auto simp: recv_into_zero req_ok_def)
  obtain i where i: "kvstore_requese (rx_server R) ?i = Some (Returned (i, S1))"
    using plain_request_same [OF plain_msg3 [OF r] _ z, of ?i t] t by auto
  have "rbuffer i = c @ NUL # k @ NUL # v @ NUL # t"
    by (rule requese_msg3_buffer [OF r _ i]) (simp add: t)
  then show thesis using R i
    by (intro that [of "R\<lparr>connlist := (connlist R)(fd := i\<lparr>wlen := int (length (wbuffer i))\<rparr>), rx_server := S1,
               rx_sent := rx_sent R @ [(fd, take (nat n) (wbuffer i))], epfd := (epfd R)(fd \<mapsto> EPOLLIN)\<rparr>" t])
      (auto simp: dispatch_def recv_cb_def send_cb_def set_event_def Let_def)
qed

text \<open>
  The epoll reactor reads old bytes: on a connection that has stored a key of two or more
  characters, the shorter request HCOUNT ends the server process, because the bytes of the key
  that follow in the buffer are taken as part of the command. The coroutine server answers the
  same two requests with SUCCESS and 1.
\<close>

theorem epoll_stale_bytes:
  assumes r: "req_ok ''HSET'' k v" and k: "2 \<le> length k" and c: "c < CONN_MAX" "c \<noteq> lfd"
  shows "\<exists>S0 S. init_kvengine new_server = Some S0 \<and>
     epoll_loop (epoll_setup (reactor_start S0) [lfd])
       [Accepts lfd (int c), Readable c (Received (msg3 ''HSET'' k v)), Writable c n, Readable c (Received ''HCOUNT'')] = Some Aborted \<and>
     server_reader S0 (reads [msg3 ''HSET'' k v, ''HCOUNT'']) = Some (Returned ([''SUCCESS'', ''1''], S, True))"
proof -
  let ?m = "msg3 ''HSET'' k v" and ?e = "[Readable c (Received ''HCOUNT'')]"
  obtain S0 S where S: "init_kvengine new_server = Some S0"
      "server_reader S0 (reads [?m, ''HCOUNT'']) = Some (Returned ([''SUCCESS'', ''1''], S, True))"
    by (rule hset_hcount [OF r])
  obtain j S1 where z: "kvstore_requese S0 (zero_item\<lparr>rbuffer := recv_into (rbuffer zero_item) ?m\<rparr>) = Some (Returned (j, S1))"
    by (rule server_reader_Cons [OF S(2) [simplified list.map]])
  obtain R where R: "epoll_loop (epoll_setup (reactor_start S0) [lfd]) (Accepts lfd (int c) # Readable c (Received ?m) # Writable c n # ?e) =
        epoll_loop R (Readable c (Received ?m) # Writable c n # ?e)"
      "recv_t R c = Some Recv_cb" "epfd R c \<noteq> None" "connlist R c = zero_item" "rx_server R = S0"
    by (rule epoll_accept [OF c])
  obtain R' t where R': "epoll_loop R (Readable c (Received ?m) # Writable c n # ?e) = epoll_loop R' ?e"
      "recv_t R' c = Some Recv_cb" "rbuffer (connlist R' c) = ''HSET'' @ NUL # k @ NUL # v @ NUL # t"
    by (rule epoll_first_request [OF r R(2-4), unfolded R(5), OF z])
  have "wal_word 255 k" "NUL \<notin> set k" using r by (auto simp: req_ok_def msg3_def)
  then have "epoll_loop R' ?e = Some Aborted"
    using R'(2,3) stale_command [of k _ "v @ NUL # t"] k by (simp add: dispatch_def recv_cb_def)
  then show ?thesis using S R(1) R'(1) by simp
qed

theorem epoll_stale_bytes_witness:
  "\<exists>S0. init_kvengine new_server = Some S0 \<and>
     epoll_loop (epoll_setup (reactor_start S0) [3])
       [Accepts 3 5, Readable 5 (Received ''HSET key v''), Writable 5 7, Readable 5 (Received ''HCOUNT'')] = Some Aborted"
  using epoll_stale_bytes [of "''key''" "''v''" 5 3 7]
  by (auto simp: req_ok_def msg3_def wal_word_def isspace_def BUFFER_LENGTH_def CONN_MAX_def)

end
