(* ===== verification/Nty_Queue.thy ===== *)
theory Nty_Queue
  imports CPrelude "HOL-Library.Monad_Syntax"
begin

text \<open>
  The intrusive lists of \<open>NtyCo/core/nty_queue.h\<close> (the scheduler keeps its ready coroutines in
  one of them), at the level of their pointers: tail queues, lists, singly-linked tail queues
  and singly-linked lists, with the macros in the order of the file. Each family is shown to
  implement operations on a list of elements.
\<close>

section \<open>Memory\<close>

text \<open>
  A place that holds a pointer to an element: the first field of a head or the next field of an
  element. A second field goes with each place: for a head the address of the last place
  (\<open>tqh_last\<close>, \<open>stqh_last\<close>), for an element the address of the place that points to it
  (\<open>tqe_prev\<close>, \<open>le_prev\<close>). The two fields of heads and elements lie at the same offsets, which
  \<open>TAILQ_LAST\<close> and \<open>TAILQ_PREV\<close> make use of.
\<close>

datatype place = Head nat | Next nat

record qmem =
  nx :: "place \<Rightarrow> nat option"
  lk :: "place \<Rightarrow> place option"
  valid :: "place set"

definition get_nx :: "qmem \<Rightarrow> place \<Rightarrow> nat option option" where
  "get_nx m p = (if p \<in> valid m then Some (nx m p) else None)"

definition get_lk :: "qmem \<Rightarrow> place \<Rightarrow> place option option" where
  "get_lk m p = (if p \<in> valid m then Some (lk m p) else None)"

definition set_nx :: "qmem \<Rightarrow> place \<Rightarrow> nat option \<Rightarrow> qmem option" where
  "set_nx m p v = (if p \<in> valid m then Some (m\<lparr>nx := (nx m)(p := v)\<rparr>) else None)"

definition set_lk :: "qmem \<Rightarrow> place \<Rightarrow> place option \<Rightarrow> qmem option" where
  "set_lk m p v = (if p \<in> valid m then Some (m\<lparr>lk := (lk m)(p := v)\<rparr>) else None)"

text \<open>A pointer to a place followed; undefined for NULL.\<close>

definition deref_lk :: "qmem \<Rightarrow> place \<Rightarrow> place option" where
  "deref_lk m p = do { l \<leftarrow> get_lk m p; l }"

lemmas mem_defs = get_nx_def get_lk_def set_nx_def set_lk_def deref_lk_def

section \<open>Singly-linked lists\<close>

definition SLIST_EMPTY :: "qmem \<Rightarrow> nat \<Rightarrow> bool option" where
  "SLIST_EMPTY m h = do { f \<leftarrow> get_nx m (Head h); Some (f = None) }"

definition SLIST_FIRST :: "qmem \<Rightarrow> nat \<Rightarrow> nat option option" where
  "SLIST_FIRST m h = get_nx m (Head h)"

definition SLIST_INIT :: "qmem \<Rightarrow> nat \<Rightarrow> qmem option" where
  "SLIST_INIT m h = set_nx m (Head h) None"

definition SLIST_INSERT_AFTER :: "qmem \<Rightarrow> nat \<Rightarrow> nat \<Rightarrow> qmem option" where
  "SLIST_INSERT_AFTER m slistelm elm =
     do { v \<leftarrow> get_nx m (Next slistelm); m \<leftarrow> set_nx m (Next elm) v; set_nx m (Next slistelm) (Some elm) }"

definition SLIST_INSERT_HEAD :: "qmem \<Rightarrow> nat \<Rightarrow> nat \<Rightarrow> qmem option" where
  "SLIST_INSERT_HEAD m h elm =
     do { v \<leftarrow> get_nx m (Head h); m \<leftarrow> set_nx m (Next elm) v; set_nx m (Head h) (Some elm) }"

definition SLIST_NEXT :: "qmem \<Rightarrow> nat \<Rightarrow> nat option option" where
  "SLIST_NEXT m elm = get_nx m (Next elm)"

definition SLIST_REMOVE_AFTER :: "qmem \<Rightarrow> nat \<Rightarrow> qmem option" where
  "SLIST_REMOVE_AFTER m elm =
     do { n \<leftarrow> SLIST_NEXT m elm; e \<leftarrow> n; v \<leftarrow> SLIST_NEXT m e; set_nx m (Next elm) v }"

definition SLIST_REMOVE_HEAD :: "qmem \<Rightarrow> nat \<Rightarrow> qmem option" where
  "SLIST_REMOVE_HEAD m h = do { n \<leftarrow> SLIST_FIRST m h; e \<leftarrow> n; v \<leftarrow> SLIST_NEXT m e; set_nx m (Head h) v }"

text \<open>The search for the element in front of another, from an element on.\<close>

partial_function (option) find_before :: "qmem \<Rightarrow> nat \<Rightarrow> nat option \<Rightarrow> nat option" where
  "find_before m elm cur =
     do { c \<leftarrow> cur; n \<leftarrow> get_nx m (Next c);
          if n = Some elm then Some c else find_before m elm n }"

definition SLIST_REMOVE :: "qmem \<Rightarrow> nat \<Rightarrow> nat \<Rightarrow> qmem option" where
  "SLIST_REMOVE m h elm =
     do { f \<leftarrow> SLIST_FIRST m h;
          if f = Some elm then SLIST_REMOVE_HEAD m h
          else do { c \<leftarrow> find_before m elm f; SLIST_REMOVE_AFTER m c } }"

section \<open>Singly-linked tail queues\<close>

definition STAILQ_INIT :: "qmem \<Rightarrow> nat \<Rightarrow> qmem option" where
  "STAILQ_INIT m h = do { m \<leftarrow> set_nx m (Head h) None; set_lk m (Head h) (Some (Head h)) }"

definition STAILQ_EMPTY :: "qmem \<Rightarrow> nat \<Rightarrow> bool option" where
  "STAILQ_EMPTY m h = do { f \<leftarrow> get_nx m (Head h); Some (f = None) }"

definition STAILQ_FIRST :: "qmem \<Rightarrow> nat \<Rightarrow> nat option option" where
  "STAILQ_FIRST m h = get_nx m (Head h)"

definition STAILQ_NEXT :: "qmem \<Rightarrow> nat \<Rightarrow> nat option option" where
  "STAILQ_NEXT m elm = get_nx m (Next elm)"

definition STAILQ_CONCAT :: "qmem \<Rightarrow> nat \<Rightarrow> nat \<Rightarrow> qmem option" where
  "STAILQ_CONCAT m h1 h2 =
     do { empty \<leftarrow> STAILQ_EMPTY m h2;
          if empty then Some m
          else do {
            l \<leftarrow> deref_lk m (Head h1); f \<leftarrow> get_nx m (Head h2);
            m \<leftarrow> set_nx m l f;
            l \<leftarrow> get_lk m (Head h2); m \<leftarrow> set_lk m (Head h1) l;
            STAILQ_INIT m h2 } }"

definition STAILQ_INSERT_AFTER :: "qmem \<Rightarrow> nat \<Rightarrow> nat \<Rightarrow> nat \<Rightarrow> qmem option" where
  "STAILQ_INSERT_AFTER m h tqelm elm =
     do { v \<leftarrow> STAILQ_NEXT m tqelm; m \<leftarrow> set_nx m (Next elm) v;
          m \<leftarrow> (if v = None then set_lk m (Head h) (Some (Next elm)) else Some m);
          set_nx m (Next tqelm) (Some elm) }"

definition STAILQ_INSERT_HEAD :: "qmem \<Rightarrow> nat \<Rightarrow> nat \<Rightarrow> qmem option" where
  "STAILQ_INSERT_HEAD m h elm =
     do { v \<leftarrow> STAILQ_FIRST m h; m \<leftarrow> set_nx m (Next elm) v;
          m \<leftarrow> (if v = None then set_lk m (Head h) (Some (Next elm)) else Some m);
          set_nx m (Head h) (Some elm) }"

definition STAILQ_INSERT_TAIL :: "qmem \<Rightarrow> nat \<Rightarrow> nat \<Rightarrow> qmem option" where
  "STAILQ_INSERT_TAIL m h elm =
     do { m \<leftarrow> set_nx m (Next elm) None;
          l \<leftarrow> deref_lk m (Head h); m \<leftarrow> set_nx m l (Some elm);
          set_lk m (Head h) (Some (Next elm)) }"

text \<open>The element whose next field the address is the one of; with no such element, undefined.\<close>

fun elem_of :: "place \<Rightarrow> nat option" where
  "elem_of (Next e) = Some e"
| "elem_of (Head h) = None"

definition STAILQ_LAST :: "qmem \<Rightarrow> nat \<Rightarrow> nat option option" where
  "STAILQ_LAST m h =
     do { empty \<leftarrow> STAILQ_EMPTY m h;
          if empty then Some None else do { l \<leftarrow> deref_lk m (Head h); e \<leftarrow> elem_of l; Some (Some e) } }"

definition STAILQ_REMOVE_HEAD :: "qmem \<Rightarrow> nat \<Rightarrow> qmem option" where
  "STAILQ_REMOVE_HEAD m h =
     do { f \<leftarrow> STAILQ_FIRST m h; e \<leftarrow> f; v \<leftarrow> STAILQ_NEXT m e; m \<leftarrow> set_nx m (Head h) v;
          if v = None then set_lk m (Head h) (Some (Head h)) else Some m }"

definition STAILQ_REMOVE_AFTER :: "qmem \<Rightarrow> nat \<Rightarrow> nat \<Rightarrow> qmem option" where
  "STAILQ_REMOVE_AFTER m h elm =
     do { n \<leftarrow> STAILQ_NEXT m elm; e \<leftarrow> n; v \<leftarrow> STAILQ_NEXT m e; m \<leftarrow> set_nx m (Next elm) v;
          if v = None then set_lk m (Head h) (Some (Next elm)) else Some m }"

definition STAILQ_REMOVE :: "qmem \<Rightarrow> nat \<Rightarrow> nat \<Rightarrow> qmem option" where
  "STAILQ_REMOVE m h elm =
     do { f \<leftarrow> STAILQ_FIRST m h;
          if f = Some elm then STAILQ_REMOVE_HEAD m h
          else do { c \<leftarrow> find_before m elm f; STAILQ_REMOVE_AFTER m h c } }"

definition STAILQ_SWAP :: "qmem \<Rightarrow> nat \<Rightarrow> nat \<Rightarrow> qmem option" where
  "STAILQ_SWAP m h1 h2 =
     do { swap_first \<leftarrow> STAILQ_FIRST m h1; swap_last \<leftarrow> get_lk m (Head h1);
          f \<leftarrow> STAILQ_FIRST m h2; m \<leftarrow> set_nx m (Head h1) f;
          l \<leftarrow> get_lk m (Head h2); m \<leftarrow> set_lk m (Head h1) l;
          m \<leftarrow> set_nx m (Head h2) swap_first; m \<leftarrow> set_lk m (Head h2) swap_last;
          e1 \<leftarrow> STAILQ_EMPTY m h1; m \<leftarrow> (if e1 then set_lk m (Head h1) (Some (Head h1)) else Some m);
          e2 \<leftarrow> STAILQ_EMPTY m h2; (if e2 then set_lk m (Head h2) (Some (Head h2)) else Some m) }"

section \<open>Lists\<close>

definition LIST_EMPTY :: "qmem \<Rightarrow> nat \<Rightarrow> bool option" where
  "LIST_EMPTY m h = do { f \<leftarrow> get_nx m (Head h); Some (f = None) }"

definition LIST_FIRST :: "qmem \<Rightarrow> nat \<Rightarrow> nat option option" where
  "LIST_FIRST m h = get_nx m (Head h)"

definition LIST_NEXT :: "qmem \<Rightarrow> nat \<Rightarrow> nat option option" where
  "LIST_NEXT m elm = get_nx m (Next elm)"

definition LIST_INIT :: "qmem \<Rightarrow> nat \<Rightarrow> qmem option" where
  "LIST_INIT m h = set_nx m (Head h) None"

definition LIST_INSERT_AFTER :: "qmem \<Rightarrow> nat \<Rightarrow> nat \<Rightarrow> qmem option" where
  "LIST_INSERT_AFTER m listelm elm =
     do { v \<leftarrow> LIST_NEXT m listelm; m \<leftarrow> set_nx m (Next elm) v;
          m \<leftarrow> (case v of None \<Rightarrow> Some m | Some n \<Rightarrow> set_lk m (Next n) (Some (Next elm)));
          m \<leftarrow> set_nx m (Next listelm) (Some elm);
          set_lk m (Next elm) (Some (Next listelm)) }"

definition LIST_INSERT_BEFORE :: "qmem \<Rightarrow> nat \<Rightarrow> nat \<Rightarrow> qmem option" where
  "LIST_INSERT_BEFORE m listelm elm =
     do { l \<leftarrow> get_lk m (Next listelm); m \<leftarrow> set_lk m (Next elm) l;
          m \<leftarrow> set_nx m (Next elm) (Some listelm);
          p \<leftarrow> deref_lk m (Next listelm); m \<leftarrow> set_nx m p (Some elm);
          set_lk m (Next listelm) (Some (Next elm)) }"

definition LIST_INSERT_HEAD :: "qmem \<Rightarrow> nat \<Rightarrow> nat \<Rightarrow> qmem option" where
  "LIST_INSERT_HEAD m h elm =
     do { v \<leftarrow> LIST_FIRST m h; m \<leftarrow> set_nx m (Next elm) v;
          m \<leftarrow> (case v of None \<Rightarrow> Some m | Some n \<Rightarrow> set_lk m (Next n) (Some (Next elm)));
          m \<leftarrow> set_nx m (Head h) (Some elm);
          set_lk m (Next elm) (Some (Head h)) }"

definition LIST_REMOVE :: "qmem \<Rightarrow> nat \<Rightarrow> qmem option" where
  "LIST_REMOVE m elm =
     do { v \<leftarrow> LIST_NEXT m elm;
          m \<leftarrow> (case v of None \<Rightarrow> Some m | Some n \<Rightarrow> do { l \<leftarrow> get_lk m (Next elm); set_lk m (Next n) l });
          p \<leftarrow> deref_lk m (Next elm);
          v \<leftarrow> LIST_NEXT m elm; set_nx m p v }"

definition LIST_SWAP :: "qmem \<Rightarrow> nat \<Rightarrow> nat \<Rightarrow> qmem option" where
  "LIST_SWAP m h1 h2 =
     do { swap_tmp \<leftarrow> LIST_FIRST m h1;
          f \<leftarrow> LIST_FIRST m h2; m \<leftarrow> set_nx m (Head h1) f;
          m \<leftarrow> set_nx m (Head h2) swap_tmp;
          t \<leftarrow> LIST_FIRST m h1; m \<leftarrow> (case t of None \<Rightarrow> Some m | Some e \<Rightarrow> set_lk m (Next e) (Some (Head h1)));
          t \<leftarrow> LIST_FIRST m h2; (case t of None \<Rightarrow> Some m | Some e \<Rightarrow> set_lk m (Next e) (Some (Head h2))) }"

section \<open>Tail queues\<close>

definition TAILQ_INIT :: "qmem \<Rightarrow> nat \<Rightarrow> qmem option" where
  "TAILQ_INIT m h = do { m \<leftarrow> set_nx m (Head h) None; set_lk m (Head h) (Some (Head h)) }"

definition TAILQ_EMPTY :: "qmem \<Rightarrow> nat \<Rightarrow> bool option" where
  "TAILQ_EMPTY m h = do { f \<leftarrow> get_nx m (Head h); Some (f = None) }"

definition TAILQ_FIRST :: "qmem \<Rightarrow> nat \<Rightarrow> nat option option" where
  "TAILQ_FIRST m h = get_nx m (Head h)"

definition TAILQ_NEXT :: "qmem \<Rightarrow> nat \<Rightarrow> nat option option" where
  "TAILQ_NEXT m elm = get_nx m (Next elm)"

definition TAILQ_LAST :: "qmem \<Rightarrow> nat \<Rightarrow> nat option option" where
  "TAILQ_LAST m h = do { l \<leftarrow> deref_lk m (Head h); p \<leftarrow> deref_lk m l; get_nx m p }"

definition TAILQ_PREV :: "qmem \<Rightarrow> nat \<Rightarrow> nat option option" where
  "TAILQ_PREV m elm = do { l \<leftarrow> deref_lk m (Next elm); p \<leftarrow> deref_lk m l; get_nx m p }"

definition TAILQ_CONCAT :: "qmem \<Rightarrow> nat \<Rightarrow> nat \<Rightarrow> qmem option" where
  "TAILQ_CONCAT m h1 h2 =
     do { f \<leftarrow> TAILQ_FIRST m h2;
          case f of
            None \<Rightarrow> Some m
          | Some e \<Rightarrow> do {
              l \<leftarrow> deref_lk m (Head h1); m \<leftarrow> set_nx m l (Some e);
              l \<leftarrow> get_lk m (Head h1); m \<leftarrow> set_lk m (Next e) l;
              l \<leftarrow> get_lk m (Head h2); m \<leftarrow> set_lk m (Head h1) l;
              TAILQ_INIT m h2 } }"

definition TAILQ_INSERT_AFTER :: "qmem \<Rightarrow> nat \<Rightarrow> nat \<Rightarrow> nat \<Rightarrow> qmem option" where
  "TAILQ_INSERT_AFTER m h listelm elm =
     do { v \<leftarrow> TAILQ_NEXT m listelm; m \<leftarrow> set_nx m (Next elm) v;
          m \<leftarrow> (case v of None \<Rightarrow> set_lk m (Head h) (Some (Next elm)) | Some n \<Rightarrow> set_lk m (Next n) (Some (Next elm)));
          m \<leftarrow> set_nx m (Next listelm) (Some elm);
          set_lk m (Next elm) (Some (Next listelm)) }"

definition TAILQ_INSERT_BEFORE :: "qmem \<Rightarrow> nat \<Rightarrow> nat \<Rightarrow> qmem option" where
  "TAILQ_INSERT_BEFORE m listelm elm =
     do { l \<leftarrow> get_lk m (Next listelm); m \<leftarrow> set_lk m (Next elm) l;
          m \<leftarrow> set_nx m (Next elm) (Some listelm);
          p \<leftarrow> deref_lk m (Next listelm); m \<leftarrow> set_nx m p (Some elm);
          set_lk m (Next listelm) (Some (Next elm)) }"

definition TAILQ_INSERT_HEAD :: "qmem \<Rightarrow> nat \<Rightarrow> nat \<Rightarrow> qmem option" where
  "TAILQ_INSERT_HEAD m h elm =
     do { v \<leftarrow> TAILQ_FIRST m h; m \<leftarrow> set_nx m (Next elm) v;
          m \<leftarrow> (case v of None \<Rightarrow> set_lk m (Head h) (Some (Next elm)) | Some n \<Rightarrow> set_lk m (Next n) (Some (Next elm)));
          m \<leftarrow> set_nx m (Head h) (Some elm);
          set_lk m (Next elm) (Some (Head h)) }"

definition TAILQ_INSERT_TAIL :: "qmem \<Rightarrow> nat \<Rightarrow> nat \<Rightarrow> qmem option" where
  "TAILQ_INSERT_TAIL m h elm =
     do { m \<leftarrow> set_nx m (Next elm) None;
          l \<leftarrow> get_lk m (Head h); m \<leftarrow> set_lk m (Next elm) l;
          p \<leftarrow> deref_lk m (Head h); m \<leftarrow> set_nx m p (Some elm);
          set_lk m (Head h) (Some (Next elm)) }"

definition TAILQ_REMOVE :: "qmem \<Rightarrow> nat \<Rightarrow> nat \<Rightarrow> qmem option" where
  "TAILQ_REMOVE m h elm =
     do { v \<leftarrow> TAILQ_NEXT m elm; l \<leftarrow> get_lk m (Next elm);
          m \<leftarrow> (case v of None \<Rightarrow> set_lk m (Head h) l | Some n \<Rightarrow> set_lk m (Next n) l);
          p \<leftarrow> deref_lk m (Next elm);
          v \<leftarrow> TAILQ_NEXT m elm; set_nx m p v }"

definition TAILQ_SWAP :: "qmem \<Rightarrow> nat \<Rightarrow> nat \<Rightarrow> qmem option" where
  "TAILQ_SWAP m h1 h2 =
     do { swap_first \<leftarrow> TAILQ_FIRST m h1; swap_last \<leftarrow> get_lk m (Head h1);
          f \<leftarrow> TAILQ_FIRST m h2; m \<leftarrow> set_nx m (Head h1) f;
          l \<leftarrow> get_lk m (Head h2); m \<leftarrow> set_lk m (Head h1) l;
          m \<leftarrow> set_nx m (Head h2) swap_first; m \<leftarrow> set_lk m (Head h2) swap_last;
          f \<leftarrow> TAILQ_FIRST m h1;
          m \<leftarrow> (case f of None \<Rightarrow> set_lk m (Head h1) (Some (Head h1)) | Some e \<Rightarrow> set_lk m (Next e) (Some (Head h1)));
          f \<leftarrow> TAILQ_FIRST m h2;
          (case f of None \<Rightarrow> set_lk m (Head h2) (Some (Head h2)) | Some e \<Rightarrow> set_lk m (Next e) (Some (Head h2))) }"

text \<open>The traversals, as the sequence of elements their bodies see.\<close>

partial_function (option) TAILQ_FOREACH :: "qmem \<Rightarrow> nat option \<Rightarrow> nat list option" where
  "TAILQ_FOREACH m var = (case var of
     None \<Rightarrow> Some []
   | Some e \<Rightarrow> do { n \<leftarrow> TAILQ_NEXT m e; es \<leftarrow> TAILQ_FOREACH m n; Some (e # es) })"

partial_function (option) TAILQ_FOREACH_REVERSE :: "qmem \<Rightarrow> nat option \<Rightarrow> nat list option" where
  "TAILQ_FOREACH_REVERSE m var = (case var of
     None \<Rightarrow> Some []
   | Some e \<Rightarrow> do { n \<leftarrow> TAILQ_PREV m e; es \<leftarrow> TAILQ_FOREACH_REVERSE m n; Some (e # es) })"

section \<open>Lists in memory\<close>

text \<open>The place after a list of elements that starts at a place, and the two kinds of links.\<close>

fun end_place :: "place \<Rightarrow> nat list \<Rightarrow> place" where
  "end_place p [] = p"
| "end_place p (x # xs) = end_place (Next x) xs"

fun fwd :: "(place \<Rightarrow> nat option) \<Rightarrow> place \<Rightarrow> nat list \<Rightarrow> bool" where
  "fwd n p [] \<longleftrightarrow> True"
| "fwd n p (x # xs) \<longleftrightarrow> n p = Some x \<and> fwd n (Next x) xs"

fun bwd :: "(place \<Rightarrow> place option) \<Rightarrow> place \<Rightarrow> nat list \<Rightarrow> bool" where
  "bwd l p [] \<longleftrightarrow> True"
| "bwd l p (x # xs) \<longleftrightarrow> l (Next x) = Some p \<and> bwd l (Next x) xs"

lemma end_place_append [simp]: "end_place p (xs @ ys) = end_place (end_place p xs) ys"
  by (induction xs arbitrary: p) auto

lemma fwd_append [simp]: "fwd n p (xs @ ys) \<longleftrightarrow> fwd n p xs \<and> fwd n (end_place p xs) ys"
  by (induction xs arbitrary: p) auto

lemma bwd_append [simp]: "bwd l p (xs @ ys) \<longleftrightarrow> bwd l p xs \<and> bwd l (end_place p xs) ys"
  by (induction xs arbitrary: p) auto

lemma end_place_in: "end_place p xs = p \<or> end_place p xs \<in> Next ` set xs"
  by (induction xs arbitrary: p) auto

lemma end_place_Next: "xs \<noteq> [] \<Longrightarrow> end_place p xs = Next (last xs)"
  by (induction xs arbitrary: p) auto

lemma fwd_upd [simp]: "q \<noteq> p \<Longrightarrow> q \<notin> Next ` set xs \<Longrightarrow> fwd (n(q := v)) p xs \<longleftrightarrow> fwd n p xs"
  by (induction xs arbitrary: p) auto

lemma bwd_upd [simp]: "q \<notin> Next ` set xs \<Longrightarrow> bwd (l(q := v)) p xs \<longleftrightarrow> bwd l p xs"
  by (induction xs arbitrary: p) auto

lemma fwd_upd_end [simp]:
  "distinct xs \<Longrightarrow> p \<notin> Next ` set xs \<Longrightarrow> fwd (n(end_place p xs := v)) p xs \<longleftrightarrow> fwd n p xs"
proof (induction xs arbitrary: p)
  case (Cons x xs)
  have "end_place (Next x) xs \<noteq> p" using end_place_in [of "Next x" xs] Cons.prems by auto
  with Cons show ?case by auto
qed simp

text \<open>The four kinds of lists.\<close>

definition slist :: "qmem \<Rightarrow> nat \<Rightarrow> nat list \<Rightarrow> bool" where
  "slist m h xs \<longleftrightarrow> distinct xs \<and> Head h \<in> valid m \<and> Next ` set xs \<subseteq> valid m \<and>
     fwd (nx m) (Head h) xs \<and> nx m (end_place (Head h) xs) = None"

definition stailq :: "qmem \<Rightarrow> nat \<Rightarrow> nat list \<Rightarrow> bool" where
  "stailq m h xs \<longleftrightarrow> slist m h xs \<and> lk m (Head h) = Some (end_place (Head h) xs)"

definition llist :: "qmem \<Rightarrow> nat \<Rightarrow> nat list \<Rightarrow> bool" where
  "llist m h xs \<longleftrightarrow> slist m h xs \<and> bwd (lk m) (Head h) xs"

definition tailq :: "qmem \<Rightarrow> nat \<Rightarrow> nat list \<Rightarrow> bool" where
  "tailq m h xs \<longleftrightarrow> llist m h xs \<and> lk m (Head h) = Some (end_place (Head h) xs)"

lemmas list_defs = slist_def stailq_def llist_def tailq_def

lemma end_place_valid: "slist m h xs \<Longrightarrow> end_place (Head h) xs \<in> valid m"
  using end_place_in [of "Head h" xs] by (auto simp: slist_def)

text \<open>Operations on another list leave a list as it is.\<close>

lemma slist_frame:
  assumes "slist m h xs" and "\<forall>p \<in> insert (Head h) (Next ` set xs). nx m' p = nx m p" and "valid m' = valid m"
  shows "slist m' h xs"
proof -
  have "fwd n p ys \<longleftrightarrow> fwd n' p ys" if "\<forall>q \<in> insert p (Next ` set ys). n' q = n q" for n n' p ys
    using that by (induction ys arbitrary: p) auto
  from this [of "Head h" xs "nx m'" "nx m"] assms end_place_in [of "Head h" xs] show ?thesis
    by (auto simp: slist_def)
qed

section \<open>Tail queue operations\<close>

lemma tailq_init: "Head h \<in> valid m \<Longrightarrow> \<exists>m'. TAILQ_INIT m h = Some m' \<and> tailq m' h [] \<and> valid m' = valid m"
  by (simp add: TAILQ_INIT_def mem_defs list_defs)

lemma tailq_insert_tail:
  assumes "tailq m h xs" and "e \<notin> set xs" and "Next e \<in> valid m"
  shows "\<exists>m'. TAILQ_INSERT_TAIL m h e = Some m' \<and> tailq m' h (xs @ [e]) \<and> valid m' = valid m"
proof -
  let ?t = "end_place (Head h) xs"
  have t: "?t \<noteq> Next e" "?t \<in> valid m" using end_place_in [of "Head h" xs] assms end_place_valid by (auto simp: list_defs)
  then show ?thesis using assms by (auto simp: TAILQ_INSERT_TAIL_def mem_defs list_defs image_iff)
qed

text \<open>Where the place at the end of a list cannot be.\<close>

lemma end_place_neq [simp]: "q \<noteq> p \<Longrightarrow> q \<notin> Next ` set xs \<Longrightarrow> end_place p xs \<noteq> q"
  using end_place_in [of p xs] by auto

lemma end_place_neq2 [simp]: "q \<noteq> p \<Longrightarrow> q \<notin> Next ` set xs \<Longrightarrow> q \<noteq> end_place p xs"
  using end_place_in [of p xs] by auto

lemma end_place_out:
  "set as \<inter> set bs = {} \<Longrightarrow> end_place (Head h) as \<notin> Next ` set bs"
  using end_place_in [of "Head h" as] by auto

lemma end_place_sub: "Head h \<in> V \<Longrightarrow> Next ` set as \<subseteq> V \<Longrightarrow> end_place (Head h) as \<in> V"
  using end_place_in [of "Head h" as] by auto

lemmas end_place_facts = end_place_out end_place_sub

lemma tailq_insert_head:
  assumes "tailq m h xs" and "e \<notin> set xs" and "Next e \<in> valid m"
  shows "\<exists>m'. TAILQ_INSERT_HEAD m h e = Some m' \<and> tailq m' h (e # xs) \<and> valid m' = valid m"
  using assms by (cases xs) (auto simp: TAILQ_INSERT_HEAD_def TAILQ_FIRST_def mem_defs list_defs image_iff)

lemma tailq_insert_after:
  assumes "tailq m h (as @ y # bs)" and "e \<notin> set (as @ y # bs)" and "Next e \<in> valid m"
  shows "\<exists>m'. TAILQ_INSERT_AFTER m h y e = Some m' \<and> tailq m' h (as @ y # e # bs) \<and> valid m' = valid m"
  using assms
  by (cases bs) (auto simp: TAILQ_INSERT_AFTER_def TAILQ_NEXT_def mem_defs list_defs image_iff)

lemma tailq_insert_before:
  assumes "tailq m h (as @ y # bs)" and "e \<notin> set (as @ y # bs)" and "Next e \<in> valid m"
  shows "\<exists>m'. TAILQ_INSERT_BEFORE m y e = Some m' \<and> tailq m' h (as @ e # y # bs) \<and> valid m' = valid m"
  using assms end_place_out [of as "y # bs" h] end_place_sub [of h "valid m" as]
  by (auto simp: TAILQ_INSERT_BEFORE_def mem_defs list_defs image_iff)

lemma tailq_remove:
  assumes "tailq m h (as @ e # bs)"
  shows "\<exists>m'. TAILQ_REMOVE m h e = Some m' \<and> tailq m' h (as @ bs) \<and> valid m' = valid m"
  using assms end_place_out [of as "e # bs" h] end_place_sub [of h "valid m" as]
  by (cases bs) (auto simp: TAILQ_REMOVE_def TAILQ_NEXT_def mem_defs list_defs image_iff)

lemma tailq_first: "tailq m h xs \<Longrightarrow> TAILQ_FIRST m h = Some (case xs of [] \<Rightarrow> None | x # _ \<Rightarrow> Some x)"
  by (cases xs) (auto simp: TAILQ_FIRST_def mem_defs list_defs)

lemma tailq_empty: "tailq m h xs \<Longrightarrow> TAILQ_EMPTY m h = Some (xs = [])"
  by (cases xs) (auto simp: TAILQ_EMPTY_def mem_defs list_defs)

lemma tailq_last: "tailq m h xs \<Longrightarrow> TAILQ_LAST m h = Some (if xs = [] then None else Some (last xs))"
  using end_place_in [of "Head h" "butlast xs"]
  by (cases xs rule: rev_cases) (auto simp: TAILQ_LAST_def mem_defs list_defs)

lemma tailq_next:
  "tailq m h (as @ e # bs) \<Longrightarrow> TAILQ_NEXT m e = Some (case bs of [] \<Rightarrow> None | b # _ \<Rightarrow> Some b)"
  by (cases bs) (auto simp: TAILQ_NEXT_def mem_defs list_defs)

lemma tailq_prev:
  "tailq m h (as @ e # bs) \<Longrightarrow> TAILQ_PREV m e = Some (if as = [] then None else Some (last as))"
  using end_place_in [of "Head h" "butlast as"] end_place_in [of "Head h" "as @ e # bs"]
  by (cases as rule: rev_cases) (auto simp: TAILQ_PREV_def mem_defs list_defs)

text \<open>Two queues with elements of their own.\<close>

lemma tailq_concat:
  assumes "tailq m h1 xs" and "tailq m h2 ys" and "h1 \<noteq> h2" and "set xs \<inter> set ys = {}"
  shows "\<exists>m'. TAILQ_CONCAT m h1 h2 = Some m' \<and> tailq m' h1 (xs @ ys) \<and> tailq m' h2 [] \<and> valid m' = valid m"
proof (cases ys)
  case Nil
  then show ?thesis using assms by (auto simp: TAILQ_CONCAT_def TAILQ_FIRST_def mem_defs list_defs)
next
  case (Cons y ys')
  then show ?thesis using assms end_place_out [of xs ys h1] end_place_sub [of h1 "valid m" xs]
    by (auto simp: TAILQ_CONCAT_def TAILQ_FIRST_def TAILQ_INIT_def mem_defs list_defs image_iff)
qed

lemma tailq_swap:
  assumes "tailq m h1 xs" and "tailq m h2 ys" and "h1 \<noteq> h2" and "set xs \<inter> set ys = {}"
  shows "\<exists>m'. TAILQ_SWAP m h1 h2 = Some m' \<and> tailq m' h1 ys \<and> tailq m' h2 xs \<and> valid m' = valid m"
  using assms
  by (cases xs; cases ys) (auto simp: TAILQ_SWAP_def TAILQ_FIRST_def mem_defs list_defs image_iff)

section \<open>Lists\<close>

lemma llist_init: "Head h \<in> valid m \<Longrightarrow> \<exists>m'. LIST_INIT m h = Some m' \<and> llist m' h [] \<and> valid m' = valid m"
  by (simp add: LIST_INIT_def mem_defs list_defs)

lemma llist_insert_head:
  assumes "llist m h xs" and "e \<notin> set xs" and "Next e \<in> valid m"
  shows "\<exists>m'. LIST_INSERT_HEAD m h e = Some m' \<and> llist m' h (e # xs) \<and> valid m' = valid m"
  using assms by (cases xs) (auto simp: LIST_INSERT_HEAD_def LIST_FIRST_def mem_defs list_defs image_iff)

lemma llist_insert_after:
  assumes "llist m h (as @ y # bs)" and "e \<notin> set (as @ y # bs)" and "Next e \<in> valid m"
  shows "\<exists>m'. LIST_INSERT_AFTER m y e = Some m' \<and> llist m' h (as @ y # e # bs) \<and> valid m' = valid m"
  using assms by (cases bs) (auto simp: LIST_INSERT_AFTER_def LIST_NEXT_def mem_defs list_defs image_iff)

lemma llist_insert_before:
  assumes "llist m h (as @ y # bs)" and "e \<notin> set (as @ y # bs)" and "Next e \<in> valid m"
  shows "\<exists>m'. LIST_INSERT_BEFORE m y e = Some m' \<and> llist m' h (as @ e # y # bs) \<and> valid m' = valid m"
  using assms end_place_out [of as "y # bs" h] end_place_sub [of h "valid m" as]
  by (auto simp: LIST_INSERT_BEFORE_def mem_defs list_defs image_iff)

lemma llist_remove:
  assumes "llist m h (as @ e # bs)"
  shows "\<exists>m'. LIST_REMOVE m e = Some m' \<and> llist m' h (as @ bs) \<and> valid m' = valid m"
  using assms end_place_out [of as "e # bs" h] end_place_sub [of h "valid m" as]
  by (cases bs) (auto simp: LIST_REMOVE_def LIST_NEXT_def mem_defs list_defs image_iff)

lemma llist_swap:
  assumes "llist m h1 xs" and "llist m h2 ys" and "h1 \<noteq> h2" and "set xs \<inter> set ys = {}"
  shows "\<exists>m'. LIST_SWAP m h1 h2 = Some m' \<and> llist m' h1 ys \<and> llist m' h2 xs \<and> valid m' = valid m"
  using assms
  by (cases xs; cases ys) (auto simp: LIST_SWAP_def LIST_FIRST_def mem_defs list_defs image_iff)

section \<open>Singly-linked tail queues and lists\<close>

lemma slist_insert_head:
  assumes "slist m h xs" and "e \<notin> set xs" and "Next e \<in> valid m"
  shows "\<exists>m'. SLIST_INSERT_HEAD m h e = Some m' \<and> slist m' h (e # xs) \<and> valid m' = valid m"
  using assms by (cases xs) (auto simp: SLIST_INSERT_HEAD_def mem_defs list_defs image_iff)

lemma slist_insert_after:
  assumes "slist m h (as @ y # bs)" and "e \<notin> set (as @ y # bs)" and "Next e \<in> valid m"
  shows "\<exists>m'. SLIST_INSERT_AFTER m y e = Some m' \<and> slist m' h (as @ y # e # bs) \<and> valid m' = valid m"
  using assms by (cases bs) (auto simp: SLIST_INSERT_AFTER_def mem_defs list_defs image_iff)

lemma find_before_at:
  assumes "fwd (nx m) p (cs @ y # e # bs)" and "Next ` set (cs @ [y]) \<subseteq> valid m" and "e \<notin> set (cs @ [y])"
  shows "find_before m e (Some (hd (cs @ [y]))) = Some y"
  using assms
proof (induction cs arbitrary: p)
  case (Cons c cs)
  then have "find_before m e (Some (hd (cs @ [y]))) = Some y" by (intro Cons.IH [of "Next c"]) auto
  with Cons.prems show ?case by (subst find_before.simps) (cases cs; auto simp: mem_defs)
qed (auto simp: find_before.simps mem_defs)

lemma slist_remove:
  assumes "slist m h (as @ e # bs)"
  shows "\<exists>m'. SLIST_REMOVE m h e = Some m' \<and> slist m' h (as @ bs) \<and> valid m' = valid m"
proof (cases as rule: rev_cases)
  case Nil
  then show ?thesis using assms
    by (cases bs) (auto simp: SLIST_REMOVE_def SLIST_REMOVE_HEAD_def SLIST_FIRST_def SLIST_NEXT_def mem_defs list_defs image_iff)
next
  case (snoc cs y)
  have "find_before m e (Some (hd (cs @ [y]))) = Some y"
    by (rule find_before_at [where p = "Head h" and bs = bs]) (use assms snoc in \<open>auto simp: list_defs\<close>)
  moreover have "nx m (Head h) = Some (hd (cs @ [y]))" "hd (cs @ [y]) \<noteq> e"
    using assms snoc by (cases cs; auto simp: list_defs)+
  ultimately show ?thesis using assms snoc
    by (cases bs) (auto simp: SLIST_REMOVE_def SLIST_REMOVE_AFTER_def SLIST_FIRST_def SLIST_NEXT_def mem_defs list_defs image_iff)
qed

lemma stailq_init: "Head h \<in> valid m \<Longrightarrow> \<exists>m'. STAILQ_INIT m h = Some m' \<and> stailq m' h [] \<and> valid m' = valid m"
  by (simp add: STAILQ_INIT_def mem_defs list_defs)

lemma stailq_insert_head:
  assumes "stailq m h xs" and "e \<notin> set xs" and "Next e \<in> valid m"
  shows "\<exists>m'. STAILQ_INSERT_HEAD m h e = Some m' \<and> stailq m' h (e # xs) \<and> valid m' = valid m"
  using assms by (cases xs) (auto simp: STAILQ_INSERT_HEAD_def STAILQ_FIRST_def mem_defs list_defs image_iff)

lemma stailq_insert_tail:
  assumes "stailq m h xs" and "e \<notin> set xs" and "Next e \<in> valid m"
  shows "\<exists>m'. STAILQ_INSERT_TAIL m h e = Some m' \<and> stailq m' h (xs @ [e]) \<and> valid m' = valid m"
  using assms end_place_sub [of h "valid m" xs]
  by (auto simp: STAILQ_INSERT_TAIL_def mem_defs list_defs image_iff)

lemma stailq_insert_after:
  assumes "stailq m h (as @ y # bs)" and "e \<notin> set (as @ y # bs)" and "Next e \<in> valid m"
  shows "\<exists>m'. STAILQ_INSERT_AFTER m h y e = Some m' \<and> stailq m' h (as @ y # e # bs) \<and> valid m' = valid m"
  using assms by (cases bs) (auto simp: STAILQ_INSERT_AFTER_def STAILQ_NEXT_def mem_defs list_defs image_iff)

lemma stailq_remove:
  assumes "stailq m h (as @ e # bs)"
  shows "\<exists>m'. STAILQ_REMOVE m h e = Some m' \<and> stailq m' h (as @ bs) \<and> valid m' = valid m"
proof (cases as rule: rev_cases)
  case Nil
  then show ?thesis using assms
    by (cases bs) (auto simp: STAILQ_REMOVE_def STAILQ_REMOVE_HEAD_def STAILQ_FIRST_def STAILQ_NEXT_def mem_defs list_defs image_iff)
next
  case (snoc cs y)
  have "find_before m e (Some (hd (cs @ [y]))) = Some y"
    by (rule find_before_at [where p = "Head h" and bs = bs]) (use assms snoc in \<open>auto simp: list_defs\<close>)
  moreover have "nx m (Head h) = Some (hd (cs @ [y]))" "hd (cs @ [y]) \<noteq> e"
    using assms snoc by (cases cs; auto simp: list_defs)+
  ultimately show ?thesis using assms snoc
    by (cases bs) (auto simp: STAILQ_REMOVE_def STAILQ_REMOVE_AFTER_def STAILQ_FIRST_def STAILQ_NEXT_def mem_defs list_defs image_iff)
qed

lemma stailq_last: "stailq m h xs \<Longrightarrow> STAILQ_LAST m h = Some (if xs = [] then None else Some (last xs))"
  using end_place_Next [of xs "Head h"]
  by (cases xs) (auto simp: STAILQ_LAST_def STAILQ_EMPTY_def mem_defs list_defs)

lemma stailq_concat:
  assumes "stailq m h1 xs" and "stailq m h2 ys" and "h1 \<noteq> h2" and "set xs \<inter> set ys = {}"
  shows "\<exists>m'. STAILQ_CONCAT m h1 h2 = Some m' \<and> stailq m' h1 (xs @ ys) \<and> stailq m' h2 [] \<and> valid m' = valid m"
  using assms end_place_out [of xs ys h1] end_place_sub [of h1 "valid m" xs]
  by (cases ys) (auto simp: STAILQ_CONCAT_def STAILQ_EMPTY_def STAILQ_INIT_def mem_defs list_defs image_iff)

lemma stailq_swap:
  assumes "stailq m h1 xs" and "stailq m h2 ys" and "h1 \<noteq> h2" and "set xs \<inter> set ys = {}"
  shows "\<exists>m'. STAILQ_SWAP m h1 h2 = Some m' \<and> stailq m' h1 ys \<and> stailq m' h2 xs \<and> valid m' = valid m"
  using assms
  by (cases xs; cases ys) (auto simp: STAILQ_SWAP_def STAILQ_FIRST_def STAILQ_EMPTY_def mem_defs list_defs image_iff)

section \<open>Sequences of operations\<close>

datatype qop = Ins_head nat | Ins_tail nat | Ins_after nat nat | Ins_before nat nat | Rem nat

text \<open>The same on a list of elements.\<close>

fun insert_at :: "nat \<Rightarrow> nat list \<Rightarrow> nat list \<Rightarrow> nat list" where
  "insert_at y es [] = []"
| "insert_at y es (x # xs) = (if x = y then es @ xs else x # insert_at y es xs)"

fun list_op :: "nat list \<Rightarrow> qop \<Rightarrow> nat list" where
  "list_op xs (Ins_head e) = e # xs"
| "list_op xs (Ins_tail e) = xs @ [e]"
| "list_op xs (Ins_after y e) = insert_at y [y, e] xs"
| "list_op xs (Ins_before y e) = insert_at y [e, y] xs"
| "list_op xs (Rem e) = insert_at e [] xs"

text \<open>What an operation requires: a new element is not in the list, an old one is.\<close>

fun op_ok :: "place set \<Rightarrow> nat list \<Rightarrow> qop \<Rightarrow> bool" where
  "op_ok V xs (Ins_head e) \<longleftrightarrow> e \<notin> set xs \<and> Next e \<in> V"
| "op_ok V xs (Ins_tail e) \<longleftrightarrow> e \<notin> set xs \<and> Next e \<in> V"
| "op_ok V xs (Ins_after y e) \<longleftrightarrow> y \<in> set xs \<and> e \<notin> set xs \<and> Next e \<in> V"
| "op_ok V xs (Ins_before y e) \<longleftrightarrow> y \<in> set xs \<and> e \<notin> set xs \<and> Next e \<in> V"
| "op_ok V xs (Rem e) \<longleftrightarrow> e \<in> set xs"

fun ops_ok :: "place set \<Rightarrow> nat list \<Rightarrow> qop list \<Rightarrow> bool" where
  "ops_ok V xs [] \<longleftrightarrow> True"
| "ops_ok V xs (op # ops) \<longleftrightarrow> op_ok V xs op \<and> ops_ok V (list_op xs op) ops"

fun run_ops :: "(qmem \<Rightarrow> nat \<Rightarrow> qop \<Rightarrow> qmem option) \<Rightarrow> qmem \<Rightarrow> nat \<Rightarrow> qop list \<Rightarrow> qmem option" where
  "run_ops ex m h [] = Some m"
| "run_ops ex m h (op # ops) = do { m \<leftarrow> ex m h op; run_ops ex m h ops }"

fun slist_exec :: "qmem \<Rightarrow> nat \<Rightarrow> qop \<Rightarrow> qmem option" where
  "slist_exec m h (Ins_head e) = SLIST_INSERT_HEAD m h e"
| "slist_exec m h (Ins_after y e) = SLIST_INSERT_AFTER m y e"
| "slist_exec m h (Rem e) = SLIST_REMOVE m h e"
| "slist_exec m h op = None"

fun stailq_exec :: "qmem \<Rightarrow> nat \<Rightarrow> qop \<Rightarrow> qmem option" where
  "stailq_exec m h (Ins_head e) = STAILQ_INSERT_HEAD m h e"
| "stailq_exec m h (Ins_tail e) = STAILQ_INSERT_TAIL m h e"
| "stailq_exec m h (Ins_after y e) = STAILQ_INSERT_AFTER m h y e"
| "stailq_exec m h (Rem e) = STAILQ_REMOVE m h e"
| "stailq_exec m h op = None"

fun llist_exec :: "qmem \<Rightarrow> nat \<Rightarrow> qop \<Rightarrow> qmem option" where
  "llist_exec m h (Ins_head e) = LIST_INSERT_HEAD m h e"
| "llist_exec m h (Ins_after y e) = LIST_INSERT_AFTER m y e"
| "llist_exec m h (Ins_before y e) = LIST_INSERT_BEFORE m y e"
| "llist_exec m h (Rem e) = LIST_REMOVE m e"
| "llist_exec m h op = None"

fun tailq_exec :: "qmem \<Rightarrow> nat \<Rightarrow> qop \<Rightarrow> qmem option" where
  "tailq_exec m h (Ins_head e) = TAILQ_INSERT_HEAD m h e"
| "tailq_exec m h (Ins_tail e) = TAILQ_INSERT_TAIL m h e"
| "tailq_exec m h (Ins_after y e) = TAILQ_INSERT_AFTER m h y e"
| "tailq_exec m h (Ins_before y e) = TAILQ_INSERT_BEFORE m y e"
| "tailq_exec m h (Rem e) = TAILQ_REMOVE m h e"

lemma insert_at_split:
  "distinct xs \<Longrightarrow> y \<in> set xs \<Longrightarrow> \<exists>as bs. xs = as @ y # bs \<and> insert_at y es xs = as @ es @ bs"
proof (induction xs)
  case (Cons x xs)
  then show ?case by (cases "x = y") (auto, metis append_Cons)
qed simp

lemma op_ok_cases [consumes 2, case_names head tail after before rem]:
  assumes "op_ok V xs op" and "distinct xs"
  obtains e where "op = Ins_head e" "e \<notin> set xs" "Next e \<in> V" "list_op xs op = e # xs"
  | e where "op = Ins_tail e" "e \<notin> set xs" "Next e \<in> V" "list_op xs op = xs @ [e]"
  | as y bs e where "op = Ins_after y e" "xs = as @ y # bs" "e \<notin> set (as @ y # bs)" "Next e \<in> V" "list_op xs op = as @ y # e # bs"
  | as y bs e where "op = Ins_before y e" "xs = as @ y # bs" "e \<notin> set (as @ y # bs)" "Next e \<in> V" "list_op xs op = as @ e # y # bs"
  | as bs e where "op = Rem e" "xs = as @ e # bs" "list_op xs op = as @ bs"
proof (cases op)
  case (Ins_after y e)
  with assms insert_at_split [of xs y "[y, e]"] that(3) show thesis by fastforce
next
  case (Ins_before y e)
  with assms insert_at_split [of xs y "[e, y]"] that(4) show thesis by fastforce
next
  case (Rem e)
  with assms insert_at_split [of xs e "[]"] that(5) show thesis by fastforce
qed (use assms that in auto)

text \<open>
  What an implementation of a list promises: a representation of lists in memory that contains
  the forward links, and operations of which every supported one is defined and does on the
  list what \<open>list_op\<close> says.
\<close>

locale intrusive_list =
  fixes rep :: "qmem \<Rightarrow> nat \<Rightarrow> nat list \<Rightarrow> bool"
    and ini :: "qmem \<Rightarrow> nat \<Rightarrow> qmem option"
    and ex :: "qmem \<Rightarrow> nat \<Rightarrow> qop \<Rightarrow> qmem option"
    and supports :: "qop \<Rightarrow> bool"
  assumes rep_slist: "rep m h xs \<Longrightarrow> slist m h xs"
    and ini_rep: "Head h \<in> valid m \<Longrightarrow> \<exists>m'. ini m h = Some m' \<and> rep m' h [] \<and> valid m' = valid m"
    and ex_rep: "rep m h xs \<Longrightarrow> supports op \<Longrightarrow> op_ok (valid m) xs op \<Longrightarrow>
      \<exists>m'. ex m h op = Some m' \<and> rep m' h (list_op xs op) \<and> valid m' = valid m"
begin

lemma run_rep:
  assumes "rep m h xs" and "list_all supports ops" and "ops_ok (valid m) xs ops"
  shows "\<exists>m'. run_ops ex m h ops = Some m' \<and> rep m' h (fold (\<lambda>op xs. list_op xs op) ops xs) \<and> valid m' = valid m"
  using assms
proof (induction ops arbitrary: m xs)
  case (Cons op ops)
  obtain m1 where "ex m h op = Some m1" "rep m1 h (list_op xs op)" "valid m1 = valid m"
    using ex_rep [OF Cons.prems(1)] Cons.prems(2,3) by auto
  with Cons.IH [of m1 "list_op xs op"] Cons.prems(2,3) show ?case by auto
qed auto

lemma run_from_init:
  assumes "Head h \<in> valid m" and "list_all supports ops" and "ops_ok (valid m) [] ops"
  shows "\<exists>m0 m'. ini m h = Some m0 \<and> run_ops ex m0 h ops = Some m' \<and> rep m' h (fold (\<lambda>op xs. list_op xs op) ops [])"
  using ini_rep [OF assms(1)] run_rep assms(2,3) by metis

end

interpretation slist_impl: intrusive_list slist SLIST_INIT slist_exec "\<lambda>op. case op of Ins_tail _ \<Rightarrow> False | Ins_before _ _ \<Rightarrow> False | _ \<Rightarrow> True"
proof unfold_locales
  fix m h xs op
  assume rep: "slist m h xs" and sup: "case op of Ins_tail _ \<Rightarrow> False | Ins_before _ _ \<Rightarrow> False | _ \<Rightarrow> True" and ok: "op_ok (valid m) xs op"
  have "distinct xs" using rep by (simp add: list_defs)
  with ok show "\<exists>m'. slist_exec m h op = Some m' \<and> slist m' h (list_op xs op) \<and> valid m' = valid m"
    by (cases rule: op_ok_cases) (use rep sup slist_insert_head slist_insert_after slist_remove in simp_all)
qed (simp_all add: SLIST_INIT_def mem_defs list_defs)

interpretation stailq_impl: intrusive_list stailq STAILQ_INIT stailq_exec "\<lambda>op. case op of Ins_before _ _ \<Rightarrow> False | _ \<Rightarrow> True"
proof unfold_locales
  fix m h xs op
  assume rep: "stailq m h xs" and sup: "case op of Ins_before _ _ \<Rightarrow> False | _ \<Rightarrow> True" and ok: "op_ok (valid m) xs op"
  have "distinct xs" using rep by (simp add: list_defs)
  with ok show "\<exists>m'. stailq_exec m h op = Some m' \<and> stailq m' h (list_op xs op) \<and> valid m' = valid m"
    by (cases rule: op_ok_cases) (use rep sup stailq_insert_head stailq_insert_tail stailq_insert_after stailq_remove in simp_all)
qed (simp_all add: STAILQ_INIT_def mem_defs list_defs)

interpretation llist_impl: intrusive_list llist LIST_INIT llist_exec "\<lambda>op. case op of Ins_tail _ \<Rightarrow> False | _ \<Rightarrow> True"
proof unfold_locales
  fix m h xs op
  assume rep: "llist m h xs" and sup: "case op of Ins_tail _ \<Rightarrow> False | _ \<Rightarrow> True" and ok: "op_ok (valid m) xs op"
  have "distinct xs" using rep by (simp add: list_defs)
  with ok show "\<exists>m'. llist_exec m h op = Some m' \<and> llist m' h (list_op xs op) \<and> valid m' = valid m"
    by (cases rule: op_ok_cases) (use rep sup llist_insert_head llist_insert_after llist_insert_before llist_remove in simp_all)
qed (simp_all add: LIST_INIT_def mem_defs list_defs)

interpretation tailq_impl: intrusive_list tailq TAILQ_INIT tailq_exec "\<lambda>_. True"
proof unfold_locales
  fix m h xs op
  assume rep: "tailq m h xs" and sup: "True" and ok: "op_ok (valid m) xs op"
  have "distinct xs" using rep by (simp add: list_defs)
  with ok show "\<exists>m'. tailq_exec m h op = Some m' \<and> tailq m' h (list_op xs op) \<and> valid m' = valid m"
    by (cases rule: op_ok_cases) (use rep sup tailq_insert_head tailq_insert_tail tailq_insert_after tailq_insert_before tailq_remove in simp_all)
qed (simp_all add: TAILQ_INIT_def mem_defs list_defs)

section \<open>Traversals\<close>

lemma tailq_foreach:
  assumes "tailq m h (as @ bs)"
  shows "TAILQ_FOREACH m (case bs of [] \<Rightarrow> None | b # _ \<Rightarrow> Some b) = Some bs"
  using assms
proof (induction bs arbitrary: as)
  case (Cons b bs)
  then have "TAILQ_FOREACH m (case bs of [] \<Rightarrow> None | b # _ \<Rightarrow> Some b) = Some bs" by (intro Cons.IH [of "as @ [b]"]) simp
  then show ?case using tailq_next [OF Cons.prems] by (subst TAILQ_FOREACH.simps) simp
qed (simp add: TAILQ_FOREACH.simps)

lemma tailq_foreach_reverse:
  assumes "tailq m h (as @ bs)"
  shows "TAILQ_FOREACH_REVERSE m (if as = [] then None else Some (last as)) = Some (rev as)"
  using assms
proof (induction as arbitrary: bs rule: rev_induct)
  case (snoc a as)
  then have "TAILQ_FOREACH_REVERSE m (if as = [] then None else Some (last as)) = Some (rev as)" by (intro snoc.IH [of "a # bs"]) simp
  then show ?case using tailq_prev [of m h as a bs] snoc.prems by (subst TAILQ_FOREACH_REVERSE.simps) simp
qed (simp add: TAILQ_FOREACH_REVERSE.simps)

section \<open>Properties\<close>

text \<open>
  C30. The tail queue macros implement a list: after \<open>TAILQ_INIT\<close> any sequence of insertions of
  elements that are not in the queue (at the head, at the tail, after or before an element) and
  removals of elements that are is defined, and afterwards \<open>TAILQ_FIRST\<close>, \<open>TAILQ_LAST\<close> and the
  traversals in both directions give the list that the same operations on a list give.
\<close>

theorem tailq_refines_list:
  assumes "Head h \<in> valid m" and "ops_ok (valid m) [] ops"
  shows "\<exists>m0 m' xs f l. TAILQ_INIT m h = Some m0 \<and> run_ops tailq_exec m0 h ops = Some m' \<and>
           xs = fold (\<lambda>op xs. list_op xs op) ops [] \<and> distinct xs \<and>
           TAILQ_FIRST m' h = Some f \<and> TAILQ_FOREACH m' f = Some xs \<and>
           TAILQ_LAST m' h = Some l \<and> TAILQ_FOREACH_REVERSE m' l = Some (rev xs)"
proof -
  have all: "list_all (\<lambda>_. True) ops" by (simp add: list_all_iff)
  let ?xs = "fold (\<lambda>op xs. list_op xs op) ops []"
  obtain m0 m' where m: "TAILQ_INIT m h = Some m0" "run_ops tailq_exec m0 h ops = Some m'" "tailq m' h ?xs"
    using tailq_impl.run_from_init [OF assms(1) all assms(2)] by blast
  moreover have "distinct ?xs" using m(3) by (simp add: list_defs)
  ultimately show ?thesis
    using tailq_first [OF m(3)] tailq_last [OF m(3)] tailq_foreach [of m' h "[]" ?xs] tailq_foreach_reverse [of m' h ?xs "[]"] by auto
qed

theorem tailq_refines_list_witness:
  "\<exists>m0 m' f l. TAILQ_INIT \<lparr>nx = \<lambda>_. None, lk = \<lambda>_. None, valid = UNIV\<rparr> 0 = Some m0 \<and>
     run_ops tailq_exec m0 0 [Ins_tail 1, Ins_head 2, Ins_before 1 3, Rem 1, Ins_tail 1] = Some m' \<and>
     TAILQ_FIRST m' 0 = Some f \<and> TAILQ_FOREACH m' f = Some [2, 3, 1] \<and>
     TAILQ_LAST m' 0 = Some l \<and> TAILQ_FOREACH_REVERSE m' l = Some [1, 3, 2]"
  using tailq_refines_list [of 0 "\<lparr>nx = \<lambda>_. None, lk = \<lambda>_. None, valid = UNIV\<rparr>"
      "[Ins_tail 1, Ins_head 2, Ins_before 1 3, Rem 1, Ins_tail 1]"]
  by auto

end
