(* ===== verification/Nty_Tree.thy ===== *)
theory Nty_Tree
  imports Rb_Shape "HOL-Library.Monad_Syntax"
begin

text \<open>
  The red-black trees of \<open>nty_tree.h\<close> (macros \<open>RB_*\<close>), with which the scheduler keeps the sleeping
  and the waiting coroutines. The trees are intrusive: an element carries the links and its colour
  in an entry, the tree is the pointer to its root, and a leaf is NULL. This theory holds the data
  and the operations.
\<close>

section \<open>Data\<close>

text \<open>A pointer to an element; \<open>None\<close> is NULL.\<close>

type_synonym elmp = "nat option"

record rb_entry =
  rbe_left :: elmp
  rbe_right :: elmp
  rbe_parent :: elmp
  rbe_color :: color

text \<open>The head of a tree, with the memory of the entries of all elements there are.\<close>

record rb_head =
  rbh_root :: elmp
  rb_mem :: "nat \<rightharpoonup> rb_entry"

text \<open>\<open>None\<close> as a result is a dereference of NULL or of something that is no element.\<close>

definition RB_LEFT :: "rb_head \<Rightarrow> elmp \<Rightarrow> elmp option" where
  "RB_LEFT H elm = do { p \<leftarrow> elm; e \<leftarrow> rb_mem H p; Some (rbe_left e) }"

definition RB_RIGHT :: "rb_head \<Rightarrow> elmp \<Rightarrow> elmp option" where
  "RB_RIGHT H elm = do { p \<leftarrow> elm; e \<leftarrow> rb_mem H p; Some (rbe_right e) }"

definition RB_PARENT :: "rb_head \<Rightarrow> elmp \<Rightarrow> elmp option" where
  "RB_PARENT H elm = do { p \<leftarrow> elm; e \<leftarrow> rb_mem H p; Some (rbe_parent e) }"

definition RB_COLOR :: "rb_head \<Rightarrow> elmp \<Rightarrow> color option" where
  "RB_COLOR H elm = do { p \<leftarrow> elm; e \<leftarrow> rb_mem H p; Some (rbe_color e) }"

definition rb_write :: "rb_head \<Rightarrow> elmp \<Rightarrow> (rb_entry \<Rightarrow> rb_entry) \<Rightarrow> rb_head option" where
  "rb_write H elm f = do { p \<leftarrow> elm; e \<leftarrow> rb_mem H p; Some (H\<lparr>rb_mem := (rb_mem H)(p \<mapsto> f e)\<rparr>) }"

abbreviation rb_set_left :: "rb_head \<Rightarrow> elmp \<Rightarrow> elmp \<Rightarrow> rb_head option" where
  "rb_set_left H elm q \<equiv> rb_write H elm (rbe_left_update (\<lambda>_. q))"

abbreviation rb_set_right :: "rb_head \<Rightarrow> elmp \<Rightarrow> elmp \<Rightarrow> rb_head option" where
  "rb_set_right H elm q \<equiv> rb_write H elm (rbe_right_update (\<lambda>_. q))"

abbreviation rb_set_parent :: "rb_head \<Rightarrow> elmp \<Rightarrow> elmp \<Rightarrow> rb_head option" where
  "rb_set_parent H elm q \<equiv> rb_write H elm (rbe_parent_update (\<lambda>_. q))"

abbreviation rb_set_color :: "rb_head \<Rightarrow> elmp \<Rightarrow> color \<Rightarrow> rb_head option" where
  "rb_set_color H elm c \<equiv> rb_write H elm (rbe_color_update (\<lambda>_. c))"

definition RB_INIT :: "rb_head \<Rightarrow> rb_head" where
  "RB_INIT H = H\<lparr>rbh_root := None\<rparr>"

definition RB_EMPTY :: "rb_head \<Rightarrow> bool" where
  "RB_EMPTY H \<longleftrightarrow> rbh_root H = None"

definition RB_SET :: "rb_head \<Rightarrow> elmp \<Rightarrow> elmp \<Rightarrow> rb_head option" where
  "RB_SET H elm parent =
     do { H \<leftarrow> rb_set_parent H elm parent;
          H \<leftarrow> rb_set_right H elm None;
          H \<leftarrow> rb_set_left H elm None;
          rb_set_color H elm RED }"

definition RB_SET_BLACKRED :: "rb_head \<Rightarrow> elmp \<Rightarrow> elmp \<Rightarrow> rb_head option" where
  "RB_SET_BLACKRED H black red = do { H \<leftarrow> rb_set_color H black BLACK; rb_set_color H red RED }"

text \<open>The conditions on colours that allow for NULL.\<close>

definition rb_is_red :: "rb_head \<Rightarrow> elmp \<Rightarrow> bool option" where
  "rb_is_red H elm = (if elm \<noteq> None then do { c \<leftarrow> RB_COLOR H elm; Some (c = RED) } else Some False)"

definition rb_is_black :: "rb_head \<Rightarrow> elmp \<Rightarrow> bool option" where
  "rb_is_black H elm = (if elm = None then Some True else do { c \<leftarrow> RB_COLOR H elm; Some (c = BLACK) })"

text \<open>
  The way in which \<open>RB_ROTATE_LEFT\<close>, \<open>RB_ROTATE_RIGHT\<close> and \<open>RB_REMOVE\<close> put the pointer \<open>new\<close> in the
  place of \<open>old\<close> below \<open>parent\<close>, or at the root.
\<close>

definition rb_replace :: "rb_head \<Rightarrow> elmp \<Rightarrow> elmp \<Rightarrow> elmp \<Rightarrow> rb_head option" where
  "rb_replace H parent old new =
     (if parent \<noteq> None
      then do {
        l \<leftarrow> RB_LEFT H parent;
        if l = old then rb_set_left H parent new else rb_set_right H parent new }
      else Some (H\<lparr>rbh_root := new\<rparr>))"

definition RB_ROTATE_LEFT :: "rb_head \<Rightarrow> elmp \<Rightarrow> rb_head option" where
  "RB_ROTATE_LEFT H elm =
     do { tmp \<leftarrow> RB_RIGHT H elm;
          tl \<leftarrow> RB_LEFT H tmp;
          H \<leftarrow> rb_set_right H elm tl;
          H \<leftarrow> (if tl \<noteq> None then do { tl \<leftarrow> RB_LEFT H tmp; rb_set_parent H tl elm } else Some H);
          p \<leftarrow> RB_PARENT H elm;
          H \<leftarrow> rb_set_parent H tmp p;
          p \<leftarrow> RB_PARENT H elm;
          H \<leftarrow> rb_replace H p elm tmp;
          H \<leftarrow> rb_set_left H tmp elm;
          rb_set_parent H elm tmp }"

definition RB_ROTATE_RIGHT :: "rb_head \<Rightarrow> elmp \<Rightarrow> rb_head option" where
  "RB_ROTATE_RIGHT H elm =
     do { tmp \<leftarrow> RB_LEFT H elm;
          tr \<leftarrow> RB_RIGHT H tmp;
          H \<leftarrow> rb_set_left H elm tr;
          H \<leftarrow> (if tr \<noteq> None then do { tr \<leftarrow> RB_RIGHT H tmp; rb_set_parent H tr elm } else Some H);
          p \<leftarrow> RB_PARENT H elm;
          H \<leftarrow> rb_set_parent H tmp p;
          p \<leftarrow> RB_PARENT H elm;
          H \<leftarrow> rb_replace H p elm tmp;
          H \<leftarrow> rb_set_right H tmp elm;
          rb_set_parent H elm tmp }"

section \<open>Repair\<close>

partial_function (option) insert_color_loop :: "rb_head \<Rightarrow> elmp \<Rightarrow> rb_head option" where
  "insert_color_loop H elm =
     do { parent \<leftarrow> RB_PARENT H elm;
          red \<leftarrow> rb_is_red H parent;
          if red
          then do {
            gparent \<leftarrow> RB_PARENT H parent;
            l \<leftarrow> RB_LEFT H gparent;
            if parent = l
            then do {
              tmp \<leftarrow> RB_RIGHT H gparent;
              red \<leftarrow> rb_is_red H tmp;
              if red
              then do {
                H \<leftarrow> rb_set_color H tmp BLACK;
                H \<leftarrow> RB_SET_BLACKRED H parent gparent;
                insert_color_loop H gparent }
              else do {
                r \<leftarrow> RB_RIGHT H parent;
                (H, parent, elm) \<leftarrow> (if r = elm then do { H \<leftarrow> RB_ROTATE_LEFT H parent; Some (H, elm, parent) }
                                     else Some (H, parent, elm));
                H \<leftarrow> RB_SET_BLACKRED H parent gparent;
                H \<leftarrow> RB_ROTATE_RIGHT H gparent;
                insert_color_loop H elm }}
            else do {
              tmp \<leftarrow> RB_LEFT H gparent;
              red \<leftarrow> rb_is_red H tmp;
              if red
              then do {
                H \<leftarrow> rb_set_color H tmp BLACK;
                H \<leftarrow> RB_SET_BLACKRED H parent gparent;
                insert_color_loop H gparent }
              else do {
                l \<leftarrow> RB_LEFT H parent;
                (H, parent, elm) \<leftarrow> (if l = elm then do { H \<leftarrow> RB_ROTATE_RIGHT H parent; Some (H, elm, parent) }
                                     else Some (H, parent, elm));
                H \<leftarrow> RB_SET_BLACKRED H parent gparent;
                H \<leftarrow> RB_ROTATE_LEFT H gparent;
                insert_color_loop H elm }}}
          else Some H }"

definition RB_INSERT_COLOR :: "rb_head \<Rightarrow> elmp \<Rightarrow> rb_head option" where
  "RB_INSERT_COLOR H elm = do { H \<leftarrow> insert_color_loop H elm; rb_set_color H (rbh_root H) BLACK }"

partial_function (option) remove_color_loop :: "rb_head \<Rightarrow> elmp \<Rightarrow> elmp \<Rightarrow> (rb_head \<times> elmp) option" where
  "remove_color_loop H parent elm =
     do { black \<leftarrow> rb_is_black H elm;
          if black \<and> elm \<noteq> rbh_root H
          then do {
            l \<leftarrow> RB_LEFT H parent;
            if l = elm
            then do {
              tmp \<leftarrow> RB_RIGHT H parent;
              c \<leftarrow> RB_COLOR H tmp;
              (H, tmp) \<leftarrow> (if c = RED
                then do {
                  H \<leftarrow> RB_SET_BLACKRED H tmp parent;
                  H \<leftarrow> RB_ROTATE_LEFT H parent;
                  tmp \<leftarrow> RB_RIGHT H parent;
                  Some (H, tmp) }
                else Some (H, tmp));
              tl \<leftarrow> RB_LEFT H tmp;
              lb \<leftarrow> rb_is_black H tl;
              tr \<leftarrow> RB_RIGHT H tmp;
              rb \<leftarrow> rb_is_black H tr;
              if lb \<and> rb
              then do {
                H \<leftarrow> rb_set_color H tmp RED;
                p \<leftarrow> RB_PARENT H parent;
                remove_color_loop H p parent }
              else do {
                (H, tmp) \<leftarrow> (if rb
                  then do {
                    oleft \<leftarrow> RB_LEFT H tmp;
                    H \<leftarrow> (if oleft \<noteq> None then rb_set_color H oleft BLACK else Some H);
                    H \<leftarrow> rb_set_color H tmp RED;
                    H \<leftarrow> RB_ROTATE_RIGHT H tmp;
                    tmp \<leftarrow> RB_RIGHT H parent;
                    Some (H, tmp) }
                  else Some (H, tmp));
                c \<leftarrow> RB_COLOR H parent;
                H \<leftarrow> rb_set_color H tmp c;
                H \<leftarrow> rb_set_color H parent BLACK;
                tr \<leftarrow> RB_RIGHT H tmp;
                H \<leftarrow> (if tr \<noteq> None then rb_set_color H tr BLACK else Some H);
                H \<leftarrow> RB_ROTATE_LEFT H parent;
                Some (H, rbh_root H) }}
            else do {
              tmp \<leftarrow> RB_LEFT H parent;
              c \<leftarrow> RB_COLOR H tmp;
              (H, tmp) \<leftarrow> (if c = RED
                then do {
                  H \<leftarrow> RB_SET_BLACKRED H tmp parent;
                  H \<leftarrow> RB_ROTATE_RIGHT H parent;
                  tmp \<leftarrow> RB_LEFT H parent;
                  Some (H, tmp) }
                else Some (H, tmp));
              tl \<leftarrow> RB_LEFT H tmp;
              lb \<leftarrow> rb_is_black H tl;
              tr \<leftarrow> RB_RIGHT H tmp;
              rb \<leftarrow> rb_is_black H tr;
              if lb \<and> rb
              then do {
                H \<leftarrow> rb_set_color H tmp RED;
                p \<leftarrow> RB_PARENT H parent;
                remove_color_loop H p parent }
              else do {
                (H, tmp) \<leftarrow> (if lb
                  then do {
                    oright \<leftarrow> RB_RIGHT H tmp;
                    H \<leftarrow> (if oright \<noteq> None then rb_set_color H oright BLACK else Some H);
                    H \<leftarrow> rb_set_color H tmp RED;
                    H \<leftarrow> RB_ROTATE_LEFT H tmp;
                    tmp \<leftarrow> RB_LEFT H parent;
                    Some (H, tmp) }
                  else Some (H, tmp));
                c \<leftarrow> RB_COLOR H parent;
                H \<leftarrow> rb_set_color H tmp c;
                H \<leftarrow> rb_set_color H parent BLACK;
                tl \<leftarrow> RB_LEFT H tmp;
                H \<leftarrow> (if tl \<noteq> None then rb_set_color H tl BLACK else Some H);
                H \<leftarrow> RB_ROTATE_RIGHT H parent;
                Some (H, rbh_root H) }}}
          else Some (H, elm) }"

definition RB_REMOVE_COLOR :: "rb_head \<Rightarrow> elmp \<Rightarrow> elmp \<Rightarrow> rb_head option" where
  "RB_REMOVE_COLOR H parent elm =
     do { (H, elm) \<leftarrow> remove_color_loop H parent elm;
          if elm \<noteq> None then rb_set_color H elm BLACK else Some H }"

section \<open>Removal\<close>

partial_function (option) rb_leftmost :: "rb_head \<Rightarrow> elmp \<Rightarrow> elmp option" where
  "rb_leftmost H elm = do { left \<leftarrow> RB_LEFT H elm; if left \<noteq> None then rb_leftmost H left else Some elm }"

partial_function (option) rb_rightmost :: "rb_head \<Rightarrow> elmp \<Rightarrow> elmp option" where
  "rb_rightmost H elm = do { right \<leftarrow> RB_RIGHT H elm; if right \<noteq> None then rb_rightmost H right else Some elm }"

text \<open>
  The walk to the root that calls \<open>RB_AUGMENT\<close>, which is empty, on every element; the model returns
  where it ends.
\<close>

partial_function (option) augment_up :: "rb_head \<Rightarrow> elmp \<Rightarrow> elmp option" where
  "augment_up H left = do { up \<leftarrow> RB_PARENT H left; if up \<noteq> None then augment_up H up else Some left }"

text \<open>The element \<open>elm\<close> with the only child \<open>child\<close> leaves its place below \<open>parent\<close>.\<close>

definition rb_unlink :: "rb_head \<Rightarrow> elmp \<Rightarrow> elmp \<Rightarrow> elmp \<Rightarrow> rb_head option" where
  "rb_unlink H parent elm child =
     do { H \<leftarrow> (if child \<noteq> None then rb_set_parent H child parent else Some H);
          rb_replace H parent elm child }"

text \<open>The element \<open>elm\<close> gets the entry of \<open>old\<close> and takes its place.\<close>

definition rb_take_place :: "rb_head \<Rightarrow> elmp \<Rightarrow> elmp \<Rightarrow> rb_head option" where
  "rb_take_place H old elm =
     do { a \<leftarrow> old;
          e \<leftarrow> rb_mem H a;
          H \<leftarrow> rb_write H elm (\<lambda>_. e);
          p \<leftarrow> RB_PARENT H old;
          H \<leftarrow> rb_replace H p old elm;
          l \<leftarrow> RB_LEFT H old;
          H \<leftarrow> rb_set_parent H l elm;
          r \<leftarrow> RB_RIGHT H old;
          if r \<noteq> None then rb_set_parent H r elm else Some H }"

text \<open>
  The two parts of \<open>RB_REMOVE\<close> up to the label \<open>color\<close>: an element with two children is replaced by
  the smallest element on its right, another one by its child.
\<close>

definition remove_between :: "rb_head \<Rightarrow> elmp \<Rightarrow> (rb_head \<times> elmp \<times> elmp \<times> color) option" where
  "remove_between H old =
     do { r \<leftarrow> RB_RIGHT H old;
          elm \<leftarrow> rb_leftmost H r;
          child \<leftarrow> RB_RIGHT H elm;
          parent \<leftarrow> RB_PARENT H elm;
          color \<leftarrow> RB_COLOR H elm;
          H \<leftarrow> rb_unlink H parent elm child;
          p \<leftarrow> RB_PARENT H elm;
          let parent = (if p = old then elm else parent);
          H \<leftarrow> rb_take_place H old elm;
          _ \<leftarrow> (if parent \<noteq> None then augment_up H parent else Some parent);
          Some (H, parent, child, color) }"

definition remove_outer :: "rb_head \<Rightarrow> elmp \<Rightarrow> elmp \<Rightarrow> (rb_head \<times> elmp \<times> elmp \<times> color) option" where
  "remove_outer H elm child =
     do { parent \<leftarrow> RB_PARENT H elm;
          color \<leftarrow> RB_COLOR H elm;
          H \<leftarrow> rb_unlink H parent elm child;
          Some (H, parent, child, color) }"

definition RB_REMOVE :: "rb_head \<Rightarrow> elmp \<Rightarrow> (elmp \<times> rb_head) option" where
  "RB_REMOVE H elm =
     do { l \<leftarrow> RB_LEFT H elm;
          r \<leftarrow> RB_RIGHT H elm;
          (H, parent, child, color) \<leftarrow>
            (if l = None then remove_outer H elm r
             else if r = None then remove_outer H elm l
             else remove_between H elm);
          H \<leftarrow> (if color = BLACK then RB_REMOVE_COLOR H parent child else Some H);
          Some (elm, H) }"

section \<open>Insertion and search\<close>

text \<open>
  The comparison function is an argument of the macros. The descent of \<open>RB_INSERT\<close> returns the
  element with an equal key (\<open>Inl\<close>) or the parent of the new one with the last comparison.
\<close>

type_synonym rb_cmp = "elmp \<Rightarrow> elmp \<Rightarrow> int option"

partial_function (option) rb_descend ::
  "rb_cmp \<Rightarrow> rb_head \<Rightarrow> elmp \<Rightarrow> elmp \<Rightarrow> elmp \<Rightarrow> int \<Rightarrow> (elmp + elmp \<times> int) option" where
  "rb_descend cmp H elm tmp parent cres =
     (if tmp \<noteq> None
      then do {
        cres \<leftarrow> cmp elm tmp;
        if cres < 0 then do { l \<leftarrow> RB_LEFT H tmp; rb_descend cmp H elm l tmp cres }
        else if cres > 0 then do { r \<leftarrow> RB_RIGHT H tmp; rb_descend cmp H elm r tmp cres }
        else Some (Inl tmp) }
      else Some (Inr (parent, cres)))"

text \<open>The new element below the parent that was found, on the side of the last comparison.\<close>

definition rb_link :: "rb_head \<Rightarrow> elmp \<Rightarrow> elmp \<Rightarrow> int \<Rightarrow> rb_head option" where
  "rb_link H elm parent cres =
     do { H \<leftarrow> RB_SET H elm parent;
          if parent \<noteq> None
          then if cres < 0 then rb_set_left H parent elm else rb_set_right H parent elm
          else Some (H\<lparr>rbh_root := elm\<rparr>) }"

definition RB_INSERT :: "rb_cmp \<Rightarrow> rb_head \<Rightarrow> elmp \<Rightarrow> (elmp \<times> rb_head) option" where
  "RB_INSERT cmp H elm =
     do { d \<leftarrow> rb_descend cmp H elm (rbh_root H) None 0;
          case d of
            Inl tmp \<Rightarrow> Some (tmp, H)
          | Inr (parent, cres) \<Rightarrow> do {
              H \<leftarrow> rb_link H elm parent cres;
              H \<leftarrow> RB_INSERT_COLOR H elm;
              Some (None, H) }}"

partial_function (option) find_loop :: "rb_cmp \<Rightarrow> rb_head \<Rightarrow> elmp \<Rightarrow> elmp \<Rightarrow> elmp option" where
  "find_loop cmp H elm tmp =
     (if tmp \<noteq> None
      then do {
        cres \<leftarrow> cmp elm tmp;
        if cres < 0 then do { l \<leftarrow> RB_LEFT H tmp; find_loop cmp H elm l }
        else if cres > 0 then do { r \<leftarrow> RB_RIGHT H tmp; find_loop cmp H elm r }
        else Some tmp }
      else Some None)"

definition RB_FIND :: "rb_cmp \<Rightarrow> rb_head \<Rightarrow> elmp \<Rightarrow> elmp option" where
  "RB_FIND cmp H elm = find_loop cmp H elm (rbh_root H)"

partial_function (option) nfind_loop :: "rb_cmp \<Rightarrow> rb_head \<Rightarrow> elmp \<Rightarrow> elmp \<Rightarrow> elmp \<Rightarrow> elmp option" where
  "nfind_loop cmp H elm tmp res =
     (if tmp \<noteq> None
      then do {
        cres \<leftarrow> cmp elm tmp;
        if cres < 0 then do { l \<leftarrow> RB_LEFT H tmp; nfind_loop cmp H elm l tmp }
        else if cres > 0 then do { r \<leftarrow> RB_RIGHT H tmp; nfind_loop cmp H elm r res }
        else Some tmp }
      else Some res)"

definition RB_NFIND :: "rb_cmp \<Rightarrow> rb_head \<Rightarrow> elmp \<Rightarrow> elmp option" where
  "RB_NFIND cmp H elm = nfind_loop cmp H elm (rbh_root H) None"

section \<open>Traversal\<close>

text \<open>Up while the element is a right child; \<open>RB_PREV\<close> goes up from left children.\<close>

partial_function (option) next_up :: "rb_head \<Rightarrow> elmp \<Rightarrow> elmp option" where
  "next_up H elm =
     do { p \<leftarrow> RB_PARENT H elm;
          if p = None then Some elm
          else do { r \<leftarrow> RB_RIGHT H p; if elm = r then next_up H p else Some elm }}"

partial_function (option) prev_up :: "rb_head \<Rightarrow> elmp \<Rightarrow> elmp option" where
  "prev_up H elm =
     do { p \<leftarrow> RB_PARENT H elm;
          if p = None then Some elm
          else do { l \<leftarrow> RB_LEFT H p; if elm = l then prev_up H p else Some elm }}"

definition RB_NEXT :: "rb_head \<Rightarrow> elmp \<Rightarrow> elmp option" where
  "RB_NEXT H elm =
     do { r \<leftarrow> RB_RIGHT H elm;
          if r \<noteq> None then rb_leftmost H r
          else do {
            p \<leftarrow> RB_PARENT H elm;
            l \<leftarrow> (if p \<noteq> None then RB_LEFT H p else Some None);
            if p \<noteq> None \<and> elm = l then Some p
            else do { elm \<leftarrow> next_up H elm; RB_PARENT H elm }}}"

definition RB_PREV :: "rb_head \<Rightarrow> elmp \<Rightarrow> elmp option" where
  "RB_PREV H elm =
     do { l \<leftarrow> RB_LEFT H elm;
          if l \<noteq> None then rb_rightmost H l
          else do {
            p \<leftarrow> RB_PARENT H elm;
            r \<leftarrow> (if p \<noteq> None then RB_RIGHT H p else Some None);
            if p \<noteq> None \<and> elm = r then Some p
            else do { elm \<leftarrow> prev_up H elm; RB_PARENT H elm }}}"

partial_function (option) minmax_loop :: "rb_head \<Rightarrow> int \<Rightarrow> elmp \<Rightarrow> elmp \<Rightarrow> elmp option" where
  "minmax_loop H val tmp parent =
     (if tmp \<noteq> None
      then do {
        tmp1 \<leftarrow> (if val < 0 then RB_LEFT H tmp else RB_RIGHT H tmp);
        minmax_loop H val tmp1 tmp }
      else Some parent)"

definition RB_MINMAX :: "rb_head \<Rightarrow> int \<Rightarrow> elmp option" where
  "RB_MINMAX H val = minmax_loop H val (rbh_root H) None"

definition RB_NEGINF :: int where "RB_NEGINF = -1"
definition RB_INF :: int where "RB_INF = 1"

definition RB_MIN :: "rb_head \<Rightarrow> elmp option" where
  "RB_MIN H = RB_MINMAX H RB_NEGINF"

definition RB_MAX :: "rb_head \<Rightarrow> elmp option" where
  "RB_MAX H = RB_MINMAX H RB_INF"

text \<open>
  The loops \<open>RB_FOREACH\<close> and \<open>RB_FOREACH_REVERSE\<close> with a body that does not change the tree: the
  elements in the order in which the body sees them, for the loops that start at \<open>x\<close>
  (\<open>RB_FOREACH_FROM\<close>) as well.
\<close>

partial_function (option) foreach_from :: "rb_head \<Rightarrow> elmp \<Rightarrow> nat list option" where
  "foreach_from H x =
     (case x of
        None \<Rightarrow> Some []
      | Some a \<Rightarrow> do { y \<leftarrow> RB_NEXT H x; as \<leftarrow> foreach_from H y; Some (a # as) })"

partial_function (option) foreach_reverse_from :: "rb_head \<Rightarrow> elmp \<Rightarrow> nat list option" where
  "foreach_reverse_from H x =
     (case x of
        None \<Rightarrow> Some []
      | Some a \<Rightarrow> do { y \<leftarrow> RB_PREV H x; as \<leftarrow> foreach_reverse_from H y; Some (a # as) })"

definition RB_FOREACH :: "rb_head \<Rightarrow> nat list option" where
  "RB_FOREACH H = do { x \<leftarrow> RB_MIN H; foreach_from H x }"

definition RB_FOREACH_REVERSE :: "rb_head \<Rightarrow> nat list option" where
  "RB_FOREACH_REVERSE H = do { x \<leftarrow> RB_MAX H; foreach_reverse_from H x }"

end
