(* ===== verification/Nty_Splay.thy ===== *)
theory Nty_Splay
  imports Nty_Tree
begin

text \<open>
  The splay trees of \<open>nty_tree.h\<close> (macros \<open>SPLAY_*\<close>). Splaying is done from the top with two pointers
  \<open>__left\<close> and \<open>__right\<close> that start at the local variable \<open>__node\<close>: the left links of the elements on
  the right side and the right links of those on the left side are collected behind them. This theory
  holds the data and the operations.
\<close>

section \<open>Data\<close>

record sp_entry =
  spe_left :: elmp
  spe_right :: elmp

record sp_head =
  sph_root :: elmp
  sp_mem :: "nat \<rightharpoonup> sp_entry"

text \<open>
  During \<open>SPLAY\<close> there is the variable \<open>__node\<close> as well, to which \<open>__left\<close> and \<open>__right\<close> may point
  (\<open>Local\<close>); links lead to elements only.
\<close>

datatype sp_adr = Local | Elm nat

record sp_frame =
  sf_head :: sp_head
  sf_node :: sp_entry

definition SPLAY_INIT :: "sp_head \<Rightarrow> sp_head" where
  "SPLAY_INIT H = H\<lparr>sph_root := None\<rparr>"

definition SPLAY_EMPTY :: "sp_head \<Rightarrow> bool" where
  "SPLAY_EMPTY H \<longleftrightarrow> sph_root H = None"

definition SPLAY_LEFT :: "sp_head \<Rightarrow> elmp \<Rightarrow> elmp option" where
  "SPLAY_LEFT H elm = do { p \<leftarrow> elm; e \<leftarrow> sp_mem H p; Some (spe_left e) }"

definition SPLAY_RIGHT :: "sp_head \<Rightarrow> elmp \<Rightarrow> elmp option" where
  "SPLAY_RIGHT H elm = do { p \<leftarrow> elm; e \<leftarrow> sp_mem H p; Some (spe_right e) }"

definition sp_write :: "sp_head \<Rightarrow> elmp \<Rightarrow> (sp_entry \<Rightarrow> sp_entry) \<Rightarrow> sp_head option" where
  "sp_write H elm f = do { p \<leftarrow> elm; e \<leftarrow> sp_mem H p; Some (H\<lparr>sp_mem := (sp_mem H)(p \<mapsto> f e)\<rparr>) }"

abbreviation sp_set_left :: "sp_head \<Rightarrow> elmp \<Rightarrow> elmp \<Rightarrow> sp_head option" where
  "sp_set_left H elm q \<equiv> sp_write H elm (spe_left_update (\<lambda>_. q))"

abbreviation sp_set_right :: "sp_head \<Rightarrow> elmp \<Rightarrow> elmp \<Rightarrow> sp_head option" where
  "sp_set_right H elm q \<equiv> sp_write H elm (spe_right_update (\<lambda>_. q))"

text \<open>A write through \<open>__left\<close> or \<open>__right\<close>.\<close>

fun sf_write :: "sp_frame \<Rightarrow> sp_adr \<Rightarrow> (sp_entry \<Rightarrow> sp_entry) \<Rightarrow> sp_frame option" where
  "sf_write F Local f = Some (F\<lparr>sf_node := f (sf_node F)\<rparr>)"
| "sf_write F (Elm a) f = do { H \<leftarrow> sp_write (sf_head F) (Some a) f; Some (F\<lparr>sf_head := H\<rparr>) }"

section \<open>Splaying\<close>

definition SPLAY_ROTATE_RIGHT :: "sp_head \<Rightarrow> elmp \<Rightarrow> sp_head option" where
  "SPLAY_ROTATE_RIGHT H tmp =
     do { r \<leftarrow> SPLAY_RIGHT H tmp;
          H \<leftarrow> sp_set_left H (sph_root H) r;
          H \<leftarrow> sp_set_right H tmp (sph_root H);
          Some (H\<lparr>sph_root := tmp\<rparr>) }"

definition SPLAY_ROTATE_LEFT :: "sp_head \<Rightarrow> elmp \<Rightarrow> sp_head option" where
  "SPLAY_ROTATE_LEFT H tmp =
     do { l \<leftarrow> SPLAY_LEFT H tmp;
          H \<leftarrow> sp_set_right H (sph_root H) l;
          H \<leftarrow> sp_set_left H tmp (sph_root H);
          Some (H\<lparr>sph_root := tmp\<rparr>) }"

definition SPLAY_LINKLEFT :: "sp_frame \<Rightarrow> sp_adr \<Rightarrow> (sp_frame \<times> sp_adr) option" where
  "SPLAY_LINKLEFT F tmp =
     do { F \<leftarrow> sf_write F tmp (spe_left_update (\<lambda>_. sph_root (sf_head F)));
          root \<leftarrow> sph_root (sf_head F);
          l \<leftarrow> SPLAY_LEFT (sf_head F) (Some root);
          Some (F\<lparr>sf_head := (sf_head F)\<lparr>sph_root := l\<rparr>\<rparr>, Elm root) }"

definition SPLAY_LINKRIGHT :: "sp_frame \<Rightarrow> sp_adr \<Rightarrow> (sp_frame \<times> sp_adr) option" where
  "SPLAY_LINKRIGHT F tmp =
     do { F \<leftarrow> sf_write F tmp (spe_right_update (\<lambda>_. sph_root (sf_head F)));
          root \<leftarrow> sph_root (sf_head F);
          r \<leftarrow> SPLAY_RIGHT (sf_head F) (Some root);
          Some (F\<lparr>sf_head := (sf_head F)\<lparr>sph_root := r\<rparr>\<rparr>, Elm root) }"

definition SPLAY_ASSEMBLE :: "sp_frame \<Rightarrow> sp_adr \<Rightarrow> sp_adr \<Rightarrow> sp_frame option" where
  "SPLAY_ASSEMBLE F left right =
     do { l \<leftarrow> SPLAY_LEFT (sf_head F) (sph_root (sf_head F));
          F \<leftarrow> sf_write F left (spe_right_update (\<lambda>_. l));
          r \<leftarrow> SPLAY_RIGHT (sf_head F) (sph_root (sf_head F));
          F \<leftarrow> sf_write F right (spe_left_update (\<lambda>_. r));
          H \<leftarrow> sp_set_left (sf_head F) (sph_root (sf_head F)) (spe_right (sf_node F));
          H \<leftarrow> sp_set_right H (sph_root H) (spe_left (sf_node F));
          Some (F\<lparr>sf_head := H\<rparr>) }"

text \<open>The loop ends with the two pointers.\<close>

partial_function (option) splay_loop ::
  "rb_cmp \<Rightarrow> elmp \<Rightarrow> sp_frame \<Rightarrow> sp_adr \<Rightarrow> sp_adr \<Rightarrow> (sp_frame \<times> sp_adr \<times> sp_adr) option" where
  "splay_loop cmp elm F left right =
     do { comp1 \<leftarrow> cmp elm (sph_root (sf_head F));
          if comp1 = 0 then Some (F, left, right)
          else if comp1 < 0
          then do {
            tmp \<leftarrow> SPLAY_LEFT (sf_head F) (sph_root (sf_head F));
            if tmp = None then Some (F, left, right)
            else do {
              comp2 \<leftarrow> cmp elm tmp;
              H \<leftarrow> (if comp2 < 0 then SPLAY_ROTATE_RIGHT (sf_head F) tmp else Some (sf_head F));
              l \<leftarrow> SPLAY_LEFT H (sph_root H);
              if comp2 < 0 \<and> l = None then Some (F\<lparr>sf_head := H\<rparr>, left, right)
              else do {
                (F, right) \<leftarrow> SPLAY_LINKLEFT (F\<lparr>sf_head := H\<rparr>) right;
                splay_loop cmp elm F left right }}}
          else do {
            tmp \<leftarrow> SPLAY_RIGHT (sf_head F) (sph_root (sf_head F));
            if tmp = None then Some (F, left, right)
            else do {
              comp2 \<leftarrow> cmp elm tmp;
              H \<leftarrow> (if comp2 > 0 then SPLAY_ROTATE_LEFT (sf_head F) tmp else Some (sf_head F));
              r \<leftarrow> SPLAY_RIGHT H (sph_root H);
              if comp2 > 0 \<and> r = None then Some (F\<lparr>sf_head := H\<rparr>, left, right)
              else do {
                (F, left) \<leftarrow> SPLAY_LINKRIGHT (F\<lparr>sf_head := H\<rparr>) left;
                splay_loop cmp elm F left right }}}}"

definition SPLAY :: "rb_cmp \<Rightarrow> sp_head \<Rightarrow> elmp \<Rightarrow> sp_head option" where
  "SPLAY cmp H elm =
     do { (F, left, right) \<leftarrow> splay_loop cmp elm
            \<lparr>sf_head = H, sf_node = \<lparr>spe_left = None, spe_right = None\<rparr>\<rparr> Local Local;
          F \<leftarrow> SPLAY_ASSEMBLE F left right;
          Some (sf_head F) }"

text \<open>The same loop with a fixed direction. With the direction 0 it runs on without doing anything.\<close>

partial_function (option) splay_minmax_loop ::
  "int \<Rightarrow> sp_frame \<Rightarrow> sp_adr \<Rightarrow> sp_adr \<Rightarrow> (sp_frame \<times> sp_adr \<times> sp_adr) option" where
  "splay_minmax_loop comp1 F left right =
     (if comp1 < 0
      then do {
        tmp \<leftarrow> SPLAY_LEFT (sf_head F) (sph_root (sf_head F));
        if tmp = None then Some (F, left, right)
        else do {
          H \<leftarrow> SPLAY_ROTATE_RIGHT (sf_head F) tmp;
          l \<leftarrow> SPLAY_LEFT H (sph_root H);
          if l = None then Some (F\<lparr>sf_head := H\<rparr>, left, right)
          else do {
            (F, right) \<leftarrow> SPLAY_LINKLEFT (F\<lparr>sf_head := H\<rparr>) right;
            splay_minmax_loop comp1 F left right }}}
      else if comp1 > 0
      then do {
        tmp \<leftarrow> SPLAY_RIGHT (sf_head F) (sph_root (sf_head F));
        if tmp = None then Some (F, left, right)
        else do {
          H \<leftarrow> SPLAY_ROTATE_LEFT (sf_head F) tmp;
          r \<leftarrow> SPLAY_RIGHT H (sph_root H);
          if r = None then Some (F\<lparr>sf_head := H\<rparr>, left, right)
          else do {
            (F, left) \<leftarrow> SPLAY_LINKRIGHT (F\<lparr>sf_head := H\<rparr>) left;
            splay_minmax_loop comp1 F left right }}}
      else splay_minmax_loop comp1 F left right)"

definition SPLAY_MINMAX :: "sp_head \<Rightarrow> int \<Rightarrow> sp_head option" where
  "SPLAY_MINMAX H comp1 =
     do { (F, left, right) \<leftarrow> splay_minmax_loop comp1
            \<lparr>sf_head = H, sf_node = \<lparr>spe_left = None, spe_right = None\<rparr>\<rparr> Local Local;
          F \<leftarrow> SPLAY_ASSEMBLE F left right;
          Some (sf_head F) }"

section \<open>Operations\<close>

definition SPLAY_FIND :: "rb_cmp \<Rightarrow> sp_head \<Rightarrow> elmp \<Rightarrow> (elmp \<times> sp_head) option" where
  "SPLAY_FIND cmp H elm =
     (if SPLAY_EMPTY H then Some (None, H)
      else do {
        H \<leftarrow> SPLAY cmp H elm;
        c \<leftarrow> cmp elm (sph_root H);
        Some (if c = 0 then sph_root H else None, H) })"

partial_function (option) splay_leftmost :: "sp_head \<Rightarrow> elmp \<Rightarrow> elmp option" where
  "splay_leftmost H elm = do { left \<leftarrow> SPLAY_LEFT H elm; if left \<noteq> None then splay_leftmost H left else Some elm }"

definition SPLAY_NEXT :: "rb_cmp \<Rightarrow> sp_head \<Rightarrow> elmp \<Rightarrow> (elmp \<times> sp_head) option" where
  "SPLAY_NEXT cmp H elm =
     do { H \<leftarrow> SPLAY cmp H elm;
          r \<leftarrow> SPLAY_RIGHT H elm;
          x \<leftarrow> (if r \<noteq> None then splay_leftmost H r else Some None);
          Some (x, H) }"

definition SPLAY_MIN_MAX :: "sp_head \<Rightarrow> int \<Rightarrow> (elmp \<times> sp_head) option" where
  "SPLAY_MIN_MAX H val = do { H \<leftarrow> SPLAY_MINMAX H val; Some (sph_root H, H) }"

definition SPLAY_INSERT :: "rb_cmp \<Rightarrow> sp_head \<Rightarrow> elmp \<Rightarrow> (elmp \<times> sp_head) option" where
  "SPLAY_INSERT cmp H elm =
     (if SPLAY_EMPTY H
      then do {
        H \<leftarrow> sp_set_right H elm None;
        H \<leftarrow> sp_set_left H elm None;
        Some (None, H\<lparr>sph_root := elm\<rparr>) }
      else do {
        H \<leftarrow> SPLAY cmp H elm;
        c \<leftarrow> cmp elm (sph_root H);
        if c < 0
        then do {
          l \<leftarrow> SPLAY_LEFT H (sph_root H);
          H \<leftarrow> sp_set_left H elm l;
          H \<leftarrow> sp_set_right H elm (sph_root H);
          H \<leftarrow> sp_set_left H (sph_root H) None;
          Some (None, H\<lparr>sph_root := elm\<rparr>) }
        else if c > 0
        then do {
          r \<leftarrow> SPLAY_RIGHT H (sph_root H);
          H \<leftarrow> sp_set_right H elm r;
          H \<leftarrow> sp_set_left H elm (sph_root H);
          H \<leftarrow> sp_set_right H (sph_root H) None;
          Some (None, H\<lparr>sph_root := elm\<rparr>) }
        else Some (sph_root H, H) })"

definition SPLAY_REMOVE :: "rb_cmp \<Rightarrow> sp_head \<Rightarrow> elmp \<Rightarrow> (elmp \<times> sp_head) option" where
  "SPLAY_REMOVE cmp H elm =
     (if SPLAY_EMPTY H then Some (None, H)
      else do {
        H \<leftarrow> SPLAY cmp H elm;
        c \<leftarrow> cmp elm (sph_root H);
        if c = 0
        then do {
          l \<leftarrow> SPLAY_LEFT H (sph_root H);
          if l = None
          then do {
            r \<leftarrow> SPLAY_RIGHT H (sph_root H);
            Some (elm, H\<lparr>sph_root := r\<rparr>) }
          else do {
            tmp \<leftarrow> SPLAY_RIGHT H (sph_root H);
            l \<leftarrow> SPLAY_LEFT H (sph_root H);
            H \<leftarrow> SPLAY cmp (H\<lparr>sph_root := l\<rparr>) elm;
            H \<leftarrow> sp_set_right H (sph_root H) tmp;
            Some (elm, H) }}
        else Some (None, H) })"

definition SPLAY_NEGINF :: int where "SPLAY_NEGINF = -1"
definition SPLAY_INF :: int where "SPLAY_INF = 1"

definition SPLAY_MIN :: "sp_head \<Rightarrow> (elmp \<times> sp_head) option" where
  "SPLAY_MIN H = (if SPLAY_EMPTY H then Some (None, H) else SPLAY_MIN_MAX H SPLAY_NEGINF)"

definition SPLAY_MAX :: "sp_head \<Rightarrow> (elmp \<times> sp_head) option" where
  "SPLAY_MAX H = (if SPLAY_EMPTY H then Some (None, H) else SPLAY_MIN_MAX H SPLAY_INF)"

text \<open>The loop \<open>SPLAY_FOREACH\<close> with a body that does not change the tree; every step splays.\<close>

partial_function (option) splay_foreach_from :: "rb_cmp \<Rightarrow> sp_head \<Rightarrow> elmp \<Rightarrow> (nat list \<times> sp_head) option" where
  "splay_foreach_from cmp H x =
     (case x of
        None \<Rightarrow> Some ([], H)
      | Some a \<Rightarrow> do {
          (y, H) \<leftarrow> SPLAY_NEXT cmp H x;
          (as, H) \<leftarrow> splay_foreach_from cmp H y;
          Some (a # as, H) })"

definition SPLAY_FOREACH :: "rb_cmp \<Rightarrow> sp_head \<Rightarrow> (nat list \<times> sp_head) option" where
  "SPLAY_FOREACH cmp H = do { (x, H) \<leftarrow> SPLAY_MIN H; splay_foreach_from cmp H x }"

end
