(* ===== verification/Nty_Splay_Inv.thy ===== *)
theory Nty_Splay_Inv
  imports Nty_Splay "HOL-Library.Tree"
begin

text \<open>
  Splaying on trees. The loop of \<open>SPLAY\<close> is related to a function on trees with the two sides that
  were split off, and this function to the order of the elements.
\<close>

section \<open>Trees in memory\<close>

fun sp :: "nat tree \<Rightarrow> elmp" where
  "sp Leaf = None"
| "sp (Node l a r) = Some a"

fun sp_stored :: "(nat \<rightharpoonup> sp_entry) \<Rightarrow> nat tree \<Rightarrow> bool" where
  "sp_stored m Leaf \<longleftrightarrow> True"
| "sp_stored m (Node l a r) \<longleftrightarrow> m a = Some \<lparr>spe_left = sp l, spe_right = sp r\<rparr> \<and> sp_stored m l \<and> sp_stored m r"

lemma sp_None [simp]: "sp t = None \<longleftrightarrow> t = Leaf" "None = sp t \<longleftrightarrow> t = Leaf"
  by (cases t; auto)+

lemma sp_stored_frame [simp]: "a \<notin> set_tree t \<Longrightarrow> sp_stored (m(a \<mapsto> e)) t = sp_stored m t"
  by (induction t) auto

text \<open>
  The left side: elements with their left subtrees, from the last one, to which \<open>__left\<close> points, up to
  the first one, to which \<open>__node\<close> points. \<open>x\<close> is the right link of the last one, \<open>h\<close> that of \<open>__node\<close>.
\<close>

fun lside :: "(nat \<rightharpoonup> sp_entry) \<Rightarrow> elmp \<Rightarrow> elmp \<Rightarrow> (nat tree \<times> nat) list \<Rightarrow> bool" where
  "lside m h x [] \<longleftrightarrow> h = x"
| "lside m h x ((l, a) # L) \<longleftrightarrow> m a = Some \<lparr>spe_left = sp l, spe_right = x\<rparr> \<and> sp_stored m l \<and> lside m h (Some a) L"

fun rside :: "(nat \<rightharpoonup> sp_entry) \<Rightarrow> elmp \<Rightarrow> elmp \<Rightarrow> (nat \<times> nat tree) list \<Rightarrow> bool" where
  "rside m h x [] \<longleftrightarrow> h = x"
| "rside m h x ((a, r) # R) \<longleftrightarrow> m a = Some \<lparr>spe_left = x, spe_right = sp r\<rparr> \<and> sp_stored m r \<and> rside m h (Some a) R"

fun lasm :: "(nat tree \<times> nat) list \<Rightarrow> nat tree \<Rightarrow> nat tree" where
  "lasm [] t = t"
| "lasm ((l, a) # L) t = lasm L (Node l a t)"

fun rasm :: "(nat \<times> nat tree) list \<Rightarrow> nat tree \<Rightarrow> nat tree" where
  "rasm [] t = t"
| "rasm ((a, r) # R) t = rasm R (Node t a r)"

fun lin :: "(nat tree \<times> nat) list \<Rightarrow> nat list" where
  "lin [] = []"
| "lin ((l, a) # L) = lin L @ inorder l @ [a]"

fun rin :: "(nat \<times> nat tree) list \<Rightarrow> nat list" where
  "rin [] = []"
| "rin ((a, r) # R) = a # inorder r @ rin R"

fun lbot :: "(nat tree \<times> nat) list \<Rightarrow> sp_adr" where
  "lbot [] = Local"
| "lbot ((l, a) # L) = Elm a"

fun rbot :: "(nat \<times> nat tree) list \<Rightarrow> sp_adr" where
  "rbot [] = Local"
| "rbot ((a, r) # R) = Elm a"

lemma inorder_lasm [simp]: "inorder (lasm L t) = lin L @ inorder t"
  by (induction L t rule: lasm.induct) auto

lemma inorder_rasm [simp]: "inorder (rasm R t) = inorder t @ rin R"
  by (induction R t rule: rasm.induct) auto

lemma set_lasm [simp]: "set_tree (lasm L t) = set (lin L) \<union> set_tree t"
  by (metis inorder_lasm set_append set_inorder)

lemma set_rasm [simp]: "set_tree (rasm R t) = set_tree t \<union> set (rin R)"
  by (metis inorder_rasm set_append set_inorder)

lemma lside_frame [simp]: "a \<notin> set (lin L) \<Longrightarrow> lside (m(a \<mapsto> e)) h x L = lside m h x L"
  by (induction m h x L rule: lside.induct) auto

lemma rside_frame [simp]: "a \<notin> set (rin R) \<Longrightarrow> rside (m(a \<mapsto> e)) h x R = rside m h x R"
  by (induction m h x R rule: rside.induct) auto

lemma lside_lasm: "lside m h (sp t) L \<Longrightarrow> sp_stored m t \<Longrightarrow> sp_stored m (lasm L t) \<and> sp (lasm L t) = h"
  by (induction L t rule: lasm.induct) auto

lemma rside_rasm: "rside m h (sp t) R \<Longrightarrow> sp_stored m t \<Longrightarrow> sp_stored m (rasm R t) \<and> sp (rasm R t) = h"
  by (induction R t rule: rasm.induct) auto

section \<open>States of the loop\<close>

text \<open>\<open>M\<close> is the memory at the start, of which what is outside of the tree stays.\<close>

definition outside :: "nat list \<Rightarrow> (nat \<rightharpoonup> sp_entry) \<Rightarrow> (nat \<rightharpoonup> sp_entry) \<Rightarrow> bool" where
  "outside as m M \<longleftrightarrow> dom m = dom M \<and> (\<forall>a. a \<notin> set as \<longrightarrow> m a = M a)"

lemma outside_upd [simp]: "outside as m M \<Longrightarrow> a \<in> set as \<Longrightarrow> m a \<noteq> None \<Longrightarrow> outside as (m(a \<mapsto> e)) M"
  by (auto simp: outside_def)

definition splaying ::
  "(nat \<rightharpoonup> sp_entry) \<Rightarrow> sp_frame \<Rightarrow> (nat tree \<times> nat) list \<Rightarrow> nat tree \<Rightarrow> (nat \<times> nat tree) list \<Rightarrow> bool" where
  "splaying M F L t R \<longleftrightarrow> (let m = sp_mem (sf_head F) in
     outside (lin L @ inorder t @ rin R) m M \<and> sph_root (sf_head F) = sp t \<and> sp_stored m t \<and>
     (\<exists>x. lside m (spe_right (sf_node F)) x L) \<and> (\<exists>x. rside m (spe_left (sf_node F)) x R) \<and>
     distinct (lin L @ inorder t @ rin R))"

lemmas splay_heap = SPLAY_LEFT_def SPLAY_RIGHT_def sp_write_def

lemma sp_mem_cases: "sp_stored m t \<Longrightarrow> a \<in> set_tree t \<Longrightarrow> \<exists>e. m a = Some e"
  by (induction t) auto

lemma root_links:
  assumes "splaying M F L (Node l a r) R"
  shows "SPLAY_LEFT (sf_head F) (sph_root (sf_head F)) = Some (sp l)" "SPLAY_RIGHT (sf_head F) (sph_root (sf_head F)) = Some (sp r)"
  using assms by (auto simp: splaying_def splay_heap Let_def)

lemma rotate_right:
  assumes "splaying M F L (Node (Node ll b lr) a r) R"
  shows "\<exists>H. SPLAY_ROTATE_RIGHT (sf_head F) (Some b) = Some H \<and> splaying M (F\<lparr>sf_head := H\<rparr>) L (Node ll b (Node lr a r)) R"
  using assms by (auto simp: splaying_def SPLAY_ROTATE_RIGHT_def splay_heap Let_def)

lemma rotate_left:
  assumes "splaying M F L (Node l a (Node rl b rr)) R"
  shows "\<exists>H. SPLAY_ROTATE_LEFT (sf_head F) (Some b) = Some H \<and> splaying M (F\<lparr>sf_head := H\<rparr>) L (Node (Node l a rl) b rr) R"
  using assms by (auto simp: splaying_def SPLAY_ROTATE_LEFT_def splay_heap Let_def)

lemma link_left:
  assumes "splaying M F L (Node l a r) R"
  shows "\<exists>F'. SPLAY_LINKLEFT F (rbot R) = Some (F', Elm a) \<and> splaying M F' L l ((a, r) # R)"
  using assms by (cases R) (auto simp: splaying_def SPLAY_LINKLEFT_def splay_heap Let_def)

lemma link_right:
  assumes "splaying M F L (Node l a r) R"
  shows "\<exists>F'. SPLAY_LINKRIGHT F (lbot L) = Some (F', Elm a) \<and> splaying M F' ((l, a) # L) r R"
  using assms by (cases L) (auto simp: splaying_def SPLAY_LINKRIGHT_def splay_heap Let_def)

definition holds_splay :: "(nat \<rightharpoonup> sp_entry) \<Rightarrow> sp_head \<Rightarrow> nat tree \<Rightarrow> bool" where
  "holds_splay M H t \<longleftrightarrow> outside (inorder t) (sp_mem H) M \<and> sph_root H = sp t \<and> sp_stored (sp_mem H) t \<and> distinct (inorder t)"

lemma assemble_left:
  assumes "splaying M F L (Node l a r) R"
  shows "\<exists>F'. sf_write F (lbot L) (spe_right_update (\<lambda>_. sp l)) = Some F' \<and> splaying M F' L (Node l a r) R \<and>
    lside (sp_mem (sf_head F')) (spe_right (sf_node F')) (sp l) L"
  using assms by (cases L) (auto simp: splaying_def splay_heap Let_def)

lemma assemble_right:
  assumes "splaying M F L (Node l a r) R" and "lside (sp_mem (sf_head F)) (spe_right (sf_node F)) x L"
  shows "\<exists>F'. sf_write F (rbot R) (spe_left_update (\<lambda>_. sp r)) = Some F' \<and> splaying M F' L (Node l a r) R \<and>
    lside (sp_mem (sf_head F')) (spe_right (sf_node F')) x L \<and> rside (sp_mem (sf_head F')) (spe_left (sf_node F')) (sp r) R"
  using assms by (cases R) (auto simp: splaying_def splay_heap Let_def)

lemma assemble:
  assumes "splaying M F L (Node l a r) R"
  shows "\<exists>F'. SPLAY_ASSEMBLE F (lbot L) (rbot R) = Some F' \<and> holds_splay M (sf_head F') (Node (lasm L l) a (rasm R r))"
proof -
  obtain F1 where F1: "sf_write F (lbot L) (spe_right_update (\<lambda>_. sp l)) = Some F1" "splaying M F1 L (Node l a r) R"
      "lside (sp_mem (sf_head F1)) (spe_right (sf_node F1)) (sp l) L" using assemble_left [OF assms] by blast
  obtain F2 where F2: "sf_write F1 (rbot R) (spe_left_update (\<lambda>_. sp r)) = Some F2" "splaying M F2 L (Node l a r) R"
      "lside (sp_mem (sf_head F2)) (spe_right (sf_node F2)) (sp l) L" "rside (sp_mem (sf_head F2)) (spe_left (sf_node F2)) (sp r) R"
    using assemble_right [OF F1(2,3)] by blast
  let ?m = "sp_mem (sf_head F2)"
  have st: "sp_stored ?m l" "sp_stored ?m r" "outside (inorder (Node (lasm L l) a (rasm R r))) ?m M" "sph_root (sf_head F2) = Some a"
      "?m a = Some \<lparr>spe_left = sp l, spe_right = sp r\<rparr>" "distinct (inorder (Node (lasm L l) a (rasm R r)))"
    using F2(2) by (auto simp: splaying_def Let_def)
  have sides: "sp_stored ?m (lasm L l)" "sp (lasm L l) = spe_right (sf_node F2)" "sp_stored ?m (rasm R r)" "sp (rasm R r) = spe_left (sf_node F2)"
    using lside_lasm [OF F2(3) st(1)] rside_rasm [OF F2(4) st(2)] by auto
  have "a \<notin> set_tree (lasm L l)" "a \<notin> set_tree (rasm R r)" using st(6) by (auto simp flip: set_inorder)
  then show ?thesis using F1(1) F2(1) root_links [OF assms] root_links [OF F1(2)] st sides
    by (auto simp: SPLAY_ASSEMBLE_def sp_write_def holds_splay_def)
qed

section \<open>Splaying as a function\<close>

text \<open>\<open>c a\<close> is the result of the comparison with the element \<open>a\<close>.\<close>

fun topdown :: "(nat \<Rightarrow> int) \<Rightarrow> (nat tree \<times> nat) list \<Rightarrow> nat tree \<Rightarrow> (nat \<times> nat tree) list \<Rightarrow>
    (nat tree \<times> nat) list \<times> nat tree \<times> (nat \<times> nat tree) list" where
  "topdown c L Leaf R = (L, Leaf, R)"
| "topdown c L (Node l a r) R =
     (if c a < 0 then
        (case l of
           Leaf \<Rightarrow> (L, Node l a r, R)
         | Node ll b lr \<Rightarrow>
             if c b < 0
             then if ll = Leaf then (L, Node ll b (Node lr a r), R) else topdown c L ll ((b, Node lr a r) # R)
             else topdown c L l ((a, r) # R))
      else if 0 < c a then
        (case r of
           Leaf \<Rightarrow> (L, Node l a r, R)
         | Node rl b rr \<Rightarrow>
             if 0 < c b
             then if rr = Leaf then (L, Node (Node l a rl) b rr, R) else topdown c ((Node l a rl, b) # L) rr R
             else topdown c ((l, a) # L) r R)
      else (L, Node l a r, R))"

declare topdown.simps(2) [simp del]

lemma topdown_simps [simp]:
  "c a = 0 \<or> c a < 0 \<and> l = Leaf \<or> 0 < c a \<and> r = Leaf \<Longrightarrow> topdown c L (Node l a r) R = (L, Node l a r, R)"
  "c a < 0 \<Longrightarrow> c b < 0 \<Longrightarrow> topdown c L (Node (Node ll b lr) a r) R =
     (if ll = Leaf then (L, Node ll b (Node lr a r), R) else topdown c L ll ((b, Node lr a r) # R))"
  "c a < 0 \<Longrightarrow> \<not> c b < 0 \<Longrightarrow> topdown c L (Node (Node ll b lr) a r) R = topdown c L (Node ll b lr) ((a, r) # R)"
  "0 < c a \<Longrightarrow> 0 < c b \<Longrightarrow> topdown c L (Node l a (Node rl b rr)) R =
     (if rr = Leaf then (L, Node (Node l a rl) b rr, R) else topdown c ((Node l a rl, b) # L) rr R)"
  "0 < c a \<Longrightarrow> \<not> 0 < c b \<Longrightarrow> topdown c L (Node l a (Node rl b rr)) R = topdown c ((l, a) # L) (Node rl b rr) R"
  by (auto simp: topdown.simps)

text \<open>Induction over the rounds.\<close>

lemma topdown_rounds [case_names Leaf Stop LL L RR R]:
  fixes c :: "nat \<Rightarrow> int"
  assumes leaf: "\<And>L R. P L Leaf R"
    and stop: "\<And>L l a r R. c a = 0 \<or> c a < 0 \<and> l = Leaf \<or> 0 < c a \<and> r = Leaf \<Longrightarrow> P L (Node l a r) R"
    and ll: "\<And>L ll b lr a r R. c a < 0 \<Longrightarrow> c b < 0 \<Longrightarrow> (ll \<noteq> Leaf \<Longrightarrow> P L ll ((b, Node lr a r) # R)) \<Longrightarrow>
      P L (Node (Node ll b lr) a r) R"
    and l: "\<And>L ll b lr a r R. c a < 0 \<Longrightarrow> \<not> c b < 0 \<Longrightarrow> P L (Node ll b lr) ((a, r) # R) \<Longrightarrow> P L (Node (Node ll b lr) a r) R"
    and rr: "\<And>L l a rl b rr R. 0 < c a \<Longrightarrow> 0 < c b \<Longrightarrow> (rr \<noteq> Leaf \<Longrightarrow> P ((Node l a rl, b) # L) rr R) \<Longrightarrow>
      P L (Node l a (Node rl b rr)) R"
    and r: "\<And>L l a rl b rr R. 0 < c a \<Longrightarrow> \<not> 0 < c b \<Longrightarrow> P ((l, a) # L) (Node rl b rr) R \<Longrightarrow> P L (Node l a (Node rl b rr)) R"
  shows "P L t R"
proof (induction "size t" arbitrary: L t R rule: less_induct)
  case less
  show ?case
  proof (cases t)
    case t: (Node l a r)
    consider "c a = 0 \<or> c a < 0 \<and> l = Leaf \<or> 0 < c a \<and> r = Leaf"
      | ll b lr where "c a < 0" "l = Node ll b lr" "c b < 0" | ll b lr where "c a < 0" "l = Node ll b lr" "\<not> c b < 0"
      | rl b rr where "0 < c a" "r = Node rl b rr" "0 < c b" | rl b rr where "0 < c a" "r = Node rl b rr" "\<not> 0 < c b"
      by (metis neq_iff tree.exhaust)
    then show ?thesis using stop ll l rr r less t by cases simp_all
  qed (simp add: leaf)
qed

text \<open>
  The rounds of the loop: it stops at a root without a child on the side of the search, with or
  without a rotation, or goes on with a subtree.
\<close>

definition compares :: "rb_cmp \<Rightarrow> elmp \<Rightarrow> (nat \<Rightarrow> int) \<Rightarrow> nat tree \<Rightarrow> bool" where
  "compares cmp elm c t \<longleftrightarrow> (\<forall>a \<in> set_tree t. cmp elm (Some a) = Some (c a))"

lemma compares_simps [simp]:
  "compares cmp elm c Leaf"
  "compares cmp elm c (Node l a r) \<longleftrightarrow> cmp elm (Some a) = Some (c a) \<and> compares cmp elm c l \<and> compares cmp elm c r"
  by (auto simp: compares_def)

lemma splaying_root: "splaying M F L (Node l a r) R \<Longrightarrow> sph_root (sf_head F) = Some a"
  by (simp add: splaying_def Let_def)

lemma round_stop:
  assumes "splaying M F L (Node l a r) R" and "cmp elm (Some a) = Some (c a)"
    and "c a = 0 \<or> c a < 0 \<and> l = Leaf \<or> 0 < c a \<and> r = Leaf"
  shows "splay_loop cmp elm F (lbot L) (rbot R) = Some (F, lbot L, rbot R)"
  using assms root_links [OF assms(1)] splaying_root [OF assms(1)] by (auto simp: splay_loop.simps [of cmp elm F])

lemma round_rotate_right:
  assumes st: "splaying M F L (Node (Node ll b lr) a r) R" and "compares cmp elm c (Node (Node ll b lr) a r)"
    and "c a < 0" and "c b < 0"
  shows "\<exists>F'. splaying M F' L (Node ll b (Node lr a r)) R \<and> splay_loop cmp elm F (lbot L) (rbot R) =
    (if ll = Leaf then Some (F', lbot L, rbot R) else SPLAY_LINKLEFT F' (rbot R) \<bind> (\<lambda>(F, right). splay_loop cmp elm F (lbot L) right))"
proof -
  obtain H where H: "SPLAY_ROTATE_RIGHT (sf_head F) (Some b) = Some H" "splaying M (F\<lparr>sf_head := H\<rparr>) L (Node ll b (Node lr a r)) R"
    using rotate_right [OF st] by blast
  then show ?thesis using assms root_links [OF st] root_links [OF H(2), simplified] splaying_root [OF st]
    by (intro exI [of _ "F\<lparr>sf_head := H\<rparr>"]) (simp add: splay_loop.simps [of cmp elm F])
qed

lemma round_rotate_left:
  assumes st: "splaying M F L (Node l a (Node rl b rr)) R" and "compares cmp elm c (Node l a (Node rl b rr))"
    and "0 < c a" and "0 < c b"
  shows "\<exists>F'. splaying M F' L (Node (Node l a rl) b rr) R \<and> splay_loop cmp elm F (lbot L) (rbot R) =
    (if rr = Leaf then Some (F', lbot L, rbot R) else SPLAY_LINKRIGHT F' (lbot L) \<bind> (\<lambda>(F, left). splay_loop cmp elm F left (rbot R)))"
proof -
  obtain H where H: "SPLAY_ROTATE_LEFT (sf_head F) (Some b) = Some H" "splaying M (F\<lparr>sf_head := H\<rparr>) L (Node (Node l a rl) b rr) R"
    using rotate_left [OF st] by blast
  then show ?thesis using assms root_links [OF st] root_links [OF H(2), simplified] splaying_root [OF st]
    by (intro exI [of _ "F\<lparr>sf_head := H\<rparr>"]) (simp add: splay_loop.simps [of cmp elm F])
qed

lemma round_left:
  assumes st: "splaying M F L (Node (Node ll b lr) a r) R" and "compares cmp elm c (Node (Node ll b lr) a r)"
    and "c a < 0" and "\<not> c b < 0"
  shows "splay_loop cmp elm F (lbot L) (rbot R) = SPLAY_LINKLEFT F (rbot R) \<bind> (\<lambda>(F, right). splay_loop cmp elm F (lbot L) right)"
  using assms root_links [OF st] splaying_root [OF st] by (subst splay_loop.simps) simp

lemma round_right:
  assumes st: "splaying M F L (Node l a (Node rl b rr)) R" and "compares cmp elm c (Node l a (Node rl b rr))"
    and "0 < c a" and "\<not> 0 < c b"
  shows "splay_loop cmp elm F (lbot L) (rbot R) = SPLAY_LINKRIGHT F (lbot L) \<bind> (\<lambda>(F, left). splay_loop cmp elm F left (rbot R))"
  using assms root_links [OF st] splaying_root [OF st] by (subst splay_loop.simps) simp

lemma splay_loop_topdown:
  assumes "splaying M F L t R" and "t \<noteq> Leaf" and "compares cmp elm c t" and "topdown c L t R = (L', t', R')"
  shows "\<exists>F'. splay_loop cmp elm F (lbot L) (rbot R) = Some (F', lbot L', rbot R') \<and> splaying M F' L' t' R'"
  using assms
proof (induction L t R arbitrary: F rule: topdown_rounds [where c = c])
  case (Stop L l a r R)
  then show ?case using round_stop [OF Stop.prems(1), of cmp elm c] by auto
next
  case (LL L ll b lr a r R)
  obtain F1 where F1: "splaying M F1 L (Node ll b (Node lr a r)) R" "splay_loop cmp elm F (lbot L) (rbot R) =
      (if ll = Leaf then Some (F1, lbot L, rbot R) else SPLAY_LINKLEFT F1 (rbot R) \<bind> (\<lambda>(F, right). splay_loop cmp elm F (lbot L) right))"
    using round_rotate_right [OF LL.prems(1,3) LL.hyps] by blast
  then show ?case using LL.IH LL.prems(3,4) LL.hyps link_left [OF F1(1)] by fastforce
next
  case (L L ll b lr a r R)
  then show ?case using round_left [OF L.prems(1,3) L.hyps] link_left [OF L.prems(1)] by fastforce
next
  case (RR L l a rl b rr R)
  obtain F1 where F1: "splaying M F1 L (Node (Node l a rl) b rr) R" "splay_loop cmp elm F (lbot L) (rbot R) =
      (if rr = Leaf then Some (F1, lbot L, rbot R) else SPLAY_LINKRIGHT F1 (lbot L) \<bind> (\<lambda>(F, left). splay_loop cmp elm F left (rbot R)))"
    using round_rotate_left [OF RR.prems(1,3) RR.hyps] by blast
  then show ?case using RR.IH RR.prems(3,4) RR.hyps link_right [OF F1(1)] by fastforce
next
  case (R L l a rl b rr R)
  then show ?case using round_right [OF R.prems(1,3) R.hyps] link_right [OF R.prems(1)] by fastforce
qed simp

section \<open>Order\<close>

text \<open>The comparisons with elements in ascending order: first positive, at most one 0, then negative.\<close>

definition directed :: "(nat \<Rightarrow> int) \<Rightarrow> nat list \<Rightarrow> bool" where
  "directed c as \<longleftrightarrow> sorted_wrt (\<lambda>a b. (0 \<le> c b \<longrightarrow> 0 < c a) \<and> (c a \<le> 0 \<longrightarrow> c b < 0)) as"

lemma directed_mid: "directed c (as @ b # bs) \<Longrightarrow>
  (0 \<le> c b \<longrightarrow> (\<forall>a \<in> set as. 0 < c a)) \<and> (c b \<le> 0 \<longrightarrow> (\<forall>a \<in> set bs. c a < 0))"
  by (auto simp: directed_def sorted_wrt_append)

lemma topdown_inorder:
  "topdown c L t R = (L', t', R') \<Longrightarrow> lin L' @ inorder t' @ rin R' = lin L @ inorder t @ rin R"
  by (induction L t R rule: topdown_rounds [where c = c]) (auto split: if_splits)

text \<open>What is split off to a side belongs there, and the search stops for a reason.\<close>

lemma topdown_sides:
  assumes "topdown c L t R = (L', t', R')" and "t \<noteq> Leaf" and "directed c (inorder t)"
    and "\<forall>a \<in> set (lin L). 0 < c a" and "\<forall>a \<in> set (rin R). c a < 0"
  shows "(\<forall>a \<in> set (lin L'). 0 < c a) \<and> (\<forall>a \<in> set (rin R'). c a < 0) \<and>
    (\<exists>l a r. t' = Node l a r \<and> (c a = 0 \<or> c a < 0 \<and> l = Leaf \<or> 0 < c a \<and> r = Leaf))"
  using assms
proof (induction L t R rule: topdown_rounds [where c = c])
  case (LL L ll b lr a r R)
  have *: "\<forall>x \<in> set_tree r. c x < 0" "\<forall>x \<in> set_tree lr. c x < 0" "directed c (inorder ll)"
    using LL.prems(3) LL.hyps by (auto simp: directed_def sorted_wrt_append)
  then show ?case
  proof (cases "ll = Leaf")
    case False
    with * show ?thesis using LL.IH [OF False] LL.prems LL.hyps by (simp add: ball_Un)
  qed (use LL.prems LL.hyps in auto)
next
  case (L L ll b lr a r R)
  have *: "\<forall>a \<in> set (rin ((a, r) # R)). c a < 0" "directed c (inorder (Node ll b lr))"
    using L.prems(3,5) L.hyps by (auto simp: directed_def sorted_wrt_append)
  show ?case by (rule L.IH [OF _ _ *(2) L.prems(4) *(1)]) (use L.prems(1) L.hyps in simp_all)
next
  case (RR L l a rl b rr R)
  have *: "\<forall>x \<in> set_tree l. 0 < c x" "\<forall>x \<in> set_tree rl. 0 < c x" "directed c (inorder rr)"
    using RR.prems(3) RR.hyps by (auto simp: directed_def sorted_wrt_append)
  then show ?case
  proof (cases "rr = Leaf")
    case False
    with * show ?thesis using RR.IH [OF False] RR.prems RR.hyps by (simp add: ball_Un)
  qed (use RR.prems RR.hyps in auto)
next
  case (R L l a rl b rr R)
  have *: "\<forall>a \<in> set (lin ((l, a) # L)). 0 < c a" "directed c (inorder (Node rl b rr))"
    using R.prems(3,4) R.hyps by (auto simp: directed_def sorted_wrt_append)
  show ?case by (rule R.IH [OF _ _ *(2) *(1) R.prems(5)]) (use R.prems(1) R.hyps in simp_all)
qed auto

lemma splay_frame: "holds_splay M H t \<Longrightarrow> splaying M \<lparr>sf_head = H, sf_node = \<lparr>spe_left = None, spe_right = None\<rparr>\<rparr> [] t []"
  by (simp add: holds_splay_def splaying_def Let_def)

text \<open>A tree that was split and put together again has an element at its root that parts the others.\<close>

definition parted :: "(nat \<Rightarrow> int) \<Rightarrow> nat list \<Rightarrow> nat tree \<Rightarrow> nat \<Rightarrow> nat tree \<Rightarrow> bool" where
  "parted c as l a r \<longleftrightarrow> as = inorder l @ a # inorder r \<and> (\<forall>x \<in> set_tree l. 0 < c x) \<and> (\<forall>x \<in> set_tree r. c x < 0)"

lemma assemble_topdown:
  assumes td: "topdown c [] t [] = (L, t', R)" and st: "splaying M F L t' R" and "t \<noteq> Leaf" and c: "directed c (inorder t)"
  shows "\<exists>F' l a r. SPLAY_ASSEMBLE F (lbot L) (rbot R) = Some F' \<and> holds_splay M (sf_head F') (Node l a r) \<and> parted c (inorder t) l a r"
proof -
  obtain l a r where s: "\<forall>x \<in> set (lin L). 0 < c x" "\<forall>x \<in> set (rin R). c x < 0" "t' = Node l a r"
      "c a = 0 \<or> c a < 0 \<and> l = Leaf \<or> 0 < c a \<and> r = Leaf"
    using topdown_sides [OF td assms(3) c, unfolded lin.simps rin.simps list.set ball_empty] by blast
  obtain F' where F': "SPLAY_ASSEMBLE F (lbot L) (rbot R) = Some F'" "holds_splay M (sf_head F') (Node (lasm L l) a (rasm R r))"
    using assemble st s(3) by blast
  have i: "inorder t = inorder (lasm L l) @ a # inorder (rasm R r)" using topdown_inorder [OF td] s(3) by simp
  have m: "0 \<le> c a \<longrightarrow> (\<forall>x \<in> set_tree l. 0 < c x)" "c a \<le> 0 \<longrightarrow> (\<forall>x \<in> set_tree r. c x < 0)"
    using directed_mid [OF c [unfolded i]] by simp_all
  from s(4) have "\<forall>x \<in> set_tree l. 0 < c x" "\<forall>x \<in> set_tree r. c x < 0" using m by fastforce+
  then have "parted c (inorder t) (lasm L l) a (rasm R r)" using s(1,2) i by (simp add: parted_def ball_Un)
  then show ?thesis using F' by blast
qed

lemma SPLAY_at:
  assumes t: "holds_splay M H t" "t \<noteq> Leaf" and c: "compares cmp elm c t" "directed c (inorder t)"
  shows "\<exists>H' l a r. SPLAY cmp H elm = Some H' \<and> holds_splay M H' (Node l a r) \<and> parted c (inorder t) l a r"
proof -
  obtain L t' R where td: "topdown c [] t [] = (L, t', R)" by (cases "topdown c [] t []")
  obtain F where F: "splay_loop cmp elm \<lparr>sf_head = H, sf_node = \<lparr>spe_left = None, spe_right = None\<rparr>\<rparr> Local Local = Some (F, lbot L, rbot R)"
      "splaying M F L t' R"
    using splay_loop_topdown [OF splay_frame [OF t(1)] t(2) c(1) td, unfolded lbot.simps rbot.simps] by blast
  obtain F' l a r where "SPLAY_ASSEMBLE F (lbot L) (rbot R) = Some F'" "holds_splay M (sf_head F') (Node l a r)" "parted c (inorder t) l a r"
    using assemble_topdown [OF td F(2) t(2) c(2)] by blast
  then show ?thesis using F(1) by (intro exI [of _ "sf_head F'"] exI [of _ l] exI [of _ a] exI [of _ r]) (simp add: SPLAY_def)
qed

section \<open>Smallest and largest element\<close>

text \<open>
  With a direction other than 0 the loop of \<open>SPLAY_MINMAX\<close> does what that of \<open>SPLAY\<close> does for a
  constant comparison.
\<close>

lemma minmax_stop:
  assumes "splaying M F L (Node l a r) R" and "d < 0 \<and> l = Leaf \<or> 0 < d \<and> r = Leaf"
  shows "splay_minmax_loop d F (lbot L) (rbot R) = Some (F, lbot L, rbot R)"
  using assms(2) root_links [OF assms(1)] by (subst splay_minmax_loop.simps) auto

lemma minmax_rotate_right:
  assumes st: "splaying M F L (Node (Node ll b lr) a r) R" and "d < 0"
  shows "\<exists>F'. splaying M F' L (Node ll b (Node lr a r)) R \<and> splay_minmax_loop d F (lbot L) (rbot R) =
    (if ll = Leaf then Some (F', lbot L, rbot R) else SPLAY_LINKLEFT F' (rbot R) \<bind> (\<lambda>(F, rp). splay_minmax_loop d F (lbot L) rp))"
proof -
  obtain H where H: "SPLAY_ROTATE_RIGHT (sf_head F) (Some b) = Some H" "splaying M (F\<lparr>sf_head := H\<rparr>) L (Node ll b (Node lr a r)) R"
    using rotate_right [OF st] by blast
  then show ?thesis using assms(2) root_links [OF st] root_links [OF H(2), simplified]
    by (intro exI [of _ "F\<lparr>sf_head := H\<rparr>"]) (simp add: splay_minmax_loop.simps [of d F])
qed

lemma minmax_rotate_left:
  assumes st: "splaying M F L (Node l a (Node rl b rr)) R" and "0 < d"
  shows "\<exists>F'. splaying M F' L (Node (Node l a rl) b rr) R \<and> splay_minmax_loop d F (lbot L) (rbot R) =
    (if rr = Leaf then Some (F', lbot L, rbot R) else SPLAY_LINKRIGHT F' (lbot L) \<bind> (\<lambda>(F, lp). splay_minmax_loop d F lp (rbot R)))"
proof -
  obtain H where H: "SPLAY_ROTATE_LEFT (sf_head F) (Some b) = Some H" "splaying M (F\<lparr>sf_head := H\<rparr>) L (Node (Node l a rl) b rr) R"
    using rotate_left [OF st] by blast
  then show ?thesis using assms(2) root_links [OF st] root_links [OF H(2), simplified]
    by (intro exI [of _ "F\<lparr>sf_head := H\<rparr>"]) (simp add: splay_minmax_loop.simps [of d F])
qed

lemma minmax_loop_topdown:
  assumes "splaying M F L t R" and "t \<noteq> Leaf" and "d \<noteq> 0" and "topdown (\<lambda>_. d) L t R = (L', t', R')"
  shows "\<exists>F'. splay_minmax_loop d F (lbot L) (rbot R) = Some (F', lbot L', rbot R') \<and> splaying M F' L' t' R'"
  using assms
proof (induction L t R arbitrary: F rule: topdown_rounds [where c = "\<lambda>_. d"])
  case (Stop L l a r R)
  then show ?case using minmax_stop [OF Stop.prems(1), of d] by auto
next
  case (LL L ll b lr a r R)
  obtain F1 where F1: "splaying M F1 L (Node ll b (Node lr a r)) R" "splay_minmax_loop d F (lbot L) (rbot R) =
      (if ll = Leaf then Some (F1, lbot L, rbot R) else SPLAY_LINKLEFT F1 (rbot R) \<bind> (\<lambda>(F, rp). splay_minmax_loop d F (lbot L) rp))"
    using minmax_rotate_right [OF LL.prems(1) LL.hyps(1)] by blast
  then show ?case using LL.IH LL.prems(3,4) LL.hyps link_left [OF F1(1)] by fastforce
next
  case (RR L l a rl b rr R)
  obtain F1 where F1: "splaying M F1 L (Node (Node l a rl) b rr) R" "splay_minmax_loop d F (lbot L) (rbot R) =
      (if rr = Leaf then Some (F1, lbot L, rbot R) else SPLAY_LINKRIGHT F1 (lbot L) \<bind> (\<lambda>(F, lp). splay_minmax_loop d F lp (rbot R)))"
    using minmax_rotate_left [OF RR.prems(1) RR.hyps(1)] by blast
  then show ?case using RR.IH RR.prems(3,4) RR.hyps link_right [OF F1(1)] by fastforce
qed simp_all

lemma SPLAY_MINMAX_at:
  assumes t: "holds_splay M H t" "t \<noteq> Leaf" and d: "d \<noteq> 0"
  shows "\<exists>H' l a r. SPLAY_MINMAX H d = Some H' \<and> holds_splay M H' (Node l a r) \<and> parted (\<lambda>_. d) (inorder t) l a r"
proof -
  obtain L t' R where td: "topdown (\<lambda>_. d) [] t [] = (L, t', R)" by (cases "topdown (\<lambda>_. d) [] t []")
  obtain F where F: "splay_minmax_loop d \<lparr>sf_head = H, sf_node = \<lparr>spe_left = None, spe_right = None\<rparr>\<rparr> Local Local = Some (F, lbot L, rbot R)"
      "splaying M F L t' R"
    using minmax_loop_topdown [OF splay_frame [OF t(1)] t(2) d td, unfolded lbot.simps rbot.simps] by blast
  have "directed (\<lambda>_. d) (inorder t)" using d by (auto simp: directed_def intro: sorted_wrt_mono_rel [OF _ sorted_wrt_true])
  then obtain F' l a r where "SPLAY_ASSEMBLE F (lbot L) (rbot R) = Some F'" "holds_splay M (sf_head F') (Node l a r)"
      "parted (\<lambda>_. d) (inorder t) l a r"
    using assemble_topdown [OF td F(2) t(2)] by blast
  then show ?thesis using F(1) by (intro exI [of _ "sf_head F'"] exI [of _ l] exI [of _ a] exI [of _ r]) (simp add: SPLAY_MINMAX_def)
qed

text \<open>With the direction 0 it does not return.\<close>

lemma minmax_loop_zero: "splay_minmax_loop 0 F lp rp = None"
proof -
  have "d \<noteq> 0" if "splay_minmax_loop d F lp rp = Some x" for d x
    by (rule splay_minmax_loop.raw_induct [where P = "\<lambda>d F lp rp x. d \<noteq> 0", OF _ that]) (auto split: if_splits)
  then show ?thesis by (cases "splay_minmax_loop 0 F lp rp") auto
qed

end
