(* ===== verification/Nty_Tree_Insert.thy ===== *)
theory Nty_Tree_Insert
  imports Nty_Tree
begin

text \<open>
  The trees of \<open>nty_tree.h\<close> in memory, the rotations and the repair after an insertion: the loop
  ends, follows no NULL pointer, keeps the order of the elements and restores the red-black
  invariants of \<open>Rb_Shape\<close>.
\<close>

section \<open>A tree in memory\<close>

type_synonym etree = "nat rtree"
type_synonym eframe = "nat rframe"

fun tp :: "etree \<Rightarrow> elmp" where
  "tp Lf = None"
| "tp (Nd c l a r) = Some a"

fun up :: "eframe list \<Rightarrow> elmp" where
  "up [] = None"
| "up (LF c a r # cs) = Some a"
| "up (RF c l a # cs) = Some a"

definition mk_entry :: "color \<Rightarrow> elmp \<Rightarrow> elmp \<Rightarrow> elmp \<Rightarrow> rb_entry" where
  "mk_entry c l r p = \<lparr>rbe_left = l, rbe_right = r, rbe_parent = p, rbe_color = c\<rparr>"

lemma entry_simps [simp]:
  "rbe_left (mk_entry c l r p) = l" "rbe_right (mk_entry c l r p) = r"
  "rbe_parent (mk_entry c l r p) = p" "rbe_color (mk_entry c l r p) = c"
  "rbe_left_update f (mk_entry c l r p) = mk_entry c (f l) r p"
  "rbe_right_update f (mk_entry c l r p) = mk_entry c l (f r) p"
  "rbe_parent_update f (mk_entry c l r p) = mk_entry c l r (f p)"
  "rbe_color_update g (mk_entry c l r p) = mk_entry (g c) l r p"
  by (simp_all add: mk_entry_def)

lemma entry_eq [simp]: "mk_entry c l r p = mk_entry c' l' r' p' \<longleftrightarrow> c = c' \<and> l = l' \<and> r = r' \<and> p = p'"
  by (auto simp: mk_entry_def)

text \<open>The elements of \<open>t\<close> below the pointer \<open>p\<close>, and the frames around a subtree with root \<open>x\<close>.\<close>

fun stored :: "(nat \<rightharpoonup> rb_entry) \<Rightarrow> elmp \<Rightarrow> etree \<Rightarrow> bool" where
  "stored m p Lf = True"
| "stored m p (Nd c l a r) \<longleftrightarrow> m a = Some (mk_entry c (tp l) (tp r) p) \<and>
     stored m (Some a) l \<and> stored m (Some a) r"

fun cstored :: "(nat \<rightharpoonup> rb_entry) \<Rightarrow> elmp \<Rightarrow> eframe list \<Rightarrow> elmp \<Rightarrow> bool" where
  "cstored m rt [] x \<longleftrightarrow> rt = x"
| "cstored m rt (LF c a r # cs) x \<longleftrightarrow> m a = Some (mk_entry c x (tp r) (up cs)) \<and>
     stored m (Some a) r \<and> cstored m rt cs (Some a)"
| "cstored m rt (RF c l a # cs) x \<longleftrightarrow> m a = Some (mk_entry c (tp l) x (up cs)) \<and>
     stored m (Some a) l \<and> cstored m rt cs (Some a)"

text \<open>
  \<open>rb_at D H cs t\<close>: the tree of the head \<open>H\<close> is \<open>plug cs t\<close>; \<open>D\<close> are the elements there are, in the
  tree or not.
\<close>

definition rb_at :: "nat set \<Rightarrow> rb_head \<Rightarrow> eframe list \<Rightarrow> etree \<Rightarrow> bool" where
  "rb_at D H cs t \<longleftrightarrow> stored (rb_mem H) (up cs) t \<and> cstored (rb_mem H) (rbh_root H) cs (tp t) \<and>
     distinct (lpart cs @ infos t @ rpart cs) \<and> dom (rb_mem H) = D"

lemma rb_at_move: "rb_at D H (f # cs) t \<longleftrightarrow> rb_at D H cs (plug1 f t)"
  by (cases f) (auto simp: rb_at_def)

lemma rb_at_plug: "rb_at D H cs t \<longleftrightarrow> rb_at D H [] (plug cs t)"
  by (induction cs arbitrary: t) (simp_all add: rb_at_move)

lemma stored_cong: "(\<And>b. b \<in> set (infos t) \<Longrightarrow> m' b = m b) \<Longrightarrow> stored m' p t = stored m p t"
  by (induction t arbitrary: p) auto

lemma cstored_cong:
  "(\<And>b. b \<in> set (lpart cs @ rpart cs) \<Longrightarrow> m' b = m b) \<Longrightarrow> cstored m' rt cs x = cstored m rt cs x"
proof (induction cs arbitrary: x)
  case (Cons f cs)
  then show ?case using stored_cong [of _ m' m] by (cases f) auto
qed simp

lemma stored_upd [simp]: "b \<notin> set (infos t) \<Longrightarrow> stored (m(b \<mapsto> e)) p t = stored m p t"
  by (rule stored_cong) auto

lemma cstored_upd [simp]:
  "b \<notin> set (lpart cs) \<Longrightarrow> b \<notin> set (rpart cs) \<Longrightarrow> cstored (m(b \<mapsto> e)) rt cs x = cstored m rt cs x"
  by (rule cstored_cong) auto

lemma top_neq [simp]: "b \<notin> set (infos t) \<Longrightarrow> tp t \<noteq> Some b" "b \<notin> set (infos t) \<Longrightarrow> Some b \<noteq> tp t"
  by (cases t; auto)+

lemma top_None [simp]: "tp t = None \<longleftrightarrow> t = Lf" "None = tp t \<longleftrightarrow> t = Lf"
  by (cases t; simp)+

lemma above_None [simp]: "up cs = None \<longleftrightarrow> cs = []" "None = up cs \<longleftrightarrow> cs = []"
  by (cases cs rule: up.cases; simp)+

lemma stored_dom: "stored m p t \<Longrightarrow> b \<in> set (infos t) \<Longrightarrow> b \<in> dom m"
  by (induction t arbitrary: p) auto

lemmas rb_reads = RB_LEFT_def RB_RIGHT_def RB_PARENT_def RB_COLOR_def
lemmas rb_ops = rb_reads rb_write_def rb_replace_def

subsection \<open>Reading and recolouring\<close>

lemma at_elm:
  assumes "rb_at D H cs (Nd c l a r)"
  shows "RB_COLOR H (Some a) = Some c" and "RB_LEFT H (Some a) = Some (tp l)"
    and "RB_RIGHT H (Some a) = Some (tp r)" and "RB_PARENT H (Some a) = Some (up cs)"
  using assms by (auto simp: rb_at_def rb_reads)

lemma at_elm_down:
  assumes "rb_at D H cs (Nd c l a r)"
  shows "rb_at D H (LF c a r # cs) l" and "rb_at D H (RF c l a # cs) r"
  using assms by (simp_all add: rb_at_move)

lemma at_top_root: "rb_at D H [] t \<Longrightarrow> rbh_root H = tp t"
  by (simp add: rb_at_def)

lemma at_is_red: "rb_at D H cs t \<Longrightarrow> rb_is_red H (tp t) = Some (col t = RED)"
  by (cases t) (auto simp: rb_is_red_def at_elm)

lemma at_is_black: "rb_at D H cs t \<Longrightarrow> rb_is_black H (tp t) = Some (col t = BLACK)"
  by (cases t) (auto simp: rb_is_black_def at_elm)

lemma at_up_red: "rb_at D H cs t \<Longrightarrow> rb_is_red H (up cs) = Some (fcol cs = RED)"
  by (cases cs rule: up.cases) (auto simp: rb_is_red_def rb_at_move at_elm)

lemma at_distinct:
  assumes "rb_at D H cs (Nd c l a r)" and "l \<noteq> Lf \<or> r \<noteq> Lf"
  shows "tp l \<noteq> tp r"
  using assms by (cases l; cases r) (auto simp: rb_at_def)

lemma color_at:
  assumes "rb_at D H cs (Nd c l a r)"
  shows "\<exists>H'. rb_set_color H (Some a) c' = Some H' \<and> rb_at D H' cs (Nd c' l a r)"
  using assms by (auto simp: rb_at_def rb_write_def)

text \<open>Recolouring inside of the subtree of the position.\<close>

lemma color_left_at:
  assumes "rb_at D H cs (Nd c (Nd d A b B) a r)"
  shows "\<exists>H'. rb_set_color H (Some b) d' = Some H' \<and> rb_at D H' cs (Nd c (Nd d' A b B) a r)"
  using color_at [OF at_elm_down(1) [OF assms], of d'] by (simp add: rb_at_move)

lemma color_right_at:
  assumes "rb_at D H cs (Nd c l a (Nd d A b B))"
  shows "\<exists>H'. rb_set_color H (Some b) d' = Some H' \<and> rb_at D H' cs (Nd c l a (Nd d' A b B))"
  using color_at [OF at_elm_down(2) [OF assms], of d'] by (simp add: rb_at_move)

subsection \<open>Rotations\<close>

lemma rotate_left_at:
  assumes "rb_at D H cs (Nd c A x (Nd d B y C))"
  shows "\<exists>H'. RB_ROTATE_LEFT H (Some x) = Some H' \<and> rb_at D H' cs (Nd d (Nd c A x B) y C)"
proof (cases cs rule: up.cases)
  case 1
  show ?thesis using assms unfolding rb_at_def 1
    by (cases B) (auto simp: RB_ROTATE_LEFT_def rb_ops)
next
  case (2 c' a r cs')
  show ?thesis using assms unfolding rb_at_def 2
    by (cases B) (auto simp: RB_ROTATE_LEFT_def rb_ops)
next
  case (3 c' l a cs')
  show ?thesis using assms unfolding rb_at_def 3
    by (cases B) (auto simp: RB_ROTATE_LEFT_def rb_ops)
qed

lemma rotate_right_at:
  assumes "rb_at D H cs (Nd d (Nd c A x B) y C)"
  shows "\<exists>H'. RB_ROTATE_RIGHT H (Some y) = Some H' \<and> rb_at D H' cs (Nd c A x (Nd d B y C))"
proof (cases cs rule: up.cases)
  case 1
  show ?thesis using assms unfolding rb_at_def 1
    by (cases B) (auto simp: RB_ROTATE_RIGHT_def rb_ops)
next
  case (2 c' a r cs')
  show ?thesis using assms unfolding rb_at_def 2
    by (cases B) (auto simp: RB_ROTATE_RIGHT_def rb_ops)
next
  case (3 c' l a cs')
  show ?thesis using assms unfolding rb_at_def 3
    by (cases B) (auto simp: RB_ROTATE_RIGHT_def rb_ops)
qed

section \<open>The repair after an insertion\<close>

lemma blackred_left_at:
  assumes "rb_at D H cs (Nd c (Nd d A p B) g U)"
  shows "\<exists>H'. RB_SET_BLACKRED H (Some p) (Some g) = Some H' \<and> rb_at D H' cs (Nd RED (Nd BLACK A p B) g U)"
  using color_left_at [OF assms, of BLACK] color_at [of D _ cs c "Nd BLACK A p B" g U RED]
  by (auto simp: RB_SET_BLACKRED_def)

lemma blackred_right_at:
  assumes "rb_at D H cs (Nd c U g (Nd d A p B))"
  shows "\<exists>H'. RB_SET_BLACKRED H (Some p) (Some g) = Some H' \<and> rb_at D H' cs (Nd RED U g (Nd BLACK A p B))"
  using color_right_at [OF assms, of BLACK] color_at [of D _ cs c U g "Nd BLACK A p B" RED]
  by (auto simp: RB_SET_BLACKRED_def)

lemma at_parent_of_child:
  assumes "rb_at D H cs (Nd c A p B)" and "tp A = Some z \<or> tp B = Some z"
  shows "RB_PARENT H (Some z) = Some (Some p)"
proof -
  have "RB_PARENT H (tp t) = Some (up cs')" if "rb_at D H cs' t" "t \<noteq> Lf" for cs' t
    using that by (cases t) (auto simp: at_elm)
  from this [OF at_elm_down(1) [OF assms(1)]] this [OF at_elm_down(2) [OF assms(1)]] assms(2)
  show ?thesis by (cases A; cases B) auto
qed

lemma insert_color_stop:
  "rb_at D H cs (Nd c l z r) \<Longrightarrow> fcol cs = BLACK \<Longrightarrow> insert_color_loop H (Some z) = Some H"
  using at_elm(4) [of D H cs c l z r] at_up_red [of D H cs "Nd c l z r"]
  by (subst insert_color_loop.simps) simp

text \<open>The sibling of the parent is red: recolour and go on at the grandparent.\<close>

lemma insert_recolor_L:
  assumes at: "rb_at D H cs (Nd BLACK (Nd RED A p B) g (Nd RED C u E))" and z: "tp A = Some z \<or> tp B = Some z"
  shows "\<exists>H'. insert_color_loop H (Some z) = insert_color_loop H' (Some g) \<and>
           rb_at D H' cs (Nd RED (Nd BLACK A p B) g (Nd BLACK C u E))"
proof -
  obtain H1 where H1: "rb_set_color H (Some u) BLACK = Some H1"
      "rb_at D H1 cs (Nd BLACK (Nd RED A p B) g (Nd BLACK C u E))"
    using color_right_at [OF at, of BLACK] by blast
  obtain H2 where H2: "RB_SET_BLACKRED H1 (Some p) (Some g) = Some H2"
      "rb_at D H2 cs (Nd RED (Nd BLACK A p B) g (Nd BLACK C u E))"
    using blackred_left_at [OF H1(2)] by blast
  have "insert_color_loop H (Some z) = insert_color_loop H2 (Some g)"
    using at_parent_of_child [OF at_elm_down(1) [OF at] z] at_elm [OF at] at_elm [OF at_elm_down(1) [OF at]]
      at_is_red [OF at_elm_down(1) [OF at]] at_is_red [OF at_elm_down(2) [OF at]] H1(1) H2(1)
    by (subst insert_color_loop.simps) simp
  with H2(2) show ?thesis by blast
qed

lemma insert_recolor_R:
  assumes at: "rb_at D H cs (Nd BLACK (Nd RED C u E) g (Nd RED A p B))" and z: "tp A = Some z \<or> tp B = Some z"
  shows "\<exists>H'. insert_color_loop H (Some z) = insert_color_loop H' (Some g) \<and>
           rb_at D H' cs (Nd RED (Nd BLACK C u E) g (Nd BLACK A p B))"
proof -
  obtain H1 where H1: "rb_set_color H (Some u) BLACK = Some H1"
      "rb_at D H1 cs (Nd BLACK (Nd BLACK C u E) g (Nd RED A p B))"
    using color_left_at [OF at, of BLACK] by blast
  obtain H2 where H2: "RB_SET_BLACKRED H1 (Some p) (Some g) = Some H2"
      "rb_at D H2 cs (Nd RED (Nd BLACK C u E) g (Nd BLACK A p B))"
    using blackred_right_at [OF H1(2)] by blast
  have "insert_color_loop H (Some z) = insert_color_loop H2 (Some g)"
    using at_parent_of_child [OF at_elm_down(2) [OF at] z] at_elm [OF at] at_elm [OF at_elm_down(2) [OF at]]
      at_is_red [OF at_elm_down(1) [OF at]] at_is_red [OF at_elm_down(2) [OF at]] at_distinct [OF at] H1(1) H2(1)
    by (subst insert_color_loop.simps) simp
  with H2(2) show ?thesis by blast
qed

text \<open>
  It is black. The last steps of the iteration, with the new element outside of the parent, after
  which the loop stops.
\<close>

lemma insert_last_L:
  assumes at: "rb_at D H cs (Nd BLACK (Nd RED (Nd RED l z r) p B) g U)"
  obtains H1 H2 where "RB_SET_BLACKRED H (Some p) (Some g) = Some H1" and "RB_ROTATE_RIGHT H1 (Some g) = Some H2"
    and "insert_color_loop H2 (Some z) = Some H2" and "rb_at D H2 cs (Nd BLACK (Nd RED l z r) p (Nd RED B g U))"
proof -
  obtain H1 where H1: "RB_SET_BLACKRED H (Some p) (Some g) = Some H1"
      "rb_at D H1 cs (Nd RED (Nd BLACK (Nd RED l z r) p B) g U)"
    using blackred_left_at [OF at] by blast
  obtain H2 where H2: "RB_ROTATE_RIGHT H1 (Some g) = Some H2"
      "rb_at D H2 cs (Nd BLACK (Nd RED l z r) p (Nd RED B g U))"
    using rotate_right_at [OF H1(2)] by blast
  show thesis
    by (rule that [OF H1(1) H2(1) insert_color_stop [OF at_elm_down(1) [OF H2(2)]] H2(2)]) simp
qed

lemma insert_last_R:
  assumes at: "rb_at D H cs (Nd BLACK U g (Nd RED B p (Nd RED l z r)))"
  obtains H1 H2 where "RB_SET_BLACKRED H (Some p) (Some g) = Some H1" and "RB_ROTATE_LEFT H1 (Some g) = Some H2"
    and "insert_color_loop H2 (Some z) = Some H2" and "rb_at D H2 cs (Nd BLACK (Nd RED U g B) p (Nd RED l z r))"
proof -
  obtain H1 where H1: "RB_SET_BLACKRED H (Some p) (Some g) = Some H1"
      "rb_at D H1 cs (Nd RED U g (Nd BLACK B p (Nd RED l z r)))"
    using blackred_right_at [OF at] by blast
  obtain H2 where H2: "RB_ROTATE_LEFT H1 (Some g) = Some H2"
      "rb_at D H2 cs (Nd BLACK (Nd RED U g B) p (Nd RED l z r))"
    using rotate_left_at [OF H1(2)] by blast
  show thesis
    by (rule that [OF H1(1) H2(1) insert_color_stop [OF at_elm_down(2) [OF H2(2)]] H2(2)]) simp
qed

lemma insert_LL:
  assumes at: "rb_at D H cs (Nd BLACK (Nd RED (Nd RED l z r) p B) g U)" and U: "col U = BLACK"
  shows "\<exists>H'. insert_color_loop H (Some z) = Some H' \<and> rb_at D H' cs (Nd BLACK (Nd RED l z r) p (Nd RED B g U))"
proof -
  note p = at_elm_down(1) [OF at]
  obtain H1 H2 where H: "RB_SET_BLACKRED H (Some p) (Some g) = Some H1" "RB_ROTATE_RIGHT H1 (Some g) = Some H2"
      "insert_color_loop H2 (Some z) = Some H2" "rb_at D H2 cs (Nd BLACK (Nd RED l z r) p (Nd RED B g U))"
    by (rule insert_last_L [OF at])
  have "insert_color_loop H (Some z) = Some H2"
    using at_elm [OF at] at_elm [OF p] at_elm(4) [OF at_elm_down(1) [OF p]] at_is_red [OF p]
      at_is_red [OF at_elm_down(2) [OF at]] U at_distinct [OF p] H(1-3)
    by (subst insert_color_loop.simps) simp
  with H(4) show ?thesis by blast
qed

lemma insert_LR:
  assumes at: "rb_at D H cs (Nd BLACK (Nd RED A p (Nd RED l z r)) g U)" and U: "col U = BLACK"
  shows "\<exists>H'. insert_color_loop H (Some z) = Some H' \<and> rb_at D H' cs (Nd BLACK (Nd RED A p l) z (Nd RED r g U))"
proof -
  note p = at_elm_down(1) [OF at]
  obtain H0 where H0: "RB_ROTATE_LEFT H (Some p) = Some H0"
      "rb_at D H0 cs (Nd BLACK (Nd RED (Nd RED A p l) z r) g U)"
    using rotate_left_at [OF p] by (auto simp: rb_at_move)
  obtain H1 H2 where H: "RB_SET_BLACKRED H0 (Some z) (Some g) = Some H1" "RB_ROTATE_RIGHT H1 (Some g) = Some H2"
      "insert_color_loop H2 (Some p) = Some H2" "rb_at D H2 cs (Nd BLACK (Nd RED A p l) z (Nd RED r g U))"
    by (rule insert_last_L [OF H0(2)])
  have "insert_color_loop H (Some z) = Some H2"
    using at_elm [OF at] at_elm [OF p] at_elm(4) [OF at_elm_down(2) [OF p]] at_is_red [OF p]
      at_is_red [OF at_elm_down(2) [OF at]] U H0(1) H(1-3)
    by (subst insert_color_loop.simps) simp
  with H(4) show ?thesis by blast
qed

lemma insert_RR:
  assumes at: "rb_at D H cs (Nd BLACK U g (Nd RED B p (Nd RED l z r)))" and U: "col U = BLACK"
  shows "\<exists>H'. insert_color_loop H (Some z) = Some H' \<and> rb_at D H' cs (Nd BLACK (Nd RED U g B) p (Nd RED l z r))"
proof -
  note p = at_elm_down(2) [OF at]
  obtain H1 H2 where H: "RB_SET_BLACKRED H (Some p) (Some g) = Some H1" "RB_ROTATE_LEFT H1 (Some g) = Some H2"
      "insert_color_loop H2 (Some z) = Some H2" "rb_at D H2 cs (Nd BLACK (Nd RED U g B) p (Nd RED l z r))"
    by (rule insert_last_R [OF at])
  have "insert_color_loop H (Some z) = Some H2"
    using at_elm [OF at] at_elm [OF p] at_elm(4) [OF at_elm_down(2) [OF p]] at_is_red [OF p] at_distinct [OF at]
      at_is_red [OF at_elm_down(1) [OF at]] U at_distinct [OF p] H(1-3)
    by (subst insert_color_loop.simps) simp
  with H(4) show ?thesis by blast
qed

lemma insert_RL:
  assumes at: "rb_at D H cs (Nd BLACK U g (Nd RED (Nd RED l z r) p A))" and U: "col U = BLACK"
  shows "\<exists>H'. insert_color_loop H (Some z) = Some H' \<and> rb_at D H' cs (Nd BLACK (Nd RED U g l) z (Nd RED r p A))"
proof -
  note p = at_elm_down(2) [OF at]
  obtain H0 where H0: "RB_ROTATE_RIGHT H (Some p) = Some H0"
      "rb_at D H0 cs (Nd BLACK U g (Nd RED l z (Nd RED r p A)))"
    using rotate_right_at [OF p] by (auto simp: rb_at_move)
  obtain H1 H2 where H: "RB_SET_BLACKRED H0 (Some z) (Some g) = Some H1" "RB_ROTATE_LEFT H1 (Some g) = Some H2"
      "insert_color_loop H2 (Some p) = Some H2" "rb_at D H2 cs (Nd BLACK (Nd RED U g l) z (Nd RED r p A))"
    by (rule insert_last_R [OF H0(2)])
  have "insert_color_loop H (Some z) = Some H2"
    using at_elm [OF at] at_elm [OF p] at_elm(4) [OF at_elm_down(1) [OF p]] at_is_red [OF p] at_distinct [OF at]
      at_is_red [OF at_elm_down(1) [OF at]] U H0(1) H(1-3)
    by (subst insert_color_loop.simps) simp
  with H(4) show ?thesis by blast
qed

text \<open>
  An iteration below a red parent ends the loop with a valid subtree in place of \<open>t\<close>, or goes on at
  the red root of such a subtree.
\<close>

definition insert_done :: "nat set \<Rightarrow> rb_head \<Rightarrow> nat \<Rightarrow> eframe list \<Rightarrow> etree \<Rightarrow> bool" where
  "insert_done D H z cs t \<longleftrightarrow> (\<exists>H' t'. insert_color_loop H (Some z) = Some H' \<and> rb_at D H' cs t' \<and>
     infos t' = infos t \<and> invc t' \<and> invh t' \<and> cinv (bh t') cs \<and> col t' = BLACK)"

definition insert_goes_up :: "nat set \<Rightarrow> rb_head \<Rightarrow> nat \<Rightarrow> eframe list \<Rightarrow> etree \<Rightarrow> bool" where
  "insert_goes_up D H z cs t \<longleftrightarrow> (\<exists>H' L y R. insert_color_loop H (Some z) = insert_color_loop H' (Some y) \<and>
     rb_at D H' cs (Nd RED L y R) \<and> infos (Nd RED L y R) = infos t \<and>
     invc (Nd RED L y R) \<and> invh (Nd RED L y R) \<and> cinv (bh L) cs)"

lemma insert_doneI:
  "\<exists>H'. insert_color_loop H (Some z) = Some H' \<and> rb_at D H' cs t' \<Longrightarrow> infos t' = infos t \<Longrightarrow>
     invc t' \<Longrightarrow> invh t' \<Longrightarrow> cinv (bh t') cs \<Longrightarrow> col t' = BLACK \<Longrightarrow> insert_done D H z cs t"
  unfolding insert_done_def by blast

lemma insert_goes_upI:
  "\<exists>H'. insert_color_loop H (Some z) = insert_color_loop H' (Some y) \<and> rb_at D H' cs (Nd RED L y R) \<Longrightarrow>
     infos (Nd RED L y R) = infos t \<Longrightarrow> invc (Nd RED L y R) \<Longrightarrow> invh (Nd RED L y R) \<Longrightarrow>
     cinv (bh L) cs \<Longrightarrow> insert_goes_up D H z cs t"
  unfolding insert_goes_up_def by blast

lemma insert_iteration_L:
  assumes at: "rb_at D H (f # LF BLACK g U # cs) (Nd RED l z r)" and red: "fcol (f # cs) = RED"
    and inv: "invc (Nd RED l z r)" "invh (Nd RED l z r)" "cinv (bh l) (f # LF BLACK g U # cs)"
  shows "insert_done D H z cs (plug [f, LF BLACK g U] (Nd RED l z r)) \<or>
         insert_goes_up D H z cs (plug [f, LF BLACK g U] (Nd RED l z r))"
proof (cases "col U")
  case RED
  then obtain C u E where U: "U = Nd RED C u E" by (cases U) auto
  have "insert_goes_up D H z cs (plug [f, LF BLACK g U] (Nd RED l z r))"
  proof (cases f)
    case (LF c p B)
    then have "rb_at D H cs (Nd BLACK (Nd RED (Nd RED l z r) p B) g U)" using at red by (simp add: rb_at_move)
    from insert_goes_upI [OF insert_recolor_L [OF this [unfolded U]]] show ?thesis using inv red LF U by auto
  next
    case (RF c A p)
    then have "rb_at D H cs (Nd BLACK (Nd RED A p (Nd RED l z r)) g U)" using at red by (simp add: rb_at_move)
    from insert_goes_upI [OF insert_recolor_L [OF this [unfolded U]]] show ?thesis using inv red RF U by auto
  qed
  then show ?thesis ..
next
  case U: BLACK
  have "insert_done D H z cs (plug [f, LF BLACK g U] (Nd RED l z r))"
  proof (cases f)
    case (LF c p B)
    then have "rb_at D H cs (Nd BLACK (Nd RED (Nd RED l z r) p B) g U)" using at red by (simp add: rb_at_move)
    from insert_doneI [OF insert_LL [OF this U]] show ?thesis using inv red LF U by auto
  next
    case (RF c A p)
    then have "rb_at D H cs (Nd BLACK (Nd RED A p (Nd RED l z r)) g U)" using at red by (simp add: rb_at_move)
    from insert_doneI [OF insert_LR [OF this U]] show ?thesis using inv red RF U by auto
  qed
  then show ?thesis ..
qed

lemma insert_iteration_R:
  assumes at: "rb_at D H (f # RF BLACK U g # cs) (Nd RED l z r)" and red: "fcol (f # cs) = RED"
    and inv: "invc (Nd RED l z r)" "invh (Nd RED l z r)" "cinv (bh l) (f # RF BLACK U g # cs)"
  shows "insert_done D H z cs (plug [f, RF BLACK U g] (Nd RED l z r)) \<or>
         insert_goes_up D H z cs (plug [f, RF BLACK U g] (Nd RED l z r))"
proof (cases "col U")
  case RED
  then obtain C u E where U: "U = Nd RED C u E" by (cases U) auto
  have "insert_goes_up D H z cs (plug [f, RF BLACK U g] (Nd RED l z r))"
  proof (cases f)
    case (LF c p B)
    then have "rb_at D H cs (Nd BLACK U g (Nd RED (Nd RED l z r) p B))" using at red by (simp add: rb_at_move)
    from insert_goes_upI [OF insert_recolor_R [OF this [unfolded U]]] show ?thesis using inv red LF U by auto
  next
    case (RF c A p)
    then have "rb_at D H cs (Nd BLACK U g (Nd RED A p (Nd RED l z r)))" using at red by (simp add: rb_at_move)
    from insert_goes_upI [OF insert_recolor_R [OF this [unfolded U]]] show ?thesis using inv red RF U by auto
  qed
  then show ?thesis ..
next
  case U: BLACK
  have "insert_done D H z cs (plug [f, RF BLACK U g] (Nd RED l z r))"
  proof (cases f)
    case (LF c p B)
    then have "rb_at D H cs (Nd BLACK U g (Nd RED (Nd RED l z r) p B))" using at red by (simp add: rb_at_move)
    from insert_doneI [OF insert_RL [OF this U]] show ?thesis using inv red LF U by auto
  next
    case (RF c A p)
    then have "rb_at D H cs (Nd BLACK U g (Nd RED A p (Nd RED l z r)))" using at red by (simp add: rb_at_move)
    from insert_doneI [OF insert_RR [OF this U]] show ?thesis using inv red RF U by auto
  qed
  then show ?thesis ..
qed

text \<open>The whole loop, by induction on the distance to the root.\<close>

definition insert_repairs :: "nat set \<Rightarrow> rb_head \<Rightarrow> nat \<Rightarrow> nat list \<Rightarrow> bool" where
  "insert_repairs D H z as \<longleftrightarrow> (\<exists>H' t'. insert_color_loop H (Some z) = Some H' \<and> rb_at D H' [] t' \<and>
     infos t' = as \<and> invc t' \<and> invh t')"

lemma insert_repairsI:
  assumes "insert_color_loop H (Some z) = Some H'" and "rb_at D H' cs t'" and "invc t'" and "invh t'"
    and "cinv (bh t') cs" and "col t' = RED \<longrightarrow> fcol cs = BLACK" and "infos t' = infos t"
  shows "insert_repairs D H z (infos (plug cs t))"
proof -
  have "invc (plug cs t') \<and> invh (plug cs t')" using plug_inv [of t' cs] assms(3-6) by blast
  moreover have "rb_at D H' [] (plug cs t')" using assms(2) rb_at_plug by blast
  moreover have "infos (plug cs t') = infos (plug cs t)" using assms(7) by (simp add: infos_plug)
  ultimately show ?thesis unfolding insert_repairs_def using assms(1) by blast
qed

lemma insert_color_loop_at:
  assumes "rb_at D H cs (Nd RED l z r)" and "invc (Nd RED l z r)" and "invh (Nd RED l z r)" and "cinv (bh l) cs"
  shows "insert_repairs D H z (infos (plug cs (Nd RED l z r)))"
  using assms
proof (induction "length cs" arbitrary: cs H l z r rule: less_induct)
  case less
  show ?case
  proof (cases "fcol cs = BLACK")
    case True
    then show ?thesis
      using less.prems by (intro insert_repairsI [OF insert_color_stop [OF less.prems(1)] less.prems(1)]) auto
  next
    case red: False
    then obtain f g cs' where cs: "cs = f # g # cs'" and fg: "fcol (f # cs') = RED" "fcol (g # cs') = BLACK"
      using red_frames [OF less.prems(4)] by blast
    let ?t = "plug [f, g] (Nd RED l z r)"
    have "insert_done D H z cs' ?t \<or> insert_goes_up D H z cs' ?t"
    proof (cases g)
      case (LF c a t)
      then show ?thesis using insert_iteration_L [of D H f a t cs' l z r] less.prems fg cs by simp
    next
      case (RF c t a)
      then show ?thesis using insert_iteration_R [of D H f t a cs' l z r] less.prems fg cs by simp
    qed
    then show ?thesis
    proof
      assume "insert_done D H z cs' ?t"
      then have "insert_repairs D H z (infos (plug cs' ?t))"
        unfolding insert_done_def by (elim exE conjE) (erule insert_repairsI; assumption?; simp)
      then show ?thesis by (simp add: cs)
    next
      assume "insert_goes_up D H z cs' ?t"
      then obtain H1 L y R where 1: "insert_color_loop H (Some z) = insert_color_loop H1 (Some y)"
          "rb_at D H1 cs' (Nd RED L y R)" "infos (Nd RED L y R) = infos ?t"
          "invc (Nd RED L y R)" "invh (Nd RED L y R)" "cinv (bh L) cs'"
        unfolding insert_goes_up_def by blast
      have "insert_repairs D H1 y (infos (plug cs' (Nd RED L y R)))"
        by (rule less.hyps [OF _ 1(2,4-6)]) (simp add: cs)
      moreover have "infos (plug cs' (Nd RED L y R)) = infos (plug cs (Nd RED l z r))"
        using 1(3) by (simp only: cs plug.simps infos_plug)
      ultimately show ?thesis using 1(1) by (simp add: insert_repairs_def)
    qed
  qed
qed

lemma RB_INSERT_COLOR_at:
  assumes "rb_at D H cs (Nd RED Lf z Lf)" and "cinv 0 cs"
  shows "\<exists>H' t'. RB_INSERT_COLOR H (Some z) = Some H' \<and> rb_at D H' [] t' \<and>
           infos t' = lpart cs @ z # rpart cs \<and> rb_ok t'"
proof -
  obtain H1 t1 where H1: "insert_color_loop H (Some z) = Some H1" "rb_at D H1 [] t1"
      "infos t1 = lpart cs @ z # rpart cs" "invc t1" "invh t1"
    using insert_color_loop_at [OF assms(1)] assms(2) by (auto simp: insert_repairs_def infos_plug)
  then obtain c l a r where t1: "t1 = Nd c l a r" by (cases t1) auto
  obtain H2 where "rb_set_color H1 (Some a) BLACK = Some H2" "rb_at D H2 [] (Nd BLACK l a r)"
    using color_at [OF H1(2) [unfolded t1]] by blast
  then show ?thesis using H1 at_top_root [OF H1(2)]
    by (intro exI [of _ H2] exI [of _ "Nd BLACK l a r"]) (auto simp: RB_INSERT_COLOR_def t1 rb_ok_def)
qed

end
