(* ===== verification/Nty_Tree_Remove.thy ===== *)
theory Nty_Tree_Remove
  imports Nty_Tree_Insert
begin

text \<open>
  Removal from the trees of \<open>nty_tree.h\<close>: the element that is left out or replaced by its successor,
  and the repair loop, which ends and restores the red-black invariants.
\<close>

section \<open>The repair loop, step by step\<close>

text \<open>
  The loop stands at a subtree that is one black element short, \<open>parent\<close> is the element above it. A
  leaf has no parent pointer, which is why the loop carries it.
\<close>

lemma cstored_root: "cstored m rt cs x \<Longrightarrow> cs \<noteq> [] \<Longrightarrow> rt \<in> Some ` set (lpart cs @ rpart cs)"
proof (induction cs arbitrary: x)
  case (Cons f cs)
  then show ?case by (cases f; cases "cs = []") auto
qed simp

lemma not_root: "rb_at D H (f # cs) t \<Longrightarrow> tp t \<noteq> rbh_root H"
  using cstored_root [of "rb_mem H" "rbh_root H" "f # cs" "tp t"]
  by (cases t) (auto simp: rb_at_def)

text \<open>The sibling is red: a rotation gives the position a black sibling, and the iteration goes on.\<close>

lemma remove_red_sibling_L:
  assumes at: "rb_at D H cs (Nd BLACK t p (Nd RED (Nd BLACK A u B) w WR))" and t: "col t = BLACK"
  shows "\<exists>H'. remove_color_loop H (Some p) (tp t) = remove_color_loop H' (Some p) (tp t) \<and>
           rb_at D H' (LF BLACK w WR # cs) (Nd RED t p (Nd BLACK A u B))"
proof -
  obtain H1 where H1: "RB_SET_BLACKRED H (Some w) (Some p) = Some H1"
      "rb_at D H1 cs (Nd RED t p (Nd BLACK (Nd BLACK A u B) w WR))"
    using blackred_right_at [OF at] by blast
  obtain H2 where H2: "RB_ROTATE_LEFT H1 (Some p) = Some H2" and at2: "rb_at D H2 (LF BLACK w WR # cs) (Nd RED t p (Nd BLACK A u B))"
    using rotate_left_at [OF H1(2)] by (auto simp: rb_at_move)
  have "remove_color_loop H (Some p) (tp t) = remove_color_loop H2 (Some p) (tp t)"
    using t at_elm [OF at] at_elm [OF at_elm_down(2) [OF at]] at_is_black [OF at_elm_down(1) [OF at]]
      not_root [OF at_elm_down(1) [OF at]] H1(1) H2
      at_elm [OF at2] at_elm [OF at_elm_down(2) [OF at2]] at_is_black [OF at_elm_down(1) [OF at2]]
      not_root [OF at_elm_down(1) [OF at2]]
    by (subst (1 2) remove_color_loop.simps) simp
  with at2 show ?thesis by blast
qed

lemma remove_red_sibling_R:
  assumes at: "rb_at D H cs (Nd BLACK (Nd RED WR w (Nd BLACK B u A)) p t)" and t: "col t = BLACK"
  shows "\<exists>H'. remove_color_loop H (Some p) (tp t) = remove_color_loop H' (Some p) (tp t) \<and>
           rb_at D H' (RF BLACK WR w # cs) (Nd RED (Nd BLACK B u A) p t)"
proof -
  obtain H1 where H1: "RB_SET_BLACKRED H (Some w) (Some p) = Some H1"
      "rb_at D H1 cs (Nd RED (Nd BLACK WR w (Nd BLACK B u A)) p t)"
    using blackred_left_at [OF at] by blast
  obtain H2 where H2: "RB_ROTATE_RIGHT H1 (Some p) = Some H2" and at2: "rb_at D H2 (RF BLACK WR w # cs) (Nd RED (Nd BLACK B u A) p t)"
    using rotate_right_at [OF H1(2)] by (auto simp: rb_at_move)
  have "remove_color_loop H (Some p) (tp t) = remove_color_loop H2 (Some p) (tp t)"
    using t at_elm [OF at] at_elm [OF at_elm_down(1) [OF at]] at_is_black [OF at_elm_down(2) [OF at]]
      not_root [OF at_elm_down(2) [OF at]] H1(1) H2 at_distinct [OF at] at_distinct [OF at2]
      at_elm [OF at2] at_elm [OF at_elm_down(1) [OF at2]] at_is_black [OF at_elm_down(2) [OF at2]]
      not_root [OF at_elm_down(2) [OF at2]]
    by (subst (1 2) remove_color_loop.simps) simp
  with at2 show ?thesis by blast
qed

text \<open>The sibling and its children are black: it becomes red and the loop goes on at the parent.\<close>

lemma remove_black_nephews_L:
  assumes at: "rb_at D H cs (Nd cp t p (Nd BLACK WL w WR))" and t: "col t = BLACK"
    and W: "col WL = BLACK" "col WR = BLACK"
  shows "\<exists>H'. remove_color_loop H (Some p) (tp t) = remove_color_loop H' (up cs) (Some p) \<and>
           rb_at D H' cs (Nd cp t p (Nd RED WL w WR))"
proof -
  note w = at_elm_down(2) [OF at]
  obtain H1 where H1: "rb_set_color H (Some w) RED = Some H1" "rb_at D H1 cs (Nd cp t p (Nd RED WL w WR))"
    using color_right_at [OF at, of RED] by blast
  have "remove_color_loop H (Some p) (tp t) = remove_color_loop H1 (up cs) (Some p)"
    using t W at_elm [OF at] at_elm [OF w] at_is_black [OF at_elm_down(1) [OF at]]
      not_root [OF at_elm_down(1) [OF at]] H1(1) at_elm [OF H1(2)]
      at_is_black [OF at_elm_down(1) [OF w]] at_is_black [OF at_elm_down(2) [OF w]]
    by (subst remove_color_loop.simps) simp
  with H1(2) show ?thesis by blast
qed

lemma remove_black_nephews_R:
  assumes at: "rb_at D H cs (Nd cp (Nd BLACK WR w WL) p t)" and t: "col t = BLACK"
    and W: "col WL = BLACK" "col WR = BLACK"
  shows "\<exists>H'. remove_color_loop H (Some p) (tp t) = remove_color_loop H' (up cs) (Some p) \<and>
           rb_at D H' cs (Nd cp (Nd RED WR w WL) p t)"
proof -
  note w = at_elm_down(1) [OF at]
  obtain H1 where H1: "rb_set_color H (Some w) RED = Some H1" "rb_at D H1 cs (Nd cp (Nd RED WR w WL) p t)"
    using color_left_at [OF at, of RED] by blast
  have "remove_color_loop H (Some p) (tp t) = remove_color_loop H1 (up cs) (Some p)"
    using t W at_elm [OF at] at_elm [OF w] at_is_black [OF at_elm_down(2) [OF at]]
      not_root [OF at_elm_down(2) [OF at]] H1(1) at_elm [OF H1(2)] at_distinct [OF at]
      at_is_black [OF at_elm_down(1) [OF w]] at_is_black [OF at_elm_down(2) [OF w]]
    by (subst remove_color_loop.simps) simp
  with H1(2) show ?thesis by blast
qed

text \<open>The inner child of the sibling is red and the outer one black: a rotation makes the outer one red.\<close>

lemma remove_inner_nephew_L:
  assumes at: "rb_at D H cs (Nd cp t p (Nd BLACK (Nd RED A u B) w WR))" and t: "col t = BLACK"
    and W: "col WR = BLACK"
  shows "\<exists>H'. remove_color_loop H (Some p) (tp t) = remove_color_loop H' (Some p) (tp t) \<and>
           rb_at D H' cs (Nd cp t p (Nd BLACK A u (Nd RED B w WR)))"
proof -
  note w = at_elm_down(2) [OF at]
  obtain H1 where H1: "rb_set_color H (Some u) BLACK = Some H1"
      "rb_at D H1 (RF cp t p # cs) (Nd BLACK (Nd BLACK A u B) w WR)"
    using color_left_at [OF w, of BLACK] by blast
  obtain H2 where H2: "rb_set_color H1 (Some w) RED = Some H2" "rb_at D H2 (RF cp t p # cs) (Nd RED (Nd BLACK A u B) w WR)"
    using color_at [OF H1(2), of RED] by blast
  obtain H3 where H3: "RB_ROTATE_RIGHT H2 (Some w) = Some H3" and at3: "rb_at D H3 cs (Nd cp t p (Nd BLACK A u (Nd RED B w WR)))"
    using rotate_right_at [OF H2(2)] by (auto simp: rb_at_move)
  note u = at_elm_down(2) [OF at3]
  have "remove_color_loop H (Some p) (tp t) = remove_color_loop H3 (Some p) (tp t)"
    using t W at_elm [OF at] at_elm [OF w] at_is_black [OF at_elm_down(1) [OF at]]
      not_root [OF at_elm_down(1) [OF at]] H1(1) H2(1) H3
      at_is_black [OF at_elm_down(1) [OF w]] at_is_black [OF at_elm_down(2) [OF w]]
      at_elm [OF at3] at_elm [OF u] at_is_black [OF at_elm_down(1) [OF at3]] not_root [OF at_elm_down(1) [OF at3]]
      at_is_black [OF at_elm_down(1) [OF u]] at_is_black [OF at_elm_down(2) [OF u]]
    by (subst (1 2) remove_color_loop.simps) simp
  with at3 show ?thesis by blast
qed

lemma remove_inner_nephew_R:
  assumes at: "rb_at D H cs (Nd cp (Nd BLACK WR w (Nd RED B u A)) p t)" and t: "col t = BLACK"
    and W: "col WR = BLACK"
  shows "\<exists>H'. remove_color_loop H (Some p) (tp t) = remove_color_loop H' (Some p) (tp t) \<and>
           rb_at D H' cs (Nd cp (Nd BLACK (Nd RED WR w B) u A) p t)"
proof -
  note w = at_elm_down(1) [OF at]
  obtain H1 where H1: "rb_set_color H (Some u) BLACK = Some H1"
      "rb_at D H1 (LF cp p t # cs) (Nd BLACK WR w (Nd BLACK B u A))"
    using color_right_at [OF w, of BLACK] by blast
  obtain H2 where H2: "rb_set_color H1 (Some w) RED = Some H2" "rb_at D H2 (LF cp p t # cs) (Nd RED WR w (Nd BLACK B u A))"
    using color_at [OF H1(2), of RED] by blast
  obtain H3 where H3: "RB_ROTATE_LEFT H2 (Some w) = Some H3" and at3: "rb_at D H3 cs (Nd cp (Nd BLACK (Nd RED WR w B) u A) p t)"
    using rotate_left_at [OF H2(2)] by (auto simp: rb_at_move)
  note u = at_elm_down(1) [OF at3]
  have "remove_color_loop H (Some p) (tp t) = remove_color_loop H3 (Some p) (tp t)"
    using t W at_elm [OF at] at_elm [OF w] at_is_black [OF at_elm_down(2) [OF at]]
      not_root [OF at_elm_down(2) [OF at]] H1(1) H2(1) H3 at_distinct [OF at] at_distinct [OF at3]
      at_is_black [OF at_elm_down(1) [OF w]] at_is_black [OF at_elm_down(2) [OF w]]
      at_elm [OF at3] at_elm [OF u] at_is_black [OF at_elm_down(2) [OF at3]] not_root [OF at_elm_down(2) [OF at3]]
      at_is_black [OF at_elm_down(1) [OF u]] at_is_black [OF at_elm_down(2) [OF u]]
    by (subst (1 2) remove_color_loop.simps) simp
  with at3 show ?thesis by blast
qed

text \<open>The outer child of the sibling is red: a last rotation, and the loop ends at the root.\<close>

lemma remove_outer_nephew_L:
  assumes at: "rb_at D H cs (Nd cp t p (Nd BLACK WL w (Nd RED C v E)))" and t: "col t = BLACK"
  shows "\<exists>H'. remove_color_loop H (Some p) (tp t) = Some (H', rbh_root H') \<and>
           rb_at D H' cs (Nd cp (Nd BLACK t p WL) w (Nd BLACK C v E))"
proof -
  note w = at_elm_down(2) [OF at]
  obtain H1 where H1: "rb_set_color H (Some w) cp = Some H1" "rb_at D H1 cs (Nd cp t p (Nd cp WL w (Nd RED C v E)))"
    using color_right_at [OF at, of cp] by blast
  obtain H2 where H2: "rb_set_color H1 (Some p) BLACK = Some H2" "rb_at D H2 cs (Nd BLACK t p (Nd cp WL w (Nd RED C v E)))"
    using color_at [OF H1(2), of BLACK] by blast
  obtain H3 where H3: "rb_set_color H2 (Some v) BLACK = Some H3" "rb_at D H3 cs (Nd BLACK t p (Nd cp WL w (Nd BLACK C v E)))"
    using color_right_at [OF at_elm_down(2) [OF H2(2)], of BLACK] by (auto simp: rb_at_move)
  obtain H4 where H4: "RB_ROTATE_LEFT H3 (Some p) = Some H4" "rb_at D H4 cs (Nd cp (Nd BLACK t p WL) w (Nd BLACK C v E))"
    using rotate_left_at [OF H3(2)] by blast
  have "RB_RIGHT H2 (Some w) = Some (Some v)" using at_elm(3) [OF at_elm_down(2) [OF H2(2)]] by simp
  then have "remove_color_loop H (Some p) (tp t) = Some (H4, rbh_root H4)"
    using t at_elm [OF at] at_elm [OF w] at_is_black [OF at_elm_down(1) [OF at]]
      not_root [OF at_elm_down(1) [OF at]] H1(1) H2(1) H3(1) H4(1)
      at_is_black [OF at_elm_down(1) [OF w]] at_is_black [OF at_elm_down(2) [OF w]]
    by (subst remove_color_loop.simps) simp
  with H4(2) show ?thesis by blast
qed

lemma remove_outer_nephew_R:
  assumes at: "rb_at D H cs (Nd cp (Nd BLACK (Nd RED E v C) w WL) p t)" and t: "col t = BLACK"
  shows "\<exists>H'. remove_color_loop H (Some p) (tp t) = Some (H', rbh_root H') \<and>
           rb_at D H' cs (Nd cp (Nd BLACK E v C) w (Nd BLACK WL p t))"
proof -
  note w = at_elm_down(1) [OF at]
  obtain H1 where H1: "rb_set_color H (Some w) cp = Some H1" "rb_at D H1 cs (Nd cp (Nd cp (Nd RED E v C) w WL) p t)"
    using color_left_at [OF at, of cp] by blast
  obtain H2 where H2: "rb_set_color H1 (Some p) BLACK = Some H2" "rb_at D H2 cs (Nd BLACK (Nd cp (Nd RED E v C) w WL) p t)"
    using color_at [OF H1(2), of BLACK] by blast
  obtain H3 where H3: "rb_set_color H2 (Some v) BLACK = Some H3" "rb_at D H3 cs (Nd BLACK (Nd cp (Nd BLACK E v C) w WL) p t)"
    using color_left_at [OF at_elm_down(1) [OF H2(2)], of BLACK] by (auto simp: rb_at_move)
  obtain H4 where H4: "RB_ROTATE_RIGHT H3 (Some p) = Some H4" "rb_at D H4 cs (Nd cp (Nd BLACK E v C) w (Nd BLACK WL p t))"
    using rotate_right_at [OF H3(2)] by blast
  have "RB_LEFT H2 (Some w) = Some (Some v)" using at_elm(2) [OF at_elm_down(1) [OF H2(2)]] by simp
  then have "remove_color_loop H (Some p) (tp t) = Some (H4, rbh_root H4)"
    using t at_elm [OF at] at_elm [OF w] at_is_black [OF at_elm_down(2) [OF at]]
      not_root [OF at_elm_down(2) [OF at]] H1(1) H2(1) H3(1) H4(1) at_distinct [OF at]
      at_is_black [OF at_elm_down(1) [OF w]] at_is_black [OF at_elm_down(2) [OF w]]
    by (subst remove_color_loop.simps) simp
  with H4(2) show ?thesis by blast
qed

section \<open>The repair loop as a whole\<close>

text \<open>
  Where the loop leaves: at the root, or at a red element; colouring it black makes the tree valid.
  \<open>as\<close> are the elements in order.
\<close>

definition remove_ends :: "nat set \<Rightarrow> rb_head \<Rightarrow> elmp \<Rightarrow> elmp \<Rightarrow> nat list \<Rightarrow> bool" where
  "remove_ends D H parent elm as \<longleftrightarrow> (\<exists>H' cs' t'. remove_color_loop H parent elm = Some (H', tp t') \<and>
     rb_at D H' cs' t' \<and> infos (plug cs' t') = as \<and> invc2 t' \<and> invh t' \<and>
     (cs' = [] \<or> col t' = RED \<and> cinv (Suc (bh t')) cs'))"

lemma remove_endsI:
  assumes "\<exists>H'. remove_color_loop H parent elm = Some (H', rbh_root H') \<and> rb_at D H' cs t'"
    and "infos t' = infos t" and "invc t'" and "invh t'" and "cinv (bh t') cs" and "col t' = RED \<longrightarrow> fcol cs = BLACK"
  shows "remove_ends D H parent elm (infos (plug cs t))"
proof -
  obtain H' where H': "remove_color_loop H parent elm = Some (H', rbh_root H')" "rb_at D H' cs t'"
    using assms(1) by blast
  then have at: "rb_at D H' [] (plug cs t')" using rb_at_plug by blast
  moreover have "invc2 (plug cs t')" "invh (plug cs t')"
    using plug_inv [OF assms(3-5)] assms(6) by (cases "plug cs t'"; simp)+
  moreover have "infos (plug cs t') = infos (plug cs t)" using assms(2) by (simp add: infos_plug)
  ultimately show ?thesis unfolding remove_ends_def
    using H'(1) at_top_root [OF at] by (metis plug.simps(1))
qed

lemma remove_stop:
  assumes at: "rb_at D H cs t" and "invc2 t" and "invh t" and stop: "cs = [] \<or> col t = RED \<and> cinv (Suc (bh t)) cs"
  shows "remove_ends D H (up cs) (tp t) (infos (plug cs t))"
proof -
  have "remove_color_loop H (up cs) (tp t) = Some (H, tp t)"
    using stop at_is_black [OF at] at_top_root [of D H t] at by (subst remove_color_loop.simps) auto
  then show ?thesis unfolding remove_ends_def using assms by blast
qed

text \<open>One iteration with a black sibling: it ends the loop or moves it to the parent.\<close>

lemma remove_outer_ends_L:
  assumes at: "rb_at D H cs (Nd cp t p (Nd BLACK WL w (Nd RED C v E)))" and t: "col t = BLACK" "invc2 t" "invh t"
    and inv: "cinv (Suc (bh t)) (LF cp p (Nd BLACK WL w (Nd RED C v E)) # cs)"
  shows "remove_ends D H (Some p) (tp t) (infos (plug cs (Nd cp t p (Nd BLACK WL w (Nd RED C v E)))))"
  by (rule remove_endsI [OF remove_outer_nephew_L [OF at t(1)]])
    (use t inv invc2_black [OF t(2,1)] in \<open>auto split: if_splits\<close>)

lemma remove_iteration_L:
  assumes at: "rb_at D H cs (Nd cp t p W)" and t: "col t = BLACK" "invc2 t" "invh t"
    and inv: "cinv (Suc (bh t)) (LF cp p W # cs)" and W: "col W = BLACK"
    and go_on: "\<And>H' t'. rb_at D H' cs t' \<Longrightarrow> col t' = cp \<Longrightarrow> invc2 t' \<Longrightarrow> invh t' \<Longrightarrow> cinv (Suc (bh t')) cs \<Longrightarrow>
      remove_ends D H' (up cs) (tp t') (infos (plug cs t'))"
  shows "remove_ends D H (Some p) (tp t) (infos (plug cs (Nd cp t p W)))"
proof -
  have ct: "invc t" by (rule invc2_black [OF t(2,1)])
  obtain WL w WR where W': "W = Nd BLACK WL w WR" using inv W by (cases W) auto
  note at' = at [unfolded W'] and inv' = inv [unfolded W']
  show ?thesis
  proof (cases "col WR")
    case RED
    then obtain C v E where WR: "WR = Nd RED C v E" by (cases WR) auto
    show ?thesis using remove_outer_ends_L [OF at' [unfolded WR] t inv' [unfolded WR]] by (simp add: W' WR)
  next
    case bR: BLACK
    show ?thesis
    proof (cases "col WL")
      case bL: BLACK
      let ?t = "Nd cp t p (Nd RED WL w WR)"
      obtain H1 where H1: "remove_color_loop H (Some p) (tp t) = remove_color_loop H1 (up cs) (Some p)"
          "rb_at D H1 cs ?t"
        using remove_black_nephews_L [OF at' t(1) bL bR] by blast
      have "remove_ends D H1 (up cs) (tp ?t) (infos (plug cs ?t))"
        by (rule go_on [OF H1(2)]) (use inv' bL bR t ct in auto)
      then show ?thesis using H1(1) by (simp add: remove_ends_def infos_plug W')
    next
      case RED
      then obtain A u B where WL: "WL = Nd RED A u B" by (cases WL) auto
      obtain H1 where H1: "remove_color_loop H (Some p) (tp t) = remove_color_loop H1 (Some p) (tp t)"
          "rb_at D H1 cs (Nd cp t p (Nd BLACK A u (Nd RED B w WR)))"
        using remove_inner_nephew_L [OF at' [unfolded WL] t(1) bR] by blast
      have "cinv (Suc (bh t)) (LF cp p (Nd BLACK A u (Nd RED B w WR)) # cs)" using inv' bR WL by auto
      from remove_outer_ends_L [OF H1(2) t this] show ?thesis
        using H1(1) by (simp add: remove_ends_def infos_plug W' WL)
    qed
  qed
qed

lemma remove_red_ends_L:
  assumes at: "rb_at D H cs (Nd cp t p W)" and t: "col t = BLACK" "invc2 t" "invh t"
    and inv: "cinv (Suc (bh t)) (LF cp p W # cs)" and W: "col W = RED"
  shows "remove_ends D H (Some p) (tp t) (infos (plug cs (Nd cp t p W)))"
proof -
  obtain A u B w WR where W': "W = Nd RED (Nd BLACK A u B) w WR" and cp: "cp = BLACK"
    using inv W by (cases W; cases "case W of Nd c l a r \<Rightarrow> l") auto
  obtain H1 where H1: "remove_color_loop H (Some p) (tp t) = remove_color_loop H1 (Some p) (tp t)"
      "rb_at D H1 (LF BLACK w WR # cs) (Nd RED t p (Nd BLACK A u B))"
    using remove_red_sibling_L [OF at [unfolded W' cp] t(1)] by blast
  have "cinv (Suc (bh t)) (LF RED p (Nd BLACK A u B) # LF BLACK w WR # cs)" using inv W' cp by auto
  then have "remove_ends D H1 (Some p) (tp t) (infos (plug (LF BLACK w WR # cs) (Nd RED t p (Nd BLACK A u B))))"
    by (rule remove_iteration_L [OF H1(2) t]) (simp, (rule remove_stop; blast))
  then show ?thesis using H1(1) by (simp add: remove_ends_def infos_plug W' cp)
qed

lemma remove_outer_ends_R:
  assumes at: "rb_at D H cs (Nd cp (Nd BLACK (Nd RED C v E) w WL) p t)" and t: "col t = BLACK" "invc2 t" "invh t"
    and inv: "cinv (Suc (bh t)) (RF cp (Nd BLACK (Nd RED C v E) w WL) p # cs)"
  shows "remove_ends D H (Some p) (tp t) (infos (plug cs (Nd cp (Nd BLACK (Nd RED C v E) w WL) p t)))"
  by (rule remove_endsI [OF remove_outer_nephew_R [OF at t(1)]])
    (use t inv invc2_black [OF t(2,1)] in \<open>auto split: if_splits\<close>)

lemma remove_iteration_R:
  assumes at: "rb_at D H cs (Nd cp W p t)" and t: "col t = BLACK" "invc2 t" "invh t"
    and inv: "cinv (Suc (bh t)) (RF cp W p # cs)" and W: "col W = BLACK"
    and go_on: "\<And>H' t'. rb_at D H' cs t' \<Longrightarrow> col t' = cp \<Longrightarrow> invc2 t' \<Longrightarrow> invh t' \<Longrightarrow> cinv (Suc (bh t')) cs \<Longrightarrow>
      remove_ends D H' (up cs) (tp t') (infos (plug cs t'))"
  shows "remove_ends D H (Some p) (tp t) (infos (plug cs (Nd cp W p t)))"
proof -
  have ct: "invc t" by (rule invc2_black [OF t(2,1)])
  obtain WL w WR where W': "W = Nd BLACK WR w WL" using inv W by (cases W) auto
  note at' = at [unfolded W'] and inv' = inv [unfolded W']
  show ?thesis
  proof (cases "col WR")
    case RED
    then obtain C v E where WR: "WR = Nd RED C v E" by (cases WR) auto
    show ?thesis using remove_outer_ends_R [OF at' [unfolded WR] t inv' [unfolded WR]] by (simp add: W' WR)
  next
    case bR: BLACK
    show ?thesis
    proof (cases "col WL")
      case bL: BLACK
      let ?t = "Nd cp (Nd RED WR w WL) p t"
      obtain H1 where H1: "remove_color_loop H (Some p) (tp t) = remove_color_loop H1 (up cs) (Some p)"
          "rb_at D H1 cs ?t"
        using remove_black_nephews_R [OF at' t(1) bL bR] by blast
      have "remove_ends D H1 (up cs) (tp ?t) (infos (plug cs ?t))"
        by (rule go_on [OF H1(2)]) (use inv' bL bR t ct in auto)
      then show ?thesis using H1(1) by (simp add: remove_ends_def infos_plug W')
    next
      case RED
      then obtain A u B where WL: "WL = Nd RED B u A" by (cases WL) auto
      obtain H1 where H1: "remove_color_loop H (Some p) (tp t) = remove_color_loop H1 (Some p) (tp t)"
          "rb_at D H1 cs (Nd cp (Nd BLACK (Nd RED WR w B) u A) p t)"
        using remove_inner_nephew_R [OF at' [unfolded WL] t(1) bR] by blast
      have "cinv (Suc (bh t)) (RF cp (Nd BLACK (Nd RED WR w B) u A) p # cs)" using inv' bR WL by auto
      from remove_outer_ends_R [OF H1(2) t this] show ?thesis
        using H1(1) by (simp add: remove_ends_def infos_plug W' WL)
    qed
  qed
qed

lemma remove_red_ends_R:
  assumes at: "rb_at D H cs (Nd cp W p t)" and t: "col t = BLACK" "invc2 t" "invh t"
    and inv: "cinv (Suc (bh t)) (RF cp W p # cs)" and W: "col W = RED"
  shows "remove_ends D H (Some p) (tp t) (infos (plug cs (Nd cp W p t)))"
proof -
  obtain A u B w WR where W': "W = Nd RED WR w (Nd BLACK B u A)" and cp: "cp = BLACK"
    using inv W by (cases W; cases "case W of Nd c l a r \<Rightarrow> r") auto
  obtain H1 where H1: "remove_color_loop H (Some p) (tp t) = remove_color_loop H1 (Some p) (tp t)"
      "rb_at D H1 (RF BLACK WR w # cs) (Nd RED (Nd BLACK B u A) p t)"
    using remove_red_sibling_R [OF at [unfolded W' cp] t(1)] by blast
  have "cinv (Suc (bh t)) (RF RED (Nd BLACK B u A) p # RF BLACK WR w # cs)" using inv W' cp by auto
  then have "remove_ends D H1 (Some p) (tp t) (infos (plug (RF BLACK WR w # cs) (Nd RED (Nd BLACK B u A) p t)))"
    by (rule remove_iteration_R [OF H1(2) t]) (simp, (rule remove_stop; blast))
  then show ?thesis using H1(1) by (simp add: remove_ends_def infos_plug W' cp)
qed

lemma remove_color_loop_at:
  assumes "rb_at D H cs t" and "invc2 t" and "invh t" and "cinv (Suc (bh t)) cs"
  shows "remove_ends D H (up cs) (tp t) (infos (plug cs t))"
  using assms
proof (induction cs arbitrary: H t)
  case Nil
  then show ?case using remove_stop by blast
next
  case (Cons f cs)
  show ?case
  proof (cases "col t")
    case RED
    then show ?thesis using remove_stop [OF Cons.prems(1-3)] Cons.prems(4) by blast
  next
    case t: BLACK
    note at = Cons.prems(1) [unfolded rb_at_move] and inv = Cons.prems(4)
    show ?thesis
    proof (cases f)
      case (LF cp p W)
      then have *: "rb_at D H cs (Nd cp t p W)" "cinv (Suc (bh t)) (LF cp p W # cs)" using at inv by simp_all
      show ?thesis
        using remove_red_ends_L [OF *(1) t Cons.prems(2,3) *(2)]
          remove_iteration_L [OF *(1) t Cons.prems(2,3) *(2) _ Cons.IH] by (cases "col W") (auto simp: LF)
    next
      case (RF cp W p)
      then have *: "rb_at D H cs (Nd cp W p t)" "cinv (Suc (bh t)) (RF cp W p # cs)" using at inv by simp_all
      show ?thesis
        using remove_red_ends_R [OF *(1) t Cons.prems(2,3) *(2)]
          remove_iteration_R [OF *(1) t Cons.prems(2,3) *(2) _ Cons.IH] by (cases "col W") (auto simp: RF)
    qed
  qed
qed

lemma RB_REMOVE_COLOR_at:
  assumes "rb_at D H cs t" and "invc t" and "invh t" and "cinv (Suc (bh t)) cs"
  shows "\<exists>H' t'. RB_REMOVE_COLOR H (up cs) (tp t) = Some H' \<and> rb_at D H' [] t' \<and>
           infos t' = lpart cs @ infos t @ rpart cs \<and> rb_ok t'"
proof -
  have "invc2 t" using assms(2) by (cases t) auto
  from remove_color_loop_at [OF assms(1) this assms(3,4)] obtain H1 cs1 t1 where
    H1: "remove_color_loop H (up cs) (tp t) = Some (H1, tp t1)" "rb_at D H1 cs1 t1"
      "infos (plug cs1 t1) = lpart cs @ infos t @ rpart cs" "invc2 t1" "invh t1"
      "cs1 = [] \<or> col t1 = RED \<and> cinv (Suc (bh t1)) cs1"
    unfolding remove_ends_def by (auto simp: infos_plug)
  show ?thesis
  proof (cases t1)
    case Lf
    then show ?thesis using H1 by (intro exI [of _ H1] exI [of _ Lf]) (auto simp: RB_REMOVE_COLOR_def rb_ok_def)
  next
    case (Nd c l a r)
    let ?t = "Nd BLACK l a r"
    obtain H2 where H2: "rb_set_color H1 (Some a) BLACK = Some H2" "rb_at D H2 cs1 ?t"
      using color_at [OF H1(2) [unfolded Nd]] by blast
    have "rb_ok (plug cs1 ?t)" using plug_inv [of ?t cs1] H1(4-6) Nd by (auto simp: rb_ok_def)
    moreover have "rb_at D H2 [] (plug cs1 ?t)" using H2(2) rb_at_plug by blast
    moreover have "infos (plug cs1 ?t) = lpart cs @ infos t @ rpart cs" using H1(3) Nd by (simp add: infos_plug)
    ultimately show ?thesis using H1(1) H2(1) Nd by (auto simp: RB_REMOVE_COLOR_def)
  qed
qed

section \<open>Taking an element out\<close>

lemma rb_unlink_at:
  assumes at: "rb_at D H cs (Nd c l z r)" and t: "l = Lf \<and> t = r \<or> r = Lf \<and> t = l"
  shows "\<exists>H'. rb_unlink H (up cs) (Some z) (tp t) = Some H' \<and> rb_at D H' cs t \<and> rb_mem H' z = rb_mem H z"
proof (cases cs rule: up.cases)
  case 1
  show ?thesis using at t unfolding rb_at_def 1 by (cases t) (auto simp: rb_unlink_def rb_ops)
next
  case (2 c' a r cs')
  show ?thesis using at t unfolding rb_at_def 2 by (cases t) (auto simp: rb_unlink_def rb_ops)
next
  case (3 c' l a cs')
  show ?thesis using at t unfolding rb_at_def 3 by (cases t) (auto simp: rb_unlink_def rb_ops)
qed

lemma rb_take_place_at:
  assumes at: "rb_at D H cs (Nd c l z r)" and l: "l \<noteq> Lf" and y: "y \<in> D" "y \<notin> set (infos (plug cs (Nd c l z r)))"
  shows "\<exists>H'. rb_take_place H (Some z) (Some y) = Some H' \<and> rb_at D H' cs (Nd c l y r)"
proof -
  obtain c1 l1 b r1 where l1: "l = Nd c1 l1 b r1" using l by (cases l) auto
  obtain e where e: "rb_mem H y = Some e" using at y(1) by (auto simp: rb_at_def)
  show ?thesis
  proof (cases cs rule: up.cases)
    case 1
    show ?thesis using at y e unfolding rb_at_def 1 l1
      by (cases r) (auto simp: rb_take_place_def rb_ops infos_plug)
  next
    case (2 c' a r' cs')
    show ?thesis using at y e unfolding rb_at_def 2 l1
      by (cases r) (auto simp: rb_take_place_def rb_ops infos_plug)
  next
    case (3 c' l' a cs')
    show ?thesis using at y e unfolding rb_at_def 3 l1
      by (cases r) (auto simp: rb_take_place_def rb_ops infos_plug)
  qed
qed

lemma augment_up_at: "rb_at D H cs t \<Longrightarrow> cs \<noteq> [] \<Longrightarrow> augment_up H (up cs) = Some (rbh_root H)"
proof (induction cs arbitrary: t)
  case (Cons f cs)
  have at: "rb_at D H cs (plug1 f t)" using Cons.prems(1) by (simp add: rb_at_move)
  have p: "RB_PARENT H (up (f # cs)) = Some (up cs)" "up (f # cs) = tp (plug1 f t)"
    using at by (cases f; auto simp: at_elm)+
  show ?case
  proof (cases "cs = []")
    case True
    then show ?thesis using p at at_top_root [of D H "plug1 f t"] by (subst augment_up.simps) simp
  next
    case False
    then show ?thesis using p Cons.IH [OF at] by (subst augment_up.simps) simp
  qed
qed simp

lemma rb_leftmost_at:
  assumes "rb_at D H cs (Nd c l a r)"
  shows "\<exists>cs1 c' y r'. rb_leftmost H (Some a) = Some (Some y) \<and> plug cs1 (Nd c' Lf y r') = Nd c l a r \<and> lpart cs1 = []"
  using assms
proof (induction l arbitrary: cs c a r)
  case Lf
  then show ?case using at_elm [OF Lf]
    by (intro exI [of _ "[]"] exI [of _ c] exI [of _ a] exI [of _ r]) (simp add: rb_leftmost.simps)
next
  case (Nd c1 l1 a1 r1)
  obtain cs1 c' y r' where *: "rb_leftmost H (Some a1) = Some (Some y)" "plug cs1 (Nd c' Lf y r') = Nd c1 l1 a1 r1"
      "lpart cs1 = []"
    using Nd.IH(1) [OF at_elm_down(1) [OF Nd.prems]] by blast
  have "rb_leftmost H (Some a) = Some (Some y)"
    using * at_elm [OF Nd.prems] by (subst rb_leftmost.simps) simp
  with * show ?case
    by (intro exI [of _ "cs1 @ [LF c a r]"] exI [of _ c'] exI [of _ y] exI [of _ r']) auto
qed

text \<open>
  With two children: the smallest element \<open>y\<close> on the right leaves its place and takes that of the
  old one, with its colour.
\<close>

lemma remove_between_at:
  assumes at: "rb_at D H cs (Nd c l z r)" and two: "l \<noteq> Lf" "r \<noteq> Lf"
  shows "\<exists>H' cs1 cy y yr. remove_between H (Some z) = Some (H', up (cs1 @ RF c l y # cs), tp yr, cy) \<and>
           rb_at D H' (cs1 @ RF c l y # cs) yr \<and> r = plug cs1 (Nd cy Lf y yr) \<and> lpart cs1 = []"
proof -
  obtain cr rl b rr where r: "r = Nd cr rl b rr" using two(2) by (cases r) auto
  obtain cs1 cy y yr where y: "rb_leftmost H (Some b) = Some (Some y)" "plug cs1 (Nd cy Lf y yr) = r" "lpart cs1 = []"
    using rb_leftmost_at [OF at_elm_down(2) [OF at [unfolded r]]] r by auto
  let ?cs = "cs1 @ RF c l z # cs" and ?cs' = "cs1 @ RF c l y # cs"
  have "plug ?cs (Nd cy Lf y yr) = plug cs (Nd c l z r)" using y(2) by simp
  then have aty: "rb_at D H ?cs (Nd cy Lf y yr)" using at rb_at_plug by metis
  note ey = at_elm [OF aty]
  obtain H1 where H1: "rb_unlink H (up ?cs) (Some y) (tp yr) = Some H1" "rb_at D H1 ?cs yr" "rb_mem H1 y = rb_mem H y"
    using rb_unlink_at [OF aty, of yr] by auto
  have par: "RB_PARENT H1 (Some y) = Some (up ?cs)" using ey(4) H1(3) by (simp add: RB_PARENT_def)
  have at1: "rb_at D H1 cs (Nd c l z (plug cs1 yr))" using H1(2) rb_at_plug [of D H1] by (metis plug.simps(2) plug1.simps(2) plug_append)
  have dist: "distinct (lpart ?cs @ y # infos yr @ rpart ?cs)" "y \<in> D"
    using aty by (auto simp: rb_at_def)
  have "y \<notin> set (infos (plug cs (Nd c l z (plug cs1 yr))))" using dist(1) by (auto simp: infos_plug)
  then obtain H2 where H2: "rb_take_place H1 (Some z) (Some y) = Some H2" "rb_at D H2 cs (Nd c l y (plug cs1 yr))"
    using rb_take_place_at [OF at1 two(1) dist(2)] by blast
  have at2: "rb_at D H2 ?cs' yr" using H2(2) rb_at_plug [of D H2] by (metis plug.simps(2) plug1.simps(2) plug_append)
  have new: "(if up ?cs = Some z then Some y else up ?cs) = up ?cs'"
    using dist(1) by (cases cs1 rule: up.cases) auto
  have "remove_between H (Some z) = Some (H2, up ?cs', tp yr, cy)"
    using at_elm(3) [OF at] r y(1) ey H1(1) par new H2(1) augment_up_at [OF at2]
    by (simp add: remove_between_def Let_def)
  with at2 y(2,3) show ?thesis by blast
qed

lemma remove_outer_at:
  assumes at: "rb_at D H cs (Nd c l z r)" and t: "l = Lf \<and> t = r \<or> r = Lf \<and> t = l"
  shows "\<exists>H'. remove_outer H (Some z) (tp t) = Some (H', up cs, tp t, c) \<and> rb_at D H' cs t"
  using rb_unlink_at [OF at t] at_elm [OF at] by (auto simp: remove_outer_def)

text \<open>The repair, when the element that left its place was black.\<close>

lemma remove_tail_at:
  assumes at: "rb_at D H cs t" and t: "l = Lf \<and> t = r \<or> r = Lf \<and> t = l" and ok: "rb_ok (plug cs (Nd c l y r))"
  shows "\<exists>H' t'. (if c = BLACK then RB_REMOVE_COLOR H (up cs) (tp t) else Some H) = Some H' \<and>
           rb_at D H' [] t' \<and> infos t' = lpart cs @ infos t @ rpart cs \<and> rb_ok t'"
proof -
  have inv: "invc (Nd c l y r)" "invh (Nd c l y r)" "cinv (bh (Nd c l y r)) cs"
    using plug_inv_rev [of cs "Nd c l y r"] ok unfolding rb_ok_def by blast+
  show ?thesis
  proof (cases c)
    case BLACK
    have "invc t" "invh t" "cinv (Suc (bh t)) cs" using inv t BLACK by auto
    from RB_REMOVE_COLOR_at [OF at this] show ?thesis using BLACK by simp
  next
    case RED
    then have "t = Lf" "l = Lf" using inv t by (cases l; cases r; auto)+
    with inv RED plug_inv [of Lf cs] have "rb_ok (plug cs t)" by (simp add: rb_ok_def)
    then show ?thesis using RED at rb_at_plug [of D H cs t]
      by (intro exI [of _ H] exI [of _ "plug cs t"]) (auto simp: infos_plug)
  qed
qed

text \<open>The invariants do not depend on the elements.\<close>

lemma rb_ok_elm: "rb_ok (plug cs (Nd c l a r)) = rb_ok (plug cs (Nd c l a' r))"
proof -
  have "invc (plug cs t) = invc (plug cs t') \<and> invh (plug cs t) = invh (plug cs t') \<and>
      col (plug cs t) = col (plug cs t') \<and> bh (plug cs t) = bh (plug cs t')"
    if "invc t = invc t'" "invh t = invh t'" "col t = col t'" "bh t = bh t'" for t t' :: "'a rtree"
    using that
  proof (induction cs arbitrary: t t')
    case (Cons f cs)
    have "invc (plug1 f t) = invc (plug1 f t')" "invh (plug1 f t) = invh (plug1 f t')"
      "col (plug1 f t) = col (plug1 f t')" "bh (plug1 f t) = bh (plug1 f t')"
      using Cons.prems by (cases f; simp)+
    from Cons.IH [OF this] show ?case by simp
  qed simp
  from this [of "Nd c l a r" "Nd c l a' r"] show ?thesis by (simp add: rb_ok_def)
qed

text \<open>Removal takes out the element and nothing else.\<close>

lemma RB_REMOVE_at:
  assumes at: "rb_at D H cs (Nd c l z r)" and ok: "rb_ok (plug cs (Nd c l z r))"
  shows "\<exists>H' t'. RB_REMOVE H (Some z) = Some (Some z, H') \<and> rb_at D H' [] t' \<and> rb_ok t' \<and>
           infos t' = lpart cs @ infos l @ infos r @ rpart cs"
proof -
  note z = at_elm [OF at]
  show ?thesis
  proof (cases "l = Lf \<or> r = Lf")
    case True
    then obtain t where t: "l = Lf \<and> t = r \<or> r = Lf \<and> t = l" by blast
    obtain H1 where H1: "remove_outer H (Some z) (tp t) = Some (H1, up cs, tp t, c)" "rb_at D H1 cs t"
      using remove_outer_at [OF at t] by blast
    obtain H2 t' where "(if c = BLACK then RB_REMOVE_COLOR H1 (up cs) (tp t) else Some H1) = Some H2"
        "rb_at D H2 [] t'" "infos t' = lpart cs @ infos t @ rpart cs" "rb_ok t'"
      using remove_tail_at [OF H1(2) t ok] by blast
    then show ?thesis using t z H1(1) by (intro exI [of _ H2] exI [of _ t']) (auto simp: RB_REMOVE_def)
  next
    case False
    obtain H1 cs1 cy y yr where H1: "remove_between H (Some z) = Some (H1, up (cs1 @ RF c l y # cs), tp yr, cy)"
        "rb_at D H1 (cs1 @ RF c l y # cs) yr" and r: "r = plug cs1 (Nd cy Lf y yr)" "lpart cs1 = []"
      using remove_between_at [OF at] False by blast
    have "rb_ok (plug (cs1 @ RF c l y # cs) (Nd cy Lf y yr))" using ok rb_ok_elm [of cs c l z r y] r(1) by simp
    from remove_tail_at [OF H1(2) _ this] obtain H2 t' where
        "(if cy = BLACK then RB_REMOVE_COLOR H1 (up (cs1 @ RF c l y # cs)) (tp yr) else Some H1) = Some H2"
        "rb_at D H2 [] t'" "infos t' = lpart cs @ infos l @ y # infos yr @ rpart cs1 @ rpart cs" "rb_ok t'"
      using r(2) by auto
    then show ?thesis using False z H1(1) r
      by (intro exI [of _ H2] exI [of _ t']) (auto simp: RB_REMOVE_def infos_plug)
  qed
qed

end
