(* ===== verification/Nty_Tree_Order.thy ===== *)
theory Nty_Tree_Order
  imports Nty_Tree_Remove
begin

text \<open>
  The trees of \<open>nty_tree.h\<close> as their elements in ascending order: traversal, and, for a comparison
  function that compares keys, search and insertion.
\<close>

section \<open>The elements of a tree\<close>

text \<open>The head \<open>H\<close> holds a valid red-black tree with the elements \<open>as\<close> from left to right.\<close>

definition holds_tree :: "nat set \<Rightarrow> rb_head \<Rightarrow> nat list \<Rightarrow> bool" where
  "holds_tree D H as \<longleftrightarrow> (\<exists>t. rb_at D H [] t \<and> rb_ok t \<and> infos t = as)"

lemma holds_tree_init: "holds_tree (dom (rb_mem H)) (RB_INIT H) []"
  by (auto simp: holds_tree_def RB_INIT_def rb_at_def rb_ok_def intro: exI [of _ Lf])

lemma holds_tree_facts:
  assumes "holds_tree D H as"
  shows "distinct as" and "set as \<subseteq> D" and "dom (rb_mem H) = D"
  using assms by (auto simp: holds_tree_def rb_at_def dest!: stored_dom)

lemma holds_tree_empty: "holds_tree D H as \<Longrightarrow> RB_EMPTY H \<longleftrightarrow> as = []"
proof -
  assume "holds_tree D H as"
  then obtain t where "rb_at D H [] t" "infos t = as" by (auto simp: holds_tree_def)
  then show ?thesis by (cases t) (auto simp: RB_EMPTY_def dest: at_top_root)
qed

text \<open>Every element of a tree is at some position.\<close>

lemma position:
  assumes "a \<in> set (infos t)"
  shows "\<exists>cs c l r. t = plug cs (Nd c l a r)"
  using assms
proof (induction t)
  case (Nd c l b r)
  then consider "a \<in> set (infos l)" | "a = b" | "a \<in> set (infos r)" by auto
  then show ?case
  proof cases
    case 1
    then obtain cs c' l' r' where "l = plug cs (Nd c' l' a r')" using Nd.IH(1) by blast
    then have "Nd c l b r = plug (cs @ [LF c b r]) (Nd c' l' a r')" by simp
    then show ?thesis by blast
  next
    case 2
    have "Nd c l b r = plug [] (Nd c l b r)" by simp
    with 2 show ?thesis by blast
  next
    case 3
    then obtain cs c' l' r' where "r = plug cs (Nd c' l' a r')" using Nd.IH(2) by blast
    then have "Nd c l b r = plug (cs @ [RF c l b]) (Nd c' l' a r')" by simp
    then show ?thesis by blast
  qed
qed simp

lemma holds_tree_remove:
  assumes T: "holds_tree D H as" and z: "z \<in> set as"
  shows "\<exists>H'. RB_REMOVE H (Some z) = Some (Some z, H') \<and> holds_tree D H' (remove1 z as)"
proof -
  obtain t where t: "rb_at D H [] t" "rb_ok t" "infos t = as" using T by (auto simp: holds_tree_def)
  then obtain cs c l r where p: "t = plug cs (Nd c l z r)" using position [of z t] z by auto
  then have "rb_at D H cs (Nd c l z r)" using t(1) rb_at_plug by metis
  from RB_REMOVE_at [OF this] obtain H' t' where H': "RB_REMOVE H (Some z) = Some (Some z, H')" "rb_at D H' [] t'" "rb_ok t'"
      "infos t' = lpart cs @ infos l @ infos r @ rpart cs"
    using t(2) p by blast
  have "as = (lpart cs @ infos l) @ z # infos r @ rpart cs" using t(3) p by (simp add: infos_plug)
  moreover have "z \<notin> set (lpart cs @ infos l)" using holds_tree_facts(1) [OF T] calculation by auto
  ultimately have "remove1 z as = infos t'" using H'(4) by (simp add: remove1_append)
  with H' show ?thesis by (auto simp: holds_tree_def)
qed

section \<open>Traversal\<close>

lemma minmax_min_at:
  "rb_at D H cs t \<Longrightarrow> minmax_loop H RB_NEGINF (tp t) p = Some (if t = Lf then p else Some (hd (infos t)))"
proof (induction t arbitrary: cs p)
  case (Nd c l a r)
  have "minmax_loop H RB_NEGINF (tp l) (Some a) = Some (if l = Lf then Some a else Some (hd (infos l)))"
    by (rule Nd.IH(1) [OF at_elm_down(1) [OF Nd.prems]])
  moreover have "infos l \<noteq> []" if "l \<noteq> Lf" using that by (cases l) auto
  ultimately show ?case using at_elm [OF Nd.prems] by (subst minmax_loop.simps) (simp add: RB_NEGINF_def)
qed (simp add: minmax_loop.simps)

lemma minmax_max_at:
  "rb_at D H cs t \<Longrightarrow> minmax_loop H RB_INF (tp t) p = Some (if t = Lf then p else Some (last (infos t)))"
proof (induction t arbitrary: cs p)
  case (Nd c l a r)
  have "minmax_loop H RB_INF (tp r) (Some a) = Some (if r = Lf then Some a else Some (last (infos r)))"
    by (rule Nd.IH(2) [OF at_elm_down(2) [OF Nd.prems]])
  moreover have "infos r \<noteq> []" if "r \<noteq> Lf" using that by (cases r) auto
  ultimately show ?case using at_elm [OF Nd.prems] by (subst minmax_loop.simps) (simp add: RB_INF_def)
qed (simp add: minmax_loop.simps)

text \<open>The first element of a list, or NULL.\<close>

fun first :: "nat list \<Rightarrow> elmp" where
  "first [] = None"
| "first (a # as) = Some a"

lemma first_append [simp]: "first (as @ bs) = (if as = [] then first bs else first as)"
  by (cases as) auto

lemma infos_Nil [simp]: "infos t = [] \<longleftrightarrow> t = Lf" "[] = infos t \<longleftrightarrow> t = Lf"
  by (cases t; simp)+

lemma first_hd: "as \<noteq> [] \<Longrightarrow> first as = Some (hd as)"
  by (cases as) auto

lemma holds_tree_ends:
  assumes "holds_tree D H as"
  shows "RB_MIN H = Some (first as)" and "RB_MAX H = Some (first (rev as))"
proof -
  obtain t where t: "rb_at D H [] t" "infos t = as" using assms by (auto simp: holds_tree_def)
  have "t \<noteq> Lf \<longleftrightarrow> as \<noteq> []" using t(2) by auto
  then show "RB_MIN H = Some (first as)" "RB_MAX H = Some (first (rev as))"
    using minmax_min_at [OF t(1), of None] minmax_max_at [OF t(1), of None] t(2) at_top_root [OF t(1)]
    by (auto simp: RB_MIN_def RB_MAX_def RB_MINMAX_def first_hd hd_rev)
qed

text \<open>The next element is the first one on the right, in the subtree or in the frames above.\<close>

lemma next_up_at:
  assumes "rb_at D H cs t" and "t \<noteq> Lf"
  shows "\<exists>x. next_up H (tp t) = Some x \<and> RB_PARENT H x = Some (first (rpart cs))"
  using assms
proof (induction cs arbitrary: t)
  case Nil
  then have p: "RB_PARENT H (tp t) = Some None" by (cases t) (auto simp: at_elm)
  then show ?case by (intro exI [of _ "tp t"], subst next_up.simps) simp
next
  case (Cons f cs)
  have p: "RB_PARENT H (tp t) = Some (up (f # cs))" using Cons.prems by (cases t) (auto simp: at_elm)
  have at: "rb_at D H cs (plug1 f t)" using Cons.prems(1) by (simp add: rb_at_move)
  show ?case
  proof (cases f)
    case (LF c a r)
    then have "tp t \<noteq> tp r" using at_distinct [of D H cs c t a r] at Cons.prems(2) by simp
    then show ?thesis using LF p at_elm(3) [of D H cs c t a r] at
      by (intro exI [of _ "tp t"], subst next_up.simps) simp
  next
    case (RF c l a)
    then obtain x where "next_up H (Some a) = Some x" "RB_PARENT H x = Some (first (rpart cs))"
      using Cons.IH [OF at] by auto
    then show ?thesis using RF p at_elm(3) [of D H cs c l a t] at
      by (intro exI [of _ x], subst next_up.simps) simp
  qed
qed

lemma prev_up_at:
  assumes "rb_at D H cs t" and "t \<noteq> Lf"
  shows "\<exists>x. prev_up H (tp t) = Some x \<and> RB_PARENT H x = Some (first (rev (lpart cs)))"
  using assms
proof (induction cs arbitrary: t)
  case Nil
  then have p: "RB_PARENT H (tp t) = Some None" by (cases t) (auto simp: at_elm)
  then show ?case by (intro exI [of _ "tp t"], subst prev_up.simps) simp
next
  case (Cons f cs)
  have p: "RB_PARENT H (tp t) = Some (up (f # cs))" using Cons.prems by (cases t) (auto simp: at_elm)
  have at: "rb_at D H cs (plug1 f t)" using Cons.prems(1) by (simp add: rb_at_move)
  show ?case
  proof (cases f)
    case (RF c l a)
    then have "tp t \<noteq> tp l" using at_distinct [of D H cs c l a t] at Cons.prems(2) by simp
    then show ?thesis using RF p at_elm(2) [of D H cs c l a t] at
      by (intro exI [of _ "tp t"], subst prev_up.simps) simp
  next
    case (LF c a r)
    then obtain x where "prev_up H (Some a) = Some x" "RB_PARENT H x = Some (first (rev (lpart cs)))"
      using Cons.IH [OF at] by auto
    then show ?thesis using LF p at_elm(2) [of D H cs c t a r] at
      by (intro exI [of _ x], subst prev_up.simps) simp
  qed
qed

lemma leftmost_first: "rb_at D H cs (Nd c l a r) \<Longrightarrow> rb_leftmost H (Some a) = Some (first (infos (Nd c l a r)))"
proof (induction l arbitrary: cs c a r)
  case (Nd c1 l1 a1 r1)
  then show ?case using at_elm [OF Nd.prems] Nd.IH(1) [OF at_elm_down(1) [OF Nd.prems]]
    by (subst rb_leftmost.simps) auto
qed (simp add: rb_leftmost.simps at_elm)

lemma rightmost_first: "rb_at D H cs (Nd c l a r) \<Longrightarrow> rb_rightmost H (Some a) = Some (first (rev (infos (Nd c l a r))))"
proof (induction r arbitrary: cs c a l)
  case (Nd c1 l1 a1 r1)
  then show ?case using at_elm [OF Nd.prems] Nd.IH(2) [OF at_elm_down(2) [OF Nd.prems]]
    by (subst rb_rightmost.simps) auto
qed (simp add: rb_rightmost.simps at_elm)

lemma RB_NEXT_at:
  assumes at: "rb_at D H cs (Nd c l a r)"
  shows "RB_NEXT H (Some a) = Some (first (infos r @ rpart cs))"
proof (cases r)
  case (Nd c' l' b r')
  then show ?thesis using at_elm(3) [OF at] leftmost_first at_elm_down(2) [OF at]
    by (auto simp: RB_NEXT_def)
next
  case Lf
  obtain x where x: "next_up H (Some a) = Some x" "RB_PARENT H x = Some (first (rpart cs))"
    using next_up_at [OF at] by auto
  show ?thesis
  proof (cases cs rule: up.cases)
    case (2 c' b r' cs')
    then show ?thesis using Lf at_elm [OF at] at_elm(2) [of D H cs' c' "Nd c l a r" b r'] at
      by (auto simp: RB_NEXT_def rb_at_move)
  next
    case (3 c' l' b cs')
    have "tp l' \<noteq> Some a" using at_distinct [of D H cs' c' l' b "Nd c l a r"] at 3 by (auto simp: rb_at_move)
    then show ?thesis using Lf 3 at_elm [OF at] at_elm(2) [of D H cs' c' l' b "Nd c l a r"] at x
      by (auto simp: RB_NEXT_def rb_at_move)
  qed (use Lf at_elm [OF at] x in \<open>auto simp: RB_NEXT_def\<close>)
qed

lemma RB_PREV_at:
  assumes at: "rb_at D H cs (Nd c l a r)"
  shows "RB_PREV H (Some a) = Some (first (rev (lpart cs @ infos l)))"
proof (cases l)
  case (Nd c' l' b r')
  then show ?thesis using at_elm(2) [OF at] rightmost_first at_elm_down(1) [OF at]
    by (auto simp: RB_PREV_def)
next
  case Lf
  obtain x where x: "prev_up H (Some a) = Some x" "RB_PARENT H x = Some (first (rev (lpart cs)))"
    using prev_up_at [OF at] by auto
  show ?thesis
  proof (cases cs rule: up.cases)
    case (3 c' l' b cs')
    then show ?thesis using Lf at_elm [OF at] at_elm(3) [of D H cs' c' l' b "Nd c l a r"] at
      by (auto simp: RB_PREV_def rb_at_move)
  next
    case (2 c' b r' cs')
    have "tp r' \<noteq> Some a" using at_distinct [of D H cs' c' "Nd c l a r" b r'] at 2 by (auto simp: rb_at_move)
    then show ?thesis using Lf 2 at_elm [OF at] at_elm(3) [of D H cs' c' "Nd c l a r" b r'] at x
      by (auto simp: RB_PREV_def rb_at_move)
  qed (use Lf at_elm [OF at] x in \<open>auto simp: RB_PREV_def\<close>)
qed

lemma holds_tree_next:
  assumes "holds_tree D H (xs @ a # ys)"
  shows "RB_NEXT H (Some a) = Some (first ys)" and "RB_PREV H (Some a) = Some (first (rev xs))"
proof -
  obtain t where t: "rb_at D H [] t" "infos t = xs @ a # ys" using assms by (auto simp: holds_tree_def)
  then obtain cs c l r where p: "t = plug cs (Nd c l a r)" using position [of a t] by auto
  then have at: "rb_at D H cs (Nd c l a r)" using t(1) rb_at_plug by metis
  have d: "distinct (xs @ a # ys)" by (rule holds_tree_facts(1) [OF assms])
  have e: "xs @ a # ys = (lpart cs @ infos l) @ a # (infos r @ rpart cs)" using t(2) p by (simp add: infos_plug)
  moreover have "a \<notin> set xs" "a \<notin> set ys" using d by auto
  ultimately have "xs = lpart cs @ infos l \<and> ys = infos r @ rpart cs"
    using append_Cons_eq_iff [of a xs ys "lpart cs @ infos l" "infos r @ rpart cs"] by blast
  then show "RB_NEXT H (Some a) = Some (first ys)" "RB_PREV H (Some a) = Some (first (rev xs))"
    using RB_NEXT_at [OF at] RB_PREV_at [OF at] by simp_all
qed

lemma foreach_from_at: "holds_tree D H (xs @ ys) \<Longrightarrow> foreach_from H (first ys) = Some ys"
proof (induction ys arbitrary: xs)
  case (Cons a ys)
  then show ?case using holds_tree_next(1) [OF Cons.prems] Cons.IH [of "xs @ [a]"]
    by (subst foreach_from.simps) simp
qed (simp add: foreach_from.simps)

lemma foreach_reverse_from_at: "holds_tree D H (xs @ ys) \<Longrightarrow> foreach_reverse_from H (first (rev xs)) = Some (rev xs)"
proof (induction xs arbitrary: ys rule: rev_induct)
  case (snoc a xs)
  then show ?case using holds_tree_next(2) [of D H xs a ys] snoc.IH [of "a # ys"]
    by (subst foreach_reverse_from.simps) simp
qed (simp add: foreach_reverse_from.simps)

lemma holds_tree_foreach:
  assumes "holds_tree D H as"
  shows "RB_FOREACH H = Some as" and "RB_FOREACH_REVERSE H = Some (rev as)"
  using foreach_from_at [of D H "[]" as] foreach_reverse_from_at [of D H as "[]"] assms
    holds_tree_ends [OF assms]
  by (simp_all add: RB_FOREACH_def RB_FOREACH_REVERSE_def)

section \<open>Ascending elements\<close>

definition ascending :: "(nat \<Rightarrow> 'k::linorder) \<Rightarrow> nat list \<Rightarrow> bool" where
  "ascending key as \<longleftrightarrow> sorted_wrt (\<lambda>a b. key a < key b) as"

lemma ascending_mid [simp]:
  "ascending key (as @ b # bs) \<longleftrightarrow> ascending key as \<and> ascending key bs \<and>
     (\<forall>a \<in> set as. key a < key b) \<and> (\<forall>c \<in> set bs. key b < key c)"
  by (auto simp: ascending_def sorted_wrt_append intro: less_trans)

text \<open>
  The element with the key of \<open>z\<close>, the first one whose key is not less, and \<open>z\<close> put in its place.
\<close>

definition same :: "(nat \<Rightarrow> 'k::linorder) \<Rightarrow> nat \<Rightarrow> nat list \<Rightarrow> elmp" where
  "same key z as = find (\<lambda>a. key a = key z) as"

definition least_above :: "(nat \<Rightarrow> 'k::linorder) \<Rightarrow> nat \<Rightarrow> nat list \<Rightarrow> elmp" where
  "least_above key z as = find (\<lambda>a. key z \<le> key a) as"

definition place :: "(nat \<Rightarrow> 'k::linorder) \<Rightarrow> nat \<Rightarrow> nat list \<Rightarrow> nat list" where
  "place key z as = takeWhile (\<lambda>a. key a < key z) as @ z # dropWhile (\<lambda>a. key a < key z) as"

lemma find_app: "find P (as @ bs) = (case find P as of None \<Rightarrow> find P bs | Some a \<Rightarrow> Some a)"
  by (induction as) auto

lemma same_mid:
  assumes "ascending key (as @ b # bs)"
  shows "key z < key b \<Longrightarrow> same key z (as @ b # bs) = same key z as"
    and "key b < key z \<Longrightarrow> same key z (as @ b # bs) = same key z bs"
    and "key b = key z \<Longrightarrow> same key z (as @ b # bs) = Some b"
proof -
  have lt: "\<forall>a \<in> set as. key a < key b" "\<forall>c \<in> set bs. key b < key c" using assms by auto
  show "same key z (as @ b # bs) = same key z as" if "key z < key b"
  proof -
    have "find (\<lambda>a. key a = key z) bs = None" using lt that by (force simp: find_None_iff)
    then show ?thesis using that by (auto simp: same_def find_app split: option.splits)
  qed
  have "find (\<lambda>a. key a = key z) as = None" if "key b \<le> key z" using lt that by (force simp: find_None_iff)
  then show "key b < key z \<Longrightarrow> same key z (as @ b # bs) = same key z bs"
    "key b = key z \<Longrightarrow> same key z (as @ b # bs) = Some b"
    by (auto simp: same_def find_app)
qed

lemma least_above_mid:
  assumes "ascending key (as @ b # bs)"
  shows "key z \<le> key b \<Longrightarrow> least_above key z (as @ b # bs) =
           (case least_above key z as of None \<Rightarrow> Some b | Some a \<Rightarrow> Some a)"
    and "key b < key z \<Longrightarrow> least_above key z (as @ b # bs) = least_above key z bs"
    and "key b = key z \<Longrightarrow> least_above key z (as @ b # bs) = Some b"
proof -
  have lt: "\<forall>a \<in> set as. key a < key b" using assms by auto
  show "key z \<le> key b \<Longrightarrow> least_above key z (as @ b # bs) =
      (case least_above key z as of None \<Rightarrow> Some b | Some a \<Rightarrow> Some a)"
    by (simp add: least_above_def find_app split: option.splits)
  have "find (\<lambda>a. key z \<le> key a) as = None" if "key b \<le> key z" using lt that by (force simp: find_None_iff)
  then show "key b < key z \<Longrightarrow> least_above key z (as @ b # bs) = least_above key z bs"
    "key b = key z \<Longrightarrow> least_above key z (as @ b # bs) = Some b"
    by (auto simp: least_above_def find_app)
qed

lemma place_parts:
  assumes "\<forall>a \<in> set as. key a < key z" and "\<forall>a \<in> set bs. key z < key a"
  shows "place key z (as @ bs) = as @ z # bs"
proof -
  have "takeWhile (\<lambda>a. key a < key z) bs = []" "dropWhile (\<lambda>a. key a < key z) bs = bs"
    using assms(2) by (cases bs; auto)+
  then show ?thesis using assms(1) by (simp add: place_def)
qed

lemma place_ascending:
  assumes "ascending key as" and "same key z as = None"
  shows "ascending key (place key z as)"
  using assms
proof (induction as)
  case (Cons a as)
  have a: "ascending key as" "\<forall>b \<in> set as. key a < key b" using Cons.prems(1) ascending_mid [of key "[]" a as] by auto
  have *: "key a \<noteq> key z" "same key z as = None" using Cons.prems(2) by (auto simp: same_def split: if_splits)
  show ?case
  proof (cases "key a < key z")
    case True
    have "set (place key z as) = insert z (set as)" 
      using set_append [of "takeWhile (\<lambda>a. key a < key z) as" "dropWhile (\<lambda>a. key a < key z) as"]
      by (simp add: place_def)
    then show ?thesis using True Cons.IH [OF a(1) *(2)] a(2) ascending_mid [of key "[]" a "place key z as"]
      by (simp add: place_def ascending_def)
  next
    case False
    then have "key z < key a" using *(1) by simp
    then show ?thesis using False Cons.prems(1) a(2) ascending_mid [of key "[]" z "a # as"]
      by (auto simp: place_def ascending_def)
  qed
qed (simp add: place_def ascending_def)

section \<open>Search and insertion\<close>

text \<open>
  What the macros need of the comparison function: on the elements \<open>K\<close> it compares keys of a linear
  order.
\<close>

locale rb_order =
  fixes cmp :: rb_cmp and key :: "nat \<Rightarrow> 'k::linorder" and K :: "nat set"
  assumes cmp_keys: "a \<in> K \<Longrightarrow> b \<in> K \<Longrightarrow>
    \<exists>i. cmp (Some a) (Some b) = Some i \<and> (i < 0 \<longleftrightarrow> key a < key b) \<and> (0 < i \<longleftrightarrow> key b < key a)"
begin

lemma cmp_cases:
  assumes "z \<in> K" and "a \<in> K"
  obtains i where "cmp (Some z) (Some a) = Some i" and "i < 0" and "key z < key a"
  | i where "cmp (Some z) (Some a) = Some i" and "0 < i" and "key a < key z"
  | "cmp (Some z) (Some a) = Some 0" and "key a = key z"
proof -
  obtain i where i: "cmp (Some z) (Some a) = Some i" "i < 0 \<longleftrightarrow> key z < key a" "0 < i \<longleftrightarrow> key a < key z"
    using cmp_keys [OF assms] by blast
  then show thesis using that by (cases "i = 0") (auto simp: neq_iff)
qed

lemma find_loop_at:
  assumes "rb_at D H cs t" and "ascending key (infos t)" and "set (infos t) \<subseteq> K" and z: "z \<in> K"
  shows "find_loop cmp H (Some z) (tp t) = Some (same key z (infos t))"
  using assms(1-3)
proof (induction t arbitrary: cs)
  case (Nd c l a r)
  note at = at_elm [OF Nd.prems(1)] at_elm_down [OF Nd.prems(1)] and asc = Nd.prems(2) [simplified infos.simps]
  have sub: "ascending key (infos l)" "ascending key (infos r)" "set (infos l) \<subseteq> K" "set (infos r) \<subseteq> K" "a \<in> K"
    using Nd.prems by simp_all
  from z sub(5) show ?case
  proof (cases rule: cmp_cases)
    case (1 i)
    then show ?thesis using at Nd.IH(1) [OF at(5) sub(1,3)] same_mid(1) [OF asc] by (subst find_loop.simps) simp
  next
    case (2 i)
    then show ?thesis using at Nd.IH(2) [OF at(6) sub(2,4)] same_mid(2) [OF asc] by (subst find_loop.simps) simp
  next
    case 3
    then show ?thesis using same_mid(3) [OF asc] by (subst find_loop.simps) simp
  qed
qed (simp add: find_loop.simps same_def)

lemma nfind_loop_at:
  assumes "rb_at D H cs t" and "ascending key (infos t)" and "set (infos t) \<subseteq> K" and z: "z \<in> K"
  shows "nfind_loop cmp H (Some z) (tp t) res =
           Some (case least_above key z (infos t) of None \<Rightarrow> res | Some a \<Rightarrow> Some a)"
  using assms(1-3)
proof (induction t arbitrary: cs res)
  case (Nd c l a r)
  note at = at_elm [OF Nd.prems(1)] at_elm_down [OF Nd.prems(1)] and asc = Nd.prems(2) [simplified infos.simps]
  have sub: "ascending key (infos l)" "ascending key (infos r)" "set (infos l) \<subseteq> K" "set (infos r) \<subseteq> K" "a \<in> K"
    using Nd.prems by simp_all
  from z sub(5) show ?case
  proof (cases rule: cmp_cases)
    case (1 i)
    then show ?thesis using at Nd.IH(1) [OF at(5) sub(1,3)] least_above_mid(1) [OF asc, of z]
      by (subst nfind_loop.simps) (simp split: option.splits)
  next
    case (2 i)
    then show ?thesis using at Nd.IH(2) [OF at(6) sub(2,4)] least_above_mid(2) [OF asc]
      by (subst nfind_loop.simps) simp
  next
    case 3
    then show ?thesis using least_above_mid(3) [OF asc] by (subst nfind_loop.simps) simp
  qed
qed (simp add: nfind_loop.simps least_above_def)

lemma tree_find:
  assumes "holds_tree D H as" and "ascending key as" and "set as \<subseteq> K" and "z \<in> K"
  shows "RB_FIND cmp H (Some z) = Some (same key z as)" and "RB_NFIND cmp H (Some z) = Some (least_above key z as)"
proof -
  obtain t where t: "rb_at D H [] t" "infos t = as" using assms(1) by (auto simp: holds_tree_def)
  show "RB_FIND cmp H (Some z) = Some (same key z as)"
    using find_loop_at [OF t(1)] assms t(2) at_top_root [OF t(1)] by (simp add: RB_FIND_def)
  show "RB_NFIND cmp H (Some z) = Some (least_above key z as)"
    using nfind_loop_at [OF t(1), of z None] assms t(2) at_top_root [OF t(1)]
    by (simp add: RB_NFIND_def split: option.splits)
qed

text \<open>
  The descent of an insertion finds the element with an equal key, or the leaf where the new one
  belongs; the last comparison says on which side of the parent that is.
\<close>

fun side_ok :: "eframe list \<Rightarrow> int \<Rightarrow> bool" where
  "side_ok [] i = True"
| "side_ok (LF c a r # cs) i = (i < 0)"
| "side_ok (RF c l a # cs) i = (0 < i)"

lemma rb_descend_found:
  assumes "rb_at D H cs t" and "ascending key (infos t)" and "set (infos t) \<subseteq> K" and z: "z \<in> K"
    and "same key z (infos t) = Some a"
  shows "rb_descend cmp H (Some z) (tp t) p i = Some (Inl (Some a))"
  using assms(1-3,5)
proof (induction t arbitrary: cs p i)
  case (Nd c l b r)
  note at = at_elm [OF Nd.prems(1)] at_elm_down [OF Nd.prems(1)] and asc = Nd.prems(2) [simplified infos.simps]
  have sub: "ascending key (infos l)" "ascending key (infos r)" "set (infos l) \<subseteq> K" "set (infos r) \<subseteq> K" "b \<in> K"
    using Nd.prems by simp_all
  from z sub(5) show ?case
  proof (cases rule: cmp_cases)
    case (1 j)
    then show ?thesis using at Nd.IH(1) [OF at(5) sub(1,3)] same_mid(1) [OF asc] Nd.prems(4)
      by (subst rb_descend.simps) simp
  next
    case (2 j)
    then show ?thesis using at Nd.IH(2) [OF at(6) sub(2,4)] same_mid(2) [OF asc] Nd.prems(4)
      by (subst rb_descend.simps) simp
  next
    case 3
    then show ?thesis using same_mid(3) [OF asc] Nd.prems(4) by (subst rb_descend.simps) simp
  qed
qed (simp add: same_def)

lemma rb_descend_leaf:
  assumes "rb_at D H cs t" and "ascending key (infos t)" and "set (infos t) \<subseteq> K" and z: "z \<in> K"
    and "same key z (infos t) = None" and "side_ok cs i"
  shows "\<exists>cs' i'. rb_descend cmp H (Some z) (tp t) (up cs) i = Some (Inr (up (cs' @ cs), i')) \<and> plug cs' Lf = t \<and>
           side_ok (cs' @ cs) i' \<and> (\<forall>b \<in> set (lpart cs'). key b < key z) \<and> (\<forall>b \<in> set (rpart cs'). key z < key b)"
  using assms(1-3,5,6)
proof (induction t arbitrary: cs i)
  case Lf
  then show ?case by (intro exI [of _ "[]"] exI [of _ i]) (simp add: rb_descend.simps)
next
  case (Nd c l b r)
  note at = at_elm [OF Nd.prems(1)] at_elm_down [OF Nd.prems(1)] and asc = Nd.prems(2) [simplified infos.simps]
  have sub: "ascending key (infos l)" "ascending key (infos r)" "set (infos l) \<subseteq> K" "set (infos r) \<subseteq> K" "b \<in> K"
      "\<forall>a \<in> set (infos l). key a < key b" "\<forall>a \<in> set (infos r). key b < key a"
    using Nd.prems by simp_all
  from z sub(5) show ?case
  proof (cases rule: cmp_cases)
    case (1 j)
    have n: "same key z (infos l) = None" using same_mid(1) [OF asc 1(3)] Nd.prems(4) by simp
    obtain cs' i' where cs': "rb_descend cmp H (Some z) (tp l) (Some b) j = Some (Inr (up (cs' @ LF c b r # cs), i'))"
        "plug cs' Lf = l" "side_ok (cs' @ LF c b r # cs) i'"
        "\<forall>b \<in> set (lpart cs'). key b < key z" "\<forall>b \<in> set (rpart cs'). key z < key b"
      using Nd.IH(1) [OF at(5) sub(1,3) n, of j] 1(2) by auto
    moreover have "\<forall>a \<in> set (infos r). key z < key a" using sub(7) 1(3) less_trans by blast
    ultimately show ?thesis using at 1
      by (intro exI [of _ "cs' @ [LF c b r]"] exI [of _ i'], subst rb_descend.simps) auto
  next
    case (2 j)
    have n: "same key z (infos r) = None" using same_mid(2) [OF asc 2(3)] Nd.prems(4) by simp
    obtain cs' i' where cs': "rb_descend cmp H (Some z) (tp r) (Some b) j = Some (Inr (up (cs' @ RF c l b # cs), i'))"
        "plug cs' Lf = r" "side_ok (cs' @ RF c l b # cs) i'"
        "\<forall>b \<in> set (lpart cs'). key b < key z" "\<forall>b \<in> set (rpart cs'). key z < key b"
      using Nd.IH(2) [OF at(6) sub(2,4) n, of j] 2(2) by auto
    moreover have "\<forall>a \<in> set (infos l). key a < key z" using sub(6) 2(3) less_trans by blast
    ultimately show ?thesis using at 2
      by (intro exI [of _ "cs' @ [RF c l b]"] exI [of _ i'], subst rb_descend.simps) auto
  next
    case 3
    then show ?thesis using same_mid(3) [OF asc] Nd.prems(4) by simp
  qed
qed

lemma rb_link_at:
  assumes at: "rb_at D H cs Lf" and z: "z \<in> D" "z \<notin> set (lpart cs @ rpart cs)" and i: "side_ok cs i"
  shows "\<exists>H'. rb_link H (Some z) (up cs) i = Some H' \<and> rb_at D H' cs (Nd RED Lf z Lf)"
proof -
  obtain e where e: "rb_mem H z = Some e" using at z(1) by (auto simp: rb_at_def)
  have RED: "rbe_color_update (\<lambda>_. RED) (rbe_left_update (\<lambda>_. None) (rbe_right_update (\<lambda>_. None)
      (rbe_parent_update (\<lambda>_. p) e))) = mk_entry RED None None p" for p
    by (simp add: mk_entry_def)
  show ?thesis
  proof (cases cs rule: up.cases)
    case 1
    show ?thesis using at z e unfolding rb_at_def 1
      by (auto simp: rb_link_def RB_SET_def rb_ops RED)
  next
    case (2 c' a r cs')
    show ?thesis using at z e i unfolding rb_at_def 2
      by (auto simp: rb_link_def RB_SET_def rb_ops RED)
  next
    case (3 c' l a cs')
    show ?thesis using at z e i unfolding rb_at_def 3
      by (auto simp: rb_link_def RB_SET_def rb_ops RED)
  qed
qed

text \<open>Insertion puts a new key in its place and returns the element that has it otherwise.\<close>

lemma tree_insert_present:
  assumes "holds_tree D H as" and "ascending key as" and "set as \<subseteq> K" and "z \<in> K" and "same key z as = Some a"
  shows "RB_INSERT cmp H (Some z) = Some (Some a, H)"
proof -
  obtain t where t: "rb_at D H [] t" "infos t = as" using assms(1) by (auto simp: holds_tree_def)
  show ?thesis
    using rb_descend_found [OF t(1), of z a None 0] assms t(2) at_top_root [OF t(1)] by (simp add: RB_INSERT_def)
qed

lemma tree_insert_new:
  assumes "holds_tree D H as" and "ascending key as" and "set as \<subseteq> K" and z: "z \<in> K" "z \<in> D" and new: "same key z as = None"
  shows "\<exists>H'. RB_INSERT cmp H (Some z) = Some (None, H') \<and> holds_tree D H' (place key z as)"
proof -
  obtain t where t: "rb_at D H [] t" "rb_ok t" "infos t = as" using assms(1) by (auto simp: holds_tree_def)
  obtain cs i where d: "rb_descend cmp H (Some z) (rbh_root H) None 0 = Some (Inr (up cs, i))" "plug cs Lf = t"
      "side_ok cs i" and lt: "\<forall>b \<in> set (lpart cs). key b < key z" "\<forall>b \<in> set (rpart cs). key z < key b"
    using rb_descend_leaf [OF t(1), of z 0] assms t(3) at_top_root [OF t(1)] by auto
  have as: "as = lpart cs @ rpart cs" using t(3) d(2) infos_plug [of cs Lf] by simp
  have "z \<notin> set as" using new by (auto simp: same_def find_None_iff)
  moreover have "rb_at D H cs Lf" using t(1) d(2) rb_at_plug by metis
  ultimately obtain H1 where H1: "rb_link H (Some z) (up cs) i = Some H1" "rb_at D H1 cs (Nd RED Lf z Lf)"
    using rb_link_at [OF _ z(2) _ d(3)] as by blast
  have "cinv 0 cs" using plug_inv_rev [of cs Lf] t(2) d(2) by (simp add: rb_ok_def)
  from RB_INSERT_COLOR_at [OF H1(2) this] obtain H' t' where "RB_INSERT_COLOR H1 (Some z) = Some H'"
      "rb_at D H' [] t'" "infos t' = lpart cs @ z # rpart cs" "rb_ok t'" by blast
  then show ?thesis using d(1) H1(1) place_parts [OF lt] as by (auto simp: RB_INSERT_def holds_tree_def)
qed

end

end
