(* ===== verification/Nty_Sched.thy ===== *)
theory Nty_Sched
  imports CPrelude "HOL-Library.Word" "HOL-Library.Monad_Syntax"
begin

text \<open>
  The coroutine scheduler of NtyCo (\<open>nty_coroutine.c\<close>, \<open>nty_schedule.c\<close>, \<open>nty_epoll.c\<close> and
  \<open>nty_poll_inner\<close> of \<open>nty_socket.c\<close>), in the configuration of the header: stack copying with
  \<open>ucontext\<close>. It is the network layer that the server is built with.
\<close>

unbundle bit_operations_syntax

section \<open>Data\<close>

subsection \<open>Status bits and poll events\<close>

datatype nty_coroutine_status =
    WAIT_READ | WAIT_WRITE | NEW | READY | EXITED | BUSY | SLEEPING | EXPIRED | FDEOF | DETACH
  | CANCELLED | PENDING_RUNCOMPUTE | RUNCOMPUTE | WAIT_IO_READ | WAIT_IO_WRITE | WAIT_MULTI

fun status_num :: "nty_coroutine_status \<Rightarrow> nat" where
  "status_num WAIT_READ = 0" | "status_num WAIT_WRITE = 1" | "status_num NEW = 2"
| "status_num READY = 3" | "status_num EXITED = 4" | "status_num BUSY = 5"
| "status_num SLEEPING = 6" | "status_num EXPIRED = 7" | "status_num FDEOF = 8"
| "status_num DETACH = 9" | "status_num CANCELLED = 10" | "status_num PENDING_RUNCOMPUTE = 11"
| "status_num RUNCOMPUTE = 12" | "status_num WAIT_IO_READ = 13" | "status_num WAIT_IO_WRITE = 14"
| "status_num WAIT_MULTI = 15"

definition BIT :: "nty_coroutine_status \<Rightarrow> 32 word" where
  "BIT x = push_bit (status_num x) 1"

definition CLEARBIT :: "nty_coroutine_status \<Rightarrow> 32 word" where
  "CLEARBIT x = NOT (push_bit (status_num x) 1)"

definition has :: "32 word \<Rightarrow> nty_coroutine_status \<Rightarrow> bool" where
  "has status x \<longleftrightarrow> status AND BIT x \<noteq> 0"

definition POLLIN :: "16 word" where "POLLIN = 1"
definition POLLOUT :: "16 word" where "POLLOUT = 4"
definition POLLERR :: "16 word" where "POLLERR = 8"
definition POLLHUP :: "16 word" where "POLLHUP = 16"
definition POLLRDNORM :: "16 word" where "POLLRDNORM = 64"
definition POLLWRNORM :: "16 word" where "POLLWRNORM = 256"
definition EPOLLIN :: "32 word" where "EPOLLIN = 1"
definition EPOLLOUT :: "32 word" where "EPOLLOUT = 4"
definition EPOLLERR :: "32 word" where "EPOLLERR = 8"
definition EPOLLHUP :: "32 word" where "EPOLLHUP = 16"
definition EPOLLRDNORM :: "32 word" where "EPOLLRDNORM = 64"
definition EPOLLWRNORM :: "32 word" where "EPOLLWRNORM = 256"

definition nty_pollevent_2epoll :: "16 word \<Rightarrow> 32 word" where
  "nty_pollevent_2epoll events =
     (let e = 0;
          e = (if events AND POLLIN \<noteq> 0 then e OR EPOLLIN else e);
          e = (if events AND POLLOUT \<noteq> 0 then e OR EPOLLOUT else e);
          e = (if events AND POLLHUP \<noteq> 0 then e OR EPOLLHUP else e);
          e = (if events AND POLLERR \<noteq> 0 then e OR EPOLLERR else e);
          e = (if events AND POLLRDNORM \<noteq> 0 then e OR EPOLLRDNORM else e);
          e = (if events AND POLLWRNORM \<noteq> 0 then e OR EPOLLWRNORM else e)
      in e)"

definition nty_epollevent_2poll :: "32 word \<Rightarrow> 16 word" where
  "nty_epollevent_2poll events =
     (let e = 0;
          e = (if events AND EPOLLIN \<noteq> 0 then e OR POLLIN else e);
          e = (if events AND EPOLLOUT \<noteq> 0 then e OR POLLOUT else e);
          e = (if events AND EPOLLHUP \<noteq> 0 then e OR POLLHUP else e);
          e = (if events AND EPOLLERR \<noteq> 0 then e OR POLLERR else e);
          e = (if events AND EPOLLRDNORM \<noteq> 0 then e OR POLLRDNORM else e);
          e = (if events AND EPOLLWRNORM \<noteq> 0 then e OR POLLWRNORM else e)
      in e)"

subsection \<open>Coroutines and the scheduler\<close>

text \<open>
  What the function of a coroutine does, as the sequence of its calls of the library: polling
  (the list holds descriptors and poll events), the part of \<open>nty_poll_inner\<close> behind its yield,
  sleeping, \<open>nty_coroutine_renice\<close>, detaching, creating a coroutine, and work that leaves the
  given bytes as the used part of the stack. A coroutine whose sequence is at its end returns.
\<close>

datatype act =
    Poll "(int \<times> 16 word) list" int
  | Polled "(int \<times> 16 word) list"
  | Sleep "64 word"
  | Renice
  | Detach
  | Create "act list"
  | Work string

record nty_coroutine =
  co_func :: "act list"
  co_status :: "32 word"
  co_id :: "64 word"
  co_fd :: int
  co_events :: "16 word"
  co_ops :: "32 word"
  co_sleep_usecs :: "64 word"
  co_birth :: "64 word"
  co_stack :: string
  co_stack_size :: nat

text \<open>
  The scheduler. Coroutines are known by numbers; \<open>cos\<close> holds those that are allocated. The
  queue of ready coroutines is the list that \<open>nty_queue.h\<close> implements; the two trees of
  \<open>nty_tree.h\<close> are their elements in ascending order of the keys. \<open>polled\<close> is the interest set
  of the epoll descriptor, with the \<open>eventfd\<close> that the scheduler registers there, \<open>used\<close> the number
  of bytes the running coroutine has on the stack, and \<open>clock\<close>, \<open>callocs\<close> the readings of the clock and the outcomes of allocations to come.
\<close>

record nty_schedule =
  birth :: "64 word"
  stack :: string
  used :: nat
  spawned_coroutines :: int
  default_timeout :: "64 word"
  curr_thread :: "nat option"
  poller_fd :: int
  eventfd :: int
  eventlist :: "(int \<times> 32 word) list"
  num_new_events :: nat
  ready :: "nat list"
  sleeping :: "nat list"
  waiting :: "nat list"
  cos :: "nat \<rightharpoonup> nty_coroutine"
  fresh_co :: nat
  polled :: "int \<rightharpoonup> 32 word"
  clock :: "64 word list"
  now :: "64 word"
  callocs :: mallocs

definition NTY_CO_MAX_STACKSIZE :: nat where
  "NTY_CO_MAX_STACKSIZE = 128 * 1024"

subsection \<open>Access\<close>

text \<open>
  \<open>None\<close> is undefined behaviour or a failed assertion: the process does not go on. Accessing a
  coroutine that was freed is undefined.
\<close>

definition co_get :: "nty_schedule \<Rightarrow> nat \<Rightarrow> nty_coroutine option" where
  "co_get S c = cos S c"

definition co_upd :: "nty_schedule \<Rightarrow> nat \<Rightarrow> (nty_coroutine \<Rightarrow> nty_coroutine) \<Rightarrow> nty_schedule option" where
  "co_upd S c f = do { co \<leftarrow> cos S c; Some (S\<lparr>cos := (cos S)(c \<mapsto> f co)\<rparr>) }"

definition nty_coroutine_diff_usecs :: "64 word \<Rightarrow> 64 word \<Rightarrow> 64 word" where
  "nty_coroutine_diff_usecs t1 t2 = t2 - t1"

definition nty_coroutine_usec_now :: "nty_schedule \<Rightarrow> 64 word \<times> nty_schedule" where
  "nty_coroutine_usec_now S = (case clock S of
     [] \<Rightarrow> (now S, S)
   | t # ts \<Rightarrow> (t, S\<lparr>now := t, clock := ts\<rparr>))"

text \<open>
  The operations of \<open>nty_tree.h\<close> on the elements in order. The keys are read from the elements,
  so that a tree with a freed element is undefined to search. \<open>Nty_Tree_Sched\<close> proves that the macros
  implement them.
\<close>

definition keys :: "nty_schedule \<Rightarrow> (nty_coroutine \<Rightarrow> 'k) \<Rightarrow> nat list \<Rightarrow> ('k \<times> nat) list option" where
  "keys S key cs = (if list_all (\<lambda>c. cos S c \<noteq> None) cs then Some (map (\<lambda>c. (key (the (cos S c)), c)) cs) else None)"

definition rb_find :: "nty_schedule \<Rightarrow> (nty_coroutine \<Rightarrow> 'k) \<Rightarrow> nat list \<Rightarrow> 'k \<Rightarrow> nat option option" where
  "rb_find S key cs k = do { ks \<leftarrow> keys S key cs; Some (map_of ks k) }"

definition rb_remove :: "nat list \<Rightarrow> nat \<Rightarrow> nat list option" where
  "rb_remove cs c = (if c \<in> set cs then Some (remove1 c cs) else None)"

fun rb_place :: "('k::linorder \<times> nat) list \<Rightarrow> 'k \<Rightarrow> nat \<Rightarrow> nat list" where
  "rb_place [] k c = [c]"
| "rb_place ((l, d) # ks) k c = (if k < l then c # d # map snd ks else d # rb_place ks k c)"

text \<open>Insertion: the element with an equal key if there is one, and the new tree otherwise.\<close>

definition rb_insert :: "nty_schedule \<Rightarrow> (nty_coroutine \<Rightarrow> 'k::linorder) \<Rightarrow> nat list \<Rightarrow> nat \<Rightarrow> (nat option \<times> nat list) option" where
  "rb_insert S key cs c =
     do { co \<leftarrow> cos S c; ks \<leftarrow> keys S key cs;
          if c \<in> set cs then None
          else (case map_of ks (key co) of
                  Some d \<Rightarrow> Some (Some d, cs)
                | None \<Rightarrow> Some (None, rb_place ks (key co) c)) }"

definition rb_min :: "nty_schedule \<Rightarrow> nat list \<Rightarrow> nat option option" where
  "rb_min S cs = (if list_all (\<lambda>c. cos S c \<noteq> None) cs
     then Some (case cs of [] \<Rightarrow> None | c # _ \<Rightarrow> Some c) else None)"

text \<open>Appending to the ready queue; an element that is in the queue already corrupts it.\<close>

definition ready_insert_tail :: "nty_schedule \<Rightarrow> nat \<Rightarrow> nty_schedule option" where
  "ready_insert_tail S c = (if c \<in> set (ready S) then None else Some (S\<lparr>ready := ready S @ [c]\<rparr>))"

section \<open>Sleeping and waiting\<close>

partial_function (option) sleepdown_insert :: "nty_schedule \<Rightarrow> nat \<Rightarrow> nty_schedule option" where
  "sleepdown_insert S c =
     do { (co_tmp, t) \<leftarrow> rb_insert S co_sleep_usecs (sleeping S) c;
          case co_tmp of
            Some _ \<Rightarrow> do {
              S \<leftarrow> co_upd S c (\<lambda>co. co\<lparr>co_sleep_usecs := co_sleep_usecs co + 1\<rparr>);
              sleepdown_insert S c }
          | None \<Rightarrow> co_upd (S\<lparr>sleeping := t\<rparr>) c (\<lambda>co. co\<lparr>co_status := co_status co OR BIT SLEEPING\<rparr>) }"

definition nty_schedule_sched_sleepdown :: "nty_schedule \<Rightarrow> nat \<Rightarrow> 64 word \<Rightarrow> nty_schedule option" where
  "nty_schedule_sched_sleepdown S c msecs =
     do { let usecs = msecs * 1000;
          co \<leftarrow> co_get S c;
          co_tmp \<leftarrow> rb_find S co_sleep_usecs (sleeping S) (co_sleep_usecs co);
          S \<leftarrow> (case co_tmp of
                  None \<Rightarrow> Some S
                | Some d \<Rightarrow> do { t \<leftarrow> rb_remove (sleeping S) d; Some (S\<lparr>sleeping := t\<rparr>) });
          let (t, S) = nty_coroutine_usec_now S;
          S \<leftarrow> co_upd S c (\<lambda>co. co\<lparr>co_sleep_usecs := nty_coroutine_diff_usecs (birth S) t + usecs\<rparr>);
          if msecs = 0 then Some S else sleepdown_insert S c }"

definition nty_schedule_desched_sleepdown :: "nty_schedule \<Rightarrow> nat \<Rightarrow> nty_schedule option" where
  "nty_schedule_desched_sleepdown S c =
     do { co \<leftarrow> co_get S c;
          if has (co_status co) SLEEPING
          then do {
            t \<leftarrow> rb_remove (sleeping S) c;
            co_upd (S\<lparr>sleeping := t\<rparr>) c
              (\<lambda>co. co\<lparr>co_status := ((co_status co AND CLEARBIT SLEEPING) OR BIT READY) AND CLEARBIT EXPIRED\<rparr>) }
          else Some S }"

definition nty_schedule_search_wait :: "nty_schedule \<Rightarrow> int \<Rightarrow> (nat \<times> nty_schedule) option" where
  "nty_schedule_search_wait S fd =
     do { co \<leftarrow> rb_find S co_fd (waiting S) fd;
          c \<leftarrow> co;
          S \<leftarrow> co_upd S c (\<lambda>co. co\<lparr>co_status := 0\<rparr>);
          Some (c, S) }"

definition nty_schedule_desched_wait :: "nty_schedule \<Rightarrow> int \<Rightarrow> nty_schedule option" where
  "nty_schedule_desched_wait S fd =
     do { co \<leftarrow> rb_find S co_fd (waiting S) fd;
          c \<leftarrow> co;
          t \<leftarrow> rb_remove (waiting S) c;
          S \<leftarrow> co_upd (S\<lparr>waiting := t\<rparr>) c (\<lambda>co. co\<lparr>co_status := 0\<rparr>);
          nty_schedule_desched_sleepdown S c }"

definition nty_schedule_sched_wait :: "nty_schedule \<Rightarrow> nat \<Rightarrow> int \<Rightarrow> 16 word \<Rightarrow> 64 word \<Rightarrow> nty_schedule option" where
  "nty_schedule_sched_wait S c fd events timeout =
     do { co \<leftarrow> co_get S c;
          if has (co_status co) WAIT_READ \<or> has (co_status co) WAIT_WRITE then None
          else do {
            bit \<leftarrow> (if events AND POLLIN \<noteq> 0 then Some (status_num WAIT_READ)
                    else if events AND POLLOUT \<noteq> 0 then Some (status_num WAIT_WRITE)
                    else None);
            S \<leftarrow> co_upd S c (\<lambda>co. co\<lparr>co_status := co_status co OR of_nat bit, co_fd := fd, co_events := events\<rparr>);
            (co_tmp, t) \<leftarrow> rb_insert S co_fd (waiting S) c;
            if co_tmp \<noteq> None then None
            else if timeout = 1 then Some (S\<lparr>waiting := t\<rparr>)
            else nty_schedule_sched_sleepdown (S\<lparr>waiting := t\<rparr>) c timeout }}"

definition nty_schedule_cancel_wait :: "nty_schedule \<Rightarrow> nat \<Rightarrow> nty_schedule option" where
  "nty_schedule_cancel_wait S c = do { t \<leftarrow> rb_remove (waiting S) c; Some (S\<lparr>waiting := t\<rparr>) }"

section \<open>Coroutines\<close>

text \<open>
  Saving copies the used part of the shared stack, from its lowest byte to the top, to the
  coroutine's buffer, which is enlarged when its recorded size is too small.
\<close>

definition save_stack :: "nty_schedule \<Rightarrow> nat \<Rightarrow> nty_schedule option" where
  "save_stack S c =
     do { co \<leftarrow> co_get S c;
          if \<not> used S \<le> NTY_CO_MAX_STACKSIZE \<or> length (stack S) < used S then None
          else let live = drop (length (stack S) - used S) (stack S);
                   (ok, ms) = (if co_stack_size co < used S then kvstore_malloc (callocs S) else (True, callocs S))
               in if \<not> ok then None
                  else co_upd (S\<lparr>callocs := ms\<rparr>) c
                    (\<lambda>co. co\<lparr>co_stack := live @ (if co_stack_size co < used S then [] else drop (used S) (co_stack co)),
                            co_stack_size := used S\<rparr>) }"

definition load_stack :: "nty_schedule \<Rightarrow> nat \<Rightarrow> nty_schedule option" where
  "load_stack S c =
     do { co \<leftarrow> co_get S c;
          if length (stack S) < co_stack_size co \<or> length (co_stack co) < co_stack_size co then None
          else Some (S\<lparr>stack := take (length (stack S) - co_stack_size co) (stack S) @ take (co_stack_size co) (co_stack co),
                       used := co_stack_size co\<rparr>) }"

definition nty_coroutine_free :: "nty_schedule \<Rightarrow> nat \<Rightarrow> nty_schedule option" where
  "nty_coroutine_free S c =
     do { co \<leftarrow> co_get S c;
          n \<leftarrow> c_dec (spawned_coroutines S);
          Some (S\<lparr>spawned_coroutines := n, cos := (cos S)(c := None)\<rparr>) }"

definition nty_coroutine_init :: "nty_schedule \<Rightarrow> nat \<Rightarrow> nty_schedule option" where
  "nty_coroutine_init S c = co_upd (S\<lparr>used := 0\<rparr>) c (\<lambda>co. co\<lparr>co_status := BIT READY\<rparr>)"

text \<open>A coroutine gives up the processor; what it has still to do stays with it.\<close>

definition nty_coroutine_yield :: "nty_schedule \<Rightarrow> nat \<Rightarrow> act list \<Rightarrow> nty_schedule option" where
  "nty_coroutine_yield S c rest =
     do { S \<leftarrow> co_upd S c (\<lambda>co. co\<lparr>co_ops := 0, co_func := rest\<rparr>);
          co \<leftarrow> co_get S c;
          if \<not> has (co_status co) EXITED then save_stack S c else Some S }"

definition nty_coroutine_detach :: "nty_schedule \<Rightarrow> nat \<Rightarrow> nty_schedule option" where
  "nty_coroutine_detach S c = co_upd S c (\<lambda>co. co\<lparr>co_status := co_status co OR BIT DETACH\<rparr>)"

text \<open>
  Registering the \<open>eventfd\<close>; \<open>fd\<close> is what the call of \<open>eventfd\<close> returns. Nothing in the library
  writes to it.
\<close>

definition nty_epoller_ev_register_trigger :: "nty_schedule \<Rightarrow> int \<Rightarrow> nty_schedule option" where
  "nty_epoller_ev_register_trigger S fd =
     do { S \<leftarrow> (if eventfd S = 0 then if fd = -1 then None else Some (S\<lparr>eventfd := fd\<rparr>) else Some S);
          if polled S (eventfd S) \<noteq> None then None
          else Some (S\<lparr>polled := (polled S)(eventfd S \<mapsto> EPOLLIN)\<rparr>) }"

text \<open>
  Freeing the scheduler: the descriptors it closes. Its object and its stack are gone and the
  thread has no scheduler any more.
\<close>

definition nty_schedule_free :: "nty_schedule \<Rightarrow> int list" where
  "nty_schedule_free S =
     (if poller_fd S > 0 then [poller_fd S] else []) @ (if eventfd S > 0 then [eventfd S] else [])"

text \<open>\<open>pfd\<close> and \<open>efd\<close> are the results of \<open>epoll_create\<close> and \<open>eventfd\<close>.\<close>

definition nty_schedule_create :: "nat \<Rightarrow> int \<Rightarrow> int \<Rightarrow> 64 word \<Rightarrow> mallocs \<Rightarrow> (int option \<times> nty_schedule option) option" where
  "nty_schedule_create stack_size pfd efd t ms =
     (let sched_stack_size = (if stack_size \<noteq> 0 then stack_size else NTY_CO_MAX_STACKSIZE);
          (ok, ms) = kvstore_malloc ms
      in if \<not> ok then Some (Some (-1), None)
         else if pfd = -1 then Some (Some (-2), None)
         else do {
           S \<leftarrow> nty_epoller_ev_register_trigger
                 \<lparr>birth = 0, stack = [], used = 0, spawned_coroutines = 0, default_timeout = 0, curr_thread = None,
                  poller_fd = pfd, eventfd = 0, eventlist = [], num_new_events = 0, ready = [], sleeping = [],
                  waiting = [], cos = Map.empty, fresh_co = 0, polled = Map.empty, clock = [], now = t, callocs = ms\<rparr> efd;
           let (ok, ms) = kvstore_malloc ms;
           if \<not> ok then None
           else Some (None, Some (S\<lparr>stack := replicate sched_stack_size (CHR 0x00), default_timeout := 3000000,
                                    birth := t, callocs := ms\<rparr>)) })"

definition co_create :: "nty_schedule \<Rightarrow> act list \<Rightarrow> (int \<times> nty_schedule) option" where
  "co_create S func =
     (let (ok, ms) = kvstore_malloc (callocs S); S = S\<lparr>callocs := ms\<rparr>
      in if \<not> ok then Some (-2, S)
         else do {
           n \<leftarrow> c_inc (spawned_coroutines S);
           let c = fresh_co S;
           let (t, S) = nty_coroutine_usec_now S;
           let co = \<lparr>co_func = func, co_status = BIT NEW, co_id = of_int (spawned_coroutines S), co_fd = -1,
                     co_events = 0, co_ops = 0, co_sleep_usecs = 0, co_birth = t, co_stack = [], co_stack_size = 0\<rparr>;
           S \<leftarrow> ready_insert_tail (S\<lparr>spawned_coroutines := n, cos := (cos S)(c \<mapsto> co), fresh_co := Suc c\<rparr>) c;
           Some (0, S) })"

text \<open>The scheduler of the thread is created with the first coroutine.\<close>

definition nty_coroutine_create ::
  "nty_schedule option \<Rightarrow> act list \<Rightarrow> int \<Rightarrow> int \<Rightarrow> 64 word \<Rightarrow> mallocs \<Rightarrow> (int \<times> nty_schedule option) option" where
  "nty_coroutine_create sched func pfd efd t ms =
     do { sched \<leftarrow> (case sched of
            Some S \<Rightarrow> Some (Some S)
          | None \<Rightarrow> do { (_, sched) \<leftarrow> nty_schedule_create 0 pfd efd t ms; Some sched });
          case sched of
            None \<Rightarrow> Some (-1, None)
          | Some S \<Rightarrow> do { (r, S) \<leftarrow> co_create S func; Some (r, Some S) } }"

subsection \<open>Running a coroutine\<close>

text \<open>The loops of \<open>nty_poll_inner\<close> before and behind its yield.\<close>

fun poll_register :: "nty_schedule \<Rightarrow> nat \<Rightarrow> (int \<times> 16 word) list \<Rightarrow> 64 word \<Rightarrow> nty_schedule option" where
  "poll_register S c [] timeout = Some S"
| "poll_register S c ((fd, events) # fds) timeout =
     do { let S = (if polled S fd = None then S\<lparr>polled := (polled S)(fd \<mapsto> nty_pollevent_2epoll events)\<rparr> else S);
          S \<leftarrow> co_upd S c (\<lambda>co. co\<lparr>co_events := events\<rparr>);
          S \<leftarrow> nty_schedule_sched_wait S c fd events timeout;
          poll_register S c fds timeout }"

fun poll_unregister :: "nty_schedule \<Rightarrow> (int \<times> 16 word) list \<Rightarrow> nty_schedule option" where
  "poll_unregister S [] = Some S"
| "poll_unregister S ((fd, events) # fds) =
     do { S \<leftarrow> nty_schedule_desched_wait (S\<lparr>polled := (polled S)(fd := None)\<rparr>) fd;
          poll_unregister S fds }"

text \<open>A function that has returned, in \<open>_exec\<close>.\<close>

definition exec_end :: "nty_schedule \<Rightarrow> nat \<Rightarrow> nty_schedule option" where
  "exec_end S c =
     do { S \<leftarrow> co_upd S c (\<lambda>co. co\<lparr>co_status := co_status co OR (BIT EXITED OR BIT FDEOF OR BIT DETACH)\<rparr>);
          nty_coroutine_yield S c [] }"

text \<open>
  \<open>run_co\<close> is what the coroutine does until it yields, with the bodies of \<open>nty_coroutine_sleep\<close> and
  \<open>nty_coroutine_renice\<close>. The number of the coroutine is \<open>curr_thread\<close>.
\<close>

fun run_co :: "nty_schedule \<Rightarrow> nat \<Rightarrow> act list \<Rightarrow> nty_schedule option" where
  "run_co S c [] = exec_end S c"
| "run_co S c (Poll fds timeout # rest) =
     (if timeout = 0 then run_co S c rest
      else do {
        let timeout = (if timeout < 0 then INT_MAX else timeout);
        S \<leftarrow> poll_register S c fds (of_int timeout);
        nty_coroutine_yield S c (Polled fds # rest) })"
| "run_co S c (Polled fds # rest) = do { S \<leftarrow> poll_unregister S fds; run_co S c rest }"
| "run_co S c (Sleep msecs # rest) =
     (if msecs = 0 then do { S \<leftarrow> ready_insert_tail S c; nty_coroutine_yield S c rest }
      else do { S \<leftarrow> nty_schedule_sched_sleepdown S c msecs; run_co S c rest })"
| "run_co S c (Renice # rest) =
     do { S \<leftarrow> co_upd S c (\<lambda>co. co\<lparr>co_ops := co_ops co + 1\<rparr>);
          co \<leftarrow> co_get S c;
          if co_ops co < 5 then run_co S c rest
          else do { S \<leftarrow> ready_insert_tail S c; nty_coroutine_yield S c rest } }"
| "run_co S c (Detach # rest) = do { S \<leftarrow> nty_coroutine_detach S c; run_co S c rest }"
| "run_co S c (Create func # rest) = do { (_, S) \<leftarrow> co_create S func; run_co S c rest }"
| "run_co S c (Work frame # rest) =
     (if length (stack S) < length frame then None
      else run_co (S\<lparr>stack := take (length (stack S) - length frame) (stack S) @ frame, used := length frame\<rparr>) c rest)"

definition nty_coroutine_resume :: "nty_schedule \<Rightarrow> nat \<Rightarrow> (int \<times> nty_schedule) option" where
  "nty_coroutine_resume S c =
     do { co \<leftarrow> co_get S c;
          S \<leftarrow> (if has (co_status co) NEW then nty_coroutine_init S c else load_stack S c);
          S \<leftarrow> run_co (S\<lparr>curr_thread := Some c\<rparr>) c (co_func co);
          let S = S\<lparr>curr_thread := None\<rparr>;
          co \<leftarrow> co_get S c;
          if has (co_status co) EXITED
          then do {
            S \<leftarrow> (if has (co_status co) DETACH then nty_coroutine_free S c else Some S);
            Some (-1, S) }
          else Some (0, S) }"

section \<open>The scheduler\<close>

definition nty_schedule_expired :: "nty_schedule \<Rightarrow> (nat option \<times> nty_schedule) option" where
  "nty_schedule_expired S =
     do { let (t, S) = nty_coroutine_usec_now S;
          co \<leftarrow> rb_min S (sleeping S);
          case co of
            None \<Rightarrow> Some (None, S)
          | Some c \<Rightarrow> do {
              co \<leftarrow> co_get S c;
              if co_sleep_usecs co \<le> nty_coroutine_diff_usecs (birth S) t
              then do { ts \<leftarrow> rb_remove (sleeping S) c; Some (Some c, S\<lparr>sleeping := ts\<rparr>) }
              else Some (None, S) } }"

definition nty_schedule_isdone :: "nty_schedule \<Rightarrow> bool" where
  "nty_schedule_isdone S \<longleftrightarrow> waiting S = [] \<and> sleeping S = [] \<and> ready S = []"

definition nty_schedule_min_timeout :: "nty_schedule \<Rightarrow> (64 word \<times> nty_schedule) option" where
  "nty_schedule_min_timeout S =
     do { let (t, S) = nty_coroutine_usec_now S;
          let t_diff_usecs = nty_coroutine_diff_usecs (birth S) t;
          co \<leftarrow> rb_min S (sleeping S);
          case co of
            None \<Rightarrow> Some (default_timeout S, S)
          | Some c \<Rightarrow> do {
              co \<leftarrow> co_get S c;
              let min = co_sleep_usecs co;
              Some (if t_diff_usecs < min then min - t_diff_usecs else 0, S) } }"

text \<open>The timeout in milliseconds that \<open>nty_epoller_wait\<close> passes on for the split time.\<close>

definition nty_epoller_wait_ms :: "nat \<Rightarrow> nat \<Rightarrow> nat" where
  "nty_epoller_wait_ms tv_sec tv_nsec = (tv_sec * 1000 * 1000000 + tv_nsec) div 1000000"

definition split_timeout :: "nat \<Rightarrow> nat \<times> nat" where
  "split_timeout usecs =
     (let tv_sec = usecs div 1000000
      in (tv_sec, if tv_sec \<noteq> 0 then (usecs mod 1000) * 1000 else usecs * 1000))"

text \<open>
  The calls of \<open>epoll_wait\<close>, repeated as long as they are interrupted; any other error fails the
  assertion. A call that is never answered does not return.
\<close>

datatype epoll_answer = Events "(int \<times> 32 word) list" | Interrupted | Epoll_failed

fun epoll_retry :: "epoll_answer list \<Rightarrow> (int \<times> 32 word) list option" where
  "epoll_retry [] = None"
| "epoll_retry (Interrupted # as) = epoll_retry as"
| "epoll_retry (Epoll_failed # as) = None"
| "epoll_retry (Events evs # as) = Some evs"

text \<open>\<open>as\<close> is what the calls of \<open>epoll_wait\<close> return, when there are any.\<close>

definition nty_schedule_epoll :: "nty_schedule \<Rightarrow> epoll_answer list \<Rightarrow> nty_schedule option" where
  "nty_schedule_epoll S as =
     do { (usecs, S) \<leftarrow> nty_schedule_min_timeout (S\<lparr>num_new_events := 0\<rparr>);
          if usecs \<noteq> 0 \<and> ready S = []
          then do { evs \<leftarrow> epoll_retry as; Some (S\<lparr>eventlist := evs, num_new_events := length evs\<rparr>) }
          else Some S }"

partial_function (option) expired_loop :: "nty_schedule \<Rightarrow> nty_schedule option" where
  "expired_loop S =
     do { (expired, S) \<leftarrow> nty_schedule_expired S;
          case expired of
            None \<Rightarrow> Some S
          | Some c \<Rightarrow> do { (_, S) \<leftarrow> nty_coroutine_resume S c; expired_loop S } }"

partial_function (option) ready_loop :: "nty_schedule \<Rightarrow> nat option \<Rightarrow> nty_schedule option" where
  "ready_loop S last_co_ready = (case ready S of
     [] \<Rightarrow> Some S
   | c # cs \<Rightarrow> do {
       let S = S\<lparr>ready := cs\<rparr>;
       co \<leftarrow> co_get S c;
       if has (co_status co) FDEOF then nty_coroutine_free S c
       else do {
         (_, S) \<leftarrow> nty_coroutine_resume S c;
         if Some c = last_co_ready then Some S else ready_loop S last_co_ready } })"

text \<open>The events from the last one to the first.\<close>

fun event_loop :: "nty_schedule \<Rightarrow> nat \<Rightarrow> nty_schedule option" where
  "event_loop S 0 = Some S"
| "event_loop S (Suc idx) =
     do { let (fd, events) = eventlist S ! idx;
          (c, S) \<leftarrow> nty_schedule_search_wait (S\<lparr>num_new_events := idx\<rparr>) fd;
          S \<leftarrow> (if events AND EPOLLHUP \<noteq> 0 then co_upd S c (\<lambda>co. co\<lparr>co_status := co_status co OR BIT FDEOF\<rparr>) else Some S);
          (_, S) \<leftarrow> nty_coroutine_resume S c;
          event_loop S idx }"

definition sched_pass :: "nty_schedule \<Rightarrow> nty_schedule option" where
  "sched_pass S =
     do { S \<leftarrow> expired_loop S; ready_loop S (if ready S = [] then None else Some (last (ready S))) }"

text \<open>
  The main loop for a number of rounds, with what the calls of \<open>epoll_wait\<close> return in each; it is
  left when nothing is to be done any more, and the scheduler is freed.
\<close>

fun schedule_loop :: "nty_schedule \<Rightarrow> epoll_answer list list \<Rightarrow> nty_schedule option" where
  "schedule_loop S [] = Some S"
| "schedule_loop S (as # ass) =
     (if nty_schedule_isdone S then Some S
      else do {
        S \<leftarrow> sched_pass S;
        S \<leftarrow> nty_schedule_epoll S as;
        S \<leftarrow> event_loop S (num_new_events S);
        schedule_loop S ass })"

text \<open>
  How \<open>nty_schedule_run\<close> stands after the rounds: it has returned because the thread has no scheduler,
  its loop still runs, or it has freed the scheduler, which was in the given state, and closed the
  given descriptors.
\<close>

datatype run_result = No_scheduler | Running nty_schedule | Freed nty_schedule "int list"

definition nty_schedule_run :: "nty_schedule option \<Rightarrow> epoll_answer list list \<Rightarrow> run_result option" where
  "nty_schedule_run sched ass = (case sched of
     None \<Rightarrow> Some No_scheduler
   | Some S \<Rightarrow> do {
       S \<leftarrow> schedule_loop S ass;
       Some (if nty_schedule_isdone S then Freed S (nty_schedule_free S) else Running S) })"

section \<open>Bits\<close>

lemma has_bit: "has s x \<longleftrightarrow> bit s (status_num x)"
  by (simp add: has_def BIT_def bit_iff_and_push_bit_not_eq_0)

lemma status_num_inject [simp]: "status_num x = status_num y \<longleftrightarrow> x = y"
  by (cases x; cases y) simp_all

lemma status_num_less: "status_num x < 32"
  by (cases x) simp_all

lemma has_simps [simp]:
  "has (s OR t) x \<longleftrightarrow> has s x \<or> has t x" "has (s AND CLEARBIT y) x \<longleftrightarrow> has s x \<and> x \<noteq> y"
  "has (BIT y) x \<longleftrightarrow> x = y" "has 0 x \<longleftrightarrow> False" "has (s OR 0) x \<longleftrightarrow> has s x"
  using status_num_less [of x] status_num_less [of y]
  by (auto simp: has_bit BIT_def CLEARBIT_def bit_simps)

lemma has_one: "has 1 x \<longleftrightarrow> x = WAIT_READ"
  by (cases x) (simp_all add: has_bit bit_1_iff)


end
