(* ===== verification/Nty_Tree_Sched.thy ===== *)
theory Nty_Tree_Sched
  imports Nty_Tree_Order Nty_Sched
begin

text \<open>
  The two trees of the scheduler, of sleeping and of waiting coroutines. The red-black macros,
  instantiated with the comparison functions of \<open>nty_schedule.c\<close>, implement the operations on
  ordered elements of which the scheduler model makes use.
\<close>

section \<open>Comparison functions\<close>

definition nty_coroutine_sleep_cmp :: "nty_schedule \<Rightarrow> rb_cmp" where
  "nty_coroutine_sleep_cmp S co1 co2 =
     do { a \<leftarrow> co1; b \<leftarrow> co2; x \<leftarrow> cos S a; y \<leftarrow> cos S b;
          Some (if co_sleep_usecs x < co_sleep_usecs y then -1
                else if co_sleep_usecs x = co_sleep_usecs y then 0 else 1) }"

definition nty_coroutine_wait_cmp :: "nty_schedule \<Rightarrow> rb_cmp" where
  "nty_coroutine_wait_cmp S co1 co2 =
     do { a \<leftarrow> co1; b \<leftarrow> co2; x \<leftarrow> cos S a; y \<leftarrow> cos S b;
          Some (if co_fd x < co_fd y then -1 else if co_fd x = co_fd y then 0 else 1) }"

section \<open>Calls on a tree\<close>

text \<open>
  A call of one of the macros, on a tree and on the ordered elements of \<open>Nty_Sched\<close>. A call comes
  with the state of the scheduler in which the comparison function reads the coroutines. The calls
  are stated for any family of macros, which is given by its operations.
\<close>

datatype rb_call = Insert nat | Remove nat | Find nat | Minimum

record 'h tree_ops =
  op_insert :: "rb_cmp \<Rightarrow> 'h \<Rightarrow> elmp \<Rightarrow> (elmp \<times> 'h) option"
  op_remove :: "rb_cmp \<Rightarrow> 'h \<Rightarrow> elmp \<Rightarrow> (elmp \<times> 'h) option"
  op_find :: "rb_cmp \<Rightarrow> 'h \<Rightarrow> elmp \<Rightarrow> (elmp \<times> 'h) option"
  op_min :: "'h \<Rightarrow> (elmp \<times> 'h) option"

definition rb_ops :: "rb_head tree_ops" where
  "rb_ops = \<lparr>op_insert = RB_INSERT, op_remove = (\<lambda>cmp. RB_REMOVE),
     op_find = (\<lambda>cmp H elm. do { r \<leftarrow> RB_FIND cmp H elm; Some (r, H) }),
     op_min = (\<lambda>H. do { r \<leftarrow> RB_MIN H; Some (r, H) })\<rparr>"

fun tree_call :: "'h tree_ops \<Rightarrow> rb_cmp \<Rightarrow> 'h \<Rightarrow> rb_call \<Rightarrow> (elmp \<times> 'h) option" where
  "tree_call ops cmp H (Insert c) = op_insert ops cmp H (Some c)"
| "tree_call ops cmp H (Remove c) = op_remove ops cmp H (Some c)"
| "tree_call ops cmp H (Find c) = op_find ops cmp H (Some c)"
| "tree_call ops cmp H Minimum = op_min ops H"

fun tree_run :: "'h tree_ops \<Rightarrow> (nty_schedule \<Rightarrow> rb_cmp) \<Rightarrow> 'h \<Rightarrow> (nty_schedule \<times> rb_call) list \<Rightarrow> (elmp list \<times> 'h) option" where
  "tree_run ops cmp H [] = Some ([], H)"
| "tree_run ops cmp H ((S, call) # calls) =
     do { (r, H) \<leftarrow> tree_call ops (cmp S) H call;
          (rs, H) \<leftarrow> tree_run ops cmp H calls;
          Some (r # rs, H) }"

fun list_call :: "nty_schedule \<Rightarrow> (nty_coroutine \<Rightarrow> 'k::linorder) \<Rightarrow> nat list \<Rightarrow> rb_call \<Rightarrow> (nat option \<times> nat list) option" where
  "list_call S key cs (Insert c) = rb_insert S key cs c"
| "list_call S key cs (Remove c) = do { cs' \<leftarrow> rb_remove cs c; Some (Some c, cs') }"
| "list_call S key cs (Find c) = do { co \<leftarrow> cos S c; r \<leftarrow> rb_find S key cs (key co); Some (r, cs) }"
| "list_call S key cs Minimum = do { r \<leftarrow> rb_min S cs; Some (r, cs) }"

text \<open>
  A run is defined as long as the elements are in ascending order of the keys they have when a call
  is made: the keys of coroutines outside of the tree may change in between.
\<close>

fun list_run :: "(nty_coroutine \<Rightarrow> 'k::linorder) \<Rightarrow> nat list \<Rightarrow> (nty_schedule \<times> rb_call) list \<Rightarrow> (nat option list \<times> nat list) option" where
  "list_run key cs [] = Some ([], cs)"
| "list_run key cs ((S, call) # calls) =
     do { ks \<leftarrow> keys S key cs;
          if \<not> sorted_wrt (<) (map fst ks) then None
          else do {
            (r, cs) \<leftarrow> list_call S key cs call;
            (rs, cs) \<leftarrow> list_run key cs calls;
            Some (r # rs, cs) }}"

section \<open>The operations on ordered elements\<close>

lemma map_of_find: "map_of (map (\<lambda>c. (f c, c)) cs) k = find (\<lambda>c. f c = k) cs"
  by (induction cs) auto

lemma rb_place_place:
  assumes "find (\<lambda>a. f a = f c) cs = None"
  shows "rb_place (map (\<lambda>c. (f c, c)) cs) (f c) c = place f c cs"
  using assms
proof (induction cs)
  case (Cons a cs)
  then have "f a \<noteq> f c" "find (\<lambda>a. f a = f c) cs = None" by (auto split: if_splits)
  with Cons.IH show ?case by (cases "f a < f c") (auto simp: place_def comp_def)
qed (simp add: place_def)

lemma keys_Some:
  "keys S key cs = Some ks \<longleftrightarrow> set cs \<subseteq> dom (cos S) \<and> ks = map (\<lambda>c. (key (the (cos S c)), c)) cs"
  by (auto simp: keys_def list_all_iff dom_def split: if_splits)

text \<open>A comparison function of coroutines that compares keys.\<close>

locale coroutine_order =
  fixes cmp :: "nty_schedule \<Rightarrow> rb_cmp" and key :: "nty_coroutine \<Rightarrow> 'k::linorder"
  assumes compares: "rb_order (cmp S) (\<lambda>c. key (the (cos S c))) (dom (cos S))"
begin

definition at :: "nty_schedule \<Rightarrow> nat \<Rightarrow> 'k" where
  "at S c = key (the (cos S c))"

sublocale order: rb_order "cmp S" "at S" "dom (cos S)" for S
  using compares [of S] unfolding at_def .

lemma keys_ascending:
  assumes "keys S key cs = Some ks" and "sorted_wrt (<) (map fst ks)"
  shows "set cs \<subseteq> dom (cos S)" and "ascending (at S) cs"
  using assms by (auto simp: keys_Some ascending_def sorted_wrt_map at_def)

end

text \<open>
  A family of macros that keeps elements in order: \<open>holds D H cs\<close> says that the tree \<open>H\<close> in the
  memory of the elements \<open>D\<close> has the elements \<open>cs\<close>. The laws are those of one call; sequences of calls
  are proved here.
\<close>

locale coroutine_tree = coroutine_order cmp key for cmp and key :: "nty_coroutine \<Rightarrow> 'k::linorder" +
  fixes ops :: "'h tree_ops" and holds :: "nat set \<Rightarrow> 'h \<Rightarrow> nat list \<Rightarrow> bool"
  assumes insert_present: "holds D H cs \<Longrightarrow> ascending (at S) cs \<Longrightarrow> set cs \<subseteq> dom (cos S) \<Longrightarrow> c \<in> dom (cos S) \<Longrightarrow>
      same (at S) c cs = Some d \<Longrightarrow> \<exists>H'. op_insert ops (cmp S) H (Some c) = Some (Some d, H') \<and> holds D H' cs"
    and insert_new: "holds D H cs \<Longrightarrow> ascending (at S) cs \<Longrightarrow> set cs \<subseteq> dom (cos S) \<Longrightarrow> c \<in> dom (cos S) \<Longrightarrow> c \<in> D \<Longrightarrow>
      same (at S) c cs = None \<Longrightarrow> \<exists>H'. op_insert ops (cmp S) H (Some c) = Some (None, H') \<and> holds D H' (place (at S) c cs)"
    and remove: "holds D H (xs @ c # ys) \<Longrightarrow> ascending (at S) (xs @ c # ys) \<Longrightarrow> set (xs @ c # ys) \<subseteq> dom (cos S) \<Longrightarrow>
      \<exists>H'. op_remove ops (cmp S) H (Some c) = Some (Some c, H') \<and> holds D H' (xs @ ys)"
    and search: "holds D H cs \<Longrightarrow> ascending (at S) cs \<Longrightarrow> set cs \<subseteq> dom (cos S) \<Longrightarrow> c \<in> dom (cos S) \<Longrightarrow>
      \<exists>H'. op_find ops (cmp S) H (Some c) = Some (same (at S) c cs, H') \<and> holds D H' cs"
    and minimum: "holds D H cs \<Longrightarrow> \<exists>H'. op_min ops H = Some (first cs, H') \<and> holds D H' cs"
begin

lemma call_refines:
  assumes T: "holds D H cs" and asc: "ascending (at S) cs" and dom: "set cs \<subseteq> dom (cos S)"
    and D: "dom (cos S) \<subseteq> D" and call: "list_call S key cs call = Some (r, cs')"
  shows "\<exists>H'. tree_call ops (cmp S) H call = Some (r, H') \<and> holds D H' cs'"
proof (cases call)
  case (Insert c)
  obtain co where co: "cos S c = Some co" "key co = at S c" using call Insert by (auto simp: rb_insert_def at_def split: bind_splits)
  have ks: "keys S key cs = Some (map (\<lambda>c. (at S c, c)) cs)" using dom by (simp add: keys_Some at_def)
  show ?thesis
  proof (cases "same (at S) c cs")
    case None
    then have "r = None" "cs' = place (at S) c cs"
      using call Insert co ks rb_place_place [of "at S" c cs]
      by (auto simp: rb_insert_def map_of_find same_def split: if_splits)
    then show ?thesis using insert_new [OF T asc dom _ _ None] co D Insert by auto
  next
    case (Some d)
    then have "r = Some d" "cs' = cs"
      using call Insert co ks by (auto simp: rb_insert_def map_of_find same_def split: if_splits)
    then show ?thesis using insert_present [OF T asc dom _ Some] co Insert by auto
  qed
next
  case (Remove c)
  then have c: "c \<in> set cs" "r = Some c" "cs' = remove1 c cs" using call by (auto simp: rb_remove_def split: if_splits)
  obtain xs ys where xs: "cs = xs @ c # ys" "c \<notin> set xs" using split_list_first [OF c(1)] by blast
  then show ?thesis using remove [of D H xs c ys S] T asc dom Remove c by (simp add: remove1_append)
next
  case (Find c)
  then obtain co where co: "cos S c = Some co" "key co = at S c" using call by (auto simp: at_def split: bind_splits)
  then have "r = same (at S) c cs" "cs' = cs" "c \<in> dom (cos S)"
    using Find call dom by (auto simp: rb_find_def keys_Some map_of_find same_def at_def split: bind_splits)
  then show ?thesis using search [OF T asc dom] Find by simp
next
  case Minimum
  then show ?thesis using call minimum [OF T] by (cases cs) (auto simp: rb_min_def split: if_splits)
qed

lemma calls_refine:
  assumes "holds D H cs" and "\<forall>(S, call) \<in> set calls. dom (cos S) \<subseteq> D" and "list_run key cs calls = Some (rs, cs')"
  shows "\<exists>H'. tree_run ops cmp H calls = Some (rs, H') \<and> holds D H' cs'"
  using assms
proof (induction calls arbitrary: H cs rs)
  case (Cons c calls)
  obtain S call where c: "c = (S, call)" by force
  obtain ks r cs1 rs1 where 1: "keys S key cs = Some ks" "sorted_wrt (<) (map fst ks)"
      "list_call S key cs call = Some (r, cs1)" "list_run key cs1 calls = Some (rs1, cs')" "rs = r # rs1"
    using Cons.prems(3) by (auto simp: c split: bind_splits if_splits)
  obtain H1 where H1: "tree_call ops (cmp S) H call = Some (r, H1)" "holds D H1 cs1"
    using call_refines [OF Cons.prems(1) _ _ _ 1(3)] keys_ascending [OF 1(1,2)] Cons.prems(2) c by auto
  then obtain H' where "tree_run ops cmp H1 calls = Some (rs1, H')" "holds D H' cs'"
    using Cons.IH [OF H1(2) _ 1(4)] Cons.prems(2) by auto
  with H1 show ?case by (auto simp: c 1(5))
qed simp

end

text \<open>The red-black macros are such a family for every comparison function.\<close>

context coroutine_order
begin

lemma rb_family: "coroutine_tree cmp key rb_ops holds_tree"
proof unfold_locales
  fix D H cs S c d
  assume T: "holds_tree D H cs" "ascending (at S) cs" "set cs \<subseteq> dom (cos S)" "c \<in> dom (cos S)"
  show "\<exists>H'. op_insert rb_ops (cmp S) H (Some c) = Some (Some d, H') \<and> holds_tree D H' cs" if "same (at S) c cs = Some d"
    using order.tree_insert_present [OF T that] T(1) by (simp add: rb_ops_def)
  show "\<exists>H'. op_insert rb_ops (cmp S) H (Some c) = Some (None, H') \<and> holds_tree D H' (place (at S) c cs)"
    if "c \<in> D" "same (at S) c cs = None"
    using order.tree_insert_new [OF T that] by (simp add: rb_ops_def)
  show "\<exists>H'. op_find rb_ops (cmp S) H (Some c) = Some (same (at S) c cs, H') \<and> holds_tree D H' cs"
    using order.tree_find(1) [OF T] T(1) by (simp add: rb_ops_def)
next
  fix D H xs c ys S
  assume T: "holds_tree D H (xs @ c # ys)" "ascending (at S) (xs @ c # ys)"
  then have "remove1 c (xs @ c # ys) = xs @ ys" by (auto simp: remove1_append)
  then show "\<exists>H'. op_remove rb_ops (cmp S) H (Some c) = Some (Some c, H') \<and> holds_tree D H' (xs @ ys)"
    using holds_tree_remove [OF T(1), of c] by (auto simp: rb_ops_def)
next
  show "\<exists>H'. op_min rb_ops H = Some (first cs, H') \<and> holds_tree D H' cs" if "holds_tree D H cs" for D H cs
    using holds_tree_ends(1) [OF that] that by (cases cs) (auto simp: rb_ops_def)
qed

end

interpretation sleep_order: coroutine_order nty_coroutine_sleep_cmp co_sleep_usecs
  by unfold_locales (auto simp: nty_coroutine_sleep_cmp_def)

interpretation wait_order: coroutine_order nty_coroutine_wait_cmp co_fd
  by unfold_locales (auto simp: nty_coroutine_wait_cmp_def)

interpretation sleep_tree: coroutine_tree nty_coroutine_sleep_cmp co_sleep_usecs rb_ops holds_tree
  by (rule sleep_order.rb_family)

interpretation wait_tree: coroutine_tree nty_coroutine_wait_cmp co_fd rb_ops holds_tree
  by (rule wait_order.rb_family)

section \<open>Properties\<close>

text \<open>The links of a tree: pointers lead to elements of the tree, and those down and up agree.\<close>

definition linked :: "rb_head \<Rightarrow> nat list \<Rightarrow> nat \<Rightarrow> bool" where
  "linked H cs a \<longleftrightarrow> (\<exists>e. rb_mem H a = Some e \<and>
     (\<forall>b. rbe_left e = Some b \<or> rbe_right e = Some b \<longrightarrow>
        b \<in> set cs \<and> (\<exists>e'. rb_mem H b = Some e' \<and> rbe_parent e' = Some a)) \<and>
     (case rbe_parent e of
        None \<Rightarrow> rbh_root H = Some a
      | Some p \<Rightarrow> p \<in> set cs \<and> (\<exists>e'. rb_mem H p = Some e' \<and> (rbe_left e' = Some a \<or> rbe_right e' = Some a))))"

lemma stored_parent: "stored m q t \<Longrightarrow> tp t = Some b \<Longrightarrow> \<exists>e. m b = Some e \<and> rbe_parent e = q"
  by (cases t) auto

lemma tp_in: "tp t = Some b \<Longrightarrow> b \<in> set (infos t)"
  by (cases t) auto

lemma holds_tree_linked:
  assumes T: "holds_tree D H cs" and a: "a \<in> set cs"
  shows "linked H cs a"
proof -
  obtain t where t: "rb_at D H [] t" "infos t = cs" using T by (auto simp: holds_tree_def)
  then obtain fs c l r where p: "t = plug fs (Nd c l a r)" using position [of a t] a by auto
  then have at: "rb_at D H fs (Nd c l a r)" using t(1) rb_at_plug by metis
  have cs: "cs = lpart fs @ infos l @ a # infos r @ rpart fs" using t(2) p by (simp add: infos_plug)
  have m: "rb_mem H a = Some (mk_entry c (tp l) (tp r) (up fs))" "stored (rb_mem H) (Some a) l" "stored (rb_mem H) (Some a) r"
    using at by (auto simp: rb_at_def)
  have "case up fs of None \<Rightarrow> rbh_root H = Some a
      | Some p \<Rightarrow> p \<in> set cs \<and> (\<exists>e'. rb_mem H p = Some e' \<and> (rbe_left e' = Some a \<or> rbe_right e' = Some a))"
    using at by (cases fs rule: up.cases) (auto simp: rb_at_def cs)
  then show ?thesis using m stored_parent [OF m(2)] stored_parent [OF m(3)]
    unfolding linked_def by (auto simp: cs dest: tp_in)
qed

text \<open>A scheduler whose coroutines sleep until, or wait for, the given numbers.\<close>

definition keyed_co :: "nat \<Rightarrow> nty_coroutine" where
  "keyed_co k = \<lparr>co_func = [], co_status = 0, co_id = 0, co_fd = int k, co_events = 0, co_ops = 0,
     co_sleep_usecs = of_nat k, co_birth = 0, co_stack = [], co_stack_size = 0\<rparr>"

definition keyed_sched :: "nat list \<Rightarrow> nty_schedule" where
  "keyed_sched ks =
     \<lparr>birth = 0, stack = [], used = 0, spawned_coroutines = 0, default_timeout = 0, curr_thread = None, poller_fd = 3, eventfd = 4,
      eventlist = [], num_new_events = 0, ready = [], sleeping = [], waiting = [],
      cos = (\<lambda>c. if c < length ks then Some (keyed_co (ks ! c)) else None), fresh_co = 0,
      polled = Map.empty, clock = [], now = 0, callocs = []\<rparr>"

definition blank_mem :: "nat \<Rightarrow> rb_head" where
  "blank_mem n = \<lparr>rbh_root = None, rb_mem = (\<lambda>a. if a < n then Some (mk_entry BLACK None None None) else None)\<rparr>"

definition keyed_calls :: "(nty_schedule \<times> rb_call) list" where
  "keyed_calls = map (Pair (keyed_sched [7, 3, 9, 5]))
     [Insert 0, Insert 1, Insert 2, Insert 3, Find 2, Remove 0, Minimum]"

lemma keyed_calls_mem: "\<forall>(S, call) \<in> set keyed_calls. dom (cos S) \<subseteq> dom (rb_mem (blank_mem 4))"
  by (auto simp: keyed_calls_def blank_mem_def keyed_sched_def split: if_splits)

lemma keyed_simps [simp]:
  "cos (keyed_sched ks) c = (if c < length ks then Some (keyed_co (ks ! c)) else None)"
  "co_fd (keyed_co k) = int k" "co_sleep_usecs (keyed_co k) = of_nat k"
  by (simp_all add: keyed_sched_def keyed_co_def)

lemma keyed_runs:
  "list_run co_sleep_usecs [] keyed_calls = Some ([None, None, None, None, Some 2, Some 0, Some 1], [1, 3, 2])"
  "list_run co_fd [] keyed_calls = Some ([None, None, None, None, Some 2, Some 0, Some 1], [1, 3, 2])"
  by (simp_all add: keyed_calls_def keys_def rb_insert_def rb_find_def rb_remove_def rb_min_def)

text \<open>
  C11. The trees of sleeping and of waiting coroutines: whatever sequence of insertions, removals and
  searches is made on an initialised tree, the red-black macros return (no loop runs on, no NULL
  pointer is followed) with exactly the results and the elements of the operations on ordered
  elements that the scheduler model uses.
\<close>

theorem coroutine_trees_refine:
  assumes "\<forall>(S, call) \<in> set calls. dom (cos S) \<subseteq> dom (rb_mem H)"
  shows "(list_run co_sleep_usecs [] calls = Some (rs, cs) \<longrightarrow>
      (\<exists>H'. tree_run rb_ops nty_coroutine_sleep_cmp (RB_INIT H) calls = Some (rs, H') \<and> RB_FOREACH H' = Some cs)) \<and>
    (list_run co_fd [] calls = Some (rs, cs) \<longrightarrow>
      (\<exists>H'. tree_run rb_ops nty_coroutine_wait_cmp (RB_INIT H) calls = Some (rs, H') \<and> RB_FOREACH H' = Some cs))"
  using sleep_tree.calls_refine [OF holds_tree_init assms] wait_tree.calls_refine [OF holds_tree_init assms]
    holds_tree_foreach(1) by blast

theorem coroutine_trees_refine_witness:
  "\<exists>H'. tree_run rb_ops nty_coroutine_sleep_cmp (RB_INIT (blank_mem 4)) keyed_calls =
      Some ([None, None, None, None, Some 2, Some 0, Some 1], H') \<and> RB_FOREACH H' = Some [1, 3, 2]"
  using coroutine_trees_refine [OF keyed_calls_mem] keyed_runs(1) by blast

text \<open>
  C12. The memory of the trees stays well linked: after any such sequence the pointers of an element
  in the tree are NULL or lead to elements of the tree, the child of an element has it as its parent,
  and only the root has none.
\<close>

theorem coroutine_trees_linked:
  assumes "\<forall>(S, call) \<in> set calls. dom (cos S) \<subseteq> dom (rb_mem H)"
    and "list_run co_sleep_usecs [] calls = Some (rs, cs)"
    and "tree_run rb_ops nty_coroutine_sleep_cmp (RB_INIT H) calls = Some (rs', H')"
  shows "\<forall>a \<in> set cs. linked H' cs a"
  using sleep_tree.calls_refine [OF holds_tree_init assms(1,2)] assms(3) holds_tree_linked by auto

theorem coroutine_trees_linked_witness:
  "\<exists>rs H'. tree_run rb_ops nty_coroutine_sleep_cmp (RB_INIT (blank_mem 4)) keyed_calls = Some (rs, H') \<and>
     linked H' [1, 3, 2] 3"
proof -
  obtain H' where "tree_run rb_ops nty_coroutine_sleep_cmp (RB_INIT (blank_mem 4)) keyed_calls =
      Some ([None, None, None, None, Some 2, Some 0, Some 1], H')"
    using sleep_tree.calls_refine [OF holds_tree_init keyed_calls_mem keyed_runs(1)] by blast
  with coroutine_trees_linked [OF keyed_calls_mem keyed_runs(1) this] show ?thesis by auto
qed

text \<open>
  C13. Traversal ends: after any such sequence \<open>RB_FOREACH\<close> and \<open>RB_FOREACH_REVERSE\<close> visit every element
  once, in ascending and in descending order, \<open>RB_MIN\<close> and \<open>RB_MAX\<close> are the ends, and \<open>RB_NEXT\<close> and
  \<open>RB_PREV\<close> the neighbours.
\<close>

theorem coroutine_trees_traversal:
  assumes "\<forall>(S, call) \<in> set calls. dom (cos S) \<subseteq> dom (rb_mem H)"
    and "list_run co_fd [] calls = Some (rs, cs)"
    and "tree_run rb_ops nty_coroutine_wait_cmp (RB_INIT H) calls = Some (rs', H')"
  shows "RB_FOREACH H' = Some cs \<and> RB_FOREACH_REVERSE H' = Some (rev cs) \<and>
    RB_MIN H' = Some (if cs = [] then None else Some (hd cs)) \<and>
    RB_MAX H' = Some (if cs = [] then None else Some (last cs)) \<and>
    (\<forall>i. Suc i < length cs \<longrightarrow> RB_NEXT H' (Some (cs ! i)) = Some (Some (cs ! Suc i)) \<and>
       RB_PREV H' (Some (cs ! Suc i)) = Some (Some (cs ! i)))"
proof -
  have T: "holds_tree (dom (rb_mem H)) H' cs"
    using wait_tree.calls_refine [OF holds_tree_init assms(1,2)] assms(3) by auto
  have "RB_NEXT H' (Some (cs ! i)) = Some (Some (cs ! Suc i)) \<and> RB_PREV H' (Some (cs ! Suc i)) = Some (Some (cs ! i))"
    if "Suc i < length cs" for i
  proof -
    have "cs = take i cs @ cs ! i # drop (Suc i) cs" "cs = take (Suc i) cs @ cs ! Suc i # drop (Suc (Suc i)) cs"
      using that by (simp_all add: id_take_nth_drop)
    then have "RB_NEXT H' (Some (cs ! i)) = Some (first (drop (Suc i) cs))"
        "RB_PREV H' (Some (cs ! Suc i)) = Some (first (rev (take (Suc i) cs)))"
      using holds_tree_next T by metis+
    then show ?thesis using that by (simp add: Cons_nth_drop_Suc [symmetric] take_Suc_conv_app_nth)
  qed
  then show ?thesis using holds_tree_foreach [OF T] holds_tree_ends [OF T] by (simp add: first_hd hd_rev)
qed

theorem coroutine_trees_traversal_witness:
  "\<exists>rs H'. tree_run rb_ops nty_coroutine_wait_cmp (RB_INIT (blank_mem 4)) keyed_calls = Some (rs, H') \<and>
     RB_FOREACH_REVERSE H' = Some [2, 3, 1]"
proof -
  obtain H' where "tree_run rb_ops nty_coroutine_wait_cmp (RB_INIT (blank_mem 4)) keyed_calls =
      Some ([None, None, None, None, Some 2, Some 0, Some 1], H')"
    using wait_tree.calls_refine [OF holds_tree_init keyed_calls_mem keyed_runs(2)] by blast
  with coroutine_trees_traversal [OF keyed_calls_mem keyed_runs(2) this] show ?thesis by auto
qed

end
