(* ===== verification/Nty_Splay_Order.thy ===== *)
theory Nty_Splay_Order
  imports Nty_Splay_Inv Nty_Tree_Sched
begin

text \<open>
  The operations on splay trees, for elements in ascending order: with the same calls they return
  what the red-black trees return.
\<close>

section \<open>Operations\<close>

definition holds_elems :: "nat set \<Rightarrow> sp_head \<Rightarrow> nat list \<Rightarrow> bool" where
  "holds_elems D H as \<longleftrightarrow> dom (sp_mem H) = D \<and> (\<exists>t. sph_root H = sp t \<and> sp_stored (sp_mem H) t \<and> inorder t = as \<and> distinct as)"

lemma holds_elemsD:
  assumes "holds_elems D H as"
  obtains t where "holds_splay (sp_mem H) H t" and "inorder t = as" and "dom (sp_mem H) = D"
  using assms by (auto simp: holds_elems_def holds_splay_def outside_def)

lemma holds_elemsI: "holds_splay M H t \<Longrightarrow> dom M = D \<Longrightarrow> inorder t = as \<Longrightarrow> holds_elems D H as"
  by (auto simp: holds_elems_def holds_splay_def outside_def)

lemma holds_elems_dom: "holds_elems D H as \<Longrightarrow> dom (sp_mem H) = D"
  by (simp add: holds_elems_def)

lemma holds_elems_empty: "holds_elems D H as \<Longrightarrow> SPLAY_EMPTY H \<longleftrightarrow> as = []"
  by (auto simp: holds_elems_def SPLAY_EMPTY_def)

lemma holds_elems_init: "holds_elems (dom (sp_mem H)) (SPLAY_INIT H) []"
  by (auto simp: holds_elems_def SPLAY_INIT_def intro: exI [of _ Leaf])

lemma splay_leftmost_at: "sp_stored (sp_mem H) u \<Longrightarrow> u \<noteq> Leaf \<Longrightarrow>
    splay_leftmost H (sp u) = Some (Some (hd (inorder u)))"
proof (induction u)
  case (Node l a r)
  then show ?case by (subst splay_leftmost.simps) (cases l; auto simp: splay_heap hd_append)
qed simp

lemma splay_minimum:
  assumes "holds_elems D H as" and "as \<noteq> []"
  shows "\<exists>H'. SPLAY_MIN H = Some (Some (hd as), H') \<and> holds_elems D H' as"
    and "\<exists>H'. SPLAY_MAX H = Some (Some (last as), H') \<and> holds_elems D H' as"
proof -
  obtain t where t: "holds_splay (sp_mem H) H t" "inorder t = as" "dom (sp_mem H) = D" using holds_elemsD [OF assms(1)] .
  have ne: "t \<noteq> Leaf" using t(2) assms(2) by auto
  have e: "\<not> SPLAY_EMPTY H" using holds_elems_empty assms by blast
  obtain H1 l a r where 1: "SPLAY_MINMAX H (-1) = Some H1" "holds_splay (sp_mem H) H1 (Node l a r)" "parted (\<lambda>_. -1) as l a r"
    using SPLAY_MINMAX_at [OF t(1) ne, of "-1"] t(2) by auto
  have "l = Leaf" using 1(3) by (cases l) (auto simp: parted_def)
  then show "\<exists>H'. SPLAY_MIN H = Some (Some (hd as), H') \<and> holds_elems D H' as"
    using 1 e holds_elemsI [OF 1(2) t(3)] by (auto simp: SPLAY_MIN_def SPLAY_MIN_MAX_def SPLAY_NEGINF_def parted_def holds_splay_def)
  obtain H2 l a r where 2: "SPLAY_MINMAX H 1 = Some H2" "holds_splay (sp_mem H) H2 (Node l a r)" "parted (\<lambda>_. 1) as l a r"
    using SPLAY_MINMAX_at [OF t(1) ne, of 1] t(2) by auto
  have "r = Leaf" using 2(3) by (cases r) (auto simp: parted_def)
  then show "\<exists>H'. SPLAY_MAX H = Some (Some (last as), H') \<and> holds_elems D H' as"
    using 2 e holds_elemsI [OF 2(2) t(3)] by (auto simp: SPLAY_MAX_def SPLAY_MIN_MAX_def SPLAY_INF_def parted_def holds_splay_def)
qed

context rb_order
begin

text \<open>Splaying for an element puts it, or a neighbour of its place, at the root.\<close>

lemma splay_for:
  assumes H: "holds_elems D H as" "as \<noteq> []" and asc: "ascending key as" and K: "set as \<subseteq> K" "z \<in> K"
  shows "\<exists>H' l a r i. SPLAY cmp H (Some z) = Some H' \<and> holds_splay (sp_mem H) H' (Node l a r) \<and> as = inorder l @ a # inorder r \<and>
    (\<forall>x \<in> set_tree l. key x < key z) \<and> (\<forall>x \<in> set_tree r. key z < key x) \<and>
    cmp (Some z) (Some a) = Some i \<and> (i < 0 \<longleftrightarrow> key z < key a) \<and> (0 < i \<longleftrightarrow> key a < key z)"
proof -
  define c where "c a = the (cmp (Some z) (Some a))" for a
  have c: "cmp (Some z) (Some a) = Some (c a)" "c a < 0 \<longleftrightarrow> key z < key a" "0 < c a \<longleftrightarrow> key a < key z" if "a \<in> set as" for a
    using cmp_keys [OF K(2), of a] subsetD [OF K(1) that] by (auto simp: c_def)
  obtain t where t: "holds_splay (sp_mem H) H t" "inorder t = as" using holds_elemsD [OF H(1)] by blast
  have ne: "t \<noteq> Leaf" using t(2) H(2) by auto
  have "compares cmp (Some z) c t" using c(1) t(2) by (auto simp: compares_def)
  moreover have "directed c (inorder t)" unfolding directed_def t(2)
    by (rule sorted_wrt_mono_rel [OF _ asc [unfolded ascending_def]]) (use c(2,3) in \<open>auto simp: not_less [symmetric]\<close>)
  ultimately obtain H' l a r where "SPLAY cmp H (Some z) = Some H'" "holds_splay (sp_mem H) H' (Node l a r)" "parted c as l a r"
    using SPLAY_at [OF t(1) ne] t(2) by blast
  then show ?thesis using c by (intro exI [of _ H'] exI [of _ l] exI [of _ a] exI [of _ r] exI [of _ "c a"]) (auto simp: parted_def)
qed

lemma splay_find:
  assumes H: "holds_elems D H as" and asc: "ascending key as" and K: "set as \<subseteq> K" "z \<in> K"
  shows "\<exists>H'. SPLAY_FIND cmp H (Some z) = Some (same key z as, H') \<and> holds_elems D H' as"
proof (cases "as = []")
  case False
  note dom = holds_elems_dom [OF H]
  from False obtain H' l a r i where s: "SPLAY cmp H (Some z) = Some H'" "holds_splay (sp_mem H) H' (Node l a r)" "as = inorder l @ a # inorder r"
      "\<forall>x \<in> set_tree l. key x < key z" "\<forall>x \<in> set_tree r. key z < key x"
      "cmp (Some z) (Some a) = Some i" "i < 0 \<longleftrightarrow> key z < key a" "0 < i \<longleftrightarrow> key a < key z"
    using splay_for [OF H _ asc K] by blast
  have root: "sph_root H' = Some a" using s(2) by (simp add: holds_splay_def)
  have "same key z as = (if i = 0 then Some a else None)"
    using same_mid [OF asc [unfolded s(3)]] s(3-5,7,8)
    by (cases "key a" "key z" rule: linorder_cases) (auto simp: same_def find_None_iff)
  moreover have "holds_elems D H' as" using holds_elemsI [OF s(2) dom] s(3) by simp
  ultimately show ?thesis using False holds_elems_empty [OF H] s(1,6) root by (auto simp: SPLAY_FIND_def)
qed (use H holds_elems_empty [OF H] in \<open>auto simp: SPLAY_FIND_def same_def\<close>)

lemma splay_next:
  assumes H: "holds_elems D H (xs @ z # ys)" and asc: "ascending key (xs @ z # ys)" and K: "set (xs @ z # ys) \<subseteq> K"
  shows "\<exists>H'. SPLAY_NEXT cmp H (Some z) = Some (first ys, H') \<and> holds_elems D H' (xs @ z # ys)"
proof -
  note dom = holds_elems_dom [OF H]
  have z: "z \<in> K" "\<forall>x \<in> set xs. key x < key z" "\<forall>x \<in> set ys. key z < key x" using K asc by auto
  then obtain H' l a r i where s: "SPLAY cmp H (Some z) = Some H'" "holds_splay (sp_mem H) H' (Node l a r)" "xs @ z # ys = inorder l @ a # inorder r"
      "\<forall>x \<in> set_tree l. key x < key z" "\<forall>x \<in> set_tree r. key z < key x"
    using splay_for [OF H _ asc K] by blast
  have "z \<in> set (inorder l @ a # inorder r)" using s(3) [symmetric] by simp
  then have "a = z" using s(4,5) by auto
  moreover have "z \<notin> set xs" "z \<notin> set ys" using z by auto
  ultimately have "ys = inorder r" using s(3) append_Cons_eq_iff [of z xs ys "inorder l" "inorder r"] by auto
  moreover have "holds_elems D H' (xs @ z # ys)" using holds_elemsI [OF s(2) dom] s(3) by simp
  ultimately show ?thesis using s(1,2) \<open>a = z\<close> splay_leftmost_at [of H' r]
    by (cases "r = Leaf") (auto simp: SPLAY_NEXT_def SPLAY_RIGHT_def holds_splay_def first_hd)
qed

lemma splay_insert_present:
  assumes H: "holds_elems D H as" and asc: "ascending key as" and K: "set as \<subseteq> K" "z \<in> K" and d: "same key z as = Some d"
  shows "\<exists>H'. SPLAY_INSERT cmp H (Some z) = Some (Some d, H') \<and> holds_elems D H' as"
proof -
  note dom = holds_elems_dom [OF H]
  have ne: "as \<noteq> []" using d by (auto simp: same_def)
  then obtain H' l a r i where s: "SPLAY cmp H (Some z) = Some H'" "holds_splay (sp_mem H) H' (Node l a r)" "as = inorder l @ a # inorder r"
      "\<forall>x \<in> set_tree l. key x < key z" "\<forall>x \<in> set_tree r. key z < key x"
      "cmp (Some z) (Some a) = Some i" "i < 0 \<longleftrightarrow> key z < key a" "0 < i \<longleftrightarrow> key a < key z"
    using splay_for [OF H _ asc K] by blast
  have "key d = key z" "d \<in> set as" using d by (auto simp: same_def find_Some_iff in_set_conv_nth)
  then have "d = a" using s(3-5) by auto
  moreover have "holds_elems D H' as" using holds_elemsI [OF s(2) dom] s(3) by simp
  ultimately show ?thesis using \<open>key d = key z\<close> ne holds_elems_empty [OF H] s(1,2,6-8)
    by (auto simp: SPLAY_INSERT_def holds_splay_def)
qed

lemma splay_insert_new:
  assumes H: "holds_elems D H as" and asc: "ascending key as" and K: "set as \<subseteq> K" "z \<in> K" and D: "z \<in> D" and new: "same key z as = None"
  shows "\<exists>H'. SPLAY_INSERT cmp H (Some z) = Some (None, H') \<and> holds_elems D H' (place key z as)"
proof (cases "as = []")
  case True
  then show ?thesis using H D holds_elems_empty [OF H]
    by (auto simp: SPLAY_INSERT_def sp_write_def holds_elems_def place_def intro!: exI [of _ "Node Leaf z Leaf"])
next
  case False
  note dom = holds_elems_dom [OF H]
  from False obtain H' l a r i where s: "SPLAY cmp H (Some z) = Some H'" "holds_splay (sp_mem H) H' (Node l a r)" "as = inorder l @ a # inorder r"
      "\<forall>x \<in> set_tree l. key x < key z" "\<forall>x \<in> set_tree r. key z < key x"
      "cmp (Some z) (Some a) = Some i" "i < 0 \<longleftrightarrow> key z < key a" "0 < i \<longleftrightarrow> key a < key z"
    using splay_for [OF H _ asc K] by blast
  have n: "key a \<noteq> key z" "z \<noteq> a" "z \<notin> set_tree l" "z \<notin> set_tree r" using new s(3) by (auto simp: same_def find_None_iff)
  have st: "sph_root H' = Some a" "sp_mem H' a = Some \<lparr>spe_left = sp l, spe_right = sp r\<rparr>" "sp_stored (sp_mem H') l"
      "sp_stored (sp_mem H') r" "distinct (inorder l @ a # inorder r)" "dom (sp_mem H') = D"
    using s(2) dom by (simp_all add: holds_splay_def outside_def)
  have aD: "a \<in> D" using st(2,6) by auto
  obtain e where e: "sp_mem H' z = Some e" using D st(6) by auto
  have E: "\<not> SPLAY_EMPTY H" using False holds_elems_empty [OF H] by blast
  show ?thesis
  proof (cases "key z < key a")
    case True
    have "place key z as = inorder (Node l z (Node Leaf a r))" using s(3-5) True place_parts [of "inorder l" key z "a # inorder r"] by simp
    then show ?thesis using s(1,6,7) n True e E D aD st
      by (auto simp: SPLAY_INSERT_def splay_heap holds_elems_def insert_absorb intro!: exI [of _ "Node l z (Node Leaf a r)"])
  next
    case False
    then have lt: "key a < key z" using n(1) by simp
    have "place key z as = inorder (Node (Node l a Leaf) z r)" using s(3-5) lt place_parts [of "inorder l @ [a]" key z "inorder r"] by simp
    then show ?thesis using s(1,6-8) n lt False e E D aD st
      by (auto simp: SPLAY_INSERT_def splay_heap holds_elems_def insert_absorb intro!: exI [of _ "Node (Node l a Leaf) z r"])
  qed
qed

text \<open>
  After the root was removed, splaying its left subtree for the same key brings the largest element
  there to the top, which has no right child.
\<close>

lemma splay_join:
  assumes st: "holds_splay M H (Node l z r)" and l: "l \<noteq> Leaf" "ascending key (inorder l)" "set_tree l \<subseteq> K" "z \<in> K"
    and less: "\<forall>x \<in> set_tree l. key x < key z"
  shows "\<exists>H1 H2. SPLAY cmp (H\<lparr>sph_root := sp l\<rparr>) (Some z) = Some H1 \<and> sp_set_right H1 (sph_root H1) (sp r) = Some H2 \<and>
    holds_elems (dom (sp_mem H)) H2 (inorder l @ inorder r)"
proof -
  let ?H = "H\<lparr>sph_root := sp l\<rparr>"
  have h: "sp_stored (sp_mem H) l" "sp_stored (sp_mem H) r" "distinct (inorder l @ inorder r)"
    using st by (auto simp: holds_splay_def)
  then have "holds_elems (dom (sp_mem H)) ?H (inorder l)" by (auto simp: holds_elems_def)
  then obtain H1 l1 a1 r1 where s: "SPLAY cmp ?H (Some z) = Some H1" "holds_splay (sp_mem H) H1 (Node l1 a1 r1)"
      "inorder l = inorder l1 @ a1 # inorder r1" "\<forall>x \<in> set_tree r1. key z < key x"
    using splay_for [of _ ?H "inorder l" z] l by fastforce
  have set: "set_tree l = insert a1 (set_tree l1 \<union> set_tree r1)" using arg_cong [OF s(3), of set] by auto
  have "r1 = Leaf"
  proof (rule ccontr)
    assume "r1 \<noteq> Leaf"
    then obtain x where "x \<in> set_tree r1" by (cases r1) auto
    then have "key z < key x" "key x < key z" using s(4) less set by auto
    then show False by simp
  qed
  have "\<forall>x \<in> set_tree r. sp_mem H1 x = sp_mem H x"
    using s(2,3) h(3) set by (auto simp: holds_splay_def outside_def)
  then have "sp_stored (sp_mem H1) u = sp_stored (sp_mem H) u" if "set_tree u \<subseteq> set_tree r" for u
    using that by (induction u) auto
  then have r: "sp_stored (sp_mem H1) r" using h(2) by simp
  have a1: "a1 \<notin> set_tree r" "a1 \<notin> set_tree l1" using h(3) s(3) set by auto
  show ?thesis using s(1,2,3) r a1 h(3) \<open>r1 = Leaf\<close>
    by (auto simp: sp_write_def holds_elems_def holds_splay_def outside_def intro!: exI [of _ "Node l1 a1 r"])
qed

lemma splay_remove:
  assumes H: "holds_elems D H (xs @ z # ys)" and asc: "ascending key (xs @ z # ys)" and K: "set (xs @ z # ys) \<subseteq> K"
  shows "\<exists>H'. SPLAY_REMOVE cmp H (Some z) = Some (Some z, H') \<and> holds_elems D H' (xs @ ys)"
proof -
  note dom = holds_elems_dom [OF H]
  have z: "z \<in> K" using K by simp
  obtain H1 l a r i where s: "SPLAY cmp H (Some z) = Some H1" "holds_splay (sp_mem H) H1 (Node l a r)" "xs @ z # ys = inorder l @ a # inorder r"
      "\<forall>x \<in> set_tree l. key x < key z" "\<forall>x \<in> set_tree r. key z < key x" "cmp (Some z) (Some a) = Some i"
      "i < 0 \<longleftrightarrow> key z < key a" "0 < i \<longleftrightarrow> key a < key z"
    using splay_for [OF H _ asc K z] by blast
  have "z \<in> set (inorder l @ a # inorder r)" using s(3) [symmetric] by simp
  then have a: "a = z" using s(4,5) by auto
  have "z \<notin> set xs" "z \<notin> set ys" using asc by auto
  then have xs: "xs = inorder l" "ys = inorder r" using s(3) a append_Cons_eq_iff [of z xs ys "inorder l" "inorder r"] by auto
  have root: "sph_root H1 = Some z" "SPLAY_LEFT H1 (Some z) = Some (sp l)" "SPLAY_RIGHT H1 (Some z) = Some (sp r)"
      "dom (sp_mem H1) = D" "sp_stored (sp_mem H1) r" "distinct (inorder r)"
    using s(2) a dom by (simp_all add: holds_splay_def splay_heap outside_def)
  have i: "i = 0" using s(7,8) a by auto
  have E: "\<not> SPLAY_EMPTY H" using holds_elems_empty [OF H] by simp
  show ?thesis
  proof (cases "l = Leaf")
    case True
    then show ?thesis using s(1,6) a root i xs E by (auto simp: SPLAY_REMOVE_def holds_elems_def)
  next
    case False
    have "ascending key (inorder l)" "set_tree l \<subseteq> K" using asc K xs by auto
    from splay_join [OF s(2) [unfolded a] False this z s(4)] obtain H2 H3 where
      "SPLAY cmp (H1\<lparr>sph_root := sp l\<rparr>) (Some z) = Some H2" "sp_set_right H2 (sph_root H2) (sp r) = Some H3"
      "holds_elems D H3 (xs @ ys)" using root(4) xs by auto
    then show ?thesis using s(1,6) a root i E False by (auto simp: SPLAY_REMOVE_def)
  qed
qed

lemma splay_foreach_at:
  assumes "ascending key (xs @ ys)" and "set (xs @ ys) \<subseteq> K" and "holds_elems D H (xs @ ys)"
  shows "\<exists>H'. splay_foreach_from cmp H (first ys) = Some (ys, H') \<and> holds_elems D H' (xs @ ys)"
  using assms
proof (induction ys arbitrary: xs H)
  case (Cons z ys)
  obtain H1 where H1: "SPLAY_NEXT cmp H (Some z) = Some (first ys, H1)" "holds_elems D H1 (xs @ z # ys)"
    using splay_next [OF Cons.prems(3,1,2)] by blast
  obtain H2 where "splay_foreach_from cmp H1 (first ys) = Some (ys, H2)" "holds_elems D H2 (xs @ z # ys)"
    using Cons.IH [of "xs @ [z]" H1] Cons.prems H1(2) by auto
  with H1(1) show ?case by (subst splay_foreach_from.simps) simp
qed (simp add: splay_foreach_from.simps)

end

section \<open>Calls\<close>

definition splay_ops :: "sp_head tree_ops" where
  "splay_ops = \<lparr>op_insert = SPLAY_INSERT, op_remove = SPLAY_REMOVE, op_find = SPLAY_FIND, op_min = SPLAY_MIN\<rparr>"

context coroutine_order
begin

lemma splay_family: "coroutine_tree cmp key splay_ops holds_elems"
proof unfold_locales
  fix D H cs S c d
  assume T: "holds_elems D H cs" "ascending (at S) cs" "set cs \<subseteq> dom (cos S)" "c \<in> dom (cos S)"
  show "\<exists>H'. op_insert splay_ops (cmp S) H (Some c) = Some (Some d, H') \<and> holds_elems D H' cs" if "same (at S) c cs = Some d"
    using order.splay_insert_present [OF T that] by (simp add: splay_ops_def)
  show "\<exists>H'. op_insert splay_ops (cmp S) H (Some c) = Some (None, H') \<and> holds_elems D H' (place (at S) c cs)"
    if "c \<in> D" "same (at S) c cs = None"
    using order.splay_insert_new [OF T that] by (simp add: splay_ops_def)
  show "\<exists>H'. op_find splay_ops (cmp S) H (Some c) = Some (same (at S) c cs, H') \<and> holds_elems D H' cs"
    using order.splay_find [OF T] by (simp add: splay_ops_def)
next
  fix D H xs c ys S
  assume T: "holds_elems D H (xs @ c # ys)" "ascending (at S) (xs @ c # ys)" "set (xs @ c # ys) \<subseteq> dom (cos S)"
  then show "\<exists>H'. op_remove splay_ops (cmp S) H (Some c) = Some (Some c, H') \<and> holds_elems D H' (xs @ ys)"
    using order.splay_remove [OF T] by (simp add: splay_ops_def)
next
  show "\<exists>H'. op_min splay_ops H = Some (first cs, H') \<and> holds_elems D H' cs" if "holds_elems D H cs" for D H cs
  proof (cases "cs = []")
    case True
    then show ?thesis using that holds_elems_empty [OF that] by (simp add: splay_ops_def SPLAY_MIN_def)
  next
    case False
    then show ?thesis using splay_minimum(1) [OF that False] by (simp add: splay_ops_def first_hd)
  qed
qed

lemma splay_foreach:
  assumes "holds_elems D H cs" and "keys S key cs = Some ks" and "sorted_wrt (<) (map fst ks)"
  shows "map_option fst (SPLAY_FOREACH (cmp S) H) = Some cs"
proof (cases "cs = []")
  case True
  then show ?thesis using holds_elems_empty [OF assms(1)]
    by (simp add: SPLAY_FOREACH_def SPLAY_MIN_def splay_foreach_from.simps)
next
  case False
  note a = keys_ascending [OF assms(2,3)]
  obtain H1 where H1: "SPLAY_MIN H = Some (Some (hd cs), H1)" "holds_elems D H1 cs"
    using splay_minimum(1) [OF assms(1) False] by blast
  obtain H2 where "splay_foreach_from (cmp S) H1 (first cs) = Some (cs, H2)"
    using order.splay_foreach_at [of S "[]" cs D H1] a H1(2) by auto
  then show ?thesis using H1(1) False by (simp add: SPLAY_FOREACH_def first_hd)
qed

end

interpretation sleep_splay: coroutine_tree nty_coroutine_sleep_cmp co_sleep_usecs splay_ops holds_elems
  by (rule sleep_order.splay_family)

interpretation wait_splay: coroutine_tree nty_coroutine_wait_cmp co_fd splay_ops holds_elems
  by (rule wait_order.splay_family)

section \<open>Properties\<close>

text \<open>
  C14. Splay trees and red-black trees are interchangeable: for the same comparison function and any
  sequence of insertions, removals and searches, the macros of both families return, with the same
  results, and their loops over all elements visit the same elements in the same order.
\<close>

theorem splay_agrees_with_rb:
  assumes "\<forall>(S, call) \<in> set calls. dom (cos S) \<subseteq> dom (sp_mem H) \<and> dom (cos S) \<subseteq> dom (rb_mem T)"
    and "list_run co_fd [] calls = Some (rs, cs)"
  shows "\<exists>H' T'. tree_run splay_ops nty_coroutine_wait_cmp (SPLAY_INIT H) calls = Some (rs, H') \<and>
    tree_run rb_ops nty_coroutine_wait_cmp (RB_INIT T) calls = Some (rs, T') \<and> RB_FOREACH T' = Some cs \<and>
    (\<forall>S ks. keys S co_fd cs = Some ks \<and> sorted_wrt (<) (map fst ks) \<longrightarrow>
       map_option fst (SPLAY_FOREACH (nty_coroutine_wait_cmp S) H') = Some cs)"
proof -
  obtain H' where H: "tree_run splay_ops nty_coroutine_wait_cmp (SPLAY_INIT H) calls = Some (rs, H')" "holds_elems (dom (sp_mem H)) H' cs"
    using wait_splay.calls_refine [OF holds_elems_init _ assms(2)] assms(1) by blast
  obtain T' where T: "tree_run rb_ops nty_coroutine_wait_cmp (RB_INIT T) calls = Some (rs, T')" "holds_tree (dom (rb_mem T)) T' cs"
    using wait_tree.calls_refine [OF holds_tree_init _ assms(2)] assms(1) by blast
  then show ?thesis using H wait_order.splay_foreach [OF H(2)] holds_tree_foreach(1) [OF T(2)] by blast
qed

definition blank_splay :: "nat \<Rightarrow> sp_head" where
  "blank_splay n = \<lparr>sph_root = None, sp_mem = (\<lambda>a. if a < n then Some \<lparr>spe_left = None, spe_right = None\<rparr> else None)\<rparr>"

theorem splay_agrees_with_rb_witness:
  "\<exists>H'. tree_run splay_ops nty_coroutine_wait_cmp (SPLAY_INIT (blank_splay 4)) keyed_calls =
      Some ([None, None, None, None, Some 2, Some 0, Some 1], H') \<and>
    map_option fst (SPLAY_FOREACH (nty_coroutine_wait_cmp (keyed_sched [7, 3, 9, 5])) H') = Some [1, 3, 2]"
proof -
  have "dom (sp_mem (blank_splay 4)) = dom (rb_mem (blank_mem 4))" by (auto simp: blank_splay_def blank_mem_def split: if_splits)
  then have "\<forall>(S, call) \<in> set keyed_calls. dom (cos S) \<subseteq> dom (sp_mem (blank_splay 4)) \<and> dom (cos S) \<subseteq> dom (rb_mem (blank_mem 4))"
    using keyed_calls_mem by auto
  from splay_agrees_with_rb [OF this keyed_runs(2)] show ?thesis
    by (force simp: keys_def keyed_sched_def keyed_co_def)
qed

end
