(* ===== verification/Nty_Inv.thy ===== *)
theory Nty_Inv
  imports Nty_Sched
begin

text \<open>
  The invariant of the coroutine scheduler for coroutines that wait for descriptors of their own,
  and what running such a coroutine does to the scheduler.
\<close>

unbundle bit_operations_syntax

section \<open>Ownership of descriptors\<close>

text \<open>
  Functions written against the socket calls of the library: they poll one descriptor at a time
  with the timeout 1, sleep for 0 only and keep to the size of the stack.
\<close>

fun act_ok :: "act \<Rightarrow> bool" where
  "act_ok (Poll fds timeout) \<longleftrightarrow> timeout = 1 \<and>
     (case fds of [(fd, ev)] \<Rightarrow> ev AND POLLIN \<noteq> 0 \<or> ev AND POLLOUT \<noteq> 0 | _ \<Rightarrow> False)"
| "act_ok (Polled fds) \<longleftrightarrow> False"
| "act_ok (Sleep msecs) \<longleftrightarrow> msecs = 0"
| "act_ok Renice \<longleftrightarrow> True"
| "act_ok Detach \<longleftrightarrow> True"
| "act_ok (Create func) \<longleftrightarrow> list_all act_ok func"
| "act_ok (Work frame) \<longleftrightarrow> length frame \<le> NTY_CO_MAX_STACKSIZE"

fun act_fds :: "act \<Rightarrow> int set" where
  "act_fds (Poll fds timeout) = fst ` set fds"
| "act_fds (Polled fds) = fst ` set fds"
| "act_fds (Create func) = \<Union> (act_fds ` set func)"
| "act_fds _ = {}"

abbreviation script_fds :: "act list \<Rightarrow> int set" where
  "script_fds s \<equiv> \<Union> (act_fds ` set s)"

text \<open>What a coroutine hands to one that it creates it does not use itself any more.\<close>

fun act_apart :: "act \<Rightarrow> bool"
  and acts_apart :: "act list \<Rightarrow> bool" where
  "act_apart (Create func) \<longleftrightarrow> acts_apart func"
| "act_apart _ \<longleftrightarrow> True"
| "acts_apart [] \<longleftrightarrow> True"
| "acts_apart (a # s) \<longleftrightarrow> act_apart a \<and> acts_apart s \<and>
     (case a of Create func \<Rightarrow> script_fds func \<inter> script_fds s = {} | _ \<Rightarrow> True)"

definition good_script :: "act list \<Rightarrow> bool" where
  "good_script s \<longleftrightarrow> list_all act_ok s \<and> acts_apart s"

text \<open>The number of coroutines a function creates, and a bound of the steps it takes.\<close>

fun act_creates :: "act \<Rightarrow> nat" where
  "act_creates (Create func) = Suc (sum_list (map act_creates func))"
| "act_creates _ = 0"

abbreviation creates :: "act list \<Rightarrow> nat" where
  "creates s \<equiv> sum_list (map act_creates s)"

fun act_work :: "act \<Rightarrow> nat" where
  "act_work (Poll fds timeout) = 2"
| "act_work (Create func) = Suc (Suc (sum_list (map act_work func)))"
| "act_work _ = 1"

abbreviation script_work :: "act list \<Rightarrow> nat" where
  "script_work s \<equiv> Suc (sum_list (map act_work s))"

text \<open>
  Functions whose last step is to wait for a descriptor of a set: a coroutine that serves a client
  who stays connected, or one that accepts connections, waits there when the events stop. \<open>stays\<close>
  counts them, the created ones included.
\<close>

fun last_wait :: "int set \<Rightarrow> act \<Rightarrow> nat" where
  "last_wait I (Poll fds timeout) = (if fst ` set fds \<subseteq> I then 1 else 0)"
| "last_wait I (Polled fds) = (if fst ` set fds \<subseteq> I then 1 else 0)"
| "last_wait I _ = 0"

fun act_stays :: "int set \<Rightarrow> act \<Rightarrow> nat"
  and stays :: "int set \<Rightarrow> act list \<Rightarrow> nat" where
  "act_stays I (Create func) = stays I func"
| "act_stays I _ = 0"
| "stays I [] = 0"
| "stays I (a # s) = act_stays I a + (if s = [] then last_wait I a else stays I s)"

lemma good_script_Cons: "good_script (a # s) \<Longrightarrow> good_script s \<and> act_ok a"
  by (cases a) (auto simp: good_script_def)

lemma good_script_Create:
  "good_script (Create func # s) \<Longrightarrow> good_script func \<and> good_script s \<and> script_fds func \<inter> script_fds s = {}"
  by (simp add: good_script_def)

lemma act_ok_Poll:
  "act_ok (Poll fds timeout) \<longleftrightarrow> timeout = 1 \<and> (\<exists>fd ev. fds = [(fd, ev)] \<and> (ev AND POLLIN \<noteq> 0 \<or> ev AND POLLOUT \<noteq> 0))"
  by (cases fds; cases "tl fds") auto

section \<open>The invariant of the scheduler\<close>

text \<open>
  A state is looked at together with the coroutine that runs, if there is one, and what is left
  of its function: the scripts of all the coroutines that exist.
\<close>

type_synonym running = "(nat \<times> act list) option"

fun script_of :: "nty_schedule \<Rightarrow> running \<Rightarrow> nat \<Rightarrow> act list" where
  "script_of S None d = co_func (the (cos S d))"
| "script_of S (Some (c, s)) d = (if d = c then s else co_func (the (cos S d)))"

fun run_list :: "running \<Rightarrow> nat list" where
  "run_list None = []"
| "run_list (Some (c, s)) = [c]"

definition total :: "(act list \<Rightarrow> nat) \<Rightarrow> nty_schedule \<Rightarrow> running \<Rightarrow> nat" where
  "total g S run = (\<Sum>c \<in> dom (cos S). g (script_of S run c))"

definition calm :: "32 word \<Rightarrow> bool" where
  "calm st \<longleftrightarrow> \<not> has st WAIT_READ \<and> \<not> has st WAIT_WRITE \<and> \<not> has st EXITED \<and> \<not> has st FDEOF"

definition stk_ok :: "nty_schedule \<Rightarrow> nty_coroutine \<Rightarrow> bool" where
  "stk_ok S co \<longleftrightarrow> co_stack_size co \<le> NTY_CO_MAX_STACKSIZE \<and> co_stack_size co \<le> length (stack S) \<and>
     co_stack_size co \<le> length (co_stack co)"

definition ready_ok :: "nty_schedule \<Rightarrow> nty_coroutine \<Rightarrow> bool" where
  "ready_ok S co \<longleftrightarrow> calm (co_status co) \<and> good_script (co_func co) \<and> (has (co_status co) NEW \<or> stk_ok S co)"

definition wait_ok :: "nty_schedule \<Rightarrow> nty_coroutine \<Rightarrow> bool" where
  "wait_ok S co \<longleftrightarrow> (\<exists>ev rest. co_func co = Polled [(co_fd co, ev)] # rest \<and> good_script rest) \<and>
     \<not> has (co_status co) NEW \<and> \<not> has (co_status co) EXITED \<and> stk_ok S co"

definition queues_ok :: "nty_schedule \<Rightarrow> running \<Rightarrow> bool" where
  "queues_ok S run \<longleftrightarrow> distinct (ready S @ waiting S @ run_list run) \<and> sleeping S = [] \<and>
     dom (cos S) = set (ready S @ waiting S @ run_list run) \<and> (\<forall>c \<in> dom (cos S). c < fresh_co S)"

definition members_ok :: "nty_schedule \<Rightarrow> bool" where
  "members_ok S \<longleftrightarrow> (\<forall>c \<in> set (ready S). ready_ok S (the (cos S c))) \<and> (\<forall>c \<in> set (waiting S). wait_ok S (the (cos S c)))"

definition fds_apart :: "nty_schedule \<Rightarrow> running \<Rightarrow> bool" where
  "fds_apart S run \<longleftrightarrow> (\<forall>c \<in> dom (cos S). \<forall>d \<in> dom (cos S). c \<noteq> d \<longrightarrow>
     script_fds (script_of S run c) \<inter> script_fds (script_of S run d) = {}) \<and>
     (\<forall>c \<in> dom (cos S). eventfd S \<notin> script_fds (script_of S run c))"

definition polled_ok :: "nty_schedule \<Rightarrow> bool" where
  "polled_ok S \<longleftrightarrow> dom (polled S) = insert (eventfd S) ((\<lambda>c. co_fd (the (cos S c))) ` set (waiting S))"

definition account_ok :: "nty_schedule \<Rightarrow> running \<Rightarrow> bool" where
  "account_ok S run \<longleftrightarrow> spawned_coroutines S = int (card (dom (cos S))) \<and>
     int (total (\<lambda>s. Suc (creates s)) S run) \<le> INT_MAX"

definition env_ok :: "nty_schedule \<Rightarrow> bool" where
  "env_ok S \<longleftrightarrow> callocs S = [] \<and> NTY_CO_MAX_STACKSIZE \<le> length (stack S)"

definition sched_inv :: "nty_schedule \<Rightarrow> running \<Rightarrow> bool" where
  "sched_inv S run \<longleftrightarrow> queues_ok S run \<and> members_ok S \<and> (\<forall>c s. run = Some (c, s) \<longrightarrow> good_script s) \<and>
     fds_apart S run \<and> polled_ok S \<and> account_ok S run \<and> env_ok S"

lemma sched_invI:
  "queues_ok S run \<Longrightarrow> members_ok S \<Longrightarrow> (\<And>c s. run = Some (c, s) \<Longrightarrow> good_script s) \<Longrightarrow> fds_apart S run \<Longrightarrow>
     polled_ok S \<Longrightarrow> account_ok S run \<Longrightarrow> env_ok S \<Longrightarrow> sched_inv S run"
  by (simp add: sched_inv_def)

lemma sched_invD:
  assumes "sched_inv S run"
  shows "queues_ok S run" "members_ok S" "run = Some (c, s) \<Longrightarrow> good_script s" "fds_apart S run"
    "polled_ok S" "account_ok S run" "env_ok S"
  using assms by (simp_all add: sched_inv_def)

text \<open>Members of the queues that a change of the state does not touch.\<close>

lemma members_okI:
  assumes "members_ok S" and "length (stack S') = length (stack S)"
    and "\<And>c. c \<in> set (ready S') \<Longrightarrow> c \<in> set (ready S) \<and> cos S' c = cos S c \<or> ready_ok S' (the (cos S' c))"
    and "\<And>c. c \<in> set (waiting S') \<Longrightarrow> c \<in> set (waiting S) \<and> cos S' c = cos S c \<or> wait_ok S' (the (cos S' c))"
  shows "members_ok S'"
proof -
  have "ready_ok S' co \<longleftrightarrow> ready_ok S co" "wait_ok S' co \<longleftrightarrow> wait_ok S co" for co
    using assms(2) by (simp_all add: ready_ok_def wait_ok_def stk_ok_def)
  with assms(1,3,4) show ?thesis unfolding members_ok_def by metis
qed

lemma fds_apartI:
  assumes "fds_apart S run" and "eventfd S' = eventfd S" and "\<And>c. c \<in> dom (cos S') \<Longrightarrow> c \<in> dom (cos S) \<and> script_fds (script_of S' run' c) \<subseteq> script_fds (script_of S run c)"
  shows "fds_apart S' run'"
  unfolding fds_apart_def
proof (intro conjI ballI impI)
  fix c d
  assume cd: "c \<in> dom (cos S')" "d \<in> dom (cos S')" "c \<noteq> d"
  then have "script_fds (script_of S run c) \<inter> script_fds (script_of S run d) = {}"
    using assms unfolding fds_apart_def by simp
  with assms(3) [OF cd(1)] assms(3) [OF cd(2)]
  show "script_fds (script_of S' run' c) \<inter> script_fds (script_of S' run' d) = {}" by (metis (no_types, lifting) Int_mono subset_empty)
next
  fix c
  assume "c \<in> dom (cos S')"
  from assms(3) [OF this] show "eventfd S' \<notin> script_fds (script_of S' run' c)"
    using assms(1,2) unfolding fds_apart_def by (metis (no_types, lifting) subsetD)
qed

lemma finite_dom: "sched_inv S run \<Longrightarrow> finite (dom (cos S))"
  by (simp add: sched_inv_def queues_ok_def)

text \<open>Totals when one script changes.\<close>

lemma total_upd:
  assumes "finite (dom (cos S))" and "c \<in> dom (cos S)" and "dom (cos S') = dom (cos S)"
    and "\<forall>d \<in> dom (cos S) - {c}. script_of S' run' d = script_of S run d"
  shows "total g S' run' + g (script_of S run c) = total g S run + g (script_of S' run' c)"
proof -
  have "total g S run = g (script_of S run c) + (\<Sum>d \<in> dom (cos S) - {c}. g (script_of S run d))"
    unfolding total_def using assms(1,2) by (simp add: sum.remove)
  moreover have "total g S' run' = g (script_of S' run' c) + (\<Sum>d \<in> dom (cos S) - {c}. g (script_of S' run' d))"
    unfolding total_def assms(3) using assms(1,2) by (simp add: sum.remove)
  moreover have "(\<Sum>d \<in> dom (cos S) - {c}. g (script_of S' run' d)) = (\<Sum>d \<in> dom (cos S) - {c}. g (script_of S run d))"
    using assms(4) by (intro sum.cong) auto
  ultimately show ?thesis by simp
qed

lemma total_same:
  assumes "dom (cos S') = dom (cos S)" and "\<forall>d \<in> dom (cos S). script_of S' run' d = script_of S run d"
  shows "total g S' run' = total g S run"
  unfolding total_def using assms by (intro sum.cong) auto

text \<open>The running coroutine goes on to the rest of its function, and its fields do not matter.\<close>

lemma inv_step:
  assumes "sched_inv S (Some (c, a # s))" and "cos S c = Some co"
    and "S' = S\<lparr>cos := (cos S)(c \<mapsto> co'), stack := st, used := u\<rparr>" and "length st = length (stack S)"
  shows "sched_inv S' (Some (c, s)) \<and> total script_work S' (Some (c, s)) + act_work a = total script_work S (Some (c, a # s)) \<and>
    total g S' (Some (c, s)) + g (a # s) = total g S (Some (c, a # s)) + g s"
proof -
  have d: "dom (cos S') = dom (cos S)" using assms(2,3) by auto
  have c: "c \<in> dom (cos S)" using assms(2) by auto
  have fin: "finite (dom (cos S))" using assms(1) by (rule finite_dom)
  have same: "\<forall>d \<in> dom (cos S) - {c}. script_of S' (Some (c, s)) d = script_of S (Some (c, a # s)) d"
    using assms(3) by auto
  have t: "total g S' (Some (c, s)) + g (a # s) = total g S (Some (c, a # s)) + g s" for g
    using total_upd [OF fin c d same, of g] by simp
  note inv = sched_invD [OF assms(1)]
  have rw: "c \<notin> set (ready S)" "c \<notin> set (waiting S)" using inv(1) by (auto simp: queues_ok_def)
  have "sched_inv S' (Some (c, s))"
  proof (rule sched_invI)
    show "queues_ok S' (Some (c, s))" using inv(1) d assms(3) by (simp add: queues_ok_def)
    show "members_ok S'" by (rule members_okI [OF inv(2)]) (use assms(3,4) rw in auto)
    show "good_script s'" if "Some (c, s) = Some (c', s')" for c' s' using inv(3) good_script_Cons that by auto
    show "fds_apart S' (Some (c, s))" by (rule fds_apartI [OF inv(4)]) (use assms(2,3) in \<open>auto split: if_splits\<close>)
    show "polled_ok S'" using inv(5) assms(3) rw by (auto simp: polled_ok_def image_iff)
    show "account_ok S' (Some (c, s))" using inv(6) t [of "\<lambda>s. Suc (creates s)"] d assms(3) by (auto simp: account_ok_def)
    show "env_ok S'" using inv(7) assms(3,4) by (simp add: env_ok_def)
  qed
  with t [of script_work] t [of g] show ?thesis by simp
qed

text \<open>Fields that the invariant does not mention.\<close>

lemma inv_cong:
  assumes "sched_inv S run" and "ready S' = ready S" and "waiting S' = waiting S" and "sleeping S' = sleeping S"
    and "cos S' = cos S" and "fresh_co S' = fresh_co S" and "polled S' = polled S" and "eventfd S' = eventfd S"
    and "spawned_coroutines S' = spawned_coroutines S" and "callocs S' = callocs S" and "length (stack S') = length (stack S)"
  shows "sched_inv S' run \<and> total g S' run = total g S run"
proof -
  note inv = sched_invD [OF assms(1)]
  have sc: "script_of S' run c = script_of S run c" for c using assms(5) by (cases run) auto
  have t: "total g S' run = total g S run" for g unfolding total_def assms(5) sc ..
  have "sched_inv S' run"
  proof (rule sched_invI)
    show "queues_ok S' run" using inv(1) assms by (simp add: queues_ok_def)
    show "members_ok S'" by (rule members_okI [OF inv(2) assms(11)]) (use assms in simp_all)
    show "fds_apart S' run" using inv(4) assms(5,8) sc by (simp add: fds_apart_def)
    show "polled_ok S'" using inv(5) assms by (simp add: polled_ok_def)
    show "account_ok S' run" using inv(6) assms t by (simp add: account_ok_def)
    show "env_ok S'" using inv(7) assms by (simp add: env_ok_def)
  qed (use inv(3) in blast)
  with t show ?thesis by simp
qed

lemma not_queued:
  assumes "sched_inv S (Some (c, s))"
  shows "c \<notin> set (ready S)" "c \<notin> set (waiting S)" "c \<in> dom (cos S)"
  using sched_invD(1) [OF assms] by (auto simp: queues_ok_def)

text \<open>The running coroutine queues itself as ready.\<close>

lemma inv_suspend:
  assumes "sched_inv S (Some (c, s))" and "co_func co' = s" and "calm (co_status co')" and "stk_ok S co'"
    and S': "S' = S\<lparr>ready := ready S @ [c], cos := (cos S)(c \<mapsto> co')\<rparr>"
  shows "sched_inv S' None \<and> total g S' None = total g S (Some (c, s))"
proof -
  note inv = sched_invD [OF assms(1)] and q = not_queued [OF assms(1)]
  have d: "dom (cos S') = dom (cos S)" using q(3) S' by auto
  have sc: "script_of S' None x = script_of S (Some (c, s)) x" if "x \<in> dom (cos S)" for x using S' assms(2) by auto
  have t: "total g S' None = total g S (Some (c, s))" for g by (rule total_same [OF d]) (use sc in blast)
  have "sched_inv S' None"
  proof (rule sched_invI)
    show "queues_ok S' None" using inv(1) d S' q by (auto simp: queues_ok_def)
    show "members_ok S'" by (rule members_okI [OF inv(2)])
      (use S' q assms(2-4) inv(3) in \<open>auto simp: ready_ok_def stk_ok_def\<close>)
    show "fds_apart S' None" by (rule fds_apartI [OF inv(4)]) (simp add: S', use sc d in auto)
    show "polled_ok S'" using inv(5) S' q by (auto simp: polled_ok_def image_iff)
    show "account_ok S' None" using inv(6) t d S' by (simp add: account_ok_def)
    show "env_ok S'" using inv(7) S' by (simp add: env_ok_def)
  qed simp
  with t show ?thesis by simp
qed

text \<open>The first of the ready queue starts to run.\<close>

lemma inv_start:
  assumes "sched_inv S None" and "ready S = c # cs" and "cos S c = Some co"
    and S': "S' = S\<lparr>ready := cs, cos := (cos S)(c \<mapsto> co')\<rparr>"
  shows "sched_inv S' (Some (c, co_func co)) \<and> total g S' (Some (c, co_func co)) = total g S None"
proof -
  note inv = sched_invD [OF assms(1)]
  have d: "dom (cos S') = dom (cos S)" using assms(3) S' by auto
  have q: "c \<notin> set cs" "c \<notin> set (waiting S)" using inv(1) assms(2) by (auto simp: queues_ok_def)
  have good: "good_script (co_func co)" using inv(2) assms(2,3) by (simp add: members_ok_def ready_ok_def)
  have sc: "script_of S' (Some (c, co_func co)) x = script_of S None x" for x using S' assms(3) by auto
  have t: "total g S' (Some (c, co_func co)) = total g S None" for g by (rule total_same [OF d]) (use sc in blast)
  have "sched_inv S' (Some (c, co_func co))"
  proof (rule sched_invI)
    show "queues_ok S' (Some (c, co_func co))" using inv(1) d S' assms(2) by (auto simp: queues_ok_def)
    show "members_ok S'" by (rule members_okI [OF inv(2)]) (use S' q assms(2) in auto)
    show "fds_apart S' (Some (c, co_func co))" by (rule fds_apartI [OF inv(4)]) (simp add: S', use sc d in auto)
    show "polled_ok S'" using inv(5) S' q by (auto simp: polled_ok_def image_iff)
    show "account_ok S' (Some (c, co_func co))" using inv(6) t d S' by (simp add: account_ok_def)
    show "env_ok S'" using inv(7) S' by (simp add: env_ok_def)
  qed (use good in auto)
  with t show ?thesis by simp
qed

text \<open>The running coroutine ends.\<close>

lemma inv_exit:
  assumes "sched_inv S (Some (c, s))"
    and S': "S' = S\<lparr>spawned_coroutines := spawned_coroutines S - 1, cos := (cos S)(c := None)\<rparr>"
  shows "sched_inv S' None \<and> total g S' None + g s = total g S (Some (c, s)) \<and> 0 \<le> spawned_coroutines S"
proof -
  note inv = sched_invD [OF assms(1)] and q = not_queued [OF assms(1)]
  have fin: "finite (dom (cos S))" using assms(1) by (rule finite_dom)
  have d: "dom (cos S') = dom (cos S) - {c}" using S' by auto
  have sc: "script_of S' None x = script_of S (Some (c, s)) x" if "x \<in> dom (cos S) - {c}" for x using S' that by auto
  have t: "total g S' None + g s = total g S (Some (c, s))" for g
  proof -
    have "total g S' None = (\<Sum>x \<in> dom (cos S) - {c}. g (script_of S (Some (c, s)) x))"
      unfolding total_def d using sc by (intro sum.cong) auto
    then show ?thesis unfolding total_def using fin q(3) by (simp add: sum.remove [of "dom (cos S)" c])
  qed
  have "sched_inv S' None"
  proof (rule sched_invI)
    show "queues_ok S' None" using inv(1) d S' q by (auto simp: queues_ok_def)
    show "members_ok S'" by (rule members_okI [OF inv(2)]) (use S' q in auto)
    show "fds_apart S' None" by (rule fds_apartI [OF inv(4)]) (simp add: S', use sc d in auto)
    show "polled_ok S'" using inv(5) S' q by (auto simp: polled_ok_def image_iff)
    show "account_ok S' None"
    proof -
      have "0 < card (dom (cos S))" using fin q(3) card_gt_0_iff by blast
      then have "spawned_coroutines S' = int (card (dom (cos S')))" using inv(6) d S' fin q(3)
        by (simp add: account_ok_def card_Diff_singleton of_nat_diff)
      moreover have "int (total (\<lambda>s. Suc (creates s)) S' None) \<le> INT_MAX"
        using inv(6) t [of "\<lambda>s. Suc (creates s)"] by (simp add: account_ok_def)
      ultimately show ?thesis by (simp add: account_ok_def)
    qed
    show "env_ok S'" using inv(7) S' by (simp add: env_ok_def)
  qed simp
  with t inv(6) show ?thesis by (simp add: account_ok_def)
qed

text \<open>The running coroutine starts to wait for a descriptor that no other coroutine uses.\<close>

lemma inv_wait:
  assumes "sched_inv S (Some (c, Poll [(fd, ev)] timeout # s))" and "co_func co' = Polled [(fd, ev)] # s" and "co_fd co' = fd"
    and "\<not> has (co_status co') NEW" and "\<not> has (co_status co') EXITED" and "stk_ok S co'"
    and w: "distinct w" "set w = insert c (set (waiting S))" and p: "dom p = insert fd (dom (polled S))"
    and S': "S' = S\<lparr>polled := p, waiting := w, cos := (cos S)(c \<mapsto> co')\<rparr>"
  shows "sched_inv S' None \<and> total script_work S' None < total script_work S (Some (c, Poll [(fd, ev)] timeout # s)) \<and>
    total g S' None + g (Poll [(fd, ev)] timeout # s) = total g S (Some (c, Poll [(fd, ev)] timeout # s)) + g (Polled [(fd, ev)] # s)"
proof -
  let ?r = "Some (c, Poll [(fd, ev)] timeout # s)"
  note inv = sched_invD [OF assms(1)] and q = not_queued [OF assms(1)]
  have fin: "finite (dom (cos S))" using assms(1) by (rule finite_dom)
  have d: "dom (cos S') = dom (cos S)" using q(3) S' by auto
  have sc: "\<forall>x \<in> dom (cos S) - {c}. script_of S' None x = script_of S ?r x" using S' by auto
  have t: "total g S' None + g (Poll [(fd, ev)] timeout # s) = total g S ?r + g (Polled [(fd, ev)] # s)" for g
    using total_upd [OF fin q(3) d sc, of g] S' assms(2) by simp
  have good: "good_script s" using inv(3) good_script_Cons by blast
  have "sched_inv S' None"
  proof (rule sched_invI)
    show "queues_ok S' None" using inv(1) d S' q w by (auto simp: queues_ok_def)
    show "members_ok S'" by (rule members_okI [OF inv(2)])
      (use S' q w assms(2-6) good in \<open>auto simp: wait_ok_def stk_ok_def\<close>)
    show "fds_apart S' None" by (rule fds_apartI [OF inv(4)]) (simp add: S', use sc d S' assms(2) in auto)
    show "polled_ok S'" using inv(5) S' q w p assms(3) by (auto simp: polled_ok_def image_iff)
    show "account_ok S' None" using inv(6) t [of "\<lambda>s. Suc (creates s)"] d S' by (simp add: account_ok_def)
    show "env_ok S'" using inv(7) S' by (simp add: env_ok_def)
  qed simp
  with t [of script_work] t [of g] show ?thesis by simp
qed

text \<open>The descriptors of the waiting coroutines are different.\<close>

lemma wait_fds:
  assumes "sched_inv S run" and "c \<in> set (waiting S)"
  obtains co ev s where "cos S c = Some co" and "co_func co = Polled [(co_fd co, ev)] # s" and "good_script s"
    and "\<not> has (co_status co) NEW" and "\<not> has (co_status co) EXITED" and "stk_ok S co"
    and "script_of S run c = co_func co" and "co_fd co \<in> script_fds (script_of S run c)"
proof -
  note inv = sched_invD [OF assms(1)]
  have "c \<in> dom (cos S)" and q: "c \<notin> set (run_list run)" using inv(1) assms(2) by (auto simp: queues_ok_def)
  then obtain co where co: "cos S c = Some co" by auto
  then have "wait_ok S co" using inv(2) assms(2) by (auto simp: members_ok_def)
  moreover have "script_of S run c = co_func co" using co q by (cases run) auto
  ultimately show thesis using that co by (fastforce simp: wait_ok_def)
qed

lemma wait_fds_distinct:
  assumes "sched_inv S run"
  shows "inj_on (\<lambda>c. co_fd (the (cos S c))) (set (waiting S))"
proof (rule inj_onI, rule ccontr)
  fix c d
  assume cd: "c \<in> set (waiting S)" "d \<in> set (waiting S)" "co_fd (the (cos S c)) = co_fd (the (cos S d))" "c \<noteq> d"
  obtain co where "cos S c = Some co" "co_fd co \<in> script_fds (script_of S run c)" by (rule wait_fds [OF assms cd(1)])
  moreover obtain co2 where "cos S d = Some co2" "co_fd co2 \<in> script_fds (script_of S run d)" by (rule wait_fds [OF assms cd(2)])
  ultimately show False using sched_invD(4) [OF assms] cd(3,4) unfolding fds_apart_def by (metis disjoint_iff domI option.sel)
qed

text \<open>Nobody waits for the \<open>eventfd\<close>.\<close>

lemma wait_fds_event:
  assumes "sched_inv S run" and "c \<in> set (waiting S)"
  shows "co_fd (the (cos S c)) \<noteq> eventfd S"
proof -
  obtain co where "cos S c = Some co" "co_fd co \<in> script_fds (script_of S run c)" by (rule wait_fds [OF assms])
  then show ?thesis using sched_invD(4) [OF assms(1)] unfolding fds_apart_def by (metis domI option.sel)
qed

text \<open>A waiting coroutine starts to run.\<close>

lemma inv_unwait:
  assumes "sched_inv S None" and "c \<in> set (waiting S)" and "cos S c = Some co" and "co_func co = Polled [(co_fd co, ev)] # s"
    and S': "S' = S\<lparr>waiting := remove1 c (waiting S), polled := (polled S)(co_fd co := None), cos := (cos S)(c \<mapsto> co')\<rparr>"
  shows "sched_inv S' (Some (c, s)) \<and> total script_work S' (Some (c, s)) < total script_work S None \<and>
    total g S' (Some (c, s)) + g (Polled [(co_fd co, ev)] # s) = total g S None + g s"
proof -
  note inv = sched_invD [OF assms(1)]
  have fin: "finite (dom (cos S))" using assms(1) by (rule finite_dom)
  have c: "c \<in> dom (cos S)" and d: "dom (cos S') = dom (cos S)" using assms(3) S' by auto
  have q: "c \<notin> set (ready S)" "distinct (waiting S)" using inv(1) assms(2) by (auto simp: queues_ok_def)
  have sc: "\<forall>x \<in> dom (cos S) - {c}. script_of S' (Some (c, s)) x = script_of S None x" using S' by auto
  have t: "total g S' (Some (c, s)) + g (Polled [(co_fd co, ev)] # s) = total g S None + g s" for g
    using total_upd [OF fin c d sc, of g] assms(3,4) by simp
  have good: "good_script s" by (rule wait_fds [OF assms(1,2)]) (use assms(3,4) in auto)
  have inj: "co_fd (the (cos S x)) \<noteq> co_fd co" if "x \<in> set (waiting S)" "x \<noteq> c" for x
    using wait_fds_distinct [OF assms(1)] that assms(2,3) by (metis inj_on_def option.sel)
  have "sched_inv S' (Some (c, s))"
  proof (rule sched_invI)
    show "queues_ok S' (Some (c, s))" using inv(1) d S' assms(2) by (auto simp: queues_ok_def)
    show "members_ok S'" by (rule members_okI [OF inv(2)]) (use S' q in auto)
    show "fds_apart S' (Some (c, s))" by (rule fds_apartI [OF inv(4)]) (simp add: S', use sc d assms(3,4) in auto)
    show "polled_ok S'" using inv(5) S' q inj assms(2,3) wait_fds_event [OF assms(1,2)] by (auto simp: polled_ok_def image_iff)
    show "account_ok S' (Some (c, s))" using inv(6) t [of "\<lambda>s. Suc (creates s)"] d S' by (simp add: account_ok_def)
    show "env_ok S'" using inv(7) S' by (simp add: env_ok_def)
  qed (use good in auto)
  with t [of script_work] t [of g] show ?thesis by simp
qed

lemma same_upd: "cos S c = Some co \<Longrightarrow> S = S\<lparr>cos := (cos S)(c \<mapsto> co), stack := stack S, used := used S\<rparr>"
  by (cases S) (simp add: map_upd_triv)

text \<open>A coroutine is created, by the running one or by the program outside of the scheduler.\<close>

lemma inv_spawn:
  assumes "sched_inv S run" and "co_func co' = func" and "co_status co' = BIT NEW" and good: "good_script func"
    and ap: "\<And>x. x \<in> dom (cos S) \<Longrightarrow> script_fds func \<inter> script_fds (script_of S run x) = {}"
    and ev: "eventfd S \<notin> script_fds func" and lim: "int (total (\<lambda>s. Suc (creates s)) S run + Suc (creates func)) \<le> INT_MAX"
    and S': "S' = S\<lparr>spawned_coroutines := spawned_coroutines S + 1, cos := (cos S)(fresh_co S \<mapsto> co'),
                fresh_co := Suc (fresh_co S), ready := ready S @ [fresh_co S]\<rparr>"
  shows "sched_inv S' run \<and> total g S' run = total g S run + g func \<and> spawned_coroutines S < INT_MAX"
proof -
  let ?n = "fresh_co S"
  note inv = sched_invD [OF assms(1)]
  have fin: "finite (dom (cos S))" using assms(1) by (rule finite_dom)
  have new: "?n \<notin> dom (cos S)" using inv(1) by (auto simp: queues_ok_def)
  then have nq: "?n \<notin> set (waiting S)" "?n \<notin> set (ready S)" "?n \<notin> set (run_list run)" using inv(1) by (auto simp: queues_ok_def)
  have d: "dom (cos S') = insert ?n (dom (cos S))" using S' by auto
  have sc: "script_of S' run x = (if x = ?n then func else script_of S run x)" for x
    using S' assms(2) nq(3) by (cases run) auto
  have t: "total g S' run = total g S run + g func" for g
  proof -
    have "(\<Sum>x \<in> dom (cos S). g (script_of S' run x)) = (\<Sum>x \<in> dom (cos S). g (script_of S run x))"
      using new sc by (intro sum.cong) auto
    then show ?thesis unfolding total_def d using fin new sc [of ?n] by simp
  qed
  have "card (dom (cos S')) \<le> total (\<lambda>s. Suc (creates s)) S' run"
    unfolding total_def using sum_mono [of "dom (cos S')" "\<lambda>_. 1" "\<lambda>x. Suc (creates (script_of S' run x))"] by simp
  then have lim2: "int (card (dom (cos S))) < INT_MAX" using lim t [of "\<lambda>s. Suc (creates s)"] d new fin by simp
  have "sched_inv S' run"
  proof (rule sched_invI)
    show "queues_ok S' run" using inv(1) d S' nq by (auto simp: queues_ok_def less_Suc_eq)
    show "members_ok S'" by (rule members_okI [OF inv(2)])
      (use S' nq assms(2,3) good in \<open>auto simp: ready_ok_def calm_def\<close>)
    show "fds_apart S' run" unfolding fds_apart_def d sc
    proof (intro conjI ballI impI)
      fix x y
      assume "x \<in> insert ?n (dom (cos S))" "y \<in> insert ?n (dom (cos S))" "x \<noteq> y"
      then show "script_fds (if x = ?n then func else script_of S run x) \<inter> script_fds (if y = ?n then func else script_of S run y) = {}"
        using inv(4) ap [of x] ap [of y] unfolding fds_apart_def by (cases "x = ?n"; cases "y = ?n") (simp_all add: inf_commute)
    next
      fix x
      assume "x \<in> insert ?n (dom (cos S))"
      then show "eventfd S' \<notin> script_fds (if x = ?n then func else script_of S run x)"
        using inv(4) ev S' unfolding fds_apart_def by (cases "x = ?n") simp_all
    qed
    have "(\<lambda>c. co_fd (the (cos S' c))) ` set (waiting S) = (\<lambda>c. co_fd (the (cos S c))) ` set (waiting S)"
      using S' nq(1) by (intro image_cong) auto
    then show "polled_ok S'" using inv(5) S' by (simp add: polled_ok_def)
    show "account_ok S' run" using inv(6) t [of "\<lambda>s. Suc (creates s)"] lim d S' new fin by (simp add: account_ok_def)
    show "env_ok S'" using inv(7) S' by (simp add: env_ok_def)
  qed (use inv(3) in blast)
  with t lim2 inv(6) show ?thesis by (simp add: account_ok_def)
qed

lemma inv_create:
  assumes "sched_inv S (Some (c, Create func # s))" and "co_func co' = func" and "co_status co' = BIT NEW"
    and S': "S' = S\<lparr>spawned_coroutines := spawned_coroutines S + 1, cos := (cos S)(fresh_co S \<mapsto> co'),
                fresh_co := Suc (fresh_co S), ready := ready S @ [fresh_co S]\<rparr>"
  shows "sched_inv S' (Some (c, s)) \<and> total script_work S' (Some (c, s)) < total script_work S (Some (c, Create func # s)) \<and>
         spawned_coroutines S < INT_MAX \<and> total (stays I) S' (Some (c, s)) = total (stays I) S (Some (c, Create func # s))"
proof -
  let ?r = "Some (c, Create func # s)" and ?r' = "Some (c, s)"
  note inv = sched_invD [OF assms(1)] and q = not_queued [OF assms(1)]
  have good: "good_script func" "script_fds func \<inter> script_fds s = {}"
    using inv(3) good_script_Create by blast+
  obtain co where co: "cos S c = Some co" using q(3) by blast
  have i: "sched_inv S ?r'" "total script_work S ?r' + act_work (Create func) = total script_work S ?r"
      "total (stays I) S ?r' + stays I (Create func # s) = total (stays I) S ?r + stays I s"
    using inv_step [OF assms(1) co same_upd [OF co] refl, of "stays I"] by blast+
  have ev: "eventfd S \<notin> script_fds func" 
  proof -
    have "eventfd S \<notin> script_fds (script_of S ?r c)" using inv(4) q(3) unfolding fds_apart_def by blast
    then show ?thesis by simp
  qed
  have "total (\<lambda>s. Suc (creates s)) S ?r' + Suc (creates (Create func # s)) = total (\<lambda>s. Suc (creates s)) S ?r + Suc (creates s)"
    using total_upd [OF finite_dom [OF assms(1)] q(3) refl, of ?r' ?r "\<lambda>s. Suc (creates s)"] by simp
  then have lim: "int (total (\<lambda>s. Suc (creates s)) S ?r' + Suc (creates func)) \<le> INT_MAX"
    using inv(6) by (simp add: account_ok_def)
  have ap: "script_fds func \<inter> script_fds (script_of S ?r' x) = {}" if "x \<in> dom (cos S)" for x
  proof (cases "x = c")
    case False
    then have "script_fds (script_of S ?r x) \<inter> script_fds (script_of S ?r c) = {}"
      using inv(4) that q(3) unfolding fds_apart_def by blast
    with False show ?thesis by auto
  qed (use good(2) in simp)
  have st: "stays I (Create func # s) = stays I func + stays I s" by simp
  have sp: "sched_inv S' ?r' \<and> total g S' ?r' = total g S ?r' + g func \<and> spawned_coroutines S < INT_MAX" for g
    by (rule inv_spawn [OF i(1) assms(2,3) good(1) ap ev lim S'])
  show ?thesis using sp [of script_work] sp [of "stays I"] i(2,3) unfolding st by simp
qed

section \<open>Running coroutines\<close>

text \<open>The coroutines that come to wait stay the same in number.\<close>

definition keeps :: "nty_schedule \<Rightarrow> running \<Rightarrow> nty_schedule \<Rightarrow> running \<Rightarrow> bool" where
  "keeps S run S' run' \<longleftrightarrow> (\<forall>I. total (stays I) S' run' = total (stays I) S run)"

lemma keeps_trans: "keeps S run S1 run1 \<Longrightarrow> keeps S1 run1 S2 run2 \<Longrightarrow> keeps S run S2 run2"
  by (simp add: keeps_def)

lemma inv_step_keeps:
  assumes "sched_inv S (Some (c, a # s))" and "cos S c = Some co"
    and "S' = S\<lparr>cos := (cos S)(c \<mapsto> co'), stack := st, used := u\<rparr>" and "length st = length (stack S)"
    and "\<And>I. stays I (a # s) = stays I s"
  shows "keeps S (Some (c, a # s)) S' (Some (c, s))"
  unfolding keeps_def
proof
  fix I
  show "total (stays I) S' (Some (c, s)) = total (stays I) S (Some (c, a # s))"
    using inv_step [OF assms(1-4), of "stays I"] unfolding assms(5) by (metis add_right_cancel)
qed

text \<open>What a run of a coroutine leaves to the others.\<close>

definition leaves :: "nat \<Rightarrow> nty_schedule \<Rightarrow> nty_schedule \<Rightarrow> bool" where
  "leaves c S S' \<longleftrightarrow> eventlist S' = eventlist S \<and> default_timeout S' = default_timeout S \<and>
     poller_fd S' = poller_fd S \<and> eventfd S' = eventfd S \<and> (\<exists>cs. ready S' = ready S @ cs) \<and>
     (\<forall>d \<in> set (waiting S). d \<noteq> c \<longrightarrow> d \<in> set (waiting S') \<and> cos S' d = cos S d)"

lemma leaves_refl: "leaves c S S"
  by (simp add: leaves_def)

lemma leaves_trans: "leaves c S S1 \<Longrightarrow> leaves c S1 S2 \<Longrightarrow> leaves c S S2"
  by (auto simp: leaves_def)

lemma no_callocs: "callocs S = [] \<Longrightarrow> S\<lparr>callocs := []\<rparr> = S"
  by (cases S) simp

lemma yield_ok:
  assumes "cos S c = Some co" and "\<not> has (co_status co) EXITED" and "used S \<le> NTY_CO_MAX_STACKSIZE" and "env_ok S"
  obtains co' where "nty_coroutine_yield S c rest = Some (S\<lparr>cos := (cos S)(c \<mapsto> co')\<rparr>)" and "co_func co' = rest"
    and "co_status co' = co_status co" and "co_fd co' = co_fd co" and "stk_ok S co'"
proof -
  let ?co = "co\<lparr>co_ops := 0, co_func := rest\<rparr>"
  let ?live = "drop (length (stack S) - used S) (stack S)"
  let ?co' = "?co\<lparr>co_stack := ?live @ (if co_stack_size co < used S then [] else drop (used S) (co_stack co)), co_stack_size := used S\<rparr>"
  have e: "callocs S = []" "used S \<le> length (stack S)" using assms(3,4) by (auto simp: env_ok_def)
  have "nty_coroutine_yield S c rest = Some (S\<lparr>cos := (cos S)(c \<mapsto> ?co')\<rparr>)"
  proof (cases S)
    case (fields birth stack used spawned default curr poller event evl num ready sleeping waiting cos fresh polled clock now callocs)
    then show ?thesis using assms(1,2,3) e
      by (auto simp: nty_coroutine_yield_def save_stack_def co_upd_def co_get_def Let_def)
  qed
  moreover have "stk_ok S ?co'" using e assms(3) by (simp add: stk_ok_def)
  ultimately show thesis using that by force
qed

text \<open>The outcome of a run: the coroutine has ended, or it is queued again.\<close>

definition run_ends :: "nat \<Rightarrow> nty_schedule \<Rightarrow> act list \<Rightarrow> nty_schedule \<Rightarrow> bool" where
  "run_ends c S s S' \<longleftrightarrow> leaves c S S' \<and> (\<exists>co. cos S' c = Some co \<and>
     (if has (co_status co) EXITED
      then has (co_status co) DETACH \<and> sched_inv S' (Some (c, [])) \<and>
           total script_work S' (Some (c, [])) \<le> total script_work S (Some (c, s)) \<and> keeps S (Some (c, s)) S' (Some (c, []))
      else sched_inv S' None \<and> total script_work S' None < total script_work S (Some (c, s)) \<and> keeps S (Some (c, s)) S' None))"

lemma run_ends_step:
  assumes "run_ends c S1 s1 S'" and "leaves c S S1" and "total script_work S1 (Some (c, s1)) \<le> total script_work S (Some (c, s))"
    and "keeps S (Some (c, s)) S1 (Some (c, s1))"
  shows "run_ends c S s S'"
proof -
  obtain co where co: "cos S' c = Some co" and l: "leaves c S S'"
    using assms(1) leaves_trans [OF assms(2)] unfolding run_ends_def by blast
  then show ?thesis using assms(1,3) keeps_trans [OF assms(4)] unfolding run_ends_def by (cases "has (co_status co) EXITED") simp_all
qed

lemma leaves_upd: "leaves c S (S\<lparr>cos := (cos S)(c \<mapsto> co), stack := st, used := u\<rparr>)" "leaves c S (S\<lparr>cos := (cos S)(c \<mapsto> co)\<rparr>)"
  by (auto simp: leaves_def)

text \<open>A coroutine that queues itself as ready and yields.\<close>

lemma run_ready:
  assumes inv: "sched_inv S (Some (c, a # s))" and co: "cos S c = Some co" "calm (co_status co)" "used S \<le> NTY_CO_MAX_STACKSIZE"
    and w: "act_work a = 1" "\<And>I. stays I (a # s) = stays I s"
  shows "\<exists>S'. do { S \<leftarrow> ready_insert_tail S c; nty_coroutine_yield S c s } = Some S' \<and> run_ends c S (a # s) S'"
proof -
  note q = not_queued [OF inv]
  have inv1: "sched_inv S (Some (c, s))" "total script_work S (Some (c, s)) + 1 = total script_work S (Some (c, a # s))"
    using inv_step [OF inv co(1) same_upd [OF co(1)]] w(1) by simp_all
  have k: "keeps S (Some (c, a # s)) S (Some (c, s))" by (rule inv_step_keeps [OF inv co(1) same_upd [OF co(1)]]) (simp_all add: w(2) del: stays.simps)
  let ?S = "S\<lparr>ready := ready S @ [c]\<rparr>"
  have env: "env_ok ?S" using sched_invD(7) [OF inv] by (simp add: env_ok_def)
  obtain co' where y: "nty_coroutine_yield ?S c s = Some (?S\<lparr>cos := (cos ?S)(c \<mapsto> co')\<rparr>)" "co_func co' = s"
      "co_status co' = co_status co" "stk_ok ?S co'"
    by (rule yield_ok [of ?S c co s]) (use co env in \<open>auto simp: calm_def\<close>)
  let ?S' = "S\<lparr>ready := ready S @ [c], cos := (cos S)(c \<mapsto> co')\<rparr>"
  have i: "sched_inv ?S' None \<and> total g ?S' None = total g S (Some (c, s))" for g
    by (rule inv_suspend [OF inv1(1) y(2)]) (use y co(2) in \<open>auto simp: stk_ok_def\<close>)
  moreover have "leaves c S ?S'" by (auto simp: leaves_def)
  moreover have "keeps S (Some (c, a # s)) ?S' None" using i k by (simp add: keeps_def)
  ultimately have "run_ends c S (a # s) ?S'" using inv1(2) co(2) y(3) by (auto simp: run_ends_def calm_def)
  then show ?thesis using y(1) q(1) by (simp add: ready_insert_tail_def)
qed

text \<open>A coroutine that polls.\<close>

lemma rb_place_set: "set (rb_place ks k c) = insert c (snd ` set ks)"
  by (induction ks k c rule: rb_place.induct) auto

lemma rb_place_distinct: "distinct (map snd ks) \<Longrightarrow> c \<notin> snd ` set ks \<Longrightarrow> distinct (rb_place ks k c)"
  by (induction ks k c rule: rb_place.induct) (auto simp: rb_place_set)

lemma keys_waiting:
  assumes "queues_ok S run"
  shows "keys S co_fd (waiting S) = Some (map (\<lambda>c. (co_fd (the (cos S c)), c)) (waiting S))"
proof -
  have "set (waiting S) \<subseteq> dom (cos S)" using assms by (auto simp: queues_ok_def)
  then show ?thesis by (auto simp: keys_def list_all_iff)
qed

lemma sched_wait_ok:
  assumes inv: "sched_inv S (Some (c, Poll [(fd, ev)] timeout # s))" and co: "cos S c = Some co" "calm (co_status co)"
    and ev: "ev AND POLLIN \<noteq> 0 \<or> ev AND POLLOUT \<noteq> 0"
    and S1: "S1 = S\<lparr>polled := p, cos := (cos S)(c \<mapsto> co1)\<rparr>" "co_status co1 = co_status co"
  obtains w co' where "nty_schedule_sched_wait S1 c fd ev 1 = Some (S1\<lparr>waiting := w, cos := (cos S)(c \<mapsto> co')\<rparr>)"
    and "distinct w" and "set w = insert c (set (waiting S))" and "co_fd co' = fd"
    and "\<forall>x. x \<noteq> WAIT_READ \<longrightarrow> has (co_status co') x = has (co_status co) x"
proof -
  note D = sched_invD [OF inv] and q = not_queued [OF inv]
  let ?bit = "if ev AND POLLIN \<noteq> 0 then 0 else 1 :: 32 word"
  let ?co' = "co1\<lparr>co_status := co_status co1 OR ?bit, co_fd := fd, co_events := ev\<rparr>"
  let ?S2 = "S1\<lparr>cos := (cos S)(c \<mapsto> ?co')\<rparr>"
  let ?ks = "map (\<lambda>d. (co_fd (the (cos S d)), d)) (waiting S)"
  have qw: "keys ?S2 co_fd (waiting ?S2) = Some ?ks"
  proof -
    have "queues_ok ?S2 (Some (c, []))" using D(1) q(3) S1(1) by (auto simp: queues_ok_def)
    from keys_waiting [OF this] show ?thesis using S1(1) q(2) by auto
  qed
  have none: "map_of ?ks fd = None"
  proof -
    have "co_fd (the (cos S d)) \<noteq> fd" if d: "d \<in> set (waiting S)" for d
    proof -
      obtain co2 where c2: "cos S d = Some co2" "co_fd co2 \<in> script_fds (script_of S (Some (c, Poll [(fd, ev)] timeout # s)) d)"
        by (rule wait_fds [OF inv d])
      have "d \<noteq> c" "d \<in> dom (cos S)" using d q(2) c2(1) by auto
      with D(4) q(3) have "script_fds (script_of S (Some (c, Poll [(fd, ev)] timeout # s)) d) \<inter>
          script_fds (script_of S (Some (c, Poll [(fd, ev)] timeout # s)) c) = {}" unfolding fds_apart_def by blast
      then show ?thesis using c2 by auto
    qed
    then show ?thesis unfolding map_of_eq_None_iff by fastforce
  qed
  have "rb_insert ?S2 co_fd (waiting ?S2) c = Some (None, rb_place ?ks fd c)"
    unfolding rb_insert_def qw using none S1(1) q(2) by simp
  then have "nty_schedule_sched_wait S1 c fd ev 1 = Some (S1\<lparr>waiting := rb_place ?ks fd c, cos := (cos S)(c \<mapsto> ?co')\<rparr>)"
    using S1 co ev by (auto simp: nty_schedule_sched_wait_def co_get_def co_upd_def calm_def Let_def split: if_splits)
  moreover have "distinct (rb_place ?ks fd c)"
    using D(1) q(2) by (intro rb_place_distinct) (auto simp: queues_ok_def comp_def image_iff)
  moreover have "set (rb_place ?ks fd c) = insert c (set (waiting S))" by (auto simp: rb_place_set image_iff)
  moreover have "\<forall>x. x \<noteq> WAIT_READ \<longrightarrow> has (co_status ?co') x = has (co_status co) x"
    using S1(2) by (auto simp: has_one)
  ultimately show thesis using that by fastforce
qed

lemma inv_running_upd:
  assumes "sched_inv S (Some (c, s))" and "cos S c = Some co"
  shows "sched_inv (S\<lparr>cos := (cos S)(c \<mapsto> co')\<rparr>) (Some (c, s)) \<and>
         total g (S\<lparr>cos := (cos S)(c \<mapsto> co')\<rparr>) (Some (c, s)) = total g S (Some (c, s))"
proof -
  let ?S' = "S\<lparr>cos := (cos S)(c \<mapsto> co')\<rparr>"
  have d: "dom (cos ?S') = dom (cos S)" using assms(2) by auto
  have sc: "script_of ?S' (Some (c, s)) x = script_of S (Some (c, s)) x" for x by simp
  note D = sched_invD [OF assms(1)] and q = not_queued [OF assms(1)]
  have t: "total g ?S' (Some (c, s)) = total g S (Some (c, s))" for g by (rule total_same [OF d]) (use sc in blast)
  have "sched_inv ?S' (Some (c, s))"
  proof (rule sched_invI)
    show "queues_ok ?S' (Some (c, s))" using D(1) d by (simp add: queues_ok_def)
    show "members_ok ?S'" by (rule members_okI [OF D(2)]) (use q in auto)
    show "fds_apart ?S' (Some (c, s))" by (rule fds_apartI [OF D(4)]) (use sc d in auto)
    show "polled_ok ?S'" using D(5) q by (auto simp: polled_ok_def image_iff)
    show "account_ok ?S' (Some (c, s))" using D(6) t d by (simp add: account_ok_def)
    show "env_ok ?S'" using D(7) by (simp add: env_ok_def)
  qed (use D(3) in auto)
  with t show ?thesis by simp
qed

lemma usec_now_eq: "\<exists>n cl. snd (nty_coroutine_usec_now S) = S\<lparr>now := n, clock := cl\<rparr>"
proof (cases "clock S")
  case Nil
  then have "snd (nty_coroutine_usec_now S) = S\<lparr>now := now S, clock := clock S\<rparr>" by (simp add: nty_coroutine_usec_now_def)
  then show ?thesis by blast
qed (auto simp: nty_coroutine_usec_now_def)

abbreviation with_co :: "nty_schedule \<Rightarrow> nty_coroutine \<Rightarrow> nty_schedule" where
  "with_co S co \<equiv> S\<lparr>spawned_coroutines := spawned_coroutines S + 1, cos := (cos S)(fresh_co S \<mapsto> co),
     fresh_co := Suc (fresh_co S), ready := ready S @ [fresh_co S]\<rparr>"

lemma co_create_eq:
  assumes inv: "sched_inv S run" and "spawned_coroutines S < INT_MAX"
  obtains n cl co where "co_create S func = Some (0, with_co (S\<lparr>now := n, clock := cl\<rparr>) co)"
    and "co_func co = func" and "co_status co = BIT NEW"
    and "\<And>g. sched_inv (S\<lparr>now := n, clock := cl\<rparr>) run \<and> total g (S\<lparr>now := n, clock := cl\<rparr>) run = total g S run"
proof -
  note D = sched_invD [OF inv]
  obtain n cl where nc: "snd (nty_coroutine_usec_now S) = S\<lparr>now := n, clock := cl\<rparr>" using usec_now_eq by blast
  then obtain t where t: "nty_coroutine_usec_now S = (t, S\<lparr>now := n, clock := cl\<rparr>)" by (metis prod.collapse)
  let ?T = "S\<lparr>now := n, clock := cl\<rparr>"
  let ?co = "\<lparr>co_func = func, co_status = BIT NEW, co_id = of_int (spawned_coroutines S), co_fd = -1,
                co_events = 0, co_ops = 0, co_sleep_usecs = 0, co_birth = t, co_stack = [], co_stack_size = 0\<rparr>"
  have new: "fresh_co S \<notin> set (ready S)" using D(1) by (auto simp: queues_ok_def)
  have e: "callocs S = []" "S\<lparr>callocs := []\<rparr> = S" using D(7) no_callocs by (simp_all add: env_ok_def)
  have "0 \<le> spawned_coroutines S" using D(6) by (simp add: account_ok_def)
  then have "co_create S func = Some (0, with_co ?T ?co)"
    using new assms(2) unfolding co_create_def e kvstore_malloc.simps prod.case Let_def t
    by (simp add: ready_insert_tail_def)
  moreover have "sched_inv ?T run \<and> total g ?T run = total g S run" for g by (rule inv_cong [OF inv]) simp_all
  ultimately show thesis by (intro that [where n = n and cl = cl and co = ?co]) simp_all
qed

lemma create_ok:
  assumes inv: "sched_inv S (Some (c, Create func # s))"
  obtains S1 where "co_create S func = Some (0, S1)" and "sched_inv S1 (Some (c, s))" and "cos S1 c = cos S c" and "used S1 = used S"
    and "leaves c S S1" and "total script_work S1 (Some (c, s)) < total script_work S (Some (c, Create func # s))"
    and "keeps S (Some (c, Create func # s)) S1 (Some (c, s))"
proof -
  note D = sched_invD [OF inv] and q = not_queued [OF inv]
  have new: "fresh_co S \<notin> set (waiting S)" "c \<noteq> fresh_co S" using D(1) by (auto simp: queues_ok_def)
  have "spawned_coroutines S < INT_MAX"
    using inv_create [OF inv, of "\<lparr>co_func = func, co_status = BIT NEW, co_id = 0, co_fd = 0, co_events = 0, co_ops = 0,
      co_sleep_usecs = 0, co_birth = 0, co_stack = [], co_stack_size = 0\<rparr>", OF _ _ refl] by simp
  then obtain n cl co where co: "co_create S func = Some (0, with_co (S\<lparr>now := n, clock := cl\<rparr>) co)" "co_func co = func"
      "co_status co = BIT NEW" "\<And>g. sched_inv (S\<lparr>now := n, clock := cl\<rparr>) (Some (c, Create func # s)) \<and>
        total g (S\<lparr>now := n, clock := cl\<rparr>) (Some (c, Create func # s)) = total g S (Some (c, Create func # s))"
    by (rule co_create_eq [OF inv, where func = func]) blast
  let ?T = "S\<lparr>now := n, clock := cl\<rparr>"
  have "sched_inv (with_co ?T co) (Some (c, s)) \<and> total script_work (with_co ?T co) (Some (c, s)) < total script_work ?T (Some (c, Create func # s)) \<and>
      spawned_coroutines ?T < INT_MAX \<and> total (stays I) (with_co ?T co) (Some (c, s)) = total (stays I) ?T (Some (c, Create func # s))" for I
    by (rule inv_create [OF co(4) [THEN conjunct1] co(2,3)]) simp
  note i = this
  have "leaves c S (with_co ?T co)" using new by (auto simp: leaves_def)
  moreover have "keeps S (Some (c, Create func # s)) (with_co ?T co) (Some (c, s))" using i co(4) by (simp add: keeps_def)
  moreover note i [of "{}"]
  ultimately show thesis using co new by (intro that [of "with_co ?T co"]) auto
qed

lemma run_poll:
  assumes inv: "sched_inv S (Some (c, Poll [(fd, ev)] 1 # s))" and co: "cos S c = Some co" "calm (co_status co)" "\<not> has (co_status co) NEW"
    and u: "used S \<le> NTY_CO_MAX_STACKSIZE" and ev: "ev AND POLLIN \<noteq> 0 \<or> ev AND POLLOUT \<noteq> 0"
  shows "\<exists>S'. run_co S c (Poll [(fd, ev)] 1 # s) = Some S' \<and> run_ends c S (Poll [(fd, ev)] 1 # s) S'"
proof -
  let ?r = "Poll [(fd, ev)] 1 # s"
  note q = not_queued [OF inv]
  define p where "p = (if polled S fd = None then (polled S)(fd \<mapsto> nty_pollevent_2epoll ev) else polled S)"
  let ?S1 = "S\<lparr>polled := p, cos := (cos S)(c \<mapsto> co\<lparr>co_events := ev\<rparr>)\<rparr>"
  obtain w co' where w: "nty_schedule_sched_wait ?S1 c fd ev 1 = Some (?S1\<lparr>waiting := w, cos := (cos S)(c \<mapsto> co')\<rparr>)"
      "distinct w" "set w = insert c (set (waiting S))" "co_fd co' = fd"
      "\<forall>x. x \<noteq> WAIT_READ \<longrightarrow> has (co_status co') x = has (co_status co) x"
    by (rule sched_wait_ok [OF inv co(1,2) ev, where ?S1.0 = ?S1 and p = p and ?co1.0 = "co\<lparr>co_events := ev\<rparr>"]) auto
  let ?S2 = "S\<lparr>polled := p, waiting := w, cos := (cos S)(c \<mapsto> co')\<rparr>"
  have "(if polled S fd = None then S\<lparr>polled := (polled S)(fd \<mapsto> nty_pollevent_2epoll ev)\<rparr> else S) = S\<lparr>polled := p\<rparr>"
    by (cases S) (simp add: p_def)
  then have reg: "poll_register S c [(fd, ev)] 1 = Some ?S2"
    using w(1) co(1) unfolding poll_register.simps Let_def co_upd_def by simp
  have dp: "dom p = insert fd (dom (polled S))" by (auto simp: p_def)
  have e: "env_ok ?S2" using sched_invD(7) [OF inv] by (simp add: env_ok_def)
  have st: "\<not> has (co_status co') EXITED" "\<not> has (co_status co') NEW" using w(5) co(2,3) by (auto simp: calm_def)
  obtain co2 where y: "nty_coroutine_yield ?S2 c (Polled [(fd, ev)] # s) = Some (?S2\<lparr>cos := (cos ?S2)(c \<mapsto> co2)\<rparr>)"
      "co_func co2 = Polled [(fd, ev)] # s" "co_status co2 = co_status co'" "co_fd co2 = fd" "stk_ok ?S2 co2"
    by (rule yield_ok [of ?S2 c co' "Polled [(fd, ev)] # s"]) (use st e u w(4) in auto)
  let ?S' = "S\<lparr>polled := p, waiting := w, cos := (cos S)(c \<mapsto> co2)\<rparr>"
  have i: "sched_inv ?S' None \<and> total script_work ?S' None < total script_work S (Some (c, ?r)) \<and>
      total g ?S' None + g ?r = total g S (Some (c, ?r)) + g (Polled [(fd, ev)] # s)" for g
    by (rule inv_wait [OF inv y(2,4)]) (use w y st dp in \<open>auto simp: stk_ok_def\<close>)
  have "stays I ?r = stays I (Polled [(fd, ev)] # s)" for I by simp
  then have "keeps S (Some (c, ?r)) ?S' None" unfolding keeps_def using i by (metis add_right_cancel)
  moreover have "leaves c S ?S'" using w(3) by (auto simp: leaves_def)
  moreover note i [of "\<lambda>_. 0"]
  ultimately have "run_ends c S ?r ?S'" using y(3) st by (auto simp: run_ends_def)
  then show ?thesis using reg y(1) by (simp del: poll_register.simps)
qed

text \<open>A coroutine whose function returns.\<close>

lemma run_exit:
  assumes inv: "sched_inv S (Some (c, []))" and co: "cos S c = Some co"
  shows "\<exists>S'. run_co S c [] = Some S' \<and> run_ends c S [] S'"
proof -
  let ?co = "co\<lparr>co_status := co_status co OR (BIT EXITED OR BIT FDEOF OR BIT DETACH)\<rparr>"
  let ?S' = "S\<lparr>cos := (cos S)(c \<mapsto> ?co\<lparr>co_ops := 0, co_func := []\<rparr>)\<rparr>"
  have r: "run_co S c [] = Some ?S'"
    using co by (simp add: exec_end_def co_upd_def co_get_def nty_coroutine_yield_def)
  have d: "dom (cos ?S') = dom (cos S)" using co by auto
  have sc: "script_of ?S' (Some (c, [])) x = script_of S (Some (c, [])) x" for x by simp
  have q: "c \<notin> set (ready S)" "c \<notin> set (waiting S)" using not_queued [OF inv] by auto
  note D = sched_invD [OF inv]
  have t: "total g ?S' (Some (c, [])) = total g S (Some (c, []))" for g by (rule total_same [OF d]) (use sc in blast)
  have "sched_inv ?S' (Some (c, []))"
  proof (rule sched_invI)
    show "queues_ok ?S' (Some (c, []))" using D(1) d by (simp add: queues_ok_def)
    show "members_ok ?S'" by (rule members_okI [OF D(2)]) (use q in auto)
    show "fds_apart ?S' (Some (c, []))" by (rule fds_apartI [OF D(4)]) (use sc d in auto)
    show "polled_ok ?S'" using D(5) q by (auto simp: polled_ok_def image_iff)
    show "account_ok ?S' (Some (c, []))" using D(6) t d by (simp add: account_ok_def)
    show "env_ok ?S'" using D(7) by (simp add: env_ok_def)
  qed (auto simp: good_script_def)
  moreover have "leaves c S ?S'" by (auto simp: leaves_def)
  ultimately show ?thesis using r t by (auto simp: run_ends_def keeps_def)
qed

lemma run_good:
  assumes "sched_inv S (Some (c, s))" and "cos S c = Some co" and "calm (co_status co)" and "\<not> has (co_status co) NEW"
    and "used S \<le> NTY_CO_MAX_STACKSIZE"
  shows "\<exists>S'. run_co S c s = Some S' \<and> run_ends c S s S'"
  using assms
proof (induction s arbitrary: S co)
  case Nil
  then show ?case by (intro run_exit)
next
  case (Cons a s)
  note inv = Cons.prems(1) and co = Cons.prems(2)
  have ok: "act_ok a" "good_script s" using sched_invD(3) [OF inv] good_script_Cons by auto
  have step: "\<exists>S'. run_co S1 c s = Some S' \<and> run_ends c S (a # s) S'"
    if S1: "S1 = S\<lparr>cos := (cos S)(c \<mapsto> co1), stack := st, used := u\<rparr>" "length st = length (stack S)" "u \<le> NTY_CO_MAX_STACKSIZE"
      "calm (co_status co1)" "\<not> has (co_status co1) NEW" and st: "\<And>I. stays I (a # s) = stays I s" for S1 co1 st u
  proof -
    have i: "sched_inv S1 (Some (c, s))" "total script_work S1 (Some (c, s)) + act_work a = total script_work S (Some (c, a # s))"
        "keeps S (Some (c, a # s)) S1 (Some (c, s))"
      using inv_step [OF inv co S1(1,2)] inv_step_keeps [OF inv co S1(1,2) st] by simp_all
    obtain S' where S': "run_co S1 c s = Some S'" "run_ends c S1 s S'"
      using Cons.IH [OF i(1), of co1] S1 by auto
    have "run_ends c S (a # s) S'" by (rule run_ends_step [OF S'(2)]) (use S1(1) leaves_upd(1) i(2,3) in auto)
    with S'(1) show ?thesis by blast
  qed
  show ?case
  proof (cases a)
    case (Poll fds timeout)
    then obtain fd ev where p: "fds = [(fd, ev)]" "timeout = 1" "ev AND POLLIN \<noteq> 0 \<or> ev AND POLLOUT \<noteq> 0"
      using ok(1) act_ok_Poll by auto
    then show ?thesis using run_poll [of S c fd ev s co] Cons.prems Poll by simp
  next
    case (Polled fds)
    then show ?thesis using ok(1) by simp
  next
    case (Sleep msecs)
    then show ?thesis using ok(1) run_ready [OF inv co Cons.prems(3,5)] by simp
  next
    case Renice
    let ?co = "co\<lparr>co_ops := co_ops co + 1\<rparr>" and ?S = "S\<lparr>cos := (cos S)(c \<mapsto> co\<lparr>co_ops := co_ops co + 1\<rparr>)\<rparr>"
    have S: "?S = S\<lparr>cos := (cos S)(c \<mapsto> ?co), stack := stack S, used := used S\<rparr>" by (cases S) simp
    show ?thesis
    proof (cases "co_ops co + 1 < 5")
      case True
      have "\<exists>S'. run_co ?S c s = Some S' \<and> run_ends c S (a # s) S'" by (rule step [OF S]) (use Cons.prems Renice in auto)
      then show ?thesis using Renice True co by (auto simp: co_upd_def co_get_def)
    next
      case False
      have i: "sched_inv ?S (Some (c, a # s)) \<and> total g ?S (Some (c, a # s)) = total g S (Some (c, a # s))" for g
        by (rule inv_running_upd [OF inv co])
      have "\<exists>S'. do { S \<leftarrow> ready_insert_tail ?S c; nty_coroutine_yield S c s } = Some S' \<and> run_ends c ?S (a # s) S'"
        by (rule run_ready [where co = ?co]) (use i Cons.prems Renice in auto)
      then obtain S' where S': "do { S \<leftarrow> ready_insert_tail ?S c; nty_coroutine_yield S c s } = Some S'" "run_ends c ?S (a # s) S'"
        by blast
      have "run_ends c S (a # s) S'" by (rule run_ends_step [OF S'(2)]) (use i leaves_upd(2) in \<open>auto simp: keeps_def\<close>)
      then show ?thesis using S'(1) Renice False co by (auto simp: co_upd_def co_get_def)
    qed
  next
    case Detach
    let ?co = "co\<lparr>co_status := co_status co OR BIT DETACH\<rparr>"
    have S: "S\<lparr>cos := (cos S)(c \<mapsto> ?co)\<rparr> = S\<lparr>cos := (cos S)(c \<mapsto> ?co), stack := stack S, used := used S\<rparr>" by (cases S) simp
    have "\<exists>S'. run_co (S\<lparr>cos := (cos S)(c \<mapsto> ?co)\<rparr>) c s = Some S' \<and> run_ends c S (a # s) S'"
      by (rule step [OF S]) (use Cons.prems Detach in \<open>auto simp: calm_def\<close>)
    then show ?thesis using Detach co by (simp add: nty_coroutine_detach_def co_upd_def)
  next
    case (Work frame)
    have S: "S\<lparr>stack := take (length (stack S) - length frame) (stack S) @ frame, used := length frame\<rparr> =
        S\<lparr>cos := (cos S)(c \<mapsto> co), stack := take (length (stack S) - length frame) (stack S) @ frame, used := length frame\<rparr>"
      using co by (cases S) (simp add: map_upd_triv)
    have len: "length frame \<le> length (stack S)" using ok(1) Work sched_invD(7) [OF inv] by (simp add: env_ok_def)
    have "\<exists>S'. run_co (S\<lparr>stack := take (length (stack S) - length frame) (stack S) @ frame, used := length frame\<rparr>) c s = Some S' \<and> run_ends c S (a # s) S'"
      by (rule step [OF S]) (use Cons.prems Work ok(1) len in auto)
    then show ?thesis using Work len by simp
  next
    case (Create func)
    obtain S1 where S1: "co_create S func = Some (0, S1)" "sched_inv S1 (Some (c, s))" "cos S1 c = Some co" "used S1 = used S"
        "leaves c S S1" "total script_work S1 (Some (c, s)) < total script_work S (Some (c, Create func # s))"
        "keeps S (Some (c, Create func # s)) S1 (Some (c, s))"
      by (rule create_ok [OF inv [unfolded Create]]) (use co in auto)
    obtain S' where S': "run_co S1 c s = Some S'" "run_ends c S1 s S'"
      using Cons.IH [OF S1(2,3)] S1(4) Cons.prems by auto
    have "run_ends c S (a # s) S'" by (rule run_ends_step [OF S'(2) S1(5)]) (use S1(6,7) Create in simp_all)
    then show ?thesis using S'(1) S1(1) Create by simp
  qed
qed

end
