(* ===== verification/Nty_Loop.thy ===== *)
theory Nty_Loop
  imports Nty_Inv
begin

text \<open>
  The loops of the coroutine scheduler on the states of the invariant: resuming a ready or a waiting
  coroutine, the events of a batch, the ready queue and whole runs, from the creation of the
  coroutines to the end of the last one. The properties of the scheduler are at the end.
\<close>

unbundle bit_operations_syntax

section \<open>Resuming\<close>

text \<open>After the run: the coroutine is freed when it has ended.\<close>

lemma resume_finish:
  assumes "run_ends c S s S'" and "T = S'\<lparr>curr_thread := None\<rparr>"
  shows "\<exists>co r S2. cos T c = Some co \<and>
     (if has (co_status co) EXITED
      then do { S \<leftarrow> (if has (co_status co) DETACH then nty_coroutine_free T c else Some T); Some (-1 :: int, S) }
      else Some (0, T)) = Some (r, S2) \<and>
     sched_inv S2 None \<and> total script_work S2 None < total script_work S (Some (c, s)) \<and> leaves c S S2 \<and>
     keeps S (Some (c, s)) S2 None"
proof -
  obtain co where co: "cos S' c = Some co" and l: "leaves c S S'" using assms(1) by (auto simp: run_ends_def)
  show ?thesis
  proof (cases "has (co_status co) EXITED")
    case True
    then have e: "has (co_status co) DETACH" "sched_inv S' (Some (c, []))"
        "total script_work S' (Some (c, [])) \<le> total script_work S (Some (c, s))" "keeps S (Some (c, s)) S' (Some (c, []))"
      using assms(1) co by (auto simp: run_ends_def)
    have t: "sched_inv T (Some (c, [])) \<and> total g T (Some (c, [])) = total g S' (Some (c, []))" for g
      by (rule inv_cong [OF e(2)]) (simp_all add: assms(2))
    let ?S2 = "T\<lparr>spawned_coroutines := spawned_coroutines T - 1, cos := (cos T)(c := None)\<rparr>"
    have x: "sched_inv ?S2 None \<and> total g ?S2 None + g [] = total g T (Some (c, [])) \<and> 0 \<le> spawned_coroutines T" for g
      by (rule inv_exit [OF t [THEN conjunct1]]) simp
    have "keeps S (Some (c, s)) ?S2 None" using e(4) t x [of "stays _"] by (simp add: keeps_def)
    moreover have "nty_coroutine_free T c = Some ?S2" using x co assms(2) by (simp add: nty_coroutine_free_def co_get_def)
    moreover have "leaves c S ?S2" using l assms(2) by (auto simp: leaves_def)
    moreover have "total script_work ?S2 None < total script_work S (Some (c, s))" using e(3) t [of script_work] x [of script_work] by simp
    ultimately show ?thesis using True e(1) x co assms(2) by auto
  next
    case False
    then have e: "sched_inv S' None" "total script_work S' None < total script_work S (Some (c, s))" "keeps S (Some (c, s)) S' None"
      using assms(1) co by (auto simp: run_ends_def)
    have t: "sched_inv T None \<and> total g T None = total g S' None" for g
      by (rule inv_cong [OF e(1)]) (simp_all add: assms(2))
    then have "keeps S (Some (c, s)) T None" using e(3) by (simp add: keeps_def)
    moreover note t [of script_work]
    moreover have "leaves c S T" using l assms(2) by (auto simp: leaves_def)
    ultimately show ?thesis using False e co assms(2) by auto
  qed
qed

lemma resume_run:
  assumes "cos S c = Some co" and "(if has (co_status co) NEW then nty_coroutine_init S c else load_stack S c) = Some S1"
    and "run_co (S1\<lparr>curr_thread := Some c\<rparr>) c (co_func co) = Some S2" and "run_ends c T s S2"
  obtains r S' where "nty_coroutine_resume S c = Some (r, S')" and "sched_inv S' None"
    and "total script_work S' None < total script_work T (Some (c, s))" and "leaves c T S'" and "keeps T (Some (c, s)) S' None"
proof -
  obtain co2 r S' where f: "cos (S2\<lparr>curr_thread := None\<rparr>) c = Some co2"
      "(if has (co_status co2) EXITED
        then do { S \<leftarrow> (if has (co_status co2) DETACH then nty_coroutine_free (S2\<lparr>curr_thread := None\<rparr>) c
                      else Some (S2\<lparr>curr_thread := None\<rparr>)); Some (-1 :: int, S) }
        else Some (0, S2\<lparr>curr_thread := None\<rparr>)) = Some (r, S')"
      "sched_inv S' None" "total script_work S' None < total script_work T (Some (c, s))" "leaves c T S'" "keeps T (Some (c, s)) S' None"
    using resume_finish [OF assms(4) refl] by blast
  have "nty_coroutine_resume S c = Some (r, S')"
    unfolding nty_coroutine_resume_def co_get_def assms(1) Option.bind.simps assms(2,3) Let_def f(1) by (rule f(2))
  then show thesis using f(3-6) by (rule that)
qed

lemma resume_ready:
  assumes inv: "sched_inv S None" and r: "ready S = c # cs"
  shows "\<exists>ret S'. nty_coroutine_resume (S\<lparr>ready := cs\<rparr>) c = Some (ret, S') \<and> sched_inv S' None \<and>
           total script_work S' None < total script_work S None \<and> leaves c (S\<lparr>ready := cs\<rparr>) S' \<and>
           keeps S None S' None \<and> (\<exists>co. cos S c = Some co \<and> \<not> has (co_status co) FDEOF)"
proof -
  note D = sched_invD [OF inv]
  have "c \<in> dom (cos S)" using D(1) r by (auto simp: queues_ok_def)
  then obtain co where co: "cos S c = Some co" by auto
  then have ok: "calm (co_status co)" "good_script (co_func co)" "has (co_status co) NEW \<or> stk_ok S co"
    using D(2) r by (auto simp: members_ok_def ready_ok_def)
  let ?S0 = "S\<lparr>ready := cs\<rparr>"
  have "\<exists>S1 co1. (if has (co_status co) NEW then nty_coroutine_init ?S0 c else load_stack ?S0 c) = Some S1 \<and>
      (\<exists>st u. S1 = S\<lparr>ready := cs, cos := (cos S)(c \<mapsto> co1), stack := st, used := u\<rparr> \<and> length st = length (stack S) \<and>
        u \<le> NTY_CO_MAX_STACKSIZE) \<and> calm (co_status co1) \<and> \<not> has (co_status co1) NEW"
  proof (cases "has (co_status co) NEW")
    case True
    let ?co = "co\<lparr>co_status := BIT READY\<rparr>"
    have "nty_coroutine_init ?S0 c = Some (S\<lparr>ready := cs, cos := (cos S)(c \<mapsto> ?co), stack := stack S, used := 0\<rparr>)"
      using co by (cases S) (simp add: nty_coroutine_init_def co_upd_def)
    then show ?thesis using True
      by (intro exI [of _ "S\<lparr>ready := cs, cos := (cos S)(c \<mapsto> ?co), stack := stack S, used := 0\<rparr>"] exI [of _ ?co])
        (auto simp: calm_def intro!: exI [of _ "stack S"] exI [of _ 0])
  next
    case False
    let ?st = "take (length (stack S) - co_stack_size co) (stack S) @ take (co_stack_size co) (co_stack co)"
    have sz: "co_stack_size co \<le> NTY_CO_MAX_STACKSIZE" "co_stack_size co \<le> length (stack S)" "co_stack_size co \<le> length (co_stack co)"
      using ok(3) False by (auto simp: stk_ok_def)
    then have "load_stack ?S0 c = Some (S\<lparr>ready := cs, cos := (cos S)(c \<mapsto> co), stack := ?st, used := co_stack_size co\<rparr>)"
      using co by (cases S) (simp add: load_stack_def co_get_def map_upd_triv)
    moreover have "length ?st = length (stack S)" using sz by simp
    ultimately show ?thesis using False ok(1) sz(1)
      by (intro exI [of _ "S\<lparr>ready := cs, cos := (cos S)(c \<mapsto> co), stack := ?st, used := co_stack_size co\<rparr>"]
            exI [of _ co] conjI exI [of _ ?st] exI [of _ "co_stack_size co"]) simp_all
  qed
  then obtain S1 co1 st u where S1: "(if has (co_status co) NEW then nty_coroutine_init ?S0 c else load_stack ?S0 c) = Some S1"
      "S1 = S\<lparr>ready := cs, cos := (cos S)(c \<mapsto> co1), stack := st, used := u\<rparr>" "length st = length (stack S)"
      "u \<le> NTY_CO_MAX_STACKSIZE" "calm (co_status co1)" "\<not> has (co_status co1) NEW"
    by blast
  let ?T = "S1\<lparr>curr_thread := Some c\<rparr>" and ?S1' = "S\<lparr>ready := cs, cos := (cos S)(c \<mapsto> co1)\<rparr>"
  have i: "sched_inv ?S1' (Some (c, co_func co)) \<and> total g ?S1' (Some (c, co_func co)) = total g S None" for g
    by (rule inv_start [OF inv r co]) simp
  have iT: "sched_inv ?T (Some (c, co_func co)) \<and> total g ?T (Some (c, co_func co)) = total g ?S1' (Some (c, co_func co))" for g
    by (rule inv_cong [OF i [THEN conjunct1]]) (simp_all add: S1)
  obtain S2 where S2: "run_co ?T c (co_func co) = Some S2" "run_ends c ?T (co_func co) S2"
    using run_good [of ?T c "co_func co" co1] iT S1 by auto
  obtain r' S' where S': "nty_coroutine_resume ?S0 c = Some (r', S')" "sched_inv S' None"
      "total script_work S' None < total script_work ?T (Some (c, co_func co))" "leaves c ?T S'" "keeps ?T (Some (c, co_func co)) S' None"
    by (rule resume_run [OF _ S1(1) S2]) (use co in auto)
  have "leaves c ?S0 ?T" using S1(2) by (auto simp: leaves_def)
  then have "leaves c ?S0 S'" using S'(4) by (rule leaves_trans)
  moreover have "total script_work S' None < total script_work S None" using S'(3) i [of script_work] iT [of script_work] by simp
  moreover have "keeps S None S' None" using S'(5) i iT by (simp add: keeps_def)
  ultimately show ?thesis using S'(1,2) co ok(1) by (auto simp: calm_def)
qed

text \<open>Searching the tree of waiting coroutines finds the one that waits for the descriptor.\<close>

lemma rb_find_waiting:
  assumes inv: "sched_inv S run" and c: "c \<in> set (waiting S)" and T: "waiting T = waiting S"
    and d: "\<And>d. d \<in> set (waiting S) \<Longrightarrow> cos T d \<noteq> None \<and> co_fd (the (cos T d)) = co_fd (the (cos S d))"
  shows "rb_find T co_fd (waiting T) (co_fd (the (cos S c))) = Some (Some c)"
proof -
  let ?ks = "map (\<lambda>c. (co_fd (the (cos S c)), c)) (waiting S)"
  have "keys T co_fd (waiting T) = Some ?ks" using d by (auto simp: keys_def T list_all_iff)
  moreover have "map_of ?ks (co_fd (the (cos S c))) = Some c"
  proof (rule map_of_is_SomeI)
    have "distinct (waiting S)" using sched_invD(1) [OF inv] by (simp add: queues_ok_def)
    then show "distinct (map fst ?ks)" using wait_fds_distinct [OF inv] by (simp add: comp_def distinct_map)
  qed (use c in auto)
  ultimately show ?thesis by (simp add: rb_find_def)
qed

text \<open>
  A coroutine waits for good when there is nothing behind its wait and its descriptor is one of the
  given set.
\<close>

definition parked :: "int set \<Rightarrow> nty_coroutine \<Rightarrow> bool" where
  "parked I co \<longleftrightarrow> tl (co_func co) = [] \<and> co_fd co \<in> I"

definition parked_fds :: "int set \<Rightarrow> nty_schedule \<Rightarrow> int list" where
  "parked_fds I S = map co_fd (filter (parked I) (map (\<lambda>c. the (cos S c)) (waiting S)))"

definition settled :: "int set \<Rightarrow> nty_schedule \<Rightarrow> bool" where
  "settled I S \<longleftrightarrow> ready S = [] \<and> list_all (\<lambda>c. parked I (the (cos S c))) (waiting S)"

text \<open>A coroutine whose descriptor has an event leaves the tree and runs on.\<close>

lemma resume_waiting:
  assumes inv: "sched_inv S None" and c: "c \<in> set (waiting S)" and co: "cos S c = Some co" and st: "\<not> has st NEW"
    and S0: "S0 = S\<lparr>num_new_events := n, cos := (cos S)(c \<mapsto> co\<lparr>co_status := st\<rparr>)\<rparr>"
  obtains r S' where "nty_coroutine_resume S0 c = Some (r, S')" and "sched_inv S' None"
    and "total script_work S' None < total script_work S None" and "leaves c S S'"
    and "\<And>I. \<not> parked I co \<Longrightarrow> total (stays I) S' None = total (stays I) S None"
proof -
  obtain ev s where w: "co_func co = Polled [(co_fd co, ev)] # s" "stk_ok S co"
    by (rule wait_fds [OF inv c]) (use co in auto)
  let ?m = "co_stack_size co" and ?fd = "co_fd co"
  let ?stk = "take (length (stack S) - ?m) (stack S) @ take ?m (co_stack co)"
  let ?S1 = "S0\<lparr>stack := ?stk, used := ?m\<rparr>"
  let ?co1 = "co\<lparr>co_status := 0\<rparr>"
  have sz: "?m \<le> NTY_CO_MAX_STACKSIZE" "?m \<le> length (stack S)" "?m \<le> length (co_stack co)"
    using w(2) by (auto simp: stk_ok_def)
  have ld: "load_stack S0 c = Some ?S1" using S0 sz by (simp add: load_stack_def co_get_def)
  let ?T = "?S1\<lparr>curr_thread := Some c\<rparr>"
  let ?V = "?T\<lparr>polled := (polled ?T)(?fd := None)\<rparr>"
  let ?W = "?V\<lparr>waiting := remove1 c (waiting S), cos := (cos S)(c \<mapsto> ?co1)\<rparr>"
  have dom: "cos ?V d \<noteq> None \<and> co_fd (the (cos ?V d)) = co_fd (the (cos S d))" if "d \<in> set (waiting S)" for d
    using that sched_invD(1) [OF inv] co by (auto simp: S0 queues_ok_def)
  have find: "rb_find ?V co_fd (waiting ?V) ?fd = Some (Some c)"
    using rb_find_waiting [OF inv c, of ?V] dom co by (simp add: S0)
  then have un: "poll_unregister ?T [(?fd, ev)] = Some ?W"
    using c by (simp add: nty_schedule_desched_wait_def rb_remove_def co_upd_def S0 nty_schedule_desched_sleepdown_def co_get_def)
  let ?U = "S\<lparr>waiting := remove1 c (waiting S), polled := (polled S)(?fd := None), cos := (cos S)(c \<mapsto> ?co1)\<rparr>"
  have i: "sched_inv ?U (Some (c, s)) \<and> total script_work ?U (Some (c, s)) < total script_work S None \<and>
      total g ?U (Some (c, s)) + g (Polled [(?fd, ev)] # s) = total g S None + g s" for g
    by (rule inv_unwait [OF inv c co w(1)]) simp
  have iT: "sched_inv ?W (Some (c, s)) \<and> total g ?W (Some (c, s)) = total g ?U (Some (c, s))" for g
    by (rule inv_cong [OF i [THEN conjunct1]]) (use sz in \<open>simp_all add: S0\<close>)
  obtain S2 where S2: "run_co ?W c s = Some S2" "run_ends c ?W s S2"
    using run_good [of ?W c s ?co1] iT [of script_work] sz(1) by (auto simp: calm_def)
  have run: "run_co ?T c (co_func (co\<lparr>co_status := st\<rparr>)) = Some S2"
    using un S2(1) w(1) by (simp del: poll_unregister.simps)
  obtain r S' where S': "nty_coroutine_resume S0 c = Some (r, S')" "sched_inv S' None"
      "total script_work S' None < total script_work ?W (Some (c, s))" "leaves c ?W S'" "keeps ?W (Some (c, s)) S' None"
    by (rule resume_run [where S = S0 and c = c and co = "co\<lparr>co_status := st\<rparr>" and ?S1.0 = ?S1, OF _ _ run S2(2)]) (use st ld S0 in auto)
  have "leaves c S ?W" by (auto simp: leaves_def S0)
  then have "leaves c S S'" using S'(4) by (rule leaves_trans)
  moreover have "total (stays I) S' None = total (stays I) S None" if "\<not> parked I co" for I
  proof -
    have "stays I (Polled [(?fd, ev)] # s) = stays I s" using that w(1) by (auto simp: parked_def)
    then show ?thesis using S'(5) i [of "stays I"] iT [of "stays I"] unfolding keeps_def by (metis add_right_cancel)
  qed
  moreover have "total script_work S' None < total script_work S None" using S'(3) i [of script_work] iT [of script_work] by linarith
  ultimately show thesis using S'(1,2) by (intro that [of r S']) auto
qed

section \<open>The loops of the scheduler\<close>

text \<open>What the scheduler is set up with.\<close>

definition same_conf :: "nty_schedule \<Rightarrow> nty_schedule \<Rightarrow> bool" where
  "same_conf S S' \<longleftrightarrow> default_timeout S' = default_timeout S \<and> poller_fd S' = poller_fd S \<and> eventfd S' = eventfd S"

lemma same_conf_trans: "same_conf S S1 \<Longrightarrow> same_conf S1 S2 \<Longrightarrow> same_conf S S2"
  by (simp add: same_conf_def)

lemma leaves_conf: "leaves c S S' \<Longrightarrow> same_conf S S'"
  by (simp add: leaves_def same_conf_def)

lemma in_parked_fds: "fd \<in> set (parked_fds I S) \<longleftrightarrow> (\<exists>c \<in> set (waiting S). parked I (the (cos S c)) \<and> co_fd (the (cos S c)) = fd)"
  by (auto simp: parked_fds_def)

text \<open>One event.\<close>

lemma event_step:
  assumes inv: "sched_inv S None" and fd: "eventlist S ! idx = (fd, ev)" "fd \<in> dom (polled S) - {eventfd S}"
  obtains S' where "event_loop S (Suc idx) = event_loop S' idx" and "sched_inv S' None"
    and "total script_work S' None < total script_work S None" and "eventlist S' = eventlist S"
    and "same_conf S S'" and "dom (polled S) - {fd} \<subseteq> dom (polled S')"
    and "\<And>I. fd \<notin> set (parked_fds I S) \<Longrightarrow> total (stays I) S' None = total (stays I) S None"
    and "\<And>I x. x \<in> dom (polled S) - {fd, eventfd S} \<Longrightarrow> x \<in> set (parked_fds I S') \<Longrightarrow> x \<in> set (parked_fds I S)"
proof -
  obtain c where c: "c \<in> set (waiting S)" "co_fd (the (cos S c)) = fd" using fd(2) sched_invD(5) [OF inv] by (auto simp: polled_ok_def)
  obtain co where co: "cos S c = Some co" by (rule wait_fds [OF inv c(1)])
  let ?st = "if ev AND EPOLLHUP \<noteq> 0 then BIT FDEOF else 0"
  let ?X = "S\<lparr>num_new_events := idx, cos := (cos S)(c \<mapsto> co\<lparr>co_status := ?st\<rparr>)\<rparr>"
  have "rb_find (S\<lparr>num_new_events := idx\<rparr>) co_fd (waiting S) fd = Some (Some c)"
    using rb_find_waiting [OF inv c(1), of "S\<lparr>num_new_events := idx\<rparr>"] c(2) sched_invD(1) [OF inv] by (auto simp: queues_ok_def)
  then have s: "nty_schedule_search_wait (S\<lparr>num_new_events := idx\<rparr>) fd =
      Some (c, S\<lparr>num_new_events := idx, cos := (cos S)(c \<mapsto> co\<lparr>co_status := 0\<rparr>)\<rparr>)"
    using co by (simp add: nty_schedule_search_wait_def co_upd_def)
  obtain r S' where S': "nty_coroutine_resume ?X c = Some (r, S')" "sched_inv S' None"
      "total script_work S' None < total script_work S None" "leaves c S S'"
      "\<And>I. \<not> parked I co \<Longrightarrow> total (stays I) S' None = total (stays I) S None"
    by (rule resume_waiting [OF inv c(1) co, where st = ?st and ?S0.0 = ?X]) auto
  have "event_loop S (Suc idx) = event_loop S' idx"
    using s S'(1) by (auto simp: fd(1) co_upd_def)
  moreover have same: "\<exists>d \<in> set (waiting S). d \<in> set (waiting S') \<and> cos S' d = cos S d \<and> co_fd (the (cos S d)) = x"
    if "x \<in> dom (polled S) - {fd, eventfd S}" for x
  proof -
    have "x \<in> (\<lambda>c. co_fd (the (cos S c))) ` set (waiting S)" using that sched_invD(5) [OF inv] unfolding polled_ok_def by blast
    then obtain d where d: "d \<in> set (waiting S)" "co_fd (the (cos S d)) = x" by blast
    then have "d \<in> set (waiting S')" "cos S' d = cos S d" using S'(4) that c(2) by (auto simp: leaves_def)
    with d show ?thesis by blast
  qed
  have "dom (polled S) - {fd} \<subseteq> dom (polled S')"
  proof
    fix x
    assume x: "x \<in> dom (polled S) - {fd}"
    show "x \<in> dom (polled S')"
    proof (cases "x = eventfd S")
      case True
      then show ?thesis using sched_invD(5) [OF S'(2)] S'(4) by (simp add: polled_ok_def leaves_def)
    next
      case False
      then obtain d where "d \<in> set (waiting S')" "cos S' d = cos S d" "co_fd (the (cos S d)) = x" using same [of x] x by blast
      then have "x \<in> (\<lambda>c. co_fd (the (cos S' c))) ` set (waiting S')" by force
      then show ?thesis using sched_invD(5) [OF S'(2)] by (simp add: polled_ok_def)
    qed
  qed
  moreover have "total (stays I) S' None = total (stays I) S None" if "fd \<notin> set (parked_fds I S)" for I
    using S'(5) [of I] that c co by (auto simp: in_parked_fds)
  moreover have "x \<in> set (parked_fds I S)" if x: "x \<in> dom (polled S) - {fd, eventfd S}" "x \<in> set (parked_fds I S')" for I x
  proof -
    obtain d where d: "d \<in> set (waiting S)" "d \<in> set (waiting S')" "cos S' d = cos S d" "co_fd (the (cos S d)) = x"
      using same [OF x(1)] by blast
    obtain e where "e \<in> set (waiting S')" "parked I (the (cos S' e))" "co_fd (the (cos S' e)) = x" using x(2) by (auto simp: in_parked_fds)
    moreover from this have "e = d" using wait_fds_distinct [OF S'(2)] d by (metis inj_on_def)
    ultimately show ?thesis using d by (auto simp: in_parked_fds)
  qed
  ultimately show thesis using S'(1-4) leaves_conf [OF S'(4)] by (intro that [of S']) (auto simp: leaves_def)
qed

lemma event_loop_ok:
  assumes "sched_inv S None" and "idx \<le> length (eventlist S)" and "distinct (map fst (take idx (eventlist S)))"
    and "fst ` set (take idx (eventlist S)) \<subseteq> dom (polled S) - {eventfd S}"
  shows "\<exists>S'. event_loop S idx = Some S' \<and> sched_inv S' None \<and> same_conf S S' \<and>
           total script_work S' None + idx \<le> total script_work S None \<and>
           (\<forall>I. fst ` set (take idx (eventlist S)) \<inter> set (parked_fds I S) = {} \<longrightarrow> total (stays I) S' None = total (stays I) S None)"
  using assms
proof (induction idx arbitrary: S)
  case 0
  then show ?case by (simp add: same_conf_def)
next
  case (Suc idx)
  obtain fd ev where fe: "eventlist S ! idx = (fd, ev)" by (cases "eventlist S ! idx")
  have tk: "take (Suc idx) (eventlist S) = take idx (eventlist S) @ [(fd, ev)]"
    using Suc.prems(2) fe by (simp add: take_Suc_conv_app_nth)
  define E where "E = fst ` set (take idx (eventlist S))"
  have tE: "fst ` set (take (Suc idx) (eventlist S)) = insert fd E" unfolding tk E_def by simp
  have fdp: "fd \<in> dom (polled S) - {eventfd S}" "fd \<notin> E" "distinct (map fst (take idx (eventlist S)))" "E \<subseteq> dom (polled S) - {eventfd S}"
    using Suc.prems(3,4) unfolding tE unfolding tk E_def by auto
  obtain S1 where S1: "event_loop S (Suc idx) = event_loop S1 idx" "sched_inv S1 None" "eventlist S1 = eventlist S"
      "total script_work S1 None < total script_work S None" "same_conf S S1" "dom (polled S) - {fd} \<subseteq> dom (polled S1)"
      "\<And>I. fd \<notin> set (parked_fds I S) \<Longrightarrow> total (stays I) S1 None = total (stays I) S None"
      "\<And>I x. x \<in> dom (polled S) - {fd, eventfd S} \<Longrightarrow> x \<in> set (parked_fds I S1) \<Longrightarrow> x \<in> set (parked_fds I S)"
    by (rule event_step [OF Suc.prems(1) fe fdp(1)]) (rule that; assumption)
  have sub: "E \<subseteq> dom (polled S1) - {eventfd S1}" using fdp(2,4) S1(5,6) unfolding same_conf_def by blast
  obtain S' where S': "event_loop S1 idx = Some S'" "sched_inv S' None" "same_conf S1 S'"
      "total script_work S' None + idx \<le> total script_work S1 None"
      "\<And>I. E \<inter> set (parked_fds I S1) = {} \<Longrightarrow> total (stays I) S' None = total (stays I) S1 None"
    using Suc.IH [OF S1(2), unfolded S1(3), OF Suc_leD [OF Suc.prems(2)] fdp(3), folded E_def, OF sub] by blast
  have "total (stays I) S' None = total (stays I) S None" if I: "insert fd E \<inter> set (parked_fds I S) = {}" for I
  proof -
    have "x \<notin> set (parked_fds I S1)" if "x \<in> E" for x
    proof
      assume "x \<in> set (parked_fds I S1)"
      moreover have "x \<in> dom (polled S) - {fd, eventfd S}" using that fdp(2,4) by blast
      ultimately show False using S1(8) [of x I] that I by blast
    qed
    then have "E \<inter> set (parked_fds I S1) = {}" by blast
    with S1(7) [of I] S'(5) [of I] I show ?thesis by simp
  qed
  moreover have "total script_work S' None + Suc idx \<le> total script_work S None" using S1(4) S'(4) by linarith
  ultimately show ?case unfolding tE S1(1) using S'(1,2) same_conf_trans [OF S1(5) S'(3)] by (intro exI [of _ S'] conjI allI impI)
qed

text \<open>The ready coroutines up to the one that was last when the loop began.\<close>

lemma ready_loop_ok:
  assumes "sched_inv S None" and "ready S = xs @ l # ys" and "l \<notin> set xs"
  shows "\<exists>S'. ready_loop S (Some l) = Some S' \<and> sched_inv S' None \<and> same_conf S S' \<and>
           total script_work S' None < total script_work S None \<and> keeps S None S' None"
  using assms
proof (induction xs arbitrary: S ys)
  case Nil
  obtain r S' co where "nty_coroutine_resume (S\<lparr>ready := ys\<rparr>) l = Some (r, S')" "sched_inv S' None" "leaves l (S\<lparr>ready := ys\<rparr>) S'"
      "total script_work S' None < total script_work S None" "keeps S None S' None" "cos S l = Some co" "\<not> has (co_status co) FDEOF"
    using resume_ready [OF Nil.prems(1), of l ys] Nil.prems(2) by auto
  then show ?case using Nil.prems(2) by (simp add: ready_loop.simps co_get_def leaves_def same_conf_def)
next
  case (Cons c xs)
  let ?cs = "xs @ l # ys"
  obtain r S1 co where S1: "nty_coroutine_resume (S\<lparr>ready := ?cs\<rparr>) c = Some (r, S1)" "sched_inv S1 None" "leaves c (S\<lparr>ready := ?cs\<rparr>) S1"
      "total script_work S1 None < total script_work S None" "cos S c = Some co" "\<not> has (co_status co) FDEOF" "keeps S None S1 None"
    using resume_ready [OF Cons.prems(1), of c ?cs] Cons.prems(2) by auto
  obtain zs where "ready S1 = xs @ l # zs" using S1(3) by (auto simp: leaves_def)
  then obtain S' where S': "ready_loop S1 (Some l) = Some S'" "sched_inv S' None" "same_conf S1 S'"
      "total script_work S' None < total script_work S1 None" "keeps S1 None S' None"
    using Cons.IH [OF S1(2)] Cons.prems(3) by auto
  have "ready_loop S (Some l) = ready_loop S1 (Some l)"
    using S1(1,5,6) Cons.prems(2,3) by (subst ready_loop.simps) (auto simp: co_get_def)
  then show ?case using S' S1(3,4) keeps_trans [OF S1(7)] by (auto simp: leaves_def same_conf_def)
qed

lemma usec_now_frame:
  assumes "sched_inv S None" and "nty_coroutine_usec_now S = (t, T)"
  shows "sched_inv T None" "total g T None = total g S None" "ready T = ready S" "sleeping T = sleeping S" "waiting T = waiting S"
    "polled T = polled S" "same_conf S T" "cos T = cos S"
proof -
  have T: "\<exists>n cl. T = S\<lparr>now := n, clock := cl\<rparr>" using usec_now_eq [of S] assms(2) by simp
  then have "sched_inv T None \<and> total g T None = total g S None" for g by (intro inv_cong [OF assms(1)]) auto
  then show "sched_inv T None" "total g T None = total g S None" by blast+
  show "ready T = ready S" "sleeping T = sleeping S" "waiting T = waiting S" "polled T = polled S" "same_conf S T" "cos T = cos S"
    using T by (auto simp: same_conf_def)
qed

lemma sched_pass_ok:
  assumes inv: "sched_inv S None"
  obtains S' where "sched_pass S = Some S'" and "sched_inv S' None" and "same_conf S S'" and "keeps S None S' None"
    and "total script_work S' None + (if ready S = [] then 0 else 1) \<le> total script_work S None"
    and "ready S = [] \<Longrightarrow> waiting S' = waiting S \<and> ready S' = [] \<and> cos S' = cos S"
proof -
  obtain t T where t: "nty_coroutine_usec_now S = (t, T)" by (cases "nty_coroutine_usec_now S")
  note T = usec_now_frame [OF inv t]
  have sl: "sleeping T = []" using T(4) sched_invD(1) [OF inv] by (simp add: queues_ok_def)
  have e: "expired_loop S = Some T"
    by (subst expired_loop.simps) (simp add: nty_schedule_expired_def t rb_min_def sl)
  show thesis
  proof (cases "ready T = []")
    case True
    then have "ready_loop T None = Some T" by (subst ready_loop.simps) simp
    then have "sched_pass S = Some T" using e True by (simp add: sched_pass_def)
    then show ?thesis using T True by (intro that [of T]) (auto simp: keeps_def)
  next
    case False
    let ?l = "last (ready T)"
    have "ready T = butlast (ready T) @ ?l # []" using False by simp
    moreover have "?l \<notin> set (butlast (ready T))"
    proof -
      have "distinct (butlast (ready T) @ [?l])" using sched_invD(1) [OF T(1)] False by (simp add: queues_ok_def)
      then show ?thesis by simp
    qed
    ultimately obtain S' where "ready_loop T (Some ?l) = Some S'" "sched_inv S' None" "same_conf T S'"
        "total script_work S' None < total script_work T None" "keeps T None S' None"
      using ready_loop_ok [OF T(1)] by blast
    then show ?thesis using e T False by (intro that [of S']) (auto simp: sched_pass_def keeps_def same_conf_def)
  qed
qed

section \<open>Runs of the scheduler\<close>

text \<open>
  What \<open>epoll_wait\<close> is documented to do along a run: the events are of different descriptors of the
  interest set, and the \<open>eventfd\<close>, to which nobody writes, has none. A call may be interrupted any
  number of times or fail. With \<open>live = Some I\<close>, no call fails, every call returns at least one event
  as long as there is a coroutine that does not wait for good on a descriptor of \<open>I\<close>, and those that
  do get none.
\<close>

fun epoll_ok :: "int set option \<Rightarrow> nty_schedule \<Rightarrow> epoll_answer list list \<Rightarrow> bool" where
  "epoll_ok live S [] \<longleftrightarrow> True"
| "epoll_ok live S (as # ass) \<longleftrightarrow> nty_schedule_isdone S \<or>
     (case sched_pass S of
        None \<Rightarrow> True
      | Some S1 \<Rightarrow>
          (ready S1 = [] \<longrightarrow> (case epoll_retry as of
             None \<Rightarrow> live = None
           | Some evs \<Rightarrow> distinct (map fst evs) \<and> list_all (\<lambda>(fd, _). polled S1 fd \<noteq> None \<and> fd \<noteq> eventfd S1) evs \<and>
               (case live of
                  None \<Rightarrow> True
                | Some I \<Rightarrow> (evs = [] \<longrightarrow> settled I S1) \<and> list_all (\<lambda>(fd, _). fd \<notin> set (parked_fds I S1)) evs))) \<and>
          (case do { S2 \<leftarrow> nty_schedule_epoll S1 as; event_loop S2 (num_new_events S2) } of
             None \<Rightarrow> True
           | Some S3 \<Rightarrow> epoll_ok live S3 ass))"

text \<open>A call of \<open>epoll_wait\<close> along the run fails with an error other than \<open>EINTR\<close>, or is never answered.\<close>

fun epoll_aborts :: "nty_schedule \<Rightarrow> epoll_answer list list \<Rightarrow> bool" where
  "epoll_aborts S [] \<longleftrightarrow> False"
| "epoll_aborts S (as # ass) \<longleftrightarrow> \<not> nty_schedule_isdone S \<and>
     (case sched_pass S of
        None \<Rightarrow> False
      | Some S1 \<Rightarrow> ready S1 = [] \<and> epoll_retry as = None \<or>
          (case do { S2 \<leftarrow> nty_schedule_epoll S1 as; event_loop S2 (num_new_events S2) } of
             None \<Rightarrow> False
           | Some S3 \<Rightarrow> epoll_aborts S3 ass))"

lemma schedule_epoll_ok:
  assumes inv: "sched_inv S None" and "default_timeout S \<noteq> 0"
  obtains T where "nty_schedule_epoll S as =
      (if ready S = [] then do { evs \<leftarrow> epoll_retry as; Some (T\<lparr>eventlist := evs, num_new_events := length evs\<rparr>) } else Some T)"
    and "sched_inv T None" and "\<And>g. total g T None = total g S None" and "polled T = polled S" and "same_conf S T"
    and "num_new_events T = 0" and "waiting T = waiting S" and "cos T = cos S" and "ready T = ready S"
proof -
  let ?S = "S\<lparr>num_new_events := 0\<rparr>"
  have i: "sched_inv ?S None \<and> total g ?S None = total g S None" for g by (rule inv_cong [OF inv]) simp_all
  obtain t T where t: "nty_coroutine_usec_now ?S = (t, T)" by (cases "nty_coroutine_usec_now ?S")
  note T = usec_now_frame [OF i [THEN conjunct1] t]
  have n: "num_new_events T = 0" using t by (auto simp: nty_coroutine_usec_now_def split: list.splits)
  have "default_timeout T \<noteq> 0" using T(7) assms(2) by (simp add: same_conf_def)
  moreover have "sleeping T = []" using T(4) sched_invD(1) [OF inv] by (simp add: queues_ok_def)
  ultimately have "nty_schedule_epoll S as =
      (if ready S = [] then do { evs \<leftarrow> epoll_retry as; Some (T\<lparr>eventlist := evs, num_new_events := length evs\<rparr>) } else Some T)"
    using T by (simp add: nty_schedule_epoll_def nty_schedule_min_timeout_def t rb_min_def)
  then show thesis using T i n by (intro that [of T]) (simp_all add: same_conf_def)
qed

text \<open>A settled scheduler has no event to wait for, and its coroutines are those that come to wait.\<close>

lemma settled_no_events:
  assumes "sched_inv S None" and "settled I S" and "list_all (\<lambda>(fd, _). polled S fd \<noteq> None \<and> fd \<noteq> eventfd S) evs"
    and "list_all (\<lambda>(fd, _). fd \<notin> set (parked_fds I S)) evs"
  shows "evs = []"
proof (rule ccontr)
  assume "evs \<noteq> []"
  then obtain fd ev where "(fd, ev) \<in> set evs" by (cases evs) auto
  then have fd: "fd \<in> dom (polled S)" "fd \<noteq> eventfd S" "fd \<notin> set (parked_fds I S)" using assms(3,4) by (auto simp: list_all_iff)
  then obtain c where "c \<in> set (waiting S)" "co_fd (the (cos S c)) = fd" using sched_invD(5) [OF assms(1)] by (auto simp: polled_ok_def)
  with fd(3) assms(2) show False by (auto simp: in_parked_fds settled_def list_all_iff)
qed

lemma settled_total:
  assumes "sched_inv S None" and "settled I S"
  shows "total (stays I) S None = card (dom (cos S))"
proof -
  have "stays I (script_of S None c) = 1" if "c \<in> dom (cos S)" for c
  proof -
    have c: "c \<in> set (waiting S)" using that assms(2) sched_invD(1) [OF assms(1)] by (auto simp: settled_def queues_ok_def)
    then have "parked I (the (cos S c))" using assms(2) by (auto simp: settled_def list_all_iff)
    moreover obtain co ev s where "cos S c = Some co" "co_func co = Polled [(co_fd co, ev)] # s" by (rule wait_fds [OF assms(1) c])
    ultimately show ?thesis by (auto simp: parked_def)
  qed
  then show ?thesis by (simp add: total_def)
qed

text \<open>One round of the main loop.\<close>

lemma round_ok:
  assumes inv: "sched_inv S None" and dt: "default_timeout S \<noteq> 0" and nd: "\<not> nty_schedule_isdone S" and ev: "epoll_ok live S (as # ass)"
    and na: "\<forall>S1. sched_pass S = Some S1 \<longrightarrow> ready S1 = [] \<longrightarrow> epoll_retry as \<noteq> None"
  obtains S' where "schedule_loop S (as # ass) = schedule_loop S' ass" and "sched_inv S' None" and "same_conf S S'"
    and "epoll_ok live S' ass" and "epoll_aborts S (as # ass) \<longleftrightarrow> epoll_aborts S' ass"
    and "\<And>I. live = Some I \<Longrightarrow> total (stays I) S' None = total (stays I) S None"
    and "\<And>I. live = Some I \<Longrightarrow> settled I S \<Longrightarrow> settled I S'"
    and "\<And>I. live = Some I \<Longrightarrow> \<not> settled I S \<Longrightarrow> total script_work S' None < total script_work S None"
proof -
  obtain S1 where S1: "sched_pass S = Some S1" "sched_inv S1 None" "same_conf S S1" "keeps S None S1 None"
      "total script_work S1 None + (if ready S = [] then 0 else 1) \<le> total script_work S None"
      "ready S = [] \<Longrightarrow> waiting S1 = waiting S \<and> ready S1 = [] \<and> cos S1 = cos S"
    by (rule sched_pass_ok [OF inv]) blast
  have "default_timeout S1 \<noteq> 0" using dt S1(3) by (simp add: same_conf_def)
  then obtain T where T: "nty_schedule_epoll S1 as =
        (if ready S1 = [] then do { evs \<leftarrow> epoll_retry as; Some (T\<lparr>eventlist := evs, num_new_events := length evs\<rparr>) } else Some T)"
      "sched_inv T None" "\<And>g. total g T None = total g S1 None" "polled T = polled S1" "same_conf S1 T"
      "num_new_events T = 0" "waiting T = waiting S1" "cos T = cos S1" "ready T = ready S1"
    by (rule schedule_epoll_ok [OF S1(2), where as = as]) (rule that; assumption)
  define evs where "evs = (if ready S1 = [] then the (epoll_retry as) else [])"
  define S2 where "S2 = (if ready S1 = [] then T\<lparr>eventlist := evs, num_new_events := length evs\<rparr> else T)"
  have retry: "ready S1 = [] \<Longrightarrow> epoll_retry as = Some evs" using na S1(1) by (auto simp: evs_def)
  have ep: "nty_schedule_epoll S1 as = Some S2" using T(1) retry by (simp add: S2_def)
  have e0: "ready S1 = [] \<Longrightarrow> distinct (map fst evs) \<and> list_all (\<lambda>(fd, _). polled S1 fd \<noteq> None \<and> fd \<noteq> eventfd S1) evs \<and>
      (case live of None \<Rightarrow> True
       | Some I \<Rightarrow> (evs = [] \<longrightarrow> settled I S1) \<and> list_all (\<lambda>(fd, _). fd \<notin> set (parked_fds I S1)) evs)"
    using ev nd retry by (simp only: epoll_ok.simps S1(1) option.case simp_thms)
  have e: "distinct (map fst evs)" "list_all (\<lambda>(fd, _). polled S1 fd \<noteq> None \<and> fd \<noteq> eventfd S1) evs"
      "live = Some I \<Longrightarrow> ready S1 = [] \<Longrightarrow> evs = [] \<Longrightarrow> settled I S1"
      "live = Some I \<Longrightarrow> list_all (\<lambda>(fd, _). fd \<notin> set (parked_fds I S1)) evs" for I
  proof -
    have n: "evs = []" if "ready S1 \<noteq> []" using that by (simp add: evs_def)
    show "distinct (map fst evs)" "list_all (\<lambda>(fd, _). polled S1 fd \<noteq> None \<and> fd \<noteq> eventfd S1) evs"
      by (cases "ready S1 = []"; use e0 n in simp)+
    show "settled I S1" if "live = Some I" "ready S1 = []" "evs = []" using e0 that by simp
    show "list_all (\<lambda>(fd, _). fd \<notin> set (parked_fds I S1)) evs" if "live = Some I"
      by (cases "ready S1 = []"; use e0 n that in simp)
  qed
  have i2: "sched_inv S2 None \<and> total g S2 None = total g S1 None" for g
    using inv_cong [OF T(2), of S2 g] T(3) by (simp add: S2_def)
  have S2: "num_new_events S2 = length evs" "same_conf S S2" "waiting S2 = waiting S1" "cos S2 = cos S1" "ready S2 = ready S1"
      "polled S2 = polled S1" "eventfd S2 = eventfd S1" "take (length evs) (eventlist S2) = evs" "length evs \<le> length (eventlist S2)"
    using T(4-9) S1(3) by (simp_all add: S2_def same_conf_def evs_def)
  have sub: "fst ` set evs \<subseteq> dom (polled S2) - {eventfd S2}" using e(2) unfolding S2(6,7) by (auto simp: list_all_iff)
  obtain S' where S': "event_loop S2 (length evs) = Some S'" "sched_inv S' None" "same_conf S2 S'"
      "total script_work S' None + length evs \<le> total script_work S2 None"
      "\<And>I. fst ` set evs \<inter> set (parked_fds I S2) = {} \<Longrightarrow> total (stays I) S' None = total (stays I) S2 None"
    using event_loop_ok [OF i2 [THEN conjunct1] S2(9), unfolded S2(8), OF e(1) sub] by blast
  have el: "event_loop S2 (num_new_events S2) = Some S'" using S'(1) S2(1) by simp
  have "schedule_loop S (as # ass) = schedule_loop S' ass" using nd by (simp add: S1(1) ep el)
  moreover have "epoll_ok live S' ass" using ev nd by (simp only: epoll_ok.simps S1(1) option.case ep Option.bind.simps el simp_thms)
  moreover have "epoll_aborts S (as # ass) \<longleftrightarrow> epoll_aborts S' ass"
  proof -
    have "\<not> (ready S1 = [] \<and> epoll_retry as = None)" using retry by auto
    then show ?thesis using nd by (simp only: epoll_aborts.simps S1(1) option.case ep Option.bind.simps el simp_thms)
  qed
  moreover have "total (stays I) S' None = total (stays I) S None" if "live = Some I" for I
  proof -
    have "fst ` set evs \<inter> set (parked_fds I S2) = {}" using e(4) [OF that] S2(3,4) by (auto simp: list_all_iff parked_fds_def)
    then show ?thesis using S'(5) i2 S1(4) by (simp add: keeps_def)
  qed
  moreover have "settled I S'" if I: "live = Some I" "settled I S" for I
  proof -
    have "settled I S1" using I(2) S1(6) by (simp add: settled_def)
    then have "evs = []" using settled_no_events [OF S1(2) _ e(2) e(4) [OF I(1)]] by simp
    then show ?thesis using S'(1) \<open>settled I S1\<close> S2(3-5) by (auto simp: settled_def)
  qed
  moreover have "total script_work S' None < total script_work S None" if I: "live = Some I" "\<not> settled I S" for I
  proof (cases "ready S = []")
    case True
    then have "ready S1 = []" "\<not> settled I S1" using I(2) S1(6) by (auto simp: settled_def)
    then have "evs \<noteq> []" using e(3) [OF I(1)] by blast
    then have "1 \<le> length evs" by (cases evs) simp_all
    then show ?thesis using S'(4) i2 [of script_work] S1(5) by (simp split: if_splits)
  next
    case False
    then show ?thesis using S'(4) i2 [of script_work] S1(5) by simp
  qed
  moreover note S'(2) same_conf_trans [OF S2(2) S'(3)]
  ultimately show thesis by - (rule that [of S']; assumption)
qed

text \<open>A failing call of \<open>epoll_wait\<close> ends the process.\<close>

lemma epoll_abort:
  assumes "sched_inv S None" and "default_timeout S \<noteq> 0" and "\<not> nty_schedule_isdone S"
    and "sched_pass S = Some S1" and "ready S1 = []" and "epoll_retry as = None"
  shows "schedule_loop S (as # ass) = None"
proof -
  obtain S0 where S0: "sched_pass S = Some S0" "sched_inv S0 None" "same_conf S S0" by (rule sched_pass_ok [OF assms(1)]) blast
  have "nty_schedule_epoll S1 as = None"
    by (rule schedule_epoll_ok [of S1 as]) (use S0 assms in \<open>auto simp: same_conf_def\<close>)
  then show ?thesis using assms(3,4) by simp
qed

lemma run_safe:
  assumes "sched_inv S None" and "default_timeout S \<noteq> 0" and "epoll_ok live S ass"
  shows "if epoll_aborts S ass then schedule_loop S ass = None
    else \<exists>S'. schedule_loop S ass = Some S' \<and> sched_inv S' None \<and> same_conf S S' \<and>
      (\<forall>I. live = Some I \<longrightarrow> total (stays I) S' None = total (stays I) S None \<and>
         (total script_work S None \<le> length ass \<or> settled I S \<longrightarrow> settled I S'))"
  using assms
proof (induction ass arbitrary: S)
  case Nil
  have "settled I S" if "total script_work S None = 0" for I
  proof -
    have "dom (cos S) = {}" using that finite_dom [OF Nil.prems(1)] by (auto simp: total_def)
    then show ?thesis using sched_invD(1) [OF Nil.prems(1)] by (simp add: settled_def queues_ok_def)
  qed
  then show ?case using Nil.prems by (auto simp: same_conf_def)
next
  case (Cons as ass)
  consider (finished) "nty_schedule_isdone S"
    | (abort) S1 where "\<not> nty_schedule_isdone S" "sched_pass S = Some S1" "ready S1 = []" "epoll_retry as = None"
    | (round) "\<not> nty_schedule_isdone S" "\<forall>S1. sched_pass S = Some S1 \<longrightarrow> ready S1 = [] \<longrightarrow> epoll_retry as \<noteq> None"
    by metis
  then show ?case
  proof cases
    case finished
    then show ?thesis using Cons.prems(1) by (simp add: settled_def nty_schedule_isdone_def same_conf_def)
  next
    case abort
    then show ?thesis using epoll_abort [OF Cons.prems(1,2) abort(1,2)] by simp
  next
    case round
    obtain S1 where S1: "schedule_loop S (as # ass) = schedule_loop S1 ass" "sched_inv S1 None" "same_conf S S1"
        "epoll_ok live S1 ass" "epoll_aborts S (as # ass) \<longleftrightarrow> epoll_aborts S1 ass"
        "\<And>I. live = Some I \<Longrightarrow> total (stays I) S1 None = total (stays I) S None"
        "\<And>I. live = Some I \<Longrightarrow> settled I S \<Longrightarrow> settled I S1"
        "\<And>I. live = Some I \<Longrightarrow> \<not> settled I S \<Longrightarrow> total script_work S1 None < total script_work S None"
      by (rule round_ok [OF Cons.prems(1,2) round(1) Cons.prems(3) round(2)]) (rule that; assumption)
    have dt: "default_timeout S1 \<noteq> 0" using S1(3) Cons.prems(2) by (simp add: same_conf_def)
    note IH = Cons.IH [OF S1(2) dt S1(4)]
    show ?thesis
    proof (cases "epoll_aborts S1 ass")
      case True
      then show ?thesis using IH S1(1,5) by simp
    next
      case False
      then obtain S' where S': "schedule_loop S1 ass = Some S'" "sched_inv S' None" "same_conf S1 S'"
          "\<And>I. live = Some I \<Longrightarrow> total (stays I) S' None = total (stays I) S1 None \<and>
             (total script_work S1 None \<le> length ass \<or> settled I S1 \<longrightarrow> settled I S')"
        using IH by auto
      have "total (stays I) S' None = total (stays I) S None \<and> (total script_work S None \<le> length (as # ass) \<or> settled I S \<longrightarrow> settled I S')"
        if I: "live = Some I" for I
        using S'(4) [OF I] S1(6-8) [OF I] by (cases "settled I S") auto
      then show ?thesis unfolding S1(1,5) if_not_P [OF False] using S'(1,2) same_conf_trans [OF S1(3) S'(3)]
        by (intro exI [of _ S'] conjI allI impI) blast+
    qed
  qed
qed

lemma run_settles:
  assumes "sched_inv S None" and "default_timeout S \<noteq> 0" and "epoll_ok (Some I) S ass" and "total script_work S None \<le> length ass"
  obtains S' where "schedule_loop S ass = Some S'" and "sched_inv S' None" and "same_conf S S'" and "settled I S'"
    and "total (stays I) S' None = total (stays I) S None"
proof -
  have "\<not> epoll_aborts S ass" using assms(1-3)
  proof (induction ass arbitrary: S)
    case (Cons as ass)
    show ?case
    proof (cases "nty_schedule_isdone S")
      case False
      have na: "\<forall>S1. sched_pass S = Some S1 \<longrightarrow> ready S1 = [] \<longrightarrow> epoll_retry as \<noteq> None"
        using Cons.prems(3) False by (auto split: option.splits)
      obtain S1 where S1: "sched_inv S1 None" "same_conf S S1" "epoll_ok (Some I) S1 ass" "epoll_aborts S (as # ass) \<longleftrightarrow> epoll_aborts S1 ass"
        by (rule round_ok [OF Cons.prems(1,2) False Cons.prems(3) na]) blast
      then show ?thesis using Cons.IH [OF S1(1) _ S1(3)] Cons.prems(2) by (simp add: same_conf_def del: epoll_aborts.simps)
    qed simp
  qed simp
  with run_safe [OF assms(1-3)] assms(4) that show thesis by auto
qed

text \<open>
  The coroutines a program creates before it runs the scheduler, whose descriptors are \<open>pfd\<close> and
  \<open>efd\<close>.
\<close>

fun create_all :: "nty_schedule option \<Rightarrow> act list list \<Rightarrow> int \<Rightarrow> int \<Rightarrow> 64 word \<Rightarrow> nty_schedule option option" where
  "create_all sched [] pfd efd t = Some sched"
| "create_all sched (func # funcs) pfd efd t =
     do { (_, sched) \<leftarrow> nty_coroutine_create sched func pfd efd t []; create_all sched funcs pfd efd t }"

fun scripts_apart :: "act list list \<Rightarrow> bool" where
  "scripts_apart [] \<longleftrightarrow> True"
| "scripts_apart (f # fs) \<longleftrightarrow> list_all (\<lambda>g. script_fds f \<inter> script_fds g = {}) fs \<and> scripts_apart fs"

text \<open>
  The functions of a program: they use descriptors of their own and leave those of the scheduler
  alone, wait as the socket calls do, and create no more coroutines than an \<open>int\<close> can count.
\<close>

definition program_ok :: "int \<Rightarrow> int \<Rightarrow> act list list \<Rightarrow> bool" where
  "program_ok pfd efd funcs \<longleftrightarrow> 0 < pfd \<and> 0 < efd \<and> funcs \<noteq> [] \<and> list_all good_script funcs \<and> scripts_apart funcs \<and>
     list_all (\<lambda>f. efd \<notin> script_fds f) funcs \<and>
     int (sum_list (map (\<lambda>s. Suc (creates s)) funcs)) \<le> INT_MAX"

lemma create_all_Some:
  assumes "sched_inv S None" and "list_all good_script funcs" and "scripts_apart funcs"
    and "\<forall>x \<in> dom (cos S). \<forall>f \<in> set funcs. script_fds f \<inter> script_fds (script_of S None x) = {}"
    and "int (total (\<lambda>s. Suc (creates s)) S None + sum_list (map (\<lambda>s. Suc (creates s)) funcs)) \<le> INT_MAX"
    and "list_all (\<lambda>f. eventfd S \<notin> script_fds f) funcs"
  shows "\<exists>S'. create_all (Some S) funcs pfd efd t = Some (Some S') \<and> sched_inv S' None \<and> same_conf S S' \<and>
           (\<forall>g. total g S' None = total g S None + sum_list (map g funcs))"
  using assms
proof (induction funcs arbitrary: S)
  case Nil
  then show ?case by (simp add: same_conf_def)
next
  case (Cons f fs)
  note inv = Cons.prems(1)
  let ?g = "\<lambda>s. Suc (creates s)"
  have "card (dom (cos S)) \<le> total ?g S None"
    unfolding total_def using sum_mono [of "dom (cos S)" "\<lambda>_. 1" "\<lambda>x. ?g (script_of S None x)"] by simp
  then have lim: "spawned_coroutines S < INT_MAX" using Cons.prems(5) sched_invD(6) [OF inv] by (simp add: account_ok_def)
  obtain n cl co where co: "co_create S f = Some (0, with_co (S\<lparr>now := n, clock := cl\<rparr>) co)" "co_func co = f" "co_status co = BIT NEW"
      "\<And>g. sched_inv (S\<lparr>now := n, clock := cl\<rparr>) None \<and> total g (S\<lparr>now := n, clock := cl\<rparr>) None = total g S None"
    by (rule co_create_eq [OF inv lim, where func = f]) blast
  let ?T = "S\<lparr>now := n, clock := cl\<rparr>"
  let ?U = "with_co ?T co"
  have U: "sched_inv ?U None \<and> total g ?U None = total g ?T None + g f \<and> spawned_coroutines ?T < INT_MAX" for g
    by (rule inv_spawn [OF co(4) [THEN conjunct1] co(2,3)]) (use Cons.prems co(4) in auto)
  have ap: "\<forall>x \<in> dom (cos ?U). \<forall>h \<in> set fs. script_fds h \<inter> script_fds (script_of ?U None x) = {}"
  proof (intro ballI)
    fix x h
    assume x: "x \<in> dom (cos ?U)" "h \<in> set fs"
    have "script_fds f \<inter> script_fds h = {}" using Cons.prems(3) x(2) by (simp add: list_all_iff)
    then have "script_fds h \<inter> script_fds f = {}" by (rule Int_commute [THEN trans])
    with x Cons.prems(4) co(2) show "script_fds h \<inter> script_fds (script_of ?U None x) = {}"
      by (cases "x = fresh_co S") simp_all
  qed
  have "int (total ?g ?U None + sum_list (map ?g fs)) \<le> INT_MAX" using U [of ?g] co(4) [of ?g] Cons.prems(5) by simp
  moreover have "list_all good_script fs" "scripts_apart fs" "list_all (\<lambda>f. eventfd ?U \<notin> script_fds f) fs"
    using Cons.prems(2,3,6) by simp_all
  ultimately obtain S' where S': "create_all (Some ?U) fs pfd efd t = Some (Some S')" "sched_inv S' None" "same_conf ?U S'"
      "\<And>g. total g S' None = total g ?U None + sum_list (map g fs)"
    using Cons.IH [OF U [THEN conjunct1] _ _ ap] by blast
  have "create_all (Some S) (f # fs) pfd efd t = Some (Some S')" using co(1) S'(1) by (simp add: nty_coroutine_create_def)
  moreover have "total g S' None = total g S None + sum_list (map g (f # fs))" for g using S'(4) [of g] U [of g] co(4) [of g] by simp
  ultimately show ?case using S'(2,3) by (auto simp: same_conf_def)
qed

lemma create_all_ok:
  assumes "program_ok pfd efd funcs"
  obtains S where "create_all None funcs pfd efd t = Some (Some S)" and "sched_inv S None" and "default_timeout S \<noteq> 0"
    and "\<And>g. total g S None = sum_list (map g funcs)" and "\<And>S'. same_conf S S' \<Longrightarrow> nty_schedule_free S' = [pfd, efd]"
    and "\<And>S'. same_conf S S' \<Longrightarrow> eventfd S' = efd"
proof -
  let ?S = "\<lparr>birth = t, stack = replicate NTY_CO_MAX_STACKSIZE (CHR 0x00), used = 0, spawned_coroutines = 0,
    default_timeout = 3000000, curr_thread = None, poller_fd = pfd, eventfd = efd, eventlist = [], num_new_events = 0,
    ready = [], sleeping = [], waiting = [], cos = Map.empty, fresh_co = 0,
    polled = [efd \<mapsto> EPOLLIN], clock = [], now = t, callocs = []\<rparr>"
  have "sched_inv ?S None"
    by (simp add: sched_inv_def queues_ok_def members_ok_def fds_apart_def polled_ok_def account_ok_def env_ok_def total_def INT_MAX_def)
  moreover have "create_all None funcs pfd efd t = create_all (Some ?S) funcs pfd efd t"
    using assms
    by (cases funcs) (auto simp: program_ok_def nty_coroutine_create_def nty_schedule_create_def nty_epoller_ev_register_trigger_def Let_def)
  ultimately obtain S' where "create_all None funcs pfd efd t = Some (Some S')" "sched_inv S' None" "same_conf ?S S'"
      "\<And>g. total g S' None = sum_list (map g funcs)"
    using create_all_Some [of ?S funcs pfd efd t] assms by (auto simp: program_ok_def total_def)
  then show thesis using assms by (intro that [of S']) (auto simp: same_conf_def nty_schedule_free_def program_ok_def)
qed

lemmas sched_eval =
  create_all.simps nty_coroutine_create_def nty_schedule_create_def nty_epoller_ev_register_trigger_def co_create_def nty_coroutine_usec_now_def
  ready_insert_tail_def sched_pass_def nty_coroutine_resume_def nty_coroutine_init_def co_get_def co_upd_def
  exec_end_def nty_coroutine_yield_def save_stack_def load_stack_def nty_coroutine_free_def nty_schedule_epoll_def
  nty_schedule_min_timeout_def nty_schedule_search_wait_def nty_schedule_desched_wait_def
  nty_schedule_desched_sleepdown_def nty_schedule_sched_wait_def rb_insert_def rb_find_def rb_remove_def rb_min_def keys_def
  nty_schedule_isdone_def Let_def

lemma loops_eval:
  "sleeping S = [] \<Longrightarrow> expired_loop S = Some (snd (nty_coroutine_usec_now S))"
  "ready S = [] \<Longrightarrow> ready_loop S l = Some S"
  "ready S = c # cs \<Longrightarrow> ready_loop S l =
     do { co \<leftarrow> cos S c;
          if has (co_status co) FDEOF then nty_coroutine_free (S\<lparr>ready := cs\<rparr>) c
          else do { (_, S) \<leftarrow> nty_coroutine_resume (S\<lparr>ready := cs\<rparr>) c; if Some c = l then Some S else ready_loop S l } }"
proof -
  show "expired_loop S = Some (snd (nty_coroutine_usec_now S))" if "sleeping S = []"
    using that usec_now_eq [of S]
    by (subst expired_loop.simps) (auto simp: nty_schedule_expired_def rb_min_def split: prod.splits)
  show "ready_loop S l = Some S" if "ready S = []" using that by (subst ready_loop.simps) simp
  show "ready_loop S l =
     do { co \<leftarrow> cos S c;
          if has (co_status co) FDEOF then nty_coroutine_free (S\<lparr>ready := cs\<rparr>) c
          else do { (_, S) \<leftarrow> nty_coroutine_resume (S\<lparr>ready := cs\<rparr>) c; if Some c = l then Some S else ready_loop S l } }"
    if "ready S = c # cs" using that by (subst ready_loop.simps) (simp add: co_get_def Let_def)
qed

text \<open>A program with one coroutine that polls descriptor 5.\<close>

definition demo :: "act list list" where
  "demo = [[Poll [(5, POLLIN)] 1]]"

definition demo_state :: "string \<Rightarrow> nty_schedule" where
  "demo_state st = \<lparr>birth = 0, stack = st, used = 2, spawned_coroutines = 1, default_timeout = 3000000, curr_thread = Some 0,
     poller_fd = 3, eventfd = 4, eventlist = [], num_new_events = 0, ready = [], sleeping = [], waiting = [],
     cos = [0 \<mapsto> \<lparr>co_func = [], co_status = BIT READY, co_id = 0, co_fd = -1, co_events = 0, co_ops = 0,
                   co_sleep_usecs = 0, co_birth = 0, co_stack = [], co_stack_size = 0\<rparr>],
     fresh_co = 1, polled = [4 \<mapsto> EPOLLIN], clock = [], now = 0, callocs = []\<rparr>"

lemma demo_ok: "program_ok 3 4 demo"
  by (simp add: demo_def program_ok_def good_script_def POLLIN_def INT_MAX_def)

definition demo_answers :: "epoll_answer list list" where
  "demo_answers = [[Interrupted, Events [(5, EPOLLIN)]], [Events []], [Events []]]"

lemma demo_runs:
  "\<exists>S. create_all None demo 3 4 0 = Some (Some S) \<and> epoll_ok None S demo_answers \<and> epoll_ok (Some {}) S demo_answers \<and>
     \<not> epoll_aborts S demo_answers"
  by (simp add: sched_eval loops_eval demo_def demo_answers_def INT_MAX_def POLLIN_def EPOLLIN_def EPOLLHUP_def settled_def parked_fds_def
      parked_def)

text \<open>The poll events as bits.\<close>

lemma poll_flag:
  "(w :: 16 word) AND POLLIN \<noteq> 0 \<longleftrightarrow> bit w 0" "w AND POLLOUT \<noteq> 0 \<longleftrightarrow> bit w 2" "w AND POLLERR \<noteq> 0 \<longleftrightarrow> bit w 3"
  "w AND POLLHUP \<noteq> 0 \<longleftrightarrow> bit w 4" "w AND POLLRDNORM \<noteq> 0 \<longleftrightarrow> bit w 6" "w AND POLLWRNORM \<noteq> 0 \<longleftrightarrow> bit w 8"
  using bit_iff_and_push_bit_not_eq_0 [of w 0] bit_iff_and_push_bit_not_eq_0 [of w 2] bit_iff_and_push_bit_not_eq_0 [of w 3]
    bit_iff_and_push_bit_not_eq_0 [of w 4] bit_iff_and_push_bit_not_eq_0 [of w 6] bit_iff_and_push_bit_not_eq_0 [of w 8]
  by (simp_all add: POLLIN_def POLLOUT_def POLLERR_def POLLHUP_def POLLRDNORM_def POLLWRNORM_def push_bit_eq_mult)

lemma and_flag: "(w :: 16 word) AND push_bit k 1 = (if bit w k then push_bit k 1 else 0)"
  by (rule bit_eqI) (auto simp: bit_simps)

lemma poll_mask: "(w :: 16 word) AND 0x15D =
   (if bit w 0 then 1 else 0) OR (if bit w 2 then 4 else 0) OR (if bit w 3 then 8 else 0) OR (if bit w 4 then 16 else 0) OR
   (if bit w 6 then 64 else 0) OR (if bit w 8 then 256 else 0)"
proof -
  have "(0x15D :: 16 word) = push_bit 0 1 OR push_bit 2 1 OR push_bit 3 1 OR push_bit 4 1 OR push_bit 6 1 OR push_bit 8 1"
    by (simp add: push_bit_eq_mult)
  then show ?thesis by (simp only: bit.conj_disj_distrib and_flag) (simp add: push_bit_eq_mult)
qed

section \<open>Properties\<close>





text \<open>
  \<open>nty_coroutine_sleep\<close> does not suspend the coroutine: one that sleeps for a time other than 0
  and returns is freed while it is in the tree of sleeping coroutines, and the main loop goes on to
  read the freed memory.
\<close>

theorem sleeping_coroutine_dangles:
  assumes "msecs \<noteq> 0"
  shows "\<exists>S. create_all None [[Sleep msecs]] 3 4 t = Some (Some S) \<and> nty_schedule_run (Some S) (as # ass) = None"
  using assms
  by (simp add: nty_schedule_run_def sched_eval loops_eval INT_MAX_def nty_schedule_sched_sleepdown_def sleepdown_insert.simps)

theorem sleeping_coroutine_dangles_witness:
  "(100 :: 64 word) \<noteq> 0 \<and> (\<exists>S. create_all None [[Sleep 100]] 3 4 7 = Some (Some S) \<and> nty_schedule_run (Some S) [[]] = None)"
  using sleeping_coroutine_dangles [of 100 7 "[]" "[]"] by simp

text \<open>
  Coroutines share one stack without disturbing each other: whatever runs between the yield of
  a coroutine and its resumption, the bytes it had on the stack are back when it runs on.
\<close>

theorem stack_is_private:
  assumes "save_stack S c = Some S1" and "cos T c = cos S1 c" and "length (stack T) = length (stack S)"
  shows "\<exists>T'. load_stack T c = Some T' \<and> used T' = used S \<and> length (stack T') = length (stack S) \<and>
    drop (length (stack S) - used S) (stack T') = drop (length (stack S) - used S) (stack S)"
proof -
  obtain co where co: "cos S c = Some co" and le: "used S \<le> length (stack S)"
    using assms(1) by (auto simp: save_stack_def co_get_def bind_eq_Some_conv split: if_splits)
  let ?live = "drop (length (stack S) - used S) (stack S)"
  let ?old = "if co_stack_size co < used S then [] else drop (used S) (co_stack co)"
  have "cos S1 c = Some (co\<lparr>co_stack := ?live @ ?old, co_stack_size := used S\<rparr>)"
    using assms(1) co by (auto simp: save_stack_def co_get_def co_upd_def Let_def split: if_splits prod.splits)
  moreover have "length ?live = used S" using le by simp
  ultimately show ?thesis using assms(2,3) le by (simp add: load_stack_def co_get_def)
qed

theorem stack_is_private_witness:
  "\<exists>S1. save_stack (demo_state ''abcd'') 0 = Some S1 \<and>
     (\<exists>T'. load_stack (S1\<lparr>stack := ''wxyz''\<rparr>) 0 = Some T' \<and> drop 2 (stack T') = ''cd'')"
proof -
  obtain S1 where s: "save_stack (demo_state ''abcd'') 0 = Some S1"
    by (simp add: demo_state_def save_stack_def co_get_def co_upd_def Let_def NTY_CO_MAX_STACKSIZE_def)
  then show ?thesis using stack_is_private [OF s, of "S1\<lparr>stack := ''wxyz''\<rparr>"] by (auto simp: demo_state_def numeral_2_eq_2)
qed

text \<open>
  The time for which \<open>epoll_wait\<close> may block never exceeds the time to the next deadline, and of
  a second or more only the whole seconds are waited for: the split takes the remainder by 1000
  instead of 1000000.
\<close>

theorem poll_timeout_rounds_down:
  "case split_timeout usecs of (tv_sec, tv_nsec) \<Rightarrow>
     nty_epoller_wait_ms tv_sec tv_nsec = (if usecs < 1000000 then usecs div 1000 else usecs div 1000000 * 1000) \<and>
     nty_epoller_wait_ms tv_sec tv_nsec * 1000 \<le> usecs"
proof (cases "usecs < 1000000")
  case False
  then have "usecs div 1000000 \<noteq> 0" by simp
  moreover have "(usecs div 1000000 * 1000 * 1000000 + usecs mod 1000 * 1000) div 1000000 = usecs div 1000000 * 1000"
    using div_less [of "usecs mod 1000 * 1000" 1000000] by (simp add: div_add1_eq)
  ultimately show ?thesis using False by (simp add: split_timeout_def nty_epoller_wait_ms_def Let_def)
qed (simp add: split_timeout_def nty_epoller_wait_ms_def Let_def)

text \<open>
  The translation of poll events to epoll events and back keeps the six events that both
  interfaces have and drops all others.
\<close>

theorem poll_events_roundtrip:
  "nty_epollevent_2poll (nty_pollevent_2epoll events) = events AND 0x15D"
  unfolding poll_mask nty_pollevent_2epoll_def Let_def poll_flag
  by (cases "bit events 0"; cases "bit events 2"; cases "bit events 3"; cases "bit events 4"; cases "bit events 6"; cases "bit events 8")
    (simp_all add: nty_epollevent_2poll_def Let_def POLLIN_def POLLOUT_def POLLERR_def POLLHUP_def POLLRDNORM_def POLLWRNORM_def
      EPOLLIN_def EPOLLOUT_def EPOLLERR_def EPOLLHUP_def EPOLLRDNORM_def EPOLLWRNORM_def)
end
