(* ===== verification/Nty_Socket.thy ===== *)
theory Nty_Socket
  imports Nty_Inv
begin

text \<open>
  The socket calls of NtyCo (\<open>nty_socket.c\<close>): the calls with the prefix \<open>nty_\<close> and the functions
  that take the place of the calls of the C library. What the kernel answers is part of the state;
  a call of the library that waits for a descriptor is recorded and scheduled as in \<open>Nty_Sched\<close>.
\<close>

unbundle bit_operations_syntax

section \<open>Data\<close>

datatype errno = EAGAIN | EINPROGRESS | ECONNABORTED | ECONNRESET | EMFILE | ENFILE | EOTHER

datatype syscall =
    Call_socket
  | Call_fcntl int
  | Call_setsockopt int
  | Call_close int
  | Call_accept int
  | Call_connect int
  | Call_recv int nat
  | Call_read int nat
  | Call_recvfrom int nat
  | Call_send int string
  | Call_write int string
  | Call_sendto int string
  | Wait int "16 word"

text \<open>An answer of the kernel: the result of a call, the bytes of a receive or an error.\<close>

datatype answer = Val int | Data string | Err errno

text \<open>
  \<open>hooked\<close> says that \<open>init_hook\<close> has looked up the functions of the C library, \<open>in_sched\<close> that the
  thread has a scheduler and \<open>in_co\<close> that a coroutine runs. \<open>calls\<close> are the calls made so far and
  \<open>sent_to\<close> the bytes that the kernel has taken for each descriptor.
\<close>

record sock_world =
  hooked :: bool
  in_sched :: bool
  in_co :: bool
  err :: errno
  answers :: "answer list"
  calls :: "syscall list"
  sent_to :: "int \<Rightarrow> string"

text \<open>The kernel moves at most this number of bytes at a time, so that a count fits an \<open>int\<close>.\<close>

definition MAX_RW_COUNT :: nat where
  "MAX_RW_COUNT = 0x7ffff000"

section \<open>The kernel\<close>

text \<open>
  \<open>None\<close> stands for a call that does not return: it is never answered, its behaviour is undefined
  or an assertion fails.
\<close>

definition ask :: "sock_world \<Rightarrow> syscall \<Rightarrow> (answer \<times> sock_world) option" where
  "ask w c = (case answers w of [] \<Rightarrow> None | a # as \<Rightarrow> Some (a, w\<lparr>answers := as, calls := calls w @ [c]\<rparr>))"

definition ask_val :: "sock_world \<Rightarrow> syscall \<Rightarrow> (int \<times> sock_world) option" where
  "ask_val w c =
     do { (a, w) \<leftarrow> ask w c;
          case a of
            Val r \<Rightarrow> if 0 \<le> r then Some (r, w) else None
          | Data _ \<Rightarrow> None
          | Err e \<Rightarrow> Some (-1, w\<lparr>err := e\<rparr>) }"

definition ask_recv :: "sock_world \<Rightarrow> syscall \<Rightarrow> nat \<Rightarrow> (int \<times> string \<times> sock_world) option" where
  "ask_recv w c len =
     do { (a, w) \<leftarrow> ask w c;
          case a of
            Val _ \<Rightarrow> None
          | Data bs \<Rightarrow> if length bs \<le> min len MAX_RW_COUNT then Some (int (length bs), bs, w) else None
          | Err e \<Rightarrow> Some (-1, [], w\<lparr>err := e\<rparr>) }"

definition ask_send :: "sock_world \<Rightarrow> syscall \<Rightarrow> int \<Rightarrow> string \<Rightarrow> (int \<times> sock_world) option" where
  "ask_send w c fd buf =
     do { (r, w) \<leftarrow> ask_val w c;
          if int (min (length buf) MAX_RW_COUNT) < r then None
          else Some (r, w\<lparr>sent_to := (sent_to w)(fd := sent_to w fd @ take (nat r) buf)\<rparr>) }"

definition setsockopt :: "sock_world \<Rightarrow> int \<Rightarrow> sock_world" where
  "setsockopt w fd = w\<lparr>calls := calls w @ [Call_setsockopt fd]\<rparr>"

section \<open>Waiting\<close>

abbreviation readable :: "16 word" where
  "readable \<equiv> POLLIN OR POLLERR OR POLLHUP"

abbreviation writable :: "16 word" where
  "writable \<equiv> POLLOUT OR POLLERR OR POLLHUP"

text \<open>
  \<open>nty_poll_inner\<close> for one descriptor with the timeout 1. Without a scheduler it returns at once,
  and outside of a coroutine it uses a null pointer.
\<close>

definition nty_poll_inner :: "sock_world \<Rightarrow> int \<Rightarrow> 16 word \<Rightarrow> sock_world option" where
  "nty_poll_inner w fd events =
     (if \<not> in_sched w then Some w
      else if \<not> in_co w then None
      else Some (w\<lparr>calls := calls w @ [Wait fd events]\<rparr>))"

definition init_hook :: "sock_world \<Rightarrow> sock_world" where
  "init_hook w = w\<lparr>hooked := True\<rparr>"

text \<open>What every replacement does first.\<close>

definition hook :: "sock_world \<Rightarrow> sock_world" where
  "hook w = (if \<not> hooked w then init_hook w else w)"

section \<open>Loops\<close>

text \<open>
  The loops are the same in the calls of the library and in the replacements; \<open>f\<close> is the function
  that the loop calls. Sending: \<open>sent\<close> is the number of bytes taken so far, \<open>ret\<close> the last result.
\<close>

partial_function (option) send_loop ::
  "sock_world \<Rightarrow> (sock_world \<Rightarrow> string \<Rightarrow> (int \<times> sock_world) option) \<Rightarrow> int \<Rightarrow> string \<Rightarrow> int \<Rightarrow> int \<Rightarrow> (int \<times> sock_world) option" where
  "send_loop w f fd buf sent ret =
     (if nat sent < length buf
      then do {
        w \<leftarrow> nty_poll_inner w fd writable;
        (ret, w) \<leftarrow> f w (drop (nat sent) buf);
        if ret \<le> 0 then Some (if sent = 0 then ret else sent, w)
        else if INT_MAX < sent + ret then None
        else send_loop w f fd buf (sent + ret) ret }
      else Some (if ret \<le> 0 \<and> sent = 0 then ret else sent, w))"

definition send_all :: "(sock_world \<Rightarrow> string \<Rightarrow> (int \<times> sock_world) option) \<Rightarrow> int \<Rightarrow> sock_world \<Rightarrow> string \<Rightarrow> (int \<times> sock_world) option" where
  "send_all f fd w buf =
     do { (ret, w) \<leftarrow> f w buf;
          if ret = 0 then Some (ret, w)
          else send_loop w f fd buf (if ret > 0 then ret else 0) ret }"

text \<open>Accepting: the descriptor of the connection, or -1.\<close>

partial_function (option) accept_loop ::
  "sock_world \<Rightarrow> (sock_world \<Rightarrow> int \<Rightarrow> (int \<times> sock_world) option) \<Rightarrow> int \<Rightarrow> (int \<times> sock_world) option" where
  "accept_loop w f fd =
     do { w \<leftarrow> nty_poll_inner w fd readable;
          (sockfd, w) \<leftarrow> f w fd;
          if sockfd < 0 then if err w = EAGAIN then accept_loop w f fd else Some (-1, w)
          else Some (sockfd, w) }"

partial_function (option) connect_loop ::
  "sock_world \<Rightarrow> (sock_world \<Rightarrow> int \<Rightarrow> (int \<times> sock_world) option) \<Rightarrow> int \<Rightarrow> (int \<times> sock_world) option" where
  "connect_loop w f fd =
     do { w \<leftarrow> nty_poll_inner w fd writable;
          (ret, w) \<leftarrow> f w fd;
          if ret = 0 then Some (ret, w)
          else if ret = -1 \<and> (err w = EAGAIN \<or> err w = EINPROGRESS) then connect_loop w f fd
          else Some (ret, w) }"

section \<open>The replacements of the C library\<close>

definition close :: "sock_world \<Rightarrow> int \<Rightarrow> (int \<times> sock_world) option" where
  "close w fd = ask_val (hook w) (Call_close fd)"

definition socket :: "sock_world \<Rightarrow> (int \<times> sock_world) option" where
  "socket w =
     do { let w = hook w;
          if \<not> in_sched w then ask_val w Call_socket
          else do {
            (fd, w) \<leftarrow> ask_val w Call_socket;
            if fd = -1 then Some (-1, w)
            else do {
              (ret, w) \<leftarrow> ask_val w (Call_fcntl fd);
              if ret = -1 then do { (_, w) \<leftarrow> close w ret; Some (-1, w) }
              else Some (fd, setsockopt w fd) } } }"

definition read :: "sock_world \<Rightarrow> int \<Rightarrow> nat \<Rightarrow> (int \<times> string \<times> sock_world) option" where
  "read w fd count =
     do { let w = hook w;
          if \<not> in_sched w then ask_recv w (Call_read fd count) count
          else do {
            w \<leftarrow> nty_poll_inner w fd readable;
            (ret, buf, w) \<leftarrow> ask_recv w (Call_read fd count) count;
            if ret < 0 \<and> err w = ECONNRESET then Some (-1, buf, w) else Some (ret, buf, w) } }"

definition recv :: "sock_world \<Rightarrow> int \<Rightarrow> nat \<Rightarrow> (int \<times> string \<times> sock_world) option" where
  "recv w fd len =
     do { let w = hook w;
          if \<not> in_sched w then ask_recv w (Call_recv fd len) len
          else do {
            w \<leftarrow> nty_poll_inner w fd readable;
            (ret, buf, w) \<leftarrow> ask_recv w (Call_recv fd len) len;
            if ret < 0 \<and> err w = ECONNRESET then Some (-1, buf, w) else Some (ret, buf, w) } }"

definition recvfrom :: "sock_world \<Rightarrow> int \<Rightarrow> nat \<Rightarrow> (int \<times> string \<times> sock_world) option" where
  "recvfrom w fd len =
     do { let w = hook w;
          if \<not> in_sched w then ask_recv w (Call_recvfrom fd len) len
          else do {
            w \<leftarrow> nty_poll_inner w fd readable;
            (ret, buf, w) \<leftarrow> ask_recv w (Call_recvfrom fd len) len;
            if ret < 0
            then if err w = EAGAIN then Some (ret, buf, w)
                 else if err w = ECONNRESET then Some (0, buf, w)
                 else None
            else Some (ret, buf, w) } }"

definition write_fd :: "sock_world \<Rightarrow> int \<Rightarrow> string \<Rightarrow> (int \<times> sock_world) option" where
  "write_fd w fd buf =
     do { let w = hook w;
          if \<not> in_sched w then ask_send w (Call_write fd buf) fd buf
          else send_all (\<lambda>w bs. ask_send w (Call_write fd bs) fd bs) fd w buf }"

definition send :: "sock_world \<Rightarrow> int \<Rightarrow> string \<Rightarrow> (int \<times> sock_world) option" where
  "send w fd buf =
     do { let w = hook w;
          if \<not> in_sched w then ask_send w (Call_send fd buf) fd buf
          else send_all (\<lambda>w bs. ask_send w (Call_send fd bs) fd bs) fd w buf }"

definition sendto :: "sock_world \<Rightarrow> int \<Rightarrow> string \<Rightarrow> (int \<times> sock_world) option" where
  "sendto w fd buf =
     do { let w = hook w;
          if \<not> in_sched w then ask_send w (Call_sendto fd buf) fd buf
          else do {
            w \<leftarrow> nty_poll_inner w fd writable;
            (ret, w) \<leftarrow> ask_send w (Call_sendto fd buf) fd buf;
            if ret < 0
            then if err w = EAGAIN then Some (ret, w)
                 else if err w = ECONNRESET then Some (0, w)
                 else None
            else Some (ret, w) } }"

text \<open>The end of both accepts: the connection is made non-blocking, the option set on the listener.\<close>

definition accept_finish :: "sock_world \<Rightarrow> int \<Rightarrow> int \<Rightarrow> (int \<times> sock_world) option" where
  "accept_finish w fd sockfd =
     (if sockfd < 0 then Some (-1, w)
      else do {
        (ret, w) \<leftarrow> ask_val w (Call_fcntl sockfd);
        if ret = -1 then do { (_, w) \<leftarrow> close w sockfd; Some (-1, w) }
        else Some (sockfd, setsockopt w fd) })"

definition accept :: "sock_world \<Rightarrow> int \<Rightarrow> (int \<times> sock_world) option" where
  "accept w fd =
     do { let w = hook w;
          if \<not> in_sched w then ask_val w (Call_accept fd)
          else do {
            (sockfd, w) \<leftarrow> accept_loop w (\<lambda>w fd. ask_val w (Call_accept fd)) fd;
            accept_finish w fd sockfd } }"

definition connect :: "sock_world \<Rightarrow> int \<Rightarrow> (int \<times> sock_world) option" where
  "connect w fd =
     do { let w = hook w;
          if \<not> in_sched w then ask_val w (Call_connect fd)
          else connect_loop w (\<lambda>w fd. ask_val w (Call_connect fd)) fd }"

section \<open>The calls of the library\<close>

text \<open>They call the C library by its names, and so the replacements above.\<close>

definition nty_socket :: "sock_world \<Rightarrow> (int \<times> sock_world) option" where
  "nty_socket w =
     do { (fd, w) \<leftarrow> socket w;
          if fd = -1 then Some (-1, w)
          else do {
            (ret, w) \<leftarrow> ask_val w (Call_fcntl fd);
            if ret = -1 then do { (_, w) \<leftarrow> close w ret; Some (-1, w) }
            else Some (fd, setsockopt w fd) } }"

definition nty_accept :: "sock_world \<Rightarrow> int \<Rightarrow> (int \<times> sock_world) option" where
  "nty_accept w fd =
     (if \<not> in_sched w then None
      else do { (sockfd, w) \<leftarrow> accept_loop w accept fd; accept_finish w fd sockfd })"

definition nty_connect :: "sock_world \<Rightarrow> int \<Rightarrow> (int \<times> sock_world) option" where
  "nty_connect w fd = connect_loop w connect fd"

definition nty_recv :: "sock_world \<Rightarrow> int \<Rightarrow> nat \<Rightarrow> (int \<times> string \<times> sock_world) option" where
  "nty_recv w fd len =
     do { w \<leftarrow> nty_poll_inner w fd readable;
          (ret, buf, w) \<leftarrow> recv w fd len;
          if ret < 0 \<and> err w = ECONNRESET then Some (-1, buf, w) else Some (ret, buf, w) }"

definition nty_send :: "sock_world \<Rightarrow> int \<Rightarrow> string \<Rightarrow> (int \<times> sock_world) option" where
  "nty_send w fd buf = send_all (\<lambda>w bs. send w fd bs) fd w buf"

partial_function (option) sendto_loop :: "sock_world \<Rightarrow> int \<Rightarrow> string \<Rightarrow> int \<Rightarrow> (int \<times> sock_world) option" where
  "sendto_loop w fd buf sent =
     (if nat sent < length buf
      then do {
        w \<leftarrow> nty_poll_inner w fd writable;
        (ret, w) \<leftarrow> sendto w fd (drop (nat sent) buf);
        if ret \<le> 0
        then if err w = EAGAIN then sendto_loop w fd buf sent
             else if err w = ECONNRESET then Some (ret, w)
             else None
        else if INT_MAX < sent + ret then None
        else sendto_loop w fd buf (sent + ret) }
      else Some (sent, w))"

definition nty_sendto :: "sock_world \<Rightarrow> int \<Rightarrow> string \<Rightarrow> (int \<times> sock_world) option" where
  "nty_sendto w fd buf = sendto_loop w fd buf 0"

definition nty_recvfrom :: "sock_world \<Rightarrow> int \<Rightarrow> nat \<Rightarrow> (int \<times> string \<times> sock_world) option" where
  "nty_recvfrom w fd len =
     do { w \<leftarrow> nty_poll_inner w fd readable;
          (ret, buf, w) \<leftarrow> recvfrom w fd len;
          if ret < 0
          then if err w = EAGAIN then Some (ret, buf, w)
               else if err w = ECONNRESET then Some (0, buf, w)
               else None
          else Some (ret, buf, w) }"

definition nty_close :: "sock_world \<Rightarrow> int \<Rightarrow> (int \<times> sock_world) option" where
  "nty_close w fd = close w fd"

section \<open>Sending\<close>

text \<open>
  The interface of the functions that send: of a result \<open>r\<close> above 0 the first \<open>r\<close> bytes are taken
  for the descriptor, in order, and otherwise none.
\<close>

definition takes :: "int \<Rightarrow> (int \<Rightarrow> string) \<Rightarrow> string \<Rightarrow> int \<Rightarrow> (int \<Rightarrow> string) \<Rightarrow> bool" where
  "takes fd s buf r s' \<longleftrightarrow> r \<le> int (length buf) \<and> s' = s(fd := s fd @ take (nat r) buf)"

locale byte_sender =
  fixes f :: "sock_world \<Rightarrow> string \<Rightarrow> (int \<times> sock_world) option" and fd :: int
  assumes f_takes: "f w buf = Some (r, w') \<Longrightarrow> takes fd (sent_to w) buf r (sent_to w')"
begin

lemma loop_takes:
  assumes "send_loop w f fd buf sent ret = Some y" and "0 \<le> sent" and "takes fd s buf sent (sent_to w)"
  shows "takes fd s buf (fst y) (sent_to (snd y))"
proof -
  define P where "P = (\<lambda>(w :: sock_world) g e buf sent (ret :: int) (y :: int \<times> sock_world). g = f \<longrightarrow> e = fd \<longrightarrow> 0 \<le> sent \<longrightarrow>
    (\<forall>s. takes fd s buf sent (sent_to w) \<longrightarrow> takes fd s buf (fst y) (sent_to (snd y))))"
  have "P w f fd buf sent ret y"
  proof (rule send_loop.raw_induct [where P = P, OF _ assms(1)])
    fix loop w g e buf sent ret y
    assume IH: "\<And>w g e buf sent ret y. loop w g e buf sent ret = Some y \<Longrightarrow> P w g e buf sent ret y"
      and eq: "(if nat sent < length buf
        then do {
          w \<leftarrow> nty_poll_inner w e writable;
          (ret, w) \<leftarrow> g w (drop (nat sent) buf);
          if ret \<le> 0 then Some (if sent = 0 then ret else sent, w)
          else if INT_MAX < sent + ret then None
          else loop w g e buf (sent + ret) ret }
        else Some (if ret \<le> 0 \<and> sent = 0 then ret else sent, w)) = Some y"
    show "P w g e buf sent ret y" unfolding P_def
    proof (intro impI allI)
      fix s
      assume g: "g = f" "e = fd" and s: "0 \<le> sent" "takes fd s buf sent (sent_to w)"
      show "takes fd s buf (fst y) (sent_to (snd y))"
      proof (cases "nat sent < length buf")
        case sl: True
        obtain w1 where w1: "nty_poll_inner w e writable = Some w1"
          using eq sl by (cases "nty_poll_inner w e writable") simp_all
        obtain r w2 where r: "g w1 (drop (nat sent) buf) = Some (r, w2)"
          using eq sl w1 by (cases "g w1 (drop (nat sent) buf)") auto
        have "sent_to w1 = sent_to w" using w1 by (auto simp: nty_poll_inner_def split: if_splits)
        then have "takes fd (sent_to w) (drop (nat sent) buf) r (sent_to w2)" using f_takes r g(1) by metis
        then have t: "r \<le> int (length buf) - sent" "sent_to w2 = (sent_to w)(fd := sent_to w fd @ take (nat r) (drop (nat sent) buf))"
          using sl s(1) by (auto simp: takes_def)
        show ?thesis
        proof (cases "r \<le> 0")
          case True
          then have "y = (if sent = 0 then r else sent, w2)" using eq sl w1 r by simp
          with t True s show ?thesis by (auto simp: takes_def)
        next
          case False
          then have rec: "loop w2 g e buf (sent + r) r = Some y" using eq sl w1 r by (simp split: if_splits)
          have "take (nat sent) buf @ take (nat r) (drop (nat sent) buf) = take (nat (sent + r)) buf"
            using False s(1) by (simp add: nat_add_distrib take_add)
          then have "takes fd s buf (sent + r) (sent_to w2)" using t s(2) by (auto simp: takes_def)
          then show ?thesis using IH [OF rec] False s(1) g by (simp add: P_def)
        qed
      next
        case False
        then have "y = (if ret \<le> 0 \<and> sent = 0 then ret else sent, w)" using eq by simp
        then show ?thesis using s by (auto simp: takes_def)
      qed
    qed
  qed
  then show ?thesis using assms(2,3) by (simp add: P_def)
qed

lemma send_all_takes:
  assumes "send_all f fd w buf = Some (r, w')"
  shows "takes fd (sent_to w) buf r (sent_to w')"
proof -
  obtain ret w1 where f: "f w buf = Some (ret, w1)" using assms by (auto simp: send_all_def bind_eq_Some_conv)
  then have t: "takes fd (sent_to w) buf ret (sent_to w1)" by (rule f_takes)
  show ?thesis
  proof (cases "ret = 0")
    case True
    then show ?thesis using assms f t by (simp add: send_all_def)
  next
    case False
    then have "send_loop w1 f fd buf (if ret > 0 then ret else 0) ret = Some (r, w')" using assms f by (simp add: send_all_def)
    from loop_takes [OF this, of "sent_to w"] t show ?thesis by (simp add: takes_def)
  qed
qed

text \<open>The loop over a sender is a sender.\<close>

lemma send_all_sender: "byte_sender (send_all f fd) fd"
  by unfold_locales (rule send_all_takes)

end

lemma ask_send_takes: "ask_send w c fd buf = Some (r, w') \<Longrightarrow> takes fd (sent_to w) buf r (sent_to w')"
  by (auto simp: ask_send_def ask_val_def ask_def takes_def bind_eq_Some_conv split: list.splits answer.splits if_splits)

interpretation k_send: byte_sender "\<lambda>w bs. ask_send w (Call_send fd bs) fd bs" fd for fd
  by unfold_locales (rule ask_send_takes)

interpretation k_write: byte_sender "\<lambda>w bs. ask_send w (Call_write fd bs) fd bs" fd for fd
  by unfold_locales (rule ask_send_takes)

lemma sent_to_hook [simp]: "sent_to (hook w) = sent_to w" "in_sched (hook w) = in_sched w" "in_co (hook w) = in_co w"
    "answers (hook w) = answers w" "calls (hook w) = calls w" "err (hook w) = err w" "hooked (hook w)"
  by (simp_all add: hook_def init_hook_def)

interpretation h_send: byte_sender "\<lambda>w bs. send w fd bs" fd for fd
proof unfold_locales
  fix w buf r w'
  assume "send w fd buf = Some (r, w')"
  then have "takes fd (sent_to (hook w)) buf r (sent_to w')"
    unfolding send_def Let_def by (cases "in_sched (hook w)") (auto intro: ask_send_takes k_send.send_all_takes simp del: sent_to_hook)
  then show "takes fd (sent_to w) buf r (sent_to w')" by simp
qed

interpretation h_write: byte_sender "\<lambda>w bs. write_fd w fd bs" fd for fd
proof unfold_locales
  fix w buf r w'
  assume "write_fd w fd buf = Some (r, w')"
  then have "takes fd (sent_to (hook w)) buf r (sent_to w')"
    unfolding write_fd_def Let_def by (cases "in_sched (hook w)") (auto intro: ask_send_takes k_write.send_all_takes simp del: sent_to_hook)
  then show "takes fd (sent_to w) buf r (sent_to w')" by simp
qed

interpretation n_send: byte_sender "\<lambda>w bs. nty_send w fd bs" fd for fd
  unfolding nty_send_def by (rule h_send.send_all_sender)

section \<open>Waiting for one's own descriptor\<close>

text \<open>
  The calls made between two states: all waits are for the given descriptor, one at a time, for
  reading or writing, as the scheduler needs it of the coroutines.
\<close>

definition call_wait_ok :: "int \<Rightarrow> syscall \<Rightarrow> bool" where
  "call_wait_ok fd c = (case c of Wait e ev \<Rightarrow> e = fd \<and> act_ok (Poll [(e, ev)] 1) | _ \<Rightarrow> True)"

definition polls :: "int \<Rightarrow> sock_world \<Rightarrow> sock_world \<Rightarrow> bool" where
  "polls fd w w' \<longleftrightarrow> (\<exists>cs. calls w' = calls w @ cs \<and> list_all (call_wait_ok fd) cs)"

lemma polls_refl [simp]: "polls fd w w"
  by (simp add: polls_def)

lemma polls_trans: "polls fd w1 w2 \<Longrightarrow> polls fd w2 w3 \<Longrightarrow> polls fd w1 w3"
  by (auto simp: polls_def)

lemma polls_same: "calls w' = calls w \<Longrightarrow> polls fd w w'"
  by (simp add: polls_def)

lemma polls_hook [simp]: "polls fd (hook w) w' \<longleftrightarrow> polls fd w w'" "polls fd w (setsockopt w e)"
  by (simp_all add: polls_def setsockopt_def call_wait_ok_def)

lemma polls_ask_val: "ask_val w c = Some (r, w') \<Longrightarrow> call_wait_ok fd c \<Longrightarrow> polls fd w w'"
  by (auto simp: ask_val_def ask_def polls_def bind_eq_Some_conv split: list.splits answer.splits if_splits)

lemma polls_ask_send: "ask_send w c e buf = Some (r, w') \<Longrightarrow> call_wait_ok fd c \<Longrightarrow> polls fd w w'"
  by (auto simp: ask_send_def ask_val_def ask_def polls_def bind_eq_Some_conv split: list.splits answer.splits if_splits)

lemma polls_ask_recv: "ask_recv w c n = Some (r, bs, w') \<Longrightarrow> call_wait_ok fd c \<Longrightarrow> polls fd w w'"
  by (auto simp: ask_recv_def ask_def polls_def bind_eq_Some_conv split: list.splits answer.splits if_splits)

lemma call_wait_ok_simps [simp]:
  "call_wait_ok fd Call_socket" "call_wait_ok fd (Call_fcntl e)" "call_wait_ok fd (Call_close e)" "call_wait_ok fd (Call_accept e)"
  "call_wait_ok fd (Call_connect e)" "call_wait_ok fd (Call_recv e n)" "call_wait_ok fd (Call_read e n)" "call_wait_ok fd (Call_recvfrom e n)"
  "call_wait_ok fd (Call_send e s)" "call_wait_ok fd (Call_write e s)" "call_wait_ok fd (Call_sendto e s)"
  by (simp_all add: call_wait_ok_def)

lemma call_wait_ok_poll: "call_wait_ok fd (Wait fd readable)" "call_wait_ok fd (Wait fd writable)"
  by (simp_all add: call_wait_ok_def POLLIN_def POLLOUT_def POLLERR_def POLLHUP_def)

lemma polls_poll:
  "nty_poll_inner w fd readable = Some w' \<Longrightarrow> polls fd w w'" "nty_poll_inner w fd writable = Some w' \<Longrightarrow> polls fd w w'"
  using call_wait_ok_poll by (auto simp: nty_poll_inner_def polls_def split: if_splits)

lemma send_loop_polls:
  assumes "\<And>w bs r w'. f w bs = Some (r, w') \<Longrightarrow> polls fd w w'" and "send_loop w f fd buf sent ret = Some y"
  shows "polls fd w (snd y)"
proof -
  have "f = f \<longrightarrow> fd = fd \<longrightarrow> polls fd w (snd y)"
    by (rule send_loop.raw_induct [where P = "\<lambda>w g e buf sent ret y. g = f \<longrightarrow> e = fd \<longrightarrow> polls fd w (snd y)", OF _ assms(2)])
      (auto simp: bind_eq_Some_conv split: if_splits dest!: assms(1) polls_poll elim: polls_trans; metis polls_trans)
  then show ?thesis by simp
qed

lemma accept_loop_polls:
  assumes "\<And>w r w'. f w fd = Some (r, w') \<Longrightarrow> polls fd w w'" and "accept_loop w f fd = Some y"
  shows "polls fd w (snd y)"
proof -
  have "f = f \<longrightarrow> fd = fd \<longrightarrow> polls fd w (snd y)"
    by (rule accept_loop.raw_induct [where P = "\<lambda>w g e y. g = f \<longrightarrow> e = fd \<longrightarrow> polls fd w (snd y)", OF _ assms(2)])
      (auto simp: bind_eq_Some_conv split: if_splits dest!: assms(1) polls_poll elim: polls_trans; metis polls_trans)
  then show ?thesis by simp
qed

lemma connect_loop_polls:
  assumes "\<And>w r w'. f w fd = Some (r, w') \<Longrightarrow> polls fd w w'" and "connect_loop w f fd = Some y"
  shows "polls fd w (snd y)"
proof -
  have "f = f \<longrightarrow> fd = fd \<longrightarrow> polls fd w (snd y)"
    by (rule connect_loop.raw_induct [where P = "\<lambda>w g e y. g = f \<longrightarrow> e = fd \<longrightarrow> polls fd w (snd y)", OF _ assms(2)])
      (auto simp: bind_eq_Some_conv split: if_splits dest!: assms(1) polls_poll elim: polls_trans; metis polls_trans)
  then show ?thesis by simp
qed

lemmas polls_intros = polls_ask_val polls_ask_send polls_ask_recv polls_poll

lemma polls_chain: "polls fd w1 w2 \<Longrightarrow> polls fd w2 w3 \<Longrightarrow> polls fd w3 w4 \<Longrightarrow> polls fd w1 w4"
  by (blast intro: polls_trans)

lemma close_polls: "close w e = Some (r, w') \<Longrightarrow> polls fd w w'"
  unfolding close_def by (drule polls_ask_val [where fd = fd]) simp_all

lemma send_all_polls:
  assumes "send_all f fd w buf = Some (r, w')" and "\<And>w bs r w'. f w bs = Some (r, w') \<Longrightarrow> polls fd w w'"
  shows "polls fd w w'"
proof -
  obtain ret w1 where f: "f w buf = Some (ret, w1)" using assms(1) by (auto simp: send_all_def bind_eq_Some_conv)
  have "polls fd w1 w'"
  proof (cases "ret = 0")
    case False
    then have "send_loop w1 f fd buf (if ret > 0 then ret else 0) ret = Some (r, w')" using assms(1) f by (simp add: send_all_def)
    from send_loop_polls [OF assms(2) this] show ?thesis by simp
  qed (use assms(1) f in \<open>simp add: send_all_def\<close>)
  with assms(2) [OF f] show ?thesis by (rule polls_trans)
qed


lemma if_hook_polls:
  assumes "(if \<not> in_sched (hook w) then A else B) = Some y" and "A = Some y \<Longrightarrow> polls fd (hook w) w'"
    and "B = Some y \<Longrightarrow> polls fd (hook w) w'"
  shows "polls fd w w'"
  using assms by (simp split: if_splits)

lemma send_polls: "send w fd buf = Some (r, w') \<Longrightarrow> polls fd w w'"
  unfolding send_def Let_def
  by (erule if_hook_polls; (erule send_all_polls)?; auto dest: polls_ask_send [where fd = fd])

lemma write_polls: "write_fd w fd buf = Some (r, w') \<Longrightarrow> polls fd w w'"
  unfolding write_fd_def Let_def
  by (erule if_hook_polls; (erule send_all_polls)?; auto dest: polls_ask_send [where fd = fd])

lemma nty_send_polls: "nty_send w fd buf = Some (r, w') \<Longrightarrow> polls fd w w'"
  unfolding nty_send_def by (erule send_all_polls) (rule send_polls)

lemma sendto_polls: "sendto w fd buf = Some (r, w') \<Longrightarrow> polls fd w w'"
  unfolding sendto_def Let_def
  by (erule if_hook_polls;
      auto simp: bind_eq_Some_conv split: if_splits dest!: polls_ask_send [where fd = fd] polls_poll; metis polls_trans)

lemma recv_polls: "recv w fd n = Some (r, bs, w') \<Longrightarrow> polls fd w w'"
  unfolding recv_def Let_def
  by (erule if_hook_polls;
      auto simp: bind_eq_Some_conv split: if_splits dest!: polls_ask_recv [where fd = fd] polls_poll; metis polls_trans)

lemma read_polls: "read w fd n = Some (r, bs, w') \<Longrightarrow> polls fd w w'"
  unfolding read_def Let_def
  by (erule if_hook_polls;
      auto simp: bind_eq_Some_conv split: if_splits dest!: polls_ask_recv [where fd = fd] polls_poll; metis polls_trans)

lemma recvfrom_polls: "recvfrom w fd n = Some (r, bs, w') \<Longrightarrow> polls fd w w'"
  unfolding recvfrom_def Let_def
  by (erule if_hook_polls;
      auto simp: bind_eq_Some_conv split: if_splits dest!: polls_ask_recv [where fd = fd] polls_poll; metis polls_trans)

lemma nty_recv_polls: "nty_recv w fd n = Some (r, bs, w') \<Longrightarrow> polls fd w w'"
  unfolding nty_recv_def by (auto simp: bind_eq_Some_conv split: if_splits dest!: recv_polls polls_poll; metis polls_trans)

lemma nty_recvfrom_polls: "nty_recvfrom w fd n = Some (r, bs, w') \<Longrightarrow> polls fd w w'"
  unfolding nty_recvfrom_def by (auto simp: bind_eq_Some_conv split: if_splits dest!: recvfrom_polls polls_poll; metis polls_trans)

lemma accept_finish_polls: "accept_finish w e s = Some (r, w') \<Longrightarrow> polls fd w w'"
  unfolding accept_finish_def
  by (auto simp: bind_eq_Some_conv split: if_splits dest!: polls_ask_val [where fd = fd] close_polls [where fd = fd];
      metis polls_trans polls_hook(2))

lemma accept_polls: "accept w fd = Some (r, w') \<Longrightarrow> polls fd w w'"
  unfolding accept_def Let_def
proof (erule if_hook_polls)
  assume "do { (sockfd, w) \<leftarrow> accept_loop (hook w) (\<lambda>w fd. ask_val w (Call_accept fd)) fd; accept_finish w fd sockfd } = Some (r, w')"
  then obtain s w1 where "accept_loop (hook w) (\<lambda>w fd. ask_val w (Call_accept fd)) fd = Some (s, w1)" "accept_finish w1 fd s = Some (r, w')"
    by (auto simp: bind_eq_Some_conv)
  then show "polls fd (hook w) w'"
    using accept_loop_polls [of "\<lambda>w fd. ask_val w (Call_accept fd)" fd "hook w" "(s, w1)"] accept_finish_polls
    by (metis polls_ask_val polls_trans snd_conv call_wait_ok_simps(4))
qed (auto dest: polls_ask_val [where fd = fd])

lemma nty_accept_polls:
  assumes "nty_accept w fd = Some (r, w')"
  shows "polls fd w w'"
proof -
  obtain s w1 where "accept_loop w accept fd = Some (s, w1)" "accept_finish w1 fd s = Some (r, w')"
    using assms by (auto simp: nty_accept_def bind_eq_Some_conv split: if_splits)
  then show ?thesis using accept_loop_polls [of accept fd w "(s, w1)"] accept_polls accept_finish_polls polls_trans by (metis snd_conv)
qed

lemma connect_polls: "connect w fd = Some (r, w') \<Longrightarrow> polls fd w w'"
  unfolding connect_def Let_def
  by (erule if_hook_polls) (auto dest!: polls_ask_val [where fd = fd] connect_loop_polls [rotated] polls_ask_val [where fd = fd])

lemma nty_connect_polls: "nty_connect w fd = Some (r, w') \<Longrightarrow> polls fd w w'"
  unfolding nty_connect_def by (drule connect_loop_polls [OF connect_polls, rotated]) auto

lemma sendto_loop_polls:
  assumes "sendto_loop w fd buf sent = Some y"
  shows "polls fd w (snd y)"
proof -
  have "fd = fd \<longrightarrow> polls fd w (snd y)"
    by (rule sendto_loop.raw_induct [where P = "\<lambda>w e buf sent y. e = fd \<longrightarrow> polls fd w (snd y)", OF _ assms])
      (auto simp: bind_eq_Some_conv split: if_splits dest!: sendto_polls polls_poll elim: polls_trans; metis polls_trans)
  then show ?thesis by simp
qed

section \<open>Completing a call\<close>

lemma ask_send_Val:
  assumes "answers w = Val r # as" and "0 \<le> r" and "r \<le> int MAX_RW_COUNT" and "r \<le> int (length buf)"
  shows "\<exists>w'. ask_send w c fd buf = Some (r, w') \<and> answers w' = as \<and> in_sched w' = in_sched w \<and> in_co w' = in_co w"
  using assms by (auto simp: ask_send_def ask_val_def ask_def)

lemma ask_send_Err:
  assumes "answers w = Err e # as"
  shows "\<exists>w'. ask_send w c fd buf = Some (-1, w') \<and> answers w' = as \<and> in_sched w' = in_sched w \<and> in_co w' = in_co w"
  using assms by (auto simp: ask_send_def ask_val_def ask_def)

lemma send_loop_completes:
  assumes "in_sched w" and "in_co w" and "answers w = map Val rs @ rest" and "\<forall>r \<in> set rs. 0 < r \<and> r \<le> int MAX_RW_COUNT"
    and "0 \<le> sent" and "sent + sum_list rs = int (length buf)" and "int (length buf) \<le> INT_MAX" and "rs \<noteq> [] \<or> 0 < sent"
  shows "\<exists>w'. send_loop w (\<lambda>w bs. ask_send w (c bs) fd bs) fd buf sent ret = Some (int (length buf), w') \<and> answers w' = rest"
  using assms
proof (induction rs arbitrary: w sent ret)
  case Nil
  then show ?case by (subst send_loop.simps) (auto simp: nat_less_iff)
next
  case (Cons r rs)
  have pos: "0 < r" "r \<le> int MAX_RW_COUNT" using Cons.prems(4) by auto
  have "0 \<le> sum_list rs" using Cons.prems(4) by (intro sum_list_nonneg) auto
  then have le: "sent + r \<le> int (length buf)" using Cons.prems(6) by simp
  then have sl: "nat sent < length buf" using pos Cons.prems(5) by linarith
  let ?w1 = "w\<lparr>calls := calls w @ [Wait fd writable]\<rparr>"
  have p: "nty_poll_inner w fd writable = Some ?w1" using Cons.prems(1,2) by (simp add: nty_poll_inner_def)
  obtain w2 where w2: "ask_send ?w1 (c (drop (nat sent) buf)) fd (drop (nat sent) buf) = Some (r, w2)" "answers w2 = map Val rs @ rest"
      "in_sched w2" "in_co w2"
    using ask_send_Val [of ?w1 r "map Val rs @ rest" "drop (nat sent) buf" "c (drop (nat sent) buf)" fd] Cons.prems(1-3,5) pos le by auto
  obtain w' where "send_loop w2 (\<lambda>w bs. ask_send w (c bs) fd bs) fd buf (sent + r) r = Some (int (length buf), w')" "answers w' = rest"
    using Cons.IH [of w2 "sent + r" r] w2 Cons.prems(4-7) pos by auto
  then show ?case using sl p w2(1) pos le Cons.prems(7) by (subst send_loop.simps) simp
qed

lemma send_all_completes:
  assumes "in_sched w" and "in_co w" and "answers w = pre @ map Val rs @ rest" and "pre = [] \<or> (\<exists>e. pre = [Err e])"
    and "\<forall>r \<in> set rs. 0 < r \<and> r \<le> int MAX_RW_COUNT" and "sum_list rs = int (length buf)" and "int (length buf) \<le> INT_MAX" and "buf \<noteq> []"
  shows "\<exists>w'. send_all (\<lambda>w bs. ask_send w (c bs) fd bs) fd w buf = Some (int (length buf), w') \<and> answers w' = rest"
proof -
  obtain r rs' where rs: "rs = r # rs'" using assms(6,8) by (cases rs) auto
  have r: "0 < r" "r \<le> int MAX_RW_COUNT" using assms(5) rs by auto
  have "0 \<le> sum_list rs'" using assms(5) rs by (intro sum_list_nonneg) auto
  then have le: "r \<le> int (length buf)" using assms(6) rs by simp
  from assms(4) show ?thesis
  proof
    assume "pre = []"
    then obtain w1 where w1: "ask_send w (c buf) fd buf = Some (r, w1)" "answers w1 = map Val rs' @ rest" "in_sched w1" "in_co w1"
      using ask_send_Val [of w r "map Val rs' @ rest" buf "c buf" fd] assms(1-3) rs r le by auto
    then show ?thesis
      using send_loop_completes [of w1 rs' rest r buf c fd r] assms(5-7) rs r by (auto simp: send_all_def)
  next
    assume "\<exists>e. pre = [Err e]"
    then obtain e w1 where w1: "ask_send w (c buf) fd buf = Some (-1, w1)" "answers w1 = map Val rs @ rest" "in_sched w1" "in_co w1"
      using ask_send_Err [of w _ "map Val rs @ rest" "c buf" fd buf] assms(1-3) by fastforce
    then show ?thesis
      using send_loop_completes [of w1 rs rest 0 buf c fd "-1"] assms(5-7) rs by (auto simp: send_all_def)
  qed
qed

lemma accept_loop_retries:
  assumes "in_sched w" and "in_co w" and "answers w = replicate k (Err EAGAIN) @ Val s # rest" and "0 \<le> s"
  shows "\<exists>w'. accept_loop w (\<lambda>w fd. ask_val w (Call_accept fd)) fd = Some (s, w') \<and> answers w' = rest \<and> in_sched w' \<and> hooked w' = hooked w \<and>
    calls w' = calls w @ concat (replicate (Suc k) [Wait fd readable, Call_accept fd])"
  using assms
proof (induction k arbitrary: w)
  case 0
  then show ?case by (subst accept_loop.simps) (simp add: nty_poll_inner_def ask_val_def ask_def)
next
  case (Suc k)
  let ?w = "w\<lparr>answers := replicate k (Err EAGAIN) @ Val s # rest, calls := calls w @ [Wait fd readable, Call_accept fd], err := EAGAIN\<rparr>"
  have "accept_loop w (\<lambda>w fd. ask_val w (Call_accept fd)) fd = accept_loop ?w (\<lambda>w fd. ask_val w (Call_accept fd)) fd"
    using Suc.prems by (subst accept_loop.simps) (simp add: nty_poll_inner_def ask_val_def ask_def)
  then show ?case using Suc.IH [of ?w] Suc.prems by auto
qed

section \<open>Composition with the scheduler\<close>

text \<open>The socket calls on a descriptor, by name.\<close>

datatype sock_op =
    Op_recv nat | Op_read nat | Op_recvfrom nat | Op_send string | Op_write string | Op_sendto string
  | Op_accept | Op_connect | Op_close
  | Op_nty_recv nat | Op_nty_recvfrom nat | Op_nty_send string | Op_nty_sendto string | Op_nty_accept | Op_nty_connect | Op_nty_close

definition result :: "(int \<times> string \<times> sock_world) option \<Rightarrow> (int \<times> sock_world) option" where
  "result x = do { (r, _, w) \<leftarrow> x; Some (r, w) }"

fun call_op :: "sock_op \<Rightarrow> sock_world \<Rightarrow> int \<Rightarrow> (int \<times> sock_world) option" where
  "call_op (Op_recv n) w fd = result (recv w fd n)"
| "call_op (Op_read n) w fd = result (read w fd n)"
| "call_op (Op_recvfrom n) w fd = result (recvfrom w fd n)"
| "call_op (Op_send s) w fd = send w fd s"
| "call_op (Op_write s) w fd = write_fd w fd s"
| "call_op (Op_sendto s) w fd = sendto w fd s"
| "call_op Op_accept w fd = accept w fd"
| "call_op Op_connect w fd = connect w fd"
| "call_op Op_close w fd = close w fd"
| "call_op (Op_nty_recv n) w fd = result (nty_recv w fd n)"
| "call_op (Op_nty_recvfrom n) w fd = result (nty_recvfrom w fd n)"
| "call_op (Op_nty_send s) w fd = nty_send w fd s"
| "call_op (Op_nty_sendto s) w fd = nty_sendto w fd s"
| "call_op Op_nty_accept w fd = nty_accept w fd"
| "call_op Op_nty_connect w fd = nty_connect w fd"
| "call_op Op_nty_close w fd = nty_close w fd"

lemma result_Some: "result x = Some (r, w) \<longleftrightarrow> (\<exists>bs. x = Some (r, bs, w))"
  by (auto simp: result_def bind_eq_Some_conv)

lemma call_op_polls:
  assumes "call_op op w fd = Some (r, w')"
  shows "polls fd w w'"
proof (cases op)
  case (Op_nty_sendto s)
  then show ?thesis using sendto_loop_polls [of w fd s 0 "(r, w')"] assms by (simp add: nty_sendto_def)
qed (use assms in \<open>auto simp: result_Some nty_close_def intro: recv_polls read_polls recvfrom_polls send_polls write_polls
    sendto_polls accept_polls connect_polls close_polls nty_recv_polls nty_recvfrom_polls nty_send_polls nty_accept_polls
    nty_connect_polls\<close>)

text \<open>What a sequence of calls is for the scheduler.\<close>

fun acts_of :: "syscall list \<Rightarrow> act list" where
  "acts_of [] = []"
| "acts_of (Wait fd ev # cs) = Poll [(fd, ev)] 1 # acts_of cs"
| "acts_of (_ # cs) = acts_of cs"

lemma acts_of_append: "acts_of (cs @ ds) = acts_of cs @ acts_of ds"
  by (induction cs rule: acts_of.induct) simp_all

lemma acts_of_good: "list_all (call_wait_ok fd) cs \<Longrightarrow> good_script (acts_of cs) \<and> script_fds (acts_of cs) \<subseteq> {fd}"
  by (induction cs rule: acts_of.induct) (auto simp: call_wait_ok_def good_script_def)

section \<open>Properties\<close>

text \<open>
  C31. The sending calls keep the order of the bytes: of a positive result the first bytes of the
  buffer, as many as the result says, are taken by the kernel after what was sent before, and of
  another result none. This holds of \<open>send\<close>, \<open>write\<close> and \<open>nty_send\<close> under the same scheduler or none,
  whatever the kernel answers.
\<close>

theorem send_takes_prefix:
  assumes "f \<in> {send, write_fd, nty_send}" and "f w fd buf = Some (r, w')"
  shows "r \<le> int (length buf) \<and> sent_to w' = (sent_to w)(fd := sent_to w fd @ take (nat r) buf)"
  using assms h_send.f_takes [of w fd buf r w'] h_write.f_takes [of w fd buf r w'] n_send.f_takes [of w fd buf r w']
  by (auto simp: takes_def)

definition demo_world :: "answer list \<Rightarrow> sock_world" where
  "demo_world as = \<lparr>hooked = False, in_sched = True, in_co = True, err = EOTHER, answers = as, calls = [], sent_to = (\<lambda>_. [])\<rparr>"

lemmas sock_eval = demo_world_def send_def write_fd_def nty_send_def send_all_def send_loop.simps ask_send_def ask_val_def ask_def
  hook_def init_hook_def nty_poll_inner_def MAX_RW_COUNT_def INT_MAX_def

theorem send_takes_prefix_witness:
  "send \<in> {send, write_fd, nty_send} \<and> (\<exists>w'. send (demo_world [Val 2, Err ECONNRESET]) 7 ''abc'' = Some (2, w') \<and> sent_to w' 7 = ''ab'')"
proof -
  obtain w' where s: "send (demo_world [Val 2, Err ECONNRESET]) 7 ''abc'' = Some (2, w')" by (simp add: sock_eval)
  with send_takes_prefix [of send "demo_world [Val 2, Err ECONNRESET]" 7 "''abc''" 2 w'] show ?thesis by (simp add: demo_world_def)
qed

text \<open>
  C32. A send completes: when the kernel takes some bytes at every attempt, but for a first one that
  may fail, and all of them together, \<open>send\<close> returns the length of the buffer and everything has
  been taken.
\<close>

theorem send_completes:
  assumes "in_sched w" and "in_co w" and "answers w = pre @ map Val rs @ rest" and "pre = [] \<or> (\<exists>e. pre = [Err e])"
    and "\<forall>r \<in> set rs. 0 < r \<and> r \<le> int MAX_RW_COUNT" and "sum_list rs = int (length buf)" and "int (length buf) \<le> INT_MAX" and "buf \<noteq> []"
  shows "\<exists>w'. send w fd buf = Some (int (length buf), w') \<and> answers w' = rest \<and> sent_to w' = (sent_to w)(fd := sent_to w fd @ buf)"
proof -
  obtain w' where "send_all (\<lambda>w bs. ask_send w (Call_send fd bs) fd bs) fd (hook w) buf = Some (int (length buf), w')" "answers w' = rest"
    using send_all_completes [of "hook w" pre rs rest buf "Call_send fd" fd] assms by auto
  then have s: "send w fd buf = Some (int (length buf), w')" "answers w' = rest" using assms(1) by (simp_all add: send_def)
  with h_send.f_takes [OF s(1)] show ?thesis by (simp add: takes_def)
qed

theorem send_completes_witness:
  "in_sched (demo_world [Err EAGAIN, Val 2, Val 1]) \<and> in_co (demo_world [Err EAGAIN, Val 2, Val 1]) \<and>
   answers (demo_world [Err EAGAIN, Val 2, Val 1]) = [Err EAGAIN] @ map Val [2, 1] @ [] \<and>
   2 \<le> int MAX_RW_COUNT \<and> sum_list [2, 1] = int (length ''abc'') \<and> int (length ''abc'') \<le> INT_MAX \<and>
   (\<exists>w'. send (demo_world [Err EAGAIN, Val 2, Val 1]) 7 ''abc'' = Some (3, w') \<and> sent_to w' 7 = ''abc'')"
  using send_completes [of "demo_world [Err EAGAIN, Val 2, Val 1]" "[Err EAGAIN]" "[2, 1]" "[]" "''abc''" 7]
  by (auto simp: demo_world_def MAX_RW_COUNT_def INT_MAX_def)

text \<open>
  Accepting in a coroutine waits until there is a connection: after any number of attempts that
  would block it returns the connection, made non-blocking, having waited for the listening
  descriptor before every attempt.
\<close>

theorem accept_waits_for_connection:
  assumes "in_sched w" and "in_co w" and "answers w = replicate k (Err EAGAIN) @ Val s # Val 0 # rest" and "0 \<le> s"
  shows "\<exists>w'. accept w fd = Some (s, w') \<and> answers w' = rest \<and>
    calls w' = calls w @ concat (replicate (Suc k) [Wait fd readable, Call_accept fd]) @ [Call_fcntl s, Call_setsockopt fd]"
proof -
  obtain w1 where "accept_loop (hook w) (\<lambda>w fd. ask_val w (Call_accept fd)) fd = Some (s, w1)" "answers w1 = Val 0 # rest"
      "calls w1 = calls w @ concat (replicate (Suc k) [Wait fd readable, Call_accept fd])"
    using accept_loop_retries [of "hook w" k s "Val 0 # rest" fd] assms by auto
  then show ?thesis using assms by (simp add: accept_def accept_finish_def ask_val_def ask_def setsockopt_def)
qed

theorem accept_waits_for_connection_witness:
  "in_sched (demo_world [Err EAGAIN, Val 9, Val 0]) \<and> in_co (demo_world [Err EAGAIN, Val 9, Val 0]) \<and>
   answers (demo_world [Err EAGAIN, Val 9, Val 0]) = replicate 1 (Err EAGAIN) @ Val 9 # Val 0 # [] \<and>
   (\<exists>w'. accept (demo_world [Err EAGAIN, Val 9, Val 0]) 3 = Some (9, w') \<and>
      calls w' = [Wait 3 readable, Call_accept 3, Wait 3 readable, Call_accept 3, Call_fcntl 9, Call_setsockopt 3])"
  using accept_waits_for_connection [of "demo_world [Err EAGAIN, Val 9, Val 0]" 1 9 "[]" 3] by (auto simp: demo_world_def)

text \<open>
  C33. The socket calls keep the rules of the scheduler: whatever the kernel answers, a call on a
  descriptor waits for this descriptor only, for one event at a time and with the timeout that
  leaves the tree of sleeping coroutines alone, so that functions made of socket calls are of the
  kind for which the scheduler is safe and ends.
\<close>

theorem socket_calls_schedulable:
  assumes "call_op op w fd = Some (r, w')"
  shows "\<exists>cs. calls w' = calls w @ cs \<and> good_script (acts_of cs) \<and> script_fds (acts_of cs) \<subseteq> {fd}"
  using call_op_polls [OF assms] acts_of_good by (auto simp: polls_def)

theorem socket_calls_schedulable_witness:
  "\<exists>w'. call_op (Op_recv 10) (demo_world [Data ''hi'']) 5 = Some (2, w') \<and>
     (\<exists>cs. calls w' = cs \<and> good_script (acts_of cs) \<and> script_fds (acts_of cs) \<subseteq> {5})"
proof -
  obtain w' where c: "call_op (Op_recv 10) (demo_world [Data ''hi'']) 5 = Some (2, w')"
    by (simp add: result_def recv_def ask_recv_def sock_eval)
  with socket_calls_schedulable [OF c] show ?thesis by (simp add: demo_world_def)
qed

text \<open>
  The calls of the library go through the replacements: in a coroutine \<open>nty_recv\<close> is \<open>recv\<close> with a
  wait in front, and a complete \<open>send\<close> is a complete \<open>nty_send\<close> with the same calls of the kernel.
\<close>

theorem nty_calls_agree:
  assumes "in_sched w" and "in_co w"
  shows "nty_recv w fd len = recv (w\<lparr>calls := calls w @ [Wait fd readable]\<rparr>) fd len \<and>
    (\<forall>w'. send w fd buf = Some (int (length buf), w') \<longrightarrow> nty_send w fd buf = Some (int (length buf), w'))"
proof
  have "recv w1 fd len = Some (r, bs, w') \<Longrightarrow> in_sched w1 \<Longrightarrow> r < 0 \<Longrightarrow> r = -1" for w1 r bs w'
    by (auto simp: recv_def ask_recv_def bind_eq_Some_conv split: if_splits answer.splits)
  then show "nty_recv w fd len = recv (w\<lparr>calls := calls w @ [Wait fd readable]\<rparr>) fd len"
    using assms by (cases "recv (w\<lparr>calls := calls w @ [Wait fd readable]\<rparr>) fd len") (auto simp: nty_recv_def nty_poll_inner_def)
  show "\<forall>w'. send w fd buf = Some (int (length buf), w') \<longrightarrow> nty_send w fd buf = Some (int (length buf), w')"
    by (auto simp: nty_send_def send_all_def send_loop.simps)
qed

theorem nty_calls_agree_witness:
  "in_sched (demo_world [Val 3]) \<and> in_co (demo_world [Val 3]) \<and>
   (\<exists>w'. send (demo_world [Val 3]) 7 ''abc'' = Some (3, w') \<and> nty_send (demo_world [Val 3]) 7 ''abc'' = Some (3, w'))"
proof -
  obtain w' where s: "send (demo_world [Val 3]) 7 ''abc'' = Some (3, w')" by (simp add: sock_eval)
  then show ?thesis using nty_calls_agree [of "demo_world [Val 3]" 7 0 "''abc''"] by (simp add: demo_world_def)
qed

text \<open>
  A socket that cannot be made non-blocking is lost: \<open>socket\<close> closes the failed result of \<open>fcntl\<close>
  instead of the descriptor, which stays open while the caller gets -1.
\<close>

theorem socket_leaks_descriptor:
  assumes "in_sched w" and "0 \<le> s" and "answers w = Val s # Err e # a # rest" and "a = Val 0 \<or> a = Err e'"
  shows "\<exists>w'. socket w = Some (-1, w') \<and> calls w' = calls w @ [Call_socket, Call_fcntl s, Call_close (-1)]"
  using assms by (auto simp: socket_def ask_val_def ask_def close_def hook_def init_hook_def)

theorem socket_leaks_descriptor_witness:
  "in_sched (demo_world [Val 4, Err EOTHER, Err EOTHER]) \<and>
   (\<exists>w'. socket (demo_world [Val 4, Err EOTHER, Err EOTHER]) = Some (-1, w') \<and> calls w' = [Call_socket, Call_fcntl 4, Call_close (-1)])"
  using socket_leaks_descriptor [of "demo_world [Val 4, Err EOTHER, Err EOTHER]" 4 EOTHER "Err EOTHER" "[]" EOTHER]
  by (auto simp: demo_world_def)

end
