(* ===== verification/Nty_Entry.thy ===== *)
theory Nty_Entry
  imports Net Nty_Socket Nty_Loop "HOL-Library.Sublist"
begin

text \<open>
  The coroutine front end (\<open>nty_entry.c\<close>) as it is put together: the coroutine that accepts and the
  coroutines that serve a connection, written with the socket calls of \<open>Nty_Socket\<close>, handing requests
  to \<open>kvstore_requese\<close>, and run by the scheduler of \<open>Nty_Loop\<close>.
\<close>

section \<open>Reader\<close>

text \<open>
  The function of a reader, with the kernel's answers to its calls in the state. Other coroutines
  handle their requests while this one waits: what they have done to the engines when a request is
  handled is the next element of \<open>es\<close>. \<open>None\<close> is undefined behaviour or a reader that does not come to
  an end with the answers given.
\<close>

partial_function (option) reader_loop ::
  "sock_world \<Rightarrow> kvserver \<Rightarrow> (kvserver \<Rightarrow> kvserver) list \<Rightarrow> int \<Rightarrow> (sock_world \<times> kvserver) outcome option" where
  "reader_loop w S es fd =
     do { (ret, buf, w) \<leftarrow> recv w fd BUFFER_LENGTH;
          if ret > 0 then (case es of
            [] \<Rightarrow> None
          | e # es \<Rightarrow>
              do { out \<leftarrow> kvstore_requese (e S) (zero_item\<lparr>rbuffer := recv_into (rbuffer zero_item) buf\<rparr>);
                   case out of
                     Aborted \<Rightarrow> Some Aborted
                   | Returned (item, S) \<Rightarrow>
                       do { (ret, w) \<leftarrow> send w fd (wbuffer item);
                            if ret = -1 then do { (_, w) \<leftarrow> close w fd; Some (Returned (w, S)) }
                            else reader_loop w S es fd } })
          else if ret = 0 then do { (_, w) \<leftarrow> close w fd; Some (Returned (w, S)) }
          else reader_loop w S es fd }"

section \<open>Server\<close>

text \<open>What a coroutine has done between two states of its calls, for the scheduler.\<close>

definition acts_since :: "sock_world \<Rightarrow> sock_world \<Rightarrow> act list" where
  "acts_since w w' = acts_of (drop (length (calls w)) (calls w'))"

text \<open>
  What a connection meets: the answers to its reader, the engines, what others do to them, and, for a
  client that stays connected, the number of waits of its reader that end; the next one does not. Every
  behaviour of a reader up to a wait is covered: the wait could end with a closed connection, and with
  it the reader.
\<close>

type_synonym client = "sock_world \<times> kvserver \<times> (kvserver \<Rightarrow> kvserver) list \<times> nat option"

fun reader_acts :: "nat option \<Rightarrow> act list \<Rightarrow> act list" where
  "reader_acts None s = s"
| "reader_acts (Some k) s = take (Suc k) s"

fun left_waiting :: "nat option \<Rightarrow> act list \<Rightarrow> bool" where
  "left_waiting None s \<longleftrightarrow> False"
| "left_waiting (Some k) s \<longleftrightarrow> k < length s"

text \<open>
  The loop of \<open>server\<close>, which has no end: after any number of connections the coroutine waits for
  the next one. Results are its acts with the readers it creates, the descriptors of the connections
  and the descriptors for which a coroutine is left waiting, its own the last.
\<close>

fun server_loop :: "sock_world \<Rightarrow> int \<Rightarrow> client list \<Rightarrow> (act list \<times> int list \<times> int list) option" where
  "server_loop w fd [] =
     do { w1 \<leftarrow> nty_poll_inner (hook w) fd readable; Some (acts_since w w1, [], if in_sched w then [fd] else []) }"
| "server_loop w fd ((wc, S, es, stop) # cs) =
     do { (cli_fd, w1) \<leftarrow> accept w fd;
          out \<leftarrow> reader_loop wc S es cli_fd;
          case out of
            Aborted \<Rightarrow> None
          | Returned (wc', _) \<Rightarrow>
              do { (acts, fds, stay) \<leftarrow> server_loop w1 fd cs;
                   let s = acts_since wc wc';
                   Some (acts_since w w1 @ Create (reader_acts stop s) # acts, cli_fd # fds,
                         if left_waiting stop s then cli_fd # stay else stay) } }"

definition nty_server :: "sock_world \<Rightarrow> client list \<Rightarrow> (act list \<times> int list \<times> int list) option" where
  "nty_server w cs =
     do { (fd, w1) \<leftarrow> socket w;
          if fd < 0 then Some ([], [], [])
          else do { (acts, fds, stay) \<leftarrow> server_loop w1 fd cs; Some (acts_since w w1 @ acts, fd # fds, stay) } }"

definition ntyco_enrty :: "act list \<Rightarrow> int \<Rightarrow> int \<Rightarrow> 64 word \<Rightarrow> epoll_answer list list \<Rightarrow> run_result option" where
  "ntyco_enrty server pfd efd t ass = do { sched \<leftarrow> create_all None [server] pfd efd t; nty_schedule_run sched ass }"

section \<open>Scripts\<close>

lemma acts_since_refl [simp]: "acts_since w w = []"
  by (simp add: acts_since_def)

text \<open>Acts that wait for one descriptor.\<close>

definition polls_only :: "int \<Rightarrow> act list \<Rightarrow> bool" where
  "polls_only fd s \<longleftrightarrow> list_all (\<lambda>a. \<exists>ev. a = Poll [(fd, ev)] 1 \<and> (ev AND POLLIN \<noteq> 0 \<or> ev AND POLLOUT \<noteq> 0)) s"

lemma polls_acts:
  assumes "polls fd w w'"
  shows "polls_only fd (acts_since w w')"
proof -
  obtain cs where cs: "acts_since w w' = acts_of cs" "list_all (call_wait_ok fd) cs"
    using assms by (auto simp: polls_def acts_since_def)
  from cs(2) show ?thesis unfolding cs(1) polls_only_def by (induction cs rule: acts_of.induct) (auto simp: call_wait_ok_def)
qed

lemma polls_only_script:
  assumes "polls_only fd s"
  shows "list_all act_ok s" and "script_fds s \<subseteq> {fd}" and "creates s = 0"
    and "acts_apart (s @ t) \<longleftrightarrow> acts_apart t" and "polls_only fd (reader_acts stop s)"
    and "t \<noteq> [] \<Longrightarrow> stays I (s @ t) = stays I t" and "stays I s = (if s \<noteq> [] \<and> fd \<in> I then 1 else 0)"
proof -
  from assms show "list_all act_ok s" "script_fds s \<subseteq> {fd}" "creates s = 0" "acts_apart (s @ t) \<longleftrightarrow> acts_apart t"
      "stays I s = (if s \<noteq> [] \<and> fd \<in> I then 1 else 0)"
    unfolding polls_only_def by (induction s) auto
  show "stays I (s @ t) = stays I t" if "t \<noteq> []" using assms that unfolding polls_only_def by (induction s) auto
  show "polls_only fd (reader_acts stop s)"
    using assms by (cases stop) (auto simp: polls_only_def list_all_iff dest: in_set_takeD)
qed

lemma socket_polls:
  assumes "socket w = Some (r, w')"
  shows "polls fd w w'"
proof (cases "in_sched (hook w)")
  case True
  obtain e w1 where e: "ask_val (hook w) Call_socket = Some (e, w1)" using assms True by (auto simp: socket_def bind_eq_Some_conv)
  then have p: "polls fd w w1" using polls_ask_val [of "hook w" Call_socket e w1 fd] by simp
  show ?thesis
  proof (cases "e = -1")
    case False
    then obtain x w2 where x: "ask_val w1 (Call_fcntl e) = Some (x, w2)" using assms True e by (auto simp: socket_def bind_eq_Some_conv)
    then have "polls fd w w2" using polls_trans [OF p] polls_ask_val [of w1 "Call_fcntl e" x w2 fd] by simp
    then show ?thesis using assms True False e x polls_trans [of fd w w2] close_polls [of w2 x _ w' fd]
      by (auto simp: socket_def bind_eq_Some_conv split: if_splits)
  qed (use assms True e p in \<open>auto simp: socket_def\<close>)
next
  case False
  then show ?thesis using assms polls_ask_val [of "hook w" Call_socket r w' fd] by (simp add: socket_def)
qed

text \<open>Induction over the turns of a reader that comes to its end.\<close>

lemma reader_induct:
  assumes run: "reader_loop w S es fd = Some (Returned (w', S'))"
    and Retry: "\<And>w S es ret buf w1. recv w fd BUFFER_LENGTH = Some (ret, buf, w1) \<Longrightarrow> ret < 0 \<Longrightarrow> P w1 S es \<Longrightarrow> P w S es"
    and Served: "\<And>w S e es ret buf w1 item S1 r w2. recv w fd BUFFER_LENGTH = Some (ret, buf, w1) \<Longrightarrow> 0 < ret \<Longrightarrow>
      kvstore_requese (e S) (zero_item\<lparr>rbuffer := recv_into (rbuffer zero_item) buf\<rparr>) = Some (Returned (item, S1)) \<Longrightarrow>
      send w1 fd (wbuffer item) = Some (r, w2) \<Longrightarrow> r \<noteq> -1 \<Longrightarrow> P w2 S1 es \<Longrightarrow> P w S (e # es)"
    and Failed: "\<And>w S e es ret buf w1 item w2 x. recv w fd BUFFER_LENGTH = Some (ret, buf, w1) \<Longrightarrow> 0 < ret \<Longrightarrow>
      kvstore_requese (e S) (zero_item\<lparr>rbuffer := recv_into (rbuffer zero_item) buf\<rparr>) = Some (Returned (item, S')) \<Longrightarrow>
      send w1 fd (wbuffer item) = Some (-1, w2) \<Longrightarrow> close w2 fd = Some (x, w') \<Longrightarrow> P w S (e # es)"
    and Closed: "\<And>w es buf w1 x. recv w fd BUFFER_LENGTH = Some (0, buf, w1) \<Longrightarrow> close w1 fd = Some (x, w') \<Longrightarrow> P w S' es"
  shows "P w S es"
proof -
  have "fd = fd \<longrightarrow> Returned (w', S') = Returned (w', S') \<longrightarrow> P w S es"
  proof (rule reader_loop.raw_induct [where P = "\<lambda>w S es f out. f = fd \<longrightarrow> out = Returned (w', S') \<longrightarrow> P w S es", OF _ run])
    fix rl w S es f and out :: "(sock_world \<times> kvserver) outcome"
    assume IH: "\<And>w S es f out. rl w S es f = Some out \<Longrightarrow> f = fd \<longrightarrow> out = Returned (w', S') \<longrightarrow> P w S es"
      and body: "do { (ret, buf, w) \<leftarrow> recv w f BUFFER_LENGTH;
          if ret > 0 then (case es of
            [] \<Rightarrow> None
          | e # es \<Rightarrow>
              do { out \<leftarrow> kvstore_requese (e S) (zero_item\<lparr>rbuffer := recv_into (rbuffer zero_item) buf\<rparr>);
                   case out of
                     Returned (item, S) \<Rightarrow>
                       do { (ret, w) \<leftarrow> send w f (wbuffer item);
                            if ret = -1 then do { (_, w) \<leftarrow> close w f; Some (Returned (w, S)) } else rl w S es f }
                   | Aborted \<Rightarrow> Some Aborted })
          else if ret = 0 then do { (_, w) \<leftarrow> close w f; Some (Returned (w, S)) }
          else rl w S es f } = Some out"
    show "f = fd \<longrightarrow> out = Returned (w', S') \<longrightarrow> P w S es"
    proof (intro impI)
      assume f: "f = fd" "out = Returned (w', S')"
      obtain ret buf w1 where r: "recv w fd BUFFER_LENGTH = Some (ret, buf, w1)" using body f by (auto simp: bind_eq_Some_conv)
      consider "ret < 0" | "ret = 0" | "0 < ret" by linarith
      then show "P w S es"
      proof cases
        case 1
        then show ?thesis using body f r IH Retry [OF r] by simp
      next
        case 2
        then show ?thesis using body f r Closed by (auto simp: bind_eq_Some_conv)
      next
        case 3
        obtain e es' out1 where e: "es = e # es'"
          and k: "kvstore_requese (e S) (zero_item\<lparr>rbuffer := recv_into (rbuffer zero_item) buf\<rparr>) = Some out1"
          using body f r 3 by (auto simp: bind_eq_Some_conv split: list.splits)
        obtain item S1 where i: "out1 = Returned (item, S1)" using body f r 3 e k by (cases out1) auto
        obtain x w2 where s: "send w1 fd (wbuffer item) = Some (x, w2)" using body f r 3 e k i by (auto simp: bind_eq_Some_conv)
        show ?thesis
        proof (cases "x = -1")
          case True
          then obtain y where "close w2 fd = Some (y, w')" "S1 = S'" using body f r 3 e k i s by (auto simp: bind_eq_Some_conv)
          then show ?thesis using Failed [OF r 3] k i s True e by simp
        next
          case False
          then have "rl w2 S1 es' fd = Some (Returned (w', S'))" using body f r 3 e k i s by simp
          then show ?thesis using Served [OF r 3] k i s False e IH by simp
        qed
      qed
    qed
  qed
  then show ?thesis by simp
qed

lemma reader_loop_polls:
  assumes "reader_loop w S es fd = Some (Returned (w', S'))"
  shows "polls fd w w'"
  by (rule reader_induct [OF assms]) (meson recv_polls send_polls close_polls polls_trans)+

lemma reader_stays:
  assumes "polls_only fd s"
  shows "stays I (reader_acts stop s) = (if reader_acts stop s \<noteq> [] \<and> fd \<in> I then 1 else 0)"
    and "left_waiting stop s \<Longrightarrow> reader_acts stop s \<noteq> []"
  using polls_only_script(5,7) [OF assms] polls_only_script(7) [OF polls_only_script(5) [OF assms]] by (auto elim!: left_waiting.elims)

lemma server_loop_script:
  assumes "server_loop w fd cs = Some (acts, fds, stay)" and "distinct fds" and "fd \<notin> set fds"
  shows "list_all act_ok acts \<and> acts_apart acts \<and> script_fds acts \<subseteq> insert fd (set fds) \<and> creates acts = length cs \<and>
    distinct stay \<and> set stay \<subseteq> insert fd (set fds) \<and>
    (\<forall>I. I \<inter> insert fd (set fds) = set stay \<longrightarrow> stays I acts = length stay)"
  using assms
proof (induction w fd cs arbitrary: acts fds stay rule: server_loop.induct)
  case (1 w fd)
  then obtain w1 where w1: "nty_poll_inner (hook w) fd readable = Some w1" "acts = acts_since w w1" "fds = []"
      "stay = (if in_sched w then [fd] else [])"
    by (auto simp: bind_eq_Some_conv)
  have "polls fd w w1" using polls_poll(1) [OF w1(1)] by simp
  note p = polls_only_script [OF polls_acts [OF this]]
  have "acts \<noteq> [] \<longleftrightarrow> in_sched w" using w1(1,2) by (auto simp: nty_poll_inner_def acts_since_def split: if_splits)
  then have "stays I acts = length stay" if "I \<inter> insert fd (set fds) = set stay" for I
    using that p(7) [of I] w1(2-4) by (auto split: if_splits)
  then show ?case using p(1-3) p(4) [of "[]"] w1(2-4) by auto
next
  case (2 w fd wc S es stop cs)
  obtain c w1 out where c: "accept w fd = Some (c, w1)" "reader_loop wc S es c = Some out"
    using 2(2) by (auto simp: bind_eq_Some_conv)
  obtain wc' S' where out: "out = Returned (wc', S')" using 2(2) c by (cases out) auto
  let ?r = "acts_since wc wc'" and ?p = "acts_since w w1"
  obtain as gs st where a: "server_loop w1 fd cs = Some (as, gs, st)" "acts = ?p @ Create (reader_acts stop ?r) # as" "fds = c # gs"
      "stay = (if left_waiting stop ?r then c # st else st)"
    using 2(2) c out by (auto simp: bind_eq_Some_conv Let_def)
  note p = polls_only_script [OF polls_acts [OF accept_polls [OF c(1)]]]
  have pr: "polls_only c ?r" by (rule polls_acts [OF reader_loop_polls [OF c(2) [unfolded out]]])
  note q = polls_only_script [OF polls_only_script(5) [OF pr, of stop]] and rs = reader_stays [OF pr]
  have as: "list_all act_ok as" "acts_apart as" "script_fds as \<subseteq> insert fd (set gs)" "creates as = length cs"
      "distinct st" "set st \<subseteq> insert fd (set gs)" "\<And>I. I \<inter> insert fd (set gs) = set st \<Longrightarrow> stays I as = length st"
    using 2(1) [OF c(1) refl c(2) [unfolded out] refl refl a(1)] 2(3,4) a(3) by simp_all
  have cg: "c \<notin> set gs" "c \<noteq> fd" "c \<notin> set st" using 2(3,4) a(3) as by auto
  have "acts_apart (reader_acts stop ?r)" using q(4) [of "[]"] by simp
  moreover have "creates acts = Suc (creates as)" using p(3) q(3) unfolding a(2) by simp
  moreover have "script_fds (reader_acts stop ?r) \<inter> script_fds as = {}"
  proof -
    have "{c} \<inter> insert fd (set gs) = {}" using cg by simp
    then show ?thesis using q(2) as(3) by (metis (no_types, lifting) Int_mono subset_empty)
  qed
  moreover have "distinct stay" "set stay \<subseteq> insert fd (set fds)" using as cg a(3,4) by auto
  moreover have "stays I acts = length stay" if I: "I \<inter> insert fd (set fds) = set stay" for I
  proof -
    have "stays I acts = stays I (reader_acts stop ?r) + stays I as" unfolding a(2) using p(6) [of "Create (reader_acts stop ?r) # as" I] by simp
    moreover have x: "x \<in> I \<and> (x = fd \<or> x = c \<or> x \<in> set gs) \<longleftrightarrow> x \<in> set stay" for x using I unfolding a(3) set_eq_iff by simp
    have "I \<inter> insert fd (set gs) = set st"
    proof (rule set_eqI)
      fix y
      show "y \<in> I \<inter> insert fd (set gs) \<longleftrightarrow> y \<in> set st" using x [of y] as(6) cg a(4) by (cases "y = c") (auto split: if_splits)
    qed
    moreover have "c \<in> I \<longleftrightarrow> left_waiting stop ?r" using x [of c] cg a(4) by (simp split: if_splits)
    ultimately show ?thesis using as(7) [of I] rs(1) [of I stop] rs(2) [of stop] a(4) by simp
  qed
  moreover have "list_all act_ok acts" using p(1) q(1) as(1) by (simp add: a(2))
  moreover have "acts_apart acts" unfolding a(2) p(4) using calculation(1,3) as(2) by simp
  moreover have "script_fds acts \<subseteq> insert fd (set fds)"
  proof -
    have "script_fds acts = script_fds (reader_acts stop ?r) \<union> (script_fds ?p \<union> script_fds as)" by (simp add: a(2))
    moreover have "script_fds (reader_acts stop ?r) \<subseteq> insert fd (set fds)" by (rule subset_trans [OF q(2)]) (simp add: a(3))
    moreover have "script_fds ?p \<subseteq> insert fd (set fds)" by (rule subset_trans [OF p(2)]) simp
    moreover have "script_fds as \<subseteq> insert fd (set fds)" by (rule subset_trans [OF as(3)]) (auto simp: a(3))
    ultimately show ?thesis by (simp only: Un_least)
  qed
  ultimately show ?case using as(4) by simp
qed

lemma nty_server_program:
  assumes "nty_server w cs = Some (acts, fds, stay)" and "distinct fds" and "int (length cs) < INT_MAX"
    and "0 < pfd" and "0 < efd" and "efd \<notin> set fds"
  shows "program_ok pfd efd [acts]" and "distinct stay" and "stays (set stay) acts = length stay"
proof -
  obtain fd w1 where s: "socket w = Some (fd, w1)" using assms(1) by (auto simp: nty_server_def bind_eq_Some_conv)
  have "program_ok pfd efd [acts] \<and> distinct stay \<and> stays (set stay) acts = length stay"
  proof (cases "fd < 0")
    case True
    then have "acts = []" "stay = []" using assms(1) s by (simp_all add: nty_server_def)
    then show ?thesis using assms(4,5) by (simp add: program_ok_def good_script_def INT_MAX_def)
  next
    case False
    then obtain as gs where a: "server_loop w1 fd cs = Some (as, gs, stay)" "acts = acts_since w w1 @ as" "fds = fd # gs"
      using assms(1) s by (auto simp: nty_server_def bind_eq_Some_conv)
    note p = polls_only_script [OF polls_acts [OF socket_polls [OF s, of fd]]]
    have as: "list_all act_ok as" "acts_apart as" "script_fds as \<subseteq> insert fd (set gs)" "creates as = length cs"
        "distinct stay" "set stay \<subseteq> insert fd (set gs)" "\<And>I. I \<inter> insert fd (set gs) = set stay \<Longrightarrow> stays I as = length stay"
      using server_loop_script [OF a(1)] assms(2) a(3) by simp_all
    have "creates acts = length cs" using as(4) p(3) by (simp add: a(2))
    moreover have "good_script acts" unfolding good_script_def a(2) p(4) using as(1,2) p(1) by simp
    moreover have "efd \<notin> script_fds acts"
    proof -
      have "script_fds acts = script_fds (acts_since w w1) \<union> script_fds as" by (simp add: a(2))
      moreover have "efd \<notin> {fd}" "efd \<notin> insert fd (set gs)" using assms(6) a(3) by simp_all
      ultimately show ?thesis using subsetD [OF p(2)] subsetD [OF as(3)] by (metis Un_iff)
    qed
    ultimately have "program_ok pfd efd [acts]" using assms(3-5) by (simp add: program_ok_def)
    moreover have "stays (set stay) acts = length stay"
    proof -
      have "set stay \<inter> insert fd (set gs) = set stay" using as(6) by blast
      then have n: "stays (set stay) as = length stay" by (rule as(7))
      show ?thesis
      proof (cases "as = []")
        case True
        then show ?thesis using n p(7) [of "set stay"] a(2) by simp
      next
        case False
        then show ?thesis using n p(6) [of as "set stay"] a(2) by simp
      qed
    qed
    ultimately show ?thesis using as(5) by blast
  qed
  then show "program_ok pfd efd [acts]" "distinct stay" "stays (set stay) acts = length stay" by blast+
qed

section \<open>Replies\<close>

lemma ask_val_sent: "ask_val w c = Some (r, w') \<Longrightarrow> sent_to w' = sent_to w"
  by (auto simp: ask_val_def ask_def bind_eq_Some_conv split: list.splits answer.splits if_splits)

lemma close_sent: "close w fd = Some (r, w') \<Longrightarrow> sent_to w' = sent_to w"
  unfolding close_def by (drule ask_val_sent) simp

lemma ask_recv_sent: "ask_recv w c n = Some (r, buf, w') \<Longrightarrow> sent_to w' = sent_to w"
  by (auto simp: ask_recv_def ask_def bind_eq_Some_conv split: list.splits answer.splits if_splits)

lemma poll_sent: "nty_poll_inner w fd ev = Some w' \<Longrightarrow> sent_to w' = sent_to w"
  by (auto simp: nty_poll_inner_def split: if_splits)

lemma recv_sent:
  assumes "recv w fd n = Some (r, buf, w')"
  shows "sent_to w' = sent_to w"
proof (cases "in_sched (hook w)")
  case True
  then obtain w1 where "nty_poll_inner (hook w) fd readable = Some w1" using assms by (auto simp: recv_def bind_eq_Some_conv)
  then show ?thesis using assms True poll_sent [of "hook w"] ask_recv_sent [of w1]
    by (fastforce simp: recv_def bind_eq_Some_conv split: if_splits)
next
  case False
  then show ?thesis using assms ask_recv_sent [of "hook w"] by (simp add: recv_def)
qed

lemma send_sent: "send w fd buf = Some (r, w') \<Longrightarrow> r \<le> int (length buf) \<and> sent_to w' = (sent_to w)(fd := sent_to w fd @ take (nat r) buf)"
  using h_send.f_takes by (simp add: takes_def)

text \<open>The data that the kernel has ready, and what of it a session has received.\<close>

fun datas :: "answer list \<Rightarrow> string list" where
  "datas [] = []"
| "datas (Data d # as) = d # datas as"
| "datas (_ # as) = datas as"

fun received :: "(recv_result \<times> bool) list \<Rightarrow> string list" where
  "received [] = []"
| "received ((Received d, ok) # rs) = d # received rs"
| "received ((Disconnected, ok) # rs) = [] # received rs"
| "received ((RecvError, ok) # rs) = received rs"

lemma ask_val_datas: "ask_val w c = Some (r, w') \<Longrightarrow> datas (answers w') = datas (answers w)"
  by (auto simp: ask_val_def ask_def bind_eq_Some_conv split: list.splits answer.splits if_splits)

lemma ask_send_datas: "ask_send w c fd buf = Some (r, w') \<Longrightarrow> datas (answers w') = datas (answers w)"
  by (auto simp: ask_send_def bind_eq_Some_conv split: if_splits dest: ask_val_datas)

lemma poll_datas: "nty_poll_inner w fd ev = Some w' \<Longrightarrow> answers w' = answers w"
  by (auto simp: nty_poll_inner_def split: if_splits)

lemma answers_hook [simp]: "answers (hook w) = answers w"
  by (simp add: hook_def init_hook_def)

text \<open>What the calls in the loop of a send and the waits between them keep, the send keeps.\<close>

lemma send_loop_steps:
  assumes "\<And>w bs r w'. f w bs = Some (r, w') \<Longrightarrow> R w w'" and "\<And>w ev w'. nty_poll_inner w fd ev = Some w' \<Longrightarrow> R w w'"
    and "reflp R" and "transp R" and "send_loop w f fd buf sent ret = Some y"
  shows "R w (snd y)"
proof -
  have "f = f \<longrightarrow> fd = fd \<longrightarrow> R w (snd y)"
    by (rule send_loop.raw_induct [where P = "\<lambda>w g e buf sent ret y. g = f \<longrightarrow> e = fd \<longrightarrow> R w (snd y)", OF _ assms(5)])
      (auto simp: bind_eq_Some_conv reflpD [OF assms(3)] split: if_splits dest!: assms(1,2) elim: transpD [OF assms(4)];
        metis transpD [OF assms(4)])
  then show ?thesis by simp
qed

lemma send_steps:
  assumes "send w fd buf = Some (r, w')" and ask: "\<And>w c bs r w'. ask_send w c fd bs = Some (r, w') \<Longrightarrow> R w w'"
    and poll: "\<And>w ev w'. nty_poll_inner w fd ev = Some w' \<Longrightarrow> R w w'" and R: "reflp R" "transp R" "R w (hook w)"
  shows "R w w'"
proof (cases "in_sched (hook w)")
  case True
  then obtain x w1 where x: "ask_send (hook w) (Call_send fd buf) fd buf = Some (x, w1)"
    using assms(1) by (auto simp: send_def send_all_def bind_eq_Some_conv)
  then have 1: "R w w1" using transpD [OF R(2,3) ask] by blast
  show ?thesis
  proof (cases "x = 0")
    case True
    then show ?thesis using assms(1) \<open>in_sched (hook w)\<close> x 1 by (simp add: send_def send_all_def)
  next
    case False
    then have "send_loop w1 (\<lambda>w bs. ask_send w (Call_send fd bs) fd bs) fd buf (if x > 0 then x else 0) x = Some (r, w')"
      using assms(1) True x by (simp add: send_def send_all_def)
    from send_loop_steps [OF ask poll R(1,2) this] transpD [OF R(2) 1] show ?thesis by simp
  qed
next
  case False
  then show ?thesis using assms(1) ask [of "hook w"] transpD [OF R(2,3)] by (auto simp: send_def)
qed

lemma send_datas:
  assumes "send w fd buf = Some (r, w')"
  shows "datas (answers w') = datas (answers w)"
  by (rule send_steps [OF assms, where R = "\<lambda>w w'. datas (answers w') = datas (answers w)"])
    (auto simp: reflp_def transp_def dest: ask_send_datas poll_datas)

lemma send_co:
  assumes "send w fd buf = Some (r, w')"
  shows "in_sched w' = in_sched w \<and> in_co w' = in_co w"
  by (rule send_steps [OF assms, where R = "\<lambda>w w'. in_sched w' = in_sched w \<and> in_co w' = in_co w"])
    (auto simp: reflp_def transp_def hook_def init_hook_def nty_poll_inner_def ask_send_def ask_val_def ask_def bind_eq_Some_conv
      split: if_splits list.splits answer.splits)

lemma close_datas: "close w fd = Some (r, w') \<Longrightarrow> datas (answers w') = datas (answers w)"
  unfolding close_def by (drule ask_val_datas) simp

lemma ask_recv_datas:
  "ask_recv w c n = Some (r, buf, w') \<Longrightarrow>
     (if r < 0 then r = -1 \<and> datas (answers w') = datas (answers w)
      else r = int (length buf) \<and> datas (answers w) = buf # datas (answers w'))"
  by (auto simp: ask_recv_def ask_def bind_eq_Some_conv split: list.splits answer.splits if_splits)

lemma recv_datas:
  assumes "recv w fd n = Some (r, buf, w')"
  shows "if r < 0 then datas (answers w') = datas (answers w)
    else r = int (length buf) \<and> datas (answers w) = buf # datas (answers w')"
proof (cases "in_sched (hook w)")
  case True
  then obtain w1 x where w1: "nty_poll_inner (hook w) fd readable = Some w1" and x: "ask_recv w1 (Call_recv fd n) n = Some (x, buf, w')"
      "r = x \<or> x < 0 \<and> r = -1"
    using assms by (fastforce simp: recv_def bind_eq_Some_conv split: if_splits)
  show ?thesis using ask_recv_datas [OF x(1)] x(2) poll_datas [OF w1] by (auto split: if_splits)
next
  case False
  then have "ask_recv (hook w) (Call_recv fd n) n = Some (r, buf, w')" using assms by (simp add: recv_def)
  from ask_recv_datas [OF this] show ?thesis by (auto split: if_splits)
qed

text \<open>
  A session whose requests are handled one after the other by \<open>server_reader\<close>, with what the other
  sessions have done to the engines in between.
\<close>

fun shared_reader :: "kvserver \<Rightarrow> (kvserver \<Rightarrow> kvserver) list \<Rightarrow> (recv_result \<times> bool) list \<Rightarrow> (string list \<times> kvserver \<times> bool) outcome option" where
  "shared_reader S es [] = Some (Returned ([], S, True))"
| "shared_reader S es ((Received d, ok) # rs) = (case es of
     [] \<Rightarrow> None
   | e # es \<Rightarrow> do {
       out \<leftarrow> server_reader (e S) [(Received d, ok)];
       case out of
         Aborted \<Rightarrow> Some Aborted
       | Returned (rep, S, up) \<Rightarrow>
           if \<not> up then Some (Returned (rep, S, False))
           else do {
             out \<leftarrow> shared_reader S es rs;
             case out of
               Aborted \<Rightarrow> Some Aborted
             | Returned (replies, S, up) \<Rightarrow> Some (Returned (rep @ replies, S, up)) } })"
| "shared_reader S es ((Disconnected, ok) # rs) = Some (Returned ([], S, False))"
| "shared_reader S es ((RecvError, ok) # rs) = shared_reader S es rs"

lemma shared_reader_Received:
  assumes "kvstore_requese (e S) (zero_item\<lparr>rbuffer := recv_into (rbuffer zero_item) d\<rparr>) = Some (Returned (item, S1))"
  shows "shared_reader S (e # es) ((Received d, False) # rs) = Some (Returned ([], S1, False))"
    and "shared_reader S1 es rs = Some (Returned (replies, S', up)) \<Longrightarrow>
      shared_reader S (e # es) ((Received d, True) # rs) = Some (Returned (wbuffer item # replies, S', up))"
  using assms by simp_all

lemma shared_reader_Cons:
  assumes "shared_reader S es ((Received m, True) # rs) = Some (Returned (replies, S', up))"
  obtains e es' j S1 rep where "es = e # es'" and "replies = wbuffer j # rep"
    and "kvstore_requese (e S) (zero_item\<lparr>rbuffer := recv_into (rbuffer zero_item) m\<rparr>) = Some (Returned (j, S1))"
    and "shared_reader S1 es' rs = Some (Returned (rep, S', up))"
proof (cases es)
  case (Cons e es')
  with assms that show ?thesis by (auto split: Option.bind_split_asm outcome.splits)
qed (use assms in simp)

text \<open>A session of its own is one of \<open>server_reader\<close>.\<close>

lemma shared_reader_alone:
  "\<forall>e \<in> set es. e = id \<Longrightarrow> shared_reader S es rs = Some out \<Longrightarrow> server_reader S rs = Some out"
proof (induction S es rs arbitrary: out rule: shared_reader.induct)
  case (2 S es d ok rs)
  then obtain e es' where es: "es = e # es'" "e = id" by (cases es) auto
  obtain out1 where k: "kvstore_requese S (zero_item\<lparr>rbuffer := recv_into (rbuffer zero_item) d\<rparr>) = Some out1"
    using 2(3) es by (auto simp: bind_eq_Some_conv)
  show ?case
  proof (cases out1)
    case Aborted
    then show ?thesis using 2(3) es k by simp
  next
    case (Returned p)
    obtain item S1 where p: "p = (item, S1)" by (cases p)
    show ?thesis
    proof (cases ok)
      case True
      have up: "server_reader (e S) [(Received d, ok)] = Some (Returned ([wbuffer item], S1, True))" using k Returned p es True by simp
      then obtain out2 where o: "shared_reader S1 es' rs = Some out2" using 2(3) es True by (auto simp: bind_eq_Some_conv)
      from 2(1) [OF es(1) up refl refl refl _ _ o] 2(2) es(1) have "server_reader S1 rs = Some out2" by simp
      then show ?thesis using 2(3) es k Returned p True o up by simp
    qed (use 2(3) es k Returned p in simp)
  qed
qed auto

text \<open>What a reader does: a run of the session on the data it received.\<close>

definition reader_spec :: "int \<Rightarrow> sock_world \<Rightarrow> kvserver \<Rightarrow> (kvserver \<Rightarrow> kvserver) list \<Rightarrow> sock_world \<Rightarrow> kvserver \<Rightarrow> bool" where
  "reader_spec fd w S es w' S' \<longleftrightarrow> (\<exists>rs replies ts. shared_reader S es rs = Some (Returned (replies, S', False)) \<and>
     datas (answers w) = received rs @ datas (answers w') \<and>
     list_all2 prefix ts replies \<and> sent_to w' = (sent_to w)(fd := sent_to w fd @ concat ts))"

lemma reader_implements:
  assumes "reader_loop w S es fd = Some (Returned (w', S'))"
  shows "reader_spec fd w S es w' S'"
proof (rule reader_induct [where P = "\<lambda>w S es. reader_spec fd w S es w' S'", OF assms], goal_cases)
  case (1 w S es ret buf w1)
  obtain rs replies ts where i: "shared_reader S es rs = Some (Returned (replies, S', False))"
      "datas (answers w1) = received rs @ datas (answers w')" "list_all2 prefix ts replies"
      "sent_to w' = (sent_to w1)(fd := sent_to w1 fd @ concat ts)"
    using 1(3) by (auto simp: reader_spec_def)
  have "shared_reader S es ((RecvError, True) # rs) = Some (Returned (replies, S', False))" using i(1) by simp
  moreover have "datas (answers w) = received ((RecvError, True) # rs) @ datas (answers w')"
    using recv_datas [OF 1(1)] 1(2) i(2) by simp
  ultimately show ?case using i(3,4) recv_sent [OF 1(1)] unfolding reader_spec_def by metis
next
  case (2 w S e es ret buf w1 item S1 r w2)
  obtain rs replies ts where i: "shared_reader S1 es rs = Some (Returned (replies, S', False))"
      "datas (answers w2) = received rs @ datas (answers w')" "list_all2 prefix ts replies"
      "sent_to w' = (sent_to w2)(fd := sent_to w2 fd @ concat ts)"
    using 2(6) by (auto simp: reader_spec_def)
  have "shared_reader S (e # es) ((Received buf, True) # rs) = Some (Returned (wbuffer item # replies, S', False))"
    by (rule shared_reader_Received(2) [where e = e and S = S, OF 2(3) i(1)])
  moreover have "datas (answers w) = received ((Received buf, True) # rs) @ datas (answers w')"
    using recv_datas [OF 2(1)] 2(2) send_datas [OF 2(4)] i(2) by simp
  moreover have "list_all2 prefix (take (nat r) (wbuffer item) # ts) (wbuffer item # replies)" using i(3) by (simp add: take_is_prefix)
  moreover have "sent_to w' = (sent_to w)(fd := sent_to w fd @ concat (take (nat r) (wbuffer item) # ts))"
    using recv_sent [OF 2(1)] send_sent [OF 2(4)] i(4) by simp
  ultimately show ?case unfolding reader_spec_def by blast
next
  case (3 w S e es ret buf w1 item w2 x)
  have "shared_reader S (e # es) [(Received buf, False)] = Some (Returned ([], S', False))" by (rule shared_reader_Received(1) [where e = e and S = S, OF 3(3)])
  moreover have "datas (answers w) = received [(Received buf, False)] @ datas (answers w')"
    using recv_datas [OF 3(1)] 3(2) send_datas [OF 3(4)] close_datas [OF 3(5)] by simp
  moreover have "sent_to w' = sent_to w" using recv_sent [OF 3(1)] send_sent [OF 3(4)] close_sent [OF 3(5)] by simp
  ultimately show ?case unfolding reader_spec_def by fastforce
next
  case (4 w es buf w1 x)
  have "shared_reader S' es [(Disconnected, True)] = Some (Returned ([], S', False))" by simp
  moreover have "datas (answers w) = received [(Disconnected, True)] @ datas (answers w')"
    using recv_datas [OF 4(1)] close_datas [OF 4(2)] by simp
  moreover have "sent_to w' = sent_to w" using recv_sent [OF 4(1)] close_sent [OF 4(2)] by simp
  ultimately show ?case unfolding reader_spec_def by fastforce
qed

text \<open>
  The other direction: a client that sends packets, takes its replies in pieces, the first attempt at
  each possibly in vain, and closes the connection.
\<close>

definition taken_by :: "answer list \<Rightarrow> string \<Rightarrow> bool" where
  "taken_by as reply \<longleftrightarrow> reply \<noteq> [] \<and> int (length reply) \<le> INT_MAX \<and>
     (\<exists>pre rs. as = pre @ map Val rs \<and> (pre = [] \<or> (\<exists>e. pre = [Err e])) \<and>
        (\<forall>r \<in> set rs. 0 < r \<and> r \<le> int MAX_RW_COUNT) \<and> sum_list rs = int (length reply))"

fun client_answers :: "(string \<times> answer list) list \<Rightarrow> answer list" where
  "client_answers [] = [Data [], Val 0]"
| "client_answers ((d, as) # ps) = Data d # as @ client_answers ps"

lemma recv_Data:
  assumes "in_sched w" and "in_co w" and "answers w = Data d # as" and "length d \<le> BUFFER_LENGTH"
  shows "\<exists>w'. recv w fd BUFFER_LENGTH = Some (int (length d), d, w') \<and> answers w' = as \<and> in_sched w' \<and> in_co w' \<and> sent_to w' = sent_to w"
proof -
  have "length d \<le> min BUFFER_LENGTH MAX_RW_COUNT" using assms(4) by (simp add: BUFFER_LENGTH_def MAX_RW_COUNT_def)
  then show ?thesis using assms by (simp add: recv_def nty_poll_inner_def ask_recv_def ask_def hook_def init_hook_def)
qed

lemma send_taken:
  assumes "in_sched w" and "in_co w" and "answers w = as @ rest" and "taken_by as buf"
  shows "\<exists>w'. send w fd buf = Some (int (length buf), w') \<and> answers w' = rest \<and> in_sched w' \<and> in_co w' \<and>
    sent_to w' = (sent_to w)(fd := sent_to w fd @ buf)"
proof -
  obtain pre rs where as: "as = pre @ map Val rs" "pre = [] \<or> (\<exists>e. pre = [Err e])" "\<forall>r \<in> set rs. 0 < r \<and> r \<le> int MAX_RW_COUNT"
      "sum_list rs = int (length buf)" "int (length buf) \<le> INT_MAX" "buf \<noteq> []"
    using assms(4) by (auto simp: taken_by_def)
  obtain w' where "send_all (\<lambda>w bs. ask_send w (Call_send fd bs) fd bs) fd (hook w) buf = Some (int (length buf), w')" "answers w' = rest"
    using send_all_completes [of "hook w" pre rs rest buf "Call_send fd" fd] assms(1-3) as by auto
  then have s: "send w fd buf = Some (int (length buf), w')" "answers w' = rest" using assms(1) by (simp_all add: send_def)
  with h_send.f_takes [OF s(1)] send_co [OF s(1)] assms(1,2) show ?thesis by (simp add: takes_def)
qed

lemma reader_serves:
  assumes "in_sched w" and "in_co w" and "answers w = client_answers ps" and "\<forall>(d, as) \<in> set ps. d \<noteq> [] \<and> length d \<le> BUFFER_LENGTH"
    and "shared_reader S es (reads (map fst ps)) = Some (Returned (replies, S', True))" and "list_all2 taken_by (map snd ps) replies"
  shows "\<exists>w'. reader_loop w S es fd = Some (Returned (w', S')) \<and> sent_to w' = (sent_to w)(fd := sent_to w fd @ concat replies)"
  using assms
proof (induction ps arbitrary: w S es replies)
  case Nil
  obtain w1 where w1: "recv w fd BUFFER_LENGTH = Some (0, [], w1)" "answers w1 = [Val 0]" "sent_to w1 = sent_to w"
    using recv_Data [of w "[]" "[Val 0]" fd] Nil.prems(1-3) by auto
  have "\<exists>w2. close w1 fd = Some (0, w2)" using w1(2) by (simp add: close_def ask_val_def ask_def)
  then obtain w2 where w2: "close w1 fd = Some (0, w2)" "sent_to w2 = sent_to w1" using close_sent by blast
  have "S' = S" "replies = []" using Nil.prems(5,6) by simp_all
  then show ?case using w1 w2 by (subst reader_loop.simps) simp
next
  case (Cons p ps)
  obtain d as where p: "p = (d, as)" by (cases p)
  have d: "d \<noteq> []" "length d \<le> BUFFER_LENGTH" using Cons.prems(4) p by auto
  obtain w1 where w1: "recv w fd BUFFER_LENGTH = Some (int (length d), d, w1)" "answers w1 = as @ client_answers ps" "in_sched w1" "in_co w1"
      "sent_to w1 = sent_to w"
    using recv_Data [of w d "as @ client_answers ps" fd] Cons.prems(1-3) d p by auto
  obtain e es' item S1 rep where k: "es = e # es'" "replies = wbuffer item # rep"
      "kvstore_requese (e S) (zero_item\<lparr>rbuffer := recv_into (rbuffer zero_item) d\<rparr>) = Some (Returned (item, S1))"
      "shared_reader S1 es' (reads (map fst ps)) = Some (Returned (rep, S', True))"
    by (rule shared_reader_Cons [OF Cons.prems(5) [unfolded p list.map fst_conv]]) blast
  obtain w2 where w2: "send w1 fd (wbuffer item) = Some (int (length (wbuffer item)), w2)" "answers w2 = client_answers ps" "in_sched w2" "in_co w2"
      "sent_to w2 = (sent_to w)(fd := sent_to w fd @ wbuffer item)"
    using send_taken [of w1 as "client_answers ps" "wbuffer item" fd] w1 Cons.prems(6) p k(2) by auto
  have "\<forall>(d, as) \<in> set ps. d \<noteq> [] \<and> length d \<le> BUFFER_LENGTH" "list_all2 taken_by (map snd ps) rep" using Cons.prems(4,6) k(2) by simp_all
  then obtain w' where "reader_loop w2 S1 es' fd = Some (Returned (w', S'))" "sent_to w' = (sent_to w2)(fd := sent_to w2 fd @ concat rep)"
    using Cons.IH [OF w2(3,4,2) _ k(4)] by blast
  then show ?case using w1(1) d(1) k(1-3) w2(1,5) by (subst reader_loop.simps) simp
qed

section \<open>Properties\<close>

text \<open>
  C9. A reader coroutine implements the reader of \<open>Net\<close>, with which the other front ends are compared,
  whatever the other coroutines do to the engines between its requests. A reader that has come to its
  end has handled, in order, the data the kernel had ready, each request as \<open>server_reader\<close> does; the
  engines are those after its last request, and of each reply in order the kernel has taken a first
  part, and nothing for other descriptors. When nobody else uses the engines this is a run of
  \<open>server_reader\<close>. Conversely, for a client that sends packets of at most 512 bytes, takes its replies,
  none of them empty, in pieces and closes the connection, the reader does come to its end, and every
  reply has been taken whole.
\<close>

theorem reader_refines:
  "(reader_loop w S es fd = Some (Returned (w', S')) \<longrightarrow>
      (\<exists>rs replies ts. shared_reader S es rs = Some (Returned (replies, S', False)) \<and>
         ((\<forall>e \<in> set es. e = id) \<longrightarrow> server_reader S rs = Some (Returned (replies, S', False))) \<and>
         datas (answers w) = received rs @ datas (answers w') \<and>
         list_all2 prefix ts replies \<and> sent_to w' = (sent_to w)(fd := sent_to w fd @ concat ts))) \<and>
   (in_sched w \<and> in_co w \<and> answers w = client_answers ps \<and> (\<forall>(d, as) \<in> set ps. d \<noteq> [] \<and> length d \<le> BUFFER_LENGTH) \<and>
      shared_reader S es (reads (map fst ps)) = Some (Returned (replies, T, True)) \<and> list_all2 taken_by (map snd ps) replies \<longrightarrow>
      (\<exists>v. reader_loop w S es fd = Some (Returned (v, T)) \<and> sent_to v = (sent_to w)(fd := sent_to w fd @ concat replies)))"
proof (intro conjI impI)
  assume "reader_loop w S es fd = Some (Returned (w', S'))"
  then show "\<exists>rs replies ts. shared_reader S es rs = Some (Returned (replies, S', False)) \<and>
      ((\<forall>e \<in> set es. e = id) \<longrightarrow> server_reader S rs = Some (Returned (replies, S', False))) \<and>
      datas (answers w) = received rs @ datas (answers w') \<and>
      list_all2 prefix ts replies \<and> sent_to w' = (sent_to w)(fd := sent_to w fd @ concat ts)"
    using reader_implements [of w S es fd w' S'] shared_reader_alone unfolding reader_spec_def by metis
qed (use reader_serves in blast)

definition hset_world :: "answer list \<Rightarrow> string \<Rightarrow> syscall list \<Rightarrow> sock_world" where
  "hset_world as s cs = \<lparr>hooked = True, in_sched = True, in_co = True, err = EAGAIN, answers = as, calls = cs, sent_to = (\<lambda>_. [])(5 := s)\<rparr>"

lemma reader_turns:
  "recv w fd BUFFER_LENGTH = Some (-1, buf, w1) \<Longrightarrow> reader_loop w S es fd = reader_loop w1 S es fd"
  "recv w fd BUFFER_LENGTH = Some (ret, buf, w1) \<Longrightarrow> 0 < ret \<Longrightarrow>
     kvstore_requese (e S) (zero_item\<lparr>rbuffer := recv_into (rbuffer zero_item) buf\<rparr>) = Some (Returned (item, S1)) \<Longrightarrow>
     send w1 fd (wbuffer item) = Some (r, w2) \<Longrightarrow> r \<noteq> -1 \<Longrightarrow> reader_loop w S (e # es) fd = reader_loop w2 S1 es fd"
  "recv w fd BUFFER_LENGTH = Some (0, buf, w1) \<Longrightarrow> close w1 fd = Some (x, w2) \<Longrightarrow> reader_loop w S es fd = Some (Returned (w2, S))"
  by (subst reader_loop.simps, simp)+

lemma hset_world_runs:
  assumes j: "kvstore_requese S0 (zero_item\<lparr>rbuffer := recv_into (rbuffer zero_item) ''HSET k v''\<rparr>) = Some (Returned (j, S))"
    "wbuffer j = ''SUCCESS''"
  shows "\<exists>cs. reader_loop (hset_world [Err EAGAIN, Data ''HSET k v'', Val 4, Val 3, Data [], Val 0] [] []) S0 [id] 5
    = Some (Returned (hset_world [] ''SUCCESS'' cs, S))"
proof -
  have 1: "recv (hset_world (Err EAGAIN # as) s cs) 5 BUFFER_LENGTH =
      Some (-1, [], hset_world as s (cs @ [Wait 5 readable, Call_recv 5 BUFFER_LENGTH]))" for as s cs
    by (simp add: hset_world_def recv_def ask_recv_def ask_def nty_poll_inner_def hook_def)
  have 2: "recv (hset_world (Data d # as) s cs) 5 BUFFER_LENGTH =
      Some (int (length d), d, hset_world as s (cs @ [Wait 5 readable, Call_recv 5 BUFFER_LENGTH]))" if "length d \<le> BUFFER_LENGTH" for d as s cs
    using that by (simp add: hset_world_def recv_def ask_recv_def ask_def nty_poll_inner_def hook_def MAX_RW_COUNT_def BUFFER_LENGTH_def)
  have 3: "\<exists>ds. send (hset_world (Val 4 # Val 3 # as) [] cs) 5 ''SUCCESS'' = Some (7, hset_world as ''SUCCESS'' ds)" for as cs
    by (simp add: hset_world_def send_def send_all_def send_loop.simps ask_send_def ask_val_def ask_def nty_poll_inner_def hook_def
        MAX_RW_COUNT_def INT_MAX_def)
  have 4: "close (hset_world [Val 0] s cs) 5 = Some (0, hset_world [] s (cs @ [Call_close 5]))" for s cs
    by (simp add: hset_world_def close_def ask_val_def ask_def hook_def)
  have len: "length ''HSET k v'' \<le> BUFFER_LENGTH" by (simp add: BUFFER_LENGTH_def)
  obtain ds where s: "send (hset_world [Val 4, Val 3, Data [], Val 0] [] [Wait 5 readable, Call_recv 5 BUFFER_LENGTH, Wait 5 readable,
      Call_recv 5 BUFFER_LENGTH]) 5 (wbuffer j) = Some (7, hset_world [Data [], Val 0] ''SUCCESS'' ds)"
    using 3 j(2) by auto
  show ?thesis using 1 2 [OF len] 2 [of "[]"] 4 j(1) s by (auto simp: reader_turns(1) reader_turns(2) [where ret = 8] reader_turns(3))
qed

theorem reader_refines_witness:
  "\<exists>S S'. init_kvengine new_server = Some S \<and>
     (\<exists>rs replies ts. server_reader S rs = Some (Returned (replies, S', False)) \<and>
       received rs = [''HSET k v'', []] \<and> list_all2 prefix ts replies \<and> concat ts = ''SUCCESS'') \<and>
     (\<exists>v. reader_loop (hset_world (client_answers [(''HSET k v'', [Val 4, Val 3])]) [] []) S [id] 5 = Some (Returned (v, S')) \<and>
       sent_to v 5 = ''SUCCESS'')"
proof -
  have r: "req_ok ''HSET'' ''k'' ''v''" by (simp add: req_ok_def msg3_def wal_word_def isspace_def BUFFER_LENGTH_def)
  obtain S0 S where S: "init_kvengine new_server = Some S0"
      "server_reader S0 (reads [msg3 ''HSET'' ''k'' ''v'']) = Some (Returned ([''SUCCESS''], S, True))"
    by (rule hset_hcount [OF r])
  have m: "msg3 ''HSET'' ''k'' ''v'' = ''HSET k v''" by (simp add: msg3_def)
  have "server_reader S0 ((Received ''HSET k v'', True) # []) = Some (Returned ([''SUCCESS''], S, True))"
    using S(2) by (simp only: list.map m)
  from server_reader_Cons [OF this] obtain j S1 rep where
      "kvstore_requese S0 (zero_item\<lparr>rbuffer := recv_into (rbuffer zero_item) ''HSET k v''\<rparr>) = Some (Returned (j, S1))"
      "[''SUCCESS''] = wbuffer j # rep" "server_reader S1 [] = Some (Returned (rep, S, True))" by metis
  then have "kvstore_requese S0 (zero_item\<lparr>rbuffer := recv_into (rbuffer zero_item) ''HSET k v''\<rparr>) = Some (Returned (j, S))"
      "wbuffer j = ''SUCCESS''" by simp_all
  note j = this
  obtain cs where r: "reader_loop (hset_world [Err EAGAIN, Data ''HSET k v'', Val 4, Val 3, Data [], Val 0] [] []) S0
      [id] 5 = Some (Returned (hset_world [] ''SUCCESS'' cs, S))"
    using hset_world_runs [OF j] by blast
  obtain rs replies ts where "server_reader S0 rs = Some (Returned (replies, S, False))"
      "received rs = [''HSET k v'', []]" "list_all2 prefix ts replies"
      "sent_to (hset_world [] ''SUCCESS'' cs) = (\<lambda>_. [])(5 := concat ts)"
    using reader_refines [THEN conjunct1, rule_format, OF r] by (auto simp: hset_world_def)
  moreover have "sent_to (hset_world [] ''SUCCESS'' cs) 5 = ''SUCCESS''" by (simp add: hset_world_def)
  ultimately have 1: "\<exists>rs replies ts. server_reader S0 rs = Some (Returned (replies, S, False)) \<and>
      received rs = [''HSET k v'', []] \<and> list_all2 prefix ts replies \<and> concat ts = ''SUCCESS''" by auto
  let ?ps = "[(''HSET k v'', [Val 4, Val 3])]"
  have "taken_by [Val 4, Val 3] ''SUCCESS''"
    unfolding taken_by_def by (auto simp: INT_MAX_def MAX_RW_COUNT_def intro!: exI [of _ "[]"] exI [of _ "[4, 3]"])
  moreover have "shared_reader S0 [id] (reads (map fst ?ps)) = Some (Returned ([''SUCCESS''], S, True))"
    using shared_reader_Received(2) [where e = id and S = S0 and es = "[]" and rs = "[]"] j by simp
  moreover have "in_sched (hset_world as [] [])" "in_co (hset_world as [] [])" "answers (hset_world as [] []) = as"
      "sent_to (hset_world as [] []) = (\<lambda>_. [])" for as
    by (auto simp: hset_world_def)
  ultimately have 2: "\<exists>v. reader_loop (hset_world (client_answers ?ps) [] []) S0 [id] 5 = Some (Returned (v, S)) \<and>
      sent_to v = (\<lambda>_. [])(5 := ''SUCCESS'')"
    using reader_refines [THEN conjunct2, rule_format, of "hset_world (client_answers ?ps) [] []" ?ps S0 "[id]" "[''SUCCESS'']" S 5]
    by (simp add: BUFFER_LENGTH_def del: client_answers.simps)
  then have "\<exists>v. reader_loop (hset_world (client_answers ?ps) [] []) S0 [id] 5 = Some (Returned (v, S)) \<and> sent_to v 5 = ''SUCCESS''" by auto
  with S(1) 1 show ?thesis by blast
qed


text \<open>Two clients: one closes its connection at once, the other stays connected.\<close>

definition two_clients :: "client list" where
  "two_clients = [(demo_world [Data [], Val 0], new_server, [], None), (demo_world [Data [], Val 0], new_server, [], Some 0)]"

definition one_server :: "act list" where
  "one_server = [Poll [(5, readable)] 1, Create [Poll [(6, readable)] 1], Poll [(5, readable)] 1, Create [Poll [(7, readable)] 1],
     Poll [(5, readable)] 1]"

definition one_server_answers :: "epoll_answer list list" where
  "one_server_answers = [[Events [(5, EPOLLIN)]], [Events [(5, EPOLLIN)]], [Interrupted, Events [(6, EPOLLIN)]],
     [Events []], [Events []], [Events []], [Events []], [Events []], [Events []], [Events []], [Events []], [Events []], [Events []],
     [Events []], [Events []]]"

lemma one_server_acts: "nty_server (demo_world [Val 5, Val 0, Val 6, Val 0, Val 7, Val 0]) two_clients = Some (one_server, [5, 6, 7], [7, 5])"
  by (simp add: nty_server_def two_clients_def one_server_def socket_def accept_def accept_loop.simps accept_finish_def setsockopt_def
      reader_loop.simps recv_def ask_recv_def close_def acts_since_def sock_eval)

lemma one_server_epoll:
  "\<exists>S. create_all None [one_server] 3 4 0 = Some (Some S) \<and> epoll_ok (Some (set [7, 5])) S one_server_answers"
  by (simp add: sched_eval loops_eval one_server_def one_server_answers_def INT_MAX_def POLLIN_def POLLERR_def POLLHUP_def EPOLLIN_def EPOLLHUP_def
      settled_def parked_def parked_fds_def)


end
