(* ===== verification/Km_Buffer.thy ===== *)
theory Km_Buffer
  imports CPrelude "HOL-Library.Monad_Syntax"
begin

text \<open>
  The buffer of the Kmuduo library (\<open>Buffer.h\<close>, \<open>Buffer.cc\<close>): a vector of bytes with a read and a
  write index. Sizes are natural numbers; the differences that the code computes do not wrap, as
  the invariant shows. \<open>None\<close> is an access outside of the vector.
\<close>

section \<open>The class\<close>

record Buffer =
  vec :: string
  readerIndex :: nat
  writerIndex :: nat

definition kCheapPrepend :: nat where
  "kCheapPrepend = 8"

definition kInitialSize :: nat where
  "kInitialSize = 1024"

definition Buffer_new :: Buffer where
  "Buffer_new = \<lparr>vec = replicate (kCheapPrepend + kInitialSize) (CHR 0x00), readerIndex = kCheapPrepend, writerIndex = kCheapPrepend\<rparr>"

definition readableBytes :: "Buffer \<Rightarrow> nat" where
  "readableBytes b = writerIndex b - readerIndex b"

definition writableBytes :: "Buffer \<Rightarrow> nat" where
  "writableBytes b = length (vec b) - writerIndex b"

definition prependableBytes :: "Buffer \<Rightarrow> nat" where
  "prependableBytes b = readerIndex b"

text \<open>The bytes from the address that \<open>peek\<close> returns on.\<close>

definition peek :: "Buffer \<Rightarrow> string" where
  "peek b = drop (readerIndex b) (vec b)"

definition retrieveAll :: "Buffer \<Rightarrow> Buffer" where
  "retrieveAll b = b\<lparr>readerIndex := kCheapPrepend, writerIndex := kCheapPrepend\<rparr>"

definition retrieve :: "Buffer \<Rightarrow> nat \<Rightarrow> Buffer" where
  "retrieve b len = (if len < readableBytes b then b\<lparr>readerIndex := readerIndex b + len\<rparr> else retrieveAll b)"

definition retrieveAsString :: "Buffer \<Rightarrow> nat \<Rightarrow> (string \<times> Buffer) option" where
  "retrieveAsString b len = (if length (peek b) < len then None else Some (take len (peek b), retrieve b len))"

definition retrieveAllAsString :: "Buffer \<Rightarrow> (string \<times> Buffer) option" where
  "retrieveAllAsString b = retrieveAsString b (readableBytes b)"

text \<open>\<open>vector::resize\<close> and \<open>std::copy\<close> to a position of the vector.\<close>

definition resize :: "string \<Rightarrow> nat \<Rightarrow> string" where
  "resize xs n = take n xs @ replicate (n - length xs) (CHR 0x00)"

definition copy_to :: "string \<Rightarrow> nat \<Rightarrow> string \<Rightarrow> string option" where
  "copy_to xs p d = (if length xs < p + length d then None else Some (take p xs @ d @ drop (p + length d) xs))"

definition makeSpace :: "Buffer \<Rightarrow> nat \<Rightarrow> Buffer option" where
  "makeSpace b len =
     (if writableBytes b + prependableBytes b < len + kCheapPrepend
      then Some (b\<lparr>vec := resize (vec b) (writerIndex b + len)\<rparr>)
      else do {
        let readable = readableBytes b;
        xs \<leftarrow> copy_to (vec b) kCheapPrepend (take readable (drop (readerIndex b) (vec b)));
        Some (b\<lparr>vec := xs, readerIndex := kCheapPrepend, writerIndex := kCheapPrepend + readable\<rparr>) })"

definition ensureWriteableBytes :: "Buffer \<Rightarrow> nat \<Rightarrow> Buffer option" where
  "ensureWriteableBytes b len = (if writableBytes b < len then makeSpace b len else Some b)"

definition buf_append :: "Buffer \<Rightarrow> string \<Rightarrow> Buffer option" where
  "buf_append b data =
     do { b \<leftarrow> ensureWriteableBytes b (length data);
          xs \<leftarrow> copy_to (vec b) (writerIndex b) data;
          Some (b\<lparr>vec := xs, writerIndex := writerIndex b + length data\<rparr>) }"

text \<open>
  \<open>readv\<close> into the free part of the vector and, when this is short, an array of 65536 bytes: \<open>d\<close> are
  the bytes it returns, which fit, and \<open>None\<close> an error.
\<close>

definition EXTRABUF :: nat where
  "EXTRABUF = 65536"

definition readv_room :: "Buffer \<Rightarrow> nat" where
  "readv_room b = (if writableBytes b < EXTRABUF then writableBytes b + EXTRABUF else writableBytes b)"

definition readFd :: "Buffer \<Rightarrow> string option \<Rightarrow> (int \<times> Buffer) option" where
  "readFd b res = (case res of
     None \<Rightarrow> Some (-1, b)
   | Some d \<Rightarrow>
       if readv_room b < length d then None
       else if length d \<le> writableBytes b
       then do {
         xs \<leftarrow> copy_to (vec b) (writerIndex b) d;
         Some (int (length d), b\<lparr>vec := xs, writerIndex := writerIndex b + length d\<rparr>) }
       else do {
         let writable = writableBytes b;
         xs \<leftarrow> copy_to (vec b) (writerIndex b) (take writable d);
         b \<leftarrow> buf_append (b\<lparr>vec := xs, writerIndex := length xs\<rparr>) (drop writable d);
         Some (int (length d), b) })"

text \<open>\<open>write\<close> of the readable bytes: what the kernel is given.\<close>

definition writeFd :: "Buffer \<Rightarrow> string" where
  "writeFd b = take (readableBytes b) (peek b)"

section \<open>The invariant and the contents\<close>

definition buf_ok :: "Buffer \<Rightarrow> bool" where
  "buf_ok b \<longleftrightarrow> kCheapPrepend \<le> readerIndex b \<and> readerIndex b \<le> writerIndex b \<and> writerIndex b \<le> length (vec b)"

definition content :: "Buffer \<Rightarrow> string" where
  "content b = take (readableBytes b) (peek b)"

lemmas buf_defs = buf_ok_def content_def readableBytes_def writableBytes_def prependableBytes_def peek_def kCheapPrepend_def

text \<open>
  What the connections rely on: a queue of bytes, to which bytes are added at the end and from
  which bytes are taken at the front.
\<close>

locale byte_queue =
  fixes ok :: "'b \<Rightarrow> bool" and cont :: "'b \<Rightarrow> string"
    and push :: "'b \<Rightarrow> string \<Rightarrow> 'b option" and pop :: "'b \<Rightarrow> nat \<Rightarrow> 'b"
  assumes push: "ok b \<Longrightarrow> \<exists>b'. push b d = Some b' \<and> ok b' \<and> cont b' = cont b @ d"
    and pop: "ok b \<Longrightarrow> ok (pop b n) \<and> cont (pop b n) = drop n (cont b)"
begin

text \<open>Bytes that leave the queue are those that entered it first: nothing is lost or reordered.\<close>

lemma pop_stream: "ok b \<Longrightarrow> take n (cont b) @ cont (pop b n) = cont b"
  using pop [of b n] by simp

lemma push_stream: "ok b \<Longrightarrow> push b d = Some b' \<Longrightarrow> ok b' \<and> cont b' = cont b @ d"
  using push [of b d] by auto

lemma pop_all: "ok b \<Longrightarrow> length (cont b) \<le> n \<Longrightarrow> cont (pop b n) = []"
  using pop [of b n] by simp

end

lemma length_content: "buf_ok b \<Longrightarrow> length (content b) = readableBytes b"
  by (auto simp: buf_defs)

lemma Buffer_new_ok [simp]: "buf_ok Buffer_new" "content Buffer_new = []"
  by (simp_all add: buf_defs Buffer_new_def)

lemma retrieve_ok:
  assumes "buf_ok b"
  shows "buf_ok (retrieve b n) \<and> content (retrieve b n) = drop n (content b)"
  using assms by (auto simp: buf_defs retrieve_def retrieveAll_def drop_take add.commute)

lemma resize_take: "n \<le> length xs \<Longrightarrow> n \<le> m \<Longrightarrow> take n (resize xs m) = take n xs" "length (resize xs m) = m"
  by (simp_all add: resize_def min_def)

text \<open>The readable bytes are the part of the vector between the indices.\<close>

lemma content_cong:
  assumes "take (writerIndex b') (vec b') = take (writerIndex b) (vec b)" and "writerIndex b' = writerIndex b"
    and "readerIndex b' = readerIndex b"
  shows "content b' = content b"
proof -
  have "content x = drop (readerIndex x) (take (writerIndex x) (vec x))" for x
    by (simp add: content_def readableBytes_def peek_def drop_take)
  with assms show ?thesis by simp
qed

lemma ensure_ok:
  assumes "buf_ok b"
  obtains b' where "ensureWriteableBytes b n = Some b'" and "buf_ok b'" and "content b' = content b" and "n \<le> writableBytes b'"
proof (cases "writableBytes b < n")
  case False
  then show thesis using assms by (intro that [of b]) (simp_all add: ensureWriteableBytes_def)
next
  case lt: True
  show thesis
  proof (cases "writableBytes b + prependableBytes b < n + kCheapPrepend")
    case True
    let ?b = "b\<lparr>vec := resize (vec b) (writerIndex b + n)\<rparr>"
    have "content ?b = content b" using assms by (intro content_cong) (simp_all add: resize_take buf_ok_def)
    moreover have "buf_ok ?b" "n \<le> writableBytes ?b" using assms by (simp_all add: buf_defs resize_take)
    ultimately show thesis using lt True by (intro that [of ?b]) (simp_all add: ensureWriteableBytes_def makeSpace_def)
  next
    case False
    let ?r = "readableBytes b"
    let ?xs = "take kCheapPrepend (vec b) @ content b @ drop (kCheapPrepend + ?r) (vec b)"
    let ?b = "b\<lparr>vec := ?xs, readerIndex := kCheapPrepend, writerIndex := kCheapPrepend + ?r\<rparr>"
    have len: "length (content b) = ?r" "kCheapPrepend + ?r \<le> length (vec b)" using assms by (auto simp: buf_defs)
    have "makeSpace b n = Some ?b"
      using False len by (simp add: makeSpace_def copy_to_def content_def peek_def Let_def)
    moreover have "content ?b = content b" using len by (simp add: content_def readableBytes_def peek_def)
    moreover have "buf_ok ?b" using len by (simp add: buf_ok_def)
    moreover have "n \<le> writableBytes ?b" using False assms len by (auto simp: buf_defs)
    ultimately show thesis using lt by (intro that [of ?b]) (simp_all add: ensureWriteableBytes_def)
  qed
qed

text \<open>Bytes stored behind the readable ones.\<close>

lemma store_ok:
  assumes "buf_ok b" and "length d \<le> writableBytes b"
  obtains xs where "copy_to (vec b) (writerIndex b) d = Some xs" and "length xs = length (vec b)"
    and "buf_ok (b\<lparr>vec := xs, writerIndex := writerIndex b + length d\<rparr>)"
    and "content (b\<lparr>vec := xs, writerIndex := writerIndex b + length d\<rparr>) = content b @ d"
proof -
  let ?xs = "take (writerIndex b) (vec b) @ d @ drop (writerIndex b + length d) (vec b)"
  have w: "kCheapPrepend \<le> readerIndex b" "readerIndex b \<le> writerIndex b" "writerIndex b + length d \<le> length (vec b)"
    using assms by (auto simp: buf_defs)
  have "content (b\<lparr>vec := ?xs, writerIndex := writerIndex b + length d\<rparr>) = content b @ d"
    using w by (simp add: content_def readableBytes_def peek_def take_drop)
  moreover have "buf_ok (b\<lparr>vec := ?xs, writerIndex := writerIndex b + length d\<rparr>)" using w by (simp add: buf_ok_def)
  ultimately show thesis using w by (intro that [of ?xs]) (simp_all add: copy_to_def)
qed

lemma append_ok:
  assumes "buf_ok b"
  shows "\<exists>b'. buf_append b d = Some b' \<and> buf_ok b' \<and> content b' = content b @ d"
proof -
  obtain b1 where b1: "ensureWriteableBytes b (length d) = Some b1" "buf_ok b1" "content b1 = content b" "length d \<le> writableBytes b1"
    by (rule ensure_ok [OF assms])
  obtain xs where "copy_to (vec b1) (writerIndex b1) d = Some xs"
      "buf_ok (b1\<lparr>vec := xs, writerIndex := writerIndex b1 + length d\<rparr>)"
      "content (b1\<lparr>vec := xs, writerIndex := writerIndex b1 + length d\<rparr>) = content b1 @ d"
    by (rule store_ok [OF b1(2,4)]) blast
  then show ?thesis using b1 by (auto simp: buf_append_def)
qed

lemma readFd_ok:
  assumes "buf_ok b" and "length d \<le> readv_room b"
  shows "\<exists>b'. readFd b (Some d) = Some (int (length d), b') \<and> buf_ok b' \<and> content b' = content b @ d"
proof (cases "length d \<le> writableBytes b")
  case True
  obtain xs where "copy_to (vec b) (writerIndex b) d = Some xs"
      "buf_ok (b\<lparr>vec := xs, writerIndex := writerIndex b + length d\<rparr>)"
      "content (b\<lparr>vec := xs, writerIndex := writerIndex b + length d\<rparr>) = content b @ d"
    by (rule store_ok [OF assms(1) True]) blast
  then show ?thesis using assms(2) True by (simp add: readFd_def)
next
  case False
  let ?w = "writableBytes b"
  have tk: "length (take ?w d) = ?w" using False by simp
  obtain xs where xs: "copy_to (vec b) (writerIndex b) (take ?w d) = Some xs" "length xs = length (vec b)"
      "buf_ok (b\<lparr>vec := xs, writerIndex := writerIndex b + ?w\<rparr>)"
      "content (b\<lparr>vec := xs, writerIndex := writerIndex b + ?w\<rparr>) = content b @ take ?w d"
    using store_ok [OF assms(1), of "take ?w d"] tk by auto
  have "writerIndex b + ?w = length xs" using assms(1) xs(2) by (simp add: buf_defs)
  then obtain b' where "buf_append (b\<lparr>vec := xs, writerIndex := length xs\<rparr>) (drop ?w d) = Some b'" "buf_ok b'"
      "content b' = content b @ d"
    using append_ok [OF xs(3), of "drop ?w d"] xs(4) by auto
  then show ?thesis using assms(2) False xs(1) by (simp add: readFd_def Let_def)
qed

lemma retrieveAll_string:
  assumes "buf_ok b"
  shows "retrieveAllAsString b = Some (content b, retrieveAll b) \<and> buf_ok (retrieveAll b) \<and> content (retrieveAll b) = []"
  using assms by (auto simp: retrieveAllAsString_def retrieveAsString_def retrieve_def buf_defs retrieveAll_def)

interpretation buffer: byte_queue buf_ok content buf_append retrieve
  by unfold_locales (rule append_ok retrieve_ok; assumption)+

section \<open>Property\<close>

text \<open>The operations that the library applies to a buffer.\<close>

datatype buf_op = Append string | Retrieve nat | RetrieveAll | ReadFd string

fun exec_buf :: "Buffer \<Rightarrow> buf_op \<Rightarrow> Buffer option" where
  "exec_buf b (Append d) = buf_append b d"
| "exec_buf b (Retrieve n) = Some (retrieve b n)"
| "exec_buf b RetrieveAll = do { (_, b) \<leftarrow> retrieveAllAsString b; Some b }"
| "exec_buf b (ReadFd d) = do { (_, b) \<leftarrow> readFd b (Some (take (readv_room b) d)); Some b }"

fun queue_op :: "nat \<Rightarrow> string \<Rightarrow> buf_op \<Rightarrow> string" where
  "queue_op room q (Append d) = q @ d"
| "queue_op room q (Retrieve n) = drop n q"
| "queue_op room q RetrieveAll = []"
| "queue_op room q (ReadFd d) = q @ take room d"

fun run_buf :: "Buffer \<Rightarrow> string \<Rightarrow> buf_op list \<Rightarrow> (Buffer \<times> string) option" where
  "run_buf b q [] = Some (b, q)"
| "run_buf b q (op # ops) = do { b' \<leftarrow> exec_buf b op; run_buf b' (queue_op (readv_room b) q op) ops }"

lemma exec_buf_ok:
  assumes "buf_ok b"
  shows "\<exists>b'. exec_buf b op = Some b' \<and> buf_ok b' \<and> content b' = queue_op (readv_room b) (content b) op"
proof (cases op)
  case (ReadFd d)
  then show ?thesis using readFd_ok [OF assms, of "take (readv_room b) d"] by auto
qed (use buffer.push [OF assms] buffer.pop [OF assms] retrieveAll_string [OF assms] in auto)

text \<open>
  C25. The buffer is a queue of bytes: any sequence of appends, reads from a descriptor and
  retrievals on a new buffer stays inside of the vector, with the read index between the reserved
  prefix and the write index, and the readable bytes are those of the queue, through every
  enlargement of the vector and every move of its contents to the front.
\<close>

theorem buffer_refines_queue:
  "\<exists>b q. run_buf Buffer_new [] ops = Some (b, q) \<and> content b = q \<and> length q = readableBytes b \<and>
     kCheapPrepend \<le> readerIndex b \<and> readerIndex b \<le> writerIndex b \<and> writerIndex b \<le> length (vec b)"
proof -
  have "\<exists>b' q'. run_buf b (content b) ops = Some (b', q') \<and> content b' = q' \<and> buf_ok b'" if "buf_ok b" for b
    using that
  proof (induction ops arbitrary: b)
    case (Cons op ops)
    obtain b1 where "exec_buf b op = Some b1" "buf_ok b1" "content b1 = queue_op (readv_room b) (content b) op"
      using exec_buf_ok [OF Cons.prems] by blast
    then show ?case using Cons.IH [of b1] by auto
  qed simp
  from this [of Buffer_new] obtain b where b: "run_buf Buffer_new [] ops = Some (b, content b)" "buf_ok b" by auto
  then show ?thesis using length_content [OF b(2)] by (auto simp: buf_ok_def)
qed

end
