(* ===== verification/Km_Conn.thy ===== *)
theory Km_Conn
  imports Km_Buffer Net "HOL-Library.Word" "HOL-Library.Sublist"
begin

text \<open>
  The connections of the Kmuduo front end: \<open>Channel\<close>, \<open>EPollPoller\<close>, the queue of functors of
  \<open>EventLoop\<close>, \<open>TcpConnection\<close>, the thread pool's choice of a loop and the callbacks of
  \<open>kmuduo_entry.cc\<close>. The view is that of the thread that runs the loop of one connection; the main
  loop, which accepts and forgets connections, takes part with its own queue of functors. What the
  kernel answers to reads and writes is an argument. \<open>None\<close> is the end of the process (a fatal log
  message, an exception nobody catches) or undefined behaviour.
\<close>

unbundle bit_operations_syntax

section \<open>Data\<close>

datatype StateE = kDisconnected | kConnection | kConnected | kDisconnecting

definition kNew :: int where "kNew = -1"
definition kAdded :: int where "kAdded = 1"
definition kDeleted :: int where "kDeleted = 2"

definition kNoneEvent :: "32 word" where "kNoneEvent = 0"
definition kReadEvent :: "32 word" where "kReadEvent = 1 OR 2"
definition kWriteEvent :: "32 word" where "kWriteEvent = 4"

text \<open>\<open>EPOLLIN\<close>, \<open>EPOLLPRI\<close>, \<open>EPOLLOUT\<close>, \<open>EPOLLERR\<close> and \<open>EPOLLHUP\<close> are the values 1, 2, 4, 8 and 16.\<close>

datatype pending_functor =
    ConnectionEstablished
  | ConnectionDestroyed
  | WriteComplete
  | HighWaterMark nat
  | RemoveConnectionInLoop

text \<open>
  A connection with its channel, the poller and the queues of its loop and of the main loop.
  \<open>listed\<close> says that the server's map holds the connection, \<open>wire\<close> are the bytes the kernel has
  taken and \<open>replies\<close> the replies the message callback has handed to the connection.
\<close>

record tcp_conn =
  conn_state :: StateE
  conn_fd :: int
  events :: "32 word"
  index :: int
  tied :: bool
  inputBuffer :: Buffer
  outputBuffer :: Buffer
  writeCompleteCallback :: bool
  highWaterMarkCallback :: bool
  highWaterMark :: nat
  listed :: bool
  poller :: "int \<rightharpoonup> 32 word"
  channels :: "int set"
  pendingFunctors :: "pending_functor list"
  mainFunctors :: "pending_functor list"
  shutdownWrite :: bool
  kv :: kvserver
  wire :: string
  replies :: "string list"

text \<open>
  What \<open>write\<close> answers: a number of bytes taken, all of them, or an error (\<open>EWOULDBLOCK\<close>, one of \<open>EPIPE\<close>
  and \<open>ECONNRESET\<close>, another one). \<open>taken\<close> is the number of bytes, and -1 for an error.
\<close>

datatype write_result = Wrote nat | Wrote_all | Would_block | Pipe_error | Write_error

definition taken :: "write_result \<Rightarrow> nat \<Rightarrow> int option" where
  "taken res len = (case res of
     Wrote n \<Rightarrow> if n \<le> len then Some (int n) else None
   | Wrote_all \<Rightarrow> Some (int len)
   | _ \<Rightarrow> Some (-1))"

section \<open>The poller\<close>

datatype epoll_op = EPOLL_CTL_ADD | EPOLL_CTL_MOD | EPOLL_CTL_DEL

text \<open>A failing \<open>epoll_ctl\<close> is fatal but for a deletion.\<close>

definition update :: "tcp_conn \<Rightarrow> epoll_op \<Rightarrow> tcp_conn option" where
  "update W operation = (case operation of
     EPOLL_CTL_ADD \<Rightarrow> if poller W (conn_fd W) = None then Some (W\<lparr>poller := (poller W)(conn_fd W \<mapsto> events W)\<rparr>) else None
   | EPOLL_CTL_MOD \<Rightarrow> if poller W (conn_fd W) \<noteq> None then Some (W\<lparr>poller := (poller W)(conn_fd W \<mapsto> events W)\<rparr>) else None
   | EPOLL_CTL_DEL \<Rightarrow> Some (W\<lparr>poller := (poller W)(conn_fd W := None)\<rparr>))"

definition isNoneEvent :: "tcp_conn \<Rightarrow> bool" where
  "isNoneEvent W \<longleftrightarrow> events W = kNoneEvent"

definition isWriting :: "tcp_conn \<Rightarrow> bool" where
  "isWriting W \<longleftrightarrow> events W AND kWriteEvent \<noteq> 0"

definition updateChannel :: "tcp_conn \<Rightarrow> tcp_conn option" where
  "updateChannel W =
     (if index W = kNew \<or> index W = kDeleted
      then let W = (if index W = kNew then W\<lparr>channels := insert (conn_fd W) (channels W)\<rparr> else W)
           in update (W\<lparr>index := kAdded\<rparr>) EPOLL_CTL_ADD
      else if isNoneEvent W
      then do { W \<leftarrow> update W EPOLL_CTL_DEL; Some (W\<lparr>index := kDeleted\<rparr>) }
      else update W EPOLL_CTL_MOD)"

definition removeChannel :: "tcp_conn \<Rightarrow> tcp_conn option" where
  "removeChannel W =
     do { let W = W\<lparr>channels := channels W - {conn_fd W}\<rparr>;
          W \<leftarrow> (if index W = kAdded then update W EPOLL_CTL_DEL else Some W);
          Some (W\<lparr>index := kDeleted\<rparr>) }"

section \<open>The channel\<close>

definition enableReading :: "tcp_conn \<Rightarrow> tcp_conn option" where
  "enableReading W = updateChannel (W\<lparr>events := events W OR kReadEvent\<rparr>)"

definition disableReading :: "tcp_conn \<Rightarrow> tcp_conn option" where
  "disableReading W = updateChannel (W\<lparr>events := events W AND NOT kReadEvent\<rparr>)"

definition enableWriting :: "tcp_conn \<Rightarrow> tcp_conn option" where
  "enableWriting W = updateChannel (W\<lparr>events := events W OR kWriteEvent\<rparr>)"

definition disableWriting :: "tcp_conn \<Rightarrow> tcp_conn option" where
  "disableWriting W = updateChannel (W\<lparr>events := events W AND NOT kWriteEvent\<rparr>)"

definition disableAll :: "tcp_conn \<Rightarrow> tcp_conn option" where
  "disableAll W = updateChannel (W\<lparr>events := kNoneEvent\<rparr>)"

section \<open>The connection\<close>

definition queueLoop :: "tcp_conn \<Rightarrow> pending_functor \<Rightarrow> tcp_conn" where
  "queueLoop W cb = W\<lparr>pendingFunctors := pendingFunctors W @ [cb]\<rparr>"

text \<open>
  Sending, first part: when nothing waits, the message is written at once. The result has the
  number of bytes taken and whether the connection is broken.
\<close>

definition send_direct :: "tcp_conn \<Rightarrow> string \<Rightarrow> write_result \<Rightarrow> (tcp_conn \<times> nat \<times> bool) option" where
  "send_direct W message res =
     (if \<not> isWriting W \<and> readableBytes (outputBuffer W) = 0
      then do {
        n \<leftarrow> taken res (length message);
        if n \<ge> 0
        then let W = W\<lparr>wire := wire W @ take (nat n) message\<rparr>
             in Some (if length message - nat n = 0 \<and> writeCompleteCallback W then queueLoop W WriteComplete else W, nat n, False)
        else Some (W, 0, res = Pipe_error) }
      else Some (W, 0, False))"

text \<open>Second part: what is left goes to the output buffer and the channel asks for write events.\<close>

definition send_rest :: "tcp_conn \<Rightarrow> string \<Rightarrow> tcp_conn option" where
  "send_rest W rest =
     do { let oldlen = readableBytes (outputBuffer W);
          let remaining = length rest;
          let W = (if oldlen + remaining \<ge> highWaterMark W \<and> oldlen < highWaterMark W \<and> highWaterMarkCallback W
                   then queueLoop W (HighWaterMark (oldlen + remaining)) else W);
          b \<leftarrow> buf_append (outputBuffer W) rest;
          let W = W\<lparr>outputBuffer := b\<rparr>;
          if \<not> isWriting W then enableWriting W else Some W }"

definition sendInLoop :: "tcp_conn \<Rightarrow> string \<Rightarrow> write_result \<Rightarrow> tcp_conn option" where
  "sendInLoop W message res =
     (if conn_state W = kDisconnected then Some W
      else do {
        (W, nwrote, faultError) \<leftarrow> send_direct W message res;
        if \<not> faultError \<and> length message - nwrote > 0 then send_rest W (drop nwrote message) else Some W })"

definition conn_send :: "tcp_conn \<Rightarrow> string \<Rightarrow> write_result \<Rightarrow> tcp_conn option" where
  "conn_send W buf res = (if conn_state W = kConnected then sendInLoop W buf res else Some W)"

definition connectionEstablished :: "tcp_conn \<Rightarrow> tcp_conn option" where
  "connectionEstablished W = enableReading (W\<lparr>conn_state := kConnected, tied := True\<rparr>)"

definition shutdownInLoop :: "tcp_conn \<Rightarrow> tcp_conn" where
  "shutdownInLoop W = (if \<not> isWriting W then W\<lparr>shutdownWrite := True\<rparr> else W)"

definition shutdown :: "tcp_conn \<Rightarrow> tcp_conn" where
  "shutdown W = (if conn_state W = kConnected then shutdownInLoop (W\<lparr>conn_state := kDisconnecting\<rparr>) else W)"

definition connectionDestroyed :: "tcp_conn \<Rightarrow> tcp_conn option" where
  "connectionDestroyed W =
     do { W \<leftarrow> (if conn_state W = kConnected then disableAll (W\<lparr>conn_state := kDisconnected\<rparr>) else Some W);
          removeChannel W }"

text \<open>Closing reports to the server, whose main loop forgets the connection.\<close>

definition handleClose :: "tcp_conn \<Rightarrow> tcp_conn option" where
  "handleClose W =
     do { W \<leftarrow> disableAll (W\<lparr>conn_state := kDisconnected\<rparr>);
          Some (W\<lparr>mainFunctors := mainFunctors W @ [RemoveConnectionInLoop]\<rparr>) }"

definition handleError :: "tcp_conn \<Rightarrow> tcp_conn" where
  "handleError W = W"

definition handleWrite :: "tcp_conn \<Rightarrow> write_result \<Rightarrow> tcp_conn option" where
  "handleWrite W res =
     (if isWriting W
      then do {
        n \<leftarrow> taken res (readableBytes (outputBuffer W));
        if n > 0
        then let W = W\<lparr>wire := wire W @ take (nat n) (writeFd (outputBuffer W)), outputBuffer := retrieve (outputBuffer W) (nat n)\<rparr>;
                 W = (if readableBytes (outputBuffer W) = 0 then queueLoop W WriteComplete else W)
             in Some (if conn_state W = kDisconnecting then shutdownInLoop W else W)
        else Some W }
      else Some W)"

section \<open>The message callback\<close>

text \<open>\<open>c_str\<close> with \<open>strcpy\<close>: the bytes up to the first NUL, with a NUL behind them.\<close>

definition strcpy_into :: "string \<Rightarrow> string \<Rightarrow> string option" where
  "strcpy_into buf msg =
     (let s = takeWhile (\<lambda>c. c \<noteq> NUL) msg
      in if length buf \<le> length s then None else Some (s @ NUL # drop (Suc (length s)) buf))"

definition onMessage :: "tcp_conn \<Rightarrow> write_result \<Rightarrow> tcp_conn option" where
  "onMessage W res =
     do { (msg, b) \<leftarrow> retrieveAllAsString (inputBuffer W);
          let W = W\<lparr>inputBuffer := b\<rparr>;
          rb \<leftarrow> strcpy_into (rbuffer zero_item) msg;
          out \<leftarrow> kvstore_requese (kv W) (zero_item\<lparr>rbuffer := rb\<rparr>);
          case out of
            Aborted \<Rightarrow> None
          | Returned (item, S) \<Rightarrow>
              conn_send (W\<lparr>kv := S, replies := replies W @ [wbuffer item]\<rparr>) (wbuffer item) res }"

definition handleRead :: "tcp_conn \<Rightarrow> string option \<Rightarrow> write_result \<Rightarrow> tcp_conn option" where
  "handleRead W rd res =
     do { (n, b) \<leftarrow> readFd (inputBuffer W) rd;
          let W = W\<lparr>inputBuffer := b\<rparr>;
          if n > 0 then onMessage W res
          else if n = 0 then handleClose W
          else Some (handleError W) }"

section \<open>Events\<close>

text \<open>
  The events that the poller reports for the channel, with what the system calls of the callbacks
  return: \<open>rd\<close> of \<open>readv\<close>, \<open>wr\<close> of the \<open>write\<close> of a reply, \<open>wr2\<close> of the \<open>write\<close> for the output buffer.
\<close>

definition handleEventWithGuard :: "tcp_conn \<Rightarrow> 32 word \<Rightarrow> string option \<Rightarrow> write_result \<Rightarrow> write_result \<Rightarrow> tcp_conn option" where
  "handleEventWithGuard W revents rd wr wr2 =
     do { W \<leftarrow> (if revents AND 16 \<noteq> 0 \<and> revents AND 1 = 0 then handleClose W else Some W);
          let W = (if revents AND 8 \<noteq> 0 then handleError W else W);
          W \<leftarrow> (if revents AND (1 OR 2) \<noteq> 0 then handleRead W rd wr else Some W);
          if revents AND 4 \<noteq> 0 then handleWrite W wr2 else Some W }"

text \<open>The weak pointer of the channel can be locked as long as somebody holds the connection.\<close>

definition alive :: "tcp_conn \<Rightarrow> bool" where
  "alive W \<longleftrightarrow> listed W \<or> pendingFunctors W \<noteq> [] \<or> mainFunctors W \<noteq> []"

definition handleEvent :: "tcp_conn \<Rightarrow> 32 word \<Rightarrow> string option \<Rightarrow> write_result \<Rightarrow> write_result \<Rightarrow> tcp_conn option" where
  "handleEvent W revents rd wr wr2 =
     (if tied W then if alive W then handleEventWithGuard W revents rd wr wr2 else Some W
      else handleEventWithGuard W revents rd wr wr2)"

text \<open>Functors; calling a callback that was not set throws.\<close>

fun call_functor :: "tcp_conn \<Rightarrow> pending_functor \<Rightarrow> tcp_conn option" where
  "call_functor W ConnectionEstablished = connectionEstablished W"
| "call_functor W ConnectionDestroyed = connectionDestroyed W"
| "call_functor W WriteComplete = (if writeCompleteCallback W then Some W else None)"
| "call_functor W (HighWaterMark n) = (if highWaterMarkCallback W then Some W else None)"
| "call_functor W RemoveConnectionInLoop = Some (queueLoop (W\<lparr>listed := False\<rparr>) ConnectionDestroyed)"

fun call_functors :: "tcp_conn \<Rightarrow> pending_functor list \<Rightarrow> tcp_conn option" where
  "call_functors W [] = Some W"
| "call_functors W (f # fs) = do { W \<leftarrow> call_functor W f; call_functors W fs }"

definition doPendingFunctors :: "tcp_conn \<Rightarrow> tcp_conn option" where
  "doPendingFunctors W = call_functors (W\<lparr>pendingFunctors := []\<rparr>) (pendingFunctors W)"

text \<open>The main loop runs its own queue in the same way.\<close>

definition mainPendingFunctors :: "tcp_conn \<Rightarrow> tcp_conn option" where
  "mainPendingFunctors W = call_functors (W\<lparr>mainFunctors := []\<rparr>) (mainFunctors W)"

text \<open>
  A turn of the loop: the events of the channel, which the poller reports only when it knows the
  channel, and then the functors.
\<close>

datatype turn =
    Turn "32 word" "string option" write_result write_result
  | Functors
  | Main_functors

fun loop_turn :: "tcp_conn \<Rightarrow> turn \<Rightarrow> tcp_conn option" where
  "loop_turn W (Turn revents rd wr wr2) =
     do { W \<leftarrow> (if poller W (conn_fd W) = None then Some W else handleEvent W revents rd wr wr2); doPendingFunctors W }"
| "loop_turn W Functors = doPendingFunctors W"
| "loop_turn W Main_functors = mainPendingFunctors W"

fun loop_turns :: "tcp_conn \<Rightarrow> turn list \<Rightarrow> tcp_conn option" where
  "loop_turns W [] = Some W"
| "loop_turns W (t # ts) = do { W \<leftarrow> loop_turn W t; loop_turns W ts }"

text \<open>\<open>TcpServer::newConnection\<close>: a connection, listed and queued to be established in its loop.\<close>

definition newConnection :: "kvserver \<Rightarrow> int \<Rightarrow> (int \<rightharpoonup> 32 word) \<Rightarrow> bool \<Rightarrow> tcp_conn" where
  "newConnection S sockfd ep write_complete =
     \<lparr>conn_state = kConnection, conn_fd = sockfd, events = 0, index = kNew, tied = False,
      inputBuffer = Buffer_new, outputBuffer = Buffer_new, writeCompleteCallback = write_complete,
      highWaterMarkCallback = False, highWaterMark = 64 * 1024 * 1024, listed = True, poller = ep, channels = {},
      pendingFunctors = [ConnectionEstablished], mainFunctors = [], shutdownWrite = False, kv = S,
      wire = [], replies = []\<rparr>"

text \<open>The loops take turns: the index of the loop for a new connection and the next one.\<close>

definition getNextLoop :: "nat \<Rightarrow> nat \<Rightarrow> nat option \<times> nat" where
  "getNextLoop loops next = (if loops = 0 then (None, next) else (Some next, if loops \<le> next + 1 then 0 else next + 1))"


section \<open>The interest set\<close>

definition poll_inv :: "tcp_conn \<Rightarrow> bool" where
  "poll_inv W \<longleftrightarrow> index W \<in> {kNew, kAdded, kDeleted} \<and>
     poller W (conn_fd W) = (if index W = kAdded then Some (events W) else None)"

lemmas index_defs = kNew_def kAdded_def kDeleted_def

text \<open>\<open>epoll_ctl\<close> never fails: the poller knows a channel exactly when its index says so.\<close>

lemma updateChannel_ok:
  assumes "poll_inv (W\<lparr>events := e\<rparr>)" "events W' = e'" "W' = W\<lparr>events := e'\<rparr>"
  obtains p cs i where "updateChannel W' = Some (W'\<lparr>poller := p, channels := cs, index := i\<rparr>)"
    and "poll_inv (W'\<lparr>poller := p, channels := cs, index := i\<rparr>)" and "e' \<noteq> kNoneEvent \<Longrightarrow> i = kAdded"
proof -
  let ?p = "if index W = kAdded \<and> e' = kNoneEvent then (poller W)(conn_fd W := None) else (poller W)(conn_fd W \<mapsto> e')"
  let ?cs = "if index W = kNew then insert (conn_fd W) (channels W) else channels W"
  let ?i = "if index W = kAdded \<and> e' = kNoneEvent then kDeleted else kAdded"
  have "updateChannel W' = Some (W'\<lparr>poller := ?p, channels := ?cs, index := ?i\<rparr>)"
    using assms by (cases W) (auto simp: updateChannel_def update_def poll_inv_def index_defs isNoneEvent_def Let_def)
  moreover have "poll_inv (W'\<lparr>poller := ?p, channels := ?cs, index := ?i\<rparr>)"
    using assms by (auto simp: poll_inv_def index_defs)
  ultimately show thesis by (rule that) simp
qed

section \<open>The invariant of a connection\<close>

text \<open>
  The bytes taken by the kernel with those that wait in the output buffer are the replies in
  order, as long as the connection is up; afterwards they are the beginning of the replies.
\<close>

definition stream :: "tcp_conn \<Rightarrow> string" where
  "stream W = wire W @ content (outputBuffer W)"

definition stream_inv :: "tcp_conn \<Rightarrow> bool" where
  "stream_inv W \<longleftrightarrow> (case conn_state W of
     kConnection \<Rightarrow> replies W = [] \<and> stream W = [] \<and> \<not> isWriting W \<and> index W \<noteq> kAdded
   | kConnected \<Rightarrow> stream W = concat (replies W) \<and> (content (outputBuffer W) \<noteq> [] \<longrightarrow> isWriting W) \<and> index W = kAdded
   | kDisconnecting \<Rightarrow> False
   | kDisconnected \<Rightarrow> prefix (stream W) (concat (replies W)) \<and> \<not> isWriting W)"

definition functors_inv :: "tcp_conn \<Rightarrow> pending_functor list \<Rightarrow> bool" where
  "functors_inv W fs \<longleftrightarrow> count_list fs ConnectionEstablished \<le> (if conn_state W = kConnection then 1 else 0) \<and>
     (\<forall>f \<in> set (mainFunctors W). f = RemoveConnectionInLoop)"

definition conn_inv :: "tcp_conn \<Rightarrow> bool" where
  "conn_inv W \<longleftrightarrow> buf_ok (inputBuffer W) \<and> buf_ok (outputBuffer W) \<and> poll_inv W \<and> stream_inv W \<and> functors_inv W (pendingFunctors W)"

lemma writing_bits [simp]:
  "(e OR kReadEvent) AND kWriteEvent = e AND kWriteEvent" "(e OR kWriteEvent) AND kWriteEvent = kWriteEvent"
  "e OR kWriteEvent \<noteq> kNoneEvent" "e OR kReadEvent \<noteq> kNoneEvent" "kWriteEvent \<noteq> 0" "kNoneEvent AND e = 0"
proof -
  show "(e OR kReadEvent) AND kWriteEvent = e AND kWriteEvent"
    by (simp add: bit.conj_disj_distrib2 kReadEvent_def kWriteEvent_def)
  show w: "(e OR kWriteEvent) AND kWriteEvent = kWriteEvent" by (simp add: bit.conj_disj_distrib2 or.commute)
  have r: "(e OR kReadEvent) AND kReadEvent = kReadEvent" by (simp add: bit.conj_disj_distrib2 or.commute)
  show "kWriteEvent \<noteq> 0" by (simp add: kWriteEvent_def)
  show "e OR kWriteEvent \<noteq> kNoneEvent"
  proof
    assume h: "e OR kWriteEvent = kNoneEvent"
    show False using w unfolding h by (simp add: kNoneEvent_def kWriteEvent_def)
  qed
  show "e OR kReadEvent \<noteq> kNoneEvent"
  proof
    assume h: "e OR kReadEvent = kNoneEvent"
    show False using r unfolding h by (simp add: kNoneEvent_def kReadEvent_def)
  qed
  show "kNoneEvent AND e = 0" by (simp add: kNoneEvent_def)
qed

lemma poll_inv_events: "poll_inv W \<Longrightarrow> poll_inv (W\<lparr>events := events W\<rparr>)"
  by simp

text \<open>Fields that the invariant does not mention, and the input buffer.\<close>

lemma conn_inv_cong:
  assumes "conn_inv W" and "outputBuffer V = outputBuffer W" and "conn_state V = conn_state W" and "conn_fd V = conn_fd W"
    and "events V = events W" and "index V = index W" and "poller V = poller W" and "wire V = wire W" and "replies V = replies W"
    and "buf_ok (inputBuffer V)" and "functors_inv V (pendingFunctors V)"
  shows "conn_inv V"
  using assms by (cases "conn_state W") (auto simp: conn_inv_def stream_inv_def stream_def isWriting_def poll_inv_def)

text \<open>Changing the events of the channel: what stays and what is new.\<close>

lemma channel_update:
  assumes "poll_inv W" and "V = W\<lparr>events := e'\<rparr>"
  obtains p cs i where "updateChannel V = Some (V\<lparr>poller := p, channels := cs, index := i\<rparr>)"
    and "poll_inv (V\<lparr>poller := p, channels := cs, index := i\<rparr>)" and "e' \<noteq> kNoneEvent \<Longrightarrow> i = kAdded"
  by (rule updateChannel_ok [OF poll_inv_events [OF assms(1)] _ assms(2)]) (use assms(2) in auto)

lemma functors_inv_snoc: "functors_inv W fs \<Longrightarrow> f \<noteq> ConnectionEstablished \<Longrightarrow> functors_inv W (fs @ [f])"
  by (simp add: functors_inv_def)

lemma functors_inv_cong: "functors_inv W fs \<Longrightarrow> conn_state V = conn_state W \<Longrightarrow> mainFunctors V = mainFunctors W \<Longrightarrow> functors_inv V fs"
  by (simp add: functors_inv_def)

lemma send_direct_ok:
  assumes "send_direct W m res = Some (V, n, f)" and "res \<noteq> Pipe_error" and "functors_inv W (pendingFunctors W)" and "buf_ok (outputBuffer W)"
  obtains fs where "V = W\<lparr>wire := wire W @ take n m, pendingFunctors := fs\<rparr>" and "\<not> f" and "n \<le> length m"
    and "n \<noteq> 0 \<Longrightarrow> content (outputBuffer W) = []" and "functors_inv W fs"
proof -
  have W: "W = W\<lparr>wire := wire W @ [], pendingFunctors := pendingFunctors W\<rparr>" by (cases W) simp
  have rd: "readableBytes (outputBuffer W) = 0 \<longleftrightarrow> content (outputBuffer W) = []"
    using length_content [OF assms(4)] by auto
  show thesis
  proof (cases "\<not> isWriting W \<and> readableBytes (outputBuffer W) = 0")
    case True
    then obtain r where r: "taken res (length m) = Some r" using assms(1) by (auto simp: send_direct_def bind_eq_Some_conv)
    show thesis
    proof (cases "r \<ge> 0")
      case pos: True
      let ?fs = "if length m - nat r = 0 \<and> writeCompleteCallback W then pendingFunctors W @ [WriteComplete] else pendingFunctors W"
      have "V = W\<lparr>wire := wire W @ take n m, pendingFunctors := ?fs\<rparr>" "n = nat r" "\<not> f"
        using assms(1) True r pos by (auto simp: send_direct_def queueLoop_def Let_def split: if_splits)
      moreover have "nat r \<le> length m" using r pos by (auto simp: taken_def split: write_result.splits if_splits)
      moreover have "functors_inv W ?fs" using assms(3) functors_inv_snoc by simp
      ultimately show thesis using True rd by (intro that [of ?fs]) auto
    next
      case False
      then have "V = W" "n = 0" "\<not> f" using assms(1,2) True r by (auto simp: send_direct_def)
      then show thesis using assms(3) W by (intro that [of "pendingFunctors W"]) auto
    qed
  next
    case False
    then have "V = W" "n = 0" "\<not> f" using assms(1) by (auto simp: send_direct_def)
    then show thesis using assms(3) W by (intro that [of "pendingFunctors W"]) auto
  qed
qed

lemma send_rest_ok:
  assumes "buf_ok (outputBuffer W)" and "poll_inv W" and "functors_inv W (pendingFunctors W)"
  obtains b fs e p cs i where
    "send_rest W rest = Some (W\<lparr>pendingFunctors := fs, outputBuffer := b, events := e, poller := p, channels := cs, index := i\<rparr>)"
    and "buf_ok b" and "content b = content (outputBuffer W) @ rest" and "e AND kWriteEvent \<noteq> 0" and "functors_inv W fs"
    and "poll_inv (W\<lparr>pendingFunctors := fs, outputBuffer := b, events := e, poller := p, channels := cs, index := i\<rparr>)"
    and "index W = kAdded \<Longrightarrow> i = kAdded" and "\<not> highWaterMarkCallback W \<Longrightarrow> fs = pendingFunctors W"
proof -
  let ?old = "readableBytes (outputBuffer W)"
  define fs where "fs = (if ?old + length rest \<ge> highWaterMark W \<and> ?old < highWaterMark W \<and> highWaterMarkCallback W
      then pendingFunctors W @ [HighWaterMark (?old + length rest)] else pendingFunctors W)"
  have fs: "functors_inv W fs" "\<not> highWaterMarkCallback W \<Longrightarrow> fs = pendingFunctors W"
    using assms(3) functors_inv_snoc by (auto simp: fs_def)
  obtain b where b: "buf_append (outputBuffer W) rest = Some b" "buf_ok b" "content b = content (outputBuffer W) @ rest"
    using buffer.push [OF assms(1)] by blast
  let ?V = "W\<lparr>pendingFunctors := fs, outputBuffer := b\<rparr>"
  have s: "send_rest W rest = (if \<not> isWriting ?V then enableWriting ?V else Some ?V)"
  proof -
    have "(if ?old + length rest \<ge> highWaterMark W \<and> ?old < highWaterMark W \<and> highWaterMarkCallback W
        then queueLoop W (HighWaterMark (?old + length rest)) else W) = W\<lparr>pendingFunctors := fs\<rparr>"
      by (cases W) (simp add: fs_def queueLoop_def)
    then show ?thesis using b(1) by (simp add: send_rest_def Let_def)
  qed
  have pV: "poll_inv ?V" using assms(2) by (simp add: poll_inv_def)
  show thesis
  proof (cases "isWriting W")
    case True
    have "?V = W\<lparr>pendingFunctors := fs, outputBuffer := b, events := events W, poller := poller W, channels := channels W, index := index W\<rparr>"
      by (cases W) simp
    then show thesis using s True b fs pV by (intro that [where fs = fs and b = b and e = "events W" and p = "poller W" and cs = "channels W" and i = "index W"]) (auto simp: isWriting_def)
  next
    case False
    let ?E = "?V\<lparr>events := events W OR kWriteEvent\<rparr>"
    obtain p cs i where u: "updateChannel ?E = Some (?E\<lparr>poller := p, channels := cs, index := i\<rparr>)"
        "poll_inv (?E\<lparr>poller := p, channels := cs, index := i\<rparr>)" "i = kAdded"
      by (rule channel_update [OF pV, of ?E "events W OR kWriteEvent"]) auto
    then show thesis using s False b fs
      by (intro that [where fs = fs and b = b and e = "events W OR kWriteEvent" and p = p and cs = cs and i = i]) (auto simp: isWriting_def enableWriting_def)
  qed
qed


lemma sendInLoop_inv:
  assumes I: "buf_ok (inputBuffer W)" "buf_ok (outputBuffer W)" "poll_inv W" "functors_inv W (pendingFunctors W)" "index W = kAdded"
    and up: "conn_state W = kConnected" and st: "stream W @ m = concat (replies W)" "content (outputBuffer W) \<noteq> [] \<Longrightarrow> isWriting W"
    and res: "res \<noteq> Pipe_error" and s: "sendInLoop W m res = Some W'"
  shows "conn_inv W' \<and> conn_state W' = kConnected"
proof -
  obtain V n f where d: "send_direct W m res = Some (V, n, f)" using s up by (auto simp: sendInLoop_def bind_eq_Some_conv)
  obtain fs where V: "V = W\<lparr>wire := wire W @ take n m, pendingFunctors := fs\<rparr>" "\<not> f" "n \<le> length m"
      "n \<noteq> 0 \<Longrightarrow> content (outputBuffer W) = []" "functors_inv W fs"
    by (rule send_direct_ok [OF d res I(4,2)]) blast
  have stV: "wire V @ content (outputBuffer V) @ drop n m = concat (replies W)"
    using st(1) V(1,4) by (cases "n = 0") (auto simp: stream_def)
  have pV: "poll_inv V" using I(3) V(1) by (simp add: poll_inv_def)
  have fV: "functors_inv V (pendingFunctors V)" using V(1,5) by (simp add: functors_inv_def)
  show ?thesis
  proof (cases "length m - n > 0")
    case True
    then have r: "send_rest V (drop n m) = Some W'" using s up d V(2) by (simp add: sendInLoop_def)
    have bV: "buf_ok (outputBuffer V)" using I(2) V(1) by simp
    obtain b gs e p cs i where
        W': "W' = V\<lparr>pendingFunctors := gs, outputBuffer := b, events := e, poller := p, channels := cs, index := i\<rparr>"
        "buf_ok b" "content b = content (outputBuffer V) @ drop n m" "e AND kWriteEvent \<noteq> 0" "functors_inv V gs" "poll_inv W'" "i = kAdded"
      by (rule send_rest_ok [OF bV pV fV, of "drop n m"]) (use r V(1) I(5) in auto)
    then show ?thesis using stV I(1) up V(1)
      by (simp add: conn_inv_def stream_inv_def stream_def isWriting_def functors_inv_def)
  next
    case False
    then have W': "W' = V" using s up d V(2) by (simp add: sendInLoop_def)
    have "n = length m" using False V(3) by simp
    then show ?thesis using stV I up pV fV V(1) st(2) unfolding W'
      by (simp add: conn_inv_def stream_inv_def stream_def isWriting_def)
  qed
qed

lemma disableAll_ok:
  assumes "poll_inv W"
  obtains p cs i where "disableAll W = Some (W\<lparr>events := kNoneEvent, poller := p, channels := cs, index := i\<rparr>)"
    and "poll_inv (W\<lparr>events := kNoneEvent, poller := p, channels := cs, index := i\<rparr>)"
  by (rule channel_update [OF assms refl, of kNoneEvent]) (auto simp: disableAll_def)

lemma stream_prefix: "conn_inv W \<Longrightarrow> prefix (stream W) (concat (replies W))"
  by (auto simp: conn_inv_def stream_inv_def split: StateE.splits)

lemma handleClose_inv:
  assumes inv: "conn_inv W" and "conn_state W \<noteq> kConnection" and s: "handleClose W = Some W'"
  shows "conn_inv W' \<and> conn_state W' = kDisconnected"
proof -
  let ?D = "W\<lparr>conn_state := kDisconnected\<rparr>"
  have "poll_inv ?D" using inv by (simp add: conn_inv_def poll_inv_def)
  then obtain p cs i where d: "disableAll ?D = Some (?D\<lparr>events := kNoneEvent, poller := p, channels := cs, index := i\<rparr>)"
      "poll_inv (?D\<lparr>events := kNoneEvent, poller := p, channels := cs, index := i\<rparr>)"
    by (rule disableAll_ok)
  have "prefix (stream W) (concat (replies W))" by (rule stream_prefix [OF inv])
  then show ?thesis using d inv s assms(2)
    by (auto simp: handleClose_def conn_inv_def stream_inv_def stream_def isWriting_def functors_inv_def poll_inv_def)
qed

lemma handleWrite_inv:
  assumes inv: "conn_inv W" and s: "handleWrite W res = Some W'"
  shows "conn_inv W' \<and> conn_state W' = conn_state W"
proof (cases "isWriting W")
  case False
  then show ?thesis using s inv by (simp add: handleWrite_def)
next
  case wr: True
  then have up: "conn_state W = kConnected" using inv by (auto simp: conn_inv_def stream_inv_def split: StateE.splits)
  obtain n where n: "taken res (readableBytes (outputBuffer W)) = Some n" using s wr by (auto simp: handleWrite_def bind_eq_Some_conv)
  show ?thesis
  proof (cases "n > 0")
    case False
    then show ?thesis using s wr n inv by (simp add: handleWrite_def)
  next
    case True
    let ?b = "retrieve (outputBuffer W) (nat n)"
    let ?fs = "if readableBytes ?b = 0 then pendingFunctors W @ [WriteComplete] else pendingFunctors W"
    have W': "W' = W\<lparr>wire := wire W @ take (nat n) (content (outputBuffer W)), outputBuffer := ?b, pendingFunctors := ?fs\<rparr>"
      using s wr n True up by (cases W) (auto simp: handleWrite_def Let_def queueLoop_def writeFd_def content_def)
    have ok: "buf_ok (outputBuffer W)" using inv by (simp add: conn_inv_def)
    have "take (nat n) (content (outputBuffer W)) @ content ?b = content (outputBuffer W)" by (rule buffer.pop_stream [OF ok])
    moreover have "functors_inv W ?fs" using inv functors_inv_snoc by (simp add: conn_inv_def)
    ultimately show ?thesis using inv up wr buffer.pop [OF ok, of "nat n"]
      by (simp add: W' conn_inv_def stream_inv_def stream_def isWriting_def functors_inv_def poll_inv_def)
  qed
qed


lemma onMessage_inv:
  assumes inv: "conn_inv W" and st: "conn_state W \<noteq> kConnection" and res: "res \<noteq> Pipe_error" and s: "onMessage W res = Some W'"
  shows "conn_inv W' \<and> conn_state W' = conn_state W"
proof -
  have ib: "buf_ok (inputBuffer W)" using inv by (simp add: conn_inv_def)
  have ra: "retrieveAllAsString (inputBuffer W) = Some (content (inputBuffer W), retrieveAll (inputBuffer W))" "buf_ok (retrieveAll (inputBuffer W))"
    using retrieveAll_string [OF ib] by auto
  let ?V = "W\<lparr>inputBuffer := retrieveAll (inputBuffer W)\<rparr>"
  obtain rb where rb: "strcpy_into (rbuffer zero_item) (content (inputBuffer W)) = Some rb"
    using s ra(1) by (auto simp: onMessage_def bind_eq_Some_conv)
  obtain out where out: "kvstore_requese (kv W) (zero_item\<lparr>rbuffer := rb\<rparr>) = Some out"
    using s ra(1) rb by (auto simp: onMessage_def bind_eq_Some_conv)
  obtain item S where o: "out = Returned (item, S)" using s ra(1) rb out by (cases out) (auto simp: onMessage_def)
  let ?R = "?V\<lparr>kv := S, replies := replies W @ [wbuffer item]\<rparr>"
  have c: "conn_send ?R (wbuffer item) res = Some W'" using s ra(1) rb out o by (simp add: onMessage_def Let_def)
  show ?thesis
  proof (cases "conn_state W = kConnected")
    case True
    then have "sendInLoop ?R (wbuffer item) res = Some W'" using c by (simp add: conn_send_def)
    then have "conn_inv W' \<and> conn_state W' = kConnected"
      by (rule sendInLoop_inv [rotated 9])
        (use inv True ra(2) res in \<open>auto simp: conn_inv_def stream_inv_def stream_def isWriting_def functors_inv_def poll_inv_def\<close>)
    with True show ?thesis by simp
  next
    case False
    then have W': "W' = ?R" using c by (simp add: conn_send_def)
    have "conn_state W = kDisconnected" using inv st False by (auto simp: conn_inv_def stream_inv_def split: StateE.splits)
    then show ?thesis using inv ra(2) unfolding W'
      by (auto simp: conn_inv_def stream_inv_def stream_def isWriting_def functors_inv_def poll_inv_def prefix_def)
  qed
qed

lemma handleRead_inv:
  assumes inv: "conn_inv W" and st: "conn_state W \<noteq> kConnection" and res: "res \<noteq> Pipe_error" and s: "handleRead W rd res = Some W'"
  shows "conn_inv W' \<and> conn_state W' \<noteq> kConnection"
proof -
  obtain n b where rd: "readFd (inputBuffer W) rd = Some (n, b)" using s by (auto simp: handleRead_def bind_eq_Some_conv)
  have ib: "buf_ok (inputBuffer W)" using inv by (simp add: conn_inv_def)
  have "buf_ok b"
  proof (cases rd)
    case (Some d)
    then have "length d \<le> readv_room (inputBuffer W)" using rd by (auto simp: readFd_def split: if_splits)
    then show ?thesis using readFd_ok [OF ib, of d] rd Some by auto
  qed (use rd ib in \<open>simp add: readFd_def\<close>)
  then have "conn_inv (W\<lparr>inputBuffer := b\<rparr>)"
    using inv by (intro conn_inv_cong [OF inv]) (simp_all add: conn_inv_def functors_inv_def)
  then have V: "conn_inv (W\<lparr>inputBuffer := b\<rparr>)" "conn_state (W\<lparr>inputBuffer := b\<rparr>) \<noteq> kConnection" using st by simp_all
  consider "n > 0" | "n = 0" | "n < 0" by linarith
  then show ?thesis
  proof cases
    case 1
    then have "onMessage (W\<lparr>inputBuffer := b\<rparr>) res = Some W'" using s rd by (simp add: handleRead_def)
    from onMessage_inv [OF V res this] V(2) show ?thesis by simp
  next
    case 2
    then have "handleClose (W\<lparr>inputBuffer := b\<rparr>) = Some W'" using s rd by (simp add: handleRead_def)
    from handleClose_inv [OF V this] show ?thesis by simp
  next
    case 3
    then have "W' = W\<lparr>inputBuffer := b\<rparr>" using s rd by (simp add: handleRead_def handleError_def)
    with V show ?thesis by simp
  qed
qed

lemma callbacks_inv:
  assumes inv: "conn_inv W" and st: "conn_state W \<noteq> kConnection" and res: "wr \<noteq> Pipe_error"
    and g: "do { W \<leftarrow> (if hup then handleClose W else Some W);
                 W \<leftarrow> (if rd_ev then handleRead W rd wr else Some W);
                 if wr_ev then handleWrite W wr2 else Some W } = Some W'"
  shows "conn_inv W'"
proof -
  obtain W1 where W1: "(if hup then handleClose W else Some W) = Some W1" using g by (auto simp: bind_eq_Some_conv)
  then have i1: "conn_inv W1" "conn_state W1 \<noteq> kConnection" using handleClose_inv [OF inv st] inv st by (auto split: if_splits)
  obtain W2 where W2: "(if rd_ev then handleRead W1 rd wr else Some W1) = Some W2" "(if wr_ev then handleWrite W2 wr2 else Some W2) = Some W'"
    using g W1 by (auto simp: bind_eq_Some_conv)
  have "conn_inv W2" using W2(1) handleRead_inv [OF i1 res] i1 by (auto split: if_splits)
  then show ?thesis using W2(2) handleWrite_inv by (auto split: if_splits)
qed

lemma handleEvent_inv:
  assumes inv: "conn_inv W" and st: "conn_state W \<noteq> kConnection" and res: "wr \<noteq> Pipe_error" and s: "handleEvent W ev rd wr wr2 = Some W'"
  shows "conn_inv W'"
proof (cases "tied W \<and> \<not> alive W")
  case True
  then show ?thesis using s inv by (simp add: handleEvent_def)
next
  case False
  then have g: "handleEventWithGuard W ev rd wr wr2 = Some W'" unfolding s [symmetric] handleEvent_def by auto
  show ?thesis
    using g unfolding handleEventWithGuard_def handleError_def Let_def if_cancel by (rule callbacks_inv [OF inv st res])
qed

lemma removeChannel_inv:
  assumes "conn_inv W" and "conn_state W \<noteq> kConnected" and "removeChannel W = Some W'"
  shows "conn_inv W' \<and> conn_state W' = conn_state W"
proof -
  have W': "W' = W\<lparr>channels := channels W - {conn_fd W}, poller := (if index W = kAdded then (poller W)(conn_fd W := None) else poller W), index := kDeleted\<rparr>"
    using assms(3) by (cases W) (auto simp: removeChannel_def update_def Let_def)
  then show ?thesis using assms(1,2)
    by (auto simp: conn_inv_def stream_inv_def stream_def isWriting_def functors_inv_def poll_inv_def index_defs split: StateE.splits)
qed

lemma connectionDestroyed_inv:
  assumes inv: "conn_inv W" and s: "connectionDestroyed W = Some W'"
  shows "conn_inv W' \<and> (conn_state W' = kConnection \<longleftrightarrow> conn_state W = kConnection)"
proof (cases "conn_state W = kConnected")
  case True
  let ?D = "W\<lparr>conn_state := kDisconnected\<rparr>"
  have "poll_inv ?D" using inv by (simp add: conn_inv_def poll_inv_def)
  then obtain p cs i where d: "disableAll ?D = Some (?D\<lparr>events := kNoneEvent, poller := p, channels := cs, index := i\<rparr>)"
      "poll_inv (?D\<lparr>events := kNoneEvent, poller := p, channels := cs, index := i\<rparr>)"
    by (rule disableAll_ok)
  let ?V = "?D\<lparr>events := kNoneEvent, poller := p, channels := cs, index := i\<rparr>"
  have "conn_inv ?V" using d(2) inv stream_prefix [OF inv] True
    by (simp add: conn_inv_def stream_inv_def stream_def isWriting_def functors_inv_def)
  moreover have "removeChannel ?V = Some W'" using s d(1) True by (simp add: connectionDestroyed_def)
  ultimately show ?thesis using removeChannel_inv [of ?V W'] True by simp
next
  case False
  then have "removeChannel W = Some W'" using s by (simp add: connectionDestroyed_def)
  then show ?thesis using removeChannel_inv [OF inv False] by simp
qed

lemma established_inv:
  assumes inv: "conn_inv W" and st: "conn_state W = kConnection" and pf: "count_list (pendingFunctors W) ConnectionEstablished = 0"
    and s: "connectionEstablished W = Some W'"
  shows "conn_inv W' \<and> conn_state W' = kConnected"
proof -
  let ?T = "W\<lparr>conn_state := kConnected, tied := True\<rparr>"
  let ?E = "?T\<lparr>events := events W OR kReadEvent\<rparr>"
  have "poll_inv ?T" using inv by (simp add: conn_inv_def poll_inv_def)
  then obtain p cs i where u: "updateChannel ?E = Some (?E\<lparr>poller := p, channels := cs, index := i\<rparr>)"
      "poll_inv (?E\<lparr>poller := p, channels := cs, index := i\<rparr>)" "i = kAdded"
    by (rule channel_update [of ?T ?E "events W OR kReadEvent"]) auto
  then have "W' = ?E\<lparr>poller := p, channels := cs, index := i\<rparr>" using s by (simp add: connectionEstablished_def enableReading_def)
  with u inv st pf show ?thesis
    by (simp add: conn_inv_def stream_inv_def stream_def isWriting_def functors_inv_def)
qed

text \<open>Functors one after the other; the established one comes once, before the connection is up.\<close>

lemma call_functors_inv:
  assumes "conn_inv W" and "functors_inv W (pendingFunctors W @ fs)" and "call_functors W fs = Some W'"
  shows "conn_inv W'"
  using assms
proof (induction fs arbitrary: W)
  case (Cons f fs)
  obtain W1 where W1: "call_functor W f = Some W1" "call_functors W1 fs = Some W'"
    using Cons.prems(3) by (auto simp: bind_eq_Some_conv)
  have fi: "functors_inv W (pendingFunctors W @ f # fs)" using Cons.prems(2) .
  show ?case
  proof (cases f)
    case ConnectionEstablished
    then have st: "conn_state W = kConnection" and pf: "count_list (pendingFunctors W) ConnectionEstablished = 0" "count_list fs ConnectionEstablished = 0"
      using fi by (auto simp: functors_inv_def split: if_splits)
    have i: "conn_inv W1 \<and> conn_state W1 = kConnected"
      using established_inv [OF Cons.prems(1) st pf(1)] W1(1) ConnectionEstablished by simp
    then have "functors_inv W1 (pendingFunctors W1 @ fs)" using pf(2) by (auto simp: conn_inv_def functors_inv_def)
    then show ?thesis using Cons.IH i W1(2) by blast
  next
    case ConnectionDestroyed
    then have i: "conn_inv W1 \<and> (conn_state W1 = kConnection \<longleftrightarrow> conn_state W = kConnection)"
      using connectionDestroyed_inv [OF Cons.prems(1)] W1(1) by simp
    have "pendingFunctors W1 = pendingFunctors W" using W1(1) ConnectionDestroyed
      by (auto simp: connectionDestroyed_def disableAll_def removeChannel_def updateChannel_def update_def bind_eq_Some_conv Let_def split: if_splits)
    with fi i have "functors_inv W1 (pendingFunctors W1 @ fs)" using ConnectionDestroyed
      by (auto simp: functors_inv_def conn_inv_def)
    then show ?thesis using Cons.IH i W1(2) by blast
  next
    case WriteComplete
    then show ?thesis using Cons.IH [of W1] W1 Cons.prems(1) fi by (auto simp: functors_inv_def split: if_splits)
  next
    case (HighWaterMark n)
    then show ?thesis using Cons.IH [of W1] W1 Cons.prems(1) fi by (auto simp: functors_inv_def split: if_splits)
  next
    case RemoveConnectionInLoop
    then have "W1 = W\<lparr>listed := False, pendingFunctors := pendingFunctors W @ [ConnectionDestroyed]\<rparr>" using W1(1) by (simp add: queueLoop_def)
    moreover from this have "conn_inv W1"
      using Cons.prems(1) by (intro conn_inv_cong [OF Cons.prems(1)]) (simp_all add: conn_inv_def functors_inv_def)
    moreover have "functors_inv W1 (pendingFunctors W1 @ fs)" using fi RemoveConnectionInLoop calculation(1) by (simp add: functors_inv_def)
    ultimately show ?thesis using Cons.IH W1(2) by blast
  qed
qed simp

lemma loop_turn_inv:
  assumes inv: "conn_inv W" and t: "\<And>ev rd wr wr2. t = Turn ev rd wr wr2 \<Longrightarrow> wr \<noteq> Pipe_error" and s: "loop_turn W t = Some W'"
  shows "conn_inv W'"
proof -
  have fun_step: "conn_inv V'" if V: "conn_inv V" "doPendingFunctors V = Some V'" for V V'
  proof -
    have "functors_inv V (pendingFunctors V)" using V(1) by (simp add: conn_inv_def)
    then have "functors_inv (V\<lparr>pendingFunctors := []\<rparr>) (pendingFunctors (V\<lparr>pendingFunctors := []\<rparr>) @ pendingFunctors V)"
      by (simp add: functors_inv_def)
    moreover have "conn_inv (V\<lparr>pendingFunctors := []\<rparr>)"
      by (rule conn_inv_cong [OF V(1)]) (use V(1) in \<open>simp_all add: conn_inv_def functors_inv_def\<close>)
    ultimately show ?thesis using V(2) call_functors_inv by (simp add: doPendingFunctors_def)
  qed
  show ?thesis
  proof (cases t)
    case (Turn ev rd wr wr2)
    then obtain V where V: "(if poller W (conn_fd W) = None then Some W else handleEvent W ev rd wr wr2) = Some V" "doPendingFunctors V = Some W'"
      using s by (auto simp: bind_eq_Some_conv)
    have "conn_inv V"
    proof (cases "poller W (conn_fd W) = None")
      case False
      then have "conn_state W \<noteq> kConnection" using inv by (auto simp: conn_inv_def poll_inv_def stream_inv_def split: if_splits)
      then show ?thesis using handleEvent_inv [OF inv _ t [OF Turn]] V(1) False by simp
    qed (use V(1) inv in simp)
    then show ?thesis using fun_step V(2) by blast
  next
    case Functors
    then show ?thesis using fun_step [OF inv] s by simp
  next
    case Main_functors
    let ?fs = "mainFunctors W"
    have "functors_inv (W\<lparr>mainFunctors := []\<rparr>) (pendingFunctors W @ ?fs)"
    proof -
      have "count_list ?fs ConnectionEstablished = 0" using inv by (auto simp: conn_inv_def functors_inv_def count_list_0_iff)
      then show ?thesis using inv by (simp add: conn_inv_def functors_inv_def)
    qed
    moreover have "conn_inv (W\<lparr>mainFunctors := []\<rparr>)"
      by (rule conn_inv_cong [OF inv]) (use inv in \<open>simp_all add: conn_inv_def functors_inv_def\<close>)
    ultimately show ?thesis using call_functors_inv [of "W\<lparr>mainFunctors := []\<rparr>" ?fs W'] s Main_functors
      by (simp add: mainPendingFunctors_def)
  qed
qed

end
