(* ===== verification/Km_Server.thy ===== *)
theory Km_Server
  imports Km_Conn
begin

text \<open>
  The Kmuduo front end as a server: its sessions agree with those of the other front ends, and what
  happens to a client that does not read its replies at once.
\<close>

unbundle bit_operations_syntax

section \<open>A request\<close>

text \<open>A connection that is up, with nothing waiting.\<close>

definition km_ready :: "tcp_conn \<Rightarrow> bool" where
  "km_ready W \<longleftrightarrow> conn_inv W \<and> conn_state W = kConnected \<and> tied W \<and> listed W \<and> pendingFunctors W = [] \<and>
     content (inputBuffer W) = [] \<and> content (outputBuffer W) = [] \<and> \<not> isWriting W"

lemma strcpy_plain:
  assumes "plain_request m"
  obtains r where "strcpy_into (rbuffer zero_item) m = Some (m @ NUL # r)"
proof -
  have e: "takeWhile (\<lambda>c. c \<noteq> NUL) m = m" using assms by (auto simp: plain_request_def takeWhile_eq_all_conv)
  have "length m < length (rbuffer zero_item)" using assms by (simp add: plain_request_def zero_item_def)
  then show thesis by (intro that [of "drop (Suc (length m)) (rbuffer zero_item)"]) (simp only: strcpy_into_def Let_def e, simp)
qed

lemma room: "EXTRABUF \<le> readv_room b"
  by (simp add: readv_room_def)

lemma newConnection_inv: "ep fd = None \<Longrightarrow> conn_inv (newConnection S fd ep wc)"
  by (simp add: conn_inv_def newConnection_def poll_inv_def stream_inv_def stream_def functors_inv_def isWriting_def index_defs)

text \<open>The events for reading only and for writing only.\<close>

lemma read_event: "handleEventWithGuard W 1 rd wr wr2 = handleRead W rd wr"
  by (simp add: handleEventWithGuard_def handleError_def Let_def)

lemma write_event: "handleEventWithGuard W 4 rd wr wr2 = handleWrite W wr2"
  by (simp add: handleEventWithGuard_def handleError_def Let_def)

text \<open>Reading a request up to the point where the reply is handed to the connection.\<close>

lemma read_request:
  assumes W: "km_ready W" and m: "plain_request m"
    and z: "kvstore_requese (kv W) (zero_item\<lparr>rbuffer := recv_into (rbuffer zero_item) m\<rparr>) = Some (Returned (j, S1))"
  obtains b where "handleEvent W 1 (Some m) wr wr2 =
      sendInLoop (W\<lparr>inputBuffer := b, kv := S1, replies := replies W @ [wbuffer j]\<rparr>) (wbuffer j) wr"
    and "buf_ok b" and "content b = []"
proof -
  have R: "conn_inv W" "conn_state W = kConnected" "tied W" "listed W" "content (inputBuffer W) = []" using W by (auto simp: km_ready_def)
  have ib: "buf_ok (inputBuffer W)" using R(1) by (simp add: conn_inv_def)
  have "length m \<le> readv_room (inputBuffer W)"
    using m room [of "inputBuffer W"] by (simp add: plain_request_def BUFFER_LENGTH_def EXTRABUF_def)
  then obtain b where b: "readFd (inputBuffer W) (Some m) = Some (int (length m), b)" "buf_ok b" "content b = m"
    using readFd_ok [OF ib] R(5) by auto
  have ra: "retrieveAllAsString b = Some (m, retrieveAll b)" "buf_ok (retrieveAll b)" "content (retrieveAll b) = []"
    using retrieveAll_string [OF b(2)] b(3) by auto
  obtain r where r: "strcpy_into (rbuffer zero_item) m = Some (m @ NUL # r)" by (rule strcpy_plain [OF m])
  obtain j' where j': "kvstore_requese (kv W) (zero_item\<lparr>rbuffer := m @ NUL # r\<rparr>) = Some (Returned (j', S1))" "wbuffer j' = wbuffer j"
    using plain_request_same [OF m _ z, of "zero_item\<lparr>rbuffer := m @ NUL # r\<rparr>" r] by auto
  let ?B = "W\<lparr>inputBuffer := b\<rparr>"
  have "onMessage ?B wr = conn_send (W\<lparr>inputBuffer := retrieveAll b, kv := S1, replies := replies W @ [wbuffer j]\<rparr>) (wbuffer j) wr"
    using ra(1) r j' by (simp add: onMessage_def Let_def)
  moreover have "handleRead W (Some m) wr = onMessage ?B wr"
    using b(1) plain_request_ne [OF m] by (simp add: handleRead_def Let_def)
  ultimately have "handleRead W (Some m) wr =
      sendInLoop (W\<lparr>inputBuffer := retrieveAll b, kv := S1, replies := replies W @ [wbuffer j]\<rparr>) (wbuffer j) wr"
    using R(2) by (simp add: conn_send_def)
  moreover have "handleEvent W 1 (Some m) wr wr2 = handleRead W (Some m) wr"
    using R(3,4) by (simp add: handleEvent_def alive_def read_event)
  ultimately show thesis using ra by (intro that [of "retrieveAll b"]) simp_all
qed

lemma km_request:
  assumes W: "km_ready W" and m: "plain_request m"
    and z: "kvstore_requese (kv W) (zero_item\<lparr>rbuffer := recv_into (rbuffer zero_item) m\<rparr>) = Some (Returned (j, S1))"
  shows "\<exists>W'. loop_turn W (Turn 1 (Some m) Wrote_all wr2) = Some W' \<and> km_ready W' \<and> kv W' = S1 \<and> replies W' = replies W @ [wbuffer j]"
proof -
  obtain b where b: "handleEvent W 1 (Some m) Wrote_all wr2 =
      sendInLoop (W\<lparr>inputBuffer := b, kv := S1, replies := replies W @ [wbuffer j]\<rparr>) (wbuffer j) Wrote_all" "buf_ok b" "content b = []"
    by (rule read_request [OF W m z])
  have R: "conn_inv W" "conn_state W = kConnected" "pendingFunctors W = []" "content (outputBuffer W) = []" "\<not> isWriting W"
    using W by (auto simp: km_ready_def)
  have rd: "readableBytes (outputBuffer W) = 0" using length_content [of "outputBuffer W"] R(1,4) by (simp add: conn_inv_def)
  obtain e where po: "poller W (conn_fd W) = Some e" using R(1,2) by (auto simp: conn_inv_def poll_inv_def stream_inv_def)
  let ?V = "W\<lparr>inputBuffer := b, kv := S1, replies := replies W @ [wbuffer j], wire := wire W @ wbuffer j\<rparr>"
  let ?fs = "if writeCompleteCallback W then [WriteComplete] else []"
  have "sendInLoop (W\<lparr>inputBuffer := b, kv := S1, replies := replies W @ [wbuffer j]\<rparr>) (wbuffer j) Wrote_all =
      Some (?V\<lparr>pendingFunctors := ?fs\<rparr>)"
    using R(2,3,5) rd by (cases W) (simp add: sendInLoop_def send_direct_def taken_def queueLoop_def isWriting_def Let_def)
  moreover have "doPendingFunctors (?V\<lparr>pendingFunctors := ?fs\<rparr>) = Some ?V"
    using R(3) by (cases W) (simp add: doPendingFunctors_def)
  ultimately have t: "loop_turn W (Turn 1 (Some m) Wrote_all wr2) = Some ?V" using b(1) po by simp
  have "conn_inv ?V" by (rule loop_turn_inv [OF R(1) _ t]) simp
  then have "km_ready ?V" using W b(3) by (simp add: km_ready_def isWriting_def)
  then show ?thesis using t by (intro exI [of _ ?V]) simp
qed

section \<open>Sessions\<close>

abbreviation km_evs :: "string \<Rightarrow> turn list" where
  "km_evs m \<equiv> [Turn 1 (Some m) Wrote_all Would_block]"

definition km_run :: "tcp_conn \<Rightarrow> turn list \<Rightarrow> tcp_conn outcome option" where
  "km_run W ts = do { W \<leftarrow> loop_turns W ts; Some (Returned W) }"

interpretation kmuduo: front_end km_run "\<lambda>m. m" "\<lambda>m r. r" km_evs kv "\<lambda>W. map (Pair c) (replies W)" c "\<lambda>W m. km_ready W" "\<lambda>m m'. True" for c
proof unfold_locales
  fix m W j S1
  assume "plain_request m" "km_ready W"
    "kvstore_requese (kv W) (zero_item\<lparr>rbuffer := recv_into (rbuffer zero_item) m\<rparr>) = Some (Returned (j, S1))"
  then obtain W' where "loop_turn W (Turn 1 (Some m) Wrote_all Would_block) = Some W'" "km_ready W'" "kv W' = S1" "replies W' = replies W @ [wbuffer j]"
    using km_request by blast
  then show "\<exists>W'. (\<forall>es. km_run W (km_evs m @ es) = km_run W' es) \<and> kv W' = S1 \<and>
      map (Pair c) (replies W') = map (Pair c) (replies W) @ [(c, wbuffer j)] \<and> (\<forall>m'. True \<longrightarrow> km_ready W')"
    by (intro exI [of _ W']) (simp add: km_run_def)
qed (simp add: km_run_def)

lemma map2_whole: "length rs = length ms \<Longrightarrow> map2 (\<lambda>m r. r) ms rs = rs"
  by (simp add: list_eq_iff_nth_eq)

lemma established:
  assumes "ep fd = None"
  obtains W where "loop_turn (newConnection S fd ep wc) Functors = Some W" and "km_ready W" and "kv W = S" and "replies W = []"
    and "writeCompleteCallback W = wc" and "\<not> highWaterMarkCallback W"
proof -
  let ?N = "newConnection S fd ep wc"
  let ?W = "?N\<lparr>conn_state := kConnected, tied := True, events := kReadEvent, index := kAdded, channels := {fd}, poller := ep(fd \<mapsto> kReadEvent),
      pendingFunctors := []\<rparr>"
  have t: "loop_turn ?N Functors = Some ?W"
    using assms by (simp add: newConnection_def doPendingFunctors_def connectionEstablished_def enableReading_def updateChannel_def update_def)
  moreover have "conn_inv ?W" by (rule loop_turn_inv [OF newConnection_inv [of ep fd S wc] _ t]) (use assms in auto)
  ultimately show thesis
    by (intro that [of ?W]) (simp_all add: km_ready_def newConnection_def isWriting_def kReadEvent_def kWriteEvent_def)
qed

lemma loop_turns_inv:
  assumes "conn_inv W" and "\<forall>t \<in> set ts. \<forall>ev rd wr wr2. t = Turn ev rd wr wr2 \<longrightarrow> wr \<noteq> Pipe_error" and "loop_turns W ts = Some W'"
  shows "conn_inv W'"
  using assms
proof (induction ts arbitrary: W)
  case (Cons t ts)
  obtain W1 where W1: "loop_turn W t = Some W1" "loop_turns W1 ts = Some W'" using Cons.prems(3) by (auto simp: bind_eq_Some_conv)
  have "conn_inv W1" by (rule loop_turn_inv [OF Cons.prems(1) _ W1(1)]) (use Cons.prems(2) in auto)
  then show ?case using Cons.IH W1(2) Cons.prems(2) by simp
qed simp


section \<open>Properties\<close>

text \<open>
  C18. The bytes of a connection are never lost, repeated or reordered: as long as the connection is
  up, what the kernel has taken with what waits in the output buffer are the replies in order,
  whatever the kernel takes at each write; bytes wait only while the channel asks for write
  events, and the interest set of the poller is that of the channel. After the end of the
  connection the client has got a beginning of the replies.
\<close>

theorem kmuduo_stream:
  assumes "ep fd = None" and "\<forall>t \<in> set ts. \<forall>ev rd wr wr2. t = Turn ev rd wr wr2 \<longrightarrow> wr \<noteq> Pipe_error"
    and "loop_turns (newConnection S fd ep wc) ts = Some W"
  shows "prefix (wire W) (concat (replies W)) \<and>
    (conn_state W = kConnected \<longrightarrow> wire W @ content (outputBuffer W) = concat (replies W) \<and>
       (content (outputBuffer W) \<noteq> [] \<longrightarrow> isWriting W) \<and> poller W (conn_fd W) = Some (events W))"
proof -
  have "conn_inv (newConnection S fd ep wc)" using assms(1) by (rule newConnection_inv)
  then have inv: "conn_inv W" using assms(2,3) by (rule loop_turns_inv)
  have "prefix (wire W) (concat (replies W))"
    using stream_prefix [OF inv] by (auto simp: stream_def dest: append_prefixD)
  with inv show ?thesis by (auto simp: conn_inv_def stream_inv_def stream_def poll_inv_def)
qed

theorem kmuduo_stream_witness:
  "\<exists>S0 W. init_kvengine new_server = Some S0 \<and>
     loop_turns (newConnection S0 7 Map.empty False) [Functors, Turn 1 (Some ''HSET key v'') Wrote_all Would_block] = Some W \<and>
     conn_state W = kConnected \<and> replies W = [''SUCCESS''] \<and> wire W @ content (outputBuffer W) = ''SUCCESS''"
proof -
  have r: "req_ok ''HSET'' ''key'' ''v''" by (simp add: req_ok_def msg3_def wal_word_def isspace_def BUFFER_LENGTH_def)
  obtain S0 S where S: "init_kvengine new_server = Some S0"
      "server_reader S0 (reads [msg3 ''HSET'' ''key'' ''v'']) = Some (Returned ([''SUCCESS''], S, True))"
    by (rule hset_hcount [OF r])
  obtain j S1 where j: "kvstore_requese S0 (zero_item\<lparr>rbuffer := recv_into (rbuffer zero_item) (msg3 ''HSET'' ''key'' ''v'')\<rparr>) = Some (Returned (j, S1))"
      "wbuffer j = ''SUCCESS''"
    by (rule server_reader_Cons [of S0 "msg3 ''HSET'' ''key'' ''v''" "[]" "[''SUCCESS'']" S True]) (use S(2) in auto)
  obtain W0 where W0: "loop_turn (newConnection S0 7 Map.empty False) Functors = Some W0" "km_ready W0" "kv W0 = S0" "replies W0 = []"
    by (rule established [of Map.empty 7 S0 False]) auto
  obtain W where W: "loop_turn W0 (Turn 1 (Some (msg3 ''HSET'' ''key'' ''v'')) Wrote_all Would_block) = Some W" "km_ready W" "replies W = [''SUCCESS'']"
    using km_request [OF W0(2) plain_msg3 [OF r], of j S1 Would_block] j W0(3,4) by auto
  have t: "loop_turns (newConnection S0 7 Map.empty False) [Functors, Turn 1 (Some (msg3 ''HSET'' ''key'' ''v'')) Wrote_all Would_block] = Some W"
    using W0(1) W(1) by simp
  have "conn_state W = kConnected" using W(2) by (simp add: km_ready_def)
  then show ?thesis using kmuduo_stream [of Map.empty 7 _ S0 False W, OF refl _ t] t S(1) W(3) by (auto simp: msg3_def)
qed




text \<open>Functors leave the callbacks as they are, and a callback that is not set ends the process.\<close>

lemma call_functor_callback: "call_functor W f = Some W' \<Longrightarrow> writeCompleteCallback W' = writeCompleteCallback W"
  by (cases f) (auto simp: connectionEstablished_def connectionDestroyed_def enableReading_def disableAll_def removeChannel_def
      updateChannel_def update_def queueLoop_def bind_eq_Some_conv Let_def split: if_splits)

lemma call_functors_unset: "WriteComplete \<in> set fs \<Longrightarrow> \<not> writeCompleteCallback W \<Longrightarrow> call_functors W fs = None"
proof (induction fs arbitrary: W)
  case (Cons f fs)
  then show ?case
  proof (cases "call_functor W f")
    case (Some W1)
    then have "\<not> writeCompleteCallback W1" "f \<noteq> WriteComplete" using Cons.prems(2) call_functor_callback by (auto split: if_splits)
    then show ?thesis using Cons Some by auto
  qed simp
qed simp

lemma flush_throws:
  assumes inv: "conn_inv W" and up: "conn_state W = kConnected" "tied W" "listed W" "\<not> writeCompleteCallback W"
    and out: "content (outputBuffer W) \<noteq> []"
  shows "loop_turn W (Turn 4 rd wr Wrote_all) = None"
proof -
  have ok: "buf_ok (outputBuffer W)" "isWriting W" using inv up(1) out by (auto simp: conn_inv_def stream_inv_def)
  obtain e where po: "poller W (conn_fd W) = Some e" using inv up(1) by (auto simp: conn_inv_def poll_inv_def stream_inv_def)
  let ?n = "readableBytes (outputBuffer W)" and ?b = "retrieve (outputBuffer W) (readableBytes (outputBuffer W))"
  have n: "0 < ?n" using length_content [OF ok(1)] out by (cases ?n) auto
  have "readableBytes ?b = 0"
    using buffer.pop [OF ok(1), of ?n] buffer.pop_all [OF ok(1), of ?n] length_content [OF ok(1)] length_content [of ?b] by simp
  then obtain V where V: "handleWrite W Wrote_all = Some V" "WriteComplete \<in> set (pendingFunctors V)" "\<not> writeCompleteCallback V"
    using ok(2) n up(1,4) by (simp add: handleWrite_def taken_def queueLoop_def Let_def)
  have "handleEvent W 4 rd wr Wrote_all = Some V" using up(2,3) V(1) by (simp add: handleEvent_def alive_def write_event)
  moreover have "doPendingFunctors V = None" using V(2,3) by (simp add: doPendingFunctors_def call_functors_unset)
  ultimately show ?thesis using po by simp
qed

text \<open>
  A client that reads slowly ends the server: when the kernel takes only a part of a reply, the
  rest is sent with the next write event, after which \<open>handleWrite\<close> queues the callback for complete
  writes without looking whether there is one. The key-value server sets none, and the call throws.
\<close>

theorem slow_client_ends_server:
  assumes "ep fd = None" and "plain_request m" and "server_reader S (reads [m]) = Some (Returned ([r], S', True))" and "k < length r"
  shows "\<exists>W. loop_turns (newConnection S fd ep False) [Functors, Turn 1 (Some m) (Wrote k) Would_block] = Some W \<and>
    conn_state W = kConnected \<and> wire W = take k r \<and> loop_turn W (Turn 4 rd wr Wrote_all) = None"
proof -
  obtain W0 where W0: "loop_turn (newConnection S fd ep False) Functors = Some W0" "km_ready W0" "kv W0 = S" "replies W0 = []"
      "\<not> writeCompleteCallback W0" "\<not> highWaterMarkCallback W0"
    using established [of ep fd S False] assms(1) by metis
  obtain j S1 rep where j: "kvstore_requese S (zero_item\<lparr>rbuffer := recv_into (rbuffer zero_item) m\<rparr>) = Some (Returned (j, S1))" "[r] = wbuffer j # rep"
    by (rule server_reader_Cons [of S m "[]" "[r]" S' True]) (use assms(3) in auto)
  obtain b where b: "handleEvent W0 1 (Some m) (Wrote k) Would_block =
      sendInLoop (W0\<lparr>inputBuffer := b, kv := S1, replies := replies W0 @ [wbuffer j]\<rparr>) (wbuffer j) (Wrote k)" "buf_ok b"
    by (rule read_request [OF W0(2) assms(2)]) (use j(1) W0(3) in auto)
  let ?R = "W0\<lparr>inputBuffer := b, kv := S1, replies := replies W0 @ [wbuffer j]\<rparr>"
  have R: "conn_inv W0" "conn_state W0 = kConnected" "tied W0" "listed W0" "pendingFunctors W0 = []" "content (outputBuffer W0) = []" "\<not> isWriting W0"
    using W0(2) by (auto simp: km_ready_def)
  have rd: "readableBytes (outputBuffer W0) = 0" using length_content [of "outputBuffer W0"] R(1,6) by (simp add: conn_inv_def)
  obtain e where po: "poller W0 (conn_fd W0) = Some e" using R(1,2) by (auto simp: conn_inv_def poll_inv_def stream_inv_def)
  have w0: "wire W0 = []" using R W0(4) by (auto simp: conn_inv_def stream_inv_def stream_def)
  let ?V = "?R\<lparr>wire := take k r\<rparr>"
  have "send_direct ?R r (Wrote k) = Some (?V, k, False)"
    using R(7) rd assms(4) w0 by (cases W0) (simp add: send_direct_def taken_def isWriting_def Let_def)
  then have s: "sendInLoop ?R r (Wrote k) = send_rest ?V (drop k r)" using R(2) assms(4) by (simp add: sendInLoop_def)
  have V: "buf_ok (outputBuffer ?V)" "poll_inv ?V" "functors_inv ?V (pendingFunctors ?V)"
    using R(1) by (simp_all add: conn_inv_def poll_inv_def functors_inv_def)
  obtain b2 e2 p cs i where r2: "send_rest ?V (drop k r) =
        Some (?V\<lparr>pendingFunctors := [], outputBuffer := b2, events := e2, poller := p, channels := cs, index := i\<rparr>)" "content b2 = drop k r"
    by (rule send_rest_ok [OF V, of "drop k r"]) (use W0(6) R(5,6) in auto)
  let ?W = "?V\<lparr>pendingFunctors := [], outputBuffer := b2, events := e2, poller := p, channels := cs, index := i\<rparr>"
  have "doPendingFunctors ?W = Some ?W" by (simp add: doPendingFunctors_def)
  then have t: "loop_turn W0 (Turn 1 (Some m) (Wrote k) Would_block) = Some ?W" using b(1) s r2(1) j(2) po by simp
  have "conn_inv ?W" by (rule loop_turn_inv [OF R(1) _ t]) simp
  then have "loop_turn ?W (Turn 4 rd wr Wrote_all) = None"
    by (rule flush_throws) (use R W0(5) r2(2) assms(4) in simp_all)
  then show ?thesis using t W0(1) R(2) by (intro exI [of _ ?W]) simp
qed

theorem slow_client_ends_server_witness:
  "\<exists>S0 W. init_kvengine new_server = Some S0 \<and>
     loop_turns (newConnection S0 7 Map.empty False) [Functors, Turn 1 (Some ''HSET key v'') (Wrote 4) Would_block] = Some W \<and>
     wire W = ''SUCC'' \<and> loop_turn W (Turn 4 None Would_block Wrote_all) = None"
proof -
  have r: "req_ok ''HSET'' ''key'' ''v''" by (simp add: req_ok_def msg3_def wal_word_def isspace_def BUFFER_LENGTH_def)
  obtain S0 S where S: "init_kvengine new_server = Some S0"
      "server_reader S0 (reads [msg3 ''HSET'' ''key'' ''v'']) = Some (Returned ([''SUCCESS''], S, True))"
    by (rule hset_hcount [OF r])
  from slow_client_ends_server [of Map.empty 7, OF refl plain_msg3 [OF r] S(2), of 4 None Would_block] S(1) show ?thesis
    by (auto simp: msg3_def)
qed

text \<open>
  Once a channel asks for write events it does so until the connection is closed: \<open>handleWrite\<close>
  never withdraws the request, even when nothing is left to write, so that the poller reports the
  channel in every round, and the delayed half of a shutdown never happens.
\<close>

theorem write_interest_stays:
  assumes "isWriting W" and "handleWrite W res = Some W'"
  shows "isWriting W' \<and> poller W' = poller W \<and> shutdownWrite W' = shutdownWrite W \<and> shutdownWrite (shutdown W) = shutdownWrite W"
  using assms
  by (auto simp: handleWrite_def shutdown_def shutdownInLoop_def queueLoop_def isWriting_def bind_eq_Some_conv Let_def split: if_splits)

theorem write_interest_stays_witness:
  "isWriting ((newConnection new_server 7 Map.empty True)\<lparr>events := kWriteEvent\<rparr>) \<and>
   (\<exists>W'. handleWrite ((newConnection new_server 7 Map.empty True)\<lparr>events := kWriteEvent\<rparr>) Wrote_all = Some W' \<and> isWriting W')"
proof -
  let ?W = "(newConnection new_server 7 Map.empty True)\<lparr>events := kWriteEvent\<rparr>"
  have w: "isWriting ?W" by (simp add: isWriting_def)
  moreover obtain W' where h: "handleWrite ?W Wrote_all = Some W'"
    using w by (simp add: handleWrite_def taken_def newConnection_def readableBytes_def Buffer_new_def)
  ultimately show ?thesis using write_interest_stays [OF w h] by blast
qed

text \<open>The choice of a loop goes round.\<close>

lemma getNextLoop_round: "next < loops \<Longrightarrow> getNextLoop loops next = (Some next, Suc next mod loops)"
  by (auto simp: getNextLoop_def mod_Suc)

end
