(* ===== verification/Km_Pool.thy ===== *)
theory Km_Pool
  imports Km_Conn
begin

text \<open>
  The server around the connections of Kmuduo: addresses (\<open>inetAddress.cc\<close>), the acceptor (\<open>Acceptor.cc\<close>),
  the server with its table of connections (\<open>TcpServer.cc\<close>), the pool of loops
  (\<open>EventLoopThreadPool.cc\<close>) and the list of events of the poller (\<open>EPollPoller::poll\<close>). Everything here
  runs in the thread of the base loop; what it hands to other loops is recorded in \<open>tasks\<close>.
\<close>

section \<open>Addresses\<close>

text \<open>The four bytes of the address and the port, as \<open>sockaddr_in\<close> holds them.\<close>

record inet_address =
  sin_addr :: "8 word \<times> 8 word \<times> 8 word \<times> 8 word"
  sin_port :: "16 word"

definition htons :: "16 word \<Rightarrow> 16 word" where
  "htons p = push_bit 8 p OR drop_bit 8 p"

text \<open>\<open>ip\<close> is the result of \<open>inet_addr\<close>.\<close>

definition InetAddress_new :: "16 word \<Rightarrow> 8 word \<times> 8 word \<times> 8 word \<times> 8 word \<Rightarrow> inet_address" where
  "InetAddress_new port ip = \<lparr>sin_addr = ip, sin_port = htons port\<rparr>"

fun inet_ntop :: "8 word \<times> 8 word \<times> 8 word \<times> 8 word \<Rightarrow> string" where
  "inet_ntop (a, b, c, d) = dec (unat a) @ ''.'' @ dec (unat b) @ ''.'' @ dec (unat c) @ ''.'' @ dec (unat d)"

definition toPort :: "inet_address \<Rightarrow> 16 word" where
  "toPort A = htons (sin_port A)"

definition toIpPort :: "inet_address \<Rightarrow> string" where
  "toIpPort A = inet_ntop (sin_addr A) @ '':'' @ dec (unat (toPort A))"

section \<open>Poller\<close>

definition kInitEventListSize :: nat where
  "kInitEventListSize = 16"

text \<open>
  \<open>poll\<close> with room for \<open>room\<close> events, of which the kernel reports the first of those that are ready:
  the active channels and the room for the next call.
\<close>

definition epoll_poll :: "nat \<Rightarrow> 'c list \<Rightarrow> 'c list \<times> nat" where
  "epoll_poll room ready =
     (let numEvents = min room (length ready)
      in if 0 < numEvents
         then (take numEvents ready, if numEvents = room then room * 2 else room)
         else ([], room))"

section \<open>Server\<close>

text \<open>
  A connection with its name, descriptor and loop: the index of a loop of the pool, or \<open>None\<close> for the
  base loop. \<open>created\<close> holds the connection objects in the order of their creation, and the table and the
  tasks refer to them by their position.
\<close>

record connection =
  cn_name :: string
  cn_fd :: int
  cn_loop :: "nat option"

datatype conn_task = Established nat | Destroyed nat

primrec task_conn :: "conn_task \<Rightarrow> nat" where
  "task_conn (Established i) = i"
| "task_conn (Destroyed i) = i"

record tcp_server =
  srv_name :: string
  ipPort :: string
  started :: "32 word"
  nextConnId :: int
  numThread :: int
  initCallback :: bool
  loops :: nat
  next_loop :: nat
  inits :: "nat option list"
  listenning :: bool
  connections :: "string \<rightharpoonup> nat"
  created :: "connection list"
  tasks :: "(nat option \<times> conn_task) list"

definition TcpServer_new :: "inet_address \<Rightarrow> string \<Rightarrow> bool \<Rightarrow> tcp_server" where
  "TcpServer_new listenAddr nameArg cb =
     \<lparr>srv_name = nameArg, ipPort = toIpPort listenAddr, started = 0, nextConnId = 1, numThread = 0, initCallback = cb,
      loops = 0, next_loop = 0, inits = [], listenning = False, connections = Map.empty, created = [], tasks = []\<rparr>"

definition setThreadNum :: "tcp_server \<Rightarrow> int \<Rightarrow> tcp_server" where
  "setThreadNum S n = S\<lparr>numThread := n\<rparr>"

text \<open>
  The pool starts one thread after the other, each with a loop of its own, on which the thread calls the
  initial callback before the loop is published.
\<close>

fun pool_threads :: "nat \<Rightarrow> tcp_server \<Rightarrow> tcp_server" where
  "pool_threads 0 S = S"
| "pool_threads (Suc n) S =
     pool_threads n (S\<lparr>inits := inits S @ (if initCallback S then [Some (loops S)] else []), loops := Suc (loops S)\<rparr>)"

definition pool_start :: "tcp_server \<Rightarrow> tcp_server" where
  "pool_start S =
     (let S = pool_threads (nat (numThread S)) S
      in if numThread S = 0 \<and> initCallback S then S\<lparr>inits := inits S @ [None]\<rparr> else S)"

definition acceptor_listen :: "tcp_server \<Rightarrow> tcp_server" where
  "acceptor_listen S = S\<lparr>listenning := True\<rparr>"

text \<open>The count of calls is atomic and wraps.\<close>

definition server_start :: "tcp_server \<Rightarrow> tcp_server" where
  "server_start S =
     (let old = started S;
          S = S\<lparr>started := old + 1\<rparr>
      in if old = 0 then acceptor_listen (pool_start S) else S)"

definition getAllLoops :: "tcp_server \<Rightarrow> nat option list" where
  "getAllLoops S = (if loops S = 0 then [None] else map Some [0..<loops S])"

definition conn_name :: "tcp_server \<Rightarrow> string" where
  "conn_name S = srv_name S @ snprintf 64 (''-'' @ ipPort S @ ''#'' @ dec (nat (nextConnId S)))"

definition server_newConnection :: "tcp_server \<Rightarrow> int \<Rightarrow> tcp_server option" where
  "server_newConnection S sockfd =
     do { let (ioloop, next) = getNextLoop (loops S) (next_loop S);
          n \<leftarrow> c_inc (nextConnId S);
          let conn = length (created S);
          Some (S\<lparr>next_loop := next, nextConnId := n,
                  created := created S @ [\<lparr>cn_name = conn_name S, cn_fd = sockfd, cn_loop = ioloop\<rparr>],
                  connections := (connections S)(conn_name S \<mapsto> conn),
                  tasks := tasks S @ [(ioloop, Established conn)]\<rparr>) }"

text \<open>\<open>connfd\<close> is the result of \<open>accept4\<close>; a failure is logged only.\<close>

definition acceptor_handleRead :: "tcp_server \<Rightarrow> int \<Rightarrow> tcp_server option" where
  "acceptor_handleRead S connfd = (if 0 \<le> connfd then server_newConnection S connfd else Some S)"

text \<open>\<open>removeConnectionInLoop\<close> of the connection at position \<open>i\<close>; \<open>None\<close> when there is none.\<close>

definition removeConnectionInLoop :: "tcp_server \<Rightarrow> nat \<Rightarrow> tcp_server option" where
  "removeConnectionInLoop S i =
     (if i < length (created S)
      then let conn = created S ! i
           in Some (S\<lparr>connections := (connections S)(cn_name conn := None),
                      tasks := tasks S @ [(cn_loop conn, Destroyed i)]\<rparr>)
      else None)"

text \<open>The destructor goes through the table, in an order \<open>is\<close> that the standard library leaves open.\<close>

definition server_destroy :: "tcp_server \<Rightarrow> nat list \<Rightarrow> tcp_server" where
  "server_destroy S is =
     S\<lparr>connections := Map.empty, tasks := tasks S @ map (\<lambda>i. (cn_loop (created S ! i), Destroyed i)) is\<rparr>"

datatype server_event = Acceptable int | Removed nat

fun server_run :: "tcp_server \<Rightarrow> server_event list \<Rightarrow> tcp_server option" where
  "server_run S [] = Some S"
| "server_run S (Acceptable connfd # es) = do { S \<leftarrow> acceptor_handleRead S connfd; server_run S es }"
| "server_run S (Removed i # es) = do { S \<leftarrow> removeConnectionInLoop S i; server_run S es }"

section \<open>Invariant\<close>

lemma htons_htons [simp]: "htons (htons p) = p"
  by (rule bit_word_eqI) (auto simp: htons_def bit_or_iff bit_push_bit_iff bit_drop_bit_eq)

lemma dec_word: "unat (w::'a::len word) < 10 ^ Suc k \<Longrightarrow> length (dec (unat w)) \<le> Suc k"
  by (rule dec_length)

lemma byte_length: "length (dec (unat (b::8 word))) \<le> 3"
  using dec_word [of b 2] unsigned_less [of b, where ?'a = nat] by simp

lemma toIpPort_length: "length (toIpPort A) \<le> 21"
proof (cases "sin_addr A")
  case (fields a b c d)
  have "length (dec (unat (toPort A))) \<le> 5" using dec_word [of "toPort A" 4] unsigned_less [of "toPort A", where ?'a = nat] by simp
  with fields show ?thesis using byte_length [of a] byte_length [of b] byte_length [of c] byte_length [of d]
    by (simp add: toIpPort_def)
qed

text \<open>The name of the connection at position \<open>i\<close>.\<close>

definition name_of :: "tcp_server \<Rightarrow> nat \<Rightarrow> string" where
  "name_of S i = srv_name S @ ''-'' @ ipPort S @ ''#'' @ dec (Suc i)"

lemma name_of_inj [simp]: "name_of S i = name_of S j \<longleftrightarrow> i = j"
  by (simp add: name_of_def)

lemma conn_name_of:
  assumes "length (ipPort S) \<le> 21" and "nextConnId S = int (Suc i)" and "nextConnId S \<le> INT_MAX"
  shows "conn_name S = name_of S i"
  using assms dec_length [of "Suc i" 9] by (simp add: conn_name_def name_of_def snprintf_def INT_MAX_def nat_add_distrib)


text \<open>
  Positions and names agree, the loops have taken turns, and the tasks of a connection went to its
  loop, the first of them being that it was established.
\<close>

definition conn_tasks :: "tcp_server \<Rightarrow> nat \<Rightarrow> (nat option \<times> conn_task) list" where
  "conn_tasks S i = filter (\<lambda>t. task_conn (snd t) = i) (tasks S)"

definition served :: "nat option \<Rightarrow> nat \<Rightarrow> nat \<Rightarrow> (nat option \<times> conn_task) list" where
  "served l i n = (l, Established i) # replicate n (l, Destroyed i)"

definition tasks_ok :: "tcp_server \<Rightarrow> bool" where
  "tasks_ok S \<longleftrightarrow>
     (\<forall>i < length (created S). \<exists>n. conn_tasks S i = served (cn_loop (created S ! i)) i n) \<and>
     (\<forall>i \<ge> length (created S). conn_tasks S i = [])"

definition turns_ok :: "tcp_server \<Rightarrow> bool" where
  "turns_ok S \<longleftrightarrow> (if loops S = 0 then \<forall>c \<in> set (created S). cn_loop c = None
     else next_loop S = length (created S) mod loops S \<and>
       map cn_loop (created S) = map (\<lambda>i. Some (i mod loops S)) [0..<length (created S)])"

definition server_inv :: "tcp_server \<Rightarrow> bool" where
  "server_inv S \<longleftrightarrow> length (ipPort S) \<le> 21 \<and> nextConnId S = int (Suc (length (created S))) \<and> nextConnId S \<le> INT_MAX \<and>
     map cn_name (created S) = map (name_of S) [0..<length (created S)] \<and>
     (\<forall>name i. connections S name = Some i \<longrightarrow> i < length (created S) \<and> name = name_of S i) \<and>
     turns_ok S \<and> tasks_ok S"

lemma pool_threads_eq:
  "pool_threads n S = S\<lparr>inits := inits S @ (if initCallback S then map Some [loops S..<loops S + n] else []), loops := loops S + n\<rparr>"
  by (induction n arbitrary: S) (simp_all add: upt_conv_Cons)

lemma server_start_simps:
  assumes "started S = 0"
  shows "loops (server_start S) = loops S + nat (numThread S)" "created (server_start S) = created S"
    "next_loop (server_start S) = next_loop S" "connections (server_start S) = connections S" "tasks (server_start S) = tasks S"
    "ipPort (server_start S) = ipPort S" "srv_name (server_start S) = srv_name S" "nextConnId (server_start S) = nextConnId S"
  using assms by (simp_all add: server_start_def pool_start_def acceptor_listen_def pool_threads_eq Let_def)

lemma server_start_inv:
  assumes "started S = 0" and "created S = []" and "next_loop S = 0" and "server_inv S"
  shows "server_inv (server_start S)"
  using assms by (simp add: server_inv_def tasks_ok_def turns_ok_def conn_tasks_def server_start_simps name_of_def)

lemma server_new_inv: "server_inv (setThreadNum (TcpServer_new addr name cb) n)"
  by (simp add: server_inv_def setThreadNum_def TcpServer_new_def toIpPort_length tasks_ok_def turns_ok_def conn_tasks_def INT_MAX_def)

lemma next_name: "server_inv S \<Longrightarrow> conn_name S = name_of S (length (created S))"
  by (intro conn_name_of) (simp_all add: server_inv_def)

lemma next_mod: "0 < (k::nat) \<Longrightarrow> (if k \<le> Suc (n mod k) then 0 else Suc (n mod k)) = Suc n mod k"
  using mod_less_divisor [of k n] by (simp add: mod_Suc le_antisym Suc_leI)

lemma accepted_eq:
  assumes "server_inv S" and "server_newConnection S fd = Some S'"
  obtains l nx where "getNextLoop (loops S) (next_loop S) = (l, nx)" and "nextConnId S < INT_MAX"
    and "S' = S\<lparr>next_loop := nx, nextConnId := nextConnId S + 1,
      created := created S @ [\<lparr>cn_name = name_of S (length (created S)), cn_fd = fd, cn_loop = l\<rparr>],
      connections := (connections S)(name_of S (length (created S)) \<mapsto> length (created S)),
      tasks := tasks S @ [(l, Established (length (created S)))]\<rparr>"
proof -
  obtain l nx where "getNextLoop (loops S) (next_loop S) = (l, nx)" by fastforce
  with assms that show ?thesis
    by (auto simp: server_newConnection_def next_name c_inc_def Let_def split: if_splits)
qed

lemma accepted_inv:
  assumes inv: "server_inv S" and n: "server_newConnection S fd = Some S'"
  shows "server_inv S'"
proof -
  obtain l nx where g: "getNextLoop (loops S) (next_loop S) = (l, nx)" "nextConnId S < INT_MAX"
    and S': "S' = S\<lparr>next_loop := nx, nextConnId := nextConnId S + 1,
      created := created S @ [\<lparr>cn_name = name_of S (length (created S)), cn_fd = fd, cn_loop = l\<rparr>],
      connections := (connections S)(name_of S (length (created S)) \<mapsto> length (created S)),
      tasks := tasks S @ [(l, Established (length (created S)))]\<rparr>"
    using accepted_eq [OF assms] .
  have "turns_ok S'"
    using g(1) inv next_mod [of "loops S" "length (created S)"]
    by (auto simp: S' getNextLoop_def server_inv_def turns_ok_def)
  moreover have "conn_tasks S' i = conn_tasks S i @ (if i = length (created S) then [(l, Established i)] else [])" for i
    by (simp add: S' conn_tasks_def)
  then have "tasks_ok S'" using inv
    by (auto simp: S' tasks_ok_def server_inv_def nth_append less_Suc_eq served_def intro: exI [of _ 0])
  moreover have "name_of S' = name_of S" by (auto simp: S' name_of_def)
  ultimately show ?thesis using inv g(2) by (auto simp: server_inv_def S' less_Suc_eq split: if_splits)
qed

lemma remove_inv:
  assumes inv: "server_inv S" and n: "removeConnectionInLoop S i = Some S'"
  shows "server_inv S'"
proof -
  have i: "i < length (created S)" and S': "S' = S\<lparr>connections := (connections S)(cn_name (created S ! i) := None),
      tasks := tasks S @ [(cn_loop (created S ! i), Destroyed i)]\<rparr>"
    using n by (auto simp: removeConnectionInLoop_def Let_def split: if_splits)
  have 1: "conn_tasks S' j = conn_tasks S j @ (if j = i then [(cn_loop (created S ! i), Destroyed i)] else [])" for j
    by (simp add: S' conn_tasks_def)
  have 2: "served l j n @ [(l, Destroyed j)] = served l j (Suc n)" for l j n
    by (simp add: served_def replicate_append_same)
  have "\<exists>n. conn_tasks S' j = served (cn_loop (created S ! j)) j n" if "j < length (created S)" for j
  proof -
    obtain n where "conn_tasks S j = served (cn_loop (created S ! j)) j n" using inv \<open>j < _\<close> by (auto simp: server_inv_def tasks_ok_def)
    then show ?thesis using 2 by (cases "j = i") (auto simp: 1)
  qed
  moreover have "created S' = created S" by (simp add: S')
  ultimately have "tasks_ok S'" using inv i by (auto simp: tasks_ok_def server_inv_def 1)
  moreover have "name_of S' = name_of S" by (auto simp: S' name_of_def)
  moreover have "turns_ok S'" using inv by (simp add: S' server_inv_def turns_ok_def)
  ultimately show ?thesis using inv by (auto simp: server_inv_def S' split: if_splits)
qed

lemma server_run_inv:
  assumes "server_inv S" and "server_run S es = Some S'"
  shows "server_inv S' \<and> loops S' = loops S"
  using assms
proof (induction es arbitrary: S)
  case (Cons e es)
  show ?case
  proof (cases e)
    case (Acceptable fd)
    then obtain S1 where S1: "acceptor_handleRead S fd = Some S1" "server_run S1 es = Some S'"
      using Cons.prems(2) by (auto split: bind_splits)
    then have "server_inv S1" "loops S1 = loops S" using Cons.prems(1) accepted_inv accepted_eq
      by (fastforce simp: acceptor_handleRead_def split: if_splits)+
    then show ?thesis using Cons.IH [OF _ S1(2)] by simp
  next
    case (Removed i)
    then obtain S1 where S1: "removeConnectionInLoop S i = Some S1" "server_run S1 es = Some S'"
      using Cons.prems(2) by (auto split: bind_splits)
    then have "server_inv S1" "loops S1 = loops S" using Cons.prems(1) remove_inv
      by (auto simp: removeConnectionInLoop_def Let_def split: if_splits)
    then show ?thesis using Cons.IH [OF _ S1(2)] by simp
  qed
qed simp

text \<open>Loops that take turns.\<close>

lemma count_turns:
  assumes "i < k"
  shows "count_list (map (\<lambda>j. Some (j mod k)) [0..<n]) (Some i) = n div k + (if i < n mod k then 1 else 0)"
proof (induction n)
  case (Suc n)
  show ?case
  proof (cases "Suc (n mod k) = k")
    case True
    then show ?thesis using Suc assms by (auto simp: mod_Suc div_Suc)
  next
    case False
    then show ?thesis using Suc assms by (auto simp: mod_Suc div_Suc)
  qed
qed simp

lemma poll_grows:
  assumes "0 < room" and "length ready < room * 2 ^ n"
  shows "length ready < ((\<lambda>s. snd (epoll_poll s ready)) ^^ n) room"
  using assms
proof (induction n arbitrary: room)
  case (Suc n)
  have "length ready < snd (epoll_poll room ready) * 2 ^ n"
  proof (cases "room \<le> length ready")
    case True
    then show ?thesis using Suc.prems by (simp add: epoll_poll_def min_def ac_simps)
  next
    case False
    then have "length ready < room" by simp
    also have "room \<le> room * 2 ^ n" by simp
    finally show ?thesis using False by (simp add: epoll_poll_def min_def Let_def)
  qed
  moreover have "0 < snd (epoll_poll room ready)" using Suc.prems(1) by (simp add: epoll_poll_def Let_def)
  ultimately have "length ready < ((\<lambda>s. snd (epoll_poll s ready)) ^^ n) (snd (epoll_poll room ready))" by (rule Suc.IH [rotated])
  then show ?case by (simp add: funpow_Suc_right del: funpow.simps)
qed simp

section \<open>Properties\<close>

text \<open>The server as \<open>kmuduo_enrty\<close> and its like set it up: the number of threads first, then \<open>start\<close>.\<close>

definition running_server :: "inet_address \<Rightarrow> string \<Rightarrow> bool \<Rightarrow> int \<Rightarrow> tcp_server" where
  "running_server addr nameArg cb threads = server_start (setThreadNum (TcpServer_new addr nameArg cb) threads)"

lemma running_server_inv: "server_inv (running_server addr nameArg cb threads)"
  unfolding running_server_def
  by (rule server_start_inv [OF _ _ _ server_new_inv]) (simp_all add: setThreadNum_def TcpServer_new_def)

lemma running_server_loops: "loops (running_server addr nameArg cb threads) = nat threads"
  by (simp add: running_server_def server_start_simps setThreadNum_def TcpServer_new_def)

lemma run_inv:
  assumes "server_run (running_server addr nameArg cb threads) es = Some S"
  shows "server_inv S" and "loops S = nat threads"
  using server_run_inv [OF running_server_inv assms] by (simp_all add: running_server_loops)

text \<open>
  C23. Connections are kept apart: whatever is accepted and removed, the connections of a server have
  different names (the 64 bytes for the address and the number are enough for every address and
  number), so that a new connection never takes the place of another in the table, and an entry of the
  table is the connection of that name. A connection is first established and then destroyed, both in
  its own loop.
\<close>

theorem connections_kept_apart:
  assumes "server_run (running_server addr nameArg cb threads) es = Some S"
  shows "distinct (map cn_name (created S)) \<and> connections S (conn_name S) = None \<and>
    (\<forall>name i. connections S name = Some i \<longrightarrow> i < length (created S) \<and> cn_name (created S ! i) = name) \<and>
    (\<forall>i < length (created S). \<exists>n. conn_tasks S i =
       (cn_loop (created S ! i), Established i) # replicate n (cn_loop (created S ! i), Destroyed i))"
proof -
  note inv = run_inv(1) [OF assms]
  have names: "map cn_name (created S) = map (name_of S) [0..<length (created S)]" using inv by (simp add: server_inv_def)
  have "cn_name (created S ! i) = name_of S i" if "i < length (created S)" for i
    using arg_cong [OF names, of "\<lambda>xs. xs ! i"] that by simp
  moreover have "distinct (map cn_name (created S))" unfolding names by (simp add: distinct_map inj_on_def)
  moreover have "connections S (name_of S (length (created S))) = None"
  proof (rule ccontr)
    assume "connections S (name_of S (length (created S))) \<noteq> None"
    then obtain i where "connections S (name_of S (length (created S))) = Some i" by blast
    then have "i < length (created S) \<and> name_of S (length (created S)) = name_of S i" using inv unfolding server_inv_def by blast
    then show False by auto
  qed
  ultimately show ?thesis using inv by (auto simp: next_name [OF inv] server_inv_def tasks_ok_def served_def)
qed

definition local_address :: inet_address where
  "local_address = InetAddress_new 2000 (127, 0, 0, 1)"

definition busy_server :: tcp_server where
  "busy_server = the (server_run (running_server local_address ''kv'' False 2)
     [Acceptable 7, Acceptable 8, Acceptable (- 1), Removed 0, Acceptable 7])"

lemma busy_server_runs:
  "server_run (running_server local_address ''kv'' False 2)
     [Acceptable 7, Acceptable 8, Acceptable (- 1), Removed 0, Acceptable 7] = Some busy_server"
  "map cn_loop (created busy_server) = [Some 0, Some 1, Some 0]"
  by (simp_all add: busy_server_def running_server_def server_start_def setThreadNum_def TcpServer_new_def pool_start_def
      acceptor_listen_def acceptor_handleRead_def server_newConnection_def removeConnectionInLoop_def getNextLoop_def
      c_inc_def INT_MAX_def Let_def numeral_2_eq_2)

theorem connections_kept_apart_witness:
  "distinct (map cn_name (created busy_server)) \<and> connections busy_server (conn_name busy_server) = None"
  using connections_kept_apart [OF busy_server_runs(1)] by simp

text \<open>
  C24. The loops of the pool share the connections evenly: after \<open>n\<close> connections each of the \<open>k\<close> loops was
  given \<open>n div k\<close> of them, or one more, and without threads the base loop has them all.
\<close>

theorem loops_take_turns:
  assumes "server_run (running_server addr nameArg cb threads) es = Some S"
  shows "set (map cn_loop (created S)) \<subseteq> set (getAllLoops S) \<and>
    (\<forall>l \<in> set (getAllLoops S). count_list (map cn_loop (created S)) l \<in>
       {length (created S) div length (getAllLoops S), Suc (length (created S) div length (getAllLoops S))})"
proof -
  have turns: "turns_ok S" using run_inv(1) [OF assms] by (simp add: server_inv_def)
  show ?thesis
  proof (cases "loops S = 0")
    case True
    then have "map cn_loop (created S) = replicate (length (created S)) None"
      using turns by (simp add: turns_ok_def map_replicate_const [symmetric] cong: map_cong)
    moreover have "count_list (replicate n None) None = n" for n by (induction n) simp_all
    ultimately show ?thesis using True by (auto simp: getAllLoops_def)
  next
    case False
    then have m: "map cn_loop (created S) = map (\<lambda>i. Some (i mod loops S)) [0..<length (created S)]"
      using turns by (simp add: turns_ok_def)
    show ?thesis unfolding m using False count_turns [of _ "loops S" "length (created S)"] by (auto simp: getAllLoops_def)
  qed
qed

theorem loops_take_turns_witness:
  "count_list (map cn_loop (created busy_server)) (Some 0) = 2 \<and> getAllLoops busy_server = [Some 0, Some 1] \<and>
   set (map cn_loop (created busy_server)) \<subseteq> {Some 0, Some 1}"
proof -
  have "loops busy_server = 2" using run_inv(2) [OF busy_server_runs(1)] by simp
  then have a: "getAllLoops busy_server = [Some 0, Some 1]" by (simp add: getAllLoops_def upt_rec)
  then show ?thesis using loops_take_turns [OF busy_server_runs(1)] by (simp add: busy_server_runs(2))
qed

end
