(* ===== verification/Km_Loop.thy ===== *)
theory Km_Loop
  imports "HOL-Library.Monad_Syntax" "HOL-Library.Sublist"
begin

text \<open>
  The event loop of Kmuduo (\<open>EventLoop.cc\<close>) and the thread that runs it (\<open>EventLoopThread.cc\<close>), with other
  threads at any point in between: callbacks are handed to the loop through a queue, and the loop is
  woken from its poll through the counter of an eventfd.
\<close>

section \<open>State\<close>

text \<open>
  A callback is known by a name, of any type, and by what it does with the loop it runs in: it queues callbacks
  (\<open>queueLoop\<close>), runs them (\<open>runInLoop\<close>) or asks the loop to end (\<open>quit\<close>).
\<close>

datatype 'n loop_cb = Functor 'n "'n action list"
  and 'n action = QueueLoop "'n loop_cb" | RunInLoop "'n loop_cb" | Quit

primrec fname :: "'n loop_cb \<Rightarrow> 'n" where
  "fname (Functor n as) = n"

primrec fbody :: "'n loop_cb \<Rightarrow> 'n action list" where
  "fbody (Functor n as) = as"

text \<open>A channel that the poller reports: that of the eventfd, or another with what its callback does.\<close>

datatype 'n active = WakeupChannel | OtherChannel "'n action list"

text \<open>Where the thread of the loop is.\<close>

datatype 'n loop_pc =
    Created
  | While
  | Polling
  | Handling "'n action list" "'n active list"
  | Calling "'n action list" "'n loop_cb list"
  | Ended

text \<open>
  The fields of the loop that threads share, and those of the model: \<open>writers\<close> counts the threads that
  have queued a callback or set \<open>quit_\<close> and are about to write to the eventfd, \<open>queued\<close> and \<open>called\<close> are
  the names of the callbacks that went into the queue and of those that were called from it.
\<close>

record 'n event_loop =
  pc :: "'n loop_pc"
  looping :: bool
  quit_flag :: bool
  callingPendingFunctors :: bool
  pendingFunctors :: "'n loop_cb list"
  eventfd :: nat
  writers :: nat
  queued :: "'n list"
  called :: "'n list"

definition EventLoop_new :: "'n event_loop" where
  "EventLoop_new = \<lparr>pc = Created, looping = False, quit_flag = False, callingPendingFunctors = False,
     pendingFunctors = [], eventfd = 0, writers = 0, queued = [], called = []\<rparr>"

section \<open>Operations\<close>

text \<open>The counter of an eventfd stops at its largest value: then \<open>write\<close> fails, and it can be read.\<close>

definition eventfd_max :: nat where
  "eventfd_max = 2 ^ 64 - 2"

definition wakeup :: "'n event_loop \<Rightarrow> 'n event_loop" where
  "wakeup E = E\<lparr>eventfd := (if eventfd E < eventfd_max then Suc (eventfd E) else eventfd E)\<rparr>"

text \<open>Reading takes the whole counter.\<close>

definition wakeup_read :: "'n event_loop \<Rightarrow> 'n event_loop" where
  "wakeup_read E = E\<lparr>eventfd := 0\<rparr>"

definition emplace :: "'n event_loop \<Rightarrow> 'n loop_cb \<Rightarrow> 'n event_loop" where
  "emplace E cb = E\<lparr>pendingFunctors := pendingFunctors E @ [cb], queued := queued E @ [fname cb]\<rparr>"

text \<open>\<open>queueLoop\<close> in the thread of the loop.\<close>

definition queue_in_loop :: "'n event_loop \<Rightarrow> 'n loop_cb \<Rightarrow> 'n event_loop" where
  "queue_in_loop E cb =
     (let E = emplace E cb in if callingPendingFunctors E then wakeup E else E)"

text \<open>What an action does in the thread of the loop, and what comes before the actions that follow it.\<close>

fun perform :: "'n event_loop \<Rightarrow> 'n action \<Rightarrow> 'n event_loop \<times> 'n action list" where
  "perform E (QueueLoop cb) = (queue_in_loop E cb, [])"
| "perform E (RunInLoop cb) = (E, fbody cb)"
| "perform E Quit = (E\<lparr>quit_flag := True\<rparr>, [])"

text \<open>
  The next step of \<open>loop\<close>: \<open>active\<close> is what the poller reports, used only when it polls. After the last
  channel the queue is taken over, and the callbacks are called.
\<close>

fun step_at :: "'n loop_pc \<Rightarrow> 'n event_loop \<Rightarrow> 'n active list \<Rightarrow> 'n event_loop option" where
  "step_at Created E actives = Some (E\<lparr>pc := While, looping := True, quit_flag := False\<rparr>)"
| "step_at While E actives =
     Some (if \<not> quit_flag E then E\<lparr>pc := Polling\<rparr> else E\<lparr>pc := Ended, looping := False\<rparr>)"
| "step_at Polling E actives =
     (if WakeupChannel \<in> set actives \<and> eventfd E = 0 then None else Some (E\<lparr>pc := Handling [] actives\<rparr>))"
| "step_at (Handling (a # as) cs) E actives = (let (E, bs) = perform E a in Some (E\<lparr>pc := Handling (bs @ as) cs\<rparr>))"
| "step_at (Handling [] (WakeupChannel # cs)) E actives = Some ((wakeup_read E)\<lparr>pc := Handling [] cs\<rparr>)"
| "step_at (Handling [] (OtherChannel as # cs)) E actives = Some (E\<lparr>pc := Handling as cs\<rparr>)"
| "step_at (Handling [] []) E actives =
     Some (E\<lparr>callingPendingFunctors := True, pc := Calling [] (pendingFunctors E), pendingFunctors := []\<rparr>)"
| "step_at (Calling (a # as) fs) E actives = (let (E, bs) = perform E a in Some (E\<lparr>pc := Calling (bs @ as) fs\<rparr>))"
| "step_at (Calling [] (f # fs)) E actives = Some (E\<lparr>pc := Calling (fbody f) fs, called := called E @ [fname f]\<rparr>)"
| "step_at (Calling [] []) E actives = Some (E\<lparr>callingPendingFunctors := False, pc := While\<rparr>)"
| "step_at Ended E actives = None"

definition loop_step :: "'n event_loop \<Rightarrow> 'n active list \<Rightarrow> 'n event_loop option" where
  "loop_step E actives = step_at (pc E) E actives"

text \<open>
  Other threads: \<open>queueLoop\<close> (and \<open>runInLoop\<close>, which calls it) and \<open>quit\<close> change the loop first and write
  to the eventfd in a second step, before which other threads may run.
\<close>

definition queue_other :: "'n event_loop \<Rightarrow> 'n loop_cb \<Rightarrow> 'n event_loop" where
  "queue_other E cb = (emplace E cb)\<lparr>writers := Suc (writers E)\<rparr>"

definition quit_other :: "'n event_loop \<Rightarrow> 'n event_loop" where
  "quit_other E = E\<lparr>quit_flag := True, writers := Suc (writers E)\<rparr>"

definition write_other :: "'n event_loop \<Rightarrow> 'n event_loop option" where
  "write_other E = (if writers E = 0 then None else Some ((wakeup E)\<lparr>writers := writers E - 1\<rparr>))"

inductive loop_thread :: "'n event_loop \<Rightarrow> 'n event_loop \<Rightarrow> bool" where
  "loop_step E actives = Some E' \<Longrightarrow> loop_thread E E'"

inductive other_thread :: "'n event_loop \<Rightarrow> 'n event_loop \<Rightarrow> bool" where
  Queue: "other_thread E (queue_other E cb)"
| Quit: "other_thread E (quit_other E)"
| Write: "write_other E = Some E' \<Longrightarrow> other_thread E E'"

inductive reachable :: "'n event_loop \<Rightarrow> bool" where
  New: "reachable EventLoop_new"
| Loop: "reachable E \<Longrightarrow> loop_thread E E' \<Longrightarrow> reachable E'"
| Other: "reachable E \<Longrightarrow> other_thread E E' \<Longrightarrow> reachable E'"

text \<open>An interleaving as a list of choices: which thread makes the next step, and what it does.\<close>

datatype 'n choice = LoopThread "'n active list" | QueueThread "'n loop_cb" | QuitThread | WriteThread

fun interleave :: "'n event_loop \<Rightarrow> 'n choice list \<Rightarrow> 'n event_loop option" where
  "interleave E [] = Some E"
| "interleave E (LoopThread actives # cs) = do { E \<leftarrow> loop_step E actives; interleave E cs }"
| "interleave E (QueueThread cb # cs) = interleave (queue_other E cb) cs"
| "interleave E (QuitThread # cs) = interleave (quit_other E) cs"
| "interleave E (WriteThread # cs) = do { E \<leftarrow> write_other E; interleave E cs }"

lemma interleave_reachable: "reachable E \<Longrightarrow> interleave E cs = Some E' \<Longrightarrow> reachable E'"
  by (induction E cs rule: interleave.induct)
    (auto split: bind_splits intro: reachable.intros loop_thread.intros other_thread.intros)

section \<open>Invariant\<close>

text \<open>The callbacks of the queue that was taken over and that are still to be called.\<close>

fun taken_over :: "'n loop_pc \<Rightarrow> 'n loop_cb list" where
  "taken_over (Calling as fs) = fs"
| "taken_over _ = []"

fun in_turn :: "'n loop_pc \<Rightarrow> bool" where
  "in_turn (Handling as cs) \<longleftrightarrow> True"
| "in_turn _ \<longleftrightarrow> False"

text \<open>A write to the eventfd was made and not read yet, or is about to be made.\<close>

definition woken :: "'n event_loop \<Rightarrow> bool" where
  "woken E \<longleftrightarrow> 0 < eventfd E \<or> 0 < writers E"

definition loop_inv :: "'n event_loop \<Rightarrow> bool" where
  "loop_inv E \<longleftrightarrow>
     (callingPendingFunctors E \<longleftrightarrow> (\<exists>as fs. pc E = Calling as fs)) \<and>
     (pendingFunctors E \<noteq> [] \<and> \<not> in_turn (pc E) \<longrightarrow> woken E) \<and>
     (quit_flag E \<and> pc E = Polling \<longrightarrow> woken E) \<and>
     queued E = called E @ map fname (taken_over (pc E)) @ map fname (pendingFunctors E) \<and>
     (looping E \<longleftrightarrow> pc E \<noteq> Created \<and> pc E \<noteq> Ended)"

lemmas loop_defs = emplace_def wakeup_def wakeup_read_def queue_in_loop_def woken_def Let_def

lemma wakeup_positive [simp]: "0 < eventfd (wakeup E)"
  by (simp add: wakeup_def eventfd_max_def)

lemma loop_inv_new: "loop_inv EventLoop_new"
  by (simp add: loop_inv_def EventLoop_new_def)

lemma loop_inv_other:
  assumes "other_thread E E'" and "loop_inv E"
  shows "loop_inv E'"
  using assms
  by (cases rule: other_thread.cases)
    (auto simp: loop_inv_def queue_other_def quit_other_def write_other_def loop_defs eventfd_max_def split: if_splits)

text \<open>Actions keep the invariant: the loop is woken for what is queued while callbacks are called.\<close>

lemma queue_in_loop_simps [simp]:
  "pc (queue_in_loop E cb) = pc E" "callingPendingFunctors (queue_in_loop E cb) = callingPendingFunctors E"
  "called (queue_in_loop E cb) = called E" "looping (queue_in_loop E cb) = looping E" "quit_flag (queue_in_loop E cb) = quit_flag E"
  "queued (queue_in_loop E cb) = queued E @ [fname cb]" "pendingFunctors (queue_in_loop E cb) = pendingFunctors E @ [cb]"
  by (simp_all add: queue_in_loop_def emplace_def wakeup_def Let_def)

lemma perform_simps [simp]:
  "pc (fst (perform E a)) = pc E" "callingPendingFunctors (fst (perform E a)) = callingPendingFunctors E"
  "called (fst (perform E a)) = called E" "looping (fst (perform E a)) = looping E"
  by (cases a; simp)+

lemma perform_queued:
  "queued E = called E @ xs @ map fname (pendingFunctors E) \<Longrightarrow>
   queued (fst (perform E a)) = called E @ xs @ map fname (pendingFunctors (fst (perform E a)))"
  by (cases a) simp_all

lemma perform_woken:
  assumes "callingPendingFunctors E" and "pendingFunctors E \<noteq> [] \<longrightarrow> woken E"
  shows "pendingFunctors (fst (perform E a)) \<noteq> [] \<longrightarrow> woken (fst (perform E a))"
proof (cases a)
  case (QueueLoop cb)
  then show ?thesis using assms(1) wakeup_positive [of "emplace E cb"] by (simp add: queue_in_loop_def emplace_def woken_def Let_def)
qed (use assms(2) in \<open>simp_all add: woken_def\<close>)

lemma woken_pc [simp]: "woken (E\<lparr>pc := p\<rparr>) = woken E"
  by (simp add: woken_def)

lemma loop_inv_loop:
  assumes "loop_step E actives = Some E'" and inv: "loop_inv E"
  shows "loop_inv E'"
proof (cases "(pc E, E, actives)" rule: step_at.cases)
  case (4 a as cs F acts)
  then have p: "pc E = Handling (a # as) cs" by blast
  have "E' = (fst (perform E a))\<lparr>pc := Handling (snd (perform E a) @ as) cs\<rparr>"
    using assms(1) p by (simp add: loop_step_def case_prod_beta)
  then show ?thesis using inv p perform_queued [of E "[]" a] by (simp add: loop_inv_def)
next
  case (8 a as fs F acts)
  then have p: "pc E = Calling (a # as) fs" by blast
  have "E' = (fst (perform E a))\<lparr>pc := Calling (snd (perform E a) @ as) fs\<rparr>"
    using assms(1) p by (simp add: loop_step_def case_prod_beta)
  then show ?thesis using inv p perform_queued [of E "map fname fs" a] perform_woken [of E a] by (simp add: loop_inv_def)
qed (use assms in \<open>auto simp: loop_step_def loop_inv_def loop_defs split: if_splits\<close>)

lemma reachable_inv: "reachable E \<Longrightarrow> loop_inv E"
proof (induction rule: reachable.induct)
  case (Loop E E')
  then show ?case using loop_inv_loop by (auto elim: loop_thread.cases)
qed (auto simp: loop_inv_new loop_inv_other)

section \<open>A turn of the loop\<close>

text \<open>Steps of the loop alone; what the poller reports is given for the first step only.\<close>

abbreviation loop_runs :: "'n event_loop \<Rightarrow> 'n event_loop \<Rightarrow> bool" where
  "loop_runs \<equiv> loop_thread\<^sup>*\<^sup>*"

lemma step_runs: "loop_step E actives = Some E1 \<Longrightarrow> loop_runs E1 E2 \<Longrightarrow> loop_runs E E2"
  by (meson converse_rtranclp_into_rtranclp loop_thread.intros)

lemma perform_grows: "\<exists>xs. pendingFunctors (fst (perform E a)) = pendingFunctors E @ xs"
  by (cases a) auto

lemma perform_size: "size_list size (snd (perform E a) @ as) < size_list size (a # as)"
proof (cases a)
  case (RunInLoop cb)
  then show ?thesis by (cases cb) simp
qed simp_all

text \<open>Callbacks end: their actions are performed, and the queue grows only.\<close>

lemma handling_ends:
  assumes "pc E = Handling as cs"
  shows "\<exists>E' xs. loop_runs E E' \<and> pc E' = Handling [] cs \<and> called E' = called E \<and> pendingFunctors E' = pendingFunctors E @ xs"
  using assms
proof (induction as arbitrary: E rule: measure_induct_rule [of "size_list size"])
  case (less as)
  show ?case
  proof (cases as)
    case Nil
    then show ?thesis using less.prems by (intro exI [of _ E]) simp
  next
    case (Cons a bs)
    let ?E = "(fst (perform E a))\<lparr>pc := Handling (snd (perform E a) @ bs) cs\<rparr>"
    have s: "loop_step E [] = Some ?E" using less.prems Cons by (simp add: loop_step_def case_prod_beta)
    obtain xs where xs: "pendingFunctors (fst (perform E a)) = pendingFunctors E @ xs" using perform_grows by blast
    obtain E' ys where "loop_runs ?E E'" "pc E' = Handling [] cs" "called E' = called ?E" "pendingFunctors E' = pendingFunctors ?E @ ys"
      using less.IH [of "snd (perform E a) @ bs" ?E] perform_size [of E a bs] Cons by auto
    then show ?thesis using step_runs [OF s] xs by auto
  qed
qed

lemma calling_ends:
  assumes "pc E = Calling as fs"
  shows "\<exists>E'. loop_runs E E' \<and> pc E' = Calling [] fs \<and> called E' = called E"
  using assms
proof (induction as arbitrary: E rule: measure_induct_rule [of "size_list size"])
  case (less as)
  show ?case
  proof (cases as)
    case (Cons a bs)
    let ?E = "(fst (perform E a))\<lparr>pc := Calling (snd (perform E a) @ bs) fs\<rparr>"
    have s: "loop_step E [] = Some ?E" using less.prems Cons by (simp add: loop_step_def case_prod_beta)
    obtain E' where "loop_runs ?E E'" "pc E' = Calling [] fs" "called E' = called ?E"
      using less.IH [of "snd (perform E a) @ bs" ?E] perform_size [of E a bs] Cons by auto
    then show ?thesis using step_runs [OF s] by auto
  qed (use less.prems in auto)
qed

lemma handled:
  assumes "pc E = Handling [] cs"
  shows "\<exists>E' xs. loop_runs E E' \<and> pc E' = Handling [] [] \<and> called E' = called E \<and> pendingFunctors E' = pendingFunctors E @ xs"
  using assms
proof (induction cs arbitrary: E)
  case Nil
  then show ?case by (intro exI [of _ E]) simp
next
  case (Cons c cs)
  show ?case
  proof (cases c)
    case WakeupChannel
    let ?E = "(wakeup_read E)\<lparr>pc := Handling [] cs\<rparr>"
    have s: "loop_step E [] = Some ?E" using Cons.prems WakeupChannel by (simp add: loop_step_def)
    then show ?thesis using Cons.IH [of ?E] step_runs [OF s] by (auto simp: wakeup_read_def)
  next
    case (OtherChannel as)
    let ?E = "E\<lparr>pc := Handling as cs\<rparr>"
    have s: "loop_step E [] = Some ?E" using Cons.prems OtherChannel by (simp add: loop_step_def)
    obtain E1 xs where E1: "loop_runs ?E E1" "pc E1 = Handling [] cs" "called E1 = called E" "pendingFunctors E1 = pendingFunctors E @ xs"
      using handling_ends [of ?E as cs] by auto
    then show ?thesis using Cons.IH [OF E1(2)] step_runs [OF s] rtranclp_trans [of loop_thread ?E E1] by fastforce
  qed
qed

lemma all_called:
  assumes "pc E = Calling [] fs"
  shows "\<exists>E'. loop_runs E E' \<and> pc E' = While \<and> called E' = called E @ map fname fs"
  using assms
proof (induction fs arbitrary: E)
  case Nil
  then have "loop_step E [] = Some (E\<lparr>callingPendingFunctors := False, pc := While\<rparr>)" by (simp add: loop_step_def)
  then show ?case using step_runs by fastforce
next
  case (Cons f fs)
  let ?E = "E\<lparr>pc := Calling (fbody f) fs, called := called E @ [fname f]\<rparr>"
  have s: "loop_step E [] = Some ?E" using Cons.prems by (simp add: loop_step_def)
  obtain E1 where E1: "loop_runs ?E E1" "pc E1 = Calling [] fs" "called E1 = called E @ [fname f]"
    using calling_ends [of ?E "fbody f" fs] by auto
  then show ?case using Cons.IH [OF E1(2)] step_runs [OF s] rtranclp_trans [of loop_thread ?E E1] by fastforce
qed

lemma turn_calls:
  assumes "loop_step E actives = Some E1" and "pc E = Polling"
  shows "\<exists>E2 xs. loop_runs E1 E2 \<and> pc E2 = While \<and> called E2 = called E @ map fname (pendingFunctors E) @ xs"
proof -
  have E1: "E1 = E\<lparr>pc := Handling [] actives\<rparr>" using assms by (auto simp: loop_step_def split: if_splits)
  obtain E2 xs where E2: "loop_runs E1 E2" "pc E2 = Handling [] []" "called E2 = called E" "pendingFunctors E2 = pendingFunctors E @ xs"
    using handled [of E1 actives] E1 by auto
  let ?E = "E2\<lparr>callingPendingFunctors := True, pc := Calling [] (pendingFunctors E2), pendingFunctors := []\<rparr>"
  have s: "loop_step E2 [] = Some ?E" using E2(2) by (simp add: loop_step_def)
  obtain E3 where E3: "loop_runs ?E E3" "pc E3 = While" "called E3 = called E @ map fname (pendingFunctors E) @ map fname xs"
    using all_called [of ?E "pendingFunctors E2"] E2 by auto
  then show ?thesis using rtranclp_trans [OF E2(1) step_runs [OF s E3(1)]] by blast
qed

section \<open>The thread of a loop\<close>

text \<open>What a callback does when it is called in the thread of the loop, from its first action to its last.\<close>

function performs :: "'n event_loop \<Rightarrow> 'n action list \<Rightarrow> 'n event_loop" where
  "performs E [] = E"
| "performs E (a # as) = performs (fst (perform E a)) (snd (perform E a) @ as)"
  by pat_completeness auto

termination performs
  by (relation "measure (\<lambda>(E, as). size_list size as)") (use perform_size in auto)

text \<open>
  \<open>EventLoopThread\<close>: the new thread creates the loop, calls the \<open>ThreadInitCallback\<close> with it when there is one,
  publishes its address (\<open>startloop\<close> waits for it) and calls \<open>loop\<close>. The destructor asks the loop to end
  and waits for the thread.
\<close>

record 'n loop_thread_s =
  et_exiting :: bool
  et_loop :: "'n event_loop option"
  et_callback :: "'n action list option"

text \<open>The loop as it is published.\<close>

definition initial_loop :: "'n loop_thread_s \<Rightarrow> 'n event_loop" where
  "initial_loop T = (case et_callback T of None \<Rightarrow> EventLoop_new | Some as \<Rightarrow> performs EventLoop_new as)"

definition thread_publish :: "'n loop_thread_s \<Rightarrow> 'n loop_thread_s" where
  "thread_publish T = T\<lparr>et_loop := Some (initial_loop T)\<rparr>"

text \<open>\<open>startloop\<close> returns as soon as there is a loop.\<close>

definition startloop :: "'n loop_thread_s \<Rightarrow> 'n event_loop option" where
  "startloop T = et_loop T"

text \<open>The destructor up to \<open>join\<close>, which returns when the thread is through with \<open>loop\<close>.\<close>

definition thread_destroy :: "'n loop_thread_s \<Rightarrow> 'n loop_thread_s" where
  "thread_destroy T = T\<lparr>et_exiting := True, et_loop := map_option quit_other (et_loop T)\<rparr>"

text \<open>After \<open>loop\<close> the thread takes the address back.\<close>

definition thread_return :: "'n loop_thread_s \<Rightarrow> 'n loop_thread_s option" where
  "thread_return T =
     do { E \<leftarrow> et_loop T;
          if pc E = Ended then Some (T\<lparr>et_loop := None\<rparr>) else None }"

text \<open>The loop when nothing happens to it but that its own eventfd is read.\<close>

inductive idle_thread :: "'n event_loop \<Rightarrow> 'n event_loop \<Rightarrow> bool" where
  "loop_step E actives = Some E' \<Longrightarrow> set actives \<subseteq> {WakeupChannel} \<Longrightarrow> idle_thread E E'"

text \<open>Callbacks that call \<open>quit\<close>, or lead to a callback that does.\<close>

fun cb_quits :: "'n loop_cb \<Rightarrow> bool" and act_quits :: "'n action \<Rightarrow> bool" where
  "cb_quits (Functor n as) \<longleftrightarrow> (\<exists>a\<in>set as. act_quits a)"
| "act_quits (QueueLoop cb) \<longleftrightarrow> cb_quits cb"
| "act_quits (RunInLoop cb) \<longleftrightarrow> cb_quits cb"
| "act_quits Quit \<longleftrightarrow> True"

fun quiet :: "'n loop_pc \<Rightarrow> bool" where
  "quiet (Handling as cs) \<longleftrightarrow> (\<forall>a\<in>set as. \<not> act_quits a) \<and> set cs \<subseteq> {WakeupChannel}"
| "quiet (Calling as fs) \<longleftrightarrow> (\<forall>a\<in>set as. \<not> act_quits a) \<and> (\<forall>f\<in>set fs. \<not> cb_quits f)"
| "quiet Ended \<longleftrightarrow> False"
| "quiet _ \<longleftrightarrow> True"

definition idle_inv :: "'n event_loop \<Rightarrow> bool" where
  "idle_inv E \<longleftrightarrow> quiet (pc E) \<and> (\<forall>f\<in>set (pendingFunctors E). \<not> cb_quits f) \<and> (quit_flag E \<longrightarrow> pc E = Created)"

lemma fbody_quits: "(\<exists>a\<in>set (fbody cb). act_quits a) \<longleftrightarrow> cb_quits cb"
  by (cases cb) simp

lemma perform_quiet:
  assumes "\<not> act_quits a" and "\<forall>f\<in>set (pendingFunctors E). \<not> cb_quits f"
  shows "quit_flag (fst (perform E a)) = quit_flag E" "\<forall>f\<in>set (pendingFunctors (fst (perform E a))). \<not> cb_quits f"
    "\<forall>b\<in>set (snd (perform E a)). \<not> act_quits b"
  using assms fbody_quits [of "case a of RunInLoop cb \<Rightarrow> cb | _ \<Rightarrow> Functor undefined []"] by (cases a; auto)+

lemma idle_loop_step:
  assumes "loop_step E actives = Some E'" and "set actives \<subseteq> {WakeupChannel}" and inv: "idle_inv E"
  shows "idle_inv E'"
proof (cases "(pc E, E, actives)" rule: step_at.cases)
  case (4 a as cs F acts)
  then have p: "pc E = Handling (a # as) cs" by blast
  have "E' = (fst (perform E a))\<lparr>pc := Handling (snd (perform E a) @ as) cs\<rparr>"
    using assms(1) p by (simp add: loop_step_def case_prod_beta)
  then show ?thesis using inv p perform_quiet [of a E] by (auto simp: idle_inv_def)
next
  case (8 a as fs F acts)
  then have p: "pc E = Calling (a # as) fs" by blast
  have "E' = (fst (perform E a))\<lparr>pc := Calling (snd (perform E a) @ as) fs\<rparr>"
    using assms(1) p by (simp add: loop_step_def case_prod_beta)
  then show ?thesis using inv p perform_quiet [of a E] by (auto simp: idle_inv_def)
next
  case (9 f fs F acts)
  then show ?thesis using assms(1) inv fbody_quits [of f] by (auto simp: loop_step_def idle_inv_def)
qed (use assms in \<open>auto simp: loop_step_def idle_inv_def wakeup_read_def split: if_splits\<close>)

lemma idle_step: "idle_thread E E' \<Longrightarrow> idle_inv E \<Longrightarrow> idle_inv E'"
  by (auto elim!: idle_thread.cases intro: idle_loop_step)

lemma idle_runs: "idle_thread\<^sup>*\<^sup>* E E' \<Longrightarrow> idle_inv E \<Longrightarrow> idle_inv E'"
  by (induction rule: rtranclp_induct) (auto intro: idle_step)

lemma performs_pc [simp]: "pc (performs E as) = pc E" "callingPendingFunctors (performs E as) = callingPendingFunctors E"
  by (induction E as rule: performs.induct) simp_all

lemma initial_pc [simp]: "pc (initial_loop T) = Created"
  by (simp add: initial_loop_def EventLoop_new_def split: option.split)

text \<open>
  What the \<open>ThreadInitCallback\<close> queues does not wake the loop: the thread is that of the loop, which does not call
  callbacks yet. The first poll finds the eventfd unread, and the callback waits for another event.
\<close>

lemma init_callback_not_woken:
  "(do { T \<leftarrow> Some (thread_publish \<lparr>et_exiting = False, et_loop = None, et_callback = Some [QueueLoop (Functor (7::nat) [])]\<rparr>);
         E \<leftarrow> startloop T;
         E \<leftarrow> interleave E [LoopThread [], LoopThread []];
         Some (pc E, map fname (pendingFunctors E), eventfd E, writers E) }) =
   Some (Polling, [7], 0, 0)"
  by (simp add: thread_publish_def startloop_def initial_loop_def EventLoop_new_def queue_in_loop_def emplace_def loop_step_def)

section \<open>Properties\<close>


definition queued_while_polling :: "nat event_loop" where
  "queued_while_polling = queue_other (EventLoop_new\<lparr>pc := Polling, looping := True\<rparr>) (Functor 7 [])"


text \<open>
  C21. A turn of the loop ends and calls everything: when the poll returns, whatever it reports, the
  loop comes back to its condition after it has called, in order, all callbacks that were queued, and
  then those that the callbacks of channels have queued in the turn.
\<close>

theorem turn_calls_queue:
  assumes "pc E = Polling" and "loop_step E actives = Some E1"
  shows "\<exists>E2. loop_runs E1 E2 \<and> pc E2 = While \<and> prefix (called E @ map fname (pendingFunctors E)) (called E2)"
  using turn_calls [OF assms(2,1)] by (auto simp: prefix_def)

theorem turn_calls_queue_witness:
  "\<exists>E2. loop_runs (queued_while_polling\<lparr>pc := Handling [] []\<rparr>) E2 \<and> pc E2 = While \<and> prefix [7::nat] (called E2)"
proof -
  let ?E = queued_while_polling
  have "pc ?E = Polling" "loop_step ?E [] = Some (?E\<lparr>pc := Handling [] []\<rparr>)" "called ?E @ map fname (pendingFunctors ?E) = [7]"
    by (simp_all add: queued_while_polling_def queue_other_def emplace_def EventLoop_new_def loop_step_def)
  with turn_calls_queue [OF this(1,2)] show ?thesis by simp
qed

text \<open>
  C40. A request to end is lost when it comes early: the destructor of \<open>EventLoopThread\<close> calls \<open>quit\<close> as
  soon as the thread has published its loop, but \<open>loop\<close> clears the flag at its start. When this happens
  in between, the loop does not return, however long it runs, and the destructor waits for ever. The
  \<open>ThreadInitCallback\<close>, if there is one, may do anything, \<open>quit\<close> included, but that what it queues does not call \<open>quit\<close>.
\<close>

theorem early_quit_lost:
  assumes "\<forall>f\<in>set (pendingFunctors (initial_loop T)). \<not> cb_quits f"
  shows "\<exists>E E1. startloop (thread_destroy (thread_publish T)) = Some E \<and> quit_flag E \<and> write_other E = Some E1 \<and>
     (\<forall>E2. idle_thread\<^sup>*\<^sup>* E1 E2 \<longrightarrow> pc E2 \<noteq> Ended)"
proof -
  let ?E = "quit_other (initial_loop T)"
  let ?E1 = "(wakeup ?E)\<lparr>writers := writers (initial_loop T)\<rparr>"
  have "idle_inv ?E1" using assms by (simp add: idle_inv_def quit_other_def wakeup_def)
  then have "\<forall>E2. idle_thread\<^sup>*\<^sup>* ?E1 E2 \<longrightarrow> pc E2 \<noteq> Ended"
    using idle_runs by (force simp: idle_inv_def)
  moreover have "startloop (thread_destroy (thread_publish T)) = Some ?E" "quit_flag ?E" "write_other ?E = Some ?E1"
    by (simp_all add: startloop_def thread_destroy_def thread_publish_def write_other_def quit_other_def)
  ultimately show ?thesis by blast
qed

theorem early_quit_lost_witness:
  "\<exists>E E1. startloop (thread_destroy (thread_publish
       \<lparr>et_exiting = False, et_loop = None, et_callback = Some [Quit, QueueLoop (Functor (7::nat) [])]\<rparr>)) = Some E \<and>
     write_other E = Some E1 \<and> pc E1 \<noteq> Ended"
proof -
  let ?T = "\<lparr>et_exiting = False, et_loop = None, et_callback = Some [Quit, QueueLoop (Functor (7::nat) [])]\<rparr>"
  have "\<forall>f\<in>set (pendingFunctors (initial_loop ?T)). \<not> cb_quits f" by (simp add: initial_loop_def EventLoop_new_def)
  from early_quit_lost [OF this] show ?thesis by blast
qed

end
