(* ===== verification/Km_Handover.thy ===== *)
theory Km_Handover
  imports Km_Pool Km_Loop
begin

text \<open>
  The server and the loops of its pool together: the tasks that the base loop hands to a loop
  (\<open>Km_Pool\<close>) go through the queue of that loop (\<open>Km_Loop\<close>), among callbacks of other origin.
\<close>

text \<open>The names of the callbacks of a loop: tasks of the server, or \<open>None\<close> for everything else.\<close>

type_synonym task_loop = "conn_task option event_loop"

definition tasks_for :: "tcp_server \<Rightarrow> nat option \<Rightarrow> conn_task list" where
  "tasks_for S l = map snd (filter (\<lambda>t. fst t = l) (tasks S))"

text \<open>The tasks of the loop \<open>l\<close> were queued in the order in which the server handed them out.\<close>

definition serves :: "task_loop \<Rightarrow> tcp_server \<Rightarrow> nat option \<Rightarrow> bool" where
  "serves E S l \<longleftrightarrow> reachable E \<and> filter (\<lambda>n. n \<noteq> None) (queued E) = map Some (tasks_for S l)"

lemma tasks_for_conn:
  "filter (\<lambda>t. task_conn t = i) (tasks_for S l) = map snd (filter (\<lambda>t. fst t = l) (conn_tasks S i))"
  by (simp add: tasks_for_def conn_tasks_def filter_map comp_def conj_commute)

lemma first_of_filter:
  assumes "filter P xs = y # ys" and "k < length xs" and "P (xs ! k)" and "xs ! k \<noteq> y"
  shows "y \<in> set (take k xs)"
  using assms
proof (induction xs arbitrary: k)
  case (Cons x xs)
  then show ?case by (cases k) (auto split: if_splits)
qed simp

lemma conn_tasks_first:
  assumes "tasks_ok S" and "Destroyed i \<in> set (tasks_for S l)"
  shows "\<exists>ts. filter (\<lambda>t. task_conn t = i) (tasks_for S l) = Established i # ts"
proof -
  have "(l, Destroyed i) \<in> set (conn_tasks S i)" using assms(2) by (auto simp: tasks_for_def conn_tasks_def)
  then have i: "i < length (created S)" and l: "cn_loop (created S ! i) = l"
    using assms(1) by (cases "i < length (created S)"; fastforce simp: tasks_ok_def served_def split: if_splits)+
  then show ?thesis using assms(1) by (auto simp: tasks_for_conn tasks_ok_def served_def)
qed

text \<open>
  C22. A connection is destroyed after it was established, also in another thread: in a loop of the
  pool, whatever else is queued there and however the threads take turns, the functor that destroys a
  connection is called only when the one that establishes it was called before.
\<close>

theorem destroyed_after_established:
  assumes "server_run (running_server addr nameArg cb threads) es = Some S" and "serves E S l"
    and "k < length (called E)" and "called E ! k = Some (Destroyed i)"
  shows "Some (Established i) \<in> set (take k (called E))"
proof -
  let ?P = "\<lambda>n. \<exists>t. n = Some t \<and> task_conn t = i"
  obtain rest where q: "queued E = called E @ rest" using assms(2) reachable_inv by (auto simp: serves_def loop_inv_def)
  have f: "filter ?P (queued E) = map Some (filter (\<lambda>t. task_conn t = i) (tasks_for S l))"
  proof -
    have "filter ?P (queued E) = filter ?P (filter (\<lambda>n. n \<noteq> None) (queued E))" by (auto intro!: filter_cong)
    also have "\<dots> = filter ?P (map Some (tasks_for S l))" using assms(2) by (simp only: serves_def)
    finally show ?thesis by (simp add: filter_map comp_def)
  qed
  have "Some (Destroyed i) \<in> set (filter (\<lambda>n. n \<noteq> None) (queued E))"
    using assms(3,4) q nth_mem [OF assms(3)] by simp
  then have "Some (Destroyed i) \<in> set (map Some (tasks_for S l))" using assms(2) by (simp only: serves_def)
  then have "Destroyed i \<in> set (tasks_for S l)" by auto
  moreover have "tasks_ok S" using run_inv(1) [OF assms(1)] by (simp add: server_inv_def)
  ultimately obtain ts where "filter ?P (queued E) = Some (Established i) # ts"
    using conn_tasks_first f by fastforce
  then have "Some (Established i) \<in> set (take k (queued E))"
    using assms(3,4) q by (intro first_of_filter [of ?P]) (auto simp: nth_append)
  then show ?thesis using assms(3) q by simp
qed

definition short_server :: tcp_server where
  "short_server = the (server_run (running_server local_address ''kv'' False 2) [Acceptable 7, Removed 0])"

lemma short_server_runs:
  "server_run (running_server local_address ''kv'' False 2) [Acceptable 7, Removed 0] = Some short_server"
  "tasks short_server = [(Some 0, Established 0), (Some 0, Destroyed 0)]"
  by (simp_all add: short_server_def running_server_def server_start_def setThreadNum_def TcpServer_new_def pool_start_def
      acceptor_listen_def acceptor_handleRead_def server_newConnection_def removeConnectionInLoop_def getNextLoop_def
      c_inc_def INT_MAX_def Let_def numeral_2_eq_2)

definition short_loop :: task_loop where
  "short_loop = EventLoop_new\<lparr>pc := Calling [] [], looping := True, callingPendingFunctors := True, writers := 3,
     queued := [Some (Established 0), None, Some (Destroyed 0)],
     called := [Some (Established 0), None, Some (Destroyed 0)]\<rparr>"

lemma short_loop_serves: "serves short_loop short_server (Some 0)"
proof -
  have "interleave EventLoop_new
      [LoopThread [], QueueThread (Functor (Some (Established 0)) []), LoopThread [], QueueThread (Functor None []),
       QueueThread (Functor (Some (Destroyed 0)) []), LoopThread [], LoopThread [], LoopThread [], LoopThread [], LoopThread []]
      = Some short_loop"
    by (simp add: short_loop_def loop_step_def EventLoop_new_def queue_other_def emplace_def)
  then have "reachable short_loop" by (rule interleave_reachable [OF reachable.New])
  then show ?thesis by (simp add: serves_def tasks_for_def short_server_runs(2)) (simp add: short_loop_def)
qed

theorem destroyed_after_established_witness:
  "called short_loop ! 2 = Some (Destroyed 0) \<and> Some (Established 0) \<in> set (take 2 (called short_loop))"
  using destroyed_after_established [OF short_server_runs(1) short_loop_serves, of 2 0] by (simp add: short_loop_def)

end
