(* ===== verification/Testcase.thy ===== *)
theory Testcase
  imports Net "HOL-Library.Signed_Division"
begin

unbundle bit_operations_syntax

text \<open>
  The test client \<open>testcase.c\<close> run against the server: its test cases and loops, and what it prints.
  The client sends a request, waits for the reply and compares; a case that passes prints nothing.
\<close>

section \<open>Test cases\<close>

definition MAX_MAS_LENGTH :: nat where
  "MAX_MAS_LENGTH = 512"

text \<open>The lines that \<open>equals\<close> prints.\<close>

definition equals :: "string \<Rightarrow> string \<Rightarrow> string \<Rightarrow> string list" where
  "equals pattern result casename =
     (if strcmp pattern result = 0 then []
      else [''==> FAILED --> '' @ casename @ '', '' @ [CHR 0x27] @ pattern @ [CHR 0x27] @ '' != '' @
            [CHR 0x27] @ result @ [CHR 0x27, CHR 0x0A]])"

text \<open>
  One exchange with the coroutine server, on a connection that stays up: the request is received
  whole, and the reply arrives whole in the cleared \<open>result\<close>. \<open>recv\<close> does not return when no byte
  is sent, which is \<open>None\<close> here. \<open>Aborted\<close> is the end of the server.
\<close>

definition test_case :: "kvserver \<Rightarrow> string \<Rightarrow> string \<Rightarrow> string \<Rightarrow> (string list \<times> kvserver) outcome option" where
  "test_case S msg pattern casename =
     do { out \<leftarrow> server_reader S (reads [msg]);
          case out of
            Aborted \<Rightarrow> Some Aborted
          | Returned (replies, S, _) \<Rightarrow>
              if concat replies = [] then None
              else do {
                result \<leftarrow> cstr (recv_into (replicate MAX_MAS_LENGTH NUL) (take MAX_MAS_LENGTH (concat replies))) 0;
                Some (Returned (equals pattern result casename, S)) }}"

text \<open>What is printed first, then what is printed by the rest.\<close>

definition bind_lines ::
  "(string list \<times> kvserver) outcome option \<Rightarrow> (kvserver \<Rightarrow> (string list \<times> kvserver) outcome option) \<Rightarrow>
   (string list \<times> kvserver) outcome option" where
  "bind_lines r f =
     do { out \<leftarrow> r;
          case out of
            Aborted \<Rightarrow> Some Aborted
          | Returned (l1, S) \<Rightarrow> do {
              out \<leftarrow> f S;
              case out of Aborted \<Rightarrow> Some Aborted | Returned (l2, S) \<Rightarrow> Some (Returned (l1 @ l2, S)) }}"

text \<open>
  The functions of the client are sequences of cases, whatever the replies are: request, pattern and
  name of each.
\<close>

type_synonym test = "string \<times> string \<times> string"

fun run_cases :: "kvserver \<Rightarrow> test list \<Rightarrow> (string list \<times> kvserver) outcome option" where
  "run_cases S [] = Some (Returned ([], S))"
| "run_cases S ((msg, pattern, casename) # ts) = bind_lines (test_case S msg pattern casename) (\<lambda>S. run_cases S ts)"

definition array_testcase :: "test list" where
  "array_testcase =
     [(''SET Name King'', ''SUCCESS'', ''SETCase''),
      (''GET Name'', ''King'', ''GETCase''),
      (''MOD Name Darren'', ''SUCCESS'', ''MODCase''),
      (''GET Name'', ''Darren'', ''GETCase''),
      (''DEL Name'', ''SUCCESS'', ''DELCase''),
      (''GET Name'', ''NO EXIST'', ''GETCase'')]"

definition array_testcase10w :: "test list" where
  "array_testcase10w = concat (replicate 100000 array_testcase)"

definition rbtree_testcase :: "test list" where
  "rbtree_testcase =
     [(''RSET Name King'', ''SUCCESS'', ''RSETCase''),
      (''RGET Name'', ''King'', ''GETCase''),
      (''RMOD Name Darren'', ''SUCCESS'', ''RMODCase''),
      (''RGET Name'', ''Darren'', ''RGETCase''),
      (''RDEL Name'', ''SUCCESS'', ''RDELCase''),
      (''RGET Name'', ''NO EXIST'', ''RGETCase'')]"

definition rbtree_testcase10w :: "test list" where
  "rbtree_testcase10w = concat (replicate 100000 rbtree_testcase)"

definition hash_testcase :: "test list" where
  "hash_testcase =
     [(''HSET Name King'', ''SUCCESS'', ''HSETCase''),
      (''HGET Name'', ''King'', ''HETCase''),
      (''HMOD Name Darren'', ''SUCCESS'', ''HMODCase''),
      (''HGET Name'', ''Darren'', ''HGETCase''),
      (''HDEL Name'', ''SUCCESS'', ''HDELCase''),
      (''HGET Name'', ''NO EXIST'', ''HGETCase'')]"

definition hash_testcase10w :: "test list" where
  "hash_testcase10w = concat (replicate 100000 hash_testcase)"

text \<open>
  The two loops of \<open>rbtree_testcase_5w_node\<close> and \<open>hash_testcase_5w_node\<close>, which differ in the
  commands: \<open>count\<close> keys are stored and deleted again, and counted after every step.
\<close>

definition node_key :: "nat \<Rightarrow> string" where "node_key i = ''Name'' @ dec i"
definition node_val :: "nat \<Rightarrow> string" where "node_val i = ''King'' @ dec i"

definition set_step :: "string \<Rightarrow> string \<Rightarrow> nat \<Rightarrow> test list" where
  "set_step cset ccount i =
     [(snprintf 128 (cset @ '' '' @ node_key i @ '' '' @ node_val i), ''SUCCESS'', ''SETCase''),
      (ccount, dec (i + 1), ccount)]"

definition del_step :: "string \<Rightarrow> string \<Rightarrow> nat \<Rightarrow> nat \<Rightarrow> test list" where
  "del_step cdel ccount count i =
     [(snprintf 128 (cdel @ '' '' @ node_key i @ '' '' @ node_val i), ''SUCCESS'', ''DELCase''),
      (ccount, dec (count - (i + 1)), ccount)]"

definition node_testcase :: "string \<Rightarrow> string \<Rightarrow> string \<Rightarrow> nat \<Rightarrow> test list" where
  "node_testcase cset cdel ccount count =
     concat (map (set_step cset ccount) [0..<count]) @ concat (map (del_step cdel ccount count) [0..<count])"

definition rbtree_testcase_5w_node :: "test list" where
  "rbtree_testcase_5w_node = node_testcase ''RSET'' ''RDEL'' ''RCOUNT'' 50000"

definition hash_testcase_5w_node :: "test list" where
  "hash_testcase_5w_node = node_testcase ''HSET'' ''HDEL'' ''HCOUNT'' 50000"

text \<open>
  The tests that \<open>main\<close> runs for the bits of the option \<open>-m\<close>, each with the time it took in
  milliseconds. A test prints its failed cases and a line with the time and the rate, for which
  the number of requests is divided by the time.
\<close>

definition dec_int :: "int \<Rightarrow> string" where
  "dec_int i = (if i < 0 then ''-'' @ dec (nat (- i)) else dec (nat i))"

definition report :: "string \<Rightarrow> int \<Rightarrow> int \<Rightarrow> string option" where
  "report name requests time_used =
     (if time_used = 0 then None
      else Some (name @ '' testcase--> time_used: '' @ dec_int time_used @ '', qps: '' @
             dec_int (requests * 1000 sdiv time_used) @ [CHR 0x0A]))"

definition timed_test ::
  "kvserver \<Rightarrow> bool \<Rightarrow> test list \<Rightarrow> string \<Rightarrow> int \<Rightarrow> int \<Rightarrow> (string list \<times> kvserver) outcome option" where
  "timed_test S selected ts name requests time_used =
     (if selected
      then bind_lines (run_cases S ts) (\<lambda>S. do { l \<leftarrow> report name requests time_used; Some (Returned ([l], S)) })
      else Some (Returned ([], S)))"

definition testcase_main :: "kvserver \<Rightarrow> 32 word \<Rightarrow> int \<Rightarrow> int \<Rightarrow> int \<Rightarrow> (string list \<times> kvserver) outcome option" where
  "testcase_main S mode t1 t2 t4 =
     bind_lines (timed_test S (mode AND 0x1 \<noteq> 0) array_testcase10w ''array'' 600000 t1) (\<lambda>S.
     bind_lines (timed_test S (mode AND 0x2 \<noteq> 0) rbtree_testcase_5w_node ''rbtree'' 200000 t2) (\<lambda>S.
     timed_test S (mode AND 0x4 \<noteq> 0) hash_testcase_5w_node ''hash'' 200000 t4))"

section \<open>Single cases\<close>

text \<open>A request that the server answers with \<open>msg\<close>.\<close>

definition answers :: "kvserver \<Rightarrow> string \<Rightarrow> string \<Rightarrow> kvserver \<Rightarrow> bool" where
  "answers S m msg S' \<longleftrightarrow> msg \<noteq> [] \<and> NUL \<notin> set msg \<and> length msg < MAX_MAS_LENGTH \<and>
     (\<exists>item. kvstore_requese S (zero_item\<lparr>rbuffer := recv_into (rbuffer zero_item) m\<rparr>) = Some (Returned (item, S')) \<and>
        wbuffer item = msg)"

lemma test_case_answers:
  assumes "answers S m msg S'"
  shows "test_case S m pattern name = Some (Returned (equals pattern msg name, S'))"
proof -
  have len: "length msg < MAX_MAS_LENGTH" and nul: "NUL \<notin> set msg" using assms by (auto simp: answers_def)
  from len have "recv_into (replicate MAX_MAS_LENGTH NUL) msg = msg @ NUL # replicate (MAX_MAS_LENGTH - Suc (length msg)) NUL"
    by (simp add: recv_into_def Suc_diff_Suc flip: replicate_Suc)
  then have "cstr (recv_into (replicate MAX_MAS_LENGTH NUL) msg) 0 = Some msg" using nul by (simp add: cstr_Some)
  then show ?thesis using assms by (auto simp: test_case_def answers_def)
qed

lemma bind_lines_Returned:
  "r = Some (Returned (l1, S)) \<Longrightarrow> f S = Some (Returned (l2, S')) \<Longrightarrow> bind_lines r f = Some (Returned (l1 @ l2, S'))"
  by (simp add: bind_lines_def)

lemma bind_lines_Nil [simp]: "bind_lines (Some (Returned ([], S))) f = f S" "bind_lines None f = None"
  by (auto simp: bind_lines_def split: Option.bind_split outcome.splits)

lemma bind_lines_Nil_iff:
  "bind_lines r f = Some (Returned ([], S')) \<longleftrightarrow> (\<exists>S. r = Some (Returned ([], S)) \<and> f S = Some (Returned ([], S')))"
  by (auto simp: bind_lines_def split: Option.bind_split outcome.splits)

lemma run_cases_pass: "answers S m pattern S' \<Longrightarrow> run_cases S ((m, pattern, name) # ts) = run_cases S' ts"
  using test_case_answers [of S m pattern S'] by (simp add: equals_def)

lemma run_cases_append:
  assumes "run_cases S ts = Some (Returned ([], S'))"
  shows "run_cases S (ts @ us) = run_cases S' us"
  using assms
proof (induction ts arbitrary: S)
  case (Cons t ts)
  then show ?case by (cases t) (auto simp: bind_lines_Nil_iff)
qed simp

text \<open>The environment in which all allocations and all openings of files succeed.\<close>

definition env_ready :: "kvserver \<Rightarrow> bool" where
  "env_ready S \<longleftrightarrow> sv_mallocs S = [] \<and> sv_fopens S = []"

lemma rotate_ready: "env_ready S \<Longrightarrow> same_engines S (rotate_wal S) \<and> env_ready (rotate_wal S)"
  by (simp add: rotate_wal_def fopen_w_def fopen_outcome_def same_engines_def env_ready_def Let_def)

lemma open_ready:
  assumes "env_ready S"
  obtains S1 where "(if \<not> sv_wal_fp S then fopen_a S wal_name else (True, S)) = (True, S1)" "same_engines S S1" "env_ready S1"
proof (cases "sv_wal_fp S")
  case False
  with assms show thesis
    by (intro that [of "snd (fopen_a S wal_name)"])
      (auto simp: fopen_a_def fopen_outcome_def same_engines_def env_ready_def Let_def)
qed (use assms that in \<open>auto simp: same_engines_def\<close>)

lemma wal_append_ready:
  assumes "env_ready S" and "v = Null \<or> v = Str w"
  shows "\<exists>S'. wal_append S c (Str k) v = Some S' \<and> same_engines S S' \<and> env_ready S'"
proof -
  obtain S1 where S1: "(if \<not> sv_wal_fp S then fopen_a S wal_name else (True, S)) = (True, S1)" "same_engines S S1" "env_ready S1"
    by (rule open_ready [OF assms(1)])
  obtain line where line: "wal_line c (Str k) v = Some line" using assms(2) by (auto simp: wal_line_def)
  define bytes S2 where "bytes = (case sv_files S1 wal_name of None \<Rightarrow> [] | Some s \<Rightarrow> s) @ line"
    and "S2 = S1\<lparr>sv_wal_fp := True, sv_files := (sv_files S1)(wal_name \<mapsto> bytes)\<rparr>"
  have S2: "same_engines S S2 \<and> env_ready S2" "same_engines S (S2\<lparr>sv_wal_fp := False\<rparr>) \<and> env_ready (S2\<lparr>sv_wal_fp := False\<rparr>)"
    using S1(2,3) by (simp_all add: S2_def same_engines_def env_ready_def)
  have "wal_append S c (Str k) v =
      Some (if WAL_MAX_SIZE < length bytes then rotate_wal (S2\<lparr>sv_wal_fp := False\<rparr>) else S2)"
    using S1(1) line by (simp add: wal_append_def S2_def bytes_def)
  then show ?thesis using S2 rotate_ready [of "S2\<lparr>sv_wal_fp := False\<rparr>"] by (auto simp: same_engines_def)
qed

text \<open>A request of at most three words: the command, the key and the value.\<close>

definition request :: "string \<Rightarrow> string \<Rightarrow> cptr \<Rightarrow> cptr \<Rightarrow> bool" where
  "request m c key value \<longleftrightarrow> length m < BUFFER_LENGTH \<and> NUL \<notin> set m \<and>
     (\<exists>ws. words (chomp m) = c # ws \<and> length ws < 3 \<and> key = tok_fun (c # ws) 1 \<and> value = tok_fun (c # ws) 2)"

lemma request_answers:
  assumes m: "request m c key value" and cmd: "find_cmd commands c = Some cmd" "exec_cmd S cmd key value = Some (msg, S')"
    and msg: "msg \<noteq> []" "NUL \<notin> set msg" "length msg < MAX_MAS_LENGTH"
  shows "answers S m msg S'"
proof -
  obtain ws where ws: "words (chomp m) = c # ws" "length ws < 3" "key = tok_fun (c # ws) 1" "value = tok_fun (c # ws) 2"
    and len: "length m < BUFFER_LENGTH" "NUL \<notin> set m"
    using m by (auto simp: request_def)
  obtain r where r: "recv_into (rbuffer zero_item) m = m @ NUL # r"
    using recv_item_nul [OF len(1)] by (auto simp: recv_into_zero)
  let ?i = "zero_item\<lparr>rbuffer := recv_into (rbuffer zero_item) m\<rparr>"
  have "rbuffer ?i = m @ NUL # r" "length (words (chomp m)) \<le> KVSTORE_MAX_TOKEN"
    using r ws by (simp_all add: KVSTORE_MAX_TOKEN_def)
  from requese_words [OF this(1) len(2) this(2), of S] show ?thesis
    using ws cmd msg by (auto simp: answers_def kvstore_parser_protocol_def tok_fun_def)
qed

lemma write_answers:
  assumes m: "request m c key value" and cmd: "find_cmd commands c = Some cmd"
    and exec: "exec_cmd S cmd key value = map_option (Pair msg) (wal_append S1 c' (Str k) v)"
    and msg: "msg = ''SUCCESS''" and S1: "env_ready S1" and v: "v = Null \<or> v = Str w"
  shows "\<exists>S'. answers S m ''SUCCESS'' S' \<and> same_engines S1 S' \<and> env_ready S'"
proof -
  obtain S' where S': "wal_append S1 c' (Str k) v = Some S'" "same_engines S1 S'" "env_ready S'"
    using wal_append_ready [OF S1 v] by blast
  have "answers S m ''SUCCESS'' S'"
    using request_answers [OF m cmd] exec S'(1) msg by (simp add: MAX_MAS_LENGTH_def)
  with S' show ?thesis by blast
qed

section \<open>The array test\<close>

lemma array_requests:
  "request ''SET Name King'' ''SET'' (Str ''Name'') (Str ''King'')"
  "request ''GET Name'' ''GET'' (Str ''Name'') Wild"
  "request ''MOD Name Darren'' ''MOD'' (Str ''Name'') (Str ''Darren'')"
  "request ''DEL Name'' ''DEL'' (Str ''Name'') Wild"
  by (simp_all add: request_def BUFFER_LENGTH_def chomp_def tok_fun_def)

text \<open>The array holds the entries \<open>es\<close>, and the other engines are those given.\<close>

definition array_state :: "rbtree \<Rightarrow> hashtable_s \<Rightarrow> kvserver \<Rightarrow> (string \<times> string) list \<Rightarrow> bool" where
  "array_state T h S es \<longleftrightarrow> env_ready S \<and> sv_tree S = T \<and> sv_hash S = h \<and>
     arr_dense (sv_array S) \<and> entries (sv_array S) = es"

lemma array_stored:
  assumes S: "array_state T h S es" and S': "same_engines (S\<lparr>sv_array := a, sv_mallocs := []\<rparr>) S'" "env_ready S'"
    and a: "arr_dense a" "entries a = es'"
  shows "array_state T h S' es'"
  using assms by (simp add: array_state_def same_engines_def)

lemma array_get_answers:
  assumes S: "array_state T h S es" and v: "map_of es ''Name'' = v"
    and msg: "msg = (case v of None \<Rightarrow> ''NO EXIST'' | Some w \<Rightarrow> w)" "msg \<noteq> []" "NUL \<notin> set msg" "length msg < 511"
  shows "answers S ''GET Name'' msg S"
proof (rule request_answers [OF array_requests(2) find_cmd_simps(2)])
  have "kvstore_array_get S (Str ''Name'') = Some (ptr_of v)"
    using arr_dense_get [of "sv_array S" "''Name''"] S v by (simp add: kvstore_array_get_def array_state_def arr_view_def)
  then show "exec_cmd S KV_CMD_GET (Str ''Name'') Wild = Some (msg, S)"
    using msg by (cases v) (auto simp: exec_cmd_defs get_reply_def snprintf_def BUFFER_LENGTH_def)
qed (use msg in \<open>auto simp: MAX_MAS_LENGTH_def\<close>)

lemma success [simp]: "set_reply 0 = ''SUCCESS''" "upd_reply 0 = ''SUCCESS''"
  by (simp_all add: set_reply_def upd_reply_def)

lemma array_set_answers:
  assumes S: "array_state T h S []"
  shows "\<exists>S'. answers S ''SET Name King'' ''SUCCESS'' S' \<and> array_state T h S' [(''Name'', ''King'')]"
proof -
  obtain a where a: "kvs_array_set (sv_array S) (Str ''Name'') (Str ''King'') [] = Some (0, a, [])" "arr_dense a"
      "entries a = [(''Name'', ''King'')]"
    using arr_dense_set [of "sv_array S" "''Name''" "''King''"] S
    by (auto simp: array_state_def entries_def KVS_ARRAY_SIZE_def)
  have "kvstore_array_set S (Str ''Name'') (Str ''King'') = Some (0, S\<lparr>sv_array := a, sv_mallocs := []\<rparr>)"
    using a(1) S by (simp add: kvstore_array_set_def array_state_def env_ready_def)
  from write_answers [OF array_requests(1) find_cmd_simps(1) exec_cmd_write(1) [OF this]] show ?thesis
    using S array_stored [OF S _ _ a(2,3)] by (auto simp: array_state_def env_ready_def)
qed

lemma array_mod_answers:
  assumes S: "array_state T h S [(''Name'', w)]"
  shows "\<exists>S'. answers S ''MOD Name Darren'' ''SUCCESS'' S' \<and> array_state T h S' [(''Name'', ''Darren'')]"
proof -
  obtain a where a: "kvs_array_mod (sv_array S) (Str ''Name'') (Str ''Darren'') [] = Some (0, a, [])" "arr_dense a"
      "entries a = [(''Name'', ''Darren'')]"
    using arr_dense_mod_hit [of "sv_array S" "''Name''" 0 "''Darren''"] S by (auto simp: array_state_def)
  let ?S = "S\<lparr>sv_array := a, sv_mallocs := []\<rparr>"
  have "exec_cmd S KV_CMD_MOD (Str ''Name'') (Str ''Darren'') =
      map_option (Pair (upd_reply 0)) (wal_append ?S ''MOD'' (Str ''Name'') (Str ''Darren''))"
    using a(1) S by (simp add: exec_cmd_defs kvstore_array_mod_def array_state_def env_ready_def map_conv_bind_option comp_def)
  from write_answers [OF array_requests(3) _ this] show ?thesis
    using S array_stored [OF S _ _ a(2,3)] by (auto simp: array_state_def env_ready_def commands_def)
qed

lemma array_del_answers:
  assumes S: "array_state T h S [(''Name'', w)]"
  shows "\<exists>S'. answers S ''DEL Name'' ''SUCCESS'' S' \<and> array_state T h S' []"
proof -
  have "array_idx (sv_array S) = 1" using S length_map [of _ "[0..<array_idx (sv_array S)]"]
    by (auto simp: array_state_def entries_def dest!: arg_cong [of _ _ length])
  then obtain a where a: "kvs_array_del (sv_array S) (Str ''Name'') = Some (0, a)" "arr_dense a" "entries a = []"
    using arr_dense_del_last [of "sv_array S" "''Name''"] S by (auto simp: array_state_def)
  let ?S = "S\<lparr>sv_array := a, sv_mallocs := []\<rparr>"
  have "exec_cmd S KV_CMD_DEL (Str ''Name'') Wild = map_option (Pair (upd_reply 0)) (wal_append ?S ''DEL'' (Str ''Name'') Null)"
    using a(1) S by (cases S) (simp add: exec_cmd_defs kvstore_array_del_def array_state_def env_ready_def map_conv_bind_option comp_def)
  from write_answers [OF array_requests(4) _ this] show ?thesis
    using S array_stored [OF S _ _ a(2,3)] by (auto simp: array_state_def env_ready_def commands_def)
qed

text \<open>A client function passes: it prints nothing, and leads from one state to another.\<close>

definition passes :: "kvserver \<Rightarrow> test list \<Rightarrow> (kvserver \<Rightarrow> bool) \<Rightarrow> bool" where
  "passes S ts Q \<longleftrightarrow> (\<exists>S'. run_cases S ts = Some (Returned ([], S')) \<and> Q S')"

lemma passes_Nil [simp]: "passes S [] Q = Q S"
  by (simp add: passes_def)

lemma passes_Cons: "answers S m p S' \<Longrightarrow> passes S' ts Q \<Longrightarrow> passes S ((m, p, n) # ts) Q"
  by (simp add: passes_def run_cases_pass del: run_cases.simps)

lemma passes_append: "passes S ts P \<Longrightarrow> (\<And>S'. P S' \<Longrightarrow> passes S' us Q) \<Longrightarrow> passes S (ts @ us) Q"
  by (auto simp: passes_def run_cases_append)

lemma passes_iter:
  assumes step: "\<And>i S. i < n \<Longrightarrow> P i S \<Longrightarrow> passes S (f i) (P (Suc i))" and "P 0 S"
  shows "passes S (concat (map f [0..<n])) (P n)"
  using step
proof (induction n)
  case 0
  then show ?case using assms(2) by simp
next
  case (Suc n)
  have "passes S (concat (map f [0..<n])) (P n)" by (rule Suc.IH) (simp add: Suc.prems)
  from passes_append [OF this, of "f n"] Suc.prems show ?case by simp
qed

lemma array_passes:
  assumes "array_state T h S []"
  shows "passes S array_testcase (\<lambda>S. array_state T h S [])"
proof -
  obtain S1 where S1: "answers S ''SET Name King'' ''SUCCESS'' S1" "array_state T h S1 [(''Name'', ''King'')]"
    using array_set_answers [OF assms] by blast
  obtain S2 where S2: "answers S1 ''MOD Name Darren'' ''SUCCESS'' S2" "array_state T h S2 [(''Name'', ''Darren'')]"
    using array_mod_answers [OF S1(2)] by blast
  obtain S3 where S3: "answers S2 ''DEL Name'' ''SUCCESS'' S3" "array_state T h S3 []"
    using array_del_answers [OF S2(2)] by blast
  have g: "answers S1 ''GET Name'' ''King'' S1" "answers S2 ''GET Name'' ''Darren'' S2" "answers S3 ''GET Name'' ''NO EXIST'' S3"
    using array_get_answers [OF S1(2) refl refl] array_get_answers [OF S2(2) refl refl] array_get_answers [OF S3(2) refl refl]
    by simp_all
  show ?thesis unfolding array_testcase_def
    by (intro passes_Cons [OF S1(1)] passes_Cons [OF g(1)] passes_Cons [OF S2(1)] passes_Cons [OF g(2)]
        passes_Cons [OF S3(1)] passes_Cons [OF g(3)]) (simp add: S3(2))
qed

lemma array10w_passes:
  assumes "array_state T h S []"
  shows "passes S array_testcase10w (\<lambda>S. array_state T h S [])"
  using passes_iter [of 100000 "\<lambda>_ S. array_state T h S []" "\<lambda>_. array_testcase"] array_passes assms
  by (simp add: array_testcase10w_def map_replicate_const)

section \<open>The tests with many nodes\<close>

text \<open>The numbers of the test have at most five digits.\<close>

lemma dec_char: "c \<in> set (dec n) \<Longrightarrow> \<not> isspace c \<and> c \<noteq> NUL"
  using dec_digits [of c n] by (auto simp: isspace_def)

lemma dec_reply:
  assumes "n \<le> 50000"
  shows "dec n \<noteq> []" "NUL \<notin> set (dec n)" "length (dec n) \<le> 5"
  using assms dec_length [of n 4] dec_char [of NUL n] undec_dec [of n] by (auto simp: dec.simps [of n] split: if_splits)

definition node_word :: "string \<Rightarrow> bool" where
  "node_word w \<longleftrightarrow> wal_word 9 w \<and> NUL \<notin> set w"

lemma node_words: "i < 50000 \<Longrightarrow> node_word (node_key i)" "i < 50000 \<Longrightarrow> node_word (node_val i)"
  using dec_reply [of i] dec_char
  by (auto simp: node_word_def wal_word_def node_key_def node_val_def isspace_def)

lemma node_key_inj [simp]: "node_key i = node_key j \<longleftrightarrow> i = j"
  by (simp add: node_key_def)

lemma request_msg3:
  assumes "wal_word 9 c" "NUL \<notin> set c" "node_word k" "node_word v"
  shows "request (msg3 c k v) c (Str k) (Str v)"
  using assms words_msg3 [of 9 c 9 k 9 v]
  by (auto simp: request_def node_word_def tok_fun_def msg3_def wal_word_def BUFFER_LENGTH_def)

text \<open>The nodes with numbers from \<open>a\<close> up to, but without, \<open>b\<close>.\<close>

definition nodes_between :: "nat \<Rightarrow> nat \<Rightarrow> kvmap" where
  "nodes_between a b = map_of (map (\<lambda>i. (node_key i, node_val i)) [a..<b])"

lemma nodes_None: "nodes_between a b (node_key i) = None \<longleftrightarrow> \<not> (a \<le> i \<and> i < b)"
  by (auto simp: nodes_between_def map_of_eq_None_iff image_image)

lemma nodes_push: "a \<le> b \<Longrightarrow> (nodes_between a b)(node_key b \<mapsto> node_val b) = nodes_between a (Suc b)"
  using nodes_None [of a b b]
  by (auto simp: nodes_between_def fun_eq_iff map_add_def split: option.splits)

lemma nodes_pop: "a < b \<Longrightarrow> (nodes_between a b)(node_key a := None) = nodes_between (Suc a) b"
  using nodes_None [of "Suc a" b a] by (auto simp: nodes_between_def fun_eq_iff upt_conv_Cons)

text \<open>
  What the test asks of an engine with a counter: the state \<open>K S m n\<close> of the server says that the
  engine holds \<open>m\<close> and that its counter is \<open>n\<close>.
\<close>

locale counted_engine =
  fixes cset cdel ccount :: string and K :: "kvserver \<Rightarrow> kvmap \<Rightarrow> nat \<Rightarrow> bool"
  assumes cmds: "wal_word 9 cset" "wal_word 9 cdel"
    and set_new: "K S m n \<Longrightarrow> m k = None \<Longrightarrow> n < 50000 \<Longrightarrow> node_word k \<Longrightarrow> node_word v \<Longrightarrow>
      \<exists>S'. answers S (msg3 cset k v) ''SUCCESS'' S' \<and> K S' (m(k \<mapsto> v)) (Suc n)"
    and del_hit: "K S m (Suc n) \<Longrightarrow> m k = Some w \<Longrightarrow> node_word k \<Longrightarrow> node_word v \<Longrightarrow>
      \<exists>S'. answers S (msg3 cdel k v) ''SUCCESS'' S' \<and> K S' (m(k := None)) n"
    and count: "K S m n \<Longrightarrow> n \<le> 50000 \<Longrightarrow> answers S ccount (dec n) S"
begin

lemma short: "i < 50000 \<Longrightarrow> snprintf 128 (cset @ '' '' @ node_key i @ '' '' @ node_val i) = msg3 cset (node_key i) (node_val i)"
  "i < 50000 \<Longrightarrow> snprintf 128 (cdel @ '' '' @ node_key i @ '' '' @ node_val i) = msg3 cdel (node_key i) (node_val i)"
  using cmds node_words [of i] by (auto simp: snprintf_def msg3_def node_word_def wal_word_def)

lemma set_loop:
  assumes "K S Map.empty 0" and "c \<le> 50000"
  shows "passes S (concat (map (set_step cset ccount) [0..<c])) (\<lambda>S. K S (nodes_between 0 c) c)"
proof (rule passes_iter [where P = "\<lambda>i S. K S (nodes_between 0 i) i"])
  fix i S assume i: "i < c" and K: "K S (nodes_between 0 i) i"
  obtain S1 where S1: "answers S (msg3 cset (node_key i) (node_val i)) ''SUCCESS'' S1" "K S1 (nodes_between 0 (Suc i)) (Suc i)"
    using set_new [OF K, of "node_key i" "node_val i"] node_words [of i] i assms(2) by (auto simp: nodes_None nodes_push)
  have "answers S1 ccount (dec (i + 1)) S1" using count [OF S1(2)] i assms(2) by simp
  with S1 show "passes S (set_step cset ccount i) (\<lambda>S. K S (nodes_between 0 (Suc i)) (Suc i))"
    using i assms(2) by (simp add: set_step_def short(1) [simplified] passes_Cons)
qed (use assms in \<open>simp add: nodes_between_def\<close>)

lemma del_loop:
  assumes "K S (nodes_between 0 c) c" and "c \<le> 50000"
  shows "passes S (concat (map (del_step cdel ccount c) [0..<c])) (\<lambda>S. K S Map.empty 0)"
proof -
  have "passes S (concat (map (del_step cdel ccount c) [0..<c])) (\<lambda>S. K S (nodes_between c c) (c - c))"
  proof (rule passes_iter [where P = "\<lambda>i S. K S (nodes_between i c) (c - i)"])
    fix i S assume i: "i < c" and "K S (nodes_between i c) (c - i)"
    then have K: "K S (nodes_between i c) (Suc (c - Suc i))" by (simp add: Suc_diff_Suc)
    obtain w where "nodes_between i c (node_key i) = Some w" using nodes_None [of i c i] i by auto
    then obtain S1 where S1: "answers S (msg3 cdel (node_key i) (node_val i)) ''SUCCESS'' S1" "K S1 (nodes_between (Suc i) c) (c - Suc i)"
      using del_hit [OF K, of "node_key i" w "node_val i"] node_words [of i] i assms(2) by (auto simp: nodes_pop)
    have "answers S1 ccount (dec (c - (i + 1))) S1" using count [OF S1(2)] i assms(2) by simp
    with S1 show "passes S (del_step cdel ccount c i) (\<lambda>S. K S (nodes_between (Suc i) c) (c - Suc i))"
      using i assms(2) by (simp add: del_step_def short(2) [simplified] passes_Cons)
  qed (use assms in simp)
  then show ?thesis by (simp add: nodes_between_def)
qed

lemma nodes_pass:
  assumes "K S Map.empty 0" and "c \<le> 50000"
  shows "passes S (node_testcase cset cdel ccount c) (\<lambda>S. K S Map.empty 0)"
  unfolding node_testcase_def by (rule passes_append [OF set_loop [OF assms] del_loop [OF _ assms(2)]])

end

text \<open>The two engines with the counters, with the other engines as they are.\<close>

definition tree_state :: "array_s \<Rightarrow> hashtable_s \<Rightarrow> kvserver \<Rightarrow> kvmap \<Rightarrow> nat \<Rightarrow> bool" where
  "tree_state a h S m n \<longleftrightarrow> env_ready S \<and> sv_array S = a \<and> sv_hash S = h \<and>
     rb_inv (sv_tree S) \<and> rb_view (sv_tree S) = m \<and> rt_count (sv_tree S) = int n"

definition hash_state :: "array_s \<Rightarrow> rbtree \<Rightarrow> kvserver \<Rightarrow> kvmap \<Rightarrow> nat \<Rightarrow> bool" where
  "hash_state a T S m n \<longleftrightarrow> env_ready S \<and> sv_array S = a \<and> sv_tree S = T \<and>
     hash_inv (sv_hash S) \<and> hash_view (sv_hash S) = m \<and> hcount (sv_hash S) = int n"

lemma count_request: "request ''RCOUNT'' ''RCOUNT'' Wild Wild" "request ''HCOUNT'' ''HCOUNT'' Wild Wild"
  by (simp_all add: request_def BUFFER_LENGTH_def chomp_def tok_fun_def)

lemma count_answers:
  assumes "n \<le> 50000" and "request m c key value" and "find_cmd commands c = Some cmd"
    and "exec_cmd S cmd key value = Some (count_reply (int n), S)"
  shows "answers S m (dec n) S"
  using request_answers [OF assms(2,3)] assms(4) dec_reply [OF assms(1)]
  by (simp add: count_reply_def snprintf_def BUFFER_LENGTH_def MAX_MAS_LENGTH_def)

lemma node_cmds: "wal_word 9 ''RSET''" "wal_word 9 ''RDEL''" "wal_word 9 ''HSET''" "wal_word 9 ''HDEL''"
  by (simp_all add: wal_word_def isspace_def)

lemma node_request:
  assumes "c \<in> {''RSET'', ''RDEL'', ''HSET'', ''HDEL''}" and "node_word k" and "node_word v"
  shows "request (msg3 c k v) c (Str k) (Str v)"
  using assms node_cmds by (intro request_msg3) auto

lemma tree_set_answers:
  assumes S: "tree_state a h S m n" and k: "m k = None" "n < 50000" and w: "node_word k" "node_word v"
  shows "\<exists>S'. answers S (msg3 ''RSET'' k v) ''SUCCESS'' S' \<and> tree_state a h S' (m(k \<mapsto> v)) (Suc n)"
proof -
  obtain t where "rb_tree (sv_tree S) t" using S by (auto simp: tree_state_def rb_inv_def)
  from rb_set_new [OF this, of k v] obtain T where T: "kvs_rbtree_set (sv_tree S) (Str k) (Str v) [] = Some (0, T, [])"
      "rb_inv T" "rt_count T = int (Suc n)" "rb_view T = m(k \<mapsto> v)"
    using S k by (auto simp: tree_state_def INT_MAX_def)
  have "kvstore_rbtree_set S (Str k) (Str v) = Some (0, S\<lparr>sv_tree := T, sv_mallocs := []\<rparr>)"
    using S T(1) by (simp add: kvstore_rbtree_set_def tree_state_def env_ready_def)
  from write_answers [OF node_request find_cmd_simps(4) exec_cmd_write(2) [OF this]] show ?thesis
    using S T w by (fastforce simp: tree_state_def env_ready_def same_engines_def)
qed

lemma tree_del_answers:
  assumes S: "tree_state a h S m (Suc n)" and k: "m k = Some u" and w: "node_word k" "node_word v"
  shows "\<exists>S'. answers S (msg3 ''RDEL'' k v) ''SUCCESS'' S' \<and> tree_state a h S' (m(k := None)) n"
proof -
  obtain t where "rb_tree (sv_tree S) t" using S by (auto simp: tree_state_def rb_inv_def)
  from rb_delete_present [OF this] obtain T where T: "kvs_rbtree_delete (sv_tree S) (Str k) = Some (0, T)"
      "rb_inv T" "rt_count T = int n" "rb_view T = m(k := None)"
    using S k by (auto simp: tree_state_def)
  have "kvstore_rbtree_delete S (Str k) = Some (0, S\<lparr>sv_tree := T\<rparr>)"
    using S T(1) by (simp add: kvstore_rbtree_delete_def)
  from write_answers [OF node_request find_cmd_simps(6) exec_cmd_write(3) [OF this]] show ?thesis
    using S T w by (fastforce simp: tree_state_def env_ready_def same_engines_def)
qed

interpretation tree_nodes: counted_engine "''RSET''" "''RDEL''" "''RCOUNT''" "tree_state a h" for a h
proof unfold_locales
  show "answers S ''RCOUNT'' (dec n) S" if "tree_state a h S m n" "n \<le> 50000" for S m n
    using that by (intro count_answers [OF _ count_request(1) find_cmd_simps(8)])
      (simp_all add: exec_cmd_defs tree_state_def kvstore_rbtree_count_def kvs_rbtree_count_def)
qed (use tree_set_answers tree_del_answers node_cmds in auto)

lemma hash_set_answers:
  assumes S: "hash_state a T S m n" and k: "m k = None" "n < 50000" and w: "node_word k" "node_word v"
  shows "\<exists>S'. answers S (msg3 ''HSET'' k v) ''SUCCESS'' S' \<and> hash_state a T S' (m(k \<mapsto> v)) (Suc n)"
proof -
  obtain h where h: "kvs_hash_set (sv_hash S) (Str k) (Str v) [] = Some (0, h, [])"
      "hash_inv h" "hcount h = int (Suc n)" "hash_view h = m(k \<mapsto> v)"
    using hash_set_absent [of "sv_hash S" k v] S k by (auto simp: hash_state_def INT_MAX_def)
  have "kvstore_hash_set S (Str k) (Str v) = Some (0, S\<lparr>sv_hash := h, sv_mallocs := []\<rparr>)"
    using S h(1) by (simp add: kvstore_hash_set_def hash_state_def env_ready_def)
  from write_answers [OF node_request find_cmd_simps(9) exec_cmd_write(5) [OF this]] show ?thesis
    using S h w by (fastforce simp: hash_state_def env_ready_def same_engines_def)
qed

lemma hash_del_answers:
  assumes S: "hash_state a T S m (Suc n)" and k: "m k = Some u" and w: "node_word k" "node_word v"
  shows "\<exists>S'. answers S (msg3 ''HDEL'' k v) ''SUCCESS'' S' \<and> hash_state a T S' (m(k := None)) n"
proof -
  obtain h where h: "kvs_hash_delete (sv_hash S) (Str k) = Some (0, h)"
      "hash_inv h" "hcount h = int n" "hash_view h = m(k := None)"
    using hash_delete_present [of "sv_hash S" k u] S k by (auto simp: hash_state_def)
  have "kvstore_hash_del S (Str k) = Some (0, S\<lparr>sv_hash := h\<rparr>)"
    using S h(1) by (simp add: kvstore_hash_del_def)
  from write_answers [OF node_request find_cmd_simps(11) exec_cmd_write(6) [OF this]] show ?thesis
    using S h w by (fastforce simp: hash_state_def env_ready_def same_engines_def)
qed

interpretation hash_nodes: counted_engine "''HSET''" "''HDEL''" "''HCOUNT''" "hash_state a T" for a T
proof unfold_locales
  show "answers S ''HCOUNT'' (dec n) S" if "hash_state a T S m n" "n \<le> 50000" for S m n
    using that by (intro count_answers [OF _ count_request(2) find_cmd_simps(13)])
      (simp_all add: exec_cmd_defs hash_state_def kvstore_hash_count_def kvs_hash_count_def)
qed (use hash_set_answers hash_del_answers node_cmds in auto)

section \<open>Properties\<close>

text \<open>A server with empty engines: the one that was just started, and every one a passed test leaves.\<close>

definition empty_engines :: "kvserver \<Rightarrow> bool" where
  "empty_engines S \<longleftrightarrow> env_ready S \<and> arr_dense (sv_array S) \<and> entries (sv_array S) = [] \<and>
     rb_inv (sv_tree S) \<and> rb_view (sv_tree S) = Map.empty \<and> rt_count (sv_tree S) = 0 \<and>
     hash_inv (sv_hash S) \<and> hash_view (sv_hash S) = Map.empty \<and> hcount (sv_hash S) = 0"

lemma empty_engines_start:
  obtains E where "init_kvengine new_server = Some E" and "empty_engines E"
proof -
  obtain T where T: "kvstore_rbtree_create (sv_tree new_server) [] = Some (0, T, [])" "rb_tree T Lf" "rt_count T = 0" "rb_view T = Map.empty"
    by (rule rb_create)
  let ?E = "new_server\<lparr>sv_array := \<lparr>array_table = Some Map.empty, array_idx = 0\<rparr>, sv_tree := T, sv_hash := empty_table\<rparr>"
  have "init_kvengine new_server = wal_replay ?E"
    using T(1) hash_create by (simp add: init_kvengine_def kvstore_array_create_def new_server_def)
  moreover have "wal_inv ?E []" by (intro wal_inv_empty) (simp_all add: new_server_def)
  ultimately have "init_kvengine new_server = Some ?E" using wal_inv_replay [of ?E "[]"] by simp
  moreover have "arr_dense \<lparr>array_table = Some Map.empty, array_idx = 0\<rparr>"
    using arr_marked_empty by (auto simp: arr_dense_def arr_inv_def)
  then have "empty_engines ?E" using T(2-4) empty_table_inv empty_table_view
    by (auto simp: empty_engines_def env_ready_def entries_def rb_inv_def new_server_def empty_table_def)
  ultimately show thesis by (rule that)
qed

lemma array_main: "empty_engines S \<Longrightarrow> passes S array_testcase10w empty_engines"
  using array10w_passes [of "sv_tree S" "sv_hash S" S]
  by (force simp: empty_engines_def array_state_def passes_def)

lemma tree_main: "empty_engines S \<Longrightarrow> passes S rbtree_testcase_5w_node empty_engines"
  using tree_nodes.nodes_pass [of "sv_array S" "sv_hash S" S 50000]
  by (force simp: rbtree_testcase_5w_node_def empty_engines_def tree_state_def passes_def)

lemma hash_main: "empty_engines S \<Longrightarrow> passes S hash_testcase_5w_node empty_engines"
  using hash_nodes.nodes_pass [of "sv_array S" "sv_tree S" S 50000]
  by (force simp: hash_testcase_5w_node_def empty_engines_def hash_state_def passes_def)

lemma timed_passes:
  assumes "empty_engines S" and "\<And>S. empty_engines S \<Longrightarrow> passes S ts empty_engines"
    and l: "report name requests t = Some l"
  shows "\<exists>S'. timed_test S sel ts name requests t = Some (Returned (if sel then [l] else [], S')) \<and> empty_engines S'"
proof -
  obtain S' where "run_cases S ts = Some (Returned ([], S'))" "empty_engines S'"
    using assms(1,2) by (auto simp: passes_def)
  then show ?thesis using assms(1) l by (auto simp: timed_test_def)
qed

text \<open>
  C28. The test client passes against the coroutine server: for all bits of the option \<open>-m\<close>, no case
  of the hundred thousand rounds of the array test nor of the tests with fifty thousand nodes prints
  a failure. Provided that no test takes less than a millisecond, the output is the line with the
  time of each selected test, and the engines are empty again at the end.
\<close>

theorem testcase_passes:
  assumes "report ''array'' 600000 t1 = Some l1" and "report ''rbtree'' 200000 t2 = Some l2"
    and "report ''hash'' 200000 t4 = Some l4"
  shows "\<exists>S S'. init_kvengine new_server = Some S \<and>
     testcase_main S mode t1 t2 t4 = Some (Returned
       ((if mode AND 1 \<noteq> 0 then [l1] else []) @ (if mode AND 2 \<noteq> 0 then [l2] else []) @
        (if mode AND 4 \<noteq> 0 then [l4] else []), S')) \<and>
     kvstore_array_count S' = 0 \<and> kvstore_rbtree_count S' = 0 \<and> kvstore_hash_count S' = 0"
proof -
  obtain E where E: "init_kvengine new_server = Some E" "empty_engines E" by (rule empty_engines_start)
  obtain S1 where S1: "timed_test E (mode AND 1 \<noteq> 0) array_testcase10w ''array'' 600000 t1 =
      Some (Returned (if mode AND 1 \<noteq> 0 then [l1] else [], S1))" "empty_engines S1"
    using timed_passes [OF E(2) array_main assms(1)] by blast
  obtain S2 where S2: "timed_test S1 (mode AND 2 \<noteq> 0) rbtree_testcase_5w_node ''rbtree'' 200000 t2 =
      Some (Returned (if mode AND 2 \<noteq> 0 then [l2] else [], S2))" "empty_engines S2"
    using timed_passes [OF S1(2) tree_main assms(2)] by blast
  obtain S3 where S3: "timed_test S2 (mode AND 4 \<noteq> 0) hash_testcase_5w_node ''hash'' 200000 t4 =
      Some (Returned (if mode AND 4 \<noteq> 0 then [l4] else [], S3))" "empty_engines S3"
    using timed_passes [OF S2(2) hash_main assms(3)] by blast
  have "kvstore_array_count S3 = 0 \<and> kvstore_rbtree_count S3 = 0 \<and> kvstore_hash_count S3 = 0"
    using S3(2) by (simp add: empty_engines_def kvstore_array_count_def kvs_array_count_def entries_def
        kvstore_rbtree_count_def kvs_rbtree_count_def kvstore_hash_count_def kvs_hash_count_def)
  then show ?thesis using E(1) unfolding testcase_main_def
    by (intro exI [of _ E] exI [of _ S3] conjI bind_lines_Returned [OF S1(1)] bind_lines_Returned [OF S2(1)] S3(1)) simp_all
qed

theorem testcase_passes_witness:
  "\<exists>S S'. init_kvengine new_server = Some S \<and> testcase_main S 3 60000 20000 1 =
     Some (Returned ([''array testcase--> time_used: 60000, qps: 10000'' @ [CHR 0x0A],
                      ''rbtree testcase--> time_used: 20000, qps: 10000'' @ [CHR 0x0A]], S'))"
proof -
  have "dec 60000 = ''60000''" "dec 20000 = ''20000''" "dec 10000 = ''10000''" by (simp_all add: dec.simps char_of_def bit_0)
  then have "report ''array'' 600000 60000 = Some (''array testcase--> time_used: 60000, qps: 10000'' @ [CHR 0x0A])"
      "report ''rbtree'' 200000 20000 = Some (''rbtree testcase--> time_used: 20000, qps: 10000'' @ [CHR 0x0A])"
      "\<exists>l. report ''hash'' 200000 1 = Some l"
    by (simp_all add: report_def dec_int_def signed_divide_int_def)
  then obtain l where r: "report ''array'' 600000 60000 = Some (''array testcase--> time_used: 60000, qps: 10000'' @ [CHR 0x0A])"
      "report ''rbtree'' 200000 20000 = Some (''rbtree testcase--> time_used: 20000, qps: 10000'' @ [CHR 0x0A])"
      "report ''hash'' 200000 1 = Some l" by blast
  have "((3 :: 32 word) AND 1 \<noteq> 0) = True" "((3 :: 32 word) AND 2 \<noteq> 0) = True" "((3 :: 32 word) AND 4 \<noteq> 0) = False"
    by simp_all
  with testcase_passes [OF r, of 3] show ?thesis
    by (simp only: if_True if_False append_Nil2 append_Cons [of _ "[]"] append_Nil) blast
qed

text \<open>
  The tests \<open>rbtree_testcase\<close> and \<open>hash_testcase\<close>, which \<open>main\<close> has commented out, cannot pass: their
  second request is a GET of two words, whose missing value the server uses for the log record.
\<close>

lemma two_word_get:
  assumes "env_ready S" and "(m, c, cmd) \<in> {(''RGET Name'', ''RGET'', KV_CMD_RGET), (''HGET Name'', ''HGET'', KV_CMD_HGET)}"
  shows "test_case S m pattern name = None"
proof -
  obtain r where r: "recv_into (rbuffer zero_item) m = m @ NUL # r"
    using recv_item_nul [of m] assms(2) by (auto simp: recv_into_zero BUFFER_LENGTH_def)
  have "kvstore_requese S (zero_item\<lparr>rbuffer := recv_into (rbuffer zero_item) m\<rparr>) = None"
    by (rule missing_value_undefined [where c = c and k = "''Name''" and cmd = cmd, OF _])
      (use assms r in \<open>auto simp: chomp_def find_cmd_simps env_ready_def\<close>)
  then show ?thesis by (simp add: test_case_def)
qed

theorem two_word_tests_undefined:
  "\<exists>S. init_kvengine new_server = Some S \<and> run_cases S rbtree_testcase = None \<and> run_cases S hash_testcase = None"
proof -
  obtain E where E: "init_kvengine new_server = Some E" "empty_engines E" by (rule empty_engines_start)
  have T: "tree_state (sv_array E) (sv_hash E) E Map.empty 0" and H: "hash_state (sv_array E) (sv_tree E) E Map.empty 0"
    using E(2) by (simp_all add: empty_engines_def tree_state_def hash_state_def)
  have w: "node_word ''Name''" "node_word ''King''" by (simp_all add: node_word_def wal_word_def isspace_def)
  obtain S1 where S1: "answers E ''RSET Name King'' ''SUCCESS'' S1" "env_ready S1"
    using tree_nodes.set_new [OF T _ _ w] by (auto simp: msg3_def tree_state_def)
  obtain S2 where S2: "answers E ''HSET Name King'' ''SUCCESS'' S2" "env_ready S2"
    using hash_nodes.set_new [OF H _ _ w] by (auto simp: msg3_def hash_state_def)
  have "run_cases E rbtree_testcase = None"
    unfolding rbtree_testcase_def run_cases_pass [OF S1(1)] by (simp add: two_word_get [OF S1(2)])
  moreover have "run_cases E hash_testcase = None"
    unfolding hash_testcase_def run_cases_pass [OF S2(1)] by (simp add: two_word_get [OF S2(2)])
  ultimately show ?thesis using E(1) by blast
qed

end
