(* ===== verification/Ws_Sample.thy ===== *)
theory Ws_Sample
  imports CText "HOL-Library.Word" "HOL-Library.Monad_Syntax"
begin

text \<open>
  The WebSocket server among the samples of NtyCo (\<open>nty_websocket_server.c\<close>): the decoding and encoding
  of frames, the reader that sends back what it receives, and the handshake. Buffers are lists of their
  full length; \<open>None\<close> is an access behind the end of one.
\<close>

unbundle bit_operations_syntax

section \<open>Frames\<close>

type_synonym byte = "8 word"

definition MAX_BUFFER_LENGTH :: nat where
  "MAX_BUFFER_LENGTH = 1024"

text \<open>The header of two bytes with its bit fields.\<close>

record nty_ophdr =
  opcode :: byte
  fin :: byte
  payload_length :: byte
  mask_bit :: byte

definition hdr_of :: "byte list \<Rightarrow> nty_ophdr" where
  "hdr_of s = \<lparr>opcode = s ! 0 AND 0x0f, fin = drop_bit 7 (s ! 0), payload_length = s ! 1 AND 0x7f, mask_bit = drop_bit 7 (s ! 1)\<rparr>"

definition hdr_bytes :: "nty_ophdr \<Rightarrow> byte list" where
  "hdr_bytes h = [opcode h OR push_bit 7 (fin h), payload_length h OR push_bit 7 (mask_bit h)]"

text \<open>A number in the order of the bytes in memory.\<close>

fun little_endian :: "byte list \<Rightarrow> nat" where
  "little_endian [] = 0"
| "little_endian (b # bs) = unat b + 256 * little_endian bs"

fun le_bytes :: "nat \<Rightarrow> nat \<Rightarrow> byte list" where
  "le_bytes 0 n = []"
| "le_bytes (Suc k) n = of_nat n # le_bytes k (n div 256)"

text \<open>\<open>memcpy\<close> to the position \<open>p\<close> of a buffer.\<close>

definition memcpy_to :: "'a list \<Rightarrow> nat \<Rightarrow> 'a list \<Rightarrow> 'a list option" where
  "memcpy_to buf p d = (if p + length d \<le> length buf then Some (take p buf @ d @ drop (p + length d) buf) else None)"

text \<open>\<open>umask\<close> on \<open>len\<close> bytes from the position \<open>p\<close>.\<close>

definition umask :: "byte list \<Rightarrow> nat \<Rightarrow> int \<Rightarrow> byte list \<Rightarrow> byte list option" where
  "umask s p len key =
     (if p + nat len \<le> length s
      then Some (take p s @ map (\<lambda>i. s ! (p + i) XOR key ! (i mod 4)) [0..<nat len] @ drop (p + nat len) s)
      else None)"

text \<open>
  The payload with its size and the mask. The tests for the two longer headers look at the bit that
  tells whether there is a mask.
\<close>

definition decode_packet :: "byte list \<Rightarrow> (int \<times> byte list \<times> byte list) option" where
  "decode_packet stream =
     (let hdr = hdr_of stream; data = drop 2 stream;
          (size, key, start) =
            (if mask_bit hdr AND 0x7F = 126 then (int (little_endian (take 2 data)), take 4 (drop 2 data), 8)
             else if mask_bit hdr AND 0x7F = 127
             then (sint (of_nat (little_endian (take 8 data)) :: 32 word), take 4 (drop 8 data), 14)
             else (uint (payload_length hdr), take 4 data, 6))
      in do { stream \<leftarrow> umask stream start size key; Some (size, key, drop start stream) })"

text \<open>The headers of longer frames are written, and overwritten by the payload.\<close>

definition encode_packet :: "byte list \<Rightarrow> byte list \<Rightarrow> byte list \<Rightarrow> int \<Rightarrow> (int \<times> byte list) option" where
  "encode_packet buffer key stream len =
     (let head = \<lparr>opcode = 1, fin = 1, payload_length = 0, mask_bit = 0\<rparr>
      in do {
        buffer \<leftarrow>
          (if len < 126 then memcpy_to buffer 0 (hdr_bytes (head\<lparr>payload_length := of_int len AND 0x7f\<rparr>))
           else if len < 0xffff
           then do { b \<leftarrow> memcpy_to buffer 0 (hdr_bytes head);
                     memcpy_to b 2 (le_bytes 2 (nat len) @ take 4 key @ replicate 8 0) }
           else do { b \<leftarrow> memcpy_to buffer 0 (hdr_bytes head);
                     memcpy_to b 2 (le_bytes 8 (nat len) @ take 4 key @ replicate 8 0) });
        buffer \<leftarrow> (if len < 0 \<or> length stream < nat len then None else memcpy_to buffer 2 (take (nat len) stream));
        Some (len + 2, buffer) })"

text \<open>What the reader does with the bytes of one \<open>nty_recv\<close>: the bytes it sends.\<close>

definition ws_turn :: "byte list \<Rightarrow> byte list option" where
  "ws_turn received =
     (let stream = received @ replicate (MAX_BUFFER_LENGTH - length received) 0
      in do {
        (size, key, data) \<leftarrow> decode_packet stream;
        (ret, buffer) \<leftarrow> encode_packet (replicate (MAX_BUFFER_LENGTH + 14) 0) key data size;
        Some (take (nat ret) buffer) })"

section \<open>Handshake\<close>

definition GUID :: string where
  "GUID = ''258EAFA5-E914-47DA-95CA-C5AB0DC85B11''"

text \<open>
  \<open>readline\<close> from the position \<open>level\<close>: the line without its end, and the position behind it, which is
  \<open>None\<close> for the result \<open>-1\<close>.
\<close>

fun readline_from :: "string \<Rightarrow> nat \<Rightarrow> string \<times> nat option" where
  "readline_from [] level = ([], None)"
| "readline_from (c # cs) level =
     (if c = CHR 0x0D \<and> cs \<noteq> [] \<and> hd cs = CHR 0x0A then ([], Some (level + 2))
      else let (l, n) = readline_from cs (level + 1) in (c # l, n))"

definition readline :: "string \<Rightarrow> nat \<Rightarrow> (string \<times> nat option) option" where
  "readline allbuf level = do { s \<leftarrow> cstr allbuf 0; Some (readline_from (drop level s) level) }"

fun strstr :: "string \<Rightarrow> string \<Rightarrow> bool" where
  "strstr [] s \<longleftrightarrow> s = []"
| "strstr (c # cs) s \<longleftrightarrow> take (length s) (c # cs) = s \<or> strstr cs s"

definition switching_protocols :: "string \<Rightarrow> string" where
  "switching_protocols accept =
     ''HTTP/1.1 101 Switching Protocols'' @ [CHR 0x0D, CHR 0x0A] @
     ''Upgrade: websocket'' @ [CHR 0x0D, CHR 0x0A] @
     ''Connection: Upgrade'' @ [CHR 0x0D, CHR 0x0A] @
     ''Sec-WebSocket-Accept: '' @ accept @ [CHR 0x0D, CHR 0x0A] @ [CHR 0x0D, CHR 0x0A]"

text \<open>
  The answer to a line with the key. \<open>sha1\<close> and \<open>base64\<close> are the functions of OpenSSL; \<open>base64\<close> ends in
  a line feed, which \<open>base64_encode\<close> overwrites. The length of the digest is taken with \<open>strlen\<close>. The line
  buffer has 128 bytes, that of the answer 32.
\<close>

definition base64_encode :: "(string \<Rightarrow> string) \<Rightarrow> string \<Rightarrow> string option" where
  "base64_encode base64 in_str =
     (let out = base64 in_str in if 32 < length out \<or> out = [] then None else Some (butlast out))"

definition answer_key :: "(string \<Rightarrow> string) \<Rightarrow> (string \<Rightarrow> string) \<Rightarrow> string \<Rightarrow> string option" where
  "answer_key sha1 base64 line =
     (if 128 \<le> length (line @ GUID) then None
      else do {
        let digest = takeWhile (\<lambda>c. c \<noteq> NUL) (sha1 (drop 19 (line @ GUID)));
        accept \<leftarrow> base64_encode base64 digest;
        Some (switching_protocols accept) })"

text \<open>
  The loop over the lines of the request, up to the line with the key or the empty line. The condition
  reads the buffer at the result of \<open>readline\<close> before it looks whether that is \<open>-1\<close>.
\<close>

partial_function (option) handshake_loop ::
  "(string \<Rightarrow> string) \<Rightarrow> (string \<Rightarrow> string) \<Rightarrow> string \<Rightarrow> nat \<Rightarrow> string option" where
  "handshake_loop sha1 base64 buffer level =
     do { (linebuf, next) \<leftarrow> readline buffer level;
          if 128 \<le> length linebuf then None
          else if strstr linebuf ''Sec-WebSocket-Key'' then answer_key sha1 base64 linebuf
          else do {
            level \<leftarrow> next;
            if length buffer \<le> level + 1 then None
            else if buffer ! level \<noteq> CHR 0x0D \<or> buffer ! (level + 1) \<noteq> CHR 0x0A
            then handshake_loop sha1 base64 buffer level
            else Some [] } }"

text \<open>\<open>handshake\<close>: the bytes of \<open>read\<close> over the indeterminate content of the buffer; what is written back.\<close>

definition handshake :: "(string \<Rightarrow> string) \<Rightarrow> (string \<Rightarrow> string) \<Rightarrow> string \<Rightarrow> string \<Rightarrow> string option" where
  "handshake sha1 base64 old d = handshake_loop sha1 base64 (d @ drop (length d) old) 0"

section \<open>Lemmas on frames\<close>

lemma top_bit: "drop_bit 7 (b::byte) AND 0x7F \<noteq> 126" "drop_bit 7 (b::byte) AND 0x7F \<noteq> 127"
proof -
  have "\<not> bit (drop_bit 7 b AND 0x7F) 1" using bit_imp_le_length [of b 8] by (auto simp: bit_and_iff bit_drop_bit_eq)
  moreover have "bit (126::byte) 1" "bit (127::byte) 1" by (simp_all add: bit_numeral_rec)
  ultimately show "drop_bit 7 (b::byte) AND 0x7F \<noteq> 126" "drop_bit 7 (b::byte) AND 0x7F \<noteq> 127" by metis+
qed

lemma low_bits: "n < 128 \<Longrightarrow> (of_nat n :: byte) AND 0x7f = of_nat n"
proof -
  assume n: "n < 128"
  have "(0x7f :: byte) = mask 7" by (simp add: mask_eq_exp_minus_1)
  then have "(of_nat n :: byte) AND 0x7f = take_bit 7 (of_nat n)" by (simp only: take_bit_eq_mask)
  then have "(of_nat n :: byte) AND 0x7f = of_nat (take_bit 7 n)" by (simp only: take_bit_of_nat)
  then show ?thesis using n by (simp add: take_bit_eq_mod)
qed

lemma masked_length: "n < 128 \<Longrightarrow> (0x80 OR of_nat n :: byte) AND 0x7f = of_nat n"
  by (simp add: bit.conj_disj_distrib2 low_bits)

lemma decode_short:
  "decode_packet s = do { s' \<leftarrow> umask s 6 (uint (s ! 1 AND 0x7f)) (take 4 (drop 2 s));
     Some (uint (s ! 1 AND 0x7f), take 4 (drop 2 s), drop 6 s') }"
  by (simp add: decode_packet_def hdr_of_def top_bit Let_def)

definition masked :: "byte list \<Rightarrow> byte list \<Rightarrow> byte list" where
  "masked key d = map (\<lambda>i. d ! i XOR key ! (i mod 4)) [0..<length d]"

lemma umask_at:
  assumes "length pre = p" and "length key = 4"
  shows "umask (pre @ d @ rest) p (int (length d)) key = Some (pre @ masked key d @ rest)"
  using assms by (simp add: umask_def masked_def nth_append cong: map_cong)

text \<open>
  What a client sends: the payload behind a header with a mask. The first byte \<open>b\<close> says whether the
  frame is the last one of a message, and of which kind it is.
\<close>

definition client_frame :: "byte \<Rightarrow> byte list \<Rightarrow> byte list \<Rightarrow> byte list" where
  "client_frame b key d = [b, 0x80 OR of_nat (length d)] @ key @ masked key d"

lemma length_masked [simp]: "length (masked key d) = length d"
  by (simp add: masked_def)

lemma masked_masked [simp]: "masked key (masked key d) = d"
proof -
  have "(a XOR b) XOR b = a" for a b :: byte by (rule bit_word_eqI) (auto simp: bit_xor_iff)
  then show ?thesis by (auto simp: masked_def intro!: nth_equalityI)
qed

lemma decode_client_frame:
  assumes "length key = 4" and "length d < 126"
  shows "decode_packet (client_frame b key d @ rest) = Some (int (length d), key, d @ rest)"
proof -
  have len: "uint ((client_frame b key d @ rest) ! 1 AND 0x7f) = int (length d)"
    using assms masked_length [of "length d"] by (simp add: client_frame_def uint_nat unat_of_nat)
  have "umask (client_frame b key d @ rest) 6 (int (length d)) key = Some (([b, 0x80 OR of_nat (length d)] @ key) @ d @ rest)"
    using umask_at [of "[b, 0x80 OR of_nat (length d)] @ key" 6 key "masked key d" rest] assms
    by (simp add: client_frame_def)
  moreover have "take 4 (drop 2 (client_frame b key d @ rest)) = key" using assms by (simp add: client_frame_def)
  ultimately show ?thesis using assms unfolding decode_short len by simp
qed

lemma encode_short:
  assumes "length d < 126" and "length d + 2 \<le> length buffer"
  shows "\<exists>b. encode_packet buffer key (d @ rest) (int (length d)) = Some (int (length d) + 2, [0x81, of_nat (length d)] @ d @ b)"
proof -
  let ?h = "[0x81, of_nat (length d)] :: byte list"
  have h: "hdr_bytes \<lparr>opcode = 1, fin = 1, payload_length = of_nat (length d) AND 0x7f, mask_bit = 0\<rparr> = ?h"
    using assms low_bits [of "length d"] by (simp add: hdr_bytes_def)
  have "memcpy_to buffer 0 ?h = Some (?h @ drop 2 buffer)" using assms(2) by (simp add: memcpy_to_def numeral_2_eq_2)
  moreover have "memcpy_to (?h @ drop 2 buffer) 2 d = Some (?h @ d @ drop (2 + length d) buffer)"
    using assms(2) by (simp add: memcpy_to_def add.commute)
  ultimately show ?thesis using assms h by (simp add: encode_packet_def Let_def)
qed



lemma memcpy_at:
  assumes "length pre = p" and "length d \<le> length b"
  shows "memcpy_to (pre @ b) p d = Some (pre @ d @ drop (length d) b)"
  using assms by (simp add: memcpy_to_def)

lemma length_le_bytes [simp]: "length (le_bytes k n) = k"
  by (induction k arbitrary: n) simp_all

lemma encode_long:
  assumes "126 \<le> n" and "n < 0xffff" and "length key = 4" and "n \<le> length s" and "n + 2 \<le> length buffer"
  shows "encode_packet buffer key s (int n) = Some (int n + 2, [0x81, 0] @ take n s @ drop (n + 2) buffer)"
proof -
  let ?h = "[0x81, 0] :: byte list" and ?x = "le_bytes 2 n @ key @ replicate 8 0"
  have h: "hdr_bytes \<lparr>opcode = 1, fin = 1, payload_length = 0, mask_bit = 0\<rparr> = ?h" by (simp add: hdr_bytes_def)
  have x: "length ?x = 14" using assms(3) by simp
  have "memcpy_to buffer 0 ?h = Some (?h @ drop 2 buffer)" using assms by (simp add: memcpy_to_def numeral_2_eq_2)
  moreover have "memcpy_to (?h @ drop 2 buffer) 2 ?x = Some (?h @ ?x @ drop 16 buffer)"
    using memcpy_at [of ?h 2 ?x "drop 2 buffer"] assms x by simp
  moreover have "memcpy_to (?h @ ?x @ drop 16 buffer) 2 (take n s) = Some (?h @ take n s @ drop (n + 2) buffer)"
    using memcpy_at [of ?h 2 "take n s" "?x @ drop 16 buffer"] assms x by (simp add: add.commute)
  ultimately show ?thesis using assms h by (simp add: encode_packet_def Let_def)
qed

text \<open>
  Longer payloads are not handled: whatever the client sends with an extended length, the server takes
  the bytes of the length for the mask and answers with a header that announces an empty payload.
\<close>

theorem ws_long_frame_garbled:
  assumes "2 \<le> length r" and "length r \<le> MAX_BUFFER_LENGTH" and "r ! 1 AND 0x7f \<in> {126, 127}"
  shows "\<exists>d. ws_turn r = Some ([0x81, 0] @ d) \<and> length d = unat (r ! 1 AND 0x7f)"
proof -
  let ?s = "r @ replicate (MAX_BUFFER_LENGTH - length r) 0" and ?n = "unat (r ! 1 AND 0x7f)"
  have n: "?n \<in> {126, 127}" "uint (r ! 1 AND 0x7f) = int ?n" "?s ! 1 = r ! 1" using assms by (auto simp: nth_append)
  obtain s where s: "umask ?s 6 (int ?n) (take 4 (drop 2 ?s)) = Some s" "length s = MAX_BUFFER_LENGTH"
    using n(1) assms(2) by (auto simp: umask_def MAX_BUFFER_LENGTH_def)
  have "decode_packet ?s = Some (int ?n, take 4 (drop 2 ?s), drop 6 s)" unfolding decode_short n(3) using n(2) s(1) by simp
  moreover have "encode_packet (replicate (MAX_BUFFER_LENGTH + 14) 0) (take 4 (drop 2 ?s)) (drop 6 s) (int ?n) =
      Some (int ?n + 2, [0x81, 0] @ take ?n (drop 6 s) @ drop (?n + 2) (replicate (MAX_BUFFER_LENGTH + 14) 0))"
    by (rule encode_long) (use n(1) s(2) assms(2) in \<open>auto simp: MAX_BUFFER_LENGTH_def\<close>)
  moreover have "length (take ?n (drop 6 s)) = ?n" using n(1) s(2) by (auto simp: MAX_BUFFER_LENGTH_def)
  ultimately show ?thesis by (auto simp: ws_turn_def nat_add_distrib)
qed

theorem ws_long_frame_garbled_witness: "\<exists>d. ws_turn (0x81 # 0xfe # replicate 134 1) = Some ([0x81, 0] @ d) \<and> length d = 126"
  using ws_long_frame_garbled [of "0x81 # 0xfe # replicate 134 1"] by (simp add: MAX_BUFFER_LENGTH_def)

section \<open>Lemmas on the handshake\<close>

abbreviation crlf :: string where "crlf \<equiv> [CHR 0x0D, CHR 0x0A]"

text \<open>A line of a request: without carriage returns and NULs.\<close>

definition plain_line :: "string \<Rightarrow> bool" where
  "plain_line l \<longleftrightarrow> l \<noteq> [] \<and> length l < 128 \<and> CHR 0x0D \<notin> set l \<and> NUL \<notin> set l"

lemma readline_from_line: "CHR 0x0D \<notin> set l \<Longrightarrow> readline_from (l @ crlf @ rest) p = (l, Some (p + length l + 2))"
  by (induction l arbitrary: p) auto

text \<open>The text of a request from its lines.\<close>

definition lines_text :: "string list \<Rightarrow> string" where
  "lines_text ls = concat (map (\<lambda>l. l @ crlf) ls)"

lemma handshake_skips:
  assumes "\<forall>l \<in> set ls. plain_line l \<and> \<not> strstr l ''Sec-WebSocket-Key''" and "plain_line k" and "strstr k ''Sec-WebSocket-Key''"
    and "NUL \<notin> set pre" and "NUL \<notin> set rest"
  shows "handshake_loop sha1 base64 (pre @ lines_text ls @ k @ crlf @ rest @ NUL # t) (length pre) = answer_key sha1 base64 k"
  using assms
proof (induction ls arbitrary: pre)
  case Nil
  let ?b = "pre @ k @ crlf @ rest @ NUL # t"
  have "cstr ?b 0 = Some (pre @ k @ crlf @ rest)" using Nil.prems by (simp add: cstr_Some plain_line_def)
  then have "readline ?b (length pre) = Some (k, Some (length pre + length k + 2))"
    using readline_from_line [of k rest] Nil.prems by (simp add: readline_def plain_line_def)
  then have "handshake_loop sha1 base64 ?b (length pre) = answer_key sha1 base64 k"
    using Nil.prems by (subst handshake_loop.simps) (simp add: plain_line_def)
  then show ?case by (simp add: lines_text_def)
next
  case (Cons l ls)
  let ?r = "lines_text ls @ k @ crlf @ rest" let ?b = "pre @ l @ crlf @ ?r @ NUL # t" let ?n = "length pre + length l + 2"
  have l: "plain_line l" "\<not> strstr l ''Sec-WebSocket-Key''" using Cons.prems(1) by simp_all
  have "NUL \<notin> set (lines_text ls)" using Cons.prems(1) by (auto simp: lines_text_def plain_line_def)
  then have "cstr ?b 0 = Some (pre @ l @ crlf @ ?r)" using Cons.prems l by (simp add: cstr_Some plain_line_def)
  then have r: "readline ?b (length pre) = Some (l, Some ?n)"
    using readline_from_line [of l ?r] l by (simp add: readline_def plain_line_def)
  have "\<exists>c cs. ?r = c # cs \<and> c \<noteq> CHR 0x0D \<and> cs \<noteq> []"
  proof (cases ls)
    case Nil
    then show ?thesis using Cons.prems(2) by (cases k) (auto simp: lines_text_def plain_line_def)
  next
    case (Cons m ms)
    then have "plain_line m" using Cons.prems(1) by simp
    then show ?thesis using Cons by (cases m) (auto simp: lines_text_def plain_line_def)
  qed
  then obtain c cs where "?r = c # cs" "c \<noteq> CHR 0x0D" by blast
  then have nx: "?b ! ?n \<noteq> CHR 0x0D" "?n + 1 < length ?b" using nth_append_length [of "pre @ l @ crlf" c "cs @ NUL # t"] by simp_all
  have "handshake_loop sha1 base64 ?b (length pre) = handshake_loop sha1 base64 ?b ?n"
    using l r nx by (subst handshake_loop.simps) (simp add: plain_line_def)
  also have "\<dots> = answer_key sha1 base64 k"
    using Cons.IH [of "pre @ l @ crlf"] Cons.prems l by (simp add: plain_line_def)
  finally show ?case by (simp add: lines_text_def)
qed

text \<open>
  The handshake: for a request with the key in a header of fewer than 92 characters the server
  writes the switch of protocols with the encoded digest of key and identifier, whatever was in the
  buffer behind the request, when the lines in front fit into the line buffer and the digest has no
  zero byte.
\<close>

theorem handshake_answers:
  assumes "\<forall>l \<in> set ls. plain_line l \<and> \<not> strstr l ''Sec-WebSocket-Key''" and "plain_line (''Sec-WebSocket-Key: '' @ key)"
    and "length key < 73" and "d = lines_text ls @ ''Sec-WebSocket-Key: '' @ key @ crlf @ tail"
    and "NUL \<notin> set tail" and "NUL \<in> set (drop (length d) old)"
    and "NUL \<notin> set (sha1 (key @ GUID))" and "base64 (sha1 (key @ GUID)) = accept @ [CHR 0x0A]" and "length accept < 32"
  shows "handshake sha1 base64 old d = Some (switching_protocols accept)"
proof -
  let ?k = "''Sec-WebSocket-Key: '' @ key"
  obtain g t where g: "drop (length d) old = g @ NUL # t" "NUL \<notin> set g" using assms(6) by (auto dest: split_list_first)
  have "strstr ?k ''Sec-WebSocket-Key''" by simp
  then have sk: "handshake_loop sha1 base64 ([] @ lines_text ls @ ?k @ crlf @ (tail @ g) @ NUL # t) (length []) = answer_key sha1 base64 ?k"
    using handshake_skips [of ls ?k "[]" "tail @ g"] assms(1,2,5) g(2) by auto
  then have "handshake sha1 base64 old d = answer_key sha1 base64 ?k" using g(1) by (simp add: handshake_def assms(4))
  moreover have tw: "takeWhile (\<lambda>c. c \<noteq> NUL) (sha1 (key @ GUID)) = sha1 (key @ GUID)"
    using assms(7) by (auto simp: takeWhile_eq_all_conv)
  have "length GUID = 36" by (simp add: GUID_def)
  then have "answer_key sha1 base64 ?k = Some (switching_protocols accept)"
    using assms(3,8,9) by (simp add: answer_key_def base64_encode_def tw)
  ultimately show ?thesis by simp
qed

definition sample_sha1 :: "string \<Rightarrow> string" where
  "sample_sha1 s = replicate 20 (CHR 0x41)"

definition sample_base64 :: "string \<Rightarrow> string" where
  "sample_base64 s = replicate 28 (CHR 0x42) @ [CHR 0x0A]"

theorem handshake_answers_witness:
  "handshake sample_sha1 sample_base64 (replicate 1024 NUL)
     (lines_text [''GET / HTTP/1.1''] @ ''Sec-WebSocket-Key: '' @ ''dGhl'' @ crlf @ crlf) =
   Some (switching_protocols (replicate 28 (CHR 0x42)))"
  by (rule handshake_answers [of "[''GET / HTTP/1.1'']" "''dGhl''" _ crlf]) (simp_all add: plain_line_def lines_text_def sample_sha1_def sample_base64_def)

end
