(* ===== verification/Http_Sample.thy ===== *)
theory Http_Sample
  imports CText "HOL-Library.Monad_Syntax"
begin

text \<open>
  The two HTTP servers among the samples of NtyCo (\<open>nty_http_server.c\<close> and \<open>nty_http_server_mulcore.c\<close>):
  reading of lines, the request line, the answers and the files. The servers differ in the sizes of
  their arrays and in how they put the answers together. What is sent to the client is a list of strings,
  one for each call of \<open>send\<close>; \<open>None\<close> is undefined behaviour.
\<close>

section \<open>Lines\<close>

abbreviation CR :: char where "CR \<equiv> CHR 0x0D"
abbreviation LF :: char where "LF \<equiv> CHR 0x0A"
abbreviation crlf :: string where "crlf \<equiv> [CR, LF]"

text \<open>
  \<open>get_line\<close> with room for so many characters, on what the client sends up to the end of the
  connection: the line and what is left.
\<close>

fun get_line :: "nat \<Rightarrow> string \<Rightarrow> string \<times> string" where
  "get_line 0 inp = ([], inp)"
| "get_line (Suc k) [] = ([], [])"
| "get_line (Suc k) (c # inp) =
     (if c = CR then ([LF], if inp \<noteq> [] \<and> hd inp = LF then tl inp else inp)
      else if c = LF then ([LF], inp)
      else let (l, r) = get_line k inp in (c # l, r))"

lemma get_line_le: "length (snd (get_line k inp)) \<le> length inp"
  by (induction k inp rule: get_line.induct) (auto split: prod.splits)

lemma get_line_shorter:
  assumes "0 < k" and "fst (get_line k inp) \<noteq> []"
  shows "length (snd (get_line k inp)) < length inp"
proof (cases k)
  case (Suc m)
  then show ?thesis using assms(2)
  proof (cases inp)
    case (Cons c cs)
    then show ?thesis using get_line_le [of m cs] Suc by (auto simp: case_prod_beta Let_def less_Suc_eq_le)
  qed simp
qed (use assms(1) in simp)

text \<open>Reading and dropping lines up to an empty one, from \<open>numchars\<close> and the text \<open>buf\<close> on.\<close>

function discard_headers :: "nat \<Rightarrow> string \<Rightarrow> string \<Rightarrow> string" where
  "discard_headers numchars buf inp =
     (if 0 < numchars \<and> buf \<noteq> [LF]
      then let (l, r) = get_line 1023 inp in discard_headers (length l) l r
      else inp)"
  by pat_completeness auto


termination
proof (relation "measure (\<lambda>(numchars, buf, inp). if 0 < numchars then Suc (length inp) else 0)", goal_cases)
  case (2 numchars buf inp x l r)
  then show ?case using get_line_shorter [of 1023 inp] by (cases "get_line 1023 inp") (auto simp del: get_line.simps)
qed simp

declare discard_headers.simps [simp del]

section \<open>Answers\<close>

definition SERVER_STRING :: string where
  "SERVER_STRING = ''Server: ntyco_httpd/0.1.0'' @ crlf"

definition content_type :: string where
  "content_type = ''Content-Type: text/html'' @ crlf"

definition headers :: "string list" where
  "headers = [''HTTP/1.0 200 OK'' @ crlf, SERVER_STRING, content_type, crlf]"

definition not_found :: "string list" where
  "not_found =
     [''HTTP/1.0 404 NOT FOUND'' @ crlf, SERVER_STRING, content_type, crlf,
      ''<HTML><TITLE>Not Found</TITLE>'' @ crlf, ''<BODY><P>The server could not fulfill'' @ crlf,
      ''your request because the resource specified'' @ crlf, ''is unavailable or nonexistent.'' @ crlf,
      ''</BODY></HTML>'' @ crlf]"

definition unimplemented :: "string list" where
  "unimplemented =
     [''HTTP/1.0 501 Method Not Implemented'' @ crlf, SERVER_STRING, content_type, crlf,
      ''<HTML><HEAD><TITLE>Method Not Implemented'' @ crlf, ''</TITLE></HEAD>'' @ crlf,
      ''<BODY><P>HTTP request method not supported.'' @ crlf, ''</BODY></HTML>'' @ crlf]"

text \<open>
  The second server puts each answer together in a buffer of 1024 bytes with \<open>sprintf\<close> and \<open>strcat\<close> and
  sends it in one piece.
\<close>

definition strcat_to :: "nat \<Rightarrow> string \<Rightarrow> string \<Rightarrow> string option" where
  "strcat_to n buf s = (if length (buf @ s) < n then Some (buf @ s) else None)"

definition mulcore_headers :: "string list option" where
  "mulcore_headers =
     do { buf \<leftarrow> strcat_to 1024 [] (''HTTP/1.0 200 OK'' @ crlf);
          buf \<leftarrow> strcat_to 1024 buf SERVER_STRING;
          buf \<leftarrow> strcat_to 1024 buf content_type;
          buf \<leftarrow> strcat_to 1024 buf crlf;
          Some [buf] }"

definition mulcore_not_found :: "string list option" where
  "mulcore_not_found =
     do { buf \<leftarrow> strcat_to 1024 [] (''HTTP/1.0 404 NOT FOUND'' @ crlf);
          buf \<leftarrow> strcat_to 1024 buf SERVER_STRING;
          buf \<leftarrow> strcat_to 1024 buf content_type;
          buf \<leftarrow> strcat_to 1024 buf crlf;
          buf \<leftarrow> strcat_to 1024 buf (''<HTML><TITLE>Not Found</TITLE>'' @ crlf);
          buf \<leftarrow> strcat_to 1024 buf (''<BODY><P>The server could not fulfill'' @ crlf);
          buf \<leftarrow> strcat_to 1024 buf (''your request because the resource specified'' @ crlf);
          buf \<leftarrow> strcat_to 1024 buf (''is unavailable or nonexistent.'' @ crlf);
          buf \<leftarrow> strcat_to 1024 buf (''</BODY></HTML>'' @ crlf);
          Some [buf] }"

definition mulcore_unimplemented :: "string list option" where
  "mulcore_unimplemented =
     do { buf \<leftarrow> strcat_to 1024 [] (''HTTP/1.0 501 Method Not Implemented'' @ crlf);
          buf \<leftarrow> strcat_to 1024 buf SERVER_STRING;
          buf \<leftarrow> strcat_to 1024 buf content_type;
          buf \<leftarrow> strcat_to 1024 buf crlf;
          buf \<leftarrow> strcat_to 1024 buf (''<HTML><HEAD><TITLE>Method Not Implemented'' @ crlf);
          buf \<leftarrow> strcat_to 1024 buf (''</TITLE></HEAD>'' @ crlf);
          buf \<leftarrow> strcat_to 1024 buf (''<BODY><P>HTTP request method not supported.'' @ crlf);
          buf \<leftarrow> strcat_to 1024 buf (''</BODY></HTML>'' @ crlf);
          Some [buf] }"

section \<open>Files\<close>

text \<open>
  \<open>fgets\<close> with room for \<open>n\<close> characters: the characters read, what is left of the file, and whether the end
  of the file was met.
\<close>

fun fgets :: "nat \<Rightarrow> string \<Rightarrow> string \<times> string \<times> bool" where
  "fgets 0 f = ([], f, False)"
| "fgets (Suc n) [] = ([], [], True)"
| "fgets (Suc n) (c # f) = (if c = LF then ([LF], f, False) else let (s, r, e) = fgets n f in (c # s, r, e))"

lemma fgets_le: "length (fst (snd (fgets n f))) \<le> length f"
  by (induction n f rule: fgets.induct) (auto split: prod.splits)

lemma fgets_shorter:
  assumes "0 < n" and "\<not> snd (snd (fgets n f))"
  shows "length (fst (snd (fgets n f))) < length f"
proof (cases n)
  case (Suc m)
  then show ?thesis using assms(2)
  proof (cases f)
    case (Cons c cs)
    then show ?thesis using fgets_le [of m cs] Suc by (auto simp: case_prod_beta Let_def less_Suc_eq_le)
  qed simp
qed (use assms(1) in simp)

text \<open>\<open>cat\<close>: what was read is sent up to a NUL, unless the end of the file was met in reading it.\<close>

function cat_file :: "string \<Rightarrow> string list" where
  "cat_file f =
     (let (s, r, eof) = fgets 1023 f
      in if \<not> eof then takeWhile (\<lambda>c. c \<noteq> NUL) s # cat_file r else [])"
  by pat_completeness auto

termination
proof (relation "measure length", goal_cases)
  case (2 f x s y r eof)
  then have "fgets 1023 f = (s, r, eof)" "\<not> eof" by simp_all
  with fgets_shorter [of 1023 f] show ?case by simp
qed simp

declare cat_file.simps [simp del]

text \<open>What \<open>stat\<close> and \<open>fopen\<close> find under a name: whether it is a directory, and what can be read.\<close>

record file_entry =
  is_dir :: bool
  content :: "string option"

type_synonym files = "string \<rightharpoonup> file_entry"

text \<open>\<open>serve_file\<close> closes the file also when it could not be opened.\<close>

definition serve_file :: "files \<Rightarrow> string \<Rightarrow> string list option" where
  "serve_file F name = (case F name of
     None \<Rightarrow> None
   | Some f \<Rightarrow> (case content f of None \<Rightarrow> None | Some t \<Rightarrow> Some (headers @ cat_file t)))"

section \<open>Requests\<close>

definition tolower :: "char \<Rightarrow> char" where
  "tolower c = (if 65 \<le> (of_char c :: nat) \<and> (of_char c :: nat) \<le> 90 then char_of (of_char c + 32 :: nat) else c)"

definition strcasecmp_eq :: "string \<Rightarrow> string \<Rightarrow> bool" where
  "strcasecmp_eq s t \<longleftrightarrow> map tolower s = map tolower t"

text \<open>The string that an array holds that was filled with the characters \<open>s\<close> and a NUL.\<close>

abbreviation upto_nul :: "string \<Rightarrow> string" where
  "upto_nul s \<equiv> takeWhile (\<lambda>c. c \<noteq> NUL) s"

text \<open>
  The characters of the method from the start of the buffer, and the blanks and the characters of the
  address behind it; \<open>buf\<close> has all bytes of the buffer, and a test at its end is undefined.
\<close>

fun scan_method :: "nat \<Rightarrow> string \<Rightarrow> string" where
  "scan_method n [] = []"
| "scan_method 0 (c # cs) = []"
| "scan_method (Suc n) (c # cs) = (if isspace c then [] else c # scan_method n cs)"

fun skip_blanks :: "string \<Rightarrow> nat \<Rightarrow> nat \<Rightarrow> nat option" where
  "skip_blanks [] j numchars = None"
| "skip_blanks (c # cs) j numchars = (if isspace c \<and> j < numchars then skip_blanks cs (Suc j) numchars else Some j)"

fun scan_url :: "nat \<Rightarrow> string \<Rightarrow> nat \<Rightarrow> nat \<Rightarrow> string option" where
  "scan_url n [] j numchars = None"
| "scan_url n (c # cs) j numchars =
     (if isspace c then Some []
      else case n of
        0 \<Rightarrow> Some []
      | Suc m \<Rightarrow> if j < numchars then map_option ((#) c) (scan_url m cs (Suc j) numchars) else Some [])"

definition is_get :: "string \<Rightarrow> bool" where
  "is_get m \<longleftrightarrow> strcasecmp_eq m ''GET''"

definition is_post :: "string \<Rightarrow> bool" where
  "is_post m \<longleftrightarrow> strcasecmp_eq m ''POST''"

text \<open>The path of the file: without the part from a question mark on for \<open>GET\<close>, with the index of a directory.\<close>

definition url_path :: "string \<Rightarrow> string \<Rightarrow> string" where
  "url_path meth url =
     (let url = (if is_get meth then takeWhile (\<lambda>c. c \<noteq> CHR ''?'') url else url);
          path = ''htdocs'' @ url
      in if last path = CHR ''/'' then path @ ''index.html'' else path)"

text \<open>
  \<open>accept_request\<close>: \<open>numchars\<close> is the result of \<open>nty_recv\<close> as an unsigned number and \<open>buf\<close> the buffer
  afterwards, \<open>inp\<close> what the client sends later, \<open>serve\<close> how a file is sent. The result has what is sent,
  whether the connection is closed, and what of the input is left.
\<close>

definition http_request ::
  "nat \<Rightarrow> nat \<Rightarrow> nat \<Rightarrow> string list option \<Rightarrow> string list option \<Rightarrow> (files \<Rightarrow> string \<Rightarrow> string list option) \<Rightarrow> files \<Rightarrow>
   nat \<Rightarrow> string \<Rightarrow> string \<Rightarrow> (string list \<times> bool \<times> string) option" where
  "http_request method_size url_size path_size unimpl missing serve F numchars buf inp =
     (let m = scan_method (method_size - 1) buf; meth = upto_nul m
      in if \<not> is_get meth \<and> \<not> is_post meth then do { out \<leftarrow> unimpl; Some (out, False, inp) }
         else do {
           j \<leftarrow> skip_blanks (drop (length m) buf) (length m) numchars;
           url \<leftarrow> scan_url (url_size - 1) (drop j buf) j numchars;
           let path = url_path meth (upto_nul url);
           if path_size \<le> length path then None
           else (case F path of
             None \<Rightarrow>
               do { let inp = discard_headers numchars (upto_nul (take 2 buf)) inp;
                    out \<leftarrow> missing;
                    Some (out, True, inp) }
           | Some f \<Rightarrow>
               do { let path = (if is_dir f then path @ ''/index.html'' else path);
                    if path_size \<le> length path then None
                    else do { out \<leftarrow> serve F path; Some (out, True, inp) } }) })"

definition accept_request :: "files \<Rightarrow> nat \<Rightarrow> string \<Rightarrow> string \<Rightarrow> (string list \<times> bool \<times> string) option" where
  "accept_request = http_request 255 255 512 (Some unimplemented) (Some not_found) serve_file"

text \<open>The second server has smaller arrays and sends a fixed page for every file that exists.\<close>

definition HTML_PAGE :: string where
  "HTML_PAGE =
     (let tabs = replicate 6 (CHR 0x09); q = [CHR 0x22]
      in ''<HTML> '' @ tabs @ ''<TITLE>Index</TITLE> '' @ tabs @ ''<BODY> '' @ tabs @
         ''<P>Welcome to J. David'' @ [CHR 0x27] @ ''s webserver.'' @ tabs @ ''<H1>CGI demo '' @ tabs @
         ''<FORM ACTION='' @ q @ ''color.cgi'' @ q @ '' METHOD='' @ q @ ''POST'' @ q @ ''>'' @ tabs @
         ''Enter a color: <INPUT TYPE='' @ q @ ''text'' @ q @ '' NAME='' @ q @ ''color'' @ q @ ''>'' @ tabs @
         ''<INPUT TYPE='' @ q @ ''submit'' @ q @ ''>'' @ tabs @ ''</FORM>'' @ tabs @ ''</BODY>'' @ tabs @ ''</HTML>'')"

definition mulcore_serve_file :: "files \<Rightarrow> string \<Rightarrow> string list option" where
  "mulcore_serve_file F name = do { h \<leftarrow> mulcore_headers; Some (h @ [HTML_PAGE]) }"

definition mulcore_accept_request :: "files \<Rightarrow> nat \<Rightarrow> string \<Rightarrow> string \<Rightarrow> (string list \<times> bool \<times> string) option" where
  "mulcore_accept_request = http_request 16 32 64 mulcore_unimplemented mulcore_not_found mulcore_serve_file"

section \<open>Lemmas\<close>

text \<open>The text with every end of a line as a line feed.\<close>

fun normalise :: "string \<Rightarrow> string" where
  "normalise [] = []"
| "normalise (c # s) =
     (if c = CR then LF # normalise (if s \<noteq> [] \<and> hd s = LF then tl s else s) else c # normalise s)"

lemma normalise_line: "normalise inp = fst (get_line k inp) @ normalise (snd (get_line k inp))"
  by (induction k inp rule: get_line.induct) (auto split: prod.splits)

lemma get_line_room: "length (fst (get_line k inp)) \<le> k"
  by (induction k inp rule: get_line.induct) (auto split: prod.splits)

lemma get_line_ends:
  "length (fst (get_line k inp)) = k \<or> snd (get_line k inp) = [] \<or> (fst (get_line k inp) \<noteq> [] \<and> last (fst (get_line k inp)) = LF)"
  by (induction k inp rule: get_line.induct) (auto split: prod.splits)

lemma get_line_inner: "LF \<notin> set (butlast (fst (get_line k inp)))"
  by (induction k inp rule: get_line.induct) (auto split: prod.splits)

lemma fgets_text: "f = fst (fgets n f) @ fst (snd (fgets n f))"
  by (induction n f rule: fgets.induct) (auto split: prod.splits)

lemma fgets_eof: "snd (snd (fgets n f)) \<Longrightarrow> fst (snd (fgets n f)) = [] \<and> LF \<notin> set (fst (fgets n f)) \<and> length (fst (fgets n f)) < n"
  by (induction n f rule: fgets.induct) (auto split: prod.splits if_splits)

lemma cat_file_text:
  "NUL \<notin> set f \<Longrightarrow> \<exists>rest. f = concat (cat_file f) @ rest \<and> LF \<notin> set rest \<and> length rest < 1023"
proof (induction f rule: cat_file.induct)
  case (1 f)
  obtain s r e where g: "fgets 1023 f = (s, r, e)" by (cases "fgets 1023 f") 
  have f: "f = s @ r" using fgets_text [of f 1023] g by simp
  show ?case
  proof (cases e)
    case True
    then have "cat_file f = []" using g by (subst cat_file.simps) simp
    then show ?thesis using fgets_eof [of 1023 f] g f True by (intro exI [of _ f]) simp
  next
    case False
    have nul: "upto_nul s = s" using 1(2) f by (auto simp: takeWhile_eq_all_conv)
    obtain rest where "r = concat (cat_file r) @ rest" "LF \<notin> set rest" "length rest < 1023"
      using 1(1) [OF g [symmetric] refl refl False] 1(2) f by auto
    moreover have "cat_file f = upto_nul s # cat_file r" using g False by (subst cat_file.simps) simp
    ultimately show ?thesis using f by (intro exI [of _ rest]) (simp add: nul)
  qed
qed

text \<open>The request line of a buffer.\<close>

lemma scan_method_word:
  "\<forall>c \<in> set m. \<not> isspace c \<Longrightarrow> length m \<le> n \<Longrightarrow> scan_method n (m @ CHR '' '' # s) = m"
proof (induction m arbitrary: n)
  case Nil
  then show ?case by (cases n) (simp_all add: isspace_def)
next
  case (Cons c m)
  then show ?case by (cases n) simp_all
qed

lemma scan_url_word:
  "\<forall>c \<in> set u. \<not> isspace c \<Longrightarrow> length u \<le> n \<Longrightarrow> j + length u \<le> numchars \<Longrightarrow> isspace b \<Longrightarrow>
   scan_url n (u @ b # s) j numchars = Some u"
proof (induction u arbitrary: n j)
  case (Cons c u)
  then obtain m where "n = Suc m" by (cases n) auto
  then show ?case using Cons by simp
qed simp

definition request_line :: "string \<Rightarrow> string \<Rightarrow> string \<Rightarrow> string" where
  "request_line meth url tail = meth @ '' '' @ url @ '' '' @ tail"

definition url_ok :: "nat \<Rightarrow> string \<Rightarrow> bool" where
  "url_ok n url \<longleftrightarrow> url \<noteq> [] \<and> length url < n \<and> (\<forall>c \<in> set url. \<not> isspace c \<and> c \<noteq> NUL)"

lemma request_words:
  assumes "url_ok n url" and "meth \<in> {''GET'', ''POST''}"
  shows "is_get meth \<or> is_post meth" and "upto_nul meth = meth" and "upto_nul url = url"
    and "length meth \<le> 4" and "\<forall>c \<in> set meth. \<not> isspace c" and "\<forall>c \<in> set url. \<not> isspace c" and "length url \<le> n - 1"
proof -
  have g: "is_get ''GET''" "is_post ''POST''" by (simp_all add: is_get_def is_post_def strcasecmp_eq_def)
  from assms(2) consider "meth = ''GET''" | "meth = ''POST''" by blast
  then have "(is_get meth \<or> is_post meth) \<and> upto_nul meth = meth \<and> length meth \<le> 4 \<and> (\<forall>c \<in> set meth. \<not> isspace c)"
    by cases (simp_all add: g isspace_def)
  then show "is_get meth \<or> is_post meth" "upto_nul meth = meth" "length meth \<le> 4" "\<forall>c \<in> set meth. \<not> isspace c"
    by blast+
  have u: "\<forall>c \<in> set url. \<not> isspace c \<and> c \<noteq> NUL" "length url < n" using assms(1) by (simp_all add: url_ok_def)
  then show "\<forall>c \<in> set url. \<not> isspace c" by blast
  show "length url \<le> n - 1" using u(2) by linarith
  show "upto_nul url = url" using u(1) by (simp add: takeWhile_eq_all_conv)
qed

lemma request_scans:
  assumes u: "url_ok n url" and m: "meth \<in> {''GET'', ''POST''}" and "5 \<le> msize" and b: "buf = request_line meth url tail @ old"
    and numchars: "numchars = length (request_line meth url tail)"
  shows "scan_method (msize - 1) buf = meth" and "skip_blanks (drop (length meth) buf) (length meth) numchars = Some (Suc (length meth))"
    and "scan_url (n - 1) (drop (Suc (length meth)) buf) (Suc (length meth)) numchars = Some url"
proof -
  note w = request_words [OF u m]
  have sp: "isspace (CHR '' '')" by (simp add: isspace_def)
  show "scan_method (msize - 1) buf = meth"
    using scan_method_word [OF w(5), of "msize - 1" "url @ '' '' @ tail @ old"] w(4) assms(3) by (simp add: b request_line_def)
  obtain c v where v: "url = c # v" "\<not> isspace c" using u by (cases url) (auto simp: url_ok_def)
  have "drop (length meth) buf = CHR '' '' # c # v @ CHR '' '' # tail @ old" by (simp add: b request_line_def v(1))
  moreover have "Suc (length meth) < numchars" by (simp add: numchars request_line_def)
  ultimately show "skip_blanks (drop (length meth) buf) (length meth) numchars = Some (Suc (length meth))"
    using v(2) sp by simp
  have d: "drop (Suc (length meth)) buf = url @ CHR '' '' # tail @ old" by (simp add: b request_line_def)
  show "scan_url (n - 1) (drop (Suc (length meth)) buf) (Suc (length meth)) numchars = Some url"
    unfolding d by (rule scan_url_word [OF w(6,7) _ sp]) (simp add: numchars request_line_def)
qed

lemma url_path_length: "length (url_path meth url) \<le> length url + 16"
  using length_takeWhile_le [of "\<lambda>c. c \<noteq> CHR ''?''" url] by (auto simp: url_path_def Let_def)

lemma request_served:
  assumes "url_ok 255 url" and "meth \<in> {''GET'', ''POST''}" and "F (url_path meth url) = Some \<lparr>is_dir = False, content = Some t\<rparr>"
  shows "accept_request F (length (request_line meth url tail)) (request_line meth url tail @ old) inp = Some (headers @ cat_file t, True, inp)"
proof -
  note s = request_scans [OF assms(1,2) _ refl refl, of 255 tail old] and w = request_words [OF assms(1,2)]
  have len: "length (url_path meth url) < 512" using url_path_length [of meth url] assms(1) by (simp add: url_ok_def)
  show ?thesis using s w(1) assms(3) len by (simp add: accept_request_def http_request_def serve_file_def Let_def w(2,3))
qed

section \<open>Properties\<close>

text \<open>
  Lines are read without loss: whether the client ends its lines with a carriage return, a line feed
  or both, what \<open>get_line\<close> returns is the next part of the text with every end of a line as a line feed.
  The line fits into the buffer with its NUL, has a line feed at its end only, and ends with one unless
  the buffer is full or the connection at its end.
\<close>

theorem get_line_reads:
  assumes "get_line (room - 1) inp = (l, r)" and "0 < room"
  shows "normalise inp = l @ normalise r \<and> length l < room \<and> LF \<notin> set (butlast l) \<and>
    (length l = room - 1 \<or> r = [] \<or> (l \<noteq> [] \<and> last l = LF))"
  using normalise_line [of inp "room - 1"] get_line_room [of "room - 1" inp] get_line_inner [of "room - 1" inp]
    get_line_ends [of "room - 1" inp] assms
  by auto

theorem get_line_reads_witness:
  "get_line (8 - 1) (''Host'' @ [CR, LF, CHR ''x'']) = (''Host'' @ [LF], ''x'') \<and>
   normalise (''Host'' @ [CR, LF, CHR ''x'']) = ''Host'' @ LF # normalise ''x''"
proof -
  have g: "get_line (8 - 1) (''Host'' @ [CR, LF, CHR ''x'']) = (''Host'' @ [LF], ''x'')" by code_simp
  from get_line_reads [OF g] g show ?thesis by simp
qed

text \<open>
  A request for a file is answered with the file: when the first packet has the request line with the
  method \<open>GET\<close> or \<open>POST\<close> and an address of fewer than 255 characters, the server sends the headers and the
  text of the file of that path, up to a last line that is not ended, and closes the connection,
  whatever was in the buffer before.
\<close>

theorem http_serves_file:
  assumes "url_ok 255 url" and "meth \<in> {''GET'', ''POST''}"
    and "F (url_path meth url) = Some \<lparr>is_dir = False, content = Some t\<rparr>" and "NUL \<notin> set t"
  shows "\<exists>out rest. accept_request F (length (request_line meth url tail)) (request_line meth url tail @ old) inp = Some (out, True, inp) \<and>
    concat headers @ t = concat out @ rest \<and> LF \<notin> set rest \<and> length rest < 1023"
proof -
  obtain rest where "t = concat (cat_file t) @ rest" "LF \<notin> set rest" "length rest < 1023" using cat_file_text [OF assms(4)] by blast
  then show ?thesis using request_served [of url meth F t] assms(1-3) by (intro exI [of _ "headers @ cat_file t"] exI [of _ rest]) simp
qed

theorem http_serves_file_witness:
  "\<exists>out rest. accept_request [''htdocs/index.html'' \<mapsto> \<lparr>is_dir = False, content = Some ''hi''\<rparr>]
       (length (request_line ''GET'' ''/?x=1'' ''HTTP/1.0'')) (request_line ''GET'' ''/?x=1'' ''HTTP/1.0'' @ []) [] = Some (out, True, []) \<and>
     concat headers @ ''hi'' = concat out @ rest"
proof -
  have "url_path ''GET'' ''/?x=1'' = ''htdocs/index.html''" by code_simp
  then show ?thesis
    using http_serves_file [where url = "''/?x=1''" and meth = "''GET''" and t = "''hi''" and tail = "''HTTP/1.0''" and old = "[]" and inp = "[]"
        and F = "[''htdocs/index.html'' \<mapsto> \<lparr>is_dir = False, content = Some ''hi''\<rparr>]"]
    by (auto simp: url_ok_def isspace_def)
qed

lemma mulcore_answers:
  "mulcore_not_found = Some [concat not_found]" "mulcore_unimplemented = Some [concat unimplemented]" "mulcore_headers = Some [concat headers]"
  by (simp_all add: mulcore_not_found_def not_found_def mulcore_unimplemented_def unimplemented_def mulcore_headers_def headers_def
      strcat_to_def SERVER_STRING_def content_type_def)

text \<open>
  The two servers refuse alike: for a request line with an address of fewer than 32 characters, whose
  file is missing, and for one with another method, both send the same bytes, both leave the same
  input unread, and both close the connection in the first case only.
\<close>

theorem http_servers_agree:
  assumes "url_ok 32 url" and "meth \<in> {''GET'', ''POST''} \<and> F (url_path meth url) = None \<or>
      \<not> is_get meth \<and> \<not> is_post meth \<and> length meth < 16 \<and> (\<forall>c \<in> set meth. \<not> isspace c \<and> c \<noteq> NUL)"
    and "buf = request_line meth url tail @ old" and "n = length (request_line meth url tail)"
  shows "\<exists>out out' closed rest. accept_request F n buf inp = Some (out, closed, rest) \<and>
    mulcore_accept_request F n buf inp = Some (out', closed, rest) \<and> concat out' = concat out \<and>
    closed = (is_get meth \<or> is_post meth)"
  using assms(2)
proof
  assume m: "meth \<in> {''GET'', ''POST''} \<and> F (url_path meth url) = None"
  have "url_ok 255 url" using assms(1) by (simp add: url_ok_def)
  note s = request_scans [OF this m [THEN conjunct1] _ assms(3,4), of 255] and
    s' = request_scans [OF assms(1) m [THEN conjunct1] _ assms(3,4), of 16] and
    w = request_words [OF assms(1) m [THEN conjunct1]]
  have len: "length (url_path meth url) < 64" using url_path_length [of meth url] assms(1) by (simp add: url_ok_def)
  have "accept_request F n buf inp = Some (not_found, True, discard_headers n (upto_nul (take 2 buf)) inp)"
    using s w(1) m len by (simp add: accept_request_def http_request_def Let_def w(2,3))
  moreover have "mulcore_accept_request F n buf inp = Some ([concat not_found], True, discard_headers n (upto_nul (take 2 buf)) inp)"
    using s' w(1) m len by (simp add: mulcore_accept_request_def http_request_def mulcore_answers Let_def w(2,3))
  ultimately show ?thesis using w(1) by (intro exI [of _ not_found] exI [of _ "[concat not_found]"] exI [of _ True]) simp
next
  assume m: "\<not> is_get meth \<and> \<not> is_post meth \<and> length meth < 16 \<and> (\<forall>c \<in> set meth. \<not> isspace c \<and> c \<noteq> NUL)"
  have "scan_method (255 - 1) buf = meth" "scan_method (16 - 1) buf = meth"
    using scan_method_word [of meth] m assms(3) by (simp_all add: request_line_def)
  moreover have nul: "upto_nul meth = meth" using m by (auto simp: takeWhile_eq_all_conv)
  ultimately have "accept_request F n buf inp = Some (unimplemented, False, inp)"
      "mulcore_accept_request F n buf inp = Some ([concat unimplemented], False, inp)"
    using m by (simp_all add: accept_request_def mulcore_accept_request_def http_request_def mulcore_answers Let_def nul)
  then show ?thesis using m by (intro exI [of _ unimplemented] exI [of _ "[concat unimplemented]"] exI [of _ False]) simp
qed

theorem http_servers_agree_witness:
  "\<exists>out out' rest. accept_request Map.empty 6 (request_line ''PUT'' ''/'' [] @ replicate 1000 NUL) [] = Some (out, False, rest) \<and>
     mulcore_accept_request Map.empty 6 (request_line ''PUT'' ''/'' [] @ replicate 1000 NUL) [] = Some (out', False, rest) \<and>
     concat out' = concat out"
proof -
  have m: "\<not> is_get ''PUT'' \<and> \<not> is_post ''PUT''" by code_simp
  have "url_ok 32 ''/''" by (simp add: url_ok_def isspace_def)
  moreover have "length (request_line ''PUT'' ''/'' []) = 6" by (simp add: request_line_def)
  ultimately show ?thesis using http_servers_agree [of "''/''" "''PUT''" Map.empty _ "[]" "replicate 1000 NUL" 6 "[]", OF _ _ refl] m
    by (auto simp: isspace_def)
qed

end
