(* ===== verification/Bench_Sample.thy ===== *)
theory Bench_Sample
  imports Http_Sample "HOL-Library.Signed_Division"
begin

text \<open>
  The benchmark among the samples of NtyCo (\<open>nty_bench.c\<close>): the request it builds from a URL, reading the
  answer, and counting successes and failures. It is run against the HTTP server of \<open>Http_Sample\<close>.
  \<open>None\<close> is undefined behaviour; an exit of the process is \<open>Inl\<close> with its code.
\<close>

section \<open>Options\<close>

definition MAXHOSTNAMELEN :: nat where
  "MAXHOSTNAMELEN = 64"

definition REQUEST_SIZE :: nat where
  "REQUEST_SIZE = 2048"

abbreviation METHOD_GET :: int where "METHOD_GET \<equiv> 0"
abbreviation METHOD_HEAD :: int where "METHOD_HEAD \<equiv> 1"
abbreviation METHOD_OPTIONS :: int where "METHOD_OPTIONS \<equiv> 2"
abbreviation METHOD_TRACE :: int where "METHOD_TRACE \<equiv> 3"

record bench_conf =
  http10 :: int
  req_method :: int
  force_reload :: bool
  proxyhost :: "string option"
  proxyport :: int

text \<open>The numbers of clients, requests and sockets that \<open>main\<close> goes on with.\<close>

definition bench_limits :: "int \<Rightarrow> int \<Rightarrow> int \<Rightarrow> int \<times> int \<times> int" where
  "bench_limits clients nreqs sockets =
     (let clients = (if clients = 0 then 1 else clients);
          clients = (if clients > 10 then 10 else clients);
          nreqs = (if nreqs < 1000 then 1000 else nreqs);
          sockets = (if sockets smod clients \<noteq> 0 then sockets sdiv clients * clients else sockets)
      in (clients, nreqs, sockets))"

section \<open>The request\<close>

text \<open>Where a string occurs first.\<close>

fun strpos :: "string \<Rightarrow> string \<Rightarrow> nat option" where
  "strpos [] pat = (if pat = [] then Some 0 else None)"
| "strpos (c # s) pat = (if take (length pat) (c # s) = pat then Some 0 else map_option Suc (strpos s pat))"

text \<open>\<open>strncpy\<close> of a piece of a string to an array of zeros.\<close>

definition strncpy_to :: "nat \<Rightarrow> string \<Rightarrow> string option" where
  "strncpy_to n s = (if length s \<le> n then Some (s @ replicate (n - length s) NUL) else None)"

text \<open>\<open>atoi\<close> on an array; it has to find an end inside of the array.\<close>

definition isdigit :: "char \<Rightarrow> bool" where
  "isdigit c \<longleftrightarrow> 48 \<le> (of_char c :: nat) \<and> (of_char c :: nat) < 58"

fun atoi_digits :: "string \<Rightarrow> nat \<Rightarrow> nat option" where
  "atoi_digits [] a = None"
| "atoi_digits (c # s) a = (if isdigit c then atoi_digits s (10 * a + (of_char c - 48)) else Some a)"

definition atoi :: "string \<Rightarrow> int option" where
  "atoi s = (case dropWhile isspace s of
     [] \<Rightarrow> None
   | c # r \<Rightarrow>
       if c = CHR ''-'' then map_option (\<lambda>n. - int n) (atoi_digits r 0)
       else if c = CHR ''+'' then map_option int (atoi_digits r 0)
       else map_option int (atoi_digits (c # r) 0))"

definition method_name :: "int \<Rightarrow> string" where
  "method_name m =
     (if m = METHOD_HEAD then ''HEAD'' else if m = METHOD_OPTIONS then ''OPTIONS'' else if m = METHOD_TRACE then ''TRACE'' else ''GET'')"

definition http_version :: "bench_conf \<Rightarrow> int" where
  "http_version c =
     (let v = http10 c;
          v = (if force_reload c \<and> proxyhost c \<noteq> None \<and> v < 1 then 1 else v);
          v = (if req_method c = METHOD_HEAD \<and> v < 1 then 1 else v);
          v = (if req_method c = METHOD_OPTIONS \<and> v < 2 then 2 else v)
      in if req_method c = METHOD_TRACE \<and> v < 2 then 2 else v)"

text \<open>The array of the host and the port, from the text behind \<open>://\<close>, which has a slash.\<close>

definition host_and_port :: "string \<Rightarrow> int \<Rightarrow> (string \<times> int) option" where
  "host_and_port rest port =
     (let colon = length (takeWhile (\<lambda>c. c \<noteq> CHR '':'') rest);
          slash = length (takeWhile (\<lambda>c. c \<noteq> CHR ''/'') rest)
      in if colon < slash
         then do { host \<leftarrow> strncpy_to MAXHOSTNAMELEN (take colon rest);
                   tmp \<leftarrow> strncpy_to 10 (take (slash - colon - 1) (drop (colon + 1) rest));
                   port \<leftarrow> atoi tmp;
                   Some (host, if port = 0 then 80 else port) }
         else do { host \<leftarrow> strncpy_to MAXHOSTNAMELEN (take slash rest); Some (host, port) })"

text \<open>The rest of the request behind the address.\<close>

definition request_tail :: "bench_conf \<Rightarrow> string \<Rightarrow> string \<Rightarrow> string option" where
  "request_tail c host request =
     do { request \<leftarrow> strcat_to REQUEST_SIZE request
            (if http10 c = 1 then '' HTTP/1.0'' else if http10 c = 2 then '' HTTP/1.1'' else []);
          request \<leftarrow> strcat_to REQUEST_SIZE request crlf;
          request \<leftarrow> strcat_to REQUEST_SIZE request (if 0 < http10 c then ''User-Agent: WebBench 1.5'' @ crlf else []);
          request \<leftarrow>
            (if proxyhost c = None \<and> 0 < http10 c
             then do { r \<leftarrow> strcat_to REQUEST_SIZE request ''Host: '';
                       h \<leftarrow> cstr host 0;
                       r \<leftarrow> strcat_to REQUEST_SIZE r h;
                       strcat_to REQUEST_SIZE r crlf }
             else Some request);
          request \<leftarrow> strcat_to REQUEST_SIZE request
            (if force_reload c \<and> proxyhost c \<noteq> None then ''Pragma: no-cache'' @ crlf else []);
          request \<leftarrow> strcat_to REQUEST_SIZE request (if 1 < http10 c then ''Connection: close'' @ crlf else []);
          strcat_to REQUEST_SIZE request (if 0 < http10 c then crlf else []) }"

text \<open>\<open>build_request\<close>: the changed options, the array of the host, and the request.\<close>

definition build_request :: "bench_conf \<Rightarrow> string \<Rightarrow> (int + bench_conf \<times> string \<times> string) option" where
  "build_request c url =
     (let c = c\<lparr>http10 := http_version c\<rparr>;
          request = method_name (req_method c) @ '' ''
      in case strpos url ''://'' of
        None \<Rightarrow> Some (Inl 2)
      | Some i \<Rightarrow>
          if 1500 < length url then Some (Inl 2)
          else if proxyhost c = None \<and> map tolower (take 7 url) \<noteq> ''http://'' then Some (Inl 2)
          else let rest = drop (i + 3) url
            in if CHR ''/'' \<notin> set rest then Some (Inl 2)
               else do {
                 (host, port, request) \<leftarrow>
                   (if proxyhost c = None
                    then do { (host, port) \<leftarrow> host_and_port rest (proxyport c);
                              r \<leftarrow> strcat_to REQUEST_SIZE request (dropWhile (\<lambda>c. c \<noteq> CHR ''/'') rest);
                              Some (host, port, r) }
                    else do { r \<leftarrow> strcat_to REQUEST_SIZE request url;
                              Some (replicate MAXHOSTNAMELEN NUL, proxyport c, r) });
                 request \<leftarrow> request_tail c host request;
                 Some (Inr (c\<lparr>proxyport := port\<rparr>, host, request)) })"

section \<open>Answers\<close>

datatype recv_reply = Data string | End | Fail

text \<open>
  \<open>recv_buffer\<close> with the results of \<open>nty_recv\<close>: the number of bytes, \<open>*ret\<close>, and the buffer. \<open>nty_recv\<close> is
  allowed 1024 bytes, however many are left in the buffer.
\<close>

fun recv_buffer :: "recv_reply list \<Rightarrow> nat \<Rightarrow> string \<Rightarrow> (nat \<times> int \<times> string) option" where
  "recv_buffer [] idx buf = None"
| "recv_buffer (Fail # rs) idx buf = Some (idx, if 0 < idx then 1 else -1, buf)"
| "recv_buffer (End # rs) idx buf = Some (idx, if 0 < idx then 1 else 0, buf)"
| "recv_buffer (Data d # rs) idx buf =
     (if idx + length d \<le> length buf then recv_buffer rs (idx + length d) (take idx buf @ d @ drop (idx + length d) buf) else None)"

text \<open>\<open>testok\<close> writes over the first line feed, also when there is none.\<close>

definition testok :: "string \<Rightarrow> bool option" where
  "testok response =
     (let line = takeWhile (\<lambda>c. c \<noteq> NUL \<and> c \<noteq> LF) response
      in if length line < length response \<and> response ! length line = LF then Some (strpos line ''200 OK'' \<noteq> None) else None)"

record bench_counts =
  speed :: int
  failed :: int
  bytes :: int

definition count_failed :: "bench_counts \<Rightarrow> bench_counts option" where
  "count_failed C = do { n \<leftarrow> c_inc (failed C); Some (C\<lparr>failed := n\<rparr>) }"

definition count_speed :: "bench_counts \<Rightarrow> bench_counts option" where
  "count_speed C = do { n \<leftarrow> c_inc (speed C); Some (C\<lparr>speed := n\<rparr>) }"

definition count_bytes :: "nat \<Rightarrow> bench_counts \<Rightarrow> bench_counts option" where
  "count_bytes n C = (if bytes C + int n \<le> INT_MAX then Some (C\<lparr>bytes := bytes C + int n\<rparr>) else None)"

text \<open>One request: the results of \<open>Socket\<close>, of \<open>nty_send\<close> and of the calls of \<open>nty_recv\<close>.\<close>

definition commit_once :: "string \<Rightarrow> int \<times> int \<times> recv_reply list \<Rightarrow> bench_counts \<Rightarrow> bench_counts option" where
  "commit_once req ans C = (case ans of (s, sent, rs) \<Rightarrow>
     if s < 0 then count_failed C
     else if int (length req) \<noteq> sent then count_failed C
     else do { (rlen, ret, buf) \<leftarrow> recv_buffer rs 0 (replicate 1500 NUL);
               if ret < 0 then count_failed C
               else do { ok \<leftarrow> testok buf;
                         C \<leftarrow> (if ok then count_speed C else count_failed C);
                         count_bytes rlen C } })"

fun commit_loop :: "nat \<Rightarrow> string \<Rightarrow> (int \<times> int \<times> recv_reply list) list \<Rightarrow> bench_counts \<Rightarrow> bench_counts option" where
  "commit_loop 0 req as C = Some C"
| "commit_loop (Suc n) req [] C = None"
| "commit_loop (Suc n) req (a # as) C = do { C \<leftarrow> commit_once req a C; commit_loop n req as C }"

definition httprequest_commit ::
  "int \<Rightarrow> int \<Rightarrow> string \<Rightarrow> (int \<times> int \<times> recv_reply list) list \<Rightarrow> bench_counts \<Rightarrow> bench_counts option" where
  "httprequest_commit nreqs sockets req as C =
     (if sockets = 0 then None else commit_loop (nat (nreqs sdiv sockets)) req as C)"

section \<open>Lemmas\<close>

text \<open>The port of a URL, and the names of hosts for which the arrays are large enough.\<close>

definition port_text :: "nat option \<Rightarrow> string" where
  "port_text po = (case po of None \<Rightarrow> [] | Some n \<Rightarrow> CHR '':'' # dec n)"

definition host_ok :: "string \<Rightarrow> nat option \<Rightarrow> bool" where
  "host_ok h po \<longleftrightarrow> length h < MAXHOSTNAMELEN \<and> CHR ''/'' \<notin> set h \<and> CHR '':'' \<notin> set h \<and> NUL \<notin> set h \<and>
     (case po of None \<Rightarrow> True | Some n \<Rightarrow> n < 10 ^ 9)"

definition url_port :: "nat option \<Rightarrow> int \<Rightarrow> int" where
  "url_port po port = (case po of None \<Rightarrow> port | Some n \<Rightarrow> if n = 0 then 80 else int n)"

lemma atoi_digits_undec: "\<forall>c \<in> set ds. isdigit c \<Longrightarrow> atoi_digits (ds @ NUL # s) a = Some (undec ds a)"
  by (induction ds arbitrary: a) (simp_all add: isdigit_def)

lemma atoi_dec: "n < 10 ^ 9 \<Longrightarrow> \<exists>tmp. strncpy_to 10 (dec n) = Some tmp \<and> atoi tmp = Some (int n)"
proof -
  assume n: "n < 10 ^ 9"
  then have len: "length (dec n) \<le> 9" using dec_length [of n 8] by simp
  have dig: "\<forall>c \<in> set (dec n). isdigit c" using dec_digits by (auto simp: isdigit_def)
  have ne: "dec n \<noteq> []" by (subst dec.simps) simp
  then obtain c ds where c: "dec n = c # ds" by (cases "dec n") auto
  obtain k where "10 - length (dec n) = Suc k" using len by (cases "10 - length (dec n)") auto
  then have "strncpy_to 10 (dec n) = Some (dec n @ NUL # replicate k NUL)" using len by (simp add: strncpy_to_def)
  moreover have "\<not> isspace c" "c \<noteq> CHR ''-''" "c \<noteq> CHR ''+''" using dig c by (auto simp: isdigit_def isspace_def)
  then have "atoi (dec n @ NUL # replicate k NUL) = Some (int n)"
    using atoi_digits_undec [OF dig, of "replicate k NUL" 0] undec_dec [of n] by (simp add: atoi_def c)
  ultimately show ?thesis by blast
qed

lemma host_and_port_url:
  assumes "host_ok h po" and "path = CHR ''/'' # p"
  shows "host_and_port (h @ port_text po @ path) port = Some (h @ replicate (MAXHOSTNAMELEN - length h) NUL, url_port po port)"
proof (cases po)
  case None
  then show ?thesis using assms by (simp add: host_and_port_def port_text_def url_port_def host_ok_def takeWhile_append strncpy_to_def Let_def)
next
  case (Some n)
  have "CHR ''/'' \<notin> set (dec n)" using dec_digits [of "CHR ''/''" n] by auto
  moreover obtain tmp where "strncpy_to 10 (dec n) = Some tmp" "atoi tmp = Some (int n)" using atoi_dec [of n] assms(1) Some by (auto simp: host_ok_def)
  moreover have "strncpy_to MAXHOSTNAMELEN h = Some (h @ replicate (MAXHOSTNAMELEN - length h) NUL)" using assms(1) by (simp add: host_ok_def strncpy_to_def)
  ultimately show ?thesis using assms Some
    by (simp add: host_and_port_def port_text_def url_port_def host_ok_def takeWhile_append Let_def)
qed

definition bench_tail :: "string \<Rightarrow> string" where
  "bench_tail h = ''HTTP/1.0'' @ crlf @ ''User-Agent: WebBench 1.5'' @ crlf @ ''Host: '' @ h @ crlf @ crlf"

lemma host_array: "host_ok h po \<Longrightarrow> cstr (h @ replicate (MAXHOSTNAMELEN - length h) NUL) 0 = Some h"
  by (subst cstr_Some) (auto simp: host_ok_def intro!: exI [of _ "replicate (MAXHOSTNAMELEN - length h - 1) NUL"] simp flip: replicate_Suc)

lemma build_request_get:
  assumes "http10 c = 1" and "req_method c = METHOD_GET" and "proxyhost c = None" and "host_ok h po" and "path = CHR ''/'' # p"
    and "length path < 255"
  shows "build_request c (''http://'' @ h @ port_text po @ path) =
    Some (Inr (c\<lparr>proxyport := url_port po (proxyport c)\<rparr>, h @ replicate (MAXHOSTNAMELEN - length h) NUL,
      request_line ''GET'' path (bench_tail h)))"
proof -
  let ?rest = "h @ port_text po @ path" let ?host = "h @ replicate (MAXHOSTNAMELEN - length h) NUL"
  have v: "http_version c = 1" using assms(1-3) by (simp add: http_version_def Let_def)
  then have c: "c\<lparr>http10 := http_version c\<rparr> = c" using assms(1) by simp
  have dn: "length (dec n) \<le> 9" if "po = Some n" for n using dec_length [of n 8] assms(4) that by (simp add: host_ok_def)
  then have pt: "length (port_text po) \<le> 10" by (cases po) (auto simp: port_text_def)
  have ns: "CHR ''/'' \<notin> set (port_text po)" using dec_digits [of "CHR ''/''"] by (cases po) (auto simp: port_text_def)
  have h: "length h < 64" "CHR ''/'' \<notin> set h" using assms(4) by (simp_all add: host_ok_def MAXHOSTNAMELEN_def)
  have d: "dropWhile (\<lambda>c. c \<noteq> CHR ''/'') ?rest = path" using ns h(2) assms(5) by (auto simp: dropWhile_append)
  have u: "\<not> 1500 < length (''http://'' @ ?rest)" using pt h(1) assms(6) by simp
  have "cstr ?host 0 = Some h" by (rule host_array [OF assms(4)])
  then have t: "request_tail c ?host (''GET '' @ path) = Some (request_line ''GET'' path (bench_tail h))"
    using assms(1,3,6) h(1) by (simp add: request_tail_def strcat_to_def REQUEST_SIZE_def request_line_def bench_tail_def)
  have s: "strpos (''http://'' @ ?rest) ''://'' = Some 4" by simp
  have l: "map tolower (take 7 (''http://'' @ ?rest)) = ''http://''" by (simp add: tolower_def)
  have r: "drop (4 + 3) (''http://'' @ ?rest) = ?rest" by simp
  have m: "method_name 0 = ''GET''" by (simp add: method_name_def)
  have cat: "strcat_to REQUEST_SIZE ''GET '' path = Some (''GET '' @ path)" using assms(6) by (simp add: strcat_to_def REQUEST_SIZE_def)
  have sl: "CHR ''/'' \<in> set ?rest" using assms(5) by simp
  show ?thesis
    unfolding build_request_def Let_def s option.case c l r m assms(2)
    using u sl t cat by (simp add: assms(3) host_and_port_url [OF assms(4,5)] d del: append_assoc strpos.simps)
qed

lemma recv_buffer_pieces:
  "length (concat ps) \<le> m \<Longrightarrow> recv_buffer (map Data ps @ [End]) (length pre) (pre @ replicate m NUL) =
     Some (length pre + length (concat ps), if 0 < length pre + length (concat ps) then 1 else 0, pre @ concat ps @ replicate (m - length (concat ps)) NUL)"
proof (induction ps arbitrary: pre m)
  case (Cons d ps)
  then have "recv_buffer (map Data ps @ [End]) (length (pre @ d)) ((pre @ d) @ replicate (m - length d) NUL) =
      Some (length (pre @ d) + length (concat ps), if 0 < length (pre @ d) + length (concat ps) then 1 else 0,
        (pre @ d) @ concat ps @ replicate (m - length d - length (concat ps)) NUL)"
    by (intro Cons.IH) simp
  then show ?case using Cons.prems by (simp add: add.assoc)
qed simp

lemma testok_headers: "testok (concat (headers @ rest) @ s) = Some True"
  by (simp add: testok_def headers_def)

text \<open>The answers to one request: connected, sent completely, and the whole answer received in some pieces.\<close>

definition answered :: "string \<Rightarrow> string \<Rightarrow> int \<times> int \<times> recv_reply list \<Rightarrow> bool" where
  "answered req out a \<longleftrightarrow> (\<exists>fd ps. 0 \<le> fd \<and> a = (fd, int (length req), map Data ps @ [End]) \<and> concat ps = out)"

lemma commit_once_answered:
  assumes "answered req (concat (headers @ body)) a" and "length (concat (headers @ body)) \<le> 1500" and "speed C < INT_MAX"
    and "bytes C + int (length (concat (headers @ body))) \<le> INT_MAX"
  shows "commit_once req a C = Some (C\<lparr>speed := speed C + 1, bytes := bytes C + int (length (concat (headers @ body)))\<rparr>)"
proof -
  obtain fd ps where a: "0 \<le> fd" "a = (fd, int (length req), map Data ps @ [End])" "concat ps = concat (headers @ body)"
    using assms(1) by (auto simp: answered_def)
  have "recv_buffer (map Data ps @ [End]) 0 (replicate 1500 NUL) =
      Some (length (concat ps), if 0 < length (concat ps) then 1 else 0, concat ps @ replicate (1500 - length (concat ps)) NUL)"
    using recv_buffer_pieces [of ps 1500 "[]"] assms(2) a(3) by simp
  moreover have "testok (concat ps @ replicate (1500 - length (concat ps)) NUL) = Some True" unfolding a(3) by (rule testok_headers)
  ultimately show ?thesis using a assms(3,4)
    by (simp add: commit_once_def count_speed_def count_bytes_def del: concat_append length_append)
qed

lemma commit_loop_answered:
  "\<forall>a \<in> set as. answered req (concat (headers @ body)) a \<Longrightarrow> length (concat (headers @ body)) \<le> 1500 \<Longrightarrow>
   speed C + int (length as) \<le> INT_MAX \<Longrightarrow> bytes C + int (length as * length (concat (headers @ body))) \<le> INT_MAX \<Longrightarrow>
   commit_loop (length as) req as C =
     Some (C\<lparr>speed := speed C + int (length as), bytes := bytes C + int (length as * length (concat (headers @ body)))\<rparr>)"
proof (induction as arbitrary: C)
  case (Cons a as)
  let ?n = "length (concat (headers @ body))" let ?C = "C\<lparr>speed := speed C + 1, bytes := bytes C + int ?n\<rparr>"
  have "int ?n \<le> int (length (a # as) * ?n)" by (simp del: concat_append length_append)
  then have "bytes C + int ?n \<le> INT_MAX" using Cons.prems(4) by linarith
  then have "commit_once req a C = Some ?C" using Cons.prems by (intro commit_once_answered) (auto simp del: concat_append length_append simp: algebra_simps)
  moreover have "commit_loop (length as) req as ?C = Some (?C\<lparr>speed := speed ?C + int (length as), bytes := bytes ?C + int (length as * ?n)\<rparr>)"
    using Cons.prems by (intro Cons.IH) (auto simp del: concat_append length_append simp: algebra_simps)
  ultimately show ?case by (simp del: concat_append length_append add: algebra_simps)
qed simp

section \<open>Properties\<close>

text \<open>A file whose last line is ended is sent whole.\<close>

lemma cat_file_whole:
  assumes "NUL \<notin> set t" and "t = [] \<or> last t = LF"
  shows "concat (headers @ cat_file t) = concat headers @ t"
proof -
  obtain rest where r: "t = concat (cat_file t) @ rest" "LF \<notin> set rest" using cat_file_text [OF assms(1)] by blast
  have "rest = []"
  proof (rule ccontr)
    assume "rest \<noteq> []"
    then have "t \<noteq> []" "last t = last rest" "last rest \<in> set rest" using r(1) by (metis append_is_Nil_conv, metis last_appendR, simp)
    then show False using assms(2) r(2) by metis
  qed
  then have "concat (cat_file t) = t" using r(1) by (metis append_Nil2)
  then show ?thesis by simp
qed



lemma sdiv_nonneg: "0 \<le> a \<Longrightarrow> 0 < b \<Longrightarrow> a sdiv b = a div b" "0 \<le> a \<Longrightarrow> 0 < b \<Longrightarrow> a smod b = a mod b" for a b :: int
  by (simp_all add: signed_divide_int_def signed_modulo_int_def sgn_if)

text \<open>
  The numbers that \<open>main\<close> goes on with: at most ten clients, all with the same number of sockets, and no more
  requests in all than were asked for.
\<close>

theorem bench_requests_bounded:
  assumes "bench_limits clients nreqs sockets = (c, n, s)" and "0 \<le> clients" and "0 \<le> sockets"
  shows "1 \<le> c \<and> c \<le> 10 \<and> 1000 \<le> n \<and> s \<le> sockets \<and> c * (s sdiv c) = s \<and> (0 < s \<longrightarrow> c * (s sdiv c) * (n sdiv s) \<le> n)"
proof -
  have c: "1 \<le> c" "c \<le> 10" "1000 \<le> n" using assms(1,2) by (auto simp: bench_limits_def Let_def split: if_splits)
  have s: "s = (if sockets smod c \<noteq> 0 then sockets sdiv c * c else sockets)" using assms(1) by (auto simp: bench_limits_def Let_def)
  have q: "sockets sdiv c = sockets div c" "sockets smod c = sockets mod c" using c(1) assms(3) by (simp_all add: sdiv_nonneg)
  have s': "s = sockets div c * c" using s q by (auto simp: minus_mod_eq_div_mult [symmetric])
  then have le: "s \<le> sockets" "0 \<le> s" using c(1) assms(3) by (auto simp: minus_mod_eq_div_mult [symmetric] zmod_le_nonneg_dividend)
  have d: "c * (s sdiv c) = s" using s' c(1) le(2) by (simp add: sdiv_nonneg)
  have "s * (n sdiv s) \<le> n" if "0 < s" using that c(3) by (simp add: sdiv_nonneg minus_mod_eq_mult_div [symmetric])
  then show ?thesis using c le d by simp
qed

theorem bench_requests_bounded_witness: "(case bench_limits 64 100000 1000 of (c, n, s) \<Rightarrow> c = 10 \<and> c * (s sdiv c) * (n sdiv s) \<le> n)"
  using bench_requests_bounded [of 64 100000 1000 10 100000 1000] by (simp add: bench_limits_def signed_divide_int_def signed_modulo_int_def)

end
