(* ===== verification/Shm_Sample.thy ===== *)
theory Shm_Sample
  imports CPrelude "HOL-Library.Word" "HOL-Library.Signed_Division" "HOL-Library.Monad_Syntax"
begin

text \<open>
  The samples of NtyCo that share memory between processes: the accept lock and the counts of
  connections of \<open>ntyco_httpd.c\<close>, and the counter of \<open>nty_server_mulcore.c\<close>. The processes take turns in
  any order; each step is one access to the shared memory.
\<close>

section \<open>Compare and exchange\<close>

text \<open>
  The value before, and the value afterwards. The operand of the instruction for \<open>size = 4\<close> is an
  \<open>unsigned long\<close>, so it works on eight bytes. Behind \<open>accept_mtx\<close> are four bytes of the page that nobody
  writes, and they are zero, as they are in the numbers compared and stored, so the exchange acts on
  \<open>accept_mtx\<close> alone. Behind \<open>total\<close> of the other sample is another field.
\<close>

definition cmpxchg :: "'a \<Rightarrow> 'a \<Rightarrow> 'a \<Rightarrow> 'a \<times> 'a" where
  "cmpxchg mem old new = (mem, if mem = old then new else mem)"

section \<open>Counts of connections\<close>

definition TOTALFDS :: nat where
  "TOTALFDS = 16"

record shm_area =
  totalfds :: "32 word list"
  cpu_lb :: "8 word list"
  accept_mtx :: "32 word"

definition init_shmvalue :: shm_area where
  "init_shmvalue = \<lparr>totalfds = replicate TOTALFDS 0, cpu_lb = replicate TOTALFDS 0, accept_mtx = 0\<rparr>"

text \<open>The slot of a process; there are \<open>TOTALFDS\<close> slots, however many processors the machine has.\<close>

definition slot :: "nat \<Rightarrow> nat \<Rightarrow> nat option" where
  "slot cpu_size self_id = (if cpu_size = 0 \<or> TOTALFDS \<le> self_id mod cpu_size then None else Some (self_id mod cpu_size))"

definition get_countfd :: "nat \<Rightarrow> nat \<Rightarrow> shm_area \<Rightarrow> int option" where
  "get_countfd cpu_size self_id A = do { i \<leftarrow> slot cpu_size self_id; Some (sint (totalfds A ! i)) }"

definition INC_COUNTFD :: "nat \<Rightarrow> nat \<Rightarrow> shm_area \<Rightarrow> shm_area option" where
  "INC_COUNTFD cpu_size self_id A =
     do { i \<leftarrow> slot cpu_size self_id; Some (A\<lparr>totalfds := (totalfds A)[i := totalfds A ! i + 1]\<rparr>) }"

definition DEC_COUNTFD :: "nat \<Rightarrow> nat \<Rightarrow> shm_area \<Rightarrow> shm_area option" where
  "DEC_COUNTFD cpu_size self_id A =
     do { i \<leftarrow> slot cpu_size self_id; Some (A\<lparr>totalfds := (totalfds A)[i := totalfds A ! i - 1]\<rparr>) }"

definition used_slots :: "nat \<Rightarrow> shm_area \<Rightarrow> int list option" where
  "used_slots cpu_size A = (if TOTALFDS < cpu_size then None else Some (map sint (take cpu_size (totalfds A))))"

definition max_countfd :: "nat \<Rightarrow> shm_area \<Rightarrow> int option" where
  "max_countfd cpu_size A =
     do { xs \<leftarrow> used_slots cpu_size A; Some (foldl (\<lambda>count x. if count < x then x else count) (-1) xs) }"

text \<open>The start value \<open>0xffffffff\<close> is \<open>-1\<close> as an \<open>int\<close>.\<close>

definition min_countfd :: "nat \<Rightarrow> shm_area \<Rightarrow> int option" where
  "min_countfd cpu_size A =
     do { xs \<leftarrow> used_slots cpu_size A; Some (foldl (\<lambda>count x. if count > x then x else count) (sint (0xffffffff :: 32 word)) xs) }"

definition lock_accept :: "nat \<Rightarrow> nat \<Rightarrow> shm_area \<Rightarrow> shm_area option" where
  "lock_accept cpu_size self_id A =
     do { j \<leftarrow> slot cpu_size self_id;
          count \<leftarrow> min_countfd cpu_size A;
          Some (A\<lparr>cpu_lb := foldl (\<lambda>lb i. if count = sint (totalfds A ! i) then lb[i := 3] else lb) ((cpu_lb A)[j := 1]) [0..<cpu_size]\<rparr>) }"

definition read_accept :: "nat \<Rightarrow> nat \<Rightarrow> shm_area \<Rightarrow> 8 word option" where
  "read_accept cpu_size self_id A = do { i \<leftarrow> slot cpu_size self_id; Some (cpu_lb A ! i) }"

definition write_accept :: "nat \<Rightarrow> nat \<Rightarrow> 8 word \<Rightarrow> shm_area \<Rightarrow> shm_area option" where
  "write_accept cpu_size self_id state A = do { i \<leftarrow> slot cpu_size self_id; Some (A\<lparr>cpu_lb := (cpu_lb A)[i := state]\<rparr>) }"

definition compare_out_countfd :: "nat \<Rightarrow> nat \<Rightarrow> shm_area \<Rightarrow> bool option" where
  "compare_out_countfd cpu_size self_id A =
     do { current \<leftarrow> get_countfd cpu_size self_id A;
          min \<leftarrow> min_countfd cpu_size A;
          if INT_MAX < current * 7 \<or> current * 7 < INT_MIN then None else Some ((current * 7) sdiv 8 > min) }"

definition compare_in_countfd :: "nat \<Rightarrow> nat \<Rightarrow> shm_area \<Rightarrow> bool option" where
  "compare_in_countfd cpu_size self_id A =
     do { current \<leftarrow> get_countfd cpu_size self_id A;
          max \<leftarrow> max_countfd cpu_size A;
          if INT_MAX < current * 8 \<or> current * 8 < INT_MIN then None else Some ((current * 8) sdiv 7 < max) }"

section \<open>The accept lock\<close>

definition lock :: "shm_area \<Rightarrow> 32 word \<times> shm_area" where
  "lock A = (let (prev, m) = cmpxchg (accept_mtx A) 0 1 in (prev, A\<lparr>accept_mtx := m\<rparr>))"

definition unlock :: "shm_area \<Rightarrow> shm_area" where
  "unlock A = A\<lparr>accept_mtx := 0\<rparr>"

text \<open>
  Where the accepting coroutine of a process is, with the result of \<open>nty_accept\<close>, and how many connections
  its other coroutines serve.
\<close>

datatype server_pc = Locking | Accepting | Unlocking int | Counting int | Stopped

record httpd =
  shm :: shm_area
  pcs :: "nat \<Rightarrow> server_pc"
  serving :: "nat \<Rightarrow> nat"

datatype httpd_event = Try_lock | Accepted int | Release | Count | Close

text \<open>A step of the process \<open>p\<close>; \<open>None\<close> when the process cannot make this step.\<close>

fun httpd_step :: "nat \<Rightarrow> nat \<Rightarrow> httpd_event \<Rightarrow> httpd \<Rightarrow> httpd option" where
  "httpd_step cpu_size p Try_lock H =
     (if pcs H p = Locking
      then let (prev, A) = lock (shm H)
           in Some (if prev \<noteq> 0 then H else H\<lparr>shm := A, pcs := (pcs H)(p := Accepting)\<rparr>)
      else None)"
| "httpd_step cpu_size p (Accepted clientfd) H =
     (if pcs H p = Accepting then Some (H\<lparr>pcs := (pcs H)(p := Unlocking clientfd)\<rparr>) else None)"
| "httpd_step cpu_size p Release H = (case pcs H p of
     Unlocking clientfd \<Rightarrow>
       Some (H\<lparr>shm := unlock (shm H), pcs := (pcs H)(p := if clientfd < 0 then Stopped else Counting clientfd)\<rparr>)
   | _ \<Rightarrow> None)"
| "httpd_step cpu_size p Count H = (case pcs H p of
     Counting clientfd \<Rightarrow>
       do { A \<leftarrow> INC_COUNTFD cpu_size p (shm H);
            Some (H\<lparr>shm := A, pcs := (pcs H)(p := Locking), serving := (serving H)(p := Suc (serving H p))\<rparr>) }
   | _ \<Rightarrow> None)"
| "httpd_step cpu_size p Close H =
     (if serving H p = 0 then None
      else do { A \<leftarrow> DEC_COUNTFD cpu_size p (shm H);
                Some (H\<lparr>shm := A, serving := (serving H)(p := serving H p - 1)\<rparr>) })"

text \<open>All processes are about to accept.\<close>

definition httpd_new :: httpd where
  "httpd_new = \<lparr>shm = init_shmvalue, pcs = (\<lambda>_. Locking), serving = (\<lambda>_. 0)\<rparr>"

fun httpd_run :: "nat \<Rightarrow> (nat \<times> httpd_event) list \<Rightarrow> httpd \<Rightarrow> httpd option" where
  "httpd_run cpu_size [] H = Some H"
| "httpd_run cpu_size ((p, ev) # evs) H = do { H \<leftarrow> httpd_step cpu_size p ev H; httpd_run cpu_size evs H }"

text \<open>The lock is held between a successful \<open>lock\<close> and \<open>unlock\<close>.\<close>

fun holds_lock :: "server_pc \<Rightarrow> bool" where
  "holds_lock Accepting \<longleftrightarrow> True"
| "holds_lock (Unlocking clientfd) \<longleftrightarrow> True"
| "holds_lock _ \<longleftrightarrow> False"

definition lock_inv :: "httpd \<Rightarrow> bool" where
  "lock_inv H \<longleftrightarrow> (if accept_mtx (shm H) = 0 then (\<forall>p. \<not> holds_lock (pcs H p)) else (\<exists>!p. holds_lock (pcs H p)))"

lemma lock_inv_step:
  assumes "httpd_step n p ev H = Some H'" and "lock_inv H"
  shows "lock_inv H'"
proof (cases ev)
  case Try_lock
  then show ?thesis using assms by (auto simp: lock_inv_def lock_def cmpxchg_def Let_def split: if_splits)
next
  case (Accepted fd)
  then have "holds_lock (pcs H' q) = holds_lock (pcs H q)" "shm H' = shm H" for q using assms(1) by (auto split: if_splits)
  then show ?thesis using assms(2) by (simp add: lock_inv_def)
next
  case Release
  then obtain fd where "pcs H p = Unlocking fd" "H' = H\<lparr>shm := unlock (shm H), pcs := (pcs H)(p := if fd < 0 then Stopped else Counting fd)\<rparr>"
    using assms(1) by (auto split: server_pc.splits)
  moreover from this have "holds_lock (pcs H p)" by simp
  ultimately show ?thesis using assms(2) by (auto simp: lock_inv_def unlock_def split: if_splits)
next
  case Count
  then obtain fd where "pcs H p = Counting fd" using assms(1) by (auto split: server_pc.splits)
  then have "holds_lock (pcs H' q) = holds_lock (pcs H q)" "accept_mtx (shm H') = accept_mtx (shm H)" for q
    using assms(1) Count by (auto simp: INC_COUNTFD_def split: bind_splits if_splits)
  then show ?thesis using assms(2) by (simp add: lock_inv_def)
next
  case Close
  then have "pcs H' = pcs H" "accept_mtx (shm H') = accept_mtx (shm H)"
    using assms(1) by (auto simp: DEC_COUNTFD_def split: if_splits bind_splits)
  then show ?thesis using assms(2) by (simp add: lock_inv_def)
qed

lemma lock_inv_run: "httpd_run n evs H = Some H' \<Longrightarrow> lock_inv H \<Longrightarrow> lock_inv H'"
  by (induction evs arbitrary: H) (auto simp: lock_inv_step split: bind_splits)

text \<open>The count of a slot is the number of connections that the processes of the slot serve.\<close>

definition slot_load :: "nat \<Rightarrow> nat set \<Rightarrow> httpd \<Rightarrow> nat \<Rightarrow> nat" where
  "slot_load n ps H i = (\<Sum>p | p \<in> ps \<and> slot n p = Some i. serving H p)"

definition count_inv :: "nat \<Rightarrow> nat set \<Rightarrow> httpd \<Rightarrow> bool" where
  "count_inv n ps H \<longleftrightarrow> length (totalfds (shm H)) = TOTALFDS \<and> (\<forall>i < TOTALFDS. totalfds (shm H) ! i = of_nat (slot_load n ps H i))"

lemma slot_load_upd:
  assumes "finite ps" and "p \<in> ps"
  shows "slot_load n ps (H\<lparr>serving := (serving H)(p := m)\<rparr>) i + (if slot n p = Some i then serving H p else 0) =
    slot_load n ps H i + (if slot n p = Some i then m else 0)"
proof -
  let ?A = "{q. q \<in> ps \<and> slot n q = Some i}"
  have s: "(\<Sum>q \<in> ?A. f q) = (if p \<in> ?A then f p else 0) + (\<Sum>q \<in> ?A - {p}. f q)" for f :: "nat \<Rightarrow> nat"
    using assms(1) by (auto simp: sum.remove)
  have "(\<Sum>q \<in> ?A - {p}. ((serving H)(p := m)) q) = (\<Sum>q \<in> ?A - {p}. serving H q)" by (rule sum.cong) auto
  then show ?thesis using assms(2) s [of "serving H"] s [of "(serving H)(p := m)"] by (simp add: slot_load_def)
qed

lemma slot_bound: "slot n p = Some j \<Longrightarrow> j < TOTALFDS"
  by (auto simp: slot_def split: if_splits)

lemma count_inv_step:
  assumes "httpd_step n p ev H = Some H'" and "count_inv n ps H" and "finite ps" and "p \<in> ps"
  shows "count_inv n ps H'"
proof (cases ev)
  case Try_lock
  then show ?thesis using assms by (auto simp: count_inv_def lock_def cmpxchg_def slot_load_def Let_def split: if_splits)
next
  case (Accepted fd)
  then show ?thesis using assms by (auto simp: count_inv_def slot_load_def split: if_splits)
next
  case Release
  then show ?thesis using assms by (auto simp: count_inv_def unlock_def slot_load_def split: server_pc.splits)
next
  case Count
  then obtain fd j where fd: "pcs H p = Counting fd" "slot n p = Some j"
    using assms(1) by (auto simp: INC_COUNTFD_def split: server_pc.splits bind_splits)
  then have H': "totalfds (shm H') = (totalfds (shm H))[j := totalfds (shm H) ! j + 1]" "serving H' = (serving H)(p := Suc (serving H p))"
    using assms(1) Count by (auto simp: INC_COUNTFD_def)
  have "slot_load n ps H' i = slot_load n ps H i + (if j = i then 1 else 0)" for i
    using slot_load_upd [OF assms(3,4), of n H "Suc (serving H p)" i] fd(2) by (auto simp: slot_load_def H'(2))
  then show ?thesis using assms(2) H' by (auto simp: count_inv_def nth_list_update)
next
  case Close
  then obtain j where j: "serving H p \<noteq> 0" "slot n p = Some j"
    using assms(1) by (auto simp: DEC_COUNTFD_def split: if_splits bind_splits)
  then have H': "totalfds (shm H') = (totalfds (shm H))[j := totalfds (shm H) ! j - 1]" "serving H' = (serving H)(p := serving H p - 1)"
    using assms(1) Close by (auto simp: DEC_COUNTFD_def)
  have "slot_load n ps H i = slot_load n ps H' i + (if j = i then 1 else 0)" for i
    using slot_load_upd [OF assms(3,4), of n H "serving H p - 1" i] j by (auto simp: slot_load_def H'(2))
  then have "totalfds (shm H') ! i = of_nat (slot_load n ps H' i)" if "i < TOTALFDS" for i
    using assms(2) H' that by (cases "i = j") (simp_all add: count_inv_def)
  then show ?thesis using assms(2) H' by (simp add: count_inv_def)
qed

lemma count_inv_run:
  assumes "httpd_run n evs H = Some H'" and "count_inv n ps H" and "finite ps" and "fst ` set evs \<subseteq> ps"
  shows "count_inv n ps H'"
  using assms
proof (induction evs arbitrary: H)
  case (Cons e evs)
  obtain p ev where e: "e = (p, ev)" by (cases e)
  then obtain H1 where "httpd_step n p ev H = Some H1" "httpd_run n evs H1 = Some H'" using Cons.prems(1) by (auto split: bind_splits)
  then show ?case using Cons.IH Cons.prems(2-4) count_inv_step e by auto
qed simp

section \<open>The shared counter\<close>

text \<open>
  \<open>add_shmvalue\<close> and \<open>sub_shmvalue\<close> of \<open>nty_server_mulcore.c\<close>: a process that adds \<open>d\<close> reads the counter
  and then exchanges it, and reads again when another process was faster. \<open>area\<close> is the first eight bytes
  of the shared memory, which the exchange works on: \<open>total\<close>, and behind it the field \<open>lock\<close>, which nobody
  else uses. \<open>changes\<close> counts the calls that are through, \<open>added\<close> is what they add up to.
\<close>

datatype counter_pc = Idle | Reading int | Exchanging int "32 word"

record counter =
  area :: "64 word"
  cpcs :: "nat \<Rightarrow> counter_pc"
  changes :: nat
  added :: int

definition total :: "counter \<Rightarrow> 32 word" where
  "total C = ucast (area C)"

definition counter_new :: counter where
  "counter_new = \<lparr>area = 0, cpcs = (\<lambda>_. Idle), changes = 0, added = 0\<rparr>"

datatype counter_event = Add | Sub | Step

text \<open>\<open>None\<close> when the process cannot make this step, or when \<open>value + d\<close> is no \<open>int\<close>.\<close>

fun counter_step :: "nat \<Rightarrow> counter_event \<Rightarrow> counter \<Rightarrow> counter option" where
  "counter_step p Add C = (if cpcs C p = Idle then Some (C\<lparr>cpcs := (cpcs C)(p := Reading 1)\<rparr>) else None)"
| "counter_step p Sub C = (if cpcs C p = Idle then Some (C\<lparr>cpcs := (cpcs C)(p := Reading (-1))\<rparr>) else None)"
| "counter_step p Step C = (case cpcs C p of
     Idle \<Rightarrow> None
   | Reading d \<Rightarrow> Some (C\<lparr>cpcs := (cpcs C)(p := Exchanging d (total C))\<rparr>)
   | Exchanging d value \<Rightarrow>
       if sint value + d < INT_MIN \<or> INT_MAX < sint value + d then None
       else let (prev, m) = cmpxchg (area C) (word_of_int (sint value)) (word_of_int (sint value + d));
                ret = ucast prev;
                C = C\<lparr>area := m\<rparr>
            in if ret \<noteq> value then Some (C\<lparr>cpcs := (cpcs C)(p := Reading d)\<rparr>)
               else Some (C\<lparr>cpcs := (cpcs C)(p := Idle), changes := Suc (changes C), added := added C + d\<rparr>))"

fun counter_run :: "(nat \<times> counter_event) list \<Rightarrow> counter \<Rightarrow> counter option" where
  "counter_run [] C = Some C"
| "counter_run ((p, ev) # evs) C = do { C \<leftarrow> counter_step p ev C; counter_run evs C }"

text \<open>The eight bytes are the value of \<open>total\<close> with its sign, so that they agree whenever \<open>total\<close> does.\<close>

definition counter_inv :: "counter \<Rightarrow> bool" where
  "counter_inv C \<longleftrightarrow> area C = word_of_int (sint (total C)) \<and> sint (total C) = added C"

lemma total_of_area: "(ucast (word_of_int x :: 64 word) :: 32 word) = word_of_int x"
  by (simp add: unsigned_of_int word_of_int_eq_iff)

lemma sint_of_int: "INT_MIN \<le> x \<Longrightarrow> x \<le> INT_MAX \<Longrightarrow> sint (word_of_int x :: 32 word) = x"
  by (simp add: signed_of_int signed_take_bit_int_eq_self INT_MIN_def INT_MAX_def)

lemma counter_inv_new: "counter_inv counter_new"
  by (simp add: counter_inv_def counter_new_def total_def)

lemma counter_exchange:
  assumes "counter_inv C" and "cpcs C p = Exchanging d value" and "counter_step p Step C = Some C'"
  shows "INT_MIN \<le> sint value + d \<and> sint value + d \<le> INT_MAX \<and> C' = (if total C = value
    then C\<lparr>area := word_of_int (sint value + d), cpcs := (cpcs C)(p := Idle), changes := Suc (changes C), added := added C + d\<rparr>
    else C\<lparr>cpcs := (cpcs C)(p := Reading d)\<rparr>)"
proof -
  have "area C = word_of_int (sint value) \<longleftrightarrow> total C = value" using assms(1) total_of_area [of "sint value"] by (auto simp: counter_inv_def total_def)
  then show ?thesis using assms(2,3) by (auto simp: cmpxchg_def total_def Let_def simp del: of_int_add of_int_sint split: if_splits)
qed

lemma counter_inv_step:
  assumes "counter_step p ev C = Some C'" and "counter_inv C"
  shows "counter_inv C'"
proof (cases "\<exists>d value. ev = Step \<and> cpcs C p = Exchanging d value")
  case True
  then obtain d v where "ev = Step" "cpcs C p = Exchanging d v" by blast
  then show ?thesis using counter_exchange [OF assms(2), of p d v C'] assms
    by (auto simp: counter_inv_def total_def total_of_area sint_of_int simp del: of_int_add of_int_sint split: if_splits)
next
  case False
  then show ?thesis using assms by (cases ev; cases "cpcs C p") (auto simp: counter_inv_def total_def split: if_splits)
qed

lemma counter_inv_run: "counter_run evs C = Some C' \<Longrightarrow> counter_inv C \<Longrightarrow> counter_inv C'"
  by (induction evs arbitrary: C) (auto simp: counter_inv_step split: bind_splits)

lemma counter_changes:
  assumes "counter_step p ev C = Some C'" and "counter_inv C"
  shows "changes C \<le> changes C' \<and> (total C' \<noteq> total C \<longrightarrow> changes C < changes C')"
proof (cases "\<exists>d value. ev = Step \<and> cpcs C p = Exchanging d value")
  case True
  then obtain d v where "ev = Step" "cpcs C p = Exchanging d v" by blast
  then show ?thesis using counter_exchange [OF assms(2), of p d v C'] assms by (auto simp: total_def split: if_splits)
next
  case False
  then show ?thesis using assms by (cases ev; cases "cpcs C p") (auto simp: total_def split: if_splits)
qed

lemma counter_run_changes:
  "counter_run evs C = Some C' \<Longrightarrow> counter_inv C \<Longrightarrow> changes C \<le> changes C' \<and> (total C' \<noteq> total C \<longrightarrow> changes C < changes C')"
proof (induction evs arbitrary: C)
  case (Cons e evs)
  obtain p ev where e: "e = (p, ev)" by (cases e)
  then obtain C1 where C1: "counter_step p ev C = Some C1" "counter_run evs C1 = Some C'" using Cons.prems by (auto split: bind_splits)
  then show ?case using Cons.IH [OF C1(2)] counter_changes [OF C1(1)] counter_inv_step [OF C1(1)] Cons.prems(2) by auto
qed simp

section \<open>Properties\<close>

text \<open>
  C34. One process at a time accepts: whatever the order of the steps of all processes, at most one is
  between \<open>lock\<close> and \<open>unlock\<close>, the lock is free exactly if there is none, and the count of a slot is the
  number of connections that the processes of this slot serve.
\<close>

theorem httpd_exclusive:
  assumes "httpd_run n evs httpd_new = Some H"
  shows "(holds_lock (pcs H p) \<and> holds_lock (pcs H q) \<longrightarrow> p = q) \<and> (accept_mtx (shm H) = 0 \<longleftrightarrow> (\<forall>p. \<not> holds_lock (pcs H p))) \<and>
    (\<forall>i < TOTALFDS. totalfds (shm H) ! i = of_nat (\<Sum>p | p \<in> fst ` set evs \<and> slot n p = Some i. serving H p))"
proof -
  have l: "lock_inv H" by (rule lock_inv_run [OF assms]) (simp add: lock_inv_def httpd_new_def init_shmvalue_def)
  have "count_inv n (fst ` set evs) H"
    by (rule count_inv_run [OF assms]) (simp_all add: count_inv_def httpd_new_def init_shmvalue_def slot_load_def)
  then have "\<forall>i < TOTALFDS. totalfds (shm H) ! i = of_nat (\<Sum>p | p \<in> fst ` set evs \<and> slot n p = Some i. serving H p)"
    unfolding count_inv_def slot_load_def by blast
  moreover have "accept_mtx (shm H) = 0 \<longleftrightarrow> (\<forall>p. \<not> holds_lock (pcs H p))" "holds_lock (pcs H p) \<and> holds_lock (pcs H q) \<longrightarrow> p = q"
    using l by (auto simp: lock_inv_def split: if_splits)
  ultimately show ?thesis by blast
qed

theorem httpd_exclusive_witness:
  "\<exists>H. httpd_run 4 [(1, Try_lock), (2, Try_lock), (1, Accepted 7), (1, Release), (2, Try_lock), (1, Count)] httpd_new = Some H \<and>
     holds_lock (pcs H 2) \<and> (\<forall>p. holds_lock (pcs H p) \<longrightarrow> p = 2)"
proof -
  obtain H where H: "httpd_run 4 [(1, Try_lock), (2, Try_lock), (1, Accepted 7), (1, Release), (2, Try_lock), (1, Count)] httpd_new = Some H"
      "pcs H 2 = Accepting"
    by (simp add: httpd_new_def init_shmvalue_def lock_def unlock_def cmpxchg_def INC_COUNTFD_def slot_def TOTALFDS_def)
  with httpd_exclusive [OF H(1), of _ 2] show ?thesis by auto
qed

text \<open>
  C35. The shared counter is exact without a lock: after any steps of any processes it has what was added by
  the calls that are through, and a process has to try again only if another was through since it had
  read the counter.
\<close>

theorem counter_exact:
  assumes "counter_run evs counter_new = Some C" and "cpcs C p = Reading d" and "counter_step p Step C = Some C1"
    and "counter_run evs' C1 = Some C2" and "cpcs C2 p = Exchanging d (total C)" and "counter_step p Step C2 = Some C3"
  shows "sint (total C2) = added C2 \<and> (cpcs C3 p = Idle \<and> sint (total C3) = sint (total C2) + d \<or> cpcs C3 p = Reading d \<and> total C3 = total C2 \<and> changes C < changes C2)"
proof -
  have C: "counter_inv C" by (rule counter_inv_run [OF assms(1) counter_inv_new])
  have C1: "counter_inv C1" by (rule counter_inv_step [OF assms(3) C])
  have C2: "counter_inv C2" by (rule counter_inv_run [OF assms(4) C1])
  have "total C1 = total C" "changes C1 = changes C" using assms(2,3) by (auto simp: total_def)
  then show ?thesis using counter_exchange [OF C2 assms(5,6)] counter_run_changes [OF assms(4) C1] C2
    by (auto simp: counter_inv_def total_def total_of_area sint_of_int simp del: of_int_add of_int_sint split: if_splits)
qed

theorem counter_exact_witness:
  "\<exists>C C1 C2 C3. counter_run [(1, Add), (2, Add)] counter_new = Some C \<and> counter_step 1 Step C = Some C1 \<and>
     counter_run [(2, Step), (2, Step)] C1 = Some C2 \<and> counter_step 1 Step C2 = Some C3 \<and> sint (total C2) = added C2 \<and>
     cpcs C3 1 = Reading 1 \<and> changes C < changes C2"
proof -
  obtain C C1 C2 C3 where C: "counter_run [(1, Add), (2, Add)] counter_new = Some C" "cpcs C 1 = Reading 1" "counter_step 1 Step C = Some C1"
      "counter_run [(2, Step), (2, Step)] C1 = Some C2" "cpcs C2 1 = Exchanging 1 (total C)" "counter_step 1 Step C2 = Some C3" "cpcs C3 1 = Reading 1"
    by (simp add: counter_new_def cmpxchg_def total_def INT_MIN_def INT_MAX_def)
  from counter_exact [OF C(1-6)] C show ?thesis by auto
qed

text \<open>
  The least count is always \<open>-1\<close> when counts are not negative, since the search starts at \<open>0xffffffff\<close> as
  an \<open>int\<close>; so \<open>lock_accept\<close> never chooses a process to take over. The greatest count is found.
\<close>

lemma foldl_min: "\<forall>x \<in> set xs. (c::int) \<le> x \<Longrightarrow> foldl (\<lambda>count x. if count > x then x else count) c xs = c"
  by (induction xs) auto

lemma foldl_max: "foldl (\<lambda>count x. if count < x then x else count) (c::int) xs = Max (insert c (set xs))"
proof (induction xs arbitrary: c)
  case (Cons x xs)
  have "Max (insert c (insert x (set xs))) = Max (insert (max c x) (set xs))" by (cases "xs = []") (simp_all add: max.assoc)
  moreover have "(if c < x then x else c) = max c x" by simp
  ultimately show ?case using Cons.IH [of "max c x"] by simp
qed simp

lemma foldl_unchanged: "\<forall>x \<in> set xs. f a x = a \<Longrightarrow> foldl f a xs = a"
  by (induction xs) auto

theorem min_countfd_constant:
  assumes "n \<le> TOTALFDS" and "\<forall>x \<in> set (totalfds A). 0 \<le> sint x" and "length (totalfds A) = TOTALFDS" and "slot n self = Some i"
  shows "min_countfd n A = Some (-1) \<and> max_countfd n A = Some (Max (set (map sint (take n (totalfds A))))) \<and>
    lock_accept n self A = Some (A\<lparr>cpu_lb := (cpu_lb A)[i := 1]\<rparr>)"
proof -
  let ?xs = "map sint (take n (totalfds A))"
  have u: "used_slots n A = Some ?xs" using assms(1) by (simp add: used_slots_def)
  have ge: "\<forall>x \<in> set ?xs. 0 \<le> x" using assms(2) by (auto dest!: in_set_takeD)
  then have m: "min_countfd n A = Some (-1)" using foldl_min [of ?xs "-1"] by (fastforce simp: min_countfd_def u)
  have "0 < n" using assms(4) by (auto simp: slot_def split: if_splits)
  then have ne: "?xs \<noteq> []" using assms(3) by (auto simp: TOTALFDS_def)
  then have "Max (set ?xs) \<in> set ?xs" by (intro Max_in) auto
  then have "0 \<le> Max (set ?xs)" using ge by blast
  then have "max_countfd n A = Some (Max (set ?xs))" using ne by (simp add: max_countfd_def u foldl_max Max_insert del: set_map)
  moreover have "sint (totalfds A ! k) \<noteq> -1" if "k < n" for k
    using assms(1-3) that nth_mem [of k "totalfds A"] by (metis le_trans linorder_not_less nat_less_le neg_0_le_iff_le not_one_le_zero zero_neq_neg_one nle_le)
  then have "lock_accept n self A = Some (A\<lparr>cpu_lb := (cpu_lb A)[i := 1]\<rparr>)"
    by (simp add: lock_accept_def assms(4) m foldl_unchanged eq_commute [of "-1"])
  ultimately show ?thesis using m by blast
qed

theorem min_countfd_constant_witness:
  "min_countfd 4 init_shmvalue = Some (-1) \<and> max_countfd 4 init_shmvalue = Some 0 \<and>
   lock_accept 4 5 init_shmvalue = Some (init_shmvalue\<lparr>cpu_lb := (replicate 16 0)[1 := 1]\<rparr>)"
  using min_countfd_constant [of 4 init_shmvalue 5 1] by (simp add: init_shmvalue_def TOTALFDS_def slot_def)

end
