(* ===== verification/Echo_Sample.thy ===== *)
theory Echo_Sample
  imports CText "HOL-Library.Monad_Syntax" "HOL-Library.Sublist"
begin

text \<open>
  The servers that the front ends were developed from: the echo reactor (\<open>multi-io-main/reactorrr.c\<close>,
  which \<open>io_uring/epoll_tcp_server.c\<close> repeats), the web server on the same reactor
  (\<open>multi-io-main/webserver.c\<close>) and the echo server on io_uring (\<open>io_uring/io_uring_server.c\<close>). What the
  kernel does is the sequence of events. \<open>None\<close> is undefined behaviour or an event that the kernel
  does not report.
\<close>

section \<open>The reactor\<close>

record echo_conn =
  rbuf :: string
  rlen :: int
  wbuf :: string
  wlen :: int

datatype watch = In | Out
datatype ready_cb = On_accept | On_recv

text \<open>
  \<open>got\<close> are the bytes that the connection of a descriptor has received, \<open>sent\<close> those that \<open>send\<close> took,
  and \<open>lost\<close> the number of bytes it did not take.
\<close>

record echo_server =
  conns :: "nat \<Rightarrow> echo_conn"
  cbs :: "nat \<rightharpoonup> ready_cb"
  watched :: "nat \<rightharpoonup> watch"
  got :: "nat \<Rightarrow> string"
  sent :: "nat \<Rightarrow> string"
  lost :: "nat \<Rightarrow> nat"

text \<open>Results of \<open>recv\<close>; \<open>Zero\<close> is the result for a closed connection, and for a call that asks for no bytes.\<close>

datatype recv_answer = Got string | Zero | Fails

definition empty_conn :: "nat \<Rightarrow> echo_conn" where
  "empty_conn n = \<lparr>rbuf = replicate n NUL, rlen = 0, wbuf = replicate n NUL, wlen = 0\<rparr>"

text \<open>\<open>m\<close> is the number of entries of \<open>connlist\<close>, \<open>n\<close> the size of a buffer, \<open>respond\<close> what \<open>recv_cb\<close> does with the bytes.\<close>

definition on_accept :: "nat \<Rightarrow> nat \<Rightarrow> echo_server \<Rightarrow> int \<Rightarrow> echo_server option" where
  "on_accept m n R clientfd =
     (if clientfd < 0 then Some R
      else let fd = nat clientfd
        in if m \<le> fd then None
           else Some (R\<lparr>watched := (watched R)(fd \<mapsto> In), conns := (conns R)(fd := empty_conn n), cbs := (cbs R)(fd \<mapsto> On_recv),
                        got := (got R)(fd := []), sent := (sent R)(fd := []), lost := (lost R)(fd := 0)\<rparr>))"

definition on_recv :: "nat \<Rightarrow> (echo_conn \<Rightarrow> echo_conn option) \<Rightarrow> echo_server \<Rightarrow> nat \<Rightarrow> recv_answer \<Rightarrow> echo_server option" where
  "on_recv n respond R fd res =
     (let c = conns R fd; idx = nat (rlen c)
      in if rlen c < 0 then None
         else case res of
           Zero \<Rightarrow> Some (R\<lparr>watched := (watched R)(fd := None)\<rparr>)
         | Fails \<Rightarrow>
             do { c \<leftarrow> respond (c\<lparr>rlen := rlen c - 1\<rparr>);
                  Some (R\<lparr>conns := (conns R)(fd := c), watched := (watched R)(fd \<mapsto> Out)\<rparr>) }
         | Got d \<Rightarrow>
             if d = [] \<or> n < idx + length d then None
             else do {
               c \<leftarrow> respond (c\<lparr>rbuf := take idx (rbuf c) @ d @ drop (idx + length d) (rbuf c), rlen := rlen c + int (length d)\<rparr>);
               Some (R\<lparr>conns := (conns R)(fd := c), watched := (watched R)(fd \<mapsto> Out), got := (got R)(fd := got R fd @ d)\<rparr>) })"

text \<open>\<open>send_cb\<close> does not look at the result \<open>count\<close> of \<open>send\<close>.\<close>

definition on_send :: "echo_server \<Rightarrow> nat \<Rightarrow> int \<Rightarrow> echo_server option" where
  "on_send R fd count =
     (let c = conns R fd
      in if count < -1 \<or> wlen c < count then None
         else Some (R\<lparr>watched := (watched R)(fd \<mapsto> In), sent := (sent R)(fd := sent R fd @ take (nat count) (wbuf c)),
                      lost := (lost R)(fd := lost R fd + (nat (wlen c) - nat count))\<rparr>))"

datatype ready_event = Acceptable nat int | Inp nat recv_answer | Outp nat int

definition ready :: "nat \<Rightarrow> nat \<Rightarrow> (echo_conn \<Rightarrow> echo_conn option) \<Rightarrow> echo_server \<Rightarrow> ready_event \<Rightarrow> echo_server option" where
  "ready m n respond R ev = (case ev of
     Acceptable fd clientfd \<Rightarrow> if watched R fd = Some In \<and> cbs R fd = Some On_accept then on_accept m n R clientfd else None
   | Inp fd res \<Rightarrow> if watched R fd = Some In \<and> cbs R fd = Some On_recv then on_recv n respond R fd res else None
   | Outp fd count \<Rightarrow> if watched R fd = Some Out \<and> cbs R fd = Some On_recv then on_send R fd count else None)"

fun main_loop :: "nat \<Rightarrow> nat \<Rightarrow> (echo_conn \<Rightarrow> echo_conn option) \<Rightarrow> ready_event list \<Rightarrow> echo_server \<Rightarrow> echo_server option" where
  "main_loop m n respond [] R = Some R"
| "main_loop m n respond (ev # evs) R = do { R \<leftarrow> ready m n respond R ev; main_loop m n respond evs R }"

text \<open>The listening descriptors before the loop.\<close>

definition listening :: "nat list \<Rightarrow> echo_server" where
  "listening fds = \<lparr>conns = (\<lambda>_. empty_conn 0), cbs = (\<lambda>fd. if fd \<in> set fds then Some On_accept else None),
     watched = (\<lambda>fd. if fd \<in> set fds then Some In else None), got = (\<lambda>_. []), sent = (\<lambda>_. []), lost = (\<lambda>_. 0)\<rparr>"

section \<open>Echo\<close>

definition echo :: "echo_conn \<Rightarrow> echo_conn option" where
  "echo c =
     (if rlen c < 0 then None
      else Some (c\<lparr>wbuf := take (nat (rlen c)) (rbuf c) @ drop (nat (rlen c)) (wbuf c), wlen := rlen c, rlen := 0\<rparr>))"

definition echo_loop :: "ready_event list \<Rightarrow> echo_server \<Rightarrow> echo_server option" where
  "echo_loop = main_loop 1048576 512 echo"

section \<open>The web server\<close>

definition web_text :: string where
  "web_text =
     (let crlf = [CHR 0x0D, CHR 0x0A]
      in ''HTTP/1.1 200 OK'' @ crlf @ ''Accept-Ranges: bytes'' @ crlf @ ''Content-Length: 82'' @ crlf @
         ''Content-Type: text/html'' @ crlf @ ''Date: Sat, 06 Aug 2023 13:16:46 GMT'' @ crlf @ crlf @
         ''<html><head><title>0voice.king</title></head><body><h1>King</h1></body></html>'' @ crlf @ crlf)"

definition http_response :: "echo_conn \<Rightarrow> echo_conn option" where
  "http_response c =
     (if length web_text < length (wbuf c)
      then Some (c\<lparr>wbuf := web_text @ NUL # drop (Suc (length web_text)) (wbuf c), wlen := int (length web_text)\<rparr>)
      else None)"

definition web_loop :: "ready_event list \<Rightarrow> echo_server \<Rightarrow> echo_server option" where
  "web_loop = main_loop 1024 1024 http_response"

section \<open>Echo with io_uring\<close>

datatype ring_op = Op_accept | Op_recv int | Op_send int

text \<open>
  Operations that are prepared, those that are submitted, and the completions with their results; one
  buffer for all connections, and what was sent.
\<close>

record ring_server =
  prepared :: "ring_op list"
  submitted :: "ring_op list"
  completed :: "(ring_op \<times> int) list"
  shared :: string
  ring_sent :: "(int \<times> string) list"

text \<open>
  The kernel carries out a submitted operation, or the server makes a turn. The batch of completions is
  asked for with the size of the array in bytes, so more than the 128 it has room for overflow it.
\<close>

datatype ring_event = Ring_accept int | Ring_recv int string | Ring_send int | Ring_fail ring_op int | Ring_turn

definition handle_completion :: "ring_server \<Rightarrow> ring_op \<times> int \<Rightarrow> ring_server" where
  "handle_completion U cqe = (case cqe of
     (Op_accept, res) \<Rightarrow> U\<lparr>prepared := prepared U @ [Op_accept, Op_recv res]\<rparr>
   | (Op_recv fd, res) \<Rightarrow> if res = 0 then U else U\<lparr>prepared := prepared U @ [Op_send fd]\<rparr>
   | (Op_send fd, res) \<Rightarrow> U\<lparr>prepared := prepared U @ [Op_recv fd]\<rparr>)"

text \<open>One turn: the completions are handled, and then what was prepared is submitted.\<close>

definition ring_turn :: "ring_server \<Rightarrow> ring_server" where
  "ring_turn U =
     (let U' = foldl handle_completion (U\<lparr>completed := []\<rparr>) (completed U)
      in U'\<lparr>prepared := [], submitted := submitted U' @ prepared U'\<rparr>)"

fun ring_step :: "ring_event \<Rightarrow> ring_server \<Rightarrow> ring_server option" where
  "ring_step (Ring_accept fd) U =
     (if Op_accept \<in> set (submitted U)
      then Some (U\<lparr>submitted := remove1 Op_accept (submitted U), completed := completed U @ [(Op_accept, fd)]\<rparr>) else None)"
| "ring_step (Ring_recv fd d) U =
     (if Op_recv fd \<in> set (submitted U) \<and> length d \<le> 1024
      then Some (U\<lparr>submitted := remove1 (Op_recv fd) (submitted U), completed := completed U @ [(Op_recv fd, int (length d))],
                   shared := d @ drop (length d) (shared U)\<rparr>) else None)"
| "ring_step (Ring_send fd) U =
     (if Op_send fd \<in> set (submitted U)
      then Some (U\<lparr>submitted := remove1 (Op_send fd) (submitted U), completed := completed U @ [(Op_send fd, 1024)],
                   ring_sent := ring_sent U @ [(fd, take 1024 (shared U))]\<rparr>) else None)"
| "ring_step (Ring_fail op res) U =
     (if op \<in> set (submitted U) \<and> res < 0
      then Some (U\<lparr>submitted := remove1 op (submitted U), completed := completed U @ [(op, res)]\<rparr>) else None)"
| "ring_step Ring_turn U = (if 128 < length (completed U) then None else Some (ring_turn U))"

fun ring_run :: "ring_event list \<Rightarrow> ring_server \<Rightarrow> ring_server option" where
  "ring_run [] U = Some U"
| "ring_run (ev # evs) U = do { U \<leftarrow> ring_step ev U; ring_run evs U }"

definition ring_start :: ring_server where
  "ring_start = \<lparr>prepared = [], submitted = [Op_accept], completed = [], shared = replicate 1024 NUL, ring_sent = []\<rparr>"

section \<open>Lemmas\<close>

text \<open>Of every connection: the buffers, and what is still to be sent.\<close>

definition to_send :: "echo_server \<Rightarrow> nat \<Rightarrow> string" where
  "to_send R fd = (if watched R fd = Some Out then take (nat (wlen (conns R fd))) (wbuf (conns R fd)) else [])"

definition echo_conn_inv :: "nat \<Rightarrow> echo_server \<Rightarrow> nat \<Rightarrow> bool" where
  "echo_conn_inv n R fd \<longleftrightarrow> length (rbuf (conns R fd)) = n \<and> length (wbuf (conns R fd)) = n \<and> rlen (conns R fd) = 0 \<and>
     0 \<le> wlen (conns R fd) \<and> wlen (conns R fd) \<le> int n \<and>
     subseq (sent R fd @ to_send R fd) (got R fd) \<and> length (got R fd) = length (sent R fd @ to_send R fd) + lost R fd"

definition echo_inv :: "nat \<Rightarrow> echo_server \<Rightarrow> bool" where
  "echo_inv n R \<longleftrightarrow> (\<forall>fd. cbs R fd = Some On_recv \<longrightarrow> echo_conn_inv n R fd) \<and> (\<forall>fd. watched R fd = Some Out \<longrightarrow> cbs R fd = Some On_recv)"

lemma echo_inv_change:
  assumes "echo_inv n R" and "echo_conn_inv n R' fd" and "cbs R' fd = Some On_recv"
    and "\<And>fd'. fd' \<noteq> fd \<Longrightarrow> conns R' fd' = conns R fd' \<and> cbs R' fd' = cbs R fd' \<and> watched R' fd' = watched R fd' \<and>
      got R' fd' = got R fd' \<and> sent R' fd' = sent R fd' \<and> lost R' fd' = lost R fd'"
  shows "echo_inv n R'"
proof -
  have "echo_conn_inv n R' fd' = echo_conn_inv n R fd'" if "fd' \<noteq> fd" for fd' using assms(4) [OF that] by (simp add: echo_conn_inv_def to_send_def)
  then have "echo_conn_inv n R' fd'" if "cbs R' fd' = Some On_recv" for fd' using assms(1,2,4) that by (cases "fd' = fd") (auto simp: echo_inv_def)
  moreover have "cbs R' fd' = Some On_recv" if "watched R' fd' = Some Out" for fd'
    using assms(1,3,4) that by (cases "fd' = fd") (auto simp: echo_inv_def)
  ultimately show ?thesis by (simp add: echo_inv_def)
qed

lemma echo_inv_accept:
  assumes "on_accept m n R c = Some R'" and "echo_inv n R"
  shows "echo_inv n R'"
proof (cases "c < 0")
  case False
  then have "echo_conn_inv n R' (nat c)" "cbs R' (nat c) = Some On_recv"
    using assms(1) by (auto simp: on_accept_def echo_conn_inv_def to_send_def empty_conn_def Let_def split: if_splits)
  then show ?thesis using assms False by (elim echo_inv_change) (auto simp: on_accept_def Let_def split: if_splits)
qed (use assms in \<open>simp add: on_accept_def\<close>)

lemma echo_inv_recv:
  assumes "on_recv n echo R fd res = Some R'" and "echo_inv n R" and "watched R fd = Some In" and "cbs R fd = Some On_recv"
  shows "echo_inv n R'"
proof -
  have c: "echo_conn_inv n R fd" using assms(2,4) by (simp add: echo_inv_def)
  have l: "length (rbuf (conns R fd)) = n" "length (wbuf (conns R fd)) = n" "rlen (conns R fd) = 0" "to_send R fd = []"
      "subseq (sent R fd) (got R fd)" "length (got R fd) = length (sent R fd) + lost R fd"
    using c assms(3) by (simp_all add: echo_conn_inv_def to_send_def)
  have cn: "echo_conn_inv n R' fd"
  proof (cases res)
    case (Got d)
    then show ?thesis using assms(1) l
      by (auto simp: on_recv_def echo_def echo_conn_inv_def to_send_def Let_def list_emb_append_mono split: if_splits)
  qed (use assms c l in \<open>auto simp: on_recv_def echo_def echo_conn_inv_def to_send_def Let_def split: if_splits\<close>)
  show ?thesis
    by (rule echo_inv_change [OF assms(2) cn]) (use assms(1,4) in \<open>auto simp: on_recv_def Let_def split: if_splits recv_answer.splits Option.bind_split_asm\<close>)
qed

lemma echo_inv_send:
  assumes "on_send R fd count = Some R'" and "echo_inv n R" and "watched R fd = Some Out" and "cbs R fd = Some On_recv"
  shows "echo_inv n R'"
proof -
  let ?c = "conns R fd" let ?k = "nat count"
  have R': "R' = R\<lparr>watched := (watched R)(fd \<mapsto> In), sent := (sent R)(fd := sent R fd @ take ?k (wbuf ?c)),
      lost := (lost R)(fd := lost R fd + (nat (wlen ?c) - ?k))\<rparr>" and k: "?k \<le> nat (wlen ?c)"
    using assms(1) by (auto simp: on_send_def Let_def split: if_splits)
  have c: "echo_conn_inv n R fd" using assms(2,4) by (simp add: echo_inv_def)
  have "take ?k (wbuf ?c) = take ?k (to_send R fd)" using k assms(3) by (simp add: to_send_def)
  then have "subseq (sent R fd @ take ?k (wbuf ?c)) (sent R fd @ to_send R fd)"
    by (auto intro!: list_emb_append_mono prefix_imp_subseq take_is_prefix)
  then have "subseq (sent R fd @ take ?k (wbuf ?c)) (got R fd)" using c unfolding echo_conn_inv_def by (blast intro: subseq_order.order_trans)
  then have cn: "echo_conn_inv n R' fd" using c k assms(3) by (auto simp: R' echo_conn_inv_def to_send_def)
  show ?thesis by (rule echo_inv_change [OF assms(2) cn]) (use assms(4) in \<open>auto simp: R'\<close>)
qed

lemma echo_inv_ready: "ready m n echo R ev = Some R' \<Longrightarrow> echo_inv n R \<Longrightarrow> echo_inv n R'"
  by (auto simp: ready_def echo_inv_accept echo_inv_recv echo_inv_send split: ready_event.splits if_splits)

lemma echo_inv_loop: "main_loop m n echo evs R = Some R' \<Longrightarrow> echo_inv n R \<Longrightarrow> echo_inv n R'"
  by (induction evs arbitrary: R) (auto simp: echo_inv_ready split: Option.bind_split_asm)

lemma echo_inv_listening: "echo_inv n (listening fds)"
  by (simp add: echo_inv_def listening_def)

text \<open>The web server, packet by packet.\<close>

lemma web_text_length: "length web_text = 205"
  by (simp add: web_text_def)

lemma main_loop_append: "main_loop m n r (evs @ evs') R = do { R \<leftarrow> main_loop m n r evs R; main_loop m n r evs' R }"
  by (induction evs arbitrary: R) (auto split: bind_splits)

definition web_state :: "echo_server \<Rightarrow> nat \<Rightarrow> nat \<Rightarrow> bool" where
  "web_state R fd k \<longleftrightarrow> watched R fd = Some In \<and> cbs R fd = Some On_recv \<and> rlen (conns R fd) = int k \<and> length (wbuf (conns R fd)) = 1024"

lemma web_packet:
  assumes "web_state R fd k" and "d \<noteq> []" and "k + length d \<le> 1024"
  shows "\<exists>R'. main_loop 1024 1024 http_response [Inp fd (Got d), Outp fd 205] R = Some R' \<and> web_state R' fd (k + length d) \<and>
    sent R' fd = sent R fd @ web_text"
proof -
  let ?c = "conns R fd"
  have s: "watched R fd = Some In" "cbs R fd = Some On_recv" "rlen ?c = int k" "length (wbuf ?c) = 1024" using assms(1) by (simp_all add: web_state_def)
  let ?c1 = "?c\<lparr>rbuf := take k (rbuf ?c) @ d @ drop (k + length d) (rbuf ?c), rlen := int k + int (length d),
    wbuf := web_text @ NUL # drop 206 (wbuf ?c), wlen := 205\<rparr>"
  let ?R1 = "R\<lparr>conns := (conns R)(fd := ?c1), watched := (watched R)(fd \<mapsto> Out), got := (got R)(fd := got R fd @ d)\<rparr>"
  have "ready 1024 1024 http_response R (Inp fd (Got d)) = Some ?R1"
    using s assms(2,3) by (simp add: ready_def on_recv_def http_response_def web_text_length Let_def)
  moreover have "on_send ?R1 fd 205 = Some (?R1\<lparr>watched := (watched R)(fd \<mapsto> In), sent := (sent R)(fd := sent R fd @ web_text),
      lost := (lost R)(fd := lost R fd)\<rparr>)"
    by (simp add: on_send_def web_text_length)
  then have "ready 1024 1024 http_response ?R1 (Outp fd 205) = Some (?R1\<lparr>watched := (watched R)(fd \<mapsto> In),
      sent := (sent R)(fd := sent R fd @ web_text), lost := (lost R)(fd := lost R fd)\<rparr>)"
    using s(2) by (simp add: ready_def)
  ultimately show ?thesis using s by (simp add: web_state_def web_text_length)
qed

lemma web_packets:
  "web_state R fd k \<Longrightarrow> \<forall>d \<in> set ds. d \<noteq> [] \<Longrightarrow> k + length (concat ds) \<le> 1024 \<Longrightarrow>
   \<exists>R'. main_loop 1024 1024 http_response (concat (map (\<lambda>d. [Inp fd (Got d), Outp fd 205]) ds)) R = Some R' \<and>
     web_state R' fd (k + length (concat ds)) \<and> sent R' fd = sent R fd @ concat (map (\<lambda>_. web_text) ds)"
proof (induction ds arbitrary: R k)
  case (Cons d ds)
  let ?f = "\<lambda>d. [Inp fd (Got d), Outp fd 205]"
  have "d \<noteq> []" "k + length d \<le> 1024" using Cons.prems by simp_all
  with web_packet [OF Cons.prems(1)] obtain R1 where R1: "main_loop 1024 1024 http_response (?f d) R = Some R1" "web_state R1 fd (k + length d)"
      "sent R1 fd = sent R fd @ web_text" by metis
  have "\<forall>d \<in> set ds. d \<noteq> []" "k + length d + length (concat ds) \<le> 1024" using Cons.prems by simp_all
  with Cons.IH [OF R1(2)] obtain R' where R': "main_loop 1024 1024 http_response (concat (map ?f ds)) R1 = Some R'"
      "web_state R' fd (k + length d + length (concat ds))" "sent R' fd = sent R1 fd @ concat (map (\<lambda>_. web_text) ds)" by metis
  have "main_loop 1024 1024 http_response (concat (map ?f (d # ds))) R = Some R'"
    using main_loop_append [of 1024 1024 http_response "?f d" "concat (map ?f ds)" R]
    by (simp only: list.map concat.simps R1(1) R'(1) bind.bind_lunit)
  then show ?case using R'(2,3) R1(3) by (intro exI [of _ R']) (simp add: add.assoc)
qed simp

section \<open>Properties\<close>

text \<open>
  C38. The echo reactor sends back what it received: whatever the order of the events of all descriptors, the bytes
  sent on a connection and those still to be sent are the bytes received, in their order and without what
  \<open>send\<close> did not take; if every \<open>send\<close> took all, they are exactly the bytes received.
\<close>

theorem echo_returns_bytes:
  assumes "echo_loop evs (listening fds) = Some R" and "cbs R fd = Some On_recv"
  shows "subseq (sent R fd @ to_send R fd) (got R fd) \<and> length (got R fd) = length (sent R fd @ to_send R fd) + lost R fd \<and>
    (lost R fd = 0 \<longrightarrow> sent R fd @ to_send R fd = got R fd)"
proof -
  have "echo_inv 512 R" using echo_inv_loop [OF _ echo_inv_listening] assms(1) by (auto simp: echo_loop_def)
  then have "subseq (sent R fd @ to_send R fd) (got R fd)" "length (got R fd) = length (sent R fd @ to_send R fd) + lost R fd"
    using assms(2) by (auto simp: echo_inv_def echo_conn_inv_def)
  then show ?thesis by (metis add.right_neutral subseq_same_length)
qed

theorem echo_returns_bytes_witness:
  "\<exists>R. echo_loop [Acceptable 3 5, Acceptable 3 6, Inp 5 (Got ''ab''), Inp 6 (Got ''c''), Outp 5 2, Inp 5 (Got ''d'')] (listening [3]) = Some R \<and>
     sent R 5 @ to_send R 5 = ''abd''"
proof -
  obtain R where R: "echo_loop [Acceptable 3 5, Acceptable 3 6, Inp 5 (Got ''ab''), Inp 6 (Got ''c''), Outp 5 2, Inp 5 (Got ''d'')] (listening [3]) = Some R"
      "cbs R 5 = Some On_recv" "lost R 5 = 0" "got R 5 = ''abd''"
    by (simp add: echo_loop_def listening_def ready_def on_accept_def on_recv_def on_send_def echo_def empty_conn_def)
  with echo_returns_bytes [OF R(1,2)] show ?thesis by auto
qed

text \<open>
  The web server closes a connection after 1024 bytes: \<open>recv_cb\<close> never takes back \<open>rlen\<close>, so a client whose
  packets fill the buffer gets the page once for each packet, and at its next packet \<open>recv\<close> is asked for
  no bytes; whatever happens then, the descriptor is closed or the behaviour undefined.
\<close>

theorem web_closes_after_1024:
  assumes "\<forall>d \<in> set ds. d \<noteq> []" and "length (concat ds) = 1024" and "fd < 1024" and "lfd \<noteq> fd"
  shows "\<exists>R. web_loop (Acceptable lfd (int fd) # concat (map (\<lambda>d. [Inp fd (Got d), Outp fd 205]) ds)) (listening [lfd]) = Some R \<and>
    sent R fd = concat (map (\<lambda>_. web_text) ds) \<and> watched R fd = Some In \<and>
    (\<forall>res R'. res \<noteq> Fails \<and> web_loop [Inp fd res] R = Some R' \<longrightarrow> watched R' fd = None)"
proof -
  obtain R0 where R0: "ready 1024 1024 http_response (listening [lfd]) (Acceptable lfd (int fd)) = Some R0" "web_state R0 fd 0" "sent R0 fd = []"
    using assms(3) by (auto simp: ready_def listening_def on_accept_def web_state_def empty_conn_def)
  obtain R where R: "main_loop 1024 1024 http_response (concat (map (\<lambda>d. [Inp fd (Got d), Outp fd 205]) ds)) R0 = Some R"
      "web_state R fd 1024" "sent R fd = concat (map (\<lambda>_. web_text) ds)"
    using web_packets [OF R0(2), of ds] assms(1,2) R0(3) by auto
  have "watched R' fd = None" if "res \<noteq> Fails" "web_loop [Inp fd res] R = Some R'" for res R'
    using that R(2) by (cases res) (auto simp: web_loop_def ready_def web_state_def on_recv_def Let_def split: if_splits)
  then show ?thesis using R0(1) R by (intro exI [of _ R]) (auto simp: web_loop_def web_state_def)
qed

theorem web_closes_after_1024_witness:
  "\<exists>R. web_loop [Acceptable 3 5, Inp 5 (Got (replicate 1024 (CHR ''x''))), Outp 5 205] (listening [3]) = Some R \<and> sent R 5 = web_text \<and>
     (\<forall>R'. web_loop [Inp 5 Zero] R = Some R' \<longrightarrow> watched R' 5 = None)"
proof -
  obtain R where "web_loop [Acceptable 3 5, Inp 5 (Got (replicate 1024 (CHR ''x''))), Outp 5 205] (listening [3]) = Some R" "sent R 5 = web_text"
      "\<forall>res R'. res \<noteq> Fails \<and> web_loop [Inp 5 res] R = Some R' \<longrightarrow> watched R' 5 = None"
    using web_closes_after_1024 [of "[replicate 1024 (CHR ''x'')]" 5 3] by auto
  then show ?thesis by blast
qed

text \<open>A connection alone on the io_uring server: a turn for each packet and for each reply.\<close>

definition ring_round :: "int \<Rightarrow> string \<Rightarrow> ring_event list" where
  "ring_round fd d = [Ring_recv fd d, Ring_turn, Ring_send fd, Ring_turn]"

definition ring_idle :: "int \<Rightarrow> ring_server \<Rightarrow> bool" where
  "ring_idle fd U \<longleftrightarrow> prepared U = [] \<and> submitted U = [Op_accept, Op_recv fd] \<and> completed U = [] \<and> length (shared U) = 1024"

lemma ring_run_append: "ring_run (evs @ evs') U = do { U \<leftarrow> ring_run evs U; ring_run evs' U }"
  by (induction evs arbitrary: U) (auto split: bind_splits)

lemma ring_round_idle:
  assumes "ring_idle fd U" and "d \<noteq> []" and "length d \<le> 1024"
  shows "\<exists>U'. ring_run (ring_round fd d) U = Some U' \<and> ring_idle fd U' \<and> ring_sent U' = ring_sent U @ [(fd, d @ drop (length d) (shared U))]"
  using assms by (simp add: ring_idle_def ring_round_def ring_turn_def handle_completion_def)

text \<open>
  The io_uring echo server answers a connection that is alone: every reply has 1024 bytes and starts with
  the packet it answers.
\<close>

theorem ring_echo_alone:
  assumes "\<forall>d \<in> set ds. d \<noteq> [] \<and> length d \<le> 1024"
  shows "\<exists>U. ring_run ([Ring_accept fd, Ring_turn] @ concat (map (ring_round fd) ds)) ring_start = Some U \<and>
    list_all2 (\<lambda>d (to, s). to = fd \<and> length s = 1024 \<and> prefix d s) ds (ring_sent U)"
proof -
  have "\<exists>U'. ring_run (concat (map (ring_round fd) ds)) U = Some U' \<and>
      (\<exists>ss. ring_sent U' = ring_sent U @ ss \<and> list_all2 (\<lambda>d (to, s). to = fd \<and> length s = 1024 \<and> prefix d s) ds ss)" if "ring_idle fd U" for U
    using assms that
  proof (induction ds arbitrary: U)
    case (Cons d ds)
    then obtain U1 where U1: "ring_run (ring_round fd d) U = Some U1" "ring_idle fd U1" "ring_sent U1 = ring_sent U @ [(fd, d @ drop (length d) (shared U))]"
      using ring_round_idle [of fd U d] by auto
    obtain U' ss where U': "ring_run (concat (map (ring_round fd) ds)) U1 = Some U'" "ring_sent U' = ring_sent U1 @ ss"
        "list_all2 (\<lambda>d (to, s). to = fd \<and> length s = 1024 \<and> prefix d s) ds ss"
      using Cons.IH [OF _ U1(2)] Cons.prems(1) by auto
    have "length (d @ drop (length d) (shared U)) = 1024" using Cons.prems by (simp add: ring_idle_def)
    then show ?case using U1 U' by (intro exI [of _ U'] conjI exI [of _ "(fd, d @ drop (length d) (shared U)) # ss"]) (simp_all add: ring_run_append)
  qed simp
  moreover obtain U0 where "ring_run [Ring_accept fd, Ring_turn] ring_start = Some U0" "ring_idle fd U0" "ring_sent U0 = []"
    by (simp add: ring_start_def ring_turn_def handle_completion_def ring_idle_def)
  ultimately show ?thesis unfolding ring_run_append by fastforce
qed

theorem ring_echo_alone_witness:
  "\<exists>U. ring_run ([Ring_accept 5, Ring_turn] @ concat (map (ring_round 5) [''ab'', ''c''])) ring_start = Some U \<and> length (ring_sent U) = 2"
proof -
  have "\<forall>d \<in> set [''ab'', ''c'']. d \<noteq> [] \<and> length d \<le> 1024" by simp
  from ring_echo_alone [OF this, of 5] obtain U
    where U: "ring_run ([Ring_accept 5, Ring_turn] @ concat (map (ring_round 5) [''ab'', ''c''])) ring_start = Some U"
      "list_all2 (\<lambda>d (to, s). to = 5 \<and> length s = 1024 \<and> prefix d s) [''ab'', ''c''] (ring_sent U)" by blast
  from list_all2_lengthD [OF U(2)] have "length (ring_sent U) = 2" by simp
  with U(1) show ?thesis by blast
qed

text \<open>
  Connections of the io_uring echo server see each other's data: all use one buffer, so when a second
  client's packet arrives before the reply to a first one is sent, the first client gets the packet of the second.
\<close>

theorem ring_echo_crosses:
  assumes "a \<noteq> b" and "x \<noteq> []" and "y \<noteq> []" and "length x \<le> length y" and "length y \<le> 1024"
  shows "\<exists>U. ring_run [Ring_accept a, Ring_turn, Ring_accept b, Ring_turn, Ring_recv a x, Ring_recv b y, Ring_turn, Ring_send a] ring_start = Some U \<and>
    ring_sent U = [(a, y @ replicate (1024 - length y) NUL)]"
  using assms by (simp add: ring_start_def ring_turn_def handle_completion_def)

theorem ring_echo_crosses_witness:
  "\<exists>U. ring_run [Ring_accept 5, Ring_turn, Ring_accept 6, Ring_turn, Ring_recv 5 ''mine'', Ring_recv 6 ''yours'', Ring_turn, Ring_send 5] ring_start = Some U \<and>
     ring_sent U = [(5, ''yours'' @ replicate (1024 - 5) NUL)]"
  using ring_echo_crosses [of 5 6 "''mine''" "''yours''"] by simp

end
