(* ===== verification/Spec2Isabelle.thy ===== *)
theory Spec2Isabelle
  imports Mp_V1 Mp_V2 Net Nty_Queue Nty_Splay_Order Nty_Loop Nty_Socket Nty_Entry Km_Server
    Km_Handover Testcase Ws_Sample Bench_Sample Shm_Sample Echo_Sample
begin

text \<open>
  A verification of MutyDB, a key-value server in C with a text protocol, three storage engines, a
  write-ahead log and four interchangeable network front ends.

  \<^bold>\<open>The program.\<close> A front end receives a request in the read buffer of a connection and calls
  \<open>kvstore_requese\<close> (\<open>src/kvstore.c\<close>). This splits the request in place into words, looks up the
  command, calls one of the engines (an array, a hash table, a red-black tree), appends a record to
  the log for commands that change an engine, and leaves the reply in the write buffer, which the
  front end sends. At the start \<open>init_kvengine\<close> creates the engines and replays the log. The front
  ends are an epoll reactor (\<open>src/epoll_entry.c\<close>), an io_uring loop (\<open>src/io_uring_entry.c\<close>), a
  coroutine server (\<open>src/nty_entry.c\<close>) on the library NtyCo (\<open>src/NtyCo/core\<close>), and a server
  (\<open>src/kmuduo_entry.cc\<close>) on the C++ library Kmuduo (\<open>src/Kmuduo\<close>).

  \<^bold>\<open>Conventions.\<close> Stateful code is state passing on records. \<open>None\<close> stands for undefined behaviour
  (a null pointer, an access out of bounds, an indeterminate value, a freed object), a failed
  assertion or a process that ends, as each theory says; where an end is reported apart from
  undefined behaviour the result is of the type \<open>outcome\<close> of \<open>Protocol\<close>. Outcomes of allocations and
  what the kernel answers are arguments or fields of the state. \<open>int\<close> counters have their limit
  \<open>INT_MAX\<close> written out (\<open>c_inc\<close>, \<open>c_dec\<close>), status and event masks are words of their width, sizes
  that provably do not wrap are natural numbers. Loops whose end is a fact to be proved are
  \<open>partial_function (option)\<close>, so that not returning is \<open>None\<close> as well, and the theorems show that
  they return; no fuel is used.

  \<^bold>\<open>Foundations.\<close>
  \<^item> \<open>CPrelude\<close>: C strings, pointers, allocation outcomes, limits of \<open>int\<close>, generic lemmas.
  \<^item> \<open>KvSpec\<close>: the specification of a key-value engine as a map, and the locale of engines that
    implement it, in which sequences of calls are proved correct once.
  \<^item> \<open>CText\<close>: decimal printing, words and blanks of text.

  \<^bold>\<open>Engines.\<close>
  \<^item> \<open>Kvs_Array\<close> (\<open>kvstore_array.c\<close>): the table of slots with its counter. The count is the number of
    live slots in every reachable state; deletion leaves holes with the consequences shown.
  \<^item> \<open>Kvs_Hash\<close> (\<open>kvstore_hash.c\<close>): hash function, chains, counter; the engine refines a map.
  \<^item> \<open>Rb_Heap\<close>, \<open>Rb_Zip\<close>, \<open>Rb_Insert\<close>, \<open>Rb_Delete\<close>, \<open>Kvs_Rbtree\<close> (\<open>kvstore_rbtree.c\<close>): the tree of nodes
    with parent pointers and a sentinel on an explicit heap, rotations, both fix-up loops, search,
    insertion, deletion and traversal. The loops terminate, the heap stays a linked red-black
    search tree of logarithmic height, and the engine refines a map on which SET keeps old values.

  \<^bold>\<open>Requests and log.\<close>
  \<^item> \<open>Wal\<close> (\<open>kvstore.c\<close>): the directory of files, appending, rotation over the archives, the scanner
    and the replay; a replay executes the appended records in order.
  \<^item> \<open>Protocol\<close> (\<open>kvstore.c\<close>): tokenisation, the fifteen commands with replies and log records, start
    and restart. A restart on the files of a session gives the engines of the old process; the
    commands for which this fails are shown as well.

  \<^bold>\<open>Memory pools.\<close> \<open>Mp_V1\<close> (\<open>kvstore_mpv1.c\<close>, fixed-size blocks in a page) and \<open>Mp_V2\<close>
  (\<open>kvstore_mpv2.c\<close>, a list of chunks): blocks handed out are apart and inside of their memory, with
  the sizes for which this fails.

  \<^bold>\<open>Front ends.\<close>
  \<^item> \<open>Net\<close>: the epoll reactor, the io_uring loop and the reader of the coroutine server. The locale
    \<open>front_end\<close> states what a front end does with one request and proves that a session then agrees
    with the coroutine server; it is interpreted for the reactor, the io_uring loop and Kmuduo.
  \<^item> \<open>Nty_Queue\<close> (\<open>nty_queue.h\<close>): the four families of intrusive lists on a memory of links; the
    locale \<open>intrusive_list\<close> is interpreted for each.
  \<^item> \<open>Nty_Sched\<close> (\<open>nty_coroutine.c\<close>, \<open>nty_schedule.c\<close>, \<open>nty_epoll.c\<close>, \<open>nty_poll_inner\<close>): coroutines, the
    ready queue, sleeping and waiting coroutines, the copied stack, the main loop. \<open>Nty_Inv\<close> has the
    invariant, \<open>Nty_Loop\<close> the loops and the theorems: for functions that poll their own descriptors
    the scheduler is safe and runs every coroutine to its end, at most as many rounds as the
    functions have steps being enough.
  \<^item> \<open>Nty_Tree\<close> (\<open>nty_tree.h\<close>): the red-black macros on a memory of entries; \<open>Nty_Tree_Insert\<close>,
    \<open>Nty_Tree_Remove\<close> and \<open>Nty_Tree_Order\<close> prove that their loops end, that links and colours are kept
    (with the generic trees and zippers of \<open>Rb_Shape\<close>, which the red-black engine uses too) and what
    search, insertion, removal and traversal do, in the locale \<open>rb_order\<close> over the comparison
    function. \<open>Nty_Tree_Sched\<close> has the comparison functions of the scheduler (locale
    \<open>coroutine_order\<close>) and the contract of a family of macros (locale \<open>coroutine_tree\<close>): sequences of
    calls on it implement the operations on ordered elements of \<open>Nty_Sched\<close>. \<open>Nty_Splay\<close> has the
    splay macros, with the local node that collects the two sides; \<open>Nty_Splay_Inv\<close> relates the loop to
    a function on trees, and \<open>Nty_Splay_Order\<close> proves the same contract for them.
  \<^item> \<open>Nty_Socket\<close> (\<open>nty_socket.c\<close>): the socket calls and the replaced calls of the C library. Sending
    keeps the order of bytes (locale \<open>byte_sender\<close>), and every call is of the kind for which the
    scheduler theorems hold.
  \<^item> \<open>Nty_Entry\<close> (\<open>nty_entry.c\<close>): the accepting coroutine and the readers written with the calls of
    \<open>Nty_Socket\<close> and run by the scheduler. A reader implements the one of \<open>Net\<close>, other coroutines
    in between, and the server with any number of connections runs to the end of its coroutines.
  \<^item> \<open>Km_Buffer\<close> (\<open>Buffer.h\<close>, \<open>Buffer.cc\<close>), \<open>Km_Conn\<close> (\<open>Channel\<close>, \<open>EPollPoller\<close>, \<open>EventLoop\<close>,
    \<open>TcpConnection\<close>), \<open>Km_Server\<close> (\<open>kmuduo_entry.cc\<close>): the buffer refines a queue of bytes, a
    connection never loses or reorders bytes of its replies, and sessions agree with those of the
    other front ends.
  \<^item> \<open>Km_Loop\<close> (\<open>EventLoop.cc\<close>, \<open>EventLoopThread.cc\<close>): the loop as a step relation with other threads in
    between; no wake-up is lost, and a turn ends with the queue called. \<open>Km_Pool\<close> (\<open>inetAddress.cc\<close>,
    \<open>Acceptor.cc\<close>, \<open>TcpServer.cc\<close>, \<open>EventLoopThreadPool.cc\<close>, \<open>EPollPoller::poll\<close>): the table of
    connections and the loops they are given to. \<open>Km_Handover\<close> joins the two: what the server hands to
    a loop of the pool is called there in order.

  \<^bold>\<open>Test client.\<close> \<open>Testcase\<close> (\<open>testcase.c\<close>): the test functions and \<open>main\<close>, run against the coroutine
  server. The locale \<open>counted_engine\<close> has the test with many nodes, interpreted for the tree and the
  hash table; all tests that \<open>main\<close> runs pass, those it has commented out cannot.

  \<^bold>\<open>Samples\<close> (\<open>NtyCo/sample\<close>).
  \<^item> \<open>Ws_Sample\<close> (\<open>nty_websocket_server.c\<close>): frames and handshake; short frames are sent back, long ones
    garbled, and the handshake answers with the digest of the key. SHA1 and base64 of OpenSSL are
    parameters.
  \<^item> \<open>Http_Sample\<close> (\<open>nty_http_server.c\<close>, \<open>nty_http_server_mulcore.c\<close>): lines, the request line, answers
    and files; lines are read without loss, files are served, and the two servers refuse alike.
  \<^item> \<open>Bench_Sample\<close> (\<open>nty_bench.c\<close>): the request that the benchmark builds and its counts, run against the
    HTTP server of \<open>Http_Sample\<close>; every request for a file is counted as a success.
  \<^item> \<open>Shm_Sample\<close> (\<open>ntyco_httpd.c\<close>, \<open>nty_server_mulcore.c\<close>): processes that share a lock, counts of
    connections and a counter, in any order of their steps; one process at a time accepts, and the
    counts and the counter are exact.

  \<^bold>\<open>Earlier servers.\<close> \<open>Echo_Sample\<close> (\<open>multi-io-main/reactorrr.c\<close>, \<open>webserver.c\<close>, \<open>io_uring/io_uring_server.c\<close>):
  the reactor with the echo and the web page, and the echo on io_uring. The reactor sends back the bytes
  received; the web server closes a connection after 1024 bytes, and connections of the io_uring server
  see each other's data.

  \<^bold>\<open>Abstractions.\<close> The scheduler model uses the trees of \<open>nty_tree.h\<close> as their elements in ascending
  order, justified by \<open>Nty_Tree_Sched\<close>, and the function of a coroutine as the sequence of its
  library calls. A Kmuduo connection is seen from the thread of its loop, and its server from the
  thread of the base loop; threads take turns at the accesses to shared fields of a loop. \<open>ucontext\<close>,
  liburing, epoll and the C library appear as what they are documented to do.

  \<^bold>\<open>Not modelled.\<close> Socket set-up, which is system calls only; the logger, the clock and the wrapper of
  \<open>std::thread\<close> of Kmuduo; the remaining samples of NtyCo (clients of MySQL and Redis, the processes of
  the benchmark, the epoll variant of the HTTP server, \<open>execute_cgi\<close>, which is never reached); the
  clients and \<open>multi-io.c\<close> under \<open>multi-io-main\<close> and \<open>io_uring\<close>; generated build files.
\<close>

end
